(* ===== verification/Prelude.thy ===== *)
theory Prelude
  imports Main "HOL-Library.Word"
begin

text \<open>
  Shared vocabulary of the SojebOS development: the machine integers of the i386 target, the
  little-endian layout of 16- and 32-bit fields in byte buffers, NUL-terminated strings, and the
  control flow of C loops that return early (\<open>flow\<close>, \<open>for_each\<close>). Every component theory
  builds on these definitions and on the lemma collections declared here.
\<close>

unbundle bit_operations_syntax

section \<open>Machine integers\<close>

type_synonym u8 = "8 word"
type_synonym u16 = "16 word"
type_synonym u32 = "32 word"

text \<open>
  Lemma collections: \<open>layout_simps\<close> rewrites reads of byte buffers after writes, \<open>loop_simps\<close>
  unfolds one round of a C loop, \<open>word_nat\<close> moves word arithmetic without overflow to \<open>nat\<close>.
\<close>

named_theorems layout_simps
named_theorems loop_simps
named_theorems word_nat

text \<open>
  The C type \<open>int\<close> is a \<open>u32\<close> read with \<open>sint\<close>. A signed result that does not fit is undefined
  in C, the value \<open>None\<close>; the kernel is compiled without \<open>-fwrapv\<close>.
\<close>

definition s32 :: "int \<Rightarrow> u32 option" where
  "s32 v = (if - 2147483648 \<le> v \<and> v < 2147483648 then Some (word_of_int v) else None)"

section \<open>Little-endian fields\<close>

definition u16_le :: "u8 \<Rightarrow> u8 \<Rightarrow> u16" where
  "u16_le b0 b1 = ucast b0 OR push_bit 8 (ucast b1)"

definition u32_le :: "u8 \<Rightarrow> u8 \<Rightarrow> u8 \<Rightarrow> u8 \<Rightarrow> u32" where
  "u32_le b0 b1 b2 b3 =
     ucast b0 OR push_bit 8 (ucast b1) OR push_bit 16 (ucast b2) OR push_bit 24 (ucast b3)"

text \<open>Byte \<open>k\<close> of a word, counted from the least significant one.\<close>

definition byte_of :: "nat \<Rightarrow> 'a::len word \<Rightarrow> u8" where
  "byte_of k w = ucast (drop_bit (8 * k) w)"

definition bytes16 :: "u16 \<Rightarrow> u8 list" where
  "bytes16 v = [byte_of 0 v, byte_of 1 v]"

definition bytes32 :: "u32 \<Rightarrow> u8 list" where
  "bytes32 v = [byte_of 0 v, byte_of 1 v, byte_of 2 v, byte_of 3 v]"

definition load16 :: "u8 list \<Rightarrow> nat \<Rightarrow> u16" where
  "load16 bs i = u16_le (bs ! i) (bs ! (i + 1))"

definition load32 :: "u8 list \<Rightarrow> nat \<Rightarrow> u32" where
  "load32 bs i = u32_le (bs ! i) (bs ! (i + 1)) (bs ! (i + 2)) (bs ! (i + 3))"

text \<open>Overwriting a run of bytes of a buffer in place.\<close>

definition put_bytes :: "u8 list \<Rightarrow> nat \<Rightarrow> u8 list \<Rightarrow> u8 list" where
  "put_bytes bs i xs = take i bs @ xs @ drop (i + length xs) bs"

definition store32 :: "u8 list \<Rightarrow> nat \<Rightarrow> u32 \<Rightarrow> u8 list" where
  "store32 bs i v = put_bytes bs i (bytes32 v)"

text \<open>The compiler's \<open>__builtin_bswap16\<close> and \<open>__builtin_bswap32\<close>.\<close>

definition bswap16 :: "u16 \<Rightarrow> u16" where
  "bswap16 v = u16_le (byte_of 1 v) (byte_of 0 v)"

definition bswap32 :: "u32 \<Rightarrow> u32" where
  "bswap32 v = u32_le (byte_of 3 v) (byte_of 2 v) (byte_of 1 v) (byte_of 0 v)"

section \<open>Strings\<close>

text \<open>
  A C string is the list of its bytes without the terminator; reading it at the position after
  the last byte gives the NUL byte, as in memory. \<open>cstr\<close> turns a literal of the source into
  its bytes.
\<close>

definition cget :: "u8 list \<Rightarrow> nat \<Rightarrow> u8" where
  "cget str i = (if i < length str then str ! i else 0)"

definition cstr :: "string \<Rightarrow> u8 list" where
  "cstr = map of_char"

definition is_cstr :: "u8 list \<Rightarrow> bool" where
  "is_cstr str \<longleftrightarrow> 0 \<notin> set str"

text \<open>The string that starts at the head of a buffer: everything before the first NUL.\<close>

definition cstr_of :: "u8 list \<Rightarrow> u8 list" where
  "cstr_of bs = takeWhile (\<lambda>b. b \<noteq> 0) bs"

section \<open>C loops with early return\<close>

text \<open>
  The body of a loop either goes on with a new state or leaves the function with a result;
  \<open>for_each\<close> is the C loop \<open>for (i = ...; ...; i++)\<close> over the index values it takes.
\<close>

datatype ('s, 'r) flow = Go 's | Done 'r

fun for_each :: "('i \<Rightarrow> 's \<Rightarrow> ('s, 'r) flow) \<Rightarrow> 'i list \<Rightarrow> 's \<Rightarrow> ('s, 'r) flow" where
  "for_each f [] st = Go st"
| "for_each f (i # is) st = (case f i st of Go st' \<Rightarrow> for_each f is st' | Done r \<Rightarrow> Done r)"

text \<open>The same loop when the body never leaves the function.\<close>

definition for_all :: "('i \<Rightarrow> 's \<Rightarrow> 's) \<Rightarrow> 'i list \<Rightarrow> 's \<Rightarrow> 's" where
  "for_all f is st = fold f is st"

section \<open>Lemmas on words and their bytes\<close>

lemma unat_u8_less [simp]: "unat (b :: u8) < 256"
  using unsigned_less [of b, where ?'a = nat] by simp

lemma unat_u16_less [simp]: "unat (w :: u16) < 65536"
  using unsigned_less [of w, where ?'a = nat] by simp

lemma unat_u32_less [simp]: "unat (w :: u32) < 4294967296"
  using unsigned_less [of w, where ?'a = nat] by simp

lemma unat_of_nat_u32 [word_nat]: "n < 4294967296 \<Longrightarrow> unat (of_nat n :: u32) = n"
  by (simp add: unat_of_nat)

lemma unat_add_u32 [word_nat]:
  "unat a + unat b < 4294967296 \<Longrightarrow> unat (a + b :: u32) = unat a + unat b"
  using unat_add_lem [of a b] by simp

lemma unat_mult_u32 [word_nat]:
  "unat a * unat b < 4294967296 \<Longrightarrow> unat (a * b :: u32) = unat a * unat b"
  using unat_mult_lem [of a b] by simp

lemma unat_sub_u32 [word_nat]:
  "unat b \<le> unat a \<Longrightarrow> unat (a - b :: u32) = unat a - unat b"
  by (simp add: unat_sub word_le_nat_alt)

lemma unat_ucast_u8_u32 [simp]: "unat (ucast (b :: u8) :: u32) = unat b"
  by (simp add: unsigned_ucast_eq take_bit_nat_eq_self less_trans [OF unat_u8_less])

lemma unat_ucast_u16_u32 [simp]: "unat (ucast (w :: u16) :: u32) = unat w"
  by (simp add: unsigned_ucast_eq take_bit_nat_eq_self less_trans [OF unat_u16_less])

lemma u32_eqI: "unat a = unat b \<Longrightarrow> a = (b :: u32)"
  by (simp add: word_unat_eq_iff)

lemma of_nat_u32_eq_iff:
  "m < 4294967296 \<Longrightarrow> n < 4294967296 \<Longrightarrow> (of_nat m :: u32) = of_nat n \<longleftrightarrow> m = n"
  by (metis unat_of_nat_u32)

lemma less_2_cases_nat: "n < (2::nat) \<Longrightarrow> n = 0 \<or> n = 1"
  by auto

text \<open>Splitting a word into its bytes and joining them again is the identity.\<close>

lemma u16_le_byte_of [layout_simps]: "u16_le (byte_of 0 v) (byte_of (Suc 0) v) = v"
  by (rule bit_word_eqI)
    (auto simp: u16_le_def byte_of_def bit_simps)

lemma u32_le_byte_of [layout_simps]:
  "u32_le (byte_of 0 v) (byte_of (Suc 0) v) (byte_of 2 v) (byte_of 3 v) = v"
proof (rule bit_word_eqI)
  fix n assume "n < LENGTH(32)"
  then consider "n < 8" | "8 \<le> n \<and> n < 16" | "16 \<le> n \<and> n < 24" | "24 \<le> n \<and> n < 32"
    by fastforce
  then show "bit (u32_le (byte_of 0 v) (byte_of (Suc 0) v) (byte_of 2 v) (byte_of 3 v)) n = bit v n"
    by cases (auto simp: u32_le_def byte_of_def bit_simps)
qed

lemma byte_of_u16_le [layout_simps]:
  "byte_of 0 (u16_le b0 b1) = b0" "byte_of (Suc 0) (u16_le b0 b1) = b1"
  by (rule bit_word_eqI; auto simp: u16_le_def byte_of_def bit_simps dest: bit_imp_le_length)+

lemma byte_of_u32_le [layout_simps]:
  "byte_of 0 (u32_le b0 b1 b2 b3) = b0" "byte_of (Suc 0) (u32_le b0 b1 b2 b3) = b1"
  "byte_of 2 (u32_le b0 b1 b2 b3) = b2" "byte_of 3 (u32_le b0 b1 b2 b3) = b3"
  by (rule bit_word_eqI; auto simp: u32_le_def byte_of_def bit_simps dest: bit_imp_le_length)+

lemma bswap16_bswap16 [simp]: "bswap16 (bswap16 v) = v"
  by (simp add: bswap16_def layout_simps)

lemma bswap32_bswap32 [simp]: "bswap32 (bswap32 v) = v"
  by (simp add: bswap32_def layout_simps)

section \<open>Lemmas on byte buffers\<close>

lemma length_bytes [simp]: "length (bytes16 v) = 2" "length (bytes32 w) = 4"
  by (simp_all add: bytes16_def bytes32_def)

lemma length_put_bytes [simp]:
  "i + length xs \<le> length bs \<Longrightarrow> length (put_bytes bs i xs) = length bs"
  by (simp add: put_bytes_def)

lemma nth_put_bytes:
  assumes "i + length xs \<le> length bs" and "j < length bs"
  shows "put_bytes bs i xs ! j = (if i \<le> j \<and> j < i + length xs then xs ! (j - i) else bs ! j)"
  using assms by (auto simp: put_bytes_def nth_append min_def)

lemma length_store32 [simp]: "i + 4 \<le> length bs \<Longrightarrow> length (store32 bs i v) = length bs"
  by (simp add: store32_def)

lemma load32_store32_same [layout_simps]:
  assumes "i + 4 \<le> length bs"
  shows "load32 (store32 bs i v) i = v"
proof -
  have "store32 bs i v ! (i + k) = byte_of k v" if "k < 4" for k
  proof -
    have "k = 0 \<or> k = 1 \<or> k = 2 \<or> k = 3" using that by auto
    then show ?thesis using assms
      by (auto simp: store32_def nth_put_bytes bytes32_def)
  qed
  from this [of 0] this [of 1] this [of 2] this [of 3] show ?thesis
    by (simp add: load32_def u32_le_byte_of)
qed

lemma load32_store32_other [layout_simps]:
  assumes "i + 4 \<le> length bs" and "j + 4 \<le> length bs" and "j + 4 \<le> i \<or> i + 4 \<le> j"
  shows "load32 (store32 bs i v) j = load32 bs j"
proof -
  have "store32 bs i v ! (j + k) = bs ! (j + k)" if "k < 4" for k
    using assms that by (auto simp: store32_def nth_put_bytes)
  from this [of 0] this [of 1] this [of 2] this [of 3] show ?thesis
    by (simp add: load32_def)
qed

section \<open>Lemmas on strings\<close>

lemma cget_nonzero_less: "cget str i \<noteq> 0 \<Longrightarrow> i < length str"
  by (auto simp: cget_def split: if_splits)

lemma cget_eq_0_iff: "is_cstr str \<Longrightarrow> cget str i = 0 \<longleftrightarrow> length str \<le> i"
  by (auto simp: cget_def is_cstr_def dest: nth_mem)

lemma sint_eq_iff [simp]: "sint a = sint b \<longleftrightarrow> a = (b :: 'a::len word)"
  by (auto intro: signed_word_eqI)

lemma cstr_of_id: "is_cstr str \<Longrightarrow> cstr_of str = str"
  by (auto simp: cstr_of_def is_cstr_def takeWhile_eq_all_conv)

lemma cstr_of_nul: "is_cstr str \<Longrightarrow> cstr_of (str @ 0 # ys) = str"
  unfolding cstr_of_def is_cstr_def by (induction str) auto

lemma is_cstr_append [simp]: "is_cstr (xs @ ys) \<longleftrightarrow> is_cstr xs \<and> is_cstr ys"
  by (auto simp: is_cstr_def)

lemma put_bytes_Cons:
  "i + Suc (length xs) \<le> length bs \<Longrightarrow> put_bytes (bs[i := x]) (Suc i) xs = put_bytes bs i (x # xs)"
  by (simp add: put_bytes_def take_Suc_conv_app_nth)

lemma put_bytes_Nil [simp]: "put_bytes bs i [] = bs"
  by (simp add: put_bytes_def)

lemma put_bytes_append: "length xs = n \<Longrightarrow> put_bytes (xs @ ys) n zs = xs @ put_bytes ys 0 zs"
  by (auto simp: put_bytes_def)

lemma drop_cget: "is_cstr str \<Longrightarrow> cget str i \<noteq> 0 \<Longrightarrow> drop i str = cget str i # drop (Suc i) str"
  by (auto simp: cget_def Cons_nth_drop_Suc split: if_splits)

lemma drop_cget_0: "is_cstr str \<Longrightarrow> cget str i = 0 \<Longrightarrow> drop i str = []"
  by (simp add: cget_eq_0_iff)

section \<open>Lemmas on loops\<close>

lemma for_each_append:
  "for_each f (is @ js) st =
     (case for_each f is st of Go st' \<Rightarrow> for_each f js st' | Done r \<Rightarrow> Done r)"
  by (induction "is" arbitrary: st) (auto split: flow.split)

lemma for_each_Go_all:
  assumes "\<And>i. i \<in> set is \<Longrightarrow> f i st = Go st"
  shows "for_each f is st = Go st"
  using assms by (induction "is") auto

text \<open>
  A loop whose body leaves the state alone until it returns: it returns what the first
  returning index gives.
\<close>

lemma for_each_first:
  assumes "\<And>i. i \<in> set is \<Longrightarrow> f i st = Go st" and "f j st = Done r"
  shows "for_each f (is @ j # js) st = Done r"
  using assms by (simp add: for_each_append for_each_Go_all)

lemma for_each_invariant:
  assumes "P st" and "\<And>i st. i \<in> set is \<Longrightarrow> P st \<Longrightarrow>
      (case f i st of Go st' \<Rightarrow> P st' | Done r \<Rightarrow> Q r)"
  shows "case for_each f is st of Go st' \<Rightarrow> P st' | Done r \<Rightarrow> Q r"
  using assms
proof (induction "is" arbitrary: st)
  case (Cons i "is")
  show ?case
  proof (cases "f i st")
    case (Go st')
    with Cons.prems have "P st'" by (metis flow.simps(5) list.set_intros(1))
    with Cons Go show ?thesis by simp
  next
    case (Done r)
    with Cons.prems(1) Cons.prems(2) [of i st] show ?thesis by simp
  qed
qed simp

text \<open>Nested counting loops are one loop over the product range.\<close>

lemma for_each_map: "for_each f (map h xs) st = for_each (\<lambda>i. f (h i)) xs st"
  by (induction xs arbitrary: st) (auto split: flow.split)

lemma for_each_cong:
  "(\<And>i st. i \<in> set xs \<Longrightarrow> f i st = g i st) \<Longrightarrow> for_each f xs st = for_each g xs st"
  by (induction xs arbitrary: st) (auto split: flow.split)

lemma upt_mult_Suc: "[0..<Suc k * m] = [0..<k * m] @ map (\<lambda>j. k * m + j) [0..<m]"
proof -
  have "map (\<lambda>j. k * m + j) [0..<m] = [k * m..<m + k * m]"
    using map_add_upt [of "k * m" m] by (simp add: add.commute)
  moreover have "[0..<k * m + m] = [0..<k * m] @ [k * m..<k * m + m]"
    by (rule upt_add_eq_append) simp
  ultimately show ?thesis by (simp add: add.commute)
qed

lemma for_each_nested:
  "for_each (\<lambda>i. for_each (\<lambda>j. g (i * m + j)) [0..<m]) [0..<k] st = for_each g [0..<k * m] st"
proof (induction k)
  case (Suc k)
  show ?case
    unfolding upt_mult_Suc for_each_append
    by (simp add: for_each_append for_each_map Suc split: flow.split)
qed simp

lemma fold_nested:
  "fold (\<lambda>i. fold (\<lambda>j. g (i * m + j)) [0..<m]) [0..<k] st = fold g [0..<k * m] st"
proof (induction k)
  case (Suc k)
  show ?case
    unfolding upt_mult_Suc by (simp add: fold_map comp_def Suc)
qed simp

lemma for_each_find:
  "for_each (\<lambda>n _. if P n then Done (h n) else Go ()) xs () =
   (case find P xs of Some n \<Rightarrow> Done (h n) | None \<Rightarrow> Go ())"
  by (induction xs) auto

lemma find_upt_None: "find P [0..<n] = None \<longleftrightarrow> (\<forall>i < n. \<not> P i)"
  by (auto simp: find_None_iff)

lemma find_upt_Some: "find P [0..<n] = Some i \<longleftrightarrow> i < n \<and> P i \<and> (\<forall>j < i. \<not> P j)"
  by (auto simp: find_Some_iff)

lemma fold_count: "fold (\<lambda>n c. if P n then c + 1 else c) xs (c :: u32) = c + of_nat (length (filter P xs))"
  by (induction xs arbitrary: c) (auto simp: algebra_simps)

section \<open>Lemmas on searches\<close>

lemma for_each_concat: "for_each f (concat xss) acc = for_each (for_each f) xss acc"
  by (induction xss arbitrary: acc) (simp_all add: for_each_append split: flow.split)

lemma for_each_map_fun: "for_each f (map h xs) = for_each (\<lambda>i. f (h i)) xs"
  by (rule ext) (rule for_each_map)

text \<open>A search with a stop condition: the first hit before the first stop.\<close>

lemma for_each_search:
  "for_each (\<lambda>x _. if stop x then Done r else if hit x then Done (h x) else Go ()) xs () =
   (case find hit (takeWhile (\<lambda>x. \<not> stop x) xs) of
      Some x \<Rightarrow> Done (h x)
    | None \<Rightarrow> if \<exists>x \<in> set xs. stop x then Done r else Go ())"
  by (induction xs) (auto split: option.split)

lemma for_each_pre:
  assumes "find hit (takeWhile (\<lambda>x. \<not> stop x) xs) = Some y"
    and "\<And>x. x \<in> set xs \<Longrightarrow> \<not> stop x \<Longrightarrow> \<not> hit x \<Longrightarrow> f x () = Go ()" and "f y () = Done r"
  shows "for_each f xs () = Done r"
  using assms(1,2)
proof (induction xs)
  case (Cons x xs)
  then show ?case using assms(3) by (cases "hit x") (auto split: if_splits)
qed simp

lemma for_each_groups:
  assumes "for_each (for_each g) xss () = Done (Some x)"
  shows "for_each (\<lambda>xs _. case for_each g xs () of Done (Some y) \<Rightarrow> Done (Some y) | Done None \<Rightarrow> Go () | Go _ \<Rightarrow> Go ()) xss () =
    Done (Some x)"
  using assms by (induction xss) (auto split: flow.splits option.splits)

lemma find_filter: "find P (filter Q xs) = find (\<lambda>x. Q x \<and> P x) xs"
  by (induction xs) auto

lemma find_split:
  assumes "find P xs = Some x"
  obtains pre post where "xs = pre @ x # post" "\<forall>y \<in> set pre. \<not> P y" "P x"
  using assms
proof (induction xs arbitrary: thesis)
  case (Cons y xs)
  show ?case
  proof (cases "P y")
    case True
    with Cons.prems show ?thesis by (intro Cons.prems(1) [of "[]" xs]) auto
  next
    case False
    with Cons.prems(2) have "find P xs = Some x" by simp
    from Cons.IH [OF _ this] obtain pre post where "xs = pre @ x # post" "\<forall>y \<in> set pre. \<not> P y" "P x" by blast
    with False show ?thesis by (intro Cons.prems(1) [of "y # pre" post]) auto
  qed
qed simp

lemma find_prefix: "find P xs = Some x \<Longrightarrow> find P (xs @ ys) = Some x"
  by (induction xs) auto

text \<open>Dropping one element from a filtered prefix of a list without duplicates.\<close>

lemma filter_takeWhile_mark:
  assumes "distinct xs" and "\<And>x. x \<in> set xs \<Longrightarrow> P' x = P x"
    and "\<And>x. x \<in> set xs \<Longrightarrow> Q' x = (x \<noteq> a \<and> Q x)"
  shows "filter Q' (takeWhile P' xs) = remove1 a (filter Q (takeWhile P xs))"
proof -
  have "takeWhile P' xs = takeWhile P xs" using assms(2) by (auto intro: takeWhile_cong)
  moreover have "filter Q' (takeWhile P xs) = filter (\<lambda>x. a \<noteq> x) (filter Q (takeWhile P xs))"
    using assms(3) by (auto intro!: filter_cong dest: set_takeWhileD)
  ultimately show ?thesis
    using assms(1) by (simp add: distinct_remove1_removeAll distinct_takeWhile removeAll_filter_not_eq conj_commute)
qed

section \<open>Lemmas on signed integers\<close>

lemma sint_nonneg_iff: "0 \<le> sint w \<longleftrightarrow> unat (w :: u32) < 2147483648"
proof -
  have "sint w < 0 \<longleftrightarrow> bit w 31" using bit_last_iff [of w] by simp
  also have "\<dots> \<longleftrightarrow> odd (unat w div 2147483648)"
  proof -
    have "bit w 31 \<longleftrightarrow> bit (unat w) 31" by (simp add: bit_unsigned_iff)
    then show ?thesis by (simp add: bit_iff_odd)
  qed
  also have "\<dots> \<longleftrightarrow> 2147483648 \<le> unat w"
  proof -
    have "unat w div 2147483648 < 2" using unat_u32_less [of w] by (simp add: less_mult_imp_div_less)
    then have "unat w div 2147483648 = 0 \<or> unat w div 2147483648 = 1" by auto
    then show ?thesis by (auto simp: div_eq_0_iff)
  qed
  finally show ?thesis by linarith
qed

lemma sint_nonneg_unat:
  assumes "0 \<le> sint (w :: u32)"
  shows "sint w = int (unat w)"
proof -
  have "uint w < 2147483648" using assms unfolding sint_nonneg_iff by (metis of_nat_less_numeral_iff uint_nat)
  moreover have "- 2147483648 \<le> uint w" using uint_ge_0 [of w] by linarith
  ultimately show ?thesis
    unfolding sint_uint uint_nat [symmetric] by (intro signed_take_bit_int_eq_self) simp_all
qed

lemma sint_bounds_u32: "- 2147483648 \<le> sint (w :: u32)" "sint w < 2147483648"
  using sint_ge [of w] sint_lt [of w] by simp_all

lemma s32_nat: "n < 2147483648 \<Longrightarrow> s32 (int n) = Some (of_nat n)"
  by (simp add: s32_def)

lemma s32_sint: "s32 (sint w) = Some w"
  using sint_bounds_u32 [of w] by (simp add: s32_def)

lemma s32_Some: "s32 v = Some w \<Longrightarrow> sint w = v"
  by (auto simp: s32_def word_of_int_eq_iff signed_of_int signed_take_bit_int_eq_self split: if_splits)

lemma s32_neg: "w \<noteq> 0x80000000 \<Longrightarrow> s32 (- sint w) = Some (- w)" and s32_neg_least: "s32 (- sint (0x80000000 :: u32)) = None"
proof -
  assume "w \<noteq> 0x80000000"
  moreover have "sint w = - 2147483648 \<Longrightarrow> w = 0x80000000"
  proof -
    assume "sint w = - 2147483648"
    then have "w = word_of_int (- 2147483648)" by (metis of_int_sint scast_id)
    then show "w = 0x80000000" by simp
  qed
  ultimately have "- 2147483648 < sint w" using sint_bounds_u32 [of w] by linarith
  then show "s32 (- sint w) = Some (- w)"
    using sint_bounds_u32 [of w] by (simp add: s32_def)
qed (simp add: s32_def)

section \<open>Lemmas on uniform concatenations\<close>

lemma min_add_left: "\<not> a \<le> b \<Longrightarrow> min a (b + c) = b + min (a - b) (c :: nat)"
  by arith

lemma put_bytes_chain:
  "p + length xs \<le> length buf \<Longrightarrow> put_bytes (put_bytes buf p xs) (p + length xs) ys = put_bytes buf p (xs @ ys)"
  by (simp add: put_bytes_def ac_simps)

lemma concat_drop_uniform:
  assumes "\<And>x. x \<in> set xs \<Longrightarrow> length (f x) = k" and "q \<le> length xs"
  shows "drop (q * k + r) (concat (map f xs)) = drop r (concat (map f (drop q xs)))"
  using assms
proof (induction q arbitrary: xs)
  case (Suc q)
  then obtain x ys where xs: "xs = x # ys" by (cases xs) auto
  with Suc have "drop (q * k + r) (concat (map f ys)) = drop r (concat (map f (drop q ys)))" by simp
  moreover have "length (f x) = k" using Suc xs by simp
  ultimately show ?case using xs by (simp add: ac_simps)
qed simp

lemma concat_nth_uniform:
  assumes "\<And>x. x \<in> set xs \<Longrightarrow> length (f x) = k" and "p < length xs * k"
  shows "concat (map f xs) ! p = f (xs ! (p div k)) ! (p mod k)"
  using assms
proof (induction xs arbitrary: p)
  case (Cons x xs)
  have k: "0 < k" using Cons.prems(2) by (cases k) auto
  have lx: "length (f x) = k" using Cons.prems(1) by simp
  show ?case
  proof (cases "p < k")
    case True
    with lx show ?thesis by (simp add: nth_append)
  next
    case False
    then have "p div k = Suc ((p - k) div k)" "p mod k = (p - k) mod k" using k by (simp_all add: le_div_geq le_mod_geq)
    moreover have "concat (map f xs) ! (p - k) = f (xs ! ((p - k) div k)) ! ((p - k) mod k)"
      using Cons False by simp
    ultimately show ?thesis using False lx by (simp add: nth_append)
  qed
qed simp

end
