(* ===== verification/CString.thy ===== *)
theory CString
  imports Prelude
begin

text \<open>
  The freestanding C library of \<open>src/kernel/libc/string.c\<close>: comparison, number conversion,
  case mapping, searching, bounded copying and the memory routines. \<open>char\<close> is signed on the
  target, so differences of characters are taken with \<open>sint\<close>; \<open>int\<close> and \<open>size_t\<close> are
  32 bits wide, an unsigned one wraps and a signed overflow is undefined, \<open>None\<close>. Loops over an
  index stay loops over an index.
\<close>

section \<open>Comparison and length\<close>

function strcmp_from :: "u8 list \<Rightarrow> u8 list \<Rightarrow> nat \<Rightarrow> int" where
  "strcmp_from s1 s2 i =
     (if cget s1 i \<noteq> 0 \<and> cget s2 i \<noteq> 0 then
        (if cget s1 i \<noteq> cget s2 i then sint (cget s1 i) - sint (cget s2 i)
         else strcmp_from s1 s2 (Suc i))
      else sint (cget s1 i) - sint (cget s2 i))"
  by pat_completeness auto
termination
  by (relation "measure (\<lambda>(s1, s2, i). length s1 - i)") (auto simp: cget_def split: if_splits)

declare strcmp_from.simps [simp del]

definition strcmp :: "u8 list \<Rightarrow> u8 list \<Rightarrow> int" where
  "strcmp s1 s2 = strcmp_from s1 s2 0"

function strlen_from :: "u8 list \<Rightarrow> nat \<Rightarrow> nat" where
  "strlen_from str i = (if cget str i \<noteq> 0 then strlen_from str (Suc i) else i)"
  by pat_completeness auto
termination
  by (relation "measure (\<lambda>(str, i). length str - i)") (auto simp: cget_def split: if_splits)

declare strlen_from.simps [simp del]

definition strlen :: "u8 list \<Rightarrow> u32" where
  "strlen str = of_nat (strlen_from str 0)"

section \<open>Numbers and text\<close>

fun atoi_loop :: "u8 list \<Rightarrow> u32 \<Rightarrow> u32 option" where
  "atoi_loop [] result = Some result"
| "atoi_loop (c # str) result =
     (if 0x30 \<le> c \<and> c \<le> 0x39 then
        (case s32 (sint result * 10) of
           None \<Rightarrow> None
         | Some tens \<Rightarrow>
             (case s32 (sint tens + (sint c - 0x30)) of None \<Rightarrow> None | Some result' \<Rightarrow> atoi_loop str result'))
      else Some result)"

definition atoi :: "u8 list \<Rightarrow> u32 option" where
  "atoi str = atoi_loop str 0"

text \<open>The digit loop of \<open>decimal\<close>, least significant digit first.\<close>

function itoa_digits :: "u32 \<Rightarrow> u8 list" where
  "itoa_digits u_num = (if u_num > 0 then (ucast (u_num mod 10) + 0x30) # itoa_digits (u_num div 10) else [])"
  by pat_completeness auto
termination
  by (relation "measure unat") (auto simp: unat_div word_gt_0_no unat_gt_0 intro!: div_less_dividend)

declare itoa_digits.simps [simp del]

text \<open>The exchange loop that turns the digits round in place.\<close>

function reverse_loop :: "u8 list \<Rightarrow> int \<Rightarrow> int \<Rightarrow> u8 list" where
  "reverse_loop str start end' =
     (if start < end' then
        reverse_loop (str[nat start := str ! nat end', nat end' := str ! nat start]) (start + 1) (end' - 1)
      else str)"
  by pat_completeness auto
termination
  by (relation "measure (\<lambda>(str, start, end'). nat (end' - start))") auto

declare reverse_loop.simps [simp del]

text \<open>A negative number is negated as an \<open>int\<close> first, which is undefined for the least one.\<close>

definition itoa :: "u32 \<Rightarrow> u8 list option" where
  "itoa num =
     (if num = 0 then Some [0x30]
      else
        map_option
          (\<lambda>u_num.
             let ds = itoa_digits u_num; str = (if sint num < 0 then ds @ [0x2D] else ds)
             in reverse_loop str 0 (int (length str) - 1))
          (if sint num < 0 then s32 (- sint num) else Some num))"

section \<open>Case mapping and searching\<close>

definition lower_char :: "u8 \<Rightarrow> u8" where
  "lower_char c = (if 0x41 \<le> c \<and> c \<le> 0x5A then c + 32 else c)"

definition upper_char :: "u8 \<Rightarrow> u8" where
  "upper_char c = (if 0x61 \<le> c \<and> c \<le> 0x7A then c - 32 else c)"

definition strlower :: "u8 list \<Rightarrow> u8 list" where
  "strlower str = map lower_char str"

definition strupper :: "u8 list \<Rightarrow> u8 list" where
  "strupper str = map upper_char str"

text \<open>The position of the first occurrence of a character, \<open>None\<close> for \<open>NULL\<close>.\<close>

fun strchr :: "u8 list \<Rightarrow> u8 \<Rightarrow> nat option" where
  "strchr [] c = None"
| "strchr (x # str) c = (if x = c then Some 0 else map_option Suc (strchr str c))"

section \<open>Copying\<close>

text \<open>
  \<open>strncpy\<close> into a buffer: the first loop copies up to the terminator, the second pads with
  NUL bytes up to \<open>n\<close>.
\<close>

fun strncpy_pad :: "u8 list \<Rightarrow> nat \<Rightarrow> nat \<Rightarrow> u8 list" where
  "strncpy_pad dest i 0 = dest"
| "strncpy_pad dest i (Suc k) = strncpy_pad (dest[i := 0]) (Suc i) k"

fun strncpy_loop :: "u8 list \<Rightarrow> u8 list \<Rightarrow> nat \<Rightarrow> nat \<Rightarrow> u8 list" where
  "strncpy_loop dest src i 0 = dest"
| "strncpy_loop dest src i (Suc k) =
     (if cget src i \<noteq> 0 then strncpy_loop (dest[i := cget src i]) src (Suc i) k
      else strncpy_pad dest i (Suc k))"

definition strncpy :: "u8 list \<Rightarrow> u8 list \<Rightarrow> u32 \<Rightarrow> u8 list" where
  "strncpy dest src n = strncpy_loop dest src 0 (unat n)"

text \<open>
  \<open>memcpy (dest + di) (src + si) n\<close>, \<open>memset (dest + di) c n\<close> and \<open>memcmp\<close>; the count is the
  C \<open>int\<close>, which every caller of the kernel passes non-negative.
\<close>

fun memcpy :: "u8 list \<Rightarrow> nat \<Rightarrow> u8 list \<Rightarrow> nat \<Rightarrow> nat \<Rightarrow> u8 list" where
  "memcpy dest di src si 0 = dest"
| "memcpy dest di src si (Suc n) = memcpy (dest[di := src ! si]) (Suc di) src (Suc si) n"

fun memset :: "u8 list \<Rightarrow> nat \<Rightarrow> u8 \<Rightarrow> nat \<Rightarrow> u8 list" where
  "memset dest di c 0 = dest"
| "memset dest di c (Suc n) = memset (dest[di := c]) (Suc di) c n"

fun memcmp :: "u8 list \<Rightarrow> u8 list \<Rightarrow> nat \<Rightarrow> nat \<Rightarrow> int" where
  "memcmp a b i 0 = 0"
| "memcmp a b i (Suc n) =
     (if a ! i \<noteq> b ! i then sint (a ! i) - sint (b ! i) else memcmp a b (Suc i) n)"

section \<open>Dotted addresses\<close>

text \<open>
  \<open>parse_ip\<close> writes a NUL over each dot it passes; the model returns the number and the
  string buffer as the call leaves it. \<open>front\<close> is the part of the buffer before \<open>ip\<close>. The shift
  of the \<open>int\<close> to the left keeps its low 32 bits, as gcc defines it.
\<close>

fun parse_ip_loop :: "nat \<Rightarrow> nat \<Rightarrow> u8 list \<Rightarrow> u8 list \<Rightarrow> u32 \<Rightarrow> (u32 \<times> u8 list) option" where
  "parse_ip_loop i 0 front ip res = Some (res, front @ ip)"
| "parse_ip_loop i (Suc k) front ip res =
     (case strchr (cstr_of ip) 0x2E of
        Some dot \<Rightarrow>
          (let ip' = ip[dot := 0]
           in case atoi (cstr_of ip') of
                None \<Rightarrow> None
              | Some val \<Rightarrow>
                  parse_ip_loop (Suc i) k (front @ take (Suc dot) ip') (drop (Suc dot) ip') (res OR push_bit (i * 8) val))
      | None \<Rightarrow>
          (case atoi (cstr_of ip) of
             None \<Rightarrow> None
           | Some val \<Rightarrow> parse_ip_loop (Suc i) k front ip (res OR push_bit (i * 8) val)))"

definition parse_ip :: "u8 list \<Rightarrow> (u32 \<times> u8 list) option" where
  "parse_ip ip = parse_ip_loop 0 4 [] ip 0"

section \<open>Vocabulary of the specifications\<close>

text \<open>The decimal notation of an \<open>int\<close>: its digits, after a minus sign if it is negative.\<close>

definition decimal :: "u32 \<Rightarrow> u8 list" where
  "decimal num =
     (if num = 0 then [0x30]
      else if sint num < 0 then 0x2D # rev (itoa_digits (- num))
      else rev (itoa_digits num))"

text \<open>Decimal digits, and the dotted notation of an address with the octets \<open>a\<close> to \<open>d\<close>.\<close>

definition is_digit :: "u8 \<Rightarrow> bool" where
  "is_digit c \<longleftrightarrow> 0x30 \<le> c \<and> c \<le> 0x39"

definition dotted :: "u8 \<Rightarrow> u8 \<Rightarrow> u8 \<Rightarrow> u8 \<Rightarrow> u8 list" where
  "dotted a b c d = decimal (ucast a) @ [0x2E] @ decimal (ucast b) @ [0x2E] @ decimal (ucast c) @ [0x2E] @ decimal (ucast d)"

section \<open>Lemmas: comparison and length\<close>

lemma strcmp_from_0:
  assumes "is_cstr s1" and "is_cstr s2" and "i \<le> length s1" and "i \<le> length s2"
  shows "strcmp_from s1 s2 i = 0 \<longleftrightarrow> drop i s1 = drop i s2"
  using assms
proof (induction s1 s2 i rule: strcmp_from.induct)
  case (1 s1 s2 i)
  show ?case
  proof (cases "i < length s1 \<and> i < length s2")
    case True
    then have d: "drop i s1 = s1 ! i # drop (Suc i) s1" "drop i s2 = s2 ! i # drop (Suc i) s2"
      by (simp_all add: Cons_nth_drop_Suc)
    have nz: "cget s1 i \<noteq> 0" "cget s2 i \<noteq> 0" and c: "cget s1 i = s1 ! i" "cget s2 i = s2 ! i"
      using 1 True by (auto simp: cget_eq_0_iff) (auto simp: cget_def)
    show ?thesis
      using 1 True nz unfolding strcmp_from.simps [of s1 s2 i] d c
      by (auto simp: c)
  next
    case False
    then show ?thesis
      using 1 unfolding strcmp_from.simps [of s1 s2 i]
      by (auto simp: cget_eq_0_iff) (auto simp: cget_def is_cstr_def split: if_splits dest: nth_mem)
  qed
qed

lemma strlen_from_eq: "is_cstr str \<Longrightarrow> i \<le> length str \<Longrightarrow> strlen_from str i = length str"
proof (induction str i rule: strlen_from.induct)
  case (1 str i)
  then show ?case
    by (subst strlen_from.simps) (auto simp: cget_eq_0_iff)
qed

section \<open>Lemmas: copying, filling, comparing and searching\<close>

lemma memcpy_put_bytes:
  "di + n \<le> length dest \<Longrightarrow> si + n \<le> length src \<Longrightarrow>
   memcpy dest di src si n = put_bytes dest di (take n (drop si src))"
proof (induction n arbitrary: dest di si)
  case 0
  then show ?case by (simp add: put_bytes_def)
next
  case (Suc n)
  have "drop si src = src ! si # drop (Suc si) src"
    using Suc.prems by (simp add: Cons_nth_drop_Suc)
  moreover have "take di dest @ [src ! si] = take (Suc di) (dest[di := src ! si])"
    using Suc.prems by (simp add: take_Suc_conv_app_nth)
  ultimately show ?case
    using Suc by (simp add: put_bytes_def)
qed

lemma memset_put_bytes:
  "di + n \<le> length dest \<Longrightarrow> memset dest di c n = put_bytes dest di (replicate n c)"
proof (induction n arbitrary: dest di)
  case 0
  then show ?case by (simp add: put_bytes_def)
next
  case (Suc n)
  have "take di dest @ [c] = take (Suc di) (dest[di := c])"
    using Suc.prems by (simp add: take_Suc_conv_app_nth)
  then show ?case
    using Suc by (simp add: put_bytes_def)
qed

lemma memcmp_0_iff: "memcmp a b i n = 0 \<longleftrightarrow> (\<forall>k < n. a ! (i + k) = b ! (i + k))"
proof (induction n arbitrary: i)
  case (Suc n)
  have "(\<forall>k < Suc n. a ! (i + k) = b ! (i + k)) \<longleftrightarrow>
        a ! i = b ! i \<and> (\<forall>k < n. a ! (Suc i + k) = b ! (Suc i + k))"
    by (auto simp: less_Suc_eq_0_disj)
  with Suc show ?case by simp
qed simp

lemma strchr_Some: "strchr str c = Some k \<longleftrightarrow> k < length str \<and> str ! k = c \<and> c \<notin> set (take k str)"
proof (induction str arbitrary: k)
  case (Cons x str)
  then show ?case by (cases k) auto
qed simp

lemma strchr_None: "strchr str c = None \<longleftrightarrow> c \<notin> set str"
  by (induction str) auto

lemma strncpy_pad_eq: "i + k \<le> length dest \<Longrightarrow> strncpy_pad dest i k = put_bytes dest i (replicate k 0)"
proof (induction k arbitrary: dest i)
  case 0
  then show ?case by (simp add: put_bytes_def)
next
  case (Suc k)
  have "take i dest @ [0] = take (Suc i) (dest[i := 0])"
    using Suc.prems by (simp add: take_Suc_conv_app_nth)
  then show ?case
    using Suc by (simp add: put_bytes_def)
qed

lemma strncpy_loop_eq:
  assumes "is_cstr src" and "i \<le> length src" and "i + k \<le> length dest"
  shows "strncpy_loop dest src i k = put_bytes dest i (take k (drop i src @ replicate k 0))"
  using assms
proof (induction k arbitrary: dest i)
  case 0
  then show ?case by (simp add: put_bytes_def)
next
  case (Suc k)
  show ?case
  proof (cases "i < length src")
    case True
    then have c: "cget src i = src ! i" and nz: "cget src i \<noteq> 0"
      using Suc.prems by (auto simp: cget_eq_0_iff) (simp add: cget_def)
    have d: "drop i src = src ! i # drop (Suc i) src"
      using True by (simp add: Cons_nth_drop_Suc)
    have t: "take i dest @ [src ! i] = take (Suc i) (dest[i := src ! i])"
      using Suc.prems by (simp add: take_Suc_conv_app_nth)
    have r: "take k (drop (Suc i) src @ replicate k 0) = take k (drop (Suc i) src @ replicate (Suc k) 0)"
      by (simp add: take_append take_replicate min_def del: replicate_Suc)
    from Suc.IH [of "Suc i" "dest[i := src ! i]"] Suc.prems True nz show ?thesis
      using t by (simp add: c d r put_bytes_def del: replicate_Suc)
  next
    case False
    then show ?thesis
      using Suc.prems by (simp add: cget_def strncpy_pad_eq del: strncpy_pad.simps)
  qed
qed

section \<open>Lemmas: numbers\<close>

lemma reverse_loop_eq:
  assumes "0 \<le> start" and "start + end' = int (length str) - 1" and "start \<le> end' + 1"
  shows "reverse_loop str start end' =
    take (nat start) str @ rev (drop (nat start) (take (nat (end' + 1)) str)) @ drop (nat (end' + 1)) str"
  using assms
proof (induction str start end' rule: reverse_loop.induct)
  case (1 str start end')
  show ?case
  proof (cases "start < end'")
    case True
    define a b where "a = nat start" and "b = nat end'"
    have ab: "a < b" "b < length str" "start = int a" "end' = int b" "a + b = length str - 1"
      using True 1 by (auto simp: a_def b_def)
    define str' where "str' = str[a := str ! b, b := str ! a]"
    have IH: "reverse_loop str' (start + 1) (end' - 1) =
      take (Suc a) str' @ rev (drop (Suc a) (take b str')) @ drop b str'"
      using 1 True ab by (simp add: str'_def nat_add_distrib)
    have inner: "drop (Suc a) (take b str') = drop (Suc a) (take b str)"
      using ab by (simp add: str'_def take_update_swap drop_update_swap list_update_beyond drop_take)
    have outer_l: "take (Suc a) str' = take a str @ [str ! b]"
      using ab by (simp add: str'_def take_Suc_conv_app_nth)
    have outer_r: "drop b str' = str ! a # drop (Suc b) str"
      using ab by (simp add: str'_def Cons_nth_drop_Suc [symmetric])
    have "drop a (take (Suc b) str) = str ! a # drop (Suc a) (take b str) @ [str ! b]"
      using ab by (simp add: take_Suc_conv_app_nth Cons_nth_drop_Suc [symmetric])
    then show ?thesis
      using True ab IH inner outer_l outer_r
      by (subst reverse_loop.simps) (simp add: str'_def [symmetric] nat_add_distrib)
  next
    case False
    then have "end' = start \<or> end' + 1 = start" using 1 by auto
    then show ?thesis
    proof
      assume "end' = start"
      moreover have "nat start < length str" using 1 calculation by auto
      ultimately show ?thesis using 1
        by (subst reverse_loop.simps)
          (simp add: nat_add_distrib take_Suc_conv_app_nth Cons_nth_drop_Suc [symmetric] flip: id_take_nth_drop)
    next
      assume "end' + 1 = start"
      then show ?thesis using 1
        by (subst reverse_loop.simps) simp
    qed
  qed
qed

lemma reverse_loop_rev: "reverse_loop str 0 (int (length str) - 1) = rev str"
  by (simp add: reverse_loop_eq)

lemma atoi_loop_append:
  "list_all is_digit xs \<Longrightarrow> atoi_loop (xs @ ys) r = Option.bind (atoi_loop xs r) (atoi_loop ys)"
  by (induction xs arbitrary: r) (auto simp: is_digit_def split: option.splits)

lemma atoi_loop_stop: "\<not> is_digit c \<Longrightarrow> atoi_loop (c # str) r = Some r"
  by (auto simp: is_digit_def)

lemma digit_char:
  fixes n :: u32
  shows "is_digit (ucast (n mod 10) + 0x30)" "sint (ucast (n mod 10) + 0x30 :: u8) - 0x30 = int (unat n mod 10)"
proof -
  define d where "d = n mod 10"
  have "unat d < 10" unfolding d_def by (simp add: unat_mod)
  then have "unat d \<in> {0..9}" by simp
  then have "d \<in> of_nat ` {0..9}" by (rule rev_image_eqI) simp
  moreover have "{0..9::nat} = {0, 1, 2, 3, 4, 5, 6, 7, 8, 9}" by auto
  ultimately have "d \<in> {0, 1, 2, 3, 4, 5, 6, 7, 8, 9}" by auto
  then have "is_digit (ucast d + 0x30)" "sint (ucast d + 0x30 :: u8) - 0x30 = int (unat d)"
    by (auto simp: is_digit_def)
  then show "is_digit (ucast (n mod 10) + 0x30)" "sint (ucast (n mod 10) + 0x30 :: u8) - 0x30 = int (unat n mod 10)"
    unfolding d_def by (simp_all add: unat_mod)
qed

lemma itoa_digits_digits: "list_all is_digit (itoa_digits n)"
  by (induction n rule: itoa_digits.induct) (subst itoa_digits.simps, simp add: digit_char)

lemma atoi_digit:
  assumes "is_digit c" and "sint c - 0x30 = int d" and "unat r * 10 + d < 2147483648"
  shows "atoi_loop [c] r = Some (of_nat (unat r * 10 + d))"
proof -
  have r: "sint r = int (unat r)" using assms(3) by (intro sint_nonneg_unat) (simp add: sint_nonneg_iff)
  have "s32 (sint r * 10) = Some (of_nat (unat r * 10))" using s32_nat [of "unat r * 10"] assms(3) r by simp
  moreover have "sint (of_nat (unat r * 10) :: u32) = int (unat r * 10)"
    using s32_Some [OF s32_nat [of "unat r * 10"]] assms(3) by simp
  ultimately show ?thesis
    using assms(1,2) s32_nat [OF assms(3)] by (simp add: is_digit_def)
qed

lemma atoi_itoa_digits: "unat n < 2147483648 \<Longrightarrow> atoi_loop (rev (itoa_digits n)) 0 = Some n"
proof (induction n rule: itoa_digits.induct)
  case (1 n)
  show ?case
  proof (cases "n > 0")
    case True
    have "unat (n div 10) < 2147483648" using 1(2) by (simp add: unat_div)
    with 1(1) True have i: "atoi_loop (rev (itoa_digits (n div 10))) 0 = Some (n div 10)" by simp
    have "unat (n div 10) * 10 + unat n mod 10 = unat n" by (simp add: unat_div)
    with 1(2) have "atoi_loop [ucast (n mod 10) + 0x30] (n div 10) = Some n"
      using atoi_digit [OF digit_char [of n], of "n div 10"] by (simp del: atoi_loop.simps)
    with i True show ?thesis
      using itoa_digits_digits [of "n div 10"]
      by (subst itoa_digits.simps) (simp add: atoi_loop_append del: atoi_loop.simps)
  next
    case False
    then show ?thesis by (subst itoa_digits.simps) (simp add: word_gt_0)
  qed
qed

lemma itoa_decimal: "n \<noteq> 0x80000000 \<Longrightarrow> itoa n = Some (decimal n)"
  by (auto simp: itoa_def decimal_def s32_neg Let_def reverse_loop_rev)

lemma itoa_least: "itoa 0x80000000 = None"
  using s32_neg_least by (simp add: itoa_def)

lemma decimal_nonneg: "n \<noteq> 0 \<Longrightarrow> 0 \<le> sint n \<Longrightarrow> decimal n = rev (itoa_digits n)"
  by (simp add: decimal_def)

lemma decimal_neg: "sint n < 0 \<Longrightarrow> decimal n = 0x2D # rev (itoa_digits (- n))"
  by (auto simp: decimal_def)

lemma decimal_digits_only: "0 \<le> sint n \<Longrightarrow> list_all is_digit (decimal n)"
  using itoa_digits_digits [of n]
  by (cases "n = 0") (simp add: decimal_def is_digit_def, simp add: decimal_nonneg)

lemma atoi_decimal: "0 \<le> sint n \<Longrightarrow> atoi (decimal n) = Some n"
proof (cases "n = 0")
  case True
  then show ?thesis by (simp add: atoi_def decimal_def s32_def)
next
  case False
  assume n: "0 \<le> sint n"
  then have "unat n < 2147483648" by (simp only: sint_nonneg_iff)
  then show ?thesis using n False by (simp add: atoi_def decimal_nonneg atoi_itoa_digits)
qed

lemma digits_cstr: "list_all is_digit ds \<Longrightarrow> is_cstr ds"
  by (auto simp: list_all_iff is_digit_def is_cstr_def)

lemma decimal_nonempty: "0 \<le> sint n \<Longrightarrow> decimal n \<noteq> []"
proof (cases "n = 0")
  case False
  assume "0 \<le> sint n"
  moreover have "itoa_digits n \<noteq> []" using False by (subst itoa_digits.simps) (simp add: word_gt_0)
  ultimately show ?thesis using False by (simp add: decimal_nonneg)
qed (simp add: decimal_def)

lemma itoa_digits_length: "unat n < 10 ^ k \<Longrightarrow> length (itoa_digits n) \<le> k"
proof (induction k arbitrary: n)
  case 0
  then have "n = 0" by (simp add: unat_eq_zero)
  then show ?case by (subst itoa_digits.simps) simp
next
  case (Suc k)
  have "unat (n div 10) < 10 ^ k" using Suc.prems by (simp add: unat_div less_mult_imp_div_less mult.commute)
  then have "length (itoa_digits (n div 10)) \<le> k" by (rule Suc.IH)
  then show ?case by (subst itoa_digits.simps) simp
qed

lemma decimal_length: "0 \<le> sint n \<Longrightarrow> length (decimal n) \<le> 10"
proof (cases "n = 0")
  case False
  assume n: "0 \<le> sint n"
  have "unat n < 10000000000" using unat_u32_less [of n] by linarith
  then have "unat n < 10 ^ 10" by simp
  then show ?thesis using itoa_digits_length n False by (simp add: decimal_nonneg)
qed (simp add: decimal_def)

section \<open>Lemmas: addresses\<close>

lemma sint_ucast_u8: "0 \<le> sint (ucast (b :: u8) :: u32)"
proof -
  have "\<not> bit (ucast b :: u32) 31"
    by (auto simp: bit_simps dest: bit_imp_le_length)
  then show ?thesis using bit_last_iff [of "ucast b :: u32"] by simp
qed

lemma octet_chars:
  assumes "x \<in> set (decimal (ucast (b :: u8)))"
  shows "x \<noteq> 0" "x \<noteq> 0x2E"
  using decimal_digits_only [OF sint_ucast_u8, of b] assms
  by (auto simp: list_all_iff is_digit_def)

lemma strchr_skip: "c \<notin> set xs \<Longrightarrow> strchr (xs @ c # ys) c = Some (length xs)"
  by (induction xs) auto

lemma parse_ip_step:
  assumes "is_cstr rest"
  shows "parse_ip_loop i (Suc k) front (decimal (ucast (b :: u8)) @ 0x2E # rest) res =
    parse_ip_loop (Suc i) k (front @ decimal (ucast b) @ [0]) rest (res OR push_bit (i * 8) (ucast b))"
proof -
  have c: "is_cstr (decimal (ucast b))" and nd: "0x2E \<notin> set (decimal (ucast b))"
    using octet_chars [of _ b] by (auto simp: is_cstr_def)
  then have "is_cstr (decimal (ucast b) @ 0x2E # rest)" using assms by (simp add: is_cstr_def)
  with c nd show ?thesis
    by (simp add: cstr_of_id strchr_skip list_update_append cstr_of_nul atoi_decimal [OF sint_ucast_u8])
qed

lemma parse_ip_last:
  "parse_ip_loop i (Suc 0) front (decimal (ucast (b :: u8))) res =
   Some (res OR push_bit (i * 8) (ucast b), front @ decimal (ucast b))"
proof -
  have "is_cstr (decimal (ucast b))" "0x2E \<notin> set (decimal (ucast b))"
    using octet_chars [of _ b] by (auto simp: is_cstr_def)
  then show ?thesis
    by (simp add: cstr_of_id strchr_None [THEN iffD2] atoi_decimal [OF sint_ucast_u8])
qed

lemma is_cstr_octet [simp]: "is_cstr (decimal (ucast (b :: u8)))"
  using octet_chars [of _ b] by (auto simp: is_cstr_def)

lemma parse_ip_dotted_buf:
  "parse_ip (dotted a b c d) = Some (u32_le a b c d,
     decimal (ucast a) @ [0] @ decimal (ucast b) @ [0] @ decimal (ucast c) @ [0] @ decimal (ucast d))"
proof -
  have "is_cstr (0x2E # xs) \<longleftrightarrow> is_cstr xs" for xs by (simp add: is_cstr_def)
  moreover have "(4::nat) = Suc (Suc (Suc (Suc 0)))" by simp
  ultimately show ?thesis
    unfolding parse_ip_def dotted_def
    by (simp only: append.simps) (simp add: parse_ip_step parse_ip_last u32_le_def or.assoc del: parse_ip_loop.simps)
qed

lemmas mem_simps = memcpy_put_bytes memset_put_bytes memcmp_0_iff

section \<open>Properties\<close>

text \<open>
  \<open>strcmp\<close> returns 0 exactly on equal strings, so the table and command lookups that
  test \<open>strcmp(..) == 0\<close> test string equality.
\<close>

theorem strcmp_decides_equality:
  "is_cstr s1 \<Longrightarrow> is_cstr s2 \<Longrightarrow> strcmp s1 s2 = 0 \<longleftrightarrow> s1 = s2"
  by (simp add: strcmp_def strcmp_from_0)

theorem strcmp_decides_equality_witness:
  "is_cstr (cstr ''ls'') \<and> strcmp (cstr ''ls'') (cstr ''ls'') = 0 \<and> strcmp (cstr ''ls'') (cstr ''lsx'') \<noteq> 0"
proof -
  have "is_cstr (cstr ''ls'')" "is_cstr (cstr ''lsx'')" "cstr ''ls'' \<noteq> cstr ''lsx''"
    by (simp_all add: is_cstr_def cstr_def)
  then show ?thesis using strcmp_decides_equality by simp
qed

text \<open>
  \<open>itoa\<close> followed by \<open>atoi\<close> is the identity on every non-negative \<open>int\<close>, and \<open>itoa\<close> of a
  negative number is a minus sign and the digits of its magnitude, except for the least one, whose
  negation is undefined.
\<close>

theorem itoa_atoi_roundtrip:
  "(0 \<le> sint n \<longrightarrow> Option.bind (itoa n) atoi = Some n) \<and>
   (sint n < 0 \<and> n \<noteq> 0x80000000 \<longrightarrow> (\<exists>ds. itoa n = Some (0x2D # ds) \<and> list_all is_digit ds \<and> atoi ds = Some (- n))) \<and>
   itoa 0x80000000 = None"
proof (intro conjI impI)
  assume n: "0 \<le> sint n"
  then have "n \<noteq> 0x80000000" by auto
  with n show "Option.bind (itoa n) atoi = Some n" by (simp add: itoa_decimal atoi_decimal)
next
  assume n: "sint n < 0 \<and> n \<noteq> 0x80000000"
  then have "unat (- n) < 2147483648"
    using s32_Some [OF s32_neg, of n] unfolding sint_nonneg_iff [symmetric] by simp
  then show "\<exists>ds. itoa n = Some (0x2D # ds) \<and> list_all is_digit ds \<and> atoi ds = Some (- n)"
    using n itoa_digits_digits [of "- n"] by (auto simp: itoa_decimal decimal_neg atoi_def atoi_itoa_digits)
qed (rule itoa_least)

theorem itoa_atoi_roundtrip_witness:
  "Option.bind (itoa 1090) atoi = Some 1090 \<and> (\<exists>ds. itoa (- 42) = Some (0x2D # ds) \<and> atoi ds = Some 42)"
proof -
  have "0 \<le> sint (1090 :: u32)" "sint (- 42 :: u32) < 0" by simp_all
  then show ?thesis
    using itoa_atoi_roundtrip [of 1090] itoa_atoi_roundtrip [of "- 42"] by auto
qed

text \<open>
  \<open>atoi\<close> does not stop before its result overflows: the first number above the largest \<open>int\<close> is
  undefined.
\<close>

lemma atoi_overflows: "atoi (cstr ''2147483647'') = Some 2147483647 \<and> atoi (cstr ''2147483648'') = None"
  by code_simp

text \<open>
  C39: \<open>parse_ip\<close> reads the dotted notation of any four octets to the address whose bytes, in
  memory order, are these octets, and leaves the caller's buffer cut at the first dot.
\<close>

theorem parse_ip_dotted:
  "\<exists>buf. parse_ip (dotted a b c d) = Some (u32_le a b c d, buf) \<and> cstr_of buf = decimal (ucast a)"
  by (simp add: parse_ip_dotted_buf cstr_of_nul)

text \<open>
  \<open>strncpy\<close> fills exactly the first \<open>n\<close> bytes of the destination with the string and NUL
  padding; the result is terminated within them only if the string is shorter than \<open>n\<close>.
\<close>

theorem strncpy_fills:
  assumes "is_cstr src" and "unat n \<le> length dest"
  shows "strncpy dest src n = take (unat n) (src @ replicate (unat n) 0) @ drop (unat n) dest \<and>
    (0 \<in> set (take (unat n) (strncpy dest src n)) \<longleftrightarrow> length src < unat n)"
proof -
  have "strncpy dest src n = take (unat n) (src @ replicate (unat n) 0) @ drop (unat n) dest"
    using assms by (simp add: strncpy_def strncpy_loop_eq put_bytes_def min_def)
  then show ?thesis
    using assms(1) by (auto simp: is_cstr_def take_append dest: in_set_takeD)
qed

theorem strncpy_fills_witness:
  "strncpy [1, 2, 3, 4] [0x61, 0x62] 2 = [0x61, 0x62, 3, 4] \<and>
   0 \<notin> set (take 2 (strncpy [1, 2, 3, 4] [0x61, 0x62] 2))"
  using strncpy_fills [of "[0x61, 0x62]" 2 "[1, 2, 3, 4]"] by (simp add: is_cstr_def)

end
