(* ===== verification/KHeap.thy ===== *)
theory KHeap
  imports CString
begin

text \<open>
  The kernel heap (\<open>src/kernel/memory/memory.c\<close>): a first-fit allocator over a list of blocks,
  each a 12-byte header followed by its data area. The model works on the bytes of memory, so
  the headers are fields in the same memory as the data.
\<close>

unbundle bit_operations_syntax

section \<open>Memory and headers\<close>

record kheap =
  ram :: "u32 \<Rightarrow> u8"
  free_list_head :: u32

definition ld32 :: "(u32 \<Rightarrow> u8) \<Rightarrow> u32 \<Rightarrow> u32" where
  "ld32 m a = u32_le (m a) (m (a + 1)) (m (a + 2)) (m (a + 3))"

definition st32 :: "u32 \<Rightarrow> u32 \<Rightarrow> (u32 \<Rightarrow> u8) \<Rightarrow> (u32 \<Rightarrow> u8)" where
  "st32 a v m = m(a := byte_of 0 v, a + 1 := byte_of 1 v, a + 2 := byte_of 2 v, a + 3 := byte_of 3 v)"

text \<open>The fields \<open>size\<close>, \<open>free\<close> and \<open>next\<close> of the \<open>MemoryBlock\<close> at an address.\<close>

definition blk_size :: "kheap \<Rightarrow> u32 \<Rightarrow> u32" where
  "blk_size h b = ld32 (ram h) b"

definition blk_free :: "kheap \<Rightarrow> u32 \<Rightarrow> u32" where
  "blk_free h b = ld32 (ram h) (b + 4)"

definition blk_next :: "kheap \<Rightarrow> u32 \<Rightarrow> u32" where
  "blk_next h b = ld32 (ram h) (b + 8)"

definition set_blk_size :: "u32 \<Rightarrow> u32 \<Rightarrow> kheap \<Rightarrow> kheap" where
  "set_blk_size b v h = h\<lparr>ram := st32 b v (ram h)\<rparr>"

definition set_blk_free :: "u32 \<Rightarrow> u32 \<Rightarrow> kheap \<Rightarrow> kheap" where
  "set_blk_free b v h = h\<lparr>ram := st32 (b + 4) v (ram h)\<rparr>"

definition set_blk_next :: "u32 \<Rightarrow> u32 \<Rightarrow> kheap \<Rightarrow> kheap" where
  "set_blk_next b v h = h\<lparr>ram := st32 (b + 8) v (ram h)\<rparr>"

definition Block_SIZE :: u32 where
  "Block_SIZE = 12"

definition ALIGNMENT :: u32 where
  "ALIGNMENT = 8"

definition ALIGN :: "u32 \<Rightarrow> u32" where
  "ALIGN sz = (sz + (ALIGNMENT - 1)) AND NOT (ALIGNMENT - 1)"

section \<open>Operations\<close>

definition kheap_init :: "u32 \<Rightarrow> u32 \<Rightarrow> kheap \<Rightarrow> kheap" where
  "kheap_init start sz h =
     (let h = h\<lparr>free_list_head := start\<rparr>;
          h = set_blk_size start (sz - Block_SIZE) h;
          h = set_blk_free start 1 h
      in set_blk_next start 0 h)"

text \<open>What \<open>kmalloc\<close> does with the block it has chosen: split it if there is room, mark it used.\<close>

definition take_block :: "u32 \<Rightarrow> u32 \<Rightarrow> kheap \<Rightarrow> kheap" where
  "take_block sz current h =
     (let h = (if sz + Block_SIZE + ALIGNMENT \<le> blk_size h current then
                 (let new_block = current + Block_SIZE + sz;
                      h = set_blk_size new_block (blk_size h current - sz - Block_SIZE) h;
                      h = set_blk_free new_block 1 h;
                      h = set_blk_next new_block (blk_next h current) h;
                      h = set_blk_size current sz h
                  in set_blk_next current new_block h)
               else h)
      in set_blk_free current 0 h)"

text \<open>The walk over the list; \<open>None\<close> is a walk that never ends, address 0 is \<open>NULL\<close>.\<close>

partial_function (option) kmalloc_loop :: "u32 \<Rightarrow> u32 \<Rightarrow> kheap \<Rightarrow> (kheap \<times> u32) option" where
  "kmalloc_loop sz current h =
     (if current = 0 then Some (h, 0)
      else if blk_free h current \<noteq> 0 \<and> sz \<le> blk_size h current then
        Some (take_block sz current h, current + Block_SIZE)
      else kmalloc_loop sz (blk_next h current) h)"

definition kmalloc :: "u32 \<Rightarrow> kheap \<Rightarrow> (kheap \<times> u32) option" where
  "kmalloc sz h = kmalloc_loop (ALIGN sz) (free_list_head h) h"

text \<open>The walk of \<open>kfree\<close> to the block before \<open>block\<close>; its value is \<open>prev\<close>.\<close>

partial_function (option) kfree_walk :: "u32 \<Rightarrow> u32 \<Rightarrow> u32 \<Rightarrow> kheap \<Rightarrow> u32 option" where
  "kfree_walk block prev current h =
     (if current \<noteq> 0 \<and> current \<noteq> block then kfree_walk block current (blk_next h current) h else Some prev)"

definition kfree_next :: "u32 \<Rightarrow> kheap \<Rightarrow> kheap" where
  "kfree_next block h =
     (if blk_next h block \<noteq> 0 \<and> blk_free h (blk_next h block) \<noteq> 0 then
        (let h = set_blk_size block (blk_size h block + (Block_SIZE + blk_size h (blk_next h block))) h
         in set_blk_next block (blk_next h (blk_next h block)) h)
      else h)"

definition kfree_prev :: "u32 \<Rightarrow> u32 \<Rightarrow> kheap \<Rightarrow> kheap" where
  "kfree_prev prev block h =
     (if prev \<noteq> 0 \<and> blk_free h prev \<noteq> 0 then
        (let h = set_blk_size prev (blk_size h prev + (Block_SIZE + blk_size h block)) h
         in set_blk_next prev (blk_next h block) h)
      else h)"

definition kfree :: "u32 \<Rightarrow> kheap \<Rightarrow> kheap option" where
  "kfree ptr h =
     (if ptr = 0 then Some h
      else
        (let block = ptr - Block_SIZE;
             h = set_blk_free block 1 h
         in map_option (\<lambda>prev. kfree_prev prev block (kfree_next block h))
              (kfree_walk block 0 (free_list_head h) h)))"

text \<open>The growth of a block into the free block after it, the part of \<open>krealloc\<close> that works in place.\<close>

definition grow_block :: "u32 \<Rightarrow> u32 \<Rightarrow> kheap \<Rightarrow> kheap" where
  "grow_block sz block h =
     (let combined_size = blk_size h block + Block_SIZE + blk_size h (blk_next h block);
          next_next_block = blk_next h (blk_next h block)
      in if sz + Block_SIZE + ALIGNMENT \<le> combined_size then
           (let new_block = block + Block_SIZE + sz;
                h = set_blk_size new_block (combined_size - sz - Block_SIZE) h;
                h = set_blk_free new_block 1 h;
                h = (if next_next_block \<noteq> 0 \<and> blk_free h next_next_block \<noteq> 0 then
                       (let h = set_blk_size new_block
                                  (blk_size h new_block + (Block_SIZE + blk_size h next_next_block)) h
                        in set_blk_next new_block (blk_next h next_next_block) h)
                     else set_blk_next new_block next_next_block h);
                h = set_blk_size block sz h
            in set_blk_next block new_block h)
         else
           (let h = set_blk_size block combined_size h
            in set_blk_next block next_next_block h))"

text \<open>
  A copy between two places of memory, byte by byte from the front. The length of \<open>memcpy\<close> is an
  \<open>int\<close> that the loop \<open>while (n--)\<close> counts down to 0, in two's complement: the loop runs
  \<open>unat n\<close> times.
\<close>

primrec copy_ram :: "nat \<Rightarrow> u32 \<Rightarrow> u32 \<Rightarrow> (u32 \<Rightarrow> u8) \<Rightarrow> (u32 \<Rightarrow> u8)" where
  "copy_ram 0 dest src m = m"
| "copy_ram (Suc n) dest src m = copy_ram n (dest + 1) (src + 1) (m(dest := m src))"

definition krealloc :: "u32 \<Rightarrow> u32 \<Rightarrow> kheap \<Rightarrow> (kheap \<times> u32) option" where
  "krealloc ptr sz h =
     (if ptr = 0 then kmalloc sz h
      else if sz = 0 then map_option (\<lambda>h. (h, 0)) (kfree ptr h)
      else
        (let sz = ALIGN sz; block = ptr - Block_SIZE in
         if sz \<le> blk_size h block then Some (h, ptr)
         else if blk_next h block \<noteq> 0 \<and> blk_free h (blk_next h block) \<noteq> 0 \<and>
                 sz \<le> blk_size h block + Block_SIZE + blk_size h (blk_next h block) then
           Some (grow_block sz block h, ptr)
         else
           Option.bind (kmalloc sz h)
             (\<lambda>(h, new_ptr).
                if new_ptr = 0 then Some (h, 0)
                else
                  map_option (\<lambda>h. (h, new_ptr))
                    (kfree ptr (h\<lparr>ram := copy_ram (unat (blk_size h block)) new_ptr ptr (ram h)\<rparr>)))))"

text \<open>\<open>strdup\<close> of \<open>libc/string.c\<close>, on a string in memory.\<close>

partial_function (option) strlen_ram :: "(u32 \<Rightarrow> u8) \<Rightarrow> u32 \<Rightarrow> u32 \<Rightarrow> u32 option" where
  "strlen_ram m str i = (if m (str + i) \<noteq> 0 then strlen_ram m str (i + 1) else Some i)"

definition strdup :: "u32 \<Rightarrow> kheap \<Rightarrow> (kheap \<times> u32) option" where
  "strdup s h =
     Option.bind (strlen_ram (ram h) s 0)
       (\<lambda>n. let len = n + 1 in
          Option.bind (kmalloc len h)
            (\<lambda>(h, new).
               if new = 0 then Some (h, 0)
               else Some (h\<lparr>ram := copy_ram (unat len) new s (ram h)\<rparr>, new)))"

section \<open>Specification: a list of blocks\<close>

text \<open>
  The heap as the list of its blocks in address order, each with the size of its data area and
  whether it is free; \<open>span\<close> is the number of bytes they take with their headers.
\<close>

type_synonym blocks = "(nat \<times> bool) list"

fun span :: "blocks \<Rightarrow> nat" where
  "span [] = 0"
| "span ((s, f) # bs) = 12 + s + span bs"

text \<open>
  \<open>hdr h a s f nx\<close>: the header at \<open>a\<close> has these field values. \<open>seg h a bs n\<close>: from address \<open>a\<close> on memory
  holds exactly the blocks \<open>bs\<close>, each header linked to the next and the last one to \<open>n\<close>.
\<close>

definition hdr :: "kheap \<Rightarrow> nat \<Rightarrow> nat \<Rightarrow> bool \<Rightarrow> nat \<Rightarrow> bool" where
  "hdr h a s f nx \<longleftrightarrow> blk_size h (of_nat a) = of_nat s \<and> blk_free h (of_nat a) = (if f then 1 else 0) \<and>
     blk_next h (of_nat a) = of_nat nx"

fun seg :: "kheap \<Rightarrow> nat \<Rightarrow> blocks \<Rightarrow> nat \<Rightarrow> bool" where
  "seg h a [] n \<longleftrightarrow> n = a"
| "seg h a ((s, f) # bs) n \<longleftrightarrow> 0 < a \<and> a + 12 + s \<le> 4294967264 \<and>
     hdr h a s f (if bs = [] then n else a + 12 + s) \<and> (bs \<noteq> [] \<longrightarrow> seg h (a + 12 + s) bs n)"

text \<open>
  The bytes of the headers, the data bytes of the used blocks, and all bytes that are not the
  allocator's: the data of used blocks and everything outside of the heap.
\<close>

fun hdr_bytes :: "nat \<Rightarrow> blocks \<Rightarrow> nat set" where
  "hdr_bytes a [] = {}"
| "hdr_bytes a ((s, f) # bs) = {a..<a + 12} \<union> hdr_bytes (a + 12 + s) bs"

fun used_bytes :: "nat \<Rightarrow> blocks \<Rightarrow> nat set" where
  "used_bytes a [] = {}"
| "used_bytes a ((s, f) # bs) = (if f then {} else {a + 12..<a + 12 + s}) \<union> used_bytes (a + 12 + s) bs"

definition client_bytes :: "nat \<Rightarrow> blocks \<Rightarrow> nat set" where
  "client_bytes a bs = {..<a} \<union> used_bytes a bs \<union> {a + span bs..}"

text \<open>Two states agree on a set of bytes; two headers do not overlap.\<close>

definition agree :: "kheap \<Rightarrow> kheap \<Rightarrow> nat set \<Rightarrow> bool" where
  "agree h h' S \<longleftrightarrow> (\<forall>x \<in> S. x < 4294967296 \<longrightarrow> ram h' (of_nat x) = ram h (of_nat x))"

definition sep :: "nat \<Rightarrow> nat \<Rightarrow> bool" where
  "sep a b \<longleftrightarrow> a + 12 \<le> 4294967296 \<and> b + 12 \<le> 4294967296 \<and> (a + 12 \<le> b \<or> b + 12 \<le> a)"

text \<open>
  First fit on the block list; a freed block joined with its neighbours; no two free blocks are
  adjacent.
\<close>

fun a_alloc :: "nat \<Rightarrow> nat \<Rightarrow> blocks \<Rightarrow> (nat \<times> blocks) option" where
  "a_alloc n a [] = None"
| "a_alloc n a ((s, f) # bs) =
     (if f \<and> n \<le> s then
        Some (a + 12, if n + 20 \<le> s then (n, False) # (s - n - 12, True) # bs else (s, False) # bs)
      else map_option (\<lambda>(p, bs'). (p, (s, f) # bs')) (a_alloc n (a + 12 + s) bs))"

fun join_next :: "nat \<Rightarrow> blocks \<Rightarrow> blocks" where
  "join_next s ((t, True) # zs) = (s + 12 + t, True) # zs"
| "join_next s ys = (s, True) # ys"

definition a_free :: "blocks \<Rightarrow> nat \<Rightarrow> blocks \<Rightarrow> blocks" where
  "a_free xs s ys =
     (if xs \<noteq> [] \<and> snd (last xs) then butlast xs @ join_next (fst (last xs) + 12 + s) ys
      else xs @ join_next s ys)"

fun coalesced :: "blocks \<Rightarrow> bool" where
  "coalesced ((s, f) # (t, g) # bs) \<longleftrightarrow> \<not> (f \<and> g) \<and> coalesced ((t, g) # bs)"
| "coalesced bs \<longleftrightarrow> True"

section \<open>Lemmas: reading and writing headers\<close>

lemma st32_nat:
  assumes "a + 4 \<le> 4294967296" and "x < 4294967296"
  shows "st32 (of_nat a) v m (of_nat x) = (if a \<le> x \<and> x < a + 4 then byte_of (x - a) v else m (of_nat x))"
proof -
  have e: "(of_nat x :: u32) = of_nat a + k \<longleftrightarrow> x = a + unat k" if "unat k < 4" for k
  proof -
    have "unat (of_nat a + k :: u32) = a + unat k" using assms that by (simp add: unat_add_u32 unat_of_nat_u32)
    then show ?thesis using assms(2) by (auto simp: unat_of_nat_u32 word_unat_eq_iff)
  qed
  have "(of_nat x :: u32) = of_nat a \<longleftrightarrow> x = a" "(of_nat x :: u32) = of_nat a + 1 \<longleftrightarrow> x = a + 1"
    "(of_nat x :: u32) = of_nat a + 2 \<longleftrightarrow> x = a + 2" "(of_nat x :: u32) = of_nat a + 3 \<longleftrightarrow> x = a + 3"
    using e [of 0] e [of 1] e [of 2] e [of 3] by simp_all
  moreover have "x = a \<or> x = a + 1 \<or> x = a + 2 \<or> x = a + 3" if "a \<le> x" "x < a + 4" using that by linarith
  ultimately show ?thesis unfolding st32_def by (auto simp: numeral_3_eq_3)
qed

lemma ld32_nat: "ld32 m (of_nat a) = u32_le (m (of_nat a)) (m (of_nat (a + 1))) (m (of_nat (a + 2))) (m (of_nat (a + 3)))"
  by (simp add: ld32_def add.commute)

lemma ld32_st32_same: "a + 4 \<le> 4294967296 \<Longrightarrow> ld32 (st32 (of_nat a) v m) (of_nat a) = v"
  unfolding ld32_nat by (simp add: st32_nat u32_le_byte_of del: of_nat_add of_nat_Suc)

lemma ld32_st32_other:
  "a + 4 \<le> 4294967296 \<Longrightarrow> b + 4 \<le> 4294967296 \<Longrightarrow> a + 4 \<le> b \<or> b + 4 \<le> a \<Longrightarrow>
   ld32 (st32 (of_nat a) v m) (of_nat b) = ld32 m (of_nat b)"
  unfolding ld32_nat by (auto simp: st32_nat simp del: of_nat_add of_nat_Suc)

lemma field_nat:
  "blk_size h (of_nat a) = ld32 (ram h) (of_nat a)" "blk_free h (of_nat a) = ld32 (ram h) (of_nat (a + 4))"
  "blk_next h (of_nat a) = ld32 (ram h) (of_nat (a + 8))"
  "ram (set_blk_size (of_nat a) v h) = st32 (of_nat a) v (ram h)"
  "ram (set_blk_free (of_nat a) v h) = st32 (of_nat (a + 4)) v (ram h)"
  "ram (set_blk_next (of_nat a) v h) = st32 (of_nat (a + 8)) v (ram h)"
  by (simp_all add: blk_size_def blk_free_def blk_next_def set_blk_size_def set_blk_free_def set_blk_next_def add.commute)

lemma head_set [simp]: "free_list_head (set_blk_size b v h) = free_list_head h"
  "free_list_head (set_blk_free b v h) = free_list_head h" "free_list_head (set_blk_next b v h) = free_list_head h"
  by (simp_all add: set_blk_size_def set_blk_free_def set_blk_next_def)

lemma hdr_field_same:
  assumes "a + 12 \<le> 4294967296"
  shows "blk_size (set_blk_size (of_nat a) v h) (of_nat a) = v" "blk_free (set_blk_free (of_nat a) v h) (of_nat a) = v"
    "blk_next (set_blk_next (of_nat a) v h) (of_nat a) = v"
    "blk_size (set_blk_free (of_nat a) v h) (of_nat a) = blk_size h (of_nat a)"
    "blk_size (set_blk_next (of_nat a) v h) (of_nat a) = blk_size h (of_nat a)"
    "blk_free (set_blk_size (of_nat a) v h) (of_nat a) = blk_free h (of_nat a)"
    "blk_free (set_blk_next (of_nat a) v h) (of_nat a) = blk_free h (of_nat a)"
    "blk_next (set_blk_size (of_nat a) v h) (of_nat a) = blk_next h (of_nat a)"
    "blk_next (set_blk_free (of_nat a) v h) (of_nat a) = blk_next h (of_nat a)"
  using assms unfolding field_nat by (simp_all add: ld32_st32_same ld32_st32_other del: of_nat_add)

lemma hdr_field_other:
  assumes "sep a b"
  shows "blk_size (set_blk_size (of_nat a) v h) (of_nat b) = blk_size h (of_nat b)"
    "blk_size (set_blk_free (of_nat a) v h) (of_nat b) = blk_size h (of_nat b)"
    "blk_size (set_blk_next (of_nat a) v h) (of_nat b) = blk_size h (of_nat b)"
    "blk_free (set_blk_size (of_nat a) v h) (of_nat b) = blk_free h (of_nat b)"
    "blk_free (set_blk_free (of_nat a) v h) (of_nat b) = blk_free h (of_nat b)"
    "blk_free (set_blk_next (of_nat a) v h) (of_nat b) = blk_free h (of_nat b)"
    "blk_next (set_blk_size (of_nat a) v h) (of_nat b) = blk_next h (of_nat b)"
    "blk_next (set_blk_free (of_nat a) v h) (of_nat b) = blk_next h (of_nat b)"
    "blk_next (set_blk_next (of_nat a) v h) (of_nat b) = blk_next h (of_nat b)"
proof -
  have "a + 12 \<le> 4294967296" "b + 12 \<le> 4294967296" and "a + 12 \<le> b \<or> b + 12 \<le> a" using assms by (auto simp: sep_def)
  then show "blk_size (set_blk_size (of_nat a) v h) (of_nat b) = blk_size h (of_nat b)"
    "blk_size (set_blk_free (of_nat a) v h) (of_nat b) = blk_size h (of_nat b)"
    "blk_size (set_blk_next (of_nat a) v h) (of_nat b) = blk_size h (of_nat b)"
    "blk_free (set_blk_size (of_nat a) v h) (of_nat b) = blk_free h (of_nat b)"
    "blk_free (set_blk_free (of_nat a) v h) (of_nat b) = blk_free h (of_nat b)"
    "blk_free (set_blk_next (of_nat a) v h) (of_nat b) = blk_free h (of_nat b)"
    "blk_next (set_blk_size (of_nat a) v h) (of_nat b) = blk_next h (of_nat b)"
    "blk_next (set_blk_free (of_nat a) v h) (of_nat b) = blk_next h (of_nat b)"
    "blk_next (set_blk_next (of_nat a) v h) (of_nat b) = blk_next h (of_nat b)"
    unfolding field_nat by (auto intro!: ld32_st32_other simp del: of_nat_add of_nat_Suc)
qed

lemma agree_set:
  assumes "a + 12 \<le> 4294967296" and "\<And>x. x \<in> S \<Longrightarrow> x < a \<or> a + 12 \<le> x"
  shows "agree h (set_blk_size (of_nat a) v h) S" "agree h (set_blk_free (of_nat a) v h) S"
    "agree h (set_blk_next (of_nat a) v h) S"
proof -
  have "st32 (of_nat (a + k)) v m (of_nat x) = m (of_nat x)" if "x \<in> S" "x < 4294967296" "k \<le> 8" for k m x
    using st32_nat [of "a + k" x v m] assms(1) assms(2) [OF that(1)] that by auto
  from this [of _ 0] this [of _ 4] this [of _ 8]
  show "agree h (set_blk_size (of_nat a) v h) S" "agree h (set_blk_free (of_nat a) v h) S"
    "agree h (set_blk_next (of_nat a) v h) S"
    by (simp_all add: agree_def field_nat del: of_nat_add)
qed

lemma agree_refl [simp]: "agree h h S"
  by (simp add: agree_def)

lemma agree_trans: "agree h h1 S \<Longrightarrow> agree h1 h2 S \<Longrightarrow> agree h h2 S"
  by (simp add: agree_def)

lemma agree_subset: "agree h h' S \<Longrightarrow> T \<subseteq> S \<Longrightarrow> agree h h' T"
  by (auto simp: agree_def)

section \<open>Lemmas: segments of blocks\<close>

lemma span_append [simp]: "span (xs @ ys) = span xs + span ys"
  by (induction xs rule: span.induct) simp_all

lemma hdr_bytes_append: "hdr_bytes a (xs @ ys) = hdr_bytes a xs \<union> hdr_bytes (a + span xs) ys"
  by (induction xs arbitrary: a rule: span.induct) (auto simp: ac_simps)

lemma used_bytes_append: "used_bytes a (xs @ ys) = used_bytes a xs \<union> used_bytes (a + span xs) ys"
  by (induction xs arbitrary: a rule: span.induct) (auto simp: ac_simps)

lemma hdr_bytes_range: "hdr_bytes a bs \<subseteq> {a..<a + span bs}"
proof (induction bs arbitrary: a rule: span.induct)
  case (2 s f bs)
  from "2.IH" [of "a + 12 + s"] show ?case by (auto simp: ac_simps)
qed simp

lemma used_bytes_range: "used_bytes a bs \<subseteq> {a + 12..<a + span bs}"
proof (induction bs arbitrary: a rule: span.induct)
  case (2 s f bs)
  from "2.IH" [of "a + 12 + s"] show ?case by (auto simp: ac_simps)
qed simp

lemma used_not_hdr: "used_bytes a bs \<inter> hdr_bytes a bs = {}"
proof (induction bs arbitrary: a rule: span.induct)
  case (2 s f bs)
  from "2.IH" [of "a + 12 + s"] used_bytes_range [of "a + 12 + s" bs] hdr_bytes_range [of "a + 12 + s" bs]
  show ?case by auto
qed simp

lemma ld32_agree:
  assumes "agree h h' {a..<a + 4}" and "a + 4 \<le> 4294967296"
  shows "ld32 (ram h') (of_nat a) = ld32 (ram h) (of_nat a)"
proof -
  have "ram h' (of_nat (a + k)) = ram h (of_nat (a + k))" if "k < 4" for k
    using assms that by (auto simp: agree_def simp del: of_nat_add of_nat_Suc)
  from this [of 0] this [of 1] this [of 2] this [of 3] show ?thesis
    unfolding ld32_nat by (simp del: of_nat_add of_nat_Suc)
qed

lemma hdr_agree:
  assumes "agree h h' {a..<a + 12}" and "a + 12 \<le> 4294967296"
  shows "hdr h' a s f n \<longleftrightarrow> hdr h a s f n"
proof -
  have "ld32 (ram h') (of_nat (a + k)) = ld32 (ram h) (of_nat (a + k))" if "k \<le> 8" for k
    using assms that by (intro ld32_agree) (auto intro: agree_subset)
  from this [of 0] this [of 4] this [of 8] show ?thesis
    unfolding hdr_def field_nat by (simp del: of_nat_add)
qed

lemma seg_bounds: "seg h a bs n \<Longrightarrow> bs \<noteq> [] \<Longrightarrow> 0 < a \<and> a + span bs \<le> 4294967264"
proof (induction bs arbitrary: a rule: span.induct)
  case (2 s f bs)
  show ?case
  proof (cases "bs = []")
    case False
    then have "a + 12 + s + span bs \<le> 4294967264" using "2.IH" [of "a + 12 + s"] "2.prems"(1) by simp
    then show ?thesis using "2.prems"(1) by simp
  qed (use 2 in auto)
qed simp

lemma seg_agree:
  assumes "seg h a bs n" and "agree h h' (hdr_bytes a bs)"
  shows "seg h' a bs n"
  using assms
proof (induction bs arbitrary: a rule: span.induct)
  case (2 s f bs)
  have "agree h h' {a..<a + 12}" "agree h h' (hdr_bytes (a + 12 + s) bs)"
    using "2.prems"(2) by (auto intro: agree_subset)
  with 2 show ?case by (auto simp: hdr_agree)
qed simp

lemma seg_append:
  "ys \<noteq> [] \<Longrightarrow> seg h a (xs @ ys) n \<longleftrightarrow> seg h a xs (a + span xs) \<and> seg h (a + span xs) ys n"
proof (induction xs arbitrary: a rule: span.induct)
  case (2 s f xs)
  then show ?case by (cases "xs = []") (auto simp: ac_simps)
qed simp

section \<open>Lemmas: allocation refines first fit\<close>

lemma of_nat_le_iff_u32: "x < 4294967296 \<Longrightarrow> y < 4294967296 \<Longrightarrow> (of_nat x :: u32) \<le> of_nat y \<longleftrightarrow> x \<le> y"
  by (simp add: word_le_nat_alt unat_of_nat_u32)

lemma take_block_split:
  assumes "hdr h a s True nx" and "a + 12 + s \<le> 4294967264" and "n + 20 \<le> s"
  defines "h' \<equiv> take_block (of_nat n) (of_nat a) h"
  shows "hdr h' a n False (a + 12 + n)" and "hdr h' (a + 12 + n) (s - n - 12) True nx"
    and "x < a \<or> a + 12 + s \<le> x \<Longrightarrow> x < 4294967296 \<Longrightarrow> ram h' (of_nat x) = ram h (of_nat x)"
    and "free_list_head h' = free_list_head h"
proof -
  let ?b = "a + 12 + n"
  have sep: "sep ?b a" "sep a ?b" using assms(2,3) by (auto simp: sep_def)
  have ab: "a + 12 \<le> 4294967296" "?b + 12 \<le> 4294967296" using assms(2,3) by auto
  have nb: "of_nat a + Block_SIZE + of_nat n = (of_nat ?b :: u32)" by (simp add: Block_SIZE_def add.commute)
  have sz: "blk_size h (of_nat a) = of_nat s" "blk_free h (of_nat a) = 1" "blk_next h (of_nat a) = of_nat nx"
    using assms(1) by (simp_all add: hdr_def)
  have le: "of_nat n + Block_SIZE + ALIGNMENT \<le> (of_nat s :: u32)"
    using assms(2,3) of_nat_le_iff_u32 [of "n + 20" s] by (simp add: Block_SIZE_def ALIGNMENT_def add.commute)
  have sub: "of_nat s - of_nat n - Block_SIZE = (of_nat (s - n - 12) :: u32)"
    using assms(3) by (simp add: Block_SIZE_def of_nat_diff)
  have eq: "h' = set_blk_free (of_nat a) 0 (set_blk_next (of_nat a) (of_nat ?b) (set_blk_size (of_nat a) (of_nat n)
      (set_blk_next (of_nat ?b) (of_nat nx) (set_blk_free (of_nat ?b) 1 (set_blk_size (of_nat ?b) (of_nat (s - n - 12)) h)))))"
    using le unfolding h'_def take_block_def Let_def nb sz(1) sub by (simp add: hdr_field_other [OF sep(1)] sz(3) del: of_nat_add)
  show "hdr h' a n False ?b" "hdr h' ?b (s - n - 12) True nx"
    unfolding hdr_def eq by (simp_all add: hdr_field_same [OF ab(1)] hdr_field_same [OF ab(2)] hdr_field_other [OF sep(2)] del: of_nat_add)
  show "free_list_head h' = free_list_head h" unfolding eq by simp
  have out: "\<And>x. x \<in> {x. x < a \<or> a + 12 + s \<le> x} \<Longrightarrow> x < a \<or> a + 12 \<le> x"
    "\<And>x. x \<in> {x. x < a \<or> a + 12 + s \<le> x} \<Longrightarrow> x < ?b \<or> ?b + 12 \<le> x" using assms(3) by auto
  note keep = agree_set [OF ab(1) out(1)] agree_set [OF ab(2) out(2)]
  have "agree h h' {x. x < a \<or> a + 12 + s \<le> x}"
    unfolding eq by ((rule agree_trans [rotated], rule keep, assumption)+, rule agree_refl)
  then show "x < a \<or> a + 12 + s \<le> x \<Longrightarrow> x < 4294967296 \<Longrightarrow> ram h' (of_nat x) = ram h (of_nat x)"
    by (auto simp: agree_def)
qed

lemma take_block_whole:
  assumes "hdr h a s True nx" and "a + 12 + s \<le> 4294967264" and "\<not> n + 20 \<le> s" and "n \<le> s"
  defines "h' \<equiv> take_block (of_nat n) (of_nat a) h"
  shows "hdr h' a s False nx"
    and "x < a \<or> a + 12 + s \<le> x \<Longrightarrow> x < 4294967296 \<Longrightarrow> ram h' (of_nat x) = ram h (of_nat x)"
    and "free_list_head h' = free_list_head h"
proof -
  have ab: "a + 12 \<le> 4294967296" using assms(2) by auto
  have sz: "blk_size h (of_nat a) = of_nat s" "blk_next h (of_nat a) = of_nat nx"
    using assms(1) by (simp_all add: hdr_def)
  have "\<not> of_nat n + Block_SIZE + ALIGNMENT \<le> (of_nat s :: u32)"
    using assms(2-4) of_nat_le_iff_u32 [of "n + 20" s] by (simp add: Block_SIZE_def ALIGNMENT_def add.commute)
  then have eq: "h' = set_blk_free (of_nat a) 0 h"
    unfolding h'_def take_block_def Let_def by (simp add: sz)
  show "hdr h' a s False nx" unfolding hdr_def eq by (simp add: hdr_field_same [OF ab] sz)
  show "free_list_head h' = free_list_head h" unfolding eq by simp
  show "ram h' (of_nat x) = ram h (of_nat x)" if "x < a \<or> a + 12 + s \<le> x" "x < 4294967296"
  proof -
    have "x < a \<or> a + 12 \<le> x" using that(1) by auto
    then show ?thesis unfolding eq field_nat using that(2) ab by (subst st32_nat) auto
  qed
qed

lemma a_alloc_nonempty: "a_alloc n a bs = Some (p, bs') \<Longrightarrow> bs' \<noteq> []"
  by (cases bs rule: span.cases) (auto split: if_splits)

lemma kmalloc_loop_unfold:
  assumes "hdr h a s f nx" and "0 < a" and "a < 4294967296" and "n < 4294967296" and "s < 4294967296"
  shows "kmalloc_loop (of_nat n) (of_nat a) h =
    (if f \<and> n \<le> s then Some (take_block (of_nat n) (of_nat a) h, of_nat (a + 12))
     else kmalloc_loop (of_nat n) (of_nat nx) h)"
proof -
  have "(of_nat a :: u32) \<noteq> 0" using assms(2,3) by (simp add: unat_of_nat_u32 flip: unat_eq_zero)
  then show ?thesis
    using assms by (subst kmalloc_loop.simps) (auto simp: hdr_def of_nat_le_iff_u32 Block_SIZE_def add.commute)
qed

lemma kmalloc_loop_seg:
  assumes "seg h a bs 0" and "bs \<noteq> []" and "n < 4294967296"
  shows "case a_alloc n a bs of
      None \<Rightarrow> kmalloc_loop (of_nat n) (of_nat a) h = Some (h, 0)
    | Some (p, bs') \<Rightarrow> \<exists>h'. kmalloc_loop (of_nat n) (of_nat a) h = Some (h', of_nat p) \<and> seg h' a bs' 0 \<and>
        free_list_head h' = free_list_head h \<and> agree h h' (client_bytes a bs)"
  using assms(1,2)
proof (induction bs arbitrary: a rule: span.induct)
  case (2 s f bs)
  let ?c = "a + 12 + s"
  let ?nx = "if bs = [] then 0 else ?c"
  have b: "0 < a" "?c \<le> 4294967264" "hdr h a s f ?nx" "bs \<noteq> [] \<Longrightarrow> seg h ?c bs 0" using "2.prems" by auto
  note u = kmalloc_loop_unfold [OF b(3,1) _ assms(3)]
  show ?case
  proof (cases "f \<and> n \<le> s")
    case True
    let ?h = "take_block (of_nat n) (of_nat a) h"
    have fr: "ram ?h (of_nat x) = ram h (of_nat x)" if "x < a \<or> ?c \<le> x" "x < 4294967296" for x
      using that take_block_split(3) [of h a s ?nx n x] take_block_whole(2) [of h a s ?nx n x] True b by (cases "n + 20 \<le> s") auto
    have ag: "agree h ?h (client_bytes a ((s, f) # bs))" "agree h ?h (hdr_bytes ?c bs)"
      using fr True used_bytes_range [of ?c bs] hdr_bytes_range [of ?c bs] by (auto simp: agree_def client_bytes_def)
    have tl: "bs \<noteq> [] \<Longrightarrow> seg ?h ?c bs 0" using seg_agree [OF _ ag(2)] b(4) by blast
    have "seg ?h a (if n + 20 \<le> s then (n, False) # (s - n - 12, True) # bs else (s, False) # bs) 0"
      using take_block_split(1,2) [of h a s ?nx n] take_block_whole(1) [of h a s ?nx n] True b tl by (auto simp: ac_simps)
    moreover have "free_list_head ?h = free_list_head h"
      using take_block_split(4) [of h a s ?nx n] take_block_whole(3) [of h a s ?nx n] True b by (cases "n + 20 \<le> s") auto
    ultimately show ?thesis using True u b ag(1) by auto
  next
    case False
    then have k: "kmalloc_loop (of_nat n) (of_nat a) h = kmalloc_loop (of_nat n) (of_nat ?nx) h" using u b by auto
    show ?thesis
    proof (cases "bs = []")
      case True
      have "kmalloc_loop (of_nat n) 0 h = Some (h, 0)" by (subst kmalloc_loop.simps) simp
      with True False k show ?thesis by auto
    next
      case ne: False
      note IH = "2.IH" [OF b(4) [OF ne] ne]
      show ?thesis
      proof (cases "a_alloc n ?c bs")
        case None
        with False k ne IH show ?thesis by auto
      next
        case (Some r)
        obtain p bs' where r: "r = (p, bs')" by (cases r)
        with Some IH obtain h' where h': "kmalloc_loop (of_nat n) (of_nat ?c) h = Some (h', of_nat p)"
          "seg h' ?c bs' 0" "free_list_head h' = free_list_head h" "agree h h' (client_bytes ?c bs)" by auto
        have "agree h h' {a..<a + 12}" using h'(4) by (rule agree_subset) (auto simp: client_bytes_def)
        then have "hdr h' a s f ?c" using b ne hdr_agree [of h h' a] by auto
        moreover have "agree h h' (client_bytes a ((s, f) # bs))"
          using h'(4) by (rule agree_subset) (auto simp: client_bytes_def)
        moreover have "bs' \<noteq> []" using Some r a_alloc_nonempty by blast
        ultimately show ?thesis using False k ne h' Some r b by auto
      qed
    qed
  qed
qed simp

section \<open>Lemmas: freeing joins neighbours\<close>

lemma of_nat_eq_u32: "x < 4294967296 \<Longrightarrow> y < 4294967296 \<Longrightarrow> (of_nat x :: u32) = of_nat y \<longleftrightarrow> x = y"
  by (auto simp: word_unat_eq_iff unat_of_nat_u32)

lemma kfree_walk_seg:
  assumes "seg h a xs b" and "b = a + span xs" and "b < 4294967296"
  shows "kfree_walk (of_nat b) prev (of_nat a) h = Some (if xs = [] then prev else of_nat (a + span (butlast xs)))"
  using assms
proof (induction xs arbitrary: a prev rule: span.induct)
  case 1
  then show ?case by (subst kfree_walk.simps) simp
next
  case (2 s f xs)
  let ?c = "a + 12 + s"
  have nx: "blk_next h (of_nat a) = of_nat ?c" using "2.prems"(1,2) by (auto simp: hdr_def split: if_splits)
  have "0 < a" "a < b" using "2.prems"(1,2) by auto
  then have "(of_nat a :: u32) \<noteq> 0" "(of_nat a :: u32) \<noteq> of_nat b"
    using "2.prems"(3) of_nat_eq_u32 [of a b] of_nat_eq_u32 [of a 0] by auto
  then have w: "kfree_walk (of_nat b) prev (of_nat a) h = kfree_walk (of_nat b) (of_nat a) (of_nat ?c) h"
    by (subst kfree_walk.simps) (simp only: nx simp_thms if_True)
  show ?case
  proof (cases "xs = []")
    case True
    with "2.prems"(2) have "?c = b" by simp
    then show ?thesis unfolding w using True by (subst kfree_walk.simps) simp
  next
    case False
    then show ?thesis
      unfolding w using "2.IH" [of ?c "of_nat a"] "2.prems" by (auto simp: add.assoc)
  qed
qed

lemma absorb_seg:
  assumes "seg h p ((r, f) # (s, g) # zs) 0" and "q = p + 12 + r"
    and "h1 = set_blk_size (of_nat p) (blk_size h (of_nat p) + (Block_SIZE + blk_size h (of_nat q))) h"
    and "h2 = set_blk_next (of_nat p) (blk_next h1 (of_nat q)) h1"
  shows "seg h2 p ((r + 12 + s, f) # zs) 0" and "agree h h2 (- {p..<p + 12})" and "free_list_head h2 = free_list_head h"
proof -
  let ?n = "if zs = [] then 0 else q + 12 + s"
  have b: "0 < p" "q + 12 + s \<le> 4294967264" "hdr h p r f q" "hdr h q s g ?n" "zs \<noteq> [] \<Longrightarrow> seg h (q + 12 + s) zs 0"
    using assms(1,2) by auto
  have sep: "sep p q" and pb: "p + 12 \<le> 4294967296" using b(2) assms(2) by (auto simp: sep_def)
  have "blk_next h1 (of_nat q) = of_nat ?n" unfolding assms(3) using b(4) by (simp add: hdr_field_other [OF sep] hdr_def)
  moreover have "blk_size h (of_nat p) + (Block_SIZE + blk_size h (of_nat q)) = of_nat (r + 12 + s)"
    using b(3,4) by (simp add: hdr_def Block_SIZE_def)
  ultimately have h2: "h2 = set_blk_next (of_nat p) (of_nat ?n) (set_blk_size (of_nat p) (of_nat (r + 12 + s)) h)"
    using assms(3,4) by simp
  show ag: "agree h h2 (- {p..<p + 12})"
    unfolding h2 by (rule agree_trans [OF agree_set(1) agree_set(3)]) (use pb in auto)
  show "free_list_head h2 = free_list_head h" unfolding h2 by simp
  have "hdr h2 p (r + 12 + s) f ?n"
    unfolding hdr_def h2 using b(3) by (simp add: hdr_field_same [OF pb] hdr_def)
  moreover have "hdr_bytes (q + 12 + s) zs \<subseteq> - {p..<p + 12}"
    using hdr_bytes_range [of "q + 12 + s" zs] assms(2) by auto
  then have "zs \<noteq> [] \<Longrightarrow> seg h2 (q + 12 + s) zs 0" using seg_agree [OF b(5)] ag agree_subset by blast
  ultimately show "seg h2 p ((r + 12 + s, f) # zs) 0" using b assms(2) by (auto simp: ac_simps)
qed

lemma kfree_next_seg:
  assumes "seg h b ((s, True) # ys) 0"
  shows "seg (kfree_next (of_nat b) h) b (join_next s ys) 0" and "agree h (kfree_next (of_nat b) h) (- {b..<b + 12})"
    and "free_list_head (kfree_next (of_nat b) h) = free_list_head h"
proof -
  show "seg (kfree_next (of_nat b) h) b (join_next s ys) 0" "agree h (kfree_next (of_nat b) h) (- {b..<b + 12})"
    "free_list_head (kfree_next (of_nat b) h) = free_list_head h"
  proof (atomize (full), cases ys)
    case Nil
    then have "blk_next h (of_nat b) = 0" using assms by (simp add: hdr_def)
    then show "seg (kfree_next (of_nat b) h) b (join_next s ys) 0 \<and> agree h (kfree_next (of_nat b) h) (- {b..<b + 12}) \<and>
      free_list_head (kfree_next (of_nat b) h) = free_list_head h" using Nil assms by (simp add: kfree_next_def)
  next
    case (Cons y zs)
    obtain t g where y: "y = (t, g)" by (cases y)
    let ?q = "b + 12 + s"
    have q: "0 < ?q" "?q < 4294967296" "blk_next h (of_nat b) = of_nat ?q" "blk_free h (of_nat ?q) = (if g then 1 else 0)"
      using assms Cons y by (auto simp: hdr_def)
    then have q0: "(of_nat ?q :: u32) \<noteq> 0" using of_nat_eq_u32 [of ?q 0] by simp
    show "seg (kfree_next (of_nat b) h) b (join_next s ys) 0 \<and> agree h (kfree_next (of_nat b) h) (- {b..<b + 12}) \<and>
      free_list_head (kfree_next (of_nat b) h) = free_list_head h"
    proof (cases g)
      case False
      then show ?thesis using q Cons y assms by (simp add: kfree_next_def)
    next
      case True
      have bb: "b + 12 \<le> 4294967296" using assms by auto
      have "kfree_next (of_nat b) h =
        (let h1 = set_blk_size (of_nat b) (blk_size h (of_nat b) + (Block_SIZE + blk_size h (of_nat ?q))) h
         in set_blk_next (of_nat b) (blk_next h1 (of_nat ?q)) h1)"
        unfolding kfree_next_def Let_def q(3) using q(4) q0 True by (simp add: hdr_field_same [OF bb] q(3) del: of_nat_add)
      then show ?thesis using absorb_seg [of h b s True t True zs ?q] assms Cons y True by (simp add: Let_def)
    qed
  qed
qed

lemma kfree_prev_seg:
  assumes "seg h p ((r, f) # (s, True) # zs) 0" and "b = p + 12 + r"
  shows "seg (kfree_prev (of_nat p) (of_nat b) h) p (if f then (r + 12 + s, True) # zs else (r, f) # (s, True) # zs) 0"
    and "agree h (kfree_prev (of_nat p) (of_nat b) h) (- {p..<p + 12})"
    and "free_list_head (kfree_prev (of_nat p) (of_nat b) h) = free_list_head h"
proof -
  have "0 < p" "p < 4294967296" "blk_free h (of_nat p) = (if f then 1 else 0)" using assms by (auto simp: hdr_def)
  moreover from this have "(of_nat p :: u32) \<noteq> 0" using of_nat_eq_u32 [of p 0] by simp
  ultimately have "kfree_prev (of_nat p) (of_nat b) h = (if f then
      (let h1 = set_blk_size (of_nat p) (blk_size h (of_nat p) + (Block_SIZE + blk_size h (of_nat b))) h
         in set_blk_next (of_nat p) (blk_next h1 (of_nat b)) h1) else h)"
    by (simp add: kfree_prev_def Let_def)
  then show "seg (kfree_prev (of_nat p) (of_nat b) h) p (if f then (r + 12 + s, True) # zs else (r, f) # (s, True) # zs) 0"
    and "agree h (kfree_prev (of_nat p) (of_nat b) h) (- {p..<p + 12})"
    and "free_list_head (kfree_prev (of_nat p) (of_nat b) h) = free_list_head h"
    using absorb_seg [OF assms refl refl] assms(1) by (auto simp: Let_def)
qed

lemma seg_mark_free:
  assumes "seg h b ((s, f) # ys) 0"
  shows "seg (set_blk_free (of_nat b) 1 h) b ((s, True) # ys) 0"
    and "agree h (set_blk_free (of_nat b) 1 h) (- {b..<b + 12})"
proof -
  have bb: "b + 12 \<le> 4294967296" using assms by auto
  show ag: "agree h (set_blk_free (of_nat b) 1 h) (- {b..<b + 12})" by (rule agree_set(2) [OF bb]) auto
  have "hdr_bytes (b + 12 + s) ys \<subseteq> - {b..<b + 12}" using hdr_bytes_range [of "b + 12 + s" ys] by auto
  then have "ys \<noteq> [] \<Longrightarrow> seg (set_blk_free (of_nat b) 1 h) (b + 12 + s) ys 0"
    using assms seg_agree agree_subset [OF ag] by auto
  then show "seg (set_blk_free (of_nat b) 1 h) b ((s, True) # ys) 0"
    using assms by (auto simp: hdr_def hdr_field_same [OF bb])
qed

lemma join_next_shape: "\<exists>S zs. join_next s ys = (S, True) # zs"
  by (cases "(s, ys)" rule: join_next.cases) auto

lemma span_join_next [simp]: "span (join_next s ys) = 12 + s + span ys"
  by (cases "(s, ys)" rule: join_next.cases) auto

lemma used_join_next: "used_bytes a (join_next s ys) = used_bytes (a + 12 + s) ys"
  by (cases "(s, ys)" rule: join_next.cases) (auto simp: ac_simps)

lemma join_next_join: "join_next s ys = (S, True) # zs \<Longrightarrow> join_next (r + 12 + s) ys = (r + 12 + S, True) # zs"
  by (cases "(s, ys)" rule: join_next.cases) auto

lemma kfree_seg:
  assumes sg: "seg h a (xs @ (s, f) # ys) 0" and hd: "free_list_head h = of_nat a" and b: "b = a + span xs"
  obtains h' where "kfree (of_nat (b + 12)) h = Some h'" and "seg h' a (a_free xs s ys) 0"
    and "free_list_head h' = free_list_head h" and "agree h h' ({..<a} \<union> used_bytes a xs \<union> used_bytes (b + 12 + s) ys \<union> {b + 12 + s + span ys..})"
proof -
  have s0: "seg h a xs b" "seg h b ((s, f) # ys) 0" using sg by (simp_all add: seg_append b)
  have bb: "0 < b" "b + 12 + s \<le> 4294967264" using s0(2) by auto
  let ?h1 = "set_blk_free (of_nat b) 1 h"
  let ?h2 = "kfree_next (of_nat b) ?h1"
  note s1 = seg_mark_free [OF s0(2)]
  note s2 = kfree_next_seg [OF s1(1)]
  have a2: "agree h ?h2 (- {b..<b + 12})" using agree_trans [OF s1(2) s2(2)] .
  have hx: "hdr_bytes a xs \<subseteq> - {b..<b + 12}" using hdr_bytes_range [of a xs] b by auto
  have x1: "seg ?h1 a xs b" using seg_agree [OF s0(1)] agree_subset [OF s1(2) hx] by blast
  have x2: "seg ?h2 a xs b" using seg_agree [OF s0(1)] agree_subset [OF a2 hx] by blast
  obtain S zs where j: "join_next s ys = (S, True) # zs" using join_next_shape by blast
  have p0: "(of_nat (b + 12) :: u32) \<noteq> 0" using bb of_nat_eq_u32 [of "b + 12" 0] by simp
  have pb: "of_nat (b + 12) - Block_SIZE = (of_nat b :: u32)" by (simp add: Block_SIZE_def)
  have walk: "kfree_walk (of_nat b) 0 (free_list_head ?h1) ?h1 = Some (if xs = [] then 0 else of_nat (a + span (butlast xs)))"
    using kfree_walk_seg [OF x1 b] bb hd by simp
  have eq: "kfree (of_nat (b + 12)) h = Some (kfree_prev (if xs = [] then 0 else of_nat (a + span (butlast xs))) (of_nat b) ?h2)"
    unfolding kfree_def Let_def pb walk using p0 by simp
  have us: "{..<a} \<union> used_bytes a xs \<union> used_bytes (b + 12 + s) ys \<union> {b + 12 + s + span ys..} \<subseteq> - hdr_bytes a (xs @ [(s, f)])"
    using used_not_hdr [of a xs] used_bytes_range [of "b + 12 + s" ys] hdr_bytes_range [of a xs] used_bytes_range [of a xs]
    by (auto simp: hdr_bytes_append b) force+
  show ?thesis
  proof (cases "xs = []")
    case True
    have "?h2 = kfree_prev 0 (of_nat b) ?h2" by (simp add: kfree_prev_def)
    moreover have "agree h ?h2 ({..<a} \<union> used_bytes a xs \<union> used_bytes (b + 12 + s) ys \<union> {b + 12 + s + span ys..})"
      using a2 by (rule agree_subset) (use us True b in auto)
    ultimately show ?thesis
      using that [of ?h2] eq s2(1,3) True b by (simp add: a_free_def)
  next
    case False
    then obtain ws r g where xs: "xs = ws @ [(r, g)]" by (metis append_butlast_last_id surj_pair)
    let ?p = "a + span ws"
    let ?h3 = "kfree_prev (of_nat ?p) (of_nat b) ?h2"
    have bp: "b = ?p + 12 + r" using b xs by simp
    have "seg ?h2 ?p [(r, g)] b" and w2: "seg ?h2 a ws ?p" using x2 by (simp_all add: xs seg_append)
    then have "seg ?h2 ?p ((r, g) # (S, True) # zs) 0" using s2(1) j bp by simp
    note s3 = kfree_prev_seg [OF this bp]
    have w3: "seg ?h3 a ws ?p"
      using seg_agree [OF w2] agree_subset [OF s3(2), of "hdr_bytes a ws"] hdr_bytes_range [of a ws] by fastforce
    have "seg ?h3 a (ws @ (if g then (r + 12 + S, True) # zs else (r, g) # (S, True) # zs)) 0"
      using s3(1) w3 by (simp add: seg_append)
    then have "seg ?h3 a (a_free xs s ys) 0" using join_next_join [OF j] j by (simp add: a_free_def xs split: if_splits)
    moreover have "agree h ?h3 ({..<a} \<union> used_bytes a xs \<union> used_bytes (b + 12 + s) ys \<union> {b + 12 + s + span ys..})"
    proof (rule agree_trans)
      show "agree h ?h2 ({..<a} \<union> used_bytes a xs \<union> used_bytes (b + 12 + s) ys \<union> {b + 12 + s + span ys..})"
        using a2 by (rule agree_subset) (use us b in \<open>auto simp: hdr_bytes_append\<close>)
      show "agree ?h2 ?h3 ({..<a} \<union> used_bytes a xs \<union> used_bytes (b + 12 + s) ys \<union> {b + 12 + s + span ys..})"
        using s3(2) by (rule agree_subset) (use us xs in \<open>auto simp: hdr_bytes_append\<close>)
    qed
    ultimately show ?thesis using that [of ?h3] eq s2(3) s3(3) False xs by simp
  qed
qed

end
