(* ===== verification/KHeap_Spec.thy ===== *)
theory KHeap_Spec
  imports KHeap
begin

text \<open>
  The contract of the kernel heap: an invariant on memory, the locale of an allocator with its
  laws, the proof that \<open>kmalloc\<close> and \<open>kfree\<close> satisfy them, and the clients \<open>krealloc\<close> and \<open>strdup\<close>.
\<close>

unbundle bit_operations_syntax

section \<open>Specification\<close>

text \<open>
  The invariant: memory holds the blocks \<open>bs\<close> from address \<open>a\<close> on, and no two free ones are adjacent.
\<close>

definition heap_ok :: "kheap \<Rightarrow> nat \<times> blocks \<Rightarrow> bool" where
  "heap_ok h A \<longleftrightarrow> (case A of (a, bs) \<Rightarrow>
     free_list_head h = of_nat a \<and> bs \<noteq> [] \<and> seg h a bs 0 \<and> coalesced bs)"

text \<open>A block that has been handed out, the bytes that are not the allocator's, and whether a request can be met.\<close>

definition live :: "nat \<times> blocks \<Rightarrow> nat \<Rightarrow> nat \<Rightarrow> bool" where
  "live A p s \<longleftrightarrow> (case A of (a, bs) \<Rightarrow> \<exists>xs ys. bs = xs @ (s, False) # ys \<and> p = a + span xs + 12)"

definition client :: "nat \<times> blocks \<Rightarrow> nat set" where
  "client A = (case A of (a, bs) \<Rightarrow> client_bytes a bs \<inter> {..<4294967296})"

definition fits :: "nat \<times> blocks \<Rightarrow> u32 \<Rightarrow> bool" where
  "fits A n \<longleftrightarrow> (\<exists>(s, f) \<in> set (snd A). f \<and> unat (ALIGN n) \<le> s)"

fun entries :: "nat \<Rightarrow> blocks \<Rightarrow> (nat \<times> nat \<times> bool) set" where
  "entries a [] = {}"
| "entries a ((s, f) # bs) = insert (a, s, f) (entries (a + 12 + s) bs)"

definition copy_mem :: "nat \<Rightarrow> u32 \<Rightarrow> u32 \<Rightarrow> kheap \<Rightarrow> kheap" where
  "copy_mem n dest src h = h\<lparr>ram := copy_ram n dest src (ram h)\<rparr>"

text \<open>The blocks that a used block of size \<open>s\<close> and the free one of size \<open>t\<close> after it become when the first grows to \<open>n\<close>.\<close>

definition a_grow :: "nat \<Rightarrow> nat \<Rightarrow> nat \<Rightarrow> blocks" where
  "a_grow n s t = (if n + 20 \<le> s + 12 + t then [(n, False), (s + 12 + t - n - 12, True)] else [(s + 12 + t, False)])"

text \<open>The contract of \<open>krealloc\<close> when it succeeds.\<close>

definition reallocated :: "kheap \<Rightarrow> nat \<times> blocks \<Rightarrow> u32 \<Rightarrow> nat \<Rightarrow> u32 \<Rightarrow> kheap \<Rightarrow> nat \<times> blocks \<Rightarrow> u32 \<Rightarrow> bool" where
  "reallocated h A p s n h' A' q \<longleftrightarrow> q \<noteq> 0 \<and> heap_ok h' A' \<and>
     (\<exists>t. live A' (unat q) t \<and> unat n \<le> t \<and> client A' = client A - {unat p..<unat p + s} \<union> {unat q..<unat q + t}) \<and>
     (\<forall>i < s. ram h' (q + of_nat i) = ram h (p + of_nat i)) \<and>
     (\<forall>x \<in> client A - {unat p..<unat p + s}. ram h' (of_nat x) = ram h (of_nat x)) \<and>
     (\<forall>r t. live A r t \<longrightarrow> r \<noteq> unat p \<longrightarrow> live A' r t)"

text \<open>
  The runs of the heap: any sequence of successful calls and of writes into blocks that are in
  use, with the table of these blocks and the sizes that were asked for.
\<close>

inductive kheap_run :: "kheap \<Rightarrow> (u32 \<rightharpoonup> u32) \<Rightarrow> bool" where
  run_init: "0 < start \<Longrightarrow> 12 \<le> sz \<Longrightarrow> start + sz \<le> 4294967264 \<Longrightarrow>
    kheap_run (kheap_init (of_nat start) (of_nat sz) h) Map.empty"
| run_kmalloc: "kheap_run h L \<Longrightarrow> unat n \<le> 4294967288 \<Longrightarrow> kmalloc n h = Some (h', p) \<Longrightarrow> p \<noteq> 0 \<Longrightarrow>
    kheap_run h' (L(p \<mapsto> n))"
| run_krealloc: "kheap_run h L \<Longrightarrow> L p = Some k \<Longrightarrow> n \<noteq> 0 \<Longrightarrow> unat n \<le> 4294967288 \<Longrightarrow>
    krealloc p n h = Some (h', q) \<Longrightarrow> q \<noteq> 0 \<Longrightarrow> kheap_run h' ((L(p := None))(q \<mapsto> n))"
| run_kfree: "kheap_run h L \<Longrightarrow> L p = Some k \<Longrightarrow> kfree p h = Some h' \<Longrightarrow> kheap_run h' (L(p := None))"
| run_write: "kheap_run h L \<Longrightarrow> L p = Some k \<Longrightarrow> i < unat k \<Longrightarrow>
    kheap_run (h\<lparr>ram := (ram h)(p + of_nat i := v)\<rparr>) L"

definition small_heap :: kheap where
  "small_heap = kheap_init 4096 256 \<lparr>ram = \<lambda>_. 0, free_list_head = 0\<rparr>"

section \<open>The interface of an allocator\<close>

text \<open>
  \<open>mine A\<close> is the set of bytes that belong to the clients in the abstract state \<open>A\<close>, \<open>block_of A p s\<close> says that
  the block at \<open>p\<close> with \<open>s\<close> bytes is in use, \<open>room A n\<close> that a request of \<open>n\<close> bytes can be met.
\<close>

locale allocator =
  fixes rel :: "'s \<Rightarrow> 'a \<Rightarrow> bool"
    and mine :: "'a \<Rightarrow> nat set"
    and room :: "'a \<Rightarrow> u32 \<Rightarrow> bool"
    and block_of :: "'a \<Rightarrow> nat \<Rightarrow> nat \<Rightarrow> bool"
    and byte :: "'s \<Rightarrow> u32 \<Rightarrow> u8"
    and alloc :: "u32 \<Rightarrow> 's \<Rightarrow> ('s \<times> u32) option"
    and release :: "u32 \<Rightarrow> 's \<Rightarrow> 's option"
  assumes alloc_full: "rel h A \<Longrightarrow> \<not> room A n \<Longrightarrow> alloc n h = Some (h, 0)"
    and alloc_room: "rel h A \<Longrightarrow> room A n \<Longrightarrow> unat n \<le> 4294967288 \<Longrightarrow>
      \<exists>h' p A' s. alloc n h = Some (h', p) \<and> p \<noteq> 0 \<and> rel h' A' \<and> unat n \<le> s \<and> block_of A' (unat p) s \<and>
         {unat p..<unat p + s} \<inter> mine A = {} \<and> mine A' = mine A \<union> {unat p..<unat p + s} \<and>
         (\<forall>x \<in> mine A. byte h' (of_nat x) = byte h (of_nat x)) \<and> (\<forall>q t. block_of A q t \<longrightarrow> block_of A' q t) \<and>
         (\<forall>t. \<not> block_of A (unat p) t)"
    and release_block: "rel h A \<Longrightarrow> block_of A (unat p) s \<Longrightarrow>
      \<exists>h' A'. release p h = Some h' \<and> rel h' A' \<and> mine A' = mine A - {unat p..<unat p + s} \<and>
         (\<forall>x \<in> mine A'. byte h' (of_nat x) = byte h (of_nat x)) \<and>
         (\<forall>q t. block_of A q t \<and> q \<noteq> unat p \<longrightarrow> block_of A' q t)"
    and block_mine: "rel h A \<Longrightarrow> block_of A q s \<Longrightarrow> 0 < q \<and> q + s < 4294967296 \<and> {q..<q + s} \<subseteq> mine A"
    and block_disjoint: "rel h A \<Longrightarrow> block_of A q s \<Longrightarrow> block_of A r t \<Longrightarrow> r \<noteq> q \<Longrightarrow>
      {q..<q + s} \<inter> {r..<r + t} = {}"

text \<open>With copying between places of memory.\<close>

locale copying_allocator = allocator +
  fixes copy :: "nat \<Rightarrow> u32 \<Rightarrow> u32 \<Rightarrow> 's \<Rightarrow> 's"
  assumes copy_rel: "rel h A \<Longrightarrow> {d..<d + n} \<subseteq> mine A \<Longrightarrow> d + n < 4294967296 \<Longrightarrow>
      rel (copy n (of_nat d) s h) A"
    and copy_byte: "d + n < 4294967296 \<Longrightarrow> b + n \<le> 4294967296 \<Longrightarrow> {d..<d + n} \<inter> {b..<b + n} = {} \<Longrightarrow> x < 4294967296 \<Longrightarrow>
      byte (copy n (of_nat d) (of_nat b) h) (of_nat x) =
        (if d \<le> x \<and> x < d + n then byte h (of_nat (b + (x - d))) else byte h (of_nat x))"
begin

text \<open>An allocated copy of bytes that a client owns.\<close>

lemma duplicate:
  assumes rel: "rel h A" and room: "room A n" and n: "unat n \<le> 4294967288" "k \<le> unat n"
    and src: "{b..<b + k} \<subseteq> mine A" "b + k \<le> 4294967296"
  obtains h1 p A' s where "alloc n h = Some (h1, p)" "p \<noteq> 0" "rel (copy k p (of_nat b) h1) A'" "unat n \<le> s"
    "block_of A' (unat p) s" "mine A' = mine A \<union> {unat p..<unat p + s}" "{unat p..<unat p + s} \<inter> mine A = {}"
    "\<And>i. i < k \<Longrightarrow> byte (copy k p (of_nat b) h1) (of_nat (unat p + i)) = byte h (of_nat (b + i))"
    "\<And>x. x \<in> mine A \<Longrightarrow> x < 4294967296 \<Longrightarrow> byte (copy k p (of_nat b) h1) (of_nat x) = byte h (of_nat x)"
    "\<And>q t. block_of A q t \<Longrightarrow> block_of A' q t" "\<And>t. \<not> block_of A (unat p) t"
proof -
  obtain h1 p A' s where al: "alloc n h = Some (h1, p)" "p \<noteq> 0" "rel h1 A'" "unat n \<le> s" "block_of A' (unat p) s"
    "{unat p..<unat p + s} \<inter> mine A = {}" "mine A' = mine A \<union> {unat p..<unat p + s}"
    "\<And>x. x \<in> mine A \<Longrightarrow> byte h1 (of_nat x) = byte h (of_nat x)" "\<And>q t. block_of A q t \<Longrightarrow> block_of A' q t"
    "\<And>t. \<not> block_of A (unat p) t"
    using alloc_room [OF rel room n(1)] by (elim exE conjE) metis
  have bm: "unat p + s < 4294967296" using block_mine [OF al(3,5)] by simp
  have pk: "{unat p..<unat p + k} \<subseteq> {unat p..<unat p + s}" "unat p + k < 4294967296" using bm n(2) al(4) by auto
  have mk: "{unat p..<unat p + k} \<subseteq> mine A'" using pk(1) al(7) by blast
  have rel': "rel (copy k p (of_nat b) h1) A'"
    using copy_rel [OF al(3) mk pk(2), of "of_nat b"] by simp
  have "{unat p..<unat p + k} \<inter> {b..<b + k} = {}" using al(6) pk(1) src(1) by blast
  note cp = copy_byte [OF pk(2) src(2) this, simplified]
  have c: "byte (copy k p (of_nat b) h1) (of_nat (unat p + i)) = byte h (of_nat (b + i))" if "i < k" for i
  proof -
    have "b + i \<in> mine A" using that src(1) by auto
    then show ?thesis using cp [of "unat p + i" h1] al(8) that pk(2) by (simp del: of_nat_add)
  qed
  have o: "byte (copy k p (of_nat b) h1) (of_nat x) = byte h (of_nat x)" if "x \<in> mine A" "x < 4294967296" for x
  proof -
    have "x \<notin> {unat p..<unat p + k}" using that(1) al(6) pk(1) by blast
    then have "\<not> (unat p \<le> x \<and> x < unat p + k)" by simp
    then show ?thesis using cp [of x h1] al(8) [OF that(1)] that(2) by auto
  qed
  show ?thesis by (rule that [OF al(1,2) rel' al(4,5,7,6) c o al(9,10)])
qed

text \<open>A block moved: a new one allocated, the first \<open>k\<close> bytes copied, the old one released.\<close>

lemma move:
  assumes rel: "rel h A" and room: "room A n" and n: "unat n \<le> 4294967288" "k \<le> unat n" and old: "block_of A (unat b) z" and k: "k \<le> z"
  obtains h1 p h2 A' s where "alloc n h = Some (h1, p)" "p \<noteq> 0" "release b (copy k p b h1) = Some h2" "rel h2 A'"
    "unat n \<le> s" "block_of A' (unat p) s" "mine A' = mine A - {unat b..<unat b + z} \<union> {unat p..<unat p + s}"
    "\<And>i. i < k \<Longrightarrow> byte h2 (of_nat (unat p + i)) = byte h (of_nat (unat b + i))"
    "\<And>x. x \<in> mine A - {unat b..<unat b + z} \<Longrightarrow> x < 4294967296 \<Longrightarrow> byte h2 (of_nat x) = byte h (of_nat x)"
    "\<And>q t. block_of A q t \<Longrightarrow> q \<noteq> unat b \<Longrightarrow> block_of A' q t" "{unat p..<unat p + s} \<inter> mine A = {}"
proof -
  have bz: "{unat b..<unat b + z} \<subseteq> mine A" "unat b + z \<le> 4294967296" using block_mine [OF rel old] by auto
  then have b: "{unat b..<unat b + k} \<subseteq> mine A" "unat b + k \<le> 4294967296" using k by auto
  have e: "of_nat (unat b) = b" by simp
  obtain h1 p A1 s where d: "alloc n h = Some (h1, p)" "p \<noteq> 0" "rel (copy k p b h1) A1" "unat n \<le> s"
    "block_of A1 (unat p) s" "mine A1 = mine A \<union> {unat p..<unat p + s}" "{unat p..<unat p + s} \<inter> mine A = {}"
    "\<And>i. i < k \<Longrightarrow> byte (copy k p b h1) (of_nat (unat p + i)) = byte h (of_nat (unat b + i))"
    "\<And>x. x \<in> mine A \<Longrightarrow> x < 4294967296 \<Longrightarrow> byte (copy k p b h1) (of_nat x) = byte h (of_nat x)"
    "\<And>q t. block_of A q t \<Longrightarrow> block_of A1 q t" "\<And>t. \<not> block_of A (unat p) t"
    by (rule duplicate [OF rel room n b, unfolded e]) (rule that, assumption+)
  obtain h2 A' where r: "release b (copy k p b h1) = Some h2" "rel h2 A'" "mine A' = mine A1 - {unat b..<unat b + z}"
    "\<And>x. x \<in> mine A' \<Longrightarrow> byte h2 (of_nat x) = byte (copy k p b h1) (of_nat x)"
    "\<And>q t. block_of A1 q t \<Longrightarrow> q \<noteq> unat b \<Longrightarrow> block_of A' q t"
    using release_block [OF d(3) d(10) [OF old]] by (elim exE conjE) metis
  have m: "mine A' = mine A - {unat b..<unat b + z} \<union> {unat p..<unat p + s}" using r(3) d(6,7) bz(1) by auto
  have "unat p \<noteq> unat b" using d(11) old by auto
  then have "block_of A' (unat p) s" using r(5) d(5) by blast
  note blk = this
  have c: "byte h2 (of_nat (unat p + i)) = byte h (of_nat (unat b + i))" if "i < k" for i
    using r(4) [of "unat p + i"] d(8) [OF that] m n d(4) that by (simp del: of_nat_add)
  have o: "byte h2 (of_nat x) = byte h (of_nat x)" if "x \<in> mine A - {unat b..<unat b + z}" "x < 4294967296" for x
    using r(4) [of x] d(9) [of x] m that by auto
  show ?thesis by (rule that [OF d(1,2) r(1,2) d(4) blk m c o r(5) [OF d(10)] d(7)])
qed

end

section \<open>Lemmas: blocks in use\<close>

lemma ALIGN_unat:
  assumes "unat n \<le> 4294967288"
  shows "unat (ALIGN n) = (unat n + 7) div 8 * 8"
proof -
  have m: "ALIGNMENT - 1 = (mask 3 :: u32)" by (simp add: ALIGNMENT_def mask_eq_exp_minus_1)
  have "x AND NOT (mask 3) = x div 8 * (8 :: u32)" for x :: u32
  proof -
    have "x AND NOT (mask 3) = push_bit 3 (drop_bit 3 x)"
      by (rule bit_word_eqI) (auto simp: bit_simps)
    then show ?thesis by (simp add: push_bit_eq_mult drop_bit_eq_div)
  qed
  then have "ALIGN n = (n + mask 3) div 8 * 8" unfolding ALIGN_def m by simp
  moreover have "unat (n + mask 3 :: u32) = unat n + 7"
    using assms by (subst unat_add_u32) (simp_all add: mask_eq_exp_minus_1)
  ultimately show ?thesis
    using assms by (simp add: unat_mult_u32 unat_div)
qed

lemma ALIGN_bounds: "unat n \<le> 4294967288 \<Longrightarrow> unat n \<le> unat (ALIGN n)"
  by (simp add: ALIGN_unat)

lemma a_alloc_cases:
  assumes "a_alloc n a bs = Some (p, bs')"
  obtains xs s ys where "bs = xs @ (s, True) # ys" "p = a + span xs + 12" "n + 20 \<le> s"
      "bs' = xs @ (n, False) # (s - n - 12, True) # ys"
    | xs s ys where "bs = xs @ (s, True) # ys" "p = a + span xs + 12" "n \<le> s" "bs' = xs @ (s, False) # ys"
  using assms
proof (induction bs arbitrary: a bs' thesis rule: span.induct)
  case (2 s f bs)
  show ?case
  proof (cases "f \<and> n \<le> s")
    case True
    show ?thesis
    proof (cases "n + 20 \<le> s")
      case split: True
      show ?thesis using "2.prems"(3) True split by (intro "2.prems"(1) [of "[]" s bs]) auto
    next
      case False
      show ?thesis using "2.prems"(3) True False by (intro "2.prems"(2) [of "[]" s bs]) auto
    qed
  next
    case False
    then obtain bs2 where r: "a_alloc n (a + 12 + s) bs = Some (p, bs2)" "bs' = (s, f) # bs2" using "2.prems"(3) by auto
    show ?thesis
    proof (rule "2.IH" [OF _ _ r(1)])
      fix xs t ys assume "bs = xs @ (t, True) # ys" "p = a + 12 + s + span xs + 12" "n + 20 \<le> t"
        "bs2 = xs @ (n, False) # (t - n - 12, True) # ys"
      then show thesis using r(2) by (intro "2.prems"(1) [of "(s, f) # xs" t ys]) auto
    next
      fix xs t ys assume "bs = xs @ (t, True) # ys" "p = a + 12 + s + span xs + 12" "n \<le> t" "bs2 = xs @ (t, False) # ys"
      then show thesis using r(2) by (intro "2.prems"(2) [of "(s, f) # xs" t ys]) auto
    qed
  qed
qed simp

lemma a_alloc_None: "a_alloc n a bs = None \<longleftrightarrow> (\<forall>(s, f) \<in> set bs. \<not> (f \<and> n \<le> s))"
  by (induction bs arbitrary: a rule: span.induct) auto

lemma coalesced_Cons: "coalesced (b # bs) \<longleftrightarrow> coalesced bs \<and> \<not> (bs \<noteq> [] \<and> snd b \<and> snd (hd bs))"
  by (cases "b # bs" rule: coalesced.cases) auto

lemma coalesced_append:
  "coalesced (xs @ ys) \<longleftrightarrow> coalesced xs \<and> coalesced ys \<and> \<not> (xs \<noteq> [] \<and> ys \<noteq> [] \<and> snd (last xs) \<and> snd (hd ys))"
  by (induction xs) (auto simp: coalesced_Cons)

lemma coalesced_alloc:
  assumes "a_alloc n a bs = Some (p, bs')" and "coalesced bs"
  shows "coalesced bs'"
  using assms(1)
proof (cases rule: a_alloc_cases)
  case (1 xs s ys)
  then show ?thesis using assms(2) by (auto simp: coalesced_append coalesced_Cons)
next
  case (2 xs s ys)
  then show ?thesis using assms(2) by (auto simp: coalesced_append coalesced_Cons)
qed

lemma coalesced_join_next: "coalesced ys \<Longrightarrow> coalesced (join_next s ys)"
  by (cases "(s, ys)" rule: join_next.cases) (auto simp: coalesced_Cons)

lemma hd_join_next [simp]: "snd (hd (join_next s ys))" "join_next s ys \<noteq> []"
  by (cases "(s, ys)" rule: join_next.cases; simp)+

lemma coalesced_free:
  assumes "coalesced (xs @ (s, f) # ys)"
  shows "coalesced (a_free xs s ys)"
proof -
  have c: "coalesced xs" "coalesced ys" using assms by (auto simp: coalesced_append coalesced_Cons)
  show ?thesis
  proof (cases "xs \<noteq> [] \<and> snd (last xs)")
    case True
    then obtain ws r where xs: "xs = ws @ [(r, True)]" by (metis append_butlast_last_id prod.collapse)
    then show ?thesis using c coalesced_join_next [of ys "r + 12 + s"]
      by (auto simp: a_free_def coalesced_append)
  next
    case False
    then show ?thesis using c coalesced_join_next [of ys s] by (auto simp: a_free_def coalesced_append)
  qed
qed

lemma span_free [simp]: "span (a_free xs s ys) = span xs + 12 + s + span ys"
proof (cases "xs \<noteq> [] \<and> snd (last xs)")
  case True
  then obtain ws r where xs: "xs = ws @ [(r, True)]" by (metis append_butlast_last_id prod.collapse)
  then show ?thesis by (simp add: a_free_def)
qed (auto simp: a_free_def)

lemma used_free: "used_bytes a (a_free xs s ys) = used_bytes a xs \<union> used_bytes (a + span xs + 12 + s) ys"
proof (cases "xs \<noteq> [] \<and> snd (last xs)")
  case True
  then obtain ws r where xs: "xs = ws @ [(r, True)]" by (metis append_butlast_last_id prod.collapse)
  then show ?thesis by (simp add: a_free_def used_bytes_append used_join_next ac_simps)
qed (auto simp: a_free_def used_bytes_append used_join_next)

lemma entries_append: "entries a (xs @ ys) = entries a xs \<union> entries (a + span xs) ys"
  by (induction xs arbitrary: a rule: span.induct) (auto simp: ac_simps)

lemma entries_iff: "(x, s, f) \<in> entries a bs \<longleftrightarrow> (\<exists>xs ys. bs = xs @ (s, f) # ys \<and> x = a + span xs)"
proof
  assume "(x, s, f) \<in> entries a bs"
  then show "\<exists>xs ys. bs = xs @ (s, f) # ys \<and> x = a + span xs"
  proof (induction bs arbitrary: a rule: span.induct)
    case (2 t g bs)
    show ?case
    proof (cases "(x, s, f) = (a, t, g)")
      case True
      then show ?thesis by (intro exI [of _ "[]"] exI [of _ bs]) simp
    next
      case False
      with "2.prems" "2.IH" [of "a + 12 + t"] obtain xs ys where "bs = xs @ (s, f) # ys" "x = a + 12 + t + span xs" by auto
      then show ?thesis by (intro exI [of _ "(t, g) # xs"] exI [of _ ys]) simp
    qed
  qed simp
qed (auto simp: entries_append)

lemma live_iff: "live (a, bs) p s \<longleftrightarrow> (\<exists>x. p = x + 12 \<and> (x, s, False) \<in> entries a bs)"
  by (auto simp: live_def entries_iff)

lemma entries_free: "entries a xs \<union> entries (a + span xs + 12 + s) ys \<subseteq> entries a (a_free xs s ys) \<union> {e. snd (snd e)}"
proof -
  have j: "entries (c + 12 + s) ys \<subseteq> entries c (join_next s ys) \<union> {e. snd (snd e)}" for c s
    by (cases "(s, ys)" rule: join_next.cases) (auto simp: ac_simps)
  show ?thesis
  proof (cases "xs \<noteq> [] \<and> snd (last xs)")
    case True
    then obtain ws r where xs: "xs = ws @ [(r, True)]" by (metis append_butlast_last_id prod.collapse)
    then show ?thesis using j [of "a + span ws" "r + 12 + s"]
      by (auto simp: a_free_def entries_append ac_simps)
  next
    case False
    then show ?thesis using j [of "a + span xs" s] by (auto simp: a_free_def entries_append)
  qed
qed

lemma entries_unique: "(x, s, f) \<in> entries a bs \<Longrightarrow> (x, t, g) \<in> entries a bs \<Longrightarrow> s = t \<and> f = g"
proof (induction bs arbitrary: a rule: span.induct)
  case (2 r e bs)
  have "(a, u, v) \<notin> entries (a + 12 + r) bs" for u v by (auto simp: entries_iff)
  with 2 show ?case by auto
qed simp

lemma live_bounds: "live (a, bs) p s \<Longrightarrow> a + 12 \<le> p \<and> p + s \<le> a + span bs \<and> {p..<p + s} \<subseteq> used_bytes a bs"
  by (auto simp: live_def used_bytes_append)

lemma alloc_facts:
  assumes "a_alloc n a bs = Some (p, bs')"
  obtains s where "n \<le> s" "live (a, bs') p s" "{p..<p + s} \<inter> client_bytes a bs = {}"
    "client_bytes a bs' = client_bytes a bs \<union> {p..<p + s}" "span bs' = span bs"
    "\<And>q t. live (a, bs) q t \<Longrightarrow> live (a, bs') q t"
    "\<And>t. \<not> live (a, bs) p t"
  using assms
proof (cases rule: a_alloc_cases)
  case (1 xs s ys)
  have "{p..<p + n} \<inter> client_bytes a bs = {}"
    using used_bytes_range [of a xs] used_bytes_range [of "a + span xs + 12 + s" ys] 1
    by (auto simp: client_bytes_def used_bytes_append ac_simps)
  moreover have "live (a, bs') p n" unfolding live_def using 1 by auto
  moreover have "live (a, bs') q t" if "live (a, bs) q t" for q t
    using that 1 by (auto simp: live_iff entries_append ac_simps)
  moreover have "\<not> live (a, bs) p t" for t
    using 1 entries_unique [of "a + span xs" s True a bs t False] by (auto simp: live_iff entries_append)
  ultimately show ?thesis using 1
    by (intro that [of n]) (auto simp: client_bytes_def used_bytes_append ac_simps)
next
  case (2 xs s ys)
  have "{p..<p + s} \<inter> client_bytes a bs = {}"
    using used_bytes_range [of a xs] used_bytes_range [of "a + span xs + 12 + s" ys] 2
    by (auto simp: client_bytes_def used_bytes_append ac_simps)
  moreover have "live (a, bs') p s" unfolding live_def using 2 by auto
  moreover have "live (a, bs') q t" if "live (a, bs) q t" for q t
    using that 2 by (auto simp: live_iff entries_append ac_simps)
  moreover have "\<not> live (a, bs) p t" for t
    using 2 entries_unique [of "a + span xs" s True a bs t False] by (auto simp: live_iff entries_append)
  ultimately show ?thesis using 2
    by (intro that [of s]) (auto simp: client_bytes_def used_bytes_append ac_simps)
qed

lemma free_facts:
  assumes "xs @ (s, False) # ys = bs" and "p = a + span xs + 12"
  shows "client_bytes a (a_free xs s ys) = client_bytes a bs - {p..<p + s}"
    and "live (a, bs) q t \<Longrightarrow> q \<noteq> p \<Longrightarrow> live (a, a_free xs s ys) q t"
    and "span (a_free xs s ys) = span bs"
proof -
  show "client_bytes a (a_free xs s ys) = client_bytes a bs - {p..<p + s}"
    using used_bytes_range [of a xs] used_bytes_range [of "a + span xs + 12 + s" ys] assms
    by (auto simp: client_bytes_def used_free used_bytes_append ac_simps)
  show "span (a_free xs s ys) = span bs" using assms by (simp flip: assms(1))
  assume "live (a, bs) q t" "q \<noteq> p"
  then have "\<exists>x. q = x + 12 \<and> (x, t, False) \<in> entries a xs \<union> entries (a + span xs + 12 + s) ys"
    using assms by (auto simp: live_iff entries_append ac_simps)
  then show "live (a, a_free xs s ys) q t" using entries_free [of a xs s ys] by (auto simp: live_iff)
qed

lemma live_disjoint:
  assumes "live (a, bs) p s" and "live (a, bs) q t" and "p \<noteq> q"
  shows "{p..<p + s} \<inter> {q..<q + t} = {}"
proof -
  obtain xs ys where x: "bs = xs @ (s, False) # ys" "p = a + span xs + 12" using assms(1) by (auto simp: live_def)
  then have "live (a, a_free xs s ys) q t" using free_facts(2) [of xs s ys bs p a q t] assms by auto
  then have "{q..<q + t} \<subseteq> client_bytes a (a_free xs s ys)" using live_bounds by (fastforce simp: client_bytes_def)
  then show ?thesis using free_facts(1) [OF x(1) [symmetric] x(2)] by blast
qed

section \<open>Lemmas: copying\<close>

lemma copy_ram_nat:
  assumes "d + n < 4294967296" and "b + n \<le> 4294967296" and "{d..<d + n} \<inter> {b..<b + n} = {}" and "x < 4294967296"
  shows "copy_ram n (of_nat d) (of_nat b) m (of_nat x) =
    (if d \<le> x \<and> x < d + n then m (of_nat (b + (x - d))) else m (of_nat x))"
  using assms
proof (induction n arbitrary: d b m)
  case (Suc n)
  have dj: "{Suc d..<Suc d + n} \<inter> {Suc b..<Suc b + n} = {}" "d \<notin> {b..<b + Suc n}" using Suc.prems(3) by auto
  have eq: "copy_ram (Suc n) (of_nat d) (of_nat b) m =
      copy_ram n (of_nat (Suc d)) (of_nat (Suc b)) (m(of_nat d := m (of_nat b)))"
    by (simp add: add.commute)
  have IH: "copy_ram n (of_nat (Suc d)) (of_nat (Suc b)) m' (of_nat x) =
      (if Suc d \<le> x \<and> x < Suc d + n then m' (of_nat (Suc b + (x - Suc d))) else m' (of_nat x))" for m'
    using Suc.prems dj(1) by (intro Suc.IH) auto
  have ne: "(of_nat (b + k) :: u32) \<noteq> of_nat d" if "0 < k" "k \<le> n" for k
    using of_nat_eq_u32 [of "b + k" d] dj(2) Suc.prems(1,2) that by auto
  have xd: "(of_nat x :: u32) = of_nat d \<longleftrightarrow> x = d" using of_nat_eq_u32 Suc.prems by auto
  consider "x < d" | "x = d" | "d < x" "x < d + Suc n" | "d + Suc n \<le> x" by linarith
  then show ?case
  proof cases
    case 3
    then have "Suc b + (x - Suc d) = b + (x - d)" by simp
    then show ?thesis unfolding eq IH using 3 ne [of "x - d"] by (simp del: of_nat_add of_nat_Suc of_nat_diff)
  next
    case 2
    show ?thesis unfolding eq IH using 2 by (simp del: of_nat_add of_nat_Suc)
  qed (auto simp: eq IH xd simp del: of_nat_add of_nat_Suc of_nat_diff copy_ram.simps)
qed auto

lemma copy_ram_outside:
  "d + n < 4294967296 \<Longrightarrow> x < 4294967296 \<Longrightarrow> x \<notin> {d..<d + n} \<Longrightarrow> copy_ram n (of_nat d) s m (of_nat x) = m (of_nat x)"
proof (induction n arbitrary: d s m)
  case (Suc n)
  have "copy_ram (Suc n) (of_nat d) s m = copy_ram n (of_nat (Suc d)) (s + 1) (m(of_nat d := m s))"
    by (simp add: add.commute)
  moreover have "(of_nat x :: u32) \<noteq> of_nat d" using Suc.prems of_nat_eq_u32 [of x d] by auto
  ultimately show ?case using Suc.IH [of "Suc d" "s + 1"] Suc.prems by (simp del: of_nat_Suc copy_ram.simps)
qed simp

lemma client_not_hdr: "client_bytes a bs \<inter> hdr_bytes a bs = {}"
  using used_not_hdr [of a bs] hdr_bytes_range [of a bs] by (auto simp: client_bytes_def)

lemma heap_ok_agree:
  assumes "heap_ok h (a, bs)" and "agree h h' (hdr_bytes a bs)" and "free_list_head h' = free_list_head h"
  shows "heap_ok h' (a, bs)"
  using assms seg_agree by (auto simp: heap_ok_def)

lemma ALIGN_zero:
  assumes "4294967288 < unat n"
  shows "ALIGN n = 0"
proof -
  have "n = of_nat (unat n)" by simp
  moreover have "unat n \<in> {4294967289..<4294967296}" using assms unat_u32_less [of n] by simp
  then have "unat n \<in> set [4294967289..<4294967296]" by (simp only: set_upt)
  ultimately have "n \<in> set (map of_nat [4294967289..<4294967296])" unfolding set_map by blast
  then show ?thesis by (auto simp: upt_rec ALIGN_def ALIGNMENT_def)
qed

section \<open>The kernel heap is an allocator\<close>

lemma kmalloc_refines:
  assumes "heap_ok h (a, bs)"
  shows "case a_alloc (unat (ALIGN n)) a bs of
      None \<Rightarrow> kmalloc n h = Some (h, 0)
    | Some (p, bs') \<Rightarrow> \<exists>h'. kmalloc n h = Some (h', of_nat p) \<and> heap_ok h' (a, bs') \<and> agree h h' (client_bytes a bs)"
proof -
  have eq: "kmalloc n h = kmalloc_loop (of_nat (unat (ALIGN n))) (of_nat a) h"
    using assms by (simp add: kmalloc_def heap_ok_def)
  have "unat (ALIGN n) < 4294967296" using unat_u32_less [of "ALIGN n"] by simp
  then have k: "case a_alloc (unat (ALIGN n)) a bs of
      None \<Rightarrow> kmalloc n h = Some (h, 0)
    | Some (p, bs') \<Rightarrow> \<exists>h'. kmalloc n h = Some (h', of_nat p) \<and> seg h' a bs' 0 \<and>
        free_list_head h' = free_list_head h \<and> agree h h' (client_bytes a bs)"
    unfolding eq using kmalloc_loop_seg [of h a bs "unat (ALIGN n)"] assms unfolding heap_ok_def by blast
  show ?thesis
  proof (cases "a_alloc (unat (ALIGN n)) a bs")
    case (Some r)
    obtain p bs' where r: "r = (p, bs')" by (cases r)
    with Some have "bs' \<noteq> []" "coalesced bs'"
      using a_alloc_nonempty coalesced_alloc [of _ a bs p bs'] assms by (auto simp: heap_ok_def)
    then show ?thesis using k Some r assms by (auto simp: heap_ok_def)
  qed (use k in simp)
qed

lemma fits_iff: "fits (a, bs) n \<longleftrightarrow> a_alloc (unat (ALIGN n)) a bs \<noteq> None"
  unfolding fits_def a_alloc_None by auto

lemma agree_client:
  "agree h h' S \<Longrightarrow> x \<in> S \<inter> {..<4294967296} \<Longrightarrow> ram h' (of_nat x) = ram h (of_nat x)"
  by (simp add: agree_def)

lemma a_alloc_leaves:
  "a_alloc n a bs = Some (p, bs') \<Longrightarrow> (s, True) \<in> set bs \<Longrightarrow> n + 12 + m \<le> s \<Longrightarrow> 8 \<le> m \<Longrightarrow> \<exists>t. (t, True) \<in> set bs' \<and> m \<le> t"
proof (induction bs arbitrary: a p bs' rule: span.induct)
  case (2 b f bs)
  show ?case
  proof (cases "f \<and> n \<le> b")
    case True
    then show ?thesis using "2.prems" by (cases "n + 20 \<le> b") auto
  next
    case False
    then obtain q bs2 where r: "a_alloc n (a + 12 + b) bs = Some (q, bs2)" "bs' = (b, f) # bs2" using "2.prems"(1) by auto
    show ?thesis
    proof (cases "(s, True) \<in> set bs")
      case True
      then show ?thesis using "2.IH" [OF r(1) True "2.prems"(3,4)] r(2) by auto
    next
      case False
      then show ?thesis using "2.prems" r(2) by (intro exI [of _ s]) auto
    qed
  qed
qed simp

lemma kmalloc_block:
  assumes ok: "heap_ok h A" and al: "a_alloc (unat (ALIGN n)) (fst A) (snd A) = Some (p, bs')" and n: "unat n \<le> 4294967288"
  shows "\<exists>h' q s. kmalloc n h = Some (h', q) \<and> q \<noteq> 0 \<and> heap_ok h' (fst A, bs') \<and> unat n \<le> s \<and> live (fst A, bs') (unat q) s \<and>
         {unat q..<unat q + s} \<inter> client A = {} \<and> client (fst A, bs') = client A \<union> {unat q..<unat q + s} \<and>
         (\<forall>x \<in> client A. ram h' (of_nat x) = ram h (of_nat x)) \<and> (\<forall>q t. live A q t \<longrightarrow> live (fst A, bs') q t) \<and>
         (\<forall>t. \<not> live A (unat q) t)"
proof -
  obtain a bs where A: "A = (a, bs)" by (cases A)
  have al: "a_alloc (unat (ALIGN n)) a bs = Some (p, bs')" using al by (simp add: A)
  obtain h' where h': "kmalloc n h = Some (h', of_nat p)" "heap_ok h' (a, bs')" "agree h h' (client_bytes a bs)"
    using kmalloc_refines [of h a bs n] ok A al by auto
  from al obtain s where s: "unat (ALIGN n) \<le> s" "live (a, bs') p s" "{p..<p + s} \<inter> client_bytes a bs = {}"
    "client_bytes a bs' = client_bytes a bs \<union> {p..<p + s}" "span bs' = span bs"
    "\<And>q t. live (a, bs) q t \<Longrightarrow> live (a, bs') q t" "\<And>t. \<not> live (a, bs) p t"
    by (rule alloc_facts) (rule that)
  have b: "a + span bs \<le> 4294967264" "0 < a" using ok A seg_bounds by (auto simp: heap_ok_def)
  have p: "0 < p" "p + s < 4294967296" using live_bounds [OF s(2)] s(5) b by auto
  then have up: "unat (of_nat p :: u32) = p" "(of_nat p :: u32) \<noteq> 0" using of_nat_eq_u32 [of p 0] by (auto simp: unat_of_nat_u32)
  have "unat n \<le> s" using ALIGN_bounds [OF n] s(1) by simp
  moreover have "{p..<p + s} \<inter> client A = {}" using s(3) by (auto simp: A client_def)
  moreover have "client (a, bs') = client A \<union> {p..<p + s}" using s(4) p(2) by (auto simp: A client_def)
  moreover have "\<forall>x \<in> client A. ram h' (of_nat x) = ram h (of_nat x)"
    using agree_client [OF h'(3)] by (auto simp: A client_def)
  ultimately show ?thesis using h'(1,2) s(2,6,7) up A
    by (intro exI [of _ h'] exI [of _ "of_nat p"] exI [of _ s]) auto
qed

lemma kmalloc_room:
  assumes ok: "heap_ok h A" and fits: "fits A n" and n: "unat n \<le> 4294967288"
  shows "\<exists>h' p A' s. kmalloc n h = Some (h', p) \<and> p \<noteq> 0 \<and> heap_ok h' A' \<and> unat n \<le> s \<and> live A' (unat p) s \<and>
         {unat p..<unat p + s} \<inter> client A = {} \<and> client A' = client A \<union> {unat p..<unat p + s} \<and>
         (\<forall>x \<in> client A. ram h' (of_nat x) = ram h (of_nat x)) \<and> (\<forall>q t. live A q t \<longrightarrow> live A' q t) \<and>
         (\<forall>t. \<not> live A (unat p) t)"
proof -
  obtain p bs' where "a_alloc (unat (ALIGN n)) (fst A) (snd A) = Some (p, bs')"
    using fits fits_iff [of "fst A" "snd A" n] by auto
  from kmalloc_block [OF ok this n] show ?thesis by blast
qed

text \<open>Room for a second block after the first.\<close>

lemma kmalloc_room_left:
  assumes ok: "heap_ok h A" and fits: "fits A k" and n: "unat n \<le> 4294967288" and m: "unat (ALIGN n) + 12 + unat (ALIGN m) \<le> unat (ALIGN k)" "8 \<le> unat (ALIGN m)"
  shows "\<exists>h' p A' s. kmalloc n h = Some (h', p) \<and> p \<noteq> 0 \<and> heap_ok h' A' \<and> unat n \<le> s \<and> live A' (unat p) s \<and>
         {unat p..<unat p + s} \<inter> client A = {} \<and> client A' = client A \<union> {unat p..<unat p + s} \<and>
         (\<forall>x \<in> client A. ram h' (of_nat x) = ram h (of_nat x)) \<and> (\<forall>q t. live A q t \<longrightarrow> live A' q t) \<and>
         (\<forall>t. \<not> live A (unat p) t) \<and> fits A' m"
proof -
  obtain s where s: "(s, True) \<in> set (snd A)" "unat (ALIGN k) \<le> s" using fits by (auto simp: fits_def)
  have le: "unat (ALIGN n) + 12 + unat (ALIGN m) \<le> s" using m(1) s(2) by linarith
  then have "unat (ALIGN n) \<le> s" by linarith
  then have "fits (fst A, snd A) n" unfolding fits_def prod.sel using s(1) by blast
  then obtain p bs' where al: "a_alloc (unat (ALIGN n)) (fst A) (snd A) = Some (p, bs')" unfolding fits_iff by auto
  have "fits (fst A, bs') m" unfolding fits_def prod.sel using a_alloc_leaves [OF al s(1) le m(2)] by blast
  with kmalloc_block [OF ok al n] show ?thesis by (elim exE conjE) (intro exI conjI, assumption+)
qed

lemma kfree_live:
  assumes ok: "heap_ok h A" and lv: "live A (unat p) s"
  shows "\<exists>h' A'. kfree p h = Some h' \<and> heap_ok h' A' \<and> client A' = client A - {unat p..<unat p + s} \<and>
         (\<forall>x \<in> client A'. ram h' (of_nat x) = ram h (of_nat x)) \<and>
         (\<forall>q t. live A q t \<and> q \<noteq> unat p \<longrightarrow> live A' q t)"
proof -
  obtain a bs where A: "A = (a, bs)" by (cases A)
  obtain xs ys where bs: "xs @ (s, False) # ys = bs" and p: "unat p = a + span xs + 12"
    using lv A by (auto simp: live_def)
  have sg: "seg h a (xs @ (s, False) # ys) 0" "free_list_head h = of_nat a" "coalesced (xs @ (s, False) # ys)"
    using ok A bs by (auto simp: heap_ok_def)
  have pw: "p = of_nat (a + span xs + 12)" using p by (metis of_nat_unat ucast_id)
  obtain h' where h': "kfree p h = Some h'" "seg h' a (a_free xs s ys) 0" "free_list_head h' = free_list_head h"
    "agree h h' ({..<a} \<union> used_bytes a xs \<union> used_bytes (a + span xs + 12 + s) ys \<union> {a + span xs + 12 + s + span ys..})"
    using kfree_seg [OF sg(1,2) refl] pw by metis
  have "client_bytes a (a_free xs s ys) = {..<a} \<union> used_bytes a xs \<union> used_bytes (a + span xs + 12 + s) ys \<union> {a + span xs + 12 + s + span ys..}"
    by (auto simp: client_bytes_def used_free ac_simps)
  then have ag: "agree h h' (client_bytes a (a_free xs s ys))" using h'(4) by simp
  note ff = free_facts [OF bs p]
  have "heap_ok h' (a, a_free xs s ys)"
    using h' sg coalesced_free [OF sg(3)] by (auto simp: heap_ok_def a_free_def)
  moreover have "client (a, a_free xs s ys) = client A - {unat p..<unat p + s}" using ff(1) by (auto simp: A client_def)
  moreover have "\<forall>x \<in> client (a, a_free xs s ys). ram h' (of_nat x) = ram h (of_nat x)"
    using agree_client [OF ag] by (auto simp: client_def)
  moreover have "\<forall>q t. live A q t \<and> q \<noteq> unat p \<longrightarrow> live (a, a_free xs s ys) q t" using ff(2) A by auto
  ultimately show ?thesis using h'(1) by blast
qed

lemma kmalloc_full: "heap_ok h A \<Longrightarrow> \<not> fits A n \<Longrightarrow> kmalloc n h = Some (h, 0)"
  using kmalloc_refines [of h "fst A" "snd A" n] fits_iff [of "fst A" "snd A" n]
  by (cases "a_alloc (unat (ALIGN n)) (fst A) (snd A)") auto

lemma live_client:
  assumes "heap_ok h A" and "live A q s"
  shows "0 < q \<and> q + s < 4294967296 \<and> {q..<q + s} \<subseteq> client A"
proof -
  obtain a bs where A: "A = (a, bs)" by (cases A)
  then have "a + span bs \<le> 4294967264" using assms seg_bounds by (auto simp: heap_ok_def)
  then show ?thesis using live_bounds [of a bs q s] assms(2) A by (auto simp: client_def client_bytes_def)
qed

lemma copy_heap_ok:
  assumes "heap_ok h A" and "{d..<d + n} \<subseteq> client A" and "d + n < 4294967296"
  shows "heap_ok (copy_mem n (of_nat d) s h) A"
proof -
  obtain a bs where A: "A = (a, bs)" by (cases A)
  have "x \<notin> {d..<d + n}" if "x \<in> hdr_bytes a bs" for x
    using assms(2) client_not_hdr [of a bs] A that by (auto simp: client_def)
  then have "agree h (copy_mem n (of_nat d) s h) (hdr_bytes a bs)"
    unfolding agree_def copy_mem_def using copy_ram_outside [OF assms(3)] by simp
  then show ?thesis using heap_ok_agree [of h a bs] assms(1) A by (simp add: copy_mem_def)
qed

interpretation kh: copying_allocator heap_ok client fits live ram kmalloc kfree copy_mem
proof unfold_locales
  show "{q..<q + s} \<inter> {r..<r + t} = {}" if "heap_ok h A" "live A q s" "live A r t" "r \<noteq> q" for h A q s r t
    using live_disjoint [of "fst A" "snd A" q s r t] that by simp
  show "ram (copy_mem n (of_nat d) (of_nat b) h) (of_nat x) =
        (if d \<le> x \<and> x < d + n then ram h (of_nat (b + (x - d))) else ram h (of_nat x))"
    if "d + n < 4294967296" "b + n \<le> 4294967296" "{d..<d + n} \<inter> {b..<b + n} = {}" "x < 4294967296" for d n b x h
    using copy_ram_nat [OF that, of "ram h"] by (simp add: copy_mem_def)
qed (rule kmalloc_full kmalloc_room kfree_live live_client copy_heap_ok; assumption)+

section \<open>Lemmas: growing and moving a block\<close>

lemma grow_seg:
  assumes sg: "seg h b ((s, False) # (t, True) # ys) 0" and ys: "ys = [] \<or> \<not> snd (hd ys)" and n: "s < n" "n \<le> s + 12 + t"
  defines "h' \<equiv> grow_block (of_nat n) (of_nat b) h"
  shows "seg h' b (a_grow n s t @ ys) 0" and "agree h h' (- {b..<b + 12} - {b + 12 + s..<b + 24 + s + t})"
    and "free_list_head h' = free_list_head h"
proof -
  let ?q = "b + 12 + s" and ?C = "s + 12 + t" and ?c = "b + 12 + n" and ?e = "b + 24 + s + t"
  let ?nn = "if ys = [] then 0 else ?e"
  have e: "?q + 12 + t = ?e" by simp
  have b: "0 < b" "?e \<le> 4294967264" "hdr h b s False ?q" "hdr h ?q t True ?nn" and tl: "ys \<noteq> [] \<Longrightarrow> seg h ?e ys 0"
    using sg unfolding seg.simps e by auto
  have bb: "b + 12 \<le> 4294967296" using b(2) by simp
  have nx: "blk_next h (of_nat b) = of_nat ?q" "blk_free h (of_nat b) = 0" using b(3) by (simp_all add: hdr_def)
  have C: "blk_size h (of_nat b) + Block_SIZE + blk_size h (of_nat ?q) = of_nat ?C"
    using b(3,4) by (simp add: hdr_def Block_SIZE_def)
  have nn: "blk_next h (of_nat ?q) = of_nat ?nn" using b(4) by (simp add: hdr_def)
  have le: "of_nat n + Block_SIZE + ALIGNMENT \<le> (of_nat ?C :: u32) \<longleftrightarrow> n + 20 \<le> ?C"
    using b(2) n of_nat_le_iff_u32 [of "n + 20" ?C] by (simp add: Block_SIZE_def ALIGNMENT_def ac_simps)
  have nf: "ys \<noteq> [] \<Longrightarrow> blk_free h (of_nat ?e) = 0"
    using ys tl by (cases ys rule: span.cases) (auto simp: hdr_def)
  have "seg h' b (a_grow n s t @ ys) 0 \<and> agree h h' (- {b..<b + 12} - {?q..<?e}) \<and> free_list_head h' = free_list_head h"
  proof (cases "n + 20 \<le> ?C")
    case True
    have cb: "?c + 12 \<le> 4294967296" and sep: "sep ?c b" "sep b ?c" using b(2) True by (auto simp: sep_def)
    have se: "ys \<noteq> [] \<Longrightarrow> sep ?c ?e" using b(2) True by (auto simp: sep_def)
    have nb: "of_nat b + Block_SIZE + of_nat n = (of_nat ?c :: u32)" by (simp add: Block_SIZE_def add.commute)
    have sub: "of_nat ?C - of_nat n - Block_SIZE = (of_nat (?C - n - 12) :: u32)"
      using True by (simp add: Block_SIZE_def of_nat_diff)
    let ?h2 = "set_blk_free (of_nat ?c) 1 (set_blk_size (of_nat ?c) (of_nat (?C - n - 12)) h)"
    have fr: "\<not> (of_nat ?nn \<noteq> (0 :: u32) \<and> blk_free ?h2 (of_nat ?nn) \<noteq> 0)"
      using nf by (cases "ys = []") (simp_all add: hdr_field_other [OF se] del: of_nat_add)
    have eq: "h' = set_blk_next (of_nat b) (of_nat ?c) (set_blk_size (of_nat b) (of_nat n) (set_blk_next (of_nat ?c) (of_nat ?nn) ?h2))"
      unfolding h'_def grow_block_def Let_def nx(1) C nn le nb sub using True fr by (simp only: if_True if_False)
    have "hdr h' b n False ?c" "hdr h' ?c (?C - n - 12) True ?nn"
      unfolding hdr_def eq by (simp_all add: hdr_field_same [OF bb] hdr_field_same [OF cb] hdr_field_other [OF sep(2)] hdr_field_other [OF sep(1)] nx(2) del: of_nat_add)
    moreover have ag: "agree h h' (- {b..<b + 12} - {?q..<?e})"
      unfolding eq
      by (rule agree_trans [OF agree_trans [OF agree_trans [OF agree_trans [OF agree_set(1) agree_set(2)] agree_set(3)] agree_set(1)] agree_set(3)])
        (use bb cb n True in auto)
    moreover have "hdr_bytes ?e ys \<subseteq> - {b..<b + 12} - {?q..<?e}" using hdr_bytes_range [of ?e ys] by auto
    then have "ys \<noteq> [] \<Longrightarrow> seg h' ?e ys 0" using seg_agree [OF tl] agree_subset [OF ag] by blast
    moreover have ce: "?c + 12 + (?C - n - 12) = ?e" using True by simp
    ultimately have "seg h' b ([(n, False), (?C - n - 12, True)] @ ys) 0"
      using b(1,2) True unfolding append_Cons append_Nil seg.simps ce by auto
    moreover have "free_list_head h' = free_list_head h" unfolding eq by simp
    ultimately show ?thesis using True ag by (simp only: a_grow_def if_True simp_thms)
  next
    case False
    have eq: "h' = set_blk_next (of_nat b) (of_nat ?nn) (set_blk_size (of_nat b) (of_nat ?C) h)"
      unfolding h'_def grow_block_def Let_def nx(1) C nn le using False by (simp only: if_False)
    have "hdr h' b ?C False ?nn" unfolding hdr_def eq by (simp add: hdr_field_same [OF bb] nx(2) del: of_nat_add)
    moreover have ag: "agree h h' (- {b..<b + 12} - {?q..<?e})"
      unfolding eq by (rule agree_trans [OF agree_set(1) agree_set(3)]) (use bb in auto)
    moreover have "hdr_bytes ?e ys \<subseteq> - {b..<b + 12} - {?q..<?e}" using hdr_bytes_range [of ?e ys] by auto
    then have "ys \<noteq> [] \<Longrightarrow> seg h' ?e ys 0" using seg_agree [OF tl] agree_subset [OF ag] by blast
    moreover have ce: "b + 12 + ?C = ?e" by simp
    ultimately have "seg h' b ([(?C, False)] @ ys) 0"
      using b(1,2) unfolding append_Cons append_Nil seg.simps ce by auto
    moreover have "free_list_head h' = free_list_head h" unfolding eq by simp
    ultimately show ?thesis using False ag by (simp only: a_grow_def if_False simp_thms)
  qed
  then show "seg h' b (a_grow n s t @ ys) 0" "agree h h' (- {b..<b + 12} - {?q..<?e})"
    "free_list_head h' = free_list_head h" by blast+
qed

lemma of_nat_le_unat: "x < 4294967296 \<Longrightarrow> w \<le> (of_nat x :: u32) \<longleftrightarrow> unat w \<le> x"
  by (simp add: word_le_nat_alt unat_of_nat_u32)

lemma live_size:
  assumes "heap_ok h A" and "live A (unat p) s"
  shows "blk_size h (p - Block_SIZE) = of_nat s"
proof -
  obtain a xs ys where A: "A = (a, xs @ (s, False) # ys)" and p: "unat p = a + span xs + 12"
    using assms(2) by (cases A) (auto simp: live_def)
  have "p = of_nat (a + span xs + 12)" using p by (metis of_nat_unat ucast_id)
  then have "p - Block_SIZE = of_nat (a + span xs)" by (simp add: Block_SIZE_def)
  then show ?thesis using assms(1) A by (simp add: heap_ok_def seg_append hdr_def)
qed

lemma ALIGN_ALIGN: "unat n \<le> 4294967288 \<Longrightarrow> ALIGN (ALIGN n) = ALIGN n"
  by (rule u32_eqI) (simp add: ALIGN_unat)

lemma krealloc_cases:
  assumes ok: "heap_ok h (a, xs @ (s, False) # ys)" and p: "unat p = a + span xs + 12" and n: "n \<noteq> 0"
  shows "krealloc p n h =
    (if unat (ALIGN n) \<le> s then Some (h, p)
     else if ys \<noteq> [] \<and> snd (hd ys) \<and> unat (ALIGN n) \<le> s + 12 + fst (hd ys) then
       Some (grow_block (ALIGN n) (p - Block_SIZE) h, p)
     else Option.bind (kmalloc (ALIGN n) h)
       (\<lambda>(h, new_ptr). if new_ptr = 0 then Some (h, 0)
          else map_option (\<lambda>h. (h, new_ptr)) (kfree p (copy_mem (unat (blk_size h (p - Block_SIZE))) new_ptr p h))))"
proof -
  let ?b = "a + span xs"
  have pw: "p - Block_SIZE = of_nat ?b"
  proof -
    have "p = of_nat (?b + 12)" using p by (metis of_nat_unat ucast_id)
    then show ?thesis by (simp add: Block_SIZE_def)
  qed
  have p0: "p \<noteq> 0" using p by auto
  have sg: "seg h ?b ((s, False) # ys) 0" using ok by (simp add: heap_ok_def seg_append)
  have sz: "blk_size h (of_nat ?b) = of_nat s" "s < 4294967296" using sg by (auto simp: hdr_def)
  have "(blk_next h (of_nat ?b) \<noteq> 0 \<and> blk_free h (blk_next h (of_nat ?b)) \<noteq> 0 \<and>
     ALIGN n \<le> blk_size h (of_nat ?b) + Block_SIZE + blk_size h (blk_next h (of_nat ?b))) \<longleftrightarrow>
     ys \<noteq> [] \<and> snd (hd ys) \<and> unat (ALIGN n) \<le> s + 12 + fst (hd ys)"
  proof (cases ys rule: span.cases)
    case 1
    then show ?thesis using sg by (simp add: hdr_def)
  next
    case (2 t g zs)
    let ?q = "?b + 12 + s"
    have q: "blk_next h (of_nat ?b) = of_nat ?q" "blk_free h (of_nat ?q) = (if g then 1 else 0)"
      "blk_size h (of_nat ?q) = of_nat t" "?q + 12 + t \<le> 4294967264"
      using sg 2 by (auto simp: hdr_def)
    have "(of_nat ?q :: u32) \<noteq> 0" using of_nat_eq_u32 [of ?q 0] q(4) by simp
    moreover have "blk_size h (of_nat ?b) + Block_SIZE + blk_size h (of_nat ?q) = of_nat (s + 12 + t)"
      unfolding q(3) sz(1) by (simp add: Block_SIZE_def)
    moreover have "ALIGN n \<le> of_nat (s + 12 + t) \<longleftrightarrow> unat (ALIGN n) \<le> s + 12 + t"
      using q(4) by (intro of_nat_le_unat) simp
    ultimately show ?thesis using q(2) 2 unfolding q(1) by simp
  qed
  then show ?thesis
    unfolding krealloc_def Let_def pw copy_mem_def using p0 n of_nat_le_unat [OF sz(2), of "ALIGN n"] sz(1) by simp
qed

lemma used_a_grow: "used_bytes a (a_grow n s t) = (if n + 20 \<le> s + 12 + t then {a + 12..<a + 12 + n} else {a + 12..<a + 12 + (s + 12 + t)})"
  "span (a_grow n s t) = 24 + s + t" "a_grow n s t \<noteq> []" "\<not> snd (hd (a_grow n s t))"
  by (auto simp: a_grow_def)

lemma krealloc_grow:
  assumes ok: "heap_ok h (a, xs @ (s, False) # (t, True) # ys)" and n: "s < n" "n \<le> s + 12 + t" and p: "p = a + span xs + 12"
  defines "A \<equiv> (a, xs @ (s, False) # (t, True) # ys)" and "A' \<equiv> (a, xs @ a_grow n s t @ ys)"
    and "h' \<equiv> grow_block (of_nat n) (of_nat (a + span xs)) h"
  shows "\<exists>u. heap_ok h' A' \<and> live A' p u \<and> n \<le> u \<and> client A' = client A - {p..<p + s} \<union> {p..<p + u} \<and>
    (\<forall>x \<in> client A. ram h' (of_nat x) = ram h (of_nat x)) \<and> (\<forall>q v. live A q v \<longrightarrow> q \<noteq> p \<longrightarrow> live A' q v)"
proof -
  let ?b = "a + span xs"
  let ?u = "if n + 20 \<le> s + 12 + t then n else s + 12 + t"
  have sg: "seg h a xs ?b" "seg h ?b ((s, False) # (t, True) # ys) 0" using ok by (simp_all add: heap_ok_def seg_append)
  have co: "coalesced xs" "coalesced ((t, True) # ys)" using ok by (auto simp: heap_ok_def coalesced_append coalesced_Cons)
  then have ys: "ys = [] \<or> \<not> snd (hd ys)" "coalesced ys" by (auto simp: coalesced_Cons)
  note g = grow_seg [OF sg(2) ys(1) n, folded h'_def]
  have "hdr_bytes a xs \<subseteq> - {?b..<?b + 12} - {?b + 12 + s..<?b + 24 + s + t}" using hdr_bytes_range [of a xs] by auto
  then have "seg h' a xs ?b" using seg_agree [OF sg(1)] agree_subset [OF g(2)] by blast
  then have sg': "seg h' a (xs @ a_grow n s t @ ys) 0" using g(1) by (simp add: seg_append used_a_grow)
  have "coalesced (xs @ a_grow n s t @ ys)"
    using co ys by (auto simp: a_grow_def coalesced_append coalesced_Cons)
  then have ok': "heap_ok h' A'" using sg' g(3) ok by (simp add: heap_ok_def A'_def used_a_grow)
  have lv: "live A' p ?u" unfolding A'_def live_def p a_grow_def by auto
  have cl: "client A' = client A - {p..<p + s} \<union> {p..<p + ?u}"
  proof -
    have "a + span (xs @ (s, False) # (t, True) # ys) \<le> 4294967264" using seg_bounds [of h a _ 0] ok unfolding heap_ok_def by blast
    then show ?thesis
      using used_bytes_range [of a xs] used_bytes_range [of "?b + 24 + s + t" ys] n unfolding A_def A'_def client_def p
      by (auto simp: client_bytes_def used_bytes_append used_a_grow ac_simps)
  qed
  have "client A \<subseteq> - {?b..<?b + 12} - {?b + 12 + s..<?b + 24 + s + t}"
    using used_bytes_range [of a xs] used_bytes_range [of "?b + 24 + s + t" ys] unfolding A_def client_def
    by (auto simp: client_bytes_def used_bytes_append ac_simps)
  then have "\<forall>x \<in> client A. ram h' (of_nat x) = ram h (of_nat x)"
    using g(2) by (auto simp: agree_def client_def A_def)
  moreover have "live A' q v" if "live A q v" "q \<noteq> p" for q v
    using that unfolding A_def A'_def live_iff by (auto simp: entries_append used_a_grow p ac_simps)
  moreover have "n \<le> ?u" using n by simp
  ultimately show ?thesis using ok' lv cl by (intro exI [of _ ?u] conjI) auto
qed

lemma krealloc_move:
  assumes ok: "heap_ok h A" and lv: "live A (unat p) s" and fits: "fits A n" and n: "unat n \<le> 4294967288" "s < unat n"
  obtains h1 q h' A' where "kmalloc n h = Some (h1, q)" "q \<noteq> 0"
    "kfree p (copy_mem (unat (blk_size h1 (p - Block_SIZE))) q p h1) = Some h'" "reallocated h A p s n h' A' q"
proof -
  obtain h1 q A1 t where k: "kmalloc n h = Some (h1, q)" "heap_ok h1 A1" "unat n \<le> t" "live A1 (unat q) t"
      "live A1 (unat p) s" "unat q \<noteq> unat p"
    using kmalloc_room [OF ok fits n(1)] lv by metis
  have "unat p + s < 4294967296" using live_client [OF k(2,5)] by simp
  then have s: "unat (blk_size h1 (p - Block_SIZE)) = s"
    unfolding live_size [OF k(2,5)] by (simp add: unat_of_nat_u32)
  have le: "s \<le> unat n" using n(2) by simp
  show ?thesis
  proof (rule kh.move [OF ok fits n(1) le lv order_refl])
    fix h1' p' h2 A' u
    assume m: "kmalloc n h = Some (h1', p')" "p' \<noteq> 0" "kfree p (copy_mem s p' p h1') = Some h2" "heap_ok h2 A'" "unat n \<le> u"
      "live A' (unat p') u" "client A' = client A - {unat p..<unat p + s} \<union> {unat p'..<unat p' + u}"
      "\<And>i. i < s \<Longrightarrow> ram h2 (of_nat (unat p' + i)) = ram h (of_nat (unat p + i))"
      "\<And>x. x \<in> client A - {unat p..<unat p + s} \<Longrightarrow> x < 4294967296 \<Longrightarrow> ram h2 (of_nat x) = ram h (of_nat x)"
      "\<And>r t. live A r t \<Longrightarrow> r \<noteq> unat p \<Longrightarrow> live A' r t" "{unat p'..<unat p' + u} \<inter> client A = {}"
    have "reallocated h A p s n h2 A' p'"
      unfolding reallocated_def using m by (auto simp: client_def split: prod.splits)
    then show thesis using that [of h1' p' h2 A'] m(1-3) k(1) s by auto
  qed
qed

lemma krealloc_live:
  assumes ok: "heap_ok h A" and lv: "live A (unat p) s" and n: "n \<noteq> 0" "unat n \<le> 4294967288"
  shows "krealloc p n h = Some (h, 0) \<and> \<not> fits A n \<or>
    (\<exists>h' q A'. krealloc p n h = Some (h', q) \<and> reallocated h A p s n h' A' q)"
proof -
  obtain a xs ys where A: "A = (a, xs @ (s, False) # ys)" and p: "unat p = a + span xs + 12"
    using lv by (cases A) (auto simp: live_def)
  note kr = krealloc_cases [OF ok [unfolded A] p n(1)]
  have an: "unat n \<le> unat (ALIGN n)" "unat (ALIGN n) \<le> 4294967288" using n(2) by (simp_all add: ALIGN_unat)
  have p0: "p \<noteq> 0" using p by auto
  consider (keep) "unat (ALIGN n) \<le> s"
    | (grow) t zs where "s < unat (ALIGN n)" "ys = (t, True) # zs" "unat (ALIGN n) \<le> s + 12 + t"
    | (move) "s < unat (ALIGN n)" "\<not> (ys \<noteq> [] \<and> snd (hd ys) \<and> unat (ALIGN n) \<le> s + 12 + fst (hd ys))"
    by (cases "unat (ALIGN n) \<le> s"; cases ys rule: span.cases; auto)
  then show ?thesis
  proof cases
    case keep
    have "client A = client A - {unat p..<unat p + s} \<union> {unat p..<unat p + s}" using live_client [OF ok lv] by auto
    then have "reallocated h A p s n h A p" unfolding reallocated_def using ok lv keep an(1) p0 by auto
    moreover have "krealloc p n h = Some (h, p)" using kr keep by simp
    ultimately show ?thesis by blast
  next
    case grow
    have pw: "p = of_nat (a + span xs + 12)" using p by (metis of_nat_unat ucast_id)
    then have pb: "p - Block_SIZE = of_nat (a + span xs)" by (simp add: Block_SIZE_def)
    let ?h = "grow_block (ALIGN n) (p - Block_SIZE) h" and ?A = "(a, xs @ a_grow (unat (ALIGN n)) s t @ zs)"
    obtain u where u: "heap_ok ?h ?A" "live ?A (unat p) u" "unat (ALIGN n) \<le> u"
      "client ?A = client A - {unat p..<unat p + s} \<union> {unat p..<unat p + u}"
      "\<forall>x \<in> client A. ram ?h (of_nat x) = ram h (of_nat x)" "\<forall>q v. live A q v \<longrightarrow> q \<noteq> unat p \<longrightarrow> live ?A q v"
      using krealloc_grow [OF ok [unfolded A grow(2)] grow(1,3) p] unfolding A grow(2) pb by auto
    have "ram ?h (p + of_nat i) = ram h (p + of_nat i)" if "i < s" for i
    proof -
      have "unat p + i \<in> client A" using live_client [OF ok lv] that by auto
      with u(5) have "ram ?h (of_nat (unat p + i)) = ram h (of_nat (unat p + i))" by blast
      then show ?thesis by simp
    qed
    then have "reallocated h A p s n ?h ?A p" unfolding reallocated_def using u an(1) p0 by auto
    moreover have "krealloc p n h = Some (?h, p)" using kr grow by simp
    ultimately show ?thesis by blast
  next
    case move
    have f: "fits A (ALIGN n) \<longleftrightarrow> fits A n" using ALIGN_ALIGN [OF n(2)] by (simp add: fits_def)
    show ?thesis
    proof (cases "fits A n")
      case True
      obtain h1 q h' A' where m: "kmalloc (ALIGN n) h = Some (h1, q)" "q \<noteq> 0"
        "kfree p (copy_mem (unat (blk_size h1 (p - Block_SIZE))) q p h1) = Some h'" "reallocated h A p s (ALIGN n) h' A' q"
        using krealloc_move [OF ok lv _ an(2) move(1)] f True by metis
      then have "reallocated h A p s n h' A' q" using an(1) unfolding reallocated_def by fastforce
      moreover have "krealloc p n h = Some (h', q)" using kr move m(1-3) by simp
      ultimately show ?thesis by blast
    next
      case False
      then have "kmalloc (ALIGN n) h = Some (h, 0)" using kmalloc_full [OF ok] f by blast
      then show ?thesis using kr move False by auto
    qed
  qed
qed

section \<open>Lemmas: runs\<close>

lemma kheap_init_heap_ok:
  assumes "0 < start" and "12 \<le> sz" and "start + sz \<le> 4294967264"
  shows "heap_ok (kheap_init (of_nat start) (of_nat sz) h) (start, [(sz - 12, True)])"
proof -
  have b: "start + 12 \<le> 4294967296" using assms by simp
  have "of_nat sz - Block_SIZE = (of_nat (sz - 12) :: u32)" using assms(2) by (simp add: Block_SIZE_def of_nat_diff)
  then show ?thesis
    using assms unfolding heap_ok_def kheap_init_def Let_def
    by (simp add: hdr_def hdr_field_same [OF b])
qed

lemma kheap_init_frame:
  "start + 12 \<le> 4294967296 \<Longrightarrow> x < 4294967296 \<Longrightarrow> x < start \<or> start + 12 \<le> x \<Longrightarrow>
   ram (kheap_init (of_nat start) sz h) (of_nat x) = ram h (of_nat x)"
  unfolding kheap_init_def Let_def set_blk_size_def set_blk_free_def set_blk_next_def
  by (auto simp: st32_nat [of "start + 8", simplified] st32_nat [of "start + 4", simplified] st32_nat [of start])

lemma a_free_a_alloc:
  assumes "a_alloc n a bs = Some (p, bs')" and "coalesced bs"
  obtains xs s ys where "bs' = xs @ (s, False) # ys" "p = a + span xs + 12" "a_free xs s ys = bs"
  using assms(1)
proof (cases rule: a_alloc_cases)
  case (1 xs s ys)
  have "xs = [] \<or> \<not> snd (last xs)" using assms(2) 1 by (auto simp: coalesced_append)
  then show ?thesis using 1 by (intro that [of xs n "(s - n - 12, True) # ys"]) (auto simp: a_free_def)
next
  case (2 xs s ys)
  have "xs = [] \<or> \<not> snd (last xs)" "ys = [] \<or> \<not> snd (hd ys)"
    using assms(2) 2 by (auto simp: coalesced_append coalesced_Cons)
  then have "a_free xs s ys = bs" using 2 by (cases "(s, ys)" rule: join_next.cases) (auto simp: a_free_def)
  then show ?thesis using 2 by (intro that [of xs s ys]) auto
qed

lemma kfree_exact:
  assumes ok: "heap_ok h (a, xs @ (s, False) # ys)" and p: "p = a + span xs + 12"
  obtains h' where "kfree (of_nat p) h = Some h'" "heap_ok h' (a, a_free xs s ys)"
    "agree h h' (client_bytes a (a_free xs s ys))"
proof -
  have sg: "seg h a (xs @ (s, False) # ys) 0" "free_list_head h = of_nat a" "coalesced (xs @ (s, False) # ys)"
    using ok by (auto simp: heap_ok_def)
  obtain h' where h': "kfree (of_nat p) h = Some h'" "seg h' a (a_free xs s ys) 0" "free_list_head h' = free_list_head h"
    "agree h h' ({..<a} \<union> used_bytes a xs \<union> used_bytes (a + span xs + 12 + s) ys \<union> {a + span xs + 12 + s + span ys..})"
    using kfree_seg [OF sg(1,2) refl] p by metis
  have "client_bytes a (a_free xs s ys) = {..<a} \<union> used_bytes a xs \<union> used_bytes (a + span xs + 12 + s) ys \<union> {a + span xs + 12 + s + span ys..}"
    by (auto simp: client_bytes_def used_free ac_simps)
  then show ?thesis
    using that [OF h'(1)] h'(2,3,4) sg coalesced_free [OF sg(3)] by (auto simp: heap_ok_def a_free_def)
qed

lemma alloc_release:
  assumes ok: "heap_ok h A" and fits: "fits A n"
  shows "\<exists>h1 p h2. kmalloc n h = Some (h1, p) \<and> p \<noteq> 0 \<and> kfree p h1 = Some h2 \<and> heap_ok h2 A \<and>
    (\<forall>x \<in> client A. ram h2 (of_nat x) = ram h (of_nat x))"
proof -
  obtain a bs where A: "A = (a, bs)" by (cases A)
  obtain p bs' where al: "a_alloc (unat (ALIGN n)) a bs = Some (p, bs')" using fits A by (auto simp: fits_iff)
  obtain h1 where h1: "kmalloc n h = Some (h1, of_nat p)" "heap_ok h1 (a, bs')" "agree h h1 (client_bytes a bs)"
    using kmalloc_refines [of h a bs n] ok al A by auto
  obtain xs s ys where x: "bs' = xs @ (s, False) # ys" "p = a + span xs + 12" "a_free xs s ys = bs"
    using a_free_a_alloc [OF al] ok A by (auto simp: heap_ok_def)
  have "live (a, bs') p s" using x(1,2) by (auto simp: live_def)
  then have "0 < p" "p < 4294967296" using live_client [OF h1(2)] by fastforce+
  then have p0: "(of_nat p :: u32) \<noteq> 0" using of_nat_u32_eq_iff [of p 0] by simp
  obtain h2 where h2: "kfree (of_nat p) h1 = Some h2" "heap_ok h2 (a, bs)" "agree h1 h2 (client_bytes a bs)"
    using kfree_exact [OF h1(2) [unfolded x(1)] x(2)] unfolding x(3) by blast
  have "agree h h2 (client_bytes a bs)" using agree_trans [OF h1(3) h2(3)] .
  then show ?thesis using h1(1) p0 h2(1,2) agree_client A by (fastforce simp: client_def)
qed

lemma strlen_ram_eq:
  assumes "\<And>i. i < k \<Longrightarrow> m (str + of_nat i) \<noteq> 0" and "m (str + of_nat k) = 0" and "j \<le> k"
  shows "strlen_ram m str (of_nat j) = Some (of_nat k)"
  using assms(3)
proof (induction "k - j" arbitrary: j)
  case 0
  then show ?case using assms(2) by (subst strlen_ram.simps) simp
next
  case (Suc d)
  then have "strlen_ram m str (of_nat (Suc j)) = Some (of_nat k)" by (intro Suc.hyps(1)) auto
  moreover have "m (str + of_nat j) \<noteq> 0" using Suc assms(1) by auto
  ultimately show ?case by (subst strlen_ram.simps) (simp add: add.commute)
qed

lemma heap_ok_write:
  assumes "heap_ok h A" and "x \<in> client A"
  shows "heap_ok (h\<lparr>ram := (ram h)(of_nat x := v)\<rparr>) A"
proof -
  obtain a bs where A: "A = (a, bs)" by (cases A)
  have "y \<noteq> x" if "y \<in> hdr_bytes a bs" for y using client_not_hdr [of a bs] assms(2) that A by (auto simp: client_def)
  moreover have "x < 4294967296" using assms(2) A by (auto simp: client_def)
  ultimately have "agree h (h\<lparr>ram := (ram h)(of_nat x := v)\<rparr>) (hdr_bytes a bs)"
    unfolding agree_def using of_nat_eq_u32 by auto
  then show ?thesis using heap_ok_agree [of h a bs] assms(1) A by simp
qed

lemma kheap_run_ok:
  assumes "kheap_run h L"
  shows "\<exists>A. heap_ok h A \<and> (\<forall>p k. L p = Some k \<longrightarrow> (\<exists>s. live A (unat p) s \<and> unat k \<le> s))"
  using assms
proof induction
  case (run_init start sz h)
  then show ?case using kheap_init_heap_ok [of start sz h] by (intro exI [of _ "(start, [(sz - 12, True)])"]) auto
next
  case (run_kmalloc h L n h' p)
  then obtain A where A: "heap_ok h A" "\<forall>p k. L p = Some k \<longrightarrow> (\<exists>s. live A (unat p) s \<and> unat k \<le> s)" by blast
  have "fits A n" using kmalloc_full [OF A(1)] run_kmalloc.hyps by fastforce
  from kmalloc_room [OF A(1) this run_kmalloc.hyps(2)] run_kmalloc.hyps(3)
  obtain A' s where k: "heap_ok h' A'" "unat n \<le> s" "live A' (unat p) s" "\<forall>q t. live A q t \<longrightarrow> live A' q t" by auto
  then have "\<forall>q k. (L(p \<mapsto> n)) q = Some k \<longrightarrow> (\<exists>s. live A' (unat q) s \<and> unat k \<le> s)" using A(2) by auto blast
  with k(1) show ?case by blast
next
  case (run_krealloc h L p k n h' q)
  then obtain A where A: "heap_ok h A" "\<forall>p k. L p = Some k \<longrightarrow> (\<exists>s. live A (unat p) s \<and> unat k \<le> s)" by blast
  obtain s where s: "live A (unat p) s" using A(2) run_krealloc.hyps(2) by blast
  obtain A' where A': "reallocated h A p s n h' A' q" using krealloc_live [OF A(1) s run_krealloc.hyps(3,4)] run_krealloc.hyps by auto
  have "\<exists>s. live A' (unat r) s \<and> unat m \<le> s" if "((L(p := None))(q \<mapsto> n)) r = Some m" for r m
  proof (cases "r = q")
    case True
    then show ?thesis using that A' by (auto simp: reallocated_def)
  next
    case False
    then have r: "L r = Some m" "unat r \<noteq> unat p" using that by (auto simp: word_unat_eq_iff split: if_splits)
    then show ?thesis using A(2) A' unfolding reallocated_def by blast
  qed
  moreover have "heap_ok h' A'" using A' by (simp add: reallocated_def)
  ultimately show ?case by blast
next
  case (run_kfree h L p k h')
  then obtain A where A: "heap_ok h A" "\<forall>p k. L p = Some k \<longrightarrow> (\<exists>s. live A (unat p) s \<and> unat k \<le> s)" by blast
  obtain s where s: "live A (unat p) s" using A(2) run_kfree.hyps(2) by blast
  obtain A' where A': "heap_ok h' A'" "\<forall>q t. live A q t \<and> q \<noteq> unat p \<longrightarrow> live A' q t"
    using kfree_live [OF A(1) s] run_kfree.hyps(3) by auto
  have "\<exists>s. live A' (unat r) s \<and> unat m \<le> s" if "(L(p := None)) r = Some m" for r m
  proof -
    have "L r = Some m" "unat r \<noteq> unat p" using that by (auto simp: word_unat_eq_iff split: if_splits)
    then show ?thesis using A(2) A'(2) by blast
  qed
  then show ?case using A'(1) by blast
next
  case (run_write h L p k i v)
  then obtain A where A: "heap_ok h A" "\<forall>p k. L p = Some k \<longrightarrow> (\<exists>s. live A (unat p) s \<and> unat k \<le> s)" by blast
  obtain s where s: "live A (unat p) s" "unat k \<le> s" using A(2) run_write.hyps(2) by blast
  then have "unat p + i \<in> client A" using live_client [OF A(1) s(1)] run_write.hyps(3) by auto
  from heap_ok_write [OF A(1) this, of v] have "heap_ok (h\<lparr>ram := (ram h)(p + of_nat i := v)\<rparr>) A" by simp
  then show ?case using A(2) by blast
qed

section \<open>Properties\<close>

lemma small_heap_ok: "heap_ok small_heap (4096, [(244, True)])"
  using kheap_init_heap_ok [of 4096 256 "\<lparr>ram = \<lambda>_. 0, free_list_head = 0\<rparr>"] by (simp add: small_heap_def)

lemma kmalloc_size_wrap: "4294967288 < unat n \<Longrightarrow> kmalloc n h = kmalloc 0 h"
  by (simp add: kmalloc_def ALIGN_zero) (simp add: ALIGN_def ALIGNMENT_def)

text \<open>
  C8: \<open>kmalloc\<close> is first fit: on a well-formed heap it always returns, it takes the first free block
  that is large enough, splits it when a header and 8 bytes remain, and changes no byte that
  belongs to a client; it returns \<open>NULL\<close> and leaves the heap as it is when no block is large enough.
\<close>

theorem kmalloc_first_fit:
  assumes "heap_ok h (a, bs)"
  shows "(a_alloc (unat (ALIGN n)) a bs = None \<longrightarrow> kmalloc n h = Some (h, 0)) \<and>
    (\<forall>p bs'. a_alloc (unat (ALIGN n)) a bs = Some (p, bs') \<longrightarrow>
      (\<exists>h'. kmalloc n h = Some (h', of_nat p) \<and> heap_ok h' (a, bs') \<and>
         (\<forall>x \<in> client (a, bs). ram h' (of_nat x) = ram h (of_nat x))))"
  using kmalloc_refines [OF assms, of n] by (auto simp: agree_def client_def)

theorem kmalloc_first_fit_witness:
  "(\<exists>h'. kmalloc 20 small_heap = Some (h', 4108) \<and> heap_ok h' (4096, [(24, False), (208, True)])) \<and>
   kmalloc 300 small_heap = Some (small_heap, 0)"
  using kmalloc_first_fit [OF small_heap_ok, of 20] kmalloc_first_fit [OF small_heap_ok, of 300]
  by (auto simp: ALIGN_def ALIGNMENT_def)

text \<open>
  C31: \<open>kfree\<close> undoes \<open>kmalloc\<close>: after both calls the heap consists of exactly the same blocks, joined
  again, and the bytes of all clients are the same.
\<close>

theorem kmalloc_kfree_restores:
  assumes "heap_ok h (a, bs)" and "fits (a, bs) n"
  shows "\<exists>h1 p h2. kmalloc n h = Some (h1, p) \<and> kfree p h1 = Some h2 \<and> heap_ok h2 (a, bs) \<and>
    (\<forall>x \<in> client (a, bs). ram h2 (of_nat x) = ram h (of_nat x))"
  using alloc_release [OF assms] by blast

theorem kmalloc_kfree_restores_witness:
  "\<exists>h1 p h2. kmalloc 20 small_heap = Some (h1, p) \<and> kfree p h1 = Some h2 \<and> heap_ok h2 (4096, [(244, True)])"
  using kmalloc_kfree_restores [OF small_heap_ok, of 20] by (auto simp: fits_def ALIGN_def ALIGNMENT_def)

text \<open>
  C32: \<open>krealloc\<close> of a block in use either fails, because no free block is large enough, and leaves
  the heap as it is, or returns a block with at least the new size whose first bytes are the
  contents of the old block; in place, grown into the next block or moved, no other client byte
  changes and the old block is given back.
\<close>

theorem krealloc_keeps_contents:
  assumes "heap_ok h A" and "live A (unat p) s" and "n \<noteq> 0" and "unat n \<le> 4294967288"
  shows "krealloc p n h = Some (h, 0) \<and> \<not> fits A n \<or>
    (\<exists>h' q A' t. krealloc p n h = Some (h', q) \<and> q \<noteq> 0 \<and> heap_ok h' A' \<and> live A' (unat q) t \<and> unat n \<le> t \<and>
       client A' = client A - {unat p..<unat p + s} \<union> {unat q..<unat q + t} \<and>
       (\<forall>i < s. ram h' (q + of_nat i) = ram h (p + of_nat i)) \<and>
       (\<forall>x \<in> client A - {unat p..<unat p + s}. ram h' (of_nat x) = ram h (of_nat x)))"
  using krealloc_live [OF assms] unfolding reallocated_def by blast

theorem krealloc_keeps_contents_witness:
  "\<exists>h. heap_ok h (4096, [(24, False), (208, True)]) \<and>
    (\<exists>h' q. krealloc 4108 40 h = Some (h', q) \<and> q \<noteq> 0 \<and> (\<forall>i < 24. ram h' (q + of_nat i) = ram h (4108 + of_nat i)))"
proof -
  have "a_alloc (unat (ALIGN 20)) 4096 [(244, True)] = Some (4108, [(24, False), (208, True)])"
    by (simp add: ALIGN_def ALIGNMENT_def)
  then obtain h where h: "heap_ok h (4096, [(24, False), (208, True)])"
    using kmalloc_refines [OF small_heap_ok, of 20] by auto
  have lv: "live (4096, [(24, False), (208, True)]) (unat (4108 :: u32)) 24"
    by (simp add: live_def) (rule exI [of _ "[]"], simp)
  have "fits (4096, [(24, False), (208, True)]) 40" by (simp add: fits_def ALIGN_def ALIGNMENT_def)
  then show ?thesis using krealloc_keeps_contents [OF h lv, of 40] h by auto
qed

text \<open>
  \<open>strdup\<close> returns a fresh block of its own with a copy of the string and its terminator, or
  \<open>NULL\<close> when there is no room, and changes no byte that belongs to a client.
\<close>

theorem strdup_copies:
  assumes "heap_ok h A" and "\<And>i. i < k \<Longrightarrow> ram h (s + of_nat i) \<noteq> 0" and "ram h (s + of_nat k) = 0"
    and "{unat s..<unat s + k + 1} \<subseteq> client A" and "k < 4294967288"
  shows "(fits A (of_nat (k + 1)) \<longrightarrow>
      (\<exists>h' p A' t. strdup s h = Some (h', p) \<and> p \<noteq> 0 \<and> heap_ok h' A' \<and> live A' (unat p) t \<and> k + 1 \<le> t \<and>
         {unat p..<unat p + t} \<inter> client A = {} \<and> (\<forall>i \<le> k. ram h' (p + of_nat i) = ram h (s + of_nat i)) \<and>
         (\<forall>x \<in> client A. ram h' (of_nat x) = ram h (of_nat x)))) \<and>
    (\<not> fits A (of_nat (k + 1)) \<longrightarrow> strdup s h = Some (h, 0))"
proof -
  have len: "strlen_ram (ram h) s 0 = Some (of_nat k)"
    using strlen_ram_eq [of k "ram h" s 0] assms(2,3) by simp
  have un: "unat (of_nat (k + 1) :: u32) = k + 1" using assms(5) by (intro unat_of_nat_u32) simp
  have e: "of_nat k + 1 = (of_nat (k + 1) :: u32)" by simp
  have eq: "strdup s h = Option.bind (kmalloc (of_nat (k + 1)) h)
      (\<lambda>(h, new). if new = 0 then Some (h, 0) else Some (copy_mem (k + 1) new s h, new))"
    by (simp only: strdup_def len Option.bind.simps Let_def e un copy_mem_def)
  have cm: "\<forall>x \<in> client A. x < 4294967296" by (auto simp: client_def split: prod.splits)
  show ?thesis
  proof (intro conjI impI)
    assume f: "fits A (of_nat (k + 1))"
    have src: "{unat s..<unat s + (k + 1)} \<subseteq> client A" using assms(4) by (simp add: add.assoc)
    have "unat s + k \<in> client A" using assms(4) by auto
    then have "unat s + k < 4294967296" using cm by blast
    then have end_src: "unat s + (k + 1) \<le> 4294967296" by simp
    show "\<exists>h' p A' t. strdup s h = Some (h', p) \<and> p \<noteq> 0 \<and> heap_ok h' A' \<and> live A' (unat p) t \<and> k + 1 \<le> t \<and>
         {unat p..<unat p + t} \<inter> client A = {} \<and> (\<forall>i \<le> k. ram h' (p + of_nat i) = ram h (s + of_nat i)) \<and>
         (\<forall>x \<in> client A. ram h' (of_nat x) = ram h (of_nat x))"
    proof (rule kh.duplicate [OF assms(1) f _ _ src end_src])
      fix h1 p A' t
      assume d: "kmalloc (of_nat (k + 1)) h = Some (h1, p)" "p \<noteq> 0" "heap_ok (copy_mem (k + 1) p (of_nat (unat s)) h1) A'"
        "unat (of_nat (k + 1) :: u32) \<le> t" "live A' (unat p) t" "{unat p..<unat p + t} \<inter> client A = {}"
        "\<And>i. i < k + 1 \<Longrightarrow> ram (copy_mem (k + 1) p (of_nat (unat s)) h1) (of_nat (unat p + i)) = ram h (of_nat (unat s + i))"
        "\<And>x. x \<in> client A \<Longrightarrow> x < 4294967296 \<Longrightarrow> ram (copy_mem (k + 1) p (of_nat (unat s)) h1) (of_nat x) = ram h (of_nat x)"
      have "strdup s h = Some (copy_mem (k + 1) p s h1, p)" unfolding eq d(1) using d(2) by simp
      moreover have "\<forall>i \<le> k. ram (copy_mem (k + 1) p s h1) (p + of_nat i) = ram h (s + of_nat i)" using d(7) by simp
      moreover have "\<forall>x \<in> client A. ram (copy_mem (k + 1) p s h1) (of_nat x) = ram h (of_nat x)" using d(8) cm by simp
      moreover have "heap_ok (copy_mem (k + 1) p s h1) A'" using d(3) by simp
      moreover have "k + 1 \<le> t" using d(4) un by simp
      ultimately show ?thesis using d(2,5,6) by blast
    qed (use assms(5) un in auto)
  next
    assume "\<not> fits A (of_nat (k + 1))"
    then show "strdup s h = Some (h, 0)" using kmalloc_full [OF assms(1)] eq by (simp del: of_nat_add)
  qed
qed

theorem strdup_copies_witness:
  "\<exists>h. heap_ok h (4096, [(244, True)]) \<and> ram h 16 = 65 \<and>
    (\<exists>h' p. strdup 16 h = Some (h', p) \<and> p \<noteq> 0 \<and> ram h' p = 65 \<and> ram h' (p + 1) = 0)"
proof -
  let ?h = "small_heap\<lparr>ram := (ram small_heap)(of_nat 16 := 65)\<rparr>"
  have c: "16 \<in> client (4096, [(244, True)])" "{unat (16 :: u32)..<unat (16 :: u32) + 1 + 1} \<subseteq> client (4096, [(244, True)])"
    by (auto simp: client_def client_bytes_def)
  have ok: "heap_ok ?h (4096, [(244, True)])" by (rule heap_ok_write [OF small_heap_ok c(1)])
  have z: "ram ?h (16 + of_nat 1) = 0"
    by (simp add: small_heap_def kheap_init_def set_blk_size_def set_blk_free_def set_blk_next_def st32_def)
  have "fits (4096, [(244, True)]) (of_nat (1 + 1))" by (simp add: fits_def ALIGN_def ALIGNMENT_def)
  moreover have "ram ?h (16 + of_nat i) \<noteq> 0" if "i < 1" for i using that by simp
  ultimately obtain h' p where "strdup 16 ?h = Some (h', p)" "p \<noteq> 0" "\<forall>i \<le> 1. ram h' (p + of_nat i) = ram ?h (16 + of_nat i)"
    using strdup_copies [OF ok _ z c(2)] by auto
  moreover from this(3) [rule_format, of 0] this(3) [rule_format, of 1]
  have "ram h' p = 65" "ram h' (p + 1) = 0" using z by simp_all
  ultimately show ?thesis using ok by (intro exI [of _ ?h]) auto
qed

text \<open>
  C4: After any sequence of allocations, reallocations, frees and writes into blocks in use, the
  blocks in use do not overlap and lie in the address space, each can be freed, and \<open>kmalloc\<close>
  returns for every size: no walk over the list is endless.
\<close>

theorem kheap_run_safe:
  assumes "kheap_run h L" and "L p = Some k"
  shows "p \<noteq> 0 \<and> unat p + unat k < 4294967296 \<and>
    (\<forall>q m. L q = Some m \<longrightarrow> q \<noteq> p \<longrightarrow> {unat p..<unat p + unat k} \<inter> {unat q..<unat q + unat m} = {}) \<and>
    (\<exists>h'. kfree p h = Some h') \<and> (\<forall>n. \<exists>r. kmalloc n h = Some r)"
proof -
  obtain A where A: "heap_ok h A" "\<forall>p k. L p = Some k \<longrightarrow> (\<exists>s. live A (unat p) s \<and> unat k \<le> s)"
    using kheap_run_ok [OF assms(1)] by blast
  obtain s where s: "live A (unat p) s" "unat k \<le> s" using A(2) assms(2) by blast
  have "{unat p..<unat p + unat k} \<inter> {unat q..<unat q + unat m} = {}" if m: "L q = Some m" and ne: "q \<noteq> p" for q m
  proof -
    obtain t where t: "live A (unat q) t" "unat m \<le> t" using A(2) m by blast
    have "unat q \<noteq> unat p" using ne by (simp add: word_unat_eq_iff)
    from kh.block_disjoint [OF A(1) s(1) t(1) this] show ?thesis using s(2) t(2) by auto
  qed
  moreover have "\<exists>r. kmalloc n h = Some r" for n
    using kmalloc_refines [of h "fst A" "snd A" n] A(1) by (cases "a_alloc (unat (ALIGN n)) (fst A) (snd A)") auto
  moreover have "\<exists>h'. kfree p h = Some h'" using kfree_live [OF A(1) s(1)] by blast
  moreover have "p \<noteq> 0" "unat p + unat k < 4294967296" using live_client [OF A(1) s(1)] s(2) by auto
  ultimately show ?thesis by blast
qed

theorem kheap_run_safe_witness:
  "\<exists>h' h2. kmalloc 20 small_heap = Some (h', 4108) \<and> kfree 4108 h' = Some h2"
proof -
  have r: "kheap_run small_heap Map.empty"
    using run_init [of 4096 256 "\<lparr>ram = \<lambda>_. 0, free_list_head = 0\<rparr>"] by (simp add: small_heap_def)
  have "a_alloc (unat (ALIGN 20)) 4096 [(244, True)] = Some (4108, [(24, False), (208, True)])"
    by (simp add: ALIGN_def ALIGNMENT_def)
  then obtain h' where h': "kmalloc 20 small_heap = Some (h', 4108)"
    using kmalloc_refines [OF small_heap_ok, of 20] by auto
  then have "kheap_run h' (Map.empty(4108 \<mapsto> 20))" using run_kmalloc [OF r, of 20] by simp
  from kheap_run_safe [OF this, of 4108 20] show ?thesis using h' by auto
qed

end
