(* ===== verification/Memory.thy ===== *)
theory Memory
  imports KHeap_Spec
begin

text \<open>
  Runs of bytes in memory, shared by the components that keep their data in blocks of the kernel heap:
  reading and writing a run, and that the heap stays well formed when bytes of a client change.
\<close>

fun put_ram :: "u32 \<Rightarrow> u8 list \<Rightarrow> (u32 \<Rightarrow> u8) \<Rightarrow> (u32 \<Rightarrow> u8)" where
  "put_ram a [] m = m"
| "put_ram a (b # bs) m = put_ram (a + 1) bs (m(a := b))"

definition load_ram :: "(u32 \<Rightarrow> u8) \<Rightarrow> u32 \<Rightarrow> nat \<Rightarrow> u8 list" where
  "load_ram m a n = map (\<lambda>i. m (a + of_nat i)) [0..<n]"

lemma load_ram_simps [simp]: "load_ram m a 0 = []" "load_ram m a (Suc n) = m a # load_ram m (a + 1) n"
  by (simp_all add: load_ram_def map_upt_Suc add.assoc del: upt_Suc)

lemma length_load_ram [simp]: "length (load_ram m a n) = n"
  by (simp add: load_ram_def)

lemma put_ram_nat:
  "a + length bs \<le> 4294967296 \<Longrightarrow> x < 4294967296 \<Longrightarrow>
   put_ram (of_nat a) bs m (of_nat x) = (if a \<le> x \<and> x < a + length bs then bs ! (x - a) else m (of_nat x))"
proof (induction bs arbitrary: a m)
  case (Cons b bs)
  have e: "put_ram (of_nat a) (b # bs) m = put_ram (of_nat (Suc a)) bs (m(of_nat a := b))" by (simp add: add.commute)
  have "(of_nat x :: u32) = of_nat a \<longleftrightarrow> x = a" using Cons.prems by (intro of_nat_u32_eq_iff) auto
  then show ?case unfolding e using Cons.IH [of "Suc a"] Cons.prems by (auto simp: nth_Cons' Suc_diff_le simp del: of_nat_Suc)
qed auto

lemma load_ram_eqI:
  assumes "\<And>i. i < n \<Longrightarrow> m (of_nat (a + i)) = bs ! i" and "length bs = n"
  shows "load_ram m (of_nat a) n = bs"
  using assms by (intro nth_equalityI) (simp_all add: load_ram_def)

lemma nth_load_ram: "i < n \<Longrightarrow> load_ram m (of_nat a) n ! i = m (of_nat (a + i))"
  by (simp add: load_ram_def)

lemma load_ram_append:
  assumes "load_ram m a n = xs @ ys"
  shows "load_ram m a (length xs) = xs" and "load_ram m (a + of_nat (length xs)) (length ys) = ys"
proof -
  have n: "n = length xs + length ys" using arg_cong [OF assms, of length] by simp
  have "load_ram m a n = load_ram m a (length xs) @ load_ram m (a + of_nat (length xs)) (length ys)"
    by (rule nth_equalityI) (auto simp: n load_ram_def nth_append add.assoc simp flip: of_nat_add)
  with assms show "load_ram m a (length xs) = xs" and "load_ram m (a + of_nat (length xs)) (length ys) = ys" by simp_all
qed

lemma heap_ok_ram:
  assumes "heap_ok h A" and "\<And>x. x < 4294967296 \<Longrightarrow> x \<notin> client A \<Longrightarrow> m (of_nat x) = ram h (of_nat x)"
  shows "heap_ok (h\<lparr>ram := m\<rparr>) A"
proof -
  obtain a bs where A: "A = (a, bs)" by (cases A)
  have "x \<notin> client A" if "x \<in> hdr_bytes a bs" for x using client_not_hdr [of a bs] that A by (auto simp: client_def)
  then have "agree h (h\<lparr>ram := m\<rparr>) (hdr_bytes a bs)" unfolding agree_def using assms(2) by simp
  then show ?thesis using heap_ok_agree [of h a bs "h\<lparr>ram := m\<rparr>"] assms(1) A by simp
qed

lemma client_bound:
  assumes "heap_ok h A" and "x \<in> client A"
  shows "x < 4294967296"
  using assms by (cases A) (auto simp: client_def client_bytes_def)

text \<open>A zero-terminated string in memory.\<close>

definition ram_string :: "(u32 \<Rightarrow> u8) \<Rightarrow> u32 \<Rightarrow> u8 list option" where
  "ram_string m p = map_option (\<lambda>n. load_ram m p (unat n)) (strlen_ram m p 0)"

lemma ram_string_placed:
  assumes l: "load_ram m p (length s + 1) = s @ [0]" and s: "is_cstr s" "length s < 4294967296"
  shows "ram_string m p = Some s"
proof -
  have n: "m (p + of_nat i) = (s @ [0]) ! i" if "i < length s + 1" for i
  proof -
    have "load_ram m p (length s + 1) ! i = m (p + of_nat i)" using that by (simp add: load_ram_def del: upt_Suc)
    then show ?thesis using l by simp
  qed
  have "m (p + of_nat i) \<noteq> 0" if "i < length s" for i
    using n [of i] that s(1) by (simp add: nth_append is_cstr_def) (metis nth_mem)
  moreover have "m (p + of_nat (length s)) = 0" using n [of "length s"] by simp
  ultimately have "strlen_ram m p 0 = Some (of_nat (length s))" using strlen_ram_eq [of "length s" m p 0] by simp
  moreover have "load_ram m p (length s) = s" using load_ram_append(1) [OF l] .
  ultimately show ?thesis using s(2) by (simp add: ram_string_def unat_of_nat_u32)
qed

end
