(* ===== verification/Console.thy ===== *)
theory Console
  imports CString
begin

text \<open>
  The text console (\<open>src/kernel/drivers/console.c\<close>): the 80 by 25 screen with its cursor,
  formatted output, and line input from keyboard scancodes. The scancodes that the keyboard
  controller delivers are a list; a read beyond its end waits for ever, the value \<open>None\<close>.
  \<open>video\<close> are the cells of memory from \<open>0xB8000\<close> on, as many as one likes: the screen is the
  first 2000 of them, so that a write behind it shows.
\<close>

unbundle bit_operations_syntax

section \<open>State\<close>

record console =
  cursor :: int
  shift_pressed :: bool
  video :: "u16 list"

definition WHITE_ON_BLACK :: u16 where
  "WHITE_ON_BLACK = 0x0F"

definition CONSOLE_WIDTH :: nat where
  "CONSOLE_WIDTH = 80"

definition CONSOLE_HEIGHT :: nat where
  "CONSOLE_HEIGHT = 25"

text \<open>A cell of the screen; a \<open>char\<close> is signed and is extended to an \<open>int\<close> before the \<open>OR\<close>.\<close>

definition cell :: "u8 \<Rightarrow> u16" where
  "cell c = push_bit 8 WHITE_ON_BLACK OR scast c"

section \<open>Output\<close>

definition scroll_up :: "console \<Rightarrow> console" where
  "scroll_up s =
     (let copy = (\<lambda>y x s. s\<lparr>video := (video s)[(y - 1) * CONSOLE_WIDTH + x := video s ! (y * CONSOLE_WIDTH + x)]\<rparr>);
          s = fold (\<lambda>y. fold (copy y) [0..<CONSOLE_WIDTH]) [1..<CONSOLE_HEIGHT] s
      in fold (\<lambda>x s. s\<lparr>video := (video s)[(CONSOLE_HEIGHT - 1) * CONSOLE_WIDTH + x := cell 0x20]\<rparr>)
           [0..<CONSOLE_WIDTH] s)"

definition console_putchar :: "u8 \<Rightarrow> console \<Rightarrow> console" where
  "console_putchar c s =
     (let s = (if c = 0x0A then s\<lparr>cursor := cursor s + (int CONSOLE_WIDTH - cursor s mod int CONSOLE_WIDTH)\<rparr>
               else if c = 0x08 then
                 (if 0 < cursor s then s\<lparr>cursor := cursor s - 1, video := (video s)[nat (cursor s - 1) := cell 0x20]\<rparr> else s)
               else s\<lparr>video := (video s)[nat (cursor s) := cell c], cursor := cursor s + 1\<rparr>)
      in if int (CONSOLE_WIDTH * CONSOLE_HEIGHT) \<le> cursor s then
           (let s = scroll_up s in s\<lparr>cursor := cursor s - int CONSOLE_WIDTH\<rparr>)
         else s)"

definition console_print :: "u8 list \<Rightarrow> console \<Rightarrow> console" where
  "console_print str s = fold console_putchar str s"

text \<open>
  The characters that \<open>console_printf\<close> writes. The arguments are the values that \<open>va_arg\<close> takes one
  after the other; \<open>None\<close> is a format that asks for an argument that is not there or of the other
  kind, which C leaves undefined, as it does the negation of the least \<open>int\<close>.
\<close>

datatype va_value = StrArg "u8 list" | IntArg u32

function pf_digits :: "u32 \<Rightarrow> u8 list" where
  "pf_digits num = (if 0 < sint num then ucast (0x30 + num mod 10) # pf_digits (num div 10) else [])"
  by auto
termination
proof (relation "measure unat")
  fix num :: u32 assume "0 < sint num"
  then have "num \<noteq> 0" by auto
  then show "(num div 10, num) \<in> measure unat" by (simp add: unat_div unat_gt_0 div_less_dividend)
qed simp

declare pf_digits.simps [simp del]

definition pf_int :: "u32 \<Rightarrow> u8 list option" where
  "pf_int num =
     (if num = 0 then Some [0x30]
      else if sint num < 0 then map_option (\<lambda>num. 0x2D # rev (pf_digits num)) (s32 (- sint num))
      else Some (rev (pf_digits num)))"

fun printf_chars :: "u8 list \<Rightarrow> va_value list \<Rightarrow> u8 list option" where
  "printf_chars [] args = Some []"
| "printf_chars (ch # fmt) args =
     (if ch = 0x25 then
        (case fmt of
           [] \<Rightarrow> None
         | d # fmt' \<Rightarrow>
             if d = 0x73 then
               (case args of StrArg str # args' \<Rightarrow> map_option ((@) str) (printf_chars fmt' args') | _ \<Rightarrow> None)
             else if d = 0x63 then
               (case args of IntArg c # args' \<Rightarrow> map_option ((#) (ucast c)) (printf_chars fmt' args') | _ \<Rightarrow> None)
             else if d = 0x64 then
               (case args of
                  IntArg num # args' \<Rightarrow>
                    (case pf_int num of None \<Rightarrow> None | Some ds \<Rightarrow> map_option ((@) ds) (printf_chars fmt' args'))
                | _ \<Rightarrow> None)
             else map_option (\<lambda>cs. 0x25 # d # cs) (printf_chars fmt' args))
      else map_option ((#) ch) (printf_chars fmt args))"

definition console_printf :: "u8 list \<Rightarrow> va_value list \<Rightarrow> console \<Rightarrow> console option" where
  "console_printf fmt args s = map_option (\<lambda>cs. fold console_putchar cs s) (printf_chars fmt args)"

definition console_clear :: "console \<Rightarrow> console" where
  "console_clear s =
     (let s = fold (\<lambda>i s. s\<lparr>video := (video s)[i := cell 0x20]\<rparr>) [0..<CONSOLE_WIDTH * CONSOLE_HEIGHT] s
      in s\<lparr>cursor := 0\<rparr>)"

section \<open>Input\<close>

definition scancode_map :: "u8 list" where
  "scancode_map =
     [0, 27] @ cstr ''1234567890-='' @ [0x08, 0x09] @ cstr ''qwertyuiop[]'' @ [0x0A, 0] @ cstr ''asdfghjkl;'' @ [0x27] @
     [0x60, 0, 0x5C] @ cstr ''zxcvbnm,./'' @ [0, 0x2A, 0, 0x20]"

definition scancode_map_shift :: "u8 list" where
  "scancode_map_shift =
     [0, 27] @ cstr ''!@#$%^&*()_+'' @ [0x08, 0x09] @ cstr ''QWERTYUIOP{}'' @ [0x0A, 0] @ cstr ''ASDFGHJKL:'' @ [0x22] @
     [0x7E, 0, 0x7C] @ cstr ''ZXCVBNM<>?'' @ [0, 0x2A, 0, 0x20]"

fun console_get_char :: "u8 list \<Rightarrow> console \<Rightarrow> (u8 \<times> u8 list \<times> console) option" where
  "console_get_char [] s = None"
| "console_get_char (sc # scs) s =
     (if sc = 0x2A \<or> sc = 0x36 then console_get_char scs (s\<lparr>shift_pressed := True\<rparr>)
      else if sc = 0xAA \<or> sc = 0xB6 then console_get_char scs (s\<lparr>shift_pressed := False\<rparr>)
      else if sc AND 0x80 \<noteq> 0 then console_get_char scs s
      else if sc < 58 then
        (let c = (if shift_pressed s then scancode_map_shift ! unat sc else scancode_map ! unat sc)
         in if c \<noteq> 0 then Some (c, scs, s) else console_get_char scs s)
      else console_get_char scs s)"

lemma get_char_shorter: "console_get_char scs s = Some (c, scs', s') \<Longrightarrow> length scs' < length scs"
  by (induction scs s rule: console_get_char.induct) (auto simp: Let_def split: if_splits)

text \<open>The loop of \<open>console_read_line\<close>, at index \<open>idx\<close> of the buffer.\<close>

function read_line_loop :: "int \<Rightarrow> int \<Rightarrow> u8 list \<Rightarrow> u8 list \<Rightarrow> console \<Rightarrow> (u8 list \<times> u8 list \<times> console) option" where
  "read_line_loop max_len idx buffer scs s =
     (case console_get_char scs s of
        None \<Rightarrow> None
      | Some (c, scs', s') \<Rightarrow>
          if c = 0x0A then Some (buffer[nat idx := 0], scs', console_putchar 0x0A s')
          else if c = 0x08 then
            (if 0 < idx then read_line_loop max_len (idx - 1) buffer scs' (console_putchar 0x08 s')
             else read_line_loop max_len idx buffer scs' s')
          else if idx < max_len - 1 then
            read_line_loop max_len (idx + 1) (buffer[nat idx := c]) scs' (console_putchar c s')
          else read_line_loop max_len idx buffer scs' s')"
  by auto
termination
  by (relation "measure (\<lambda>(_, _, _, scs, _). length scs)") (auto dest: get_char_shorter)

declare read_line_loop.simps [simp del]

definition console_read_line :: "u8 list \<Rightarrow> int \<Rightarrow> u8 list \<Rightarrow> console \<Rightarrow> (u8 list \<times> u8 list \<times> console) option" where
  "console_read_line buffer max_len scs s = read_line_loop max_len 0 buffer scs s"

section \<open>Specification\<close>

text \<open>
  The well-formed console, whose cursor is on the screen, and what a step of the console may do: it
  keeps the memory behind the screen.
\<close>

definition console_ok :: "console \<Rightarrow> bool" where
  "console_ok s \<longleftrightarrow> 2000 \<le> length (video s) \<and> 0 \<le> cursor s \<and> cursor s < 2000"

definition on_screen :: "console \<Rightarrow> console \<Rightarrow> bool" where
  "on_screen s s' \<longleftrightarrow>
     console_ok s' \<and> length (video s') = length (video s) \<and> drop 2000 (video s') = drop 2000 (video s)"

definition blank_row :: "u16 list" where
  "blank_row = replicate 80 (cell 0x20)"

text \<open>The characters that a sequence of scancodes types, from a given state of the shift key.\<close>

definition key_char :: "bool \<Rightarrow> u8 \<Rightarrow> u8" where
  "key_char shift sc =
     (if sc AND 0x80 \<noteq> 0 \<or> \<not> sc < 58 then 0 else if shift then scancode_map_shift ! unat sc else scancode_map ! unat sc)"

fun typed :: "bool \<Rightarrow> u8 list \<Rightarrow> u8 list" where
  "typed shift [] = []"
| "typed shift (sc # scs) =
     (if sc \<in> {0x2A, 0x36} then typed True scs
      else if sc \<in> {0xAA, 0xB6} then typed False scs
      else if key_char shift sc = 0 then typed shift scs
      else key_char shift sc # typed shift scs)"

text \<open>Line editing: backspace takes back the last character, and a full line takes no more.\<close>

fun edit :: "nat \<Rightarrow> u8 list \<Rightarrow> u8 list \<Rightarrow> u8 list" where
  "edit n line [] = line"
| "edit n line (c # cs) =
     (if c = 0x08 then edit n (butlast line) cs
      else if length line < n then edit n (line @ [c]) cs
      else edit n line cs)"

text \<open>What the user sees: the characters of the line, with backspaces.\<close>

fun echo :: "nat \<Rightarrow> nat \<Rightarrow> u8 list \<Rightarrow> u8 list" where
  "echo n i [] = []"
| "echo n i (c # cs) =
     (if c = 0x08 then (if 0 < i then 0x08 # echo n (i - 1) cs else echo n i cs)
      else if i < n then c # echo n (Suc i) cs
      else echo n i cs)"

text \<open>The cells while the screen is scrolled: the first \<open>m\<close> cells have been copied up.\<close>

definition shifted :: "'a list \<Rightarrow> nat \<Rightarrow> 'a list" where
  "shifted v m = take m (drop 80 v) @ drop m v"

definition blank_console :: console where
  "blank_console = \<lparr>cursor = 0, shift_pressed = False, video = replicate 16384 0\<rparr>"

section \<open>Lemmas: the screen\<close>

lemma shifted_step:
  assumes "m + 80 < length v"
  shows "(shifted v m)[m := shifted v m ! (m + 80)] = shifted v (Suc m)"
proof -
  have "take (Suc m) (drop 80 v) = take m (drop 80 v) @ [v ! (m + 80)]"
    using assms by (simp add: take_Suc_conv_app_nth add.commute)
  moreover have "drop m v = v ! m # drop (Suc m) v" using assms by (simp add: Cons_nth_drop_Suc)
  moreover have "shifted v m ! (m + 80) = v ! (m + 80)" using assms by (simp add: shifted_def nth_append)
  ultimately show ?thesis using assms by (simp add: shifted_def list_update_append)
qed

lemma shift_row:
  assumes "k \<le> 80" and "80 * y + 80 + k \<le> length (video s)" and "video s = shifted v (80 * y)" and "length v = length (video s)"
  shows "fold (\<lambda>x s. s\<lparr>video := (video s)[y * 80 + x := video s ! (Suc y * 80 + x)]\<rparr>) [0..<k] s = s\<lparr>video := shifted v (80 * y + k)\<rparr>"
  using assms(1,2)
proof (induction k)
  case 0
  then show ?case using assms(3) by simp
next
  case (Suc k)
  have i: "fold (\<lambda>x s. s\<lparr>video := (video s)[y * 80 + x := video s ! (Suc y * 80 + x)]\<rparr>) [0..<k] s = s\<lparr>video := shifted v (80 * y + k)\<rparr>"
    using Suc by simp
  have e: "y * 80 + k = 80 * y + k" "80 + y * 80 + k = 80 * y + k + 80" by simp_all
  have "80 * y + k + 80 < length v" using Suc.prems assms(4) by simp
  from shifted_step [OF this] show ?case
    unfolding upt_Suc_append [OF le0] fold_append o_apply i by (simp add: e)
qed

lemma shift_rows:
  assumes "n \<le> 24" and "2000 \<le> length (video s)"
  shows "fold (\<lambda>y. fold (\<lambda>x s. s\<lparr>video := (video s)[(y - 1) * 80 + x := video s ! (y * 80 + x)]\<rparr>) [0..<80]) [1..<Suc n] s =
    s\<lparr>video := shifted (video s) (80 * n)\<rparr>"
  using assms(1)
proof (induction n)
  case 0
  show ?case by (simp add: shifted_def)
next
  case (Suc n)
  let ?s = "s\<lparr>video := shifted (video s) (80 * n)\<rparr>"
  have "fold (\<lambda>x s. s\<lparr>video := (video s)[n * 80 + x := video s ! (Suc n * 80 + x)]\<rparr>) [0..<80] ?s = ?s\<lparr>video := shifted (video s) (80 * n + 80)\<rparr>"
    using Suc.prems assms(2) by (intro shift_row) (auto simp: shifted_def)
  then show ?case using Suc by (simp add: add.commute)
qed

lemma fill_row:
  assumes "k + n \<le> length (video s)"
  shows "fold (\<lambda>x s. s\<lparr>video := (video s)[k + x := c]\<rparr>) [0..<n] s =
    s\<lparr>video := take k (video s) @ replicate n c @ drop (k + n) (video s)\<rparr>"
  using assms
proof (induction n)
  case (Suc n)
  have "drop (k + n) (video s) = video s ! (k + n) # drop (Suc (k + n)) (video s)" using Suc.prems by (simp add: Cons_nth_drop_Suc)
  with Suc show ?case by (simp add: list_update_append replicate_append_same [symmetric])
qed simp

text \<open>The cells after the screen has scrolled.\<close>

definition scrolled :: "u16 list \<Rightarrow> u16 list" where
  "scrolled v = take 1920 (drop 80 v) @ blank_row @ drop 2000 v"

lemma scrolled_frame:
  "2000 \<le> length v \<Longrightarrow> length (scrolled v) = length v"
  "2000 \<le> length v \<Longrightarrow> drop 2000 (scrolled v) = drop 2000 v"
  by (simp_all add: scrolled_def blank_row_def)

lemma scroll_up_rows:
  assumes "2000 \<le> length (video s)"
  shows "scroll_up s = s\<lparr>video := scrolled (video s)\<rparr>"
proof -
  have "[1..<25] = [1..<Suc 24]" by simp
  then have "scroll_up s = fold (\<lambda>x s. s\<lparr>video := (video s)[1920 + x := cell 0x20]\<rparr>) [0..<80] (s\<lparr>video := shifted (video s) 1920\<rparr>)"
    using shift_rows [OF _ assms, of 24] by (simp add: scroll_up_def CONSOLE_WIDTH_def CONSOLE_HEIGHT_def Let_def del: upt_Suc)
  also have "\<dots> = s\<lparr>video := scrolled (video s)\<rparr>"
    using assms by (subst fill_row) (simp_all add: shifted_def scrolled_def blank_row_def)
  finally show ?thesis .
qed

lemma putchar_cases:
  assumes "console_ok s"
  shows "console_putchar c s =
    (let s' = (if c = 0x0A then s\<lparr>cursor := (cursor s div 80 + 1) * 80\<rparr>
       else if c = 0x08 then
         (if 0 < cursor s then s\<lparr>cursor := cursor s - 1, video := (video s)[nat (cursor s - 1) := cell 0x20]\<rparr> else s)
       else s\<lparr>video := (video s)[nat (cursor s) := cell c], cursor := cursor s + 1\<rparr>)
     in if cursor s' = 2000 then s'\<lparr>cursor := 1920, video := scrolled (video s')\<rparr> else s')"
proof -
  have nl: "cursor s + (80 - cursor s mod 80) = (cursor s div 80 + 1) * 80"
    using div_mult_mod_eq [of "cursor s" 80] by (simp add: algebra_simps)
  have "(cursor s div 80 + 1) * 80 \<le> 2000" using assms by (auto simp: console_ok_def)
  then show ?thesis
    using assms unfolding console_putchar_def Let_def CONSOLE_WIDTH_def CONSOLE_HEIGHT_def nl [symmetric]
    by (auto simp: console_ok_def scroll_up_rows)
qed

lemma putchar_on_screen: "console_ok s \<Longrightarrow> on_screen s (console_putchar c s)"
proof -
  assume ok: "console_ok s"
  have "(cursor s div 80 + 1) * 80 \<le> 2000" "0 \<le> cursor s div 80" using ok by (auto simp: console_ok_def)
  then show ?thesis
    using ok unfolding putchar_cases [OF ok]
    by (auto simp: on_screen_def console_ok_def Let_def scrolled_frame)
qed

lemma putchar_ok: "console_ok s \<Longrightarrow> console_ok (console_putchar c s)"
  using putchar_on_screen by (simp add: on_screen_def)

lemma on_screen_refl: "console_ok s \<Longrightarrow> on_screen s s"
  by (simp add: on_screen_def)

lemma on_screen_trans: "on_screen s s' \<Longrightarrow> on_screen s' s'' \<Longrightarrow> on_screen s s''"
  by (simp add: on_screen_def)

lemma on_screen_ok: "on_screen s s' \<Longrightarrow> console_ok s'"
  by (simp add: on_screen_def)

section \<open>Lemmas: input\<close>

lemma get_char_typed:
  "(typed (shift_pressed s) scs = [] \<longrightarrow> console_get_char scs s = None) \<and>
   (\<forall>c cs. typed (shift_pressed s) scs = c # cs \<longrightarrow>
     (\<exists>scs' b. console_get_char scs s = Some (c, scs', s\<lparr>shift_pressed := b\<rparr>) \<and> typed b scs' = cs))"
proof (induction scs s rule: console_get_char.induct)
  case (2 sc scs s)
  consider "sc = 0x2A \<or> sc = 0x36" | "sc = 0xAA \<or> sc = 0xB6"
    | "sc \<notin> {0x2A, 0x36, 0xAA, 0xB6}" "key_char (shift_pressed s) sc = 0"
    | "sc \<notin> {0x2A, 0x36, 0xAA, 0xB6}" "key_char (shift_pressed s) sc \<noteq> 0"
    by auto
  then show ?case
  proof cases
    case 1
    then show ?thesis using "2.IH"(1) by auto
  next
    case 2
    then show ?thesis using "2.IH"(2) by auto
  next
    case 3
    then have "console_get_char (sc # scs) s = console_get_char scs s"
      by (auto simp: key_char_def Let_def split: if_splits)
    moreover have "typed (shift_pressed s) (sc # scs) = typed (shift_pressed s) scs" using 3 by auto
    moreover have "(typed (shift_pressed s) scs = [] \<longrightarrow> console_get_char scs s = None) \<and>
      (\<forall>c cs. typed (shift_pressed s) scs = c # cs \<longrightarrow>
        (\<exists>scs' b. console_get_char scs s = Some (c, scs', s\<lparr>shift_pressed := b\<rparr>) \<and> typed b scs' = cs))"
      using 3 "2.IH"(3,4,5) by (auto simp: key_char_def split: if_splits)
    ultimately show ?thesis by simp
  next
    case 4
    then have "console_get_char (sc # scs) s = Some (key_char (shift_pressed s) sc, scs, s)"
      by (auto simp: key_char_def Let_def split: if_splits)
    moreover have "typed (shift_pressed s) (sc # scs) = key_char (shift_pressed s) sc # typed (shift_pressed s) scs" using 4 by auto
    ultimately show ?thesis by (auto intro!: exI [of _ "shift_pressed s"])
  qed
qed simp

lemma shift_swap:
  "s\<lparr>shift_pressed := b, video := v\<rparr> = s\<lparr>video := v, shift_pressed := b\<rparr>"
  "s\<lparr>shift_pressed := b, cursor := i\<rparr> = s\<lparr>cursor := i, shift_pressed := b\<rparr>"
  by simp_all

lemma fold_shift:
  "(\<And>x s. f x (s\<lparr>shift_pressed := b\<rparr>) = (f x s)\<lparr>shift_pressed := b\<rparr>) \<Longrightarrow>
   fold f xs (s\<lparr>shift_pressed := b\<rparr>) = (fold f xs s)\<lparr>shift_pressed := b\<rparr>"
  by (induction xs arbitrary: s) simp_all

lemma scroll_shift: "scroll_up (s\<lparr>shift_pressed := b\<rparr>) = (scroll_up s)\<lparr>shift_pressed := b\<rparr>"
  unfolding scroll_up_def Let_def by (subst fold_shift, (rule fold_shift)?, simp)+ (rule refl)

lemma putchar_shift [simp]:
  "console_putchar c (s\<lparr>shift_pressed := b\<rparr>) = (console_putchar c s)\<lparr>shift_pressed := b\<rparr>"
  unfolding console_putchar_def Let_def by (simp add: shift_swap scroll_shift)

lemma print_shift [simp]: "console_print cs (s\<lparr>shift_pressed := b\<rparr>) = (console_print cs s)\<lparr>shift_pressed := b\<rparr>"
  by (induction cs arbitrary: s) (simp_all add: console_print_def)

lemma print_Cons: "console_print (c # cs) s = console_print cs (console_putchar c s)" "console_print [] s = s"
  by (simp_all add: console_print_def)

lemma print_append: "console_print (xs @ ys) s = console_print ys (console_print xs s)"
  by (simp add: console_print_def)

lemma read_line_loop_edits:
  assumes "typed (shift_pressed s) scs = cs @ 0x0A # rest" and "0x0A \<notin> set cs"
    and "take (length line) buffer = line" and "length line \<le> n" and "n < length buffer"
  shows "\<exists>buffer' scs' b. read_line_loop (int n + 1) (int (length line)) buffer scs s =
      Some (buffer', scs', (console_print (echo n (length line) cs @ [0x0A]) s)\<lparr>shift_pressed := b\<rparr>) \<and>
    typed b scs' = rest \<and> length buffer' = length buffer \<and>
    take (length (edit n line cs) + 1) buffer' = edit n line cs @ [0] \<and> length (edit n line cs) \<le> n"
  using assms
proof (induction cs arbitrary: scs s line buffer)
  case Nil
  obtain scs' b where g: "console_get_char scs s = Some (0x0A, scs', s\<lparr>shift_pressed := b\<rparr>)" "typed b scs' = rest"
    using get_char_typed [of s scs] Nil.prems(1) by auto
  have "take (length line + 1) (buffer[length line := 0]) = line @ [0]"
    using Nil.prems(3-5) by (simp add: take_Suc_conv_app_nth)
  then show ?case using g Nil.prems by (subst read_line_loop.simps) (auto simp: print_Cons)
next
  case (Cons c cs)
  obtain scs' b where g: "console_get_char scs s = Some (c, scs', s\<lparr>shift_pressed := b\<rparr>)" "typed b scs' = cs @ 0x0A # rest"
    using get_char_typed [of s scs] Cons.prems(1) by auto
  have c: "c \<noteq> 0x0A" "0x0A \<notin> set cs" using Cons.prems(2) by auto
  have step: ?case
    if rl: "read_line_loop (int n + 1) (int (length line)) buffer scs s =
        read_line_loop (int n + 1) (int (length line')) buffer2 scs' (console_print p (s\<lparr>shift_pressed := b\<rparr>))"
      and l: "take (length line') buffer2 = line'" "length line' \<le> n" "length buffer2 = length buffer"
      and e: "edit n line (c # cs) = edit n line' cs" "echo n (length line) (c # cs) = p @ echo n (length line') cs"
    for line' buffer2 p
  proof -
    have "\<exists>buffer' scs'' b'. read_line_loop (int n + 1) (int (length line')) buffer2 scs' (console_print p (s\<lparr>shift_pressed := b\<rparr>)) =
        Some (buffer', scs'', (console_print (echo n (length line') cs @ [0x0A]) (console_print p (s\<lparr>shift_pressed := b\<rparr>)))\<lparr>shift_pressed := b'\<rparr>) \<and>
      typed b' scs'' = rest \<and> length buffer' = length buffer2 \<and>
      take (length (edit n line' cs) + 1) buffer' = edit n line' cs @ [0] \<and> length (edit n line' cs) \<le> n"
      using g(2) l Cons.prems(5) by (intro Cons.IH [OF _ c(2)]) simp_all
    moreover have "(console_print (echo n (length line') cs @ [0x0A]) (console_print p (s\<lparr>shift_pressed := b\<rparr>)))\<lparr>shift_pressed := b'\<rparr> =
        (console_print ((p @ echo n (length line') cs) @ [0x0A]) s)\<lparr>shift_pressed := b'\<rparr>" for b'
      by (simp add: print_append)
    ultimately show ?thesis unfolding rl e l(3) by (simp only:)
  qed
  consider (erase) "c = 0x08" "line \<noteq> []" | (nothing) "c = 0x08" "line = []" | (put) "c \<noteq> 0x08" "length line < n" | (full) "c \<noteq> 0x08" "length line = n"
    using Cons.prems(4) by fastforce
  then show ?case
  proof cases
    case erase
    then obtain l x where l: "line = l @ [x]" by (metis rev_exhaust)
    have "take (length l) buffer = l" using arg_cong [OF Cons.prems(3), of "take (length l)"] l by simp
    then show ?thesis using erase(1) c(1) g(1) Cons.prems(4) l
      by (intro step [of l buffer "[0x08]"]) (subst read_line_loop.simps, simp_all add: print_Cons)
  next
    case nothing
    then show ?thesis using c(1) g(1)
      by (intro step [of "[]" buffer "[]"]) (subst read_line_loop.simps, simp_all add: print_Cons)
  next
    case put
    then show ?thesis using c(1) g(1) Cons.prems(3,5)
      by (intro step [of "line @ [c]" "buffer[length line := c]" "[c]"])
        (subst read_line_loop.simps, simp_all add: print_Cons take_Suc_conv_app_nth add.commute [of 1])
  next
    case full
    then show ?thesis using c(1) g(1) Cons.prems(3,4)
      by (intro step [of line buffer "[]"]) (subst read_line_loop.simps, simp_all add: print_Cons)
  qed
qed

section \<open>Lemmas: formatted output\<close>

lemma ucast_add_u8: "(ucast (0x30 + x) :: u8) = ucast (x :: u32) + 0x30"
proof transfer
  fix x :: int
  have "(48 + x) mod 4294967296 mod 256 = (48 + x) mod 256" "x mod 4294967296 mod 256 = x mod 256"
    by (rule mod_mod_cancel, simp)+
  then show "take_bit LENGTH(8) (take_bit LENGTH(32) (48 + x)) = take_bit LENGTH(8) (take_bit LENGTH(32) x + 48)"
    by (simp add: take_bit_eq_mod) (metis add.commute mod_add_left_eq)
qed

lemma pf_digits_itoa: "0 \<le> sint num \<Longrightarrow> pf_digits num = itoa_digits num"
proof (induction num rule: pf_digits.induct)
  case (1 num)
  show ?case
  proof (cases "num = 0")
    case True
    then show ?thesis by (simp add: pf_digits.simps itoa_digits.simps)
  next
    case False
    then have "sint num \<noteq> 0" using sint_eq_iff [of num 0] by simp
    then have p: "0 < sint num" using "1.prems" by simp
    have "unat num < 2147483648" using "1.prems" by (simp only: sint_nonneg_iff)
    then have "0 \<le> sint (num div 10)" by (simp add: sint_nonneg_iff unat_div)
    then have "pf_digits (num div 10) = itoa_digits (num div 10)" using "1.IH" p by simp
    moreover have "(ucast (0x30 + x) :: u8) = ucast x + 0x30" for x :: u32
      by (rule ucast_add_u8)
    ultimately show ?thesis using p False by (subst pf_digits.simps, subst itoa_digits.simps) (simp add: word_gt_0)
  qed
qed

lemma print_on_screen: "console_ok s \<Longrightarrow> on_screen s (fold console_putchar cs s)"
  by (induction cs arbitrary: s) (auto simp: on_screen_refl intro: on_screen_trans putchar_on_screen on_screen_ok)

lemma console_ok_print: "console_ok s \<Longrightarrow> console_ok (fold console_putchar cs s)"
  using print_on_screen by (rule on_screen_ok)

lemma console_clear_eq:
  "2000 \<le> length (video s) \<Longrightarrow> console_clear s = s\<lparr>video := replicate 2000 (cell 0x20) @ drop 2000 (video s), cursor := 0\<rparr>"
  unfolding console_clear_def Let_def CONSOLE_WIDTH_def CONSOLE_HEIGHT_def using fill_row [of 0 2000 s "cell 0x20"] by simp

lemma blank_console_ok: "console_ok blank_console"
  by (simp add: blank_console_def console_ok_def)

lemma pf_int_decimal:
  assumes "n \<noteq> 0x80000000"
  shows "pf_int n = Some (decimal n)"
proof (cases "0 \<le> sint n")
  case True
  then show ?thesis by (simp add: pf_int_def decimal_def pf_digits_itoa)
next
  case False
  then have "0 \<le> sint (- n)" using s32_Some [OF s32_neg [OF assms]] by simp
  then show ?thesis using False s32_neg [OF assms] by (auto simp: pf_int_def decimal_def pf_digits_itoa)
qed

lemma pf_int_least: "pf_int 0x80000000 = None"
  using s32_neg_least by (simp add: pf_int_def)

lemma typed_nonzero: "0 \<notin> set (typed b scs)"
  by (induction scs arbitrary: b) auto

lemma edit_chars: "set (edit n line cs) \<subseteq> set line \<union> set cs"
proof (induction n line cs rule: edit.induct)
  case (2 n line c cs)
  then show ?case by (auto dest: in_set_butlastD)
qed simp

lemma edit_plain: "0x08 \<notin> set cs \<Longrightarrow> length line + length cs \<le> n \<Longrightarrow> edit n line cs = line @ cs"
  by (induction cs arbitrary: line) auto

lemma echo_plain: "0x08 \<notin> set cs \<Longrightarrow> i + length cs \<le> n \<Longrightarrow> echo n i cs = cs"
  by (induction cs arbitrary: i) auto

lemma shift_print_same: "shift_pressed (console_print cs s) = shift_pressed s"
proof -
  have "shift_pressed (console_print cs (s\<lparr>shift_pressed := shift_pressed s\<rparr>)) = shift_pressed s"
    unfolding print_shift by simp
  then show ?thesis by simp
qed

lemma get_char_on_screen:
  assumes "console_ok s" and "console_get_char scs s = Some (c, scs', s')"
  shows "on_screen s s' \<and> video s' = video s"
  using get_char_typed [of s scs] assms
  by (cases "typed (shift_pressed s) scs") (auto simp: on_screen_def console_ok_def)

lemma read_line_on_screen:
  assumes "console_ok s" and "read_line_loop n i buffer scs s = Some (buffer', scs', s')"
  shows "on_screen s s'"
  using assms
proof (induction n i buffer scs s rule: read_line_loop.induct)
  case (1 n i buffer scs s)
  obtain c scs1 s1 where g: "console_get_char scs s = Some (c, scs1, s1)"
    using 1(6) by (cases "console_get_char scs s") (auto simp: read_line_loop.simps [of n i buffer scs s])
  have s1: "on_screen s s1" "console_ok s1" using get_char_on_screen [OF 1(5) g] on_screen_ok by blast+
  have p: "on_screen s (console_putchar ch s1)" for ch using on_screen_trans [OF s1(1) putchar_on_screen [OF s1(2)]] .
  note r = 1(6) [unfolded read_line_loop.simps [of n i buffer scs s] g option.case prod.case]
  consider "c = 0x0A" | "c = 0x08" "0 < i" | "c = 0x08" "\<not> 0 < i" | "c \<noteq> 0x0A" "c \<noteq> 0x08" "i < n - 1" | "c \<noteq> 0x0A" "c \<noteq> 0x08" "\<not> i < n - 1"
    by blast
  then show ?case
  proof cases
    case 1
    then show ?thesis using r p [of "0x0A"] by auto
  next
    case 2
    then show ?thesis using "1.IH"(1) [OF g refl refl _ _ _ on_screen_ok [OF p]] r on_screen_trans [OF p] by simp
  next
    case 3
    then show ?thesis using "1.IH"(2) [OF g refl refl _ _ _ s1(2)] r on_screen_trans [OF s1(1)] by simp
  next
    case 4
    then show ?thesis using "1.IH"(3) [OF g refl refl _ _ _ on_screen_ok [OF p]] r on_screen_trans [OF p] by simp
  next
    case 5
    then show ?thesis using "1.IH"(4) [OF g refl refl _ _ _ s1(2)] r on_screen_trans [OF s1(1)] by simp
  qed
qed

section \<open>Properties\<close>

text \<open>
  C40: No operation of the console, reading a line included, moves the cursor off the screen or changes a cell
  of video memory behind its 2000 cells; \<open>console_clear\<close> blanks exactly the screen.
\<close>

theorem console_stays_on_screen:
  assumes "console_ok s"
  shows "on_screen s (console_putchar c s) \<and> on_screen s (console_print str s) \<and>
    (\<forall>s'. console_printf fmt args s = Some s' \<longrightarrow> on_screen s s') \<and>
    on_screen s (console_clear s) \<and> take 2000 (video (console_clear s)) = replicate 2000 (cell 0x20) \<and> cursor (console_clear s) = 0 \<and>
    (\<forall>c' scs scs' s'. console_get_char scs s = Some (c', scs', s') \<longrightarrow> on_screen s s' \<and> video s' = video s) \<and>
    (\<forall>buffer n scs buffer' scs' s'. console_read_line buffer n scs s = Some (buffer', scs', s') \<longrightarrow> on_screen s s')"
proof -
  have "console_clear s = s\<lparr>video := replicate 2000 (cell 0x20) @ drop 2000 (video s), cursor := 0\<rparr>"
    using assms by (intro console_clear_eq) (simp add: console_ok_def)
  then have "on_screen s (console_clear s)" "take 2000 (video (console_clear s)) = replicate 2000 (cell 0x20)" "cursor (console_clear s) = 0"
    using assms by (simp_all add: on_screen_def console_ok_def)
  then show ?thesis
    using putchar_on_screen [OF assms] print_on_screen [OF assms] get_char_on_screen [OF assms] read_line_on_screen [OF assms]
    unfolding console_print_def console_printf_def console_read_line_def by blast
qed

theorem console_stays_on_screen_witness:
  "drop 2000 (video (console_print (cstr ''hello'') blank_console)) = replicate 14384 0 \<and> console_ok (console_clear blank_console)"
proof -
  have "on_screen blank_console (console_print (cstr ''hello'') blank_console) \<and> on_screen blank_console (console_clear blank_console)"
    using console_stays_on_screen [OF blank_console_ok] by blast
  then show ?thesis by (simp add: on_screen_def) (simp add: blank_console_def)
qed

text \<open>
  A character goes to the cell at the cursor and a newline to the start of the next row; on the
  last row of the screen both scroll: all rows move up by one, the last one is blank and the memory
  behind the screen is as it was.
\<close>

theorem putchar_scrolls:
  assumes "console_ok s" and "c \<noteq> 0x08"
  shows "(cursor s < 1999 \<and> c \<noteq> 0x0A \<longrightarrow>
      console_putchar c s = s\<lparr>video := (video s)[nat (cursor s) := cell c], cursor := cursor s + 1\<rparr>) \<and>
    (cursor s < 1920 \<and> c = 0x0A \<longrightarrow> console_putchar c s = s\<lparr>cursor := (cursor s div 80 + 1) * 80\<rparr>) \<and>
    (1920 \<le> cursor s \<and> c = 0x0A \<longrightarrow>
      console_putchar c s = s\<lparr>video := take 1920 (drop 80 (video s)) @ replicate 80 (cell 0x20) @ drop 2000 (video s), cursor := 1920\<rparr>) \<and>
    (cursor s = 1999 \<and> c \<noteq> 0x0A \<longrightarrow>
      console_putchar c s = s\<lparr>video := take 1920 (drop 80 ((video s)[1999 := cell c])) @ replicate 80 (cell 0x20) @ drop 2000 (video s), cursor := 1920\<rparr>)"
  using assms(2) unfolding putchar_cases [OF assms(1)] Let_def scrolled_def blank_row_def
  using assms(1) by (auto simp: console_ok_def)

theorem putchar_scrolls_witness:
  "console_putchar 0x41 blank_console = blank_console\<lparr>video := (replicate 16384 0)[0 := cell 0x41], cursor := 1\<rparr>"
  using putchar_scrolls [OF blank_console_ok, of "0x41"] by (simp add: blank_console_def)

text \<open>
  \<open>console_printf\<close> prints an \<open>int\<close> as \<open>itoa\<close> does, and like \<open>itoa\<close> it is undefined for the least one.
\<close>

theorem printf_int_is_itoa: "printf_chars (cstr ''%d'') [IntArg n] = itoa n"
  by (cases "n = 0x80000000") (simp_all add: cstr_def pf_int_decimal pf_int_least itoa_decimal itoa_least)

text \<open>
  C33: \<open>console_read_line\<close> returns when the typed characters contain a newline; the buffer then holds the
  edited line, at most \<open>max_len - 1\<close> characters, and its terminator, the screen shows the echo, and
  the scancodes after the newline are left for the next read.
\<close>

theorem read_line_edits:
  assumes "typed (shift_pressed s) scs = cs @ 0x0A # rest" and "0x0A \<notin> set cs" and "n < length buffer"
  shows "\<exists>buffer' scs' b. console_read_line buffer (int n + 1) scs s =
      Some (buffer', scs', (console_print (echo n 0 cs @ [0x0A]) s)\<lparr>shift_pressed := b\<rparr>) \<and>
    typed b scs' = rest \<and> length buffer' = length buffer \<and>
    take (length (edit n [] cs) + 1) buffer' = edit n [] cs @ [0] \<and> length (edit n [] cs) \<le> n"
  using read_line_loop_edits [OF assms(1,2), of "[]" buffer n] assms(3) unfolding console_read_line_def by simp

theorem read_line_edits_witness:
  "\<exists>buffer' scs' s'. console_read_line (replicate 64 0) 64 [0x26, 0x1F, 0x1C] blank_console = Some (buffer', scs', s') \<and>
    take 3 buffer' = cstr ''ls'' @ [0]"
proof -
  have "typed (shift_pressed blank_console) [0x26, 0x1F, 0x1C] = cstr ''ls'' @ 0x0A # []"
    by (simp add: blank_console_def key_char_def scancode_map_def cstr_def)
  moreover have "0x0A \<notin> set (cstr ''ls'')" by (simp add: cstr_def)
  ultimately show ?thesis
    using read_line_edits [of blank_console "[0x26, 0x1F, 0x1C]" "cstr ''ls''" "[]" 63 "replicate 64 0"] by (auto simp: cstr_def numeral_3_eq_3)
qed

end
