(* ===== verification/Paging.thy ===== *)
theory Paging
  imports KHeap
begin

text \<open>
  Physical frames and page tables (\<open>src/kernel/paging/paging.c\<close>). The page directory and the frame
  bitmap are the arrays of the source; page tables are words in memory. \<open>paging_init\<close> runs before paging is on and writes memory by address;
  after that \<open>map_page\<close> and \<open>memset\<close> reach page tables and frames through the page tables themselves, so that
  a frame outside the identity mapping is a page fault.
\<close>

unbundle bit_operations_syntax

section \<open>State\<close>

record paging =
  page_directory :: "u32 list"
  frame_bitmap :: "u32 list"
  memory :: "u32 \<Rightarrow> u8"

definition PAGE_PRESENT :: u32 where
  "PAGE_PRESENT = 0x1"

definition PAGE_RW :: u32 where
  "PAGE_RW = 0x2"

definition PAGE_USER :: u32 where
  "PAGE_USER = 0x4"

definition PAGE_SIZE :: u32 where
  "PAGE_SIZE = 4096"

definition TOTAL_FRAMES :: nat where
  "TOTAL_FRAMES = 16384"

definition BITMAP_SIZE :: nat where
  "BITMAP_SIZE = 512"

section \<open>The frame bitmap\<close>

definition bitmap_set :: "u32 \<Rightarrow> paging \<Rightarrow> paging" where
  "bitmap_set frame_idx s =
     s\<lparr>frame_bitmap := (frame_bitmap s)[unat (frame_idx div 32) :=
         frame_bitmap s ! unat (frame_idx div 32) OR push_bit (unat (frame_idx mod 32)) 1]\<rparr>"

definition bitmap_clear :: "u32 \<Rightarrow> paging \<Rightarrow> paging" where
  "bitmap_clear frame_idx s =
     s\<lparr>frame_bitmap := (frame_bitmap s)[unat (frame_idx div 32) :=
         frame_bitmap s ! unat (frame_idx div 32) AND NOT (push_bit (unat (frame_idx mod 32)) 1)]\<rparr>"

definition bitmap_test :: "u32 \<Rightarrow> paging \<Rightarrow> bool" where
  "bitmap_test frame_idx s \<longleftrightarrow>
     frame_bitmap s ! unat (frame_idx div 32) AND push_bit (unat (frame_idx mod 32)) 1 \<noteq> 0"

text \<open>The search of \<open>alloc_frame\<close> from frame \<open>i\<close> on; address 0 is \<open>NULL\<close>.\<close>

function alloc_loop :: "nat \<Rightarrow> paging \<Rightarrow> paging \<times> u32" where
  "alloc_loop i s =
     (if i < TOTAL_FRAMES then
        if \<not> bitmap_test (of_nat i) s then (bitmap_set (of_nat i) s, of_nat i * PAGE_SIZE)
        else alloc_loop (Suc i) s
      else (s, 0))"
  by auto
termination by (relation "measure (\<lambda>(i, s). TOTAL_FRAMES - i)") auto

definition alloc_frame :: "paging \<Rightarrow> paging \<times> u32" where
  "alloc_frame s = alloc_loop 0 s"

definition free_frame :: "u32 \<Rightarrow> paging \<Rightarrow> paging" where
  "free_frame physaddr s = bitmap_clear (physaddr div PAGE_SIZE) s"

section \<open>Page tables\<close>

text \<open>The entries of one of the four preallocated tables, with the running \<open>address\<close>.\<close>

definition init_table :: "u32 \<Rightarrow> paging \<times> u32 \<Rightarrow> paging \<times> u32" where
  "init_table tbl sa =
     fold (\<lambda>entry_idx (s, address).
         (s\<lparr>memory := st32 (tbl + of_nat (4 * entry_idx)) (address OR (PAGE_PRESENT OR PAGE_RW)) (memory s)\<rparr>,
          address + PAGE_SIZE)) [0..<1024] sa"

text \<open>\<open>tables\<close> is the address that the linker gives to \<open>first_page_tables\<close>.\<close>

definition paging_init :: "u32 \<Rightarrow> u32 \<Rightarrow> paging \<Rightarrow> paging" where
  "paging_init tables kernel_end_paddr s =
     (let s = fold (\<lambda>i s. s\<lparr>page_directory := (page_directory s)[i := 0x00000002]\<rparr>) [0..<1024] s;
          s = fold (\<lambda>i s. s\<lparr>frame_bitmap := (frame_bitmap s)[i := 0]\<rparr>) [0..<BITMAP_SIZE] s;
          reserved_end_page = (kernel_end_paddr + PAGE_SIZE - 1) div PAGE_SIZE;
          s = fold (\<lambda>i. bitmap_set (of_nat i)) [0..<unat reserved_end_page] s
      in fst (fold (\<lambda>table_idx (s, address).
           (let tbl = tables + of_nat (4096 * table_idx);
                (s, address) = init_table tbl (s, address)
            in (s\<lparr>page_directory := (page_directory s)[table_idx :=
                  tbl OR (PAGE_PRESENT OR PAGE_RW OR PAGE_USER)]\<rparr>, address))) [0..<4] (s, 0)))"

section \<open>Memory through the page tables\<close>

text \<open>The address translation of the processor: directory entry, table entry, offset.\<close>

definition pde :: "paging \<Rightarrow> u32 \<Rightarrow> u32" where
  "pde s v = page_directory s ! unat (drop_bit 22 v)"

definition pte_addr :: "u32 \<Rightarrow> u32 \<Rightarrow> u32" where
  "pte_addr e v = (e AND NOT 0xFFF) + 4 * (drop_bit 12 v AND 0x3FF)"

definition translate :: "paging \<Rightarrow> u32 \<Rightarrow> u32 option" where
  "translate s v =
     (if pde s v AND 1 = 0 then None
      else
        (let pte = ld32 (memory s) (pte_addr (pde s v) v) in
         if pte AND 1 = 0 then None else Some ((pte AND NOT 0xFFF) OR (v AND 0xFFF))))"

text \<open>
  With paging on, a pointer of the kernel is a virtual address: an aligned word, and the bytes that
  \<open>memset\<close> writes, reach the frame that the tables name at that moment; \<open>None\<close> is a page
  fault, which the kernel does not survive.
\<close>

definition store32_at :: "u32 \<Rightarrow> u32 \<Rightarrow> paging \<Rightarrow> paging option" where
  "store32_at a v s = map_option (\<lambda>pa. s\<lparr>memory := st32 pa v (memory s)\<rparr>) (translate s a)"

primrec memset_at :: "nat \<Rightarrow> u32 \<Rightarrow> u8 \<Rightarrow> paging \<Rightarrow> paging option" where
  "memset_at 0 dest v s = Some s"
| "memset_at (Suc n) dest v s =
     Option.bind (map_option (\<lambda>pa. s\<lparr>memory := (memory s)(pa := v)\<rparr>) (translate s dest)) (memset_at n (dest + 1) v)"

section \<open>Mapping\<close>

definition map_page :: "u32 \<Rightarrow> u32 \<Rightarrow> u32 \<Rightarrow> paging \<Rightarrow> paging option" where
  "map_page physaddr virtualaddr flags s =
     (let pd_idx = unat (drop_bit 22 virtualaddr);
          pt_idx = drop_bit 12 virtualaddr AND 0x3FF;
          put = (\<lambda>page_table. store32_at (page_table + 4 * pt_idx) ((physaddr AND NOT 0xFFF) OR (flags AND 0xFFF)))
      in if page_directory s ! pd_idx AND PAGE_PRESENT \<noteq> 0 then put (page_directory s ! pd_idx AND NOT 0xFFF) s
         else
           (let (s, new_table_frame) = alloc_frame s in
            if new_table_frame = 0 then Some s
            else
              Option.bind (fold (\<lambda>i r. Option.bind r (store32_at (new_table_frame + of_nat (4 * i)) 0)) [0..<1024] (Some s))
                (\<lambda>s. put new_table_frame (s\<lparr>page_directory := (page_directory s)[pd_idx :=
                         new_table_frame OR (PAGE_PRESENT OR PAGE_RW OR PAGE_USER)]\<rparr>))))"

text \<open>The loop over the pages of a block; \<open>None\<close> is a page fault or a loop that never ends.\<close>

partial_function (option) map_user_loop :: "u32 \<Rightarrow> u32 \<Rightarrow> paging \<Rightarrow> paging option" where
  "map_user_loop vaddr end_vaddr s =
     (if vaddr < end_vaddr then
        (let (s, phys_frame) = alloc_frame s in
         if phys_frame = 0 then map_user_loop (vaddr + PAGE_SIZE) end_vaddr s
         else
           Option.bind (memset_at 4096 phys_frame 0 s)
             (\<lambda>s. Option.bind (map_page phys_frame vaddr (PAGE_PRESENT OR PAGE_RW OR PAGE_USER) s)
               (map_user_loop (vaddr + PAGE_SIZE) end_vaddr)))
      else Some s)"

definition paging_map_user_memory :: "u32 \<Rightarrow> u32 \<Rightarrow> paging \<Rightarrow> paging option" where
  "paging_map_user_memory virtual_address sz s =
     (if sz = 0 then Some s
      else
        map_user_loop (virtual_address AND NOT (PAGE_SIZE - 1))
          ((virtual_address + sz + PAGE_SIZE - 1) AND NOT (PAGE_SIZE - 1)) s)"

section \<open>Specification\<close>

definition used_frame :: "paging \<Rightarrow> nat \<Rightarrow> bool" where
  "used_frame s i \<longleftrightarrow> bit (frame_bitmap s ! (i div 32)) (i mod 32)"

definition free_frames :: "paging \<Rightarrow> nat set" where
  "free_frames s = {i. i < TOTAL_FRAMES \<and> \<not> used_frame s i}"

text \<open>
  The invariant of the page tables: the arrays have their size, frame 0 is in use, and the tables
  that the directory refers to are different frames, all of them in use.
\<close>

definition table_frame :: "paging \<Rightarrow> nat \<Rightarrow> nat" where
  "table_frame s i = unat (page_directory s ! i) div 4096"

definition present :: "paging \<Rightarrow> nat \<Rightarrow> bool" where
  "present s i \<longleftrightarrow> i < 1024 \<and> page_directory s ! i AND 1 \<noteq> 0"

definition paging_ok :: "paging \<Rightarrow> bool" where
  "paging_ok s \<longleftrightarrow> length (page_directory s) = 1024 \<and> length (frame_bitmap s) = BITMAP_SIZE \<and> used_frame s 0 \<and>
     (\<forall>i. present s i \<longrightarrow> table_frame s i < TOTAL_FRAMES \<and> used_frame s (table_frame s i)) \<and>
     (\<forall>i j. present s i \<longrightarrow> present s j \<longrightarrow> table_frame s i = table_frame s j \<longrightarrow> i = j)"

text \<open>
  Where the kernel may use a frame by its address: the first 16 MB are mapped to themselves, and all page tables are
  there. \<open>low_frames\<close> are the free frames in this range.
\<close>

definition direct_map :: "paging \<Rightarrow> bool" where
  "direct_map s \<longleftrightarrow> (\<forall>u. unat u < 16777216 \<longrightarrow> translate s u = Some u) \<and> (\<forall>i. present s i \<longrightarrow> table_frame s i < 4096)"

definition low_frames :: "paging \<Rightarrow> nat set" where
  "low_frames s = {i. i < 4096 \<and> i \<in> free_frames s}"

text \<open>There the stores of \<open>map_page\<close> and \<open>memset\<close> are stores to memory, and \<open>map_page\<close> is this function.\<close>

definition map_page_direct :: "u32 \<Rightarrow> u32 \<Rightarrow> u32 \<Rightarrow> paging \<Rightarrow> paging" where
  "map_page_direct physaddr virtualaddr flags s =
     (let pd_idx = unat (drop_bit 22 virtualaddr);
          pt_idx = drop_bit 12 virtualaddr AND 0x3FF;
          put = (\<lambda>page_table s. s\<lparr>memory := st32 (page_table + 4 * pt_idx)
                   ((physaddr AND NOT 0xFFF) OR (flags AND 0xFFF)) (memory s)\<rparr>)
      in if page_directory s ! pd_idx AND PAGE_PRESENT \<noteq> 0 then put (page_directory s ! pd_idx AND NOT 0xFFF) s
         else
           (let (s, new_table_frame) = alloc_frame s in
            if new_table_frame = 0 then s
            else
              (let s = fold (\<lambda>i s. s\<lparr>memory := st32 (new_table_frame + of_nat (4 * i)) 0 (memory s)\<rparr>) [0..<1024] s;
                   s = s\<lparr>page_directory := (page_directory s)[pd_idx :=
                         new_table_frame OR (PAGE_PRESENT OR PAGE_RW OR PAGE_USER)]\<rparr>
               in put new_table_frame s)))"

text \<open>\<open>memset\<close> on memory.\<close>

primrec fill_ram :: "nat \<Rightarrow> u32 \<Rightarrow> u8 \<Rightarrow> (u32 \<Rightarrow> u8) \<Rightarrow> (u32 \<Rightarrow> u8)" where
  "fill_ram 0 dest v m = m"
| "fill_ram (Suc n) dest v m = fill_ram n (dest + 1) v (m(dest := v))"

text \<open>The directory index and the page number of an address, and the place of its page table entry.\<close>

definition pd_of :: "u32 \<Rightarrow> nat" where
  "pd_of v = unat v div 4194304"

definition page_of :: "u32 \<Rightarrow> nat" where
  "page_of v = unat v div 4096"

definition slot :: "paging \<Rightarrow> u32 \<Rightarrow> nat" where
  "slot s v = table_frame s (pd_of v) * 4096 + 4 * (page_of v mod 1024)"

text \<open>
  A frame in use that is no page table, and the change from one state to another that keeps the
  contents of all of them.
\<close>

definition data_frame :: "paging \<Rightarrow> nat \<Rightarrow> bool" where
  "data_frame s i \<longleftrightarrow> i < TOTAL_FRAMES \<and> used_frame s i \<and> (\<forall>j. present s j \<longrightarrow> table_frame s j \<noteq> i)"

definition keeps :: "paging \<Rightarrow> paging \<Rightarrow> bool" where
  "keeps s s' \<longleftrightarrow> (\<forall>i. data_frame s i \<longrightarrow> data_frame s' i \<and>
     (\<forall>x < 4294967296. x div 4096 = i \<longrightarrow> memory s' (of_nat x) = memory s (of_nat x)))"

text \<open>
  Pages \<open>P, ..., P + n - 1\<close> lead to the frames \<open>F\<close> below 16 MB, which were free before and are zero now; no
  other address is translated differently, no other data frame changes, and at most two frames per page
  are taken.
\<close>

definition user_mapped :: "paging \<Rightarrow> nat \<Rightarrow> nat \<Rightarrow> paging \<Rightarrow> nat list \<Rightarrow> bool" where
  "user_mapped s P n s' F \<longleftrightarrow> paging_ok s' \<and> direct_map s' \<and> length F = n \<and> distinct F \<and> set F \<subseteq> low_frames s \<and>
     (\<forall>u. translate s' u = (if P \<le> page_of u \<and> page_of u < P + n
        then Some (of_nat (4096 * F ! (page_of u - P)) OR (u AND 0xFFF)) else translate s u)) \<and>
     (\<forall>x < 4294967296. x div 4096 \<in> set F \<longrightarrow> memory s' (of_nat x) = 0) \<and> (\<forall>i \<in> set F. data_frame s' i) \<and>
     keeps s s' \<and> card (free_frames s) \<le> card (free_frames s') + 2 * n \<and> card (low_frames s) \<le> card (low_frames s') + 2 * n"

text \<open>The state after the boot of a kernel that ends at 2 MB.\<close>

definition boot_paging :: paging where
  "boot_paging = paging_init 0x100000 0x200000
     \<lparr>page_directory = replicate 1024 0, frame_bitmap = replicate 512 0, memory = \<lambda>_. 0\<rparr>"

section \<open>Lemmas: words as page numbers\<close>

lemma mask_FFF: "0xFFF = (mask 12 :: u32)" "0x3FF = (mask 10 :: u32)"
  by (simp_all add: mask_eq_exp_minus_1)

lemma unat_page_base: "unat (x AND NOT 0xFFF :: u32) = unat x div 4096 * 4096"
proof -
  have "x AND NOT (mask 12) = push_bit 12 (drop_bit 12 x)"
    by (rule bit_word_eqI) (auto simp: bit_simps)
  then have "x AND NOT 0xFFF = x div 4096 * 4096" unfolding mask_FFF by (simp add: push_bit_eq_mult drop_bit_eq_div)
  moreover have "unat x div 4096 * 4096 < 4294967296" using div_times_less_eq_dividend [of "unat x" 4096] unat_u32_less [of x] by linarith
  ultimately show ?thesis by (simp add: unat_mult_u32 unat_div)
qed

lemma unat_page_offset: "unat (x AND 0xFFF :: u32) = unat x mod 4096"
proof -
  have "x AND 0xFFF = take_bit 12 x" unfolding mask_FFF by (simp add: take_bit_eq_mask)
  then show ?thesis by (simp add: take_bit_eq_mod unat_mod)
qed

lemma unat_pd_idx: "unat (drop_bit 22 v :: u32) = unat v div 4194304"
  by (simp add: drop_bit_eq_div unat_div)

lemma unat_pt_idx: "unat (drop_bit 12 v AND 0x3FF :: u32) = unat v div 4096 mod 1024"
proof -
  have "drop_bit 12 v AND 0x3FF = take_bit 10 (drop_bit 12 v)" unfolding mask_FFF by (simp add: take_bit_eq_mask)
  then show ?thesis by (simp add: take_bit_eq_mod drop_bit_eq_div unat_mod unat_div)
qed

lemma pd_idx_less: "unat (v :: u32) div 4194304 < 1024"
  using unat_u32_less [of v] by (simp add: less_mult_imp_div_less)

lemma pte_addr_nat: "pte_addr e v = of_nat (unat e div 4096 * 4096 + 4 * (unat v div 4096 mod 1024))"
proof -
  have "pte_addr e v = of_nat (unat (e AND NOT 0xFFF)) + 4 * of_nat (unat (drop_bit 12 v AND 0x3FF))"
    unfolding pte_addr_def by (simp del: of_nat_mult)
  then show ?thesis unfolding unat_page_base unat_pt_idx by (simp add: ac_simps)
qed

lemma or_add_u32:
  assumes "x AND y = 0"
  shows "x OR y = x + (y :: u32)"
proof (rule disjunctive_add [symmetric])
  fix n
  have "\<not> bit (x AND y) n" using assms by simp
  then show "\<not> bit x n \<or> \<not> bit y n" by (simp add: bit_simps)
qed

lemma page_plus_offset: "unat ((x AND NOT 0xFFF) OR (v AND 0xFFF) :: u32) = unat x div 4096 * 4096 + unat v mod 4096"
proof -
  have "(x AND NOT 0xFFF) AND (v AND 0xFFF) = 0" by (rule bit_word_eqI) (auto simp: bit_simps mask_FFF)
  then have "(x AND NOT 0xFFF) OR (v AND 0xFFF) = (x AND NOT 0xFFF) + (v AND 0xFFF)" by (simp add: or_add_u32)
  moreover have "unat x div 4096 * 4096 + unat v mod 4096 < 4294967296"
  proof -
    have "unat x div 4096 \<le> 1048575" using unat_u32_less [of x] by linarith
    moreover have "unat v mod 4096 < 4096" by simp
    ultimately show ?thesis by linarith
  qed
  ultimately show ?thesis
    using unat_add_u32 [of "x AND NOT 0xFFF" "v AND 0xFFF"] unfolding unat_page_base unat_page_offset by presburger
qed

lemma entry_of_page:
  "((x AND NOT 0xFFF) OR (f AND 0xFFF) :: u32) AND NOT 0xFFF = x AND NOT 0xFFF"
  "((x AND NOT 0xFFF) OR (f AND 0xFFF) :: u32) AND 1 = f AND 1"
  by (rule bit_word_eqI; auto simp: bit_simps mask_FFF)+

lemma page_entry:
  assumes "f < 1048576"
  shows "unat (of_nat (4096 * f) OR 7 :: u32) = 4096 * f + 7" "(of_nat (4096 * f) OR 7 :: u32) AND 1 \<noteq> 0"
proof -
  have u: "unat (of_nat (4096 * f) :: u32) = 4096 * f" using assms by (intro unat_of_nat_u32) simp
  have m: "7 = (mask 3 :: u32)" by (simp add: mask_eq_exp_minus_1)
  have "(of_nat (4096 * f) :: u32) = push_bit 12 (of_nat f)" by (simp add: push_bit_eq_mult mult.commute)
  then have "(of_nat (4096 * f) :: u32) AND 7 = 0"
    unfolding m by (auto simp: bit_eq_iff bit_simps)
  then have "of_nat (4096 * f) OR 7 = (of_nat (4096 * f) + 7 :: u32)" by (simp add: or_add_u32)
  then show "unat (of_nat (4096 * f) OR 7 :: u32) = 4096 * f + 7" using assms u by (simp add: unat_add_u32)
  show "(of_nat (4096 * f) OR 7 :: u32) AND 1 \<noteq> 0"
    by (auto simp: bit_eq_iff bit_simps intro!: exI [of _ 0])
qed

section \<open>Lemmas: the frame bitmap\<close>

lemma frame_word:
  assumes "i < TOTAL_FRAMES"
  shows "unat (of_nat i div 32 :: u32) = i div 32" "unat (of_nat i mod 32 :: u32) = i mod 32" "i div 32 < BITMAP_SIZE"
  using assms by (simp_all add: unat_div unat_mod unat_of_nat_u32 TOTAL_FRAMES_def BITMAP_SIZE_def less_mult_imp_div_less)

lemma same_bit: "i div 32 = j div 32 \<Longrightarrow> i mod 32 = j mod 32 \<Longrightarrow> i = (j :: nat)"
  by (metis div_mult_mod_eq)

lemma same_bit_iff: "i div 32 = j div 32 \<Longrightarrow> j mod 32 = i mod 32 \<longleftrightarrow> j = (i :: nat)"
  using same_bit by metis

lemma bitmap_test_used: "i < TOTAL_FRAMES \<Longrightarrow> bitmap_test (of_nat i) s \<longleftrightarrow> used_frame s i"
  unfolding bitmap_test_def used_frame_def frame_word by (simp add: push_bit_of_1 and_exp_eq_0_iff_not_bit)

lemma bit_set_clear:
  "n < 32 \<Longrightarrow> bit (w OR 2 ^ k :: u32) n \<longleftrightarrow> bit w n \<or> n = k"
  "n < 32 \<Longrightarrow> bit (w AND NOT (2 ^ k) :: u32) n \<longleftrightarrow> bit w n \<and> n \<noteq> k"
  by (auto simp: bit_or_iff bit_and_iff bit_not_iff bit_exp_iff)

lemma used_bitmap_set:
  assumes "length (frame_bitmap s) = BITMAP_SIZE" and "i < TOTAL_FRAMES" and "j < TOTAL_FRAMES"
  shows "used_frame (bitmap_set (of_nat i) s) j \<longleftrightarrow> j = i \<or> used_frame s j"
proof (cases "i div 32 = j div 32")
  case True
  have "used_frame (bitmap_set (of_nat i) s) j \<longleftrightarrow> bit (frame_bitmap s ! (j div 32) OR 2 ^ (i mod 32)) (j mod 32)"
    using assms(1) frame_word(3) [OF assms(3)]
    unfolding bitmap_set_def used_frame_def frame_word [OF assms(2)] True by (simp add: push_bit_of_1)
  also have "\<dots> \<longleftrightarrow> j = i \<or> used_frame s j"
    unfolding used_frame_def bit_set_clear [OF mod_less_divisor [OF zero_less_numeral]] same_bit_iff [OF True] by blast
  finally show ?thesis .
next
  case False
  then show ?thesis unfolding bitmap_set_def used_frame_def frame_word [OF assms(2)] by auto
qed

lemma used_bitmap_clear:
  assumes "length (frame_bitmap s) = BITMAP_SIZE" and "i < TOTAL_FRAMES" and "j < TOTAL_FRAMES"
  shows "used_frame (bitmap_clear (of_nat i) s) j \<longleftrightarrow> j \<noteq> i \<and> used_frame s j"
proof (cases "i div 32 = j div 32")
  case True
  have "used_frame (bitmap_clear (of_nat i) s) j \<longleftrightarrow> bit (frame_bitmap s ! (j div 32) AND NOT (2 ^ (i mod 32))) (j mod 32)"
    using assms(1) frame_word(3) [OF assms(3)]
    unfolding bitmap_clear_def used_frame_def frame_word [OF assms(2)] True by (simp add: push_bit_of_1)
  also have "\<dots> \<longleftrightarrow> j \<noteq> i \<and> used_frame s j"
    unfolding used_frame_def bit_set_clear [OF mod_less_divisor [OF zero_less_numeral]] same_bit_iff [OF True] by blast
  finally show ?thesis .
next
  case False
  then show ?thesis unfolding bitmap_clear_def used_frame_def frame_word [OF assms(2)] by auto
qed

lemma bitmap_set_fields [simp]:
  "page_directory (bitmap_set i s) = page_directory s" "memory (bitmap_set i s) = memory s"
  "length (frame_bitmap (bitmap_set i s)) = length (frame_bitmap s)"
  by (simp_all add: bitmap_set_def)

lemma used_frame_memory [simp]: "used_frame (s\<lparr>memory := m\<rparr>) = used_frame s"
  "used_frame (s\<lparr>page_directory := d\<rparr>) = used_frame s"
  by (simp_all add: used_frame_def fun_eq_iff)

lemma free_frames_fields [simp]: "free_frames (s\<lparr>memory := m\<rparr>) = free_frames s"
  "free_frames (s\<lparr>page_directory := d\<rparr>) = free_frames s"
  by (simp_all add: free_frames_def)

lemma free_frames_set:
  "length (frame_bitmap s) = BITMAP_SIZE \<Longrightarrow> i < TOTAL_FRAMES \<Longrightarrow> free_frames (bitmap_set (of_nat i) s) = free_frames s - {i}"
  by (auto simp: free_frames_def used_bitmap_set)

lemma finite_free_frames [simp]: "finite (free_frames s)"
  by (simp add: free_frames_def)

declare alloc_loop.simps [simp del]

lemma alloc_loop_none: "(\<And>j. i \<le> j \<Longrightarrow> j \<notin> free_frames s) \<Longrightarrow> alloc_loop i s = (s, 0)"
proof (induction i s rule: alloc_loop.induct)
  case (1 i s)
  show ?case
  proof (cases "i < TOTAL_FRAMES")
    case True
    then have "bitmap_test (of_nat i) s" using "1.prems" [of i] by (auto simp: free_frames_def bitmap_test_used)
    then show ?thesis using 1 True by (subst alloc_loop.simps) auto
  qed (simp add: alloc_loop.simps)
qed

lemma alloc_loop_least:
  "f \<in> free_frames s \<Longrightarrow> i \<le> f \<Longrightarrow> (\<And>j. i \<le> j \<Longrightarrow> j \<in> free_frames s \<Longrightarrow> f \<le> j) \<Longrightarrow>
   alloc_loop i s = (bitmap_set (of_nat f) s, of_nat (4096 * f))"
proof (induction i s rule: alloc_loop.induct)
  case (1 i s)
  have i: "i < TOTAL_FRAMES" using "1.prems" by (auto simp: free_frames_def)
  show ?case
  proof (cases "i = f")
    case True
    then show ?thesis
      using 1 i by (subst alloc_loop.simps) (simp add: bitmap_test_used free_frames_def PAGE_SIZE_def mult.commute)
  next
    case False
    then have "i \<notin> free_frames s" using "1.prems"(2) "1.prems"(3) [of i] by auto
    then have "bitmap_test (of_nat i) s" using i by (auto simp: free_frames_def bitmap_test_used)
    then show ?thesis using 1 i False by (subst alloc_loop.simps) auto
  qed
qed

lemma alloc_frame_none: "free_frames s = {} \<Longrightarrow> alloc_frame s = (s, 0)"
  unfolding alloc_frame_def by (rule alloc_loop_none) simp

lemma alloc_frame_some:
  assumes "free_frames s \<noteq> {}"
  shows "alloc_frame s = (bitmap_set (of_nat (Min (free_frames s))) s, of_nat (4096 * Min (free_frames s)))"
  unfolding alloc_frame_def using assms by (intro alloc_loop_least) auto

section \<open>Lemmas: writing memory\<close>

lemma fill_ram_nat:
  "d + n \<le> 4294967296 \<Longrightarrow> x < 4294967296 \<Longrightarrow>
   fill_ram n (of_nat d) v m (of_nat x) = (if d \<le> x \<and> x < d + n then v else m (of_nat x))"
proof (induction n arbitrary: d m)
  case (Suc n)
  have e: "fill_ram (Suc n) (of_nat d) v m = fill_ram n (of_nat (Suc d)) v (m(of_nat d := v))" by (simp add: add.commute)
  have "(of_nat x :: u32) = of_nat d \<longleftrightarrow> x = d" using of_nat_u32_eq_iff [of x d] Suc.prems by auto
  then show ?case unfolding e using Suc.IH [of "Suc d"] Suc.prems by (auto simp del: of_nat_Suc)
qed auto

lemma clear_table_nat:
  assumes "a + 4 * n \<le> 4294967296"
  obtains m where "fold (\<lambda>i s. s\<lparr>memory := st32 (of_nat a + of_nat (4 * i)) 0 (memory s)\<rparr>) [0..<n] s = s\<lparr>memory := m\<rparr>"
    and "\<And>x. x < 4294967296 \<Longrightarrow> m (of_nat x) = (if a \<le> x \<and> x < a + 4 * n then 0 else memory s (of_nat x))"
  using assms
proof (induction n arbitrary: thesis)
  case 0
  show ?case by (rule 0(1) [of "memory s"]) auto
next
  case (Suc n)
  obtain m where m: "fold (\<lambda>i s. s\<lparr>memory := st32 (of_nat a + of_nat (4 * i)) 0 (memory s)\<rparr>) [0..<n] s = s\<lparr>memory := m\<rparr>"
    "\<And>x. x < 4294967296 \<Longrightarrow> m (of_nat x) = (if a \<le> x \<and> x < a + 4 * n then 0 else memory s (of_nat x))"
    using Suc.IH Suc.prems(2) by auto
  have z: "byte_of k (0 :: u32) = 0" for k by (simp add: byte_of_def)
  show ?case
  proof (rule Suc.prems(1))
    show "fold (\<lambda>i s. s\<lparr>memory := st32 (of_nat a + of_nat (4 * i)) 0 (memory s)\<rparr>) [0..<Suc n] s =
      s\<lparr>memory := st32 (of_nat (a + 4 * n)) 0 m\<rparr>"
      using m(1) by simp
    fix x :: nat assume x: "x < 4294967296"
    show "st32 (of_nat (a + 4 * n)) 0 m (of_nat x) = (if a \<le> x \<and> x < a + 4 * Suc n then 0 else memory s (of_nat x))"
      using st32_nat [of "a + 4 * n" x 0 m] Suc.prems(2) x m(2) [OF x] z by auto
  qed
qed

section \<open>Lemmas: translation and mapping\<close>

lemma pd_of_page: "pd_of v = page_of v div 1024" "pd_of v < 1024"
  using pd_idx_less [of v] by (simp_all add: pd_of_def page_of_def div_mult2_eq [symmetric])

lemma page_eqI: "pd_of u = pd_of v \<Longrightarrow> page_of u mod 1024 = page_of v mod 1024 \<Longrightarrow> page_of u = page_of v"
  unfolding pd_of_page(1) by (metis div_mult_mod_eq)

lemma translate_slot:
  "translate s v =
    (if present s (pd_of v) then
       (let w = ld32 (memory s) (of_nat (slot s v)) in if w AND 1 = 0 then None else Some ((w AND NOT 0xFFF) OR (v AND 0xFFF)))
     else None)"
proof -
  have "pde s v = page_directory s ! pd_of v" by (simp add: pde_def pd_of_def unat_pd_idx)
  moreover have "pte_addr (page_directory s ! pd_of v) v = of_nat (slot s v)"
    unfolding pte_addr_nat slot_def table_frame_def page_of_def ..
  ultimately show ?thesis using pd_of_page(2) [of v] unfolding translate_def present_def Let_def by simp
qed

lemma slot_bound:
  assumes "table_frame s (pd_of v) < TOTAL_FRAMES"
  shows "slot s v + 4 \<le> 67108864" "slot s v div 4096 = table_frame s (pd_of v)"
proof -
  have m: "page_of v mod 1024 < 1024" by simp
  then show "slot s v + 4 \<le> 67108864" using assms unfolding slot_def TOTAL_FRAMES_def by linarith
  have "4 * (page_of v mod 1024) < 4096" using m by linarith
  then show "slot s v div 4096 = table_frame s (pd_of v)" by (simp add: slot_def)
qed

lemma slots_differ:
  assumes "paging_ok s" and "present s (pd_of u)" and "present s (pd_of v)" and "page_of u \<noteq> page_of v"
  shows "slot s u + 4 \<le> slot s v \<or> slot s v + 4 \<le> slot s u"
proof -
  let ?x = "page_of u mod 1024" and ?y = "page_of v mod 1024"
  have m: "?x < 1024" "?y < 1024" by simp_all
  consider "pd_of u = pd_of v" "?x \<noteq> ?y" | "table_frame s (pd_of u) \<noteq> table_frame s (pd_of v)"
    using assms page_eqI [of u v] unfolding paging_ok_def by blast
  then show ?thesis
  proof cases
    case 1
    then show ?thesis unfolding slot_def by (simp only: 1(1)) (use 1(2) in linarith)
  next
    case 2
    then show ?thesis using m unfolding slot_def by linarith
  qed
qed

lemma map_page_present:
  assumes "present s (pd_of v)"
  shows "map_page_direct p v fl s =
    s\<lparr>memory := st32 (of_nat (slot s v)) ((p AND NOT 0xFFF) OR (fl AND 0xFFF)) (memory s)\<rparr>"
proof -
  have "page_directory s ! unat (drop_bit 22 v) AND PAGE_PRESENT \<noteq> 0"
    using assms by (simp add: present_def unat_pd_idx pd_of_def PAGE_PRESENT_def)
  moreover have "(page_directory s ! unat (drop_bit 22 v) AND NOT 0xFFF) + 4 * (drop_bit 12 v AND 0x3FF) = of_nat (slot s v)"
    using pte_addr_nat [of "page_directory s ! unat (drop_bit 22 v)" v]
    unfolding pte_addr_def slot_def table_frame_def page_of_def unat_pd_idx pd_of_def .
  ultimately show ?thesis unfolding map_page_direct_def Let_def by (simp only: if_True simp_thms)
qed

lemma fields_memory [simp]: "present (s\<lparr>memory := m\<rparr>) = present s" "table_frame (s\<lparr>memory := m\<rparr>) = table_frame s"
  "slot (s\<lparr>memory := m\<rparr>) = slot s" "paging_ok (s\<lparr>memory := m\<rparr>) \<longleftrightarrow> paging_ok s" "data_frame (s\<lparr>memory := m\<rparr>) = data_frame s"
  by (simp_all add: present_def table_frame_def slot_def paging_ok_def data_frame_def fun_eq_iff)

lemma map_page_present_translates:
  assumes ok: "paging_ok s" and pr: "present s (pd_of v)" and fl: "fl AND 1 \<noteq> 0"
  shows "translate (map_page_direct p v fl s) u =
    (if page_of u = page_of v then Some ((p AND NOT 0xFFF) OR (u AND 0xFFF)) else translate s u)"
proof -
  let ?w = "(p AND NOT 0xFFF) OR (fl AND 0xFFF)"
  let ?s = "s\<lparr>memory := st32 (of_nat (slot s v)) ?w (memory s)\<rparr>"
  have b: "slot s x + 4 \<le> 4294967296" if "present s (pd_of x)" for x
    using slot_bound(1) [of s x] ok that by (auto simp: paging_ok_def)
  show ?thesis
  proof (cases "page_of u = page_of v")
    case True
    then have e: "pd_of u = pd_of v" "slot s u = slot s v" by (simp_all add: slot_def pd_of_page)
    have "ld32 (memory ?s) (of_nat (slot ?s u)) = ?w" using ld32_st32_same [OF b [OF pr]] by (simp add: e)
    then show ?thesis
      unfolding map_page_present [OF pr] translate_slot [of ?s] Let_def using pr fl True e(1) by (simp only: fields_memory entry_of_page if_True if_False simp_thms)
  next
    case False
    have "ld32 (memory ?s) (of_nat (slot s u)) = ld32 (memory s) (of_nat (slot s u))" if "present s (pd_of u)"
      using ld32_st32_other [OF b [OF pr] b [OF that]] slots_differ [OF ok that pr False] by auto
    then show ?thesis
      unfolding map_page_present [OF pr] translate_slot Let_def using False by (cases "present s (pd_of u)") (simp_all only: fields_memory if_True if_False simp_thms)
  qed
qed

lemma map_page_present_memory:
  assumes "paging_ok s" and "present s (pd_of v)" and "x div 4096 \<noteq> table_frame s (pd_of v)" and "x < 4294967296"
  shows "memory (map_page_direct p v fl s) (of_nat x) = memory s (of_nat x)"
proof -
  have t: "table_frame s (pd_of v) < TOTAL_FRAMES" using assms(1,2) by (simp add: paging_ok_def)
  have "\<not> (slot s v \<le> x \<and> x < slot s v + 4)"
  proof
    assume x: "slot s v \<le> x \<and> x < slot s v + 4"
    have "4 * (page_of v mod 1024) + 4 \<le> 4096" using mod_less_divisor [of 1024 "page_of v"] by linarith
    then have "x div 4096 = table_frame s (pd_of v)"
      using x unfolding slot_def by (intro div_nat_eqI) (simp_all add: algebra_simps)
    then show False using assms(3) by simp
  qed
  then show ?thesis unfolding map_page_present [OF assms(2)]
    using st32_nat [of "slot s v" x] slot_bound(1) [OF t] assms(4) by auto
qed

section \<open>Lemmas: the identity mapping\<close>

lemma slot_frame: "k < 4 \<Longrightarrow> (slot s v + k) div 4096 = table_frame s (pd_of v)"
proof -
  assume k: "k < 4"
  have "4 * (page_of v mod 1024) + 4 \<le> 4096" using mod_less_divisor [of 1024 "page_of v"] by linarith
  then show ?thesis using k unfolding slot_def by (intro div_nat_eqI) (simp_all add: algebra_simps)
qed

lemma translate_memory:
  assumes ok: "paging_ok s" and m: "\<And>x i. x < 4294967296 \<Longrightarrow> present s i \<Longrightarrow> x div 4096 = table_frame s i \<Longrightarrow> m (of_nat x) = memory s (of_nat x)"
  shows "translate (s\<lparr>memory := m\<rparr>) u = translate s u"
proof (cases "present s (pd_of u)")
  case True
  then have t: "table_frame s (pd_of u) < TOTAL_FRAMES" using ok by (simp add: paging_ok_def)
  have "m (of_nat (slot s u + k)) = memory s (of_nat (slot s u + k))" if "k < 4" for k
    using m [OF _ True slot_frame [OF that]] slot_bound(1) [OF t] that by auto
  from this [of 0] this [of 1] this [of 2] this [of 3]
  have "ld32 m (of_nat (slot s u)) = ld32 (memory s) (of_nat (slot s u))" unfolding ld32_nat by (simp del: of_nat_add)
  then show ?thesis unfolding translate_slot Let_def by simp
qed (simp add: translate_slot)

lemma translate_bitmap [simp]: "translate (bitmap_set i s) = translate s"
  by (simp add: translate_def pde_def fun_eq_iff)

lemma direct_map_bitmap [simp]: "direct_map (bitmap_set i s) = direct_map s"
  by (simp add: direct_map_def present_def table_frame_def)

lemma direct_map_memory:
  assumes "paging_ok s" and "direct_map s"
    and "\<And>x i. x < 4294967296 \<Longrightarrow> present s i \<Longrightarrow> x div 4096 = table_frame s i \<Longrightarrow> m (of_nat x) = memory s (of_nat x)"
  shows "direct_map (s\<lparr>memory := m\<rparr>)"
  using assms(2) translate_memory [OF assms(1,3)] by (simp add: direct_map_def)

lemma store32_at_direct:
  "direct_map s \<Longrightarrow> x < 16777216 \<Longrightarrow> store32_at (of_nat x) w s = Some (s\<lparr>memory := st32 (of_nat x) w (memory s)\<rparr>)"
  unfolding store32_at_def direct_map_def by (simp add: unat_of_nat_u32)

lemma memset_at_direct:
  assumes "paging_ok s" and "direct_map s" and "d + n \<le> 16777216"
    and "\<And>x i. d \<le> x \<Longrightarrow> x < d + n \<Longrightarrow> present s i \<Longrightarrow> table_frame s i \<noteq> x div 4096"
  shows "memset_at n (of_nat d) v s = Some (s\<lparr>memory := fill_ram n (of_nat d) v (memory s)\<rparr>)"
  using assms
proof (induction n arbitrary: d s)
  case (Suc n)
  let ?m = "(memory s)(of_nat d := v)"
  have m: "?m (of_nat x) = memory s (of_nat x)" if "x < 4294967296" "present s i" "x div 4096 = table_frame s i" for x i
  proof -
    have "x \<noteq> d" using Suc.prems(4) [of d i] that by auto
    then show ?thesis using of_nat_u32_eq_iff [of x d] that(1) Suc.prems(3) by auto
  qed
  have dm: "direct_map (s\<lparr>memory := ?m\<rparr>)"
    by (rule direct_map_memory [OF Suc.prems(1,2)]) (use m in blast)
  have IH: "memset_at n (of_nat (Suc d)) v (s\<lparr>memory := ?m\<rparr>) = Some (s\<lparr>memory := ?m\<rparr>\<lparr>memory := fill_ram n (of_nat (Suc d)) v (memory (s\<lparr>memory := ?m\<rparr>))\<rparr>)"
    by (rule Suc.IH [OF _ dm]) (use Suc.prems(1,3,4) in auto)
  have t: "translate s (of_nat d) = Some (of_nat d)"
    using Suc.prems(2,3) by (simp add: direct_map_def unat_of_nat_u32)
  have e: "of_nat d + 1 = (of_nat (Suc d) :: u32)" by simp
  show ?case unfolding memset_at.simps fill_ram.simps t e option.map bind.simps IH by simp
qed simp

lemma clear_table_direct:
  assumes "paging_ok s" and "direct_map s" and "f < 4096" and "\<And>j. present s j \<Longrightarrow> table_frame s j \<noteq> f" and "n \<le> 1024"
  shows "fold (\<lambda>i r. Option.bind r (store32_at (of_nat (4096 * f) + of_nat (4 * i)) 0)) [0..<n] (Some s) =
    Some (fold (\<lambda>i s. s\<lparr>memory := st32 (of_nat (4096 * f) + of_nat (4 * i)) 0 (memory s)\<rparr>) [0..<n] s)"
  using assms(5)
proof (induction n)
  case (Suc n)
  let ?a = "4096 * f"
  have b: "?a + 4 * n \<le> 4294967296" "?a + 4 * n < 16777216" using assms(3) Suc.prems by auto
  obtain m where m: "fold (\<lambda>i s. s\<lparr>memory := st32 (of_nat ?a + of_nat (4 * i)) 0 (memory s)\<rparr>) [0..<n] s = s\<lparr>memory := m\<rparr>"
    "\<And>x. x < 4294967296 \<Longrightarrow> m (of_nat x) = (if ?a \<le> x \<and> x < ?a + 4 * n then 0 else memory s (of_nat x))"
    using clear_table_nat [OF b(1)] by blast
  have out: "m (of_nat x) = memory s (of_nat x)" if "x < 4294967296" "present s i" "x div 4096 = table_frame s i" for x i
  proof -
    have "x div 4096 \<noteq> f" using assms(4) that by auto
    then have "\<not> (?a \<le> x \<and> x < ?a + 4 * n)" using div_nat_eqI [of 4096 f x] Suc.prems by (auto simp: algebra_simps)
    then show ?thesis using m(2) [OF that(1)] by auto
  qed
  have e: "of_nat ?a + of_nat (4 * n) = (of_nat (?a + 4 * n) :: u32)" by (simp only: of_nat_add)
  have dm: "direct_map (s\<lparr>memory := m\<rparr>)" by (rule direct_map_memory [OF assms(1,2)]) (use out in blast)
  show ?case
    using Suc store32_at_direct [OF dm b(2), of 0] by (simp add: m(1) e del: of_nat_add of_nat_mult)
qed simp

lemma memset_at_fault: "translate s d = None \<Longrightarrow> 0 < n \<Longrightarrow> memset_at n d v s = None"
  by (cases n) simp_all

section \<open>Lemmas: new page tables\<close>

lemma min_frame:
  assumes "paging_ok s" and "free_frames s \<noteq> {}"
  shows "Min (free_frames s) < TOTAL_FRAMES" "\<not> used_frame s (Min (free_frames s))" "Min (free_frames s) \<noteq> 0"
    "\<not> data_frame s (Min (free_frames s))" "\<And>j. present s j \<Longrightarrow> table_frame s j \<noteq> Min (free_frames s)"
proof -
  have "Min (free_frames s) \<in> free_frames s" using assms(2) by simp
  then show f: "Min (free_frames s) < TOTAL_FRAMES" "\<not> used_frame s (Min (free_frames s))" by (auto simp: free_frames_def)
  have u: "used_frame s 0" "\<And>j. present s j \<Longrightarrow> used_frame s (table_frame s j)" using assms(1) by (auto simp: paging_ok_def)
  show "Min (free_frames s) \<noteq> 0" using u(1) f(2) by metis
  show "\<not> data_frame s (Min (free_frames s))" using f(2) by (simp add: data_frame_def)
  show "\<And>j. present s j \<Longrightarrow> table_frame s j \<noteq> Min (free_frames s)" using u(2) f(2) by metis
qed

lemma bitmap_set_ok:
  assumes "paging_ok s" and "f < TOTAL_FRAMES"
  shows "paging_ok (bitmap_set (of_nat f) s)" "data_frame s i \<Longrightarrow> data_frame (bitmap_set (of_nat f) s) i"
    "\<And>j. j < TOTAL_FRAMES \<Longrightarrow> used_frame (bitmap_set (of_nat f) s) j \<longleftrightarrow> j = f \<or> used_frame s j"
    "present (bitmap_set (of_nat f) s) = present s" "table_frame (bitmap_set (of_nat f) s) = table_frame s"
    "slot (bitmap_set (of_nat f) s) = slot s"
proof -
  have l: "length (frame_bitmap s) = BITMAP_SIZE" using assms(1) by (simp add: paging_ok_def)
  show u: "\<And>j. j < TOTAL_FRAMES \<Longrightarrow> used_frame (bitmap_set (of_nat f) s) j \<longleftrightarrow> j = f \<or> used_frame s j"
    using used_bitmap_set [OF l assms(2)] .
  show e: "present (bitmap_set (of_nat f) s) = present s" "table_frame (bitmap_set (of_nat f) s) = table_frame s"
    "slot (bitmap_set (of_nat f) s) = slot s"
    by (auto simp: present_def table_frame_def slot_def fun_eq_iff)
  show "paging_ok (bitmap_set (of_nat f) s)"
    using assms u e unfolding paging_ok_def by (auto simp: TOTAL_FRAMES_def)
  show "data_frame s i \<Longrightarrow> data_frame (bitmap_set (of_nat f) s) i"
    using u e by (auto simp: data_frame_def)
qed

lemma map_page_new_table:
  assumes ok: "paging_ok s" and np: "\<not> present s (pd_of v)" and fr: "free_frames s \<noteq> {}"
  defines "f \<equiv> Min (free_frames s)"
  obtains s2 where "map_page_direct p v fl s = map_page_direct p v fl s2" "paging_ok s2" "present s2 (pd_of v)" "\<And>u. translate s2 u = translate s u"
    "free_frames s2 = free_frames s - {f}" "\<And>i. data_frame s i \<Longrightarrow> data_frame s2 i" "table_frame s2 (pd_of v) = f"
    "\<And>x. x < 4294967296 \<Longrightarrow> x div 4096 \<noteq> f \<Longrightarrow> memory s2 (of_nat x) = memory s (of_nat x)"
    "direct_map s \<Longrightarrow> f < 4096 \<Longrightarrow> direct_map s2 \<and> map_page p v fl s = map_page p v fl s2"
proof -
  note f = min_frame [OF ok fr, folded f_def]
  let ?s1 = "bitmap_set (of_nat f) s" and ?a = "4096 * f"
  note s1 = bitmap_set_ok [OF ok f(1)]
  have al: "alloc_frame s = (?s1, of_nat ?a)" using alloc_frame_some [OF fr] by (simp add: f_def)
  have fb: "f < 1048576" "?a + 4 * 1024 \<le> 4294967296" using f(1) by (simp_all add: TOTAL_FRAMES_def)
  obtain m where m: "fold (\<lambda>i s. s\<lparr>memory := st32 (of_nat ?a + of_nat (4 * i)) 0 (memory s)\<rparr>) [0..<1024] ?s1 = ?s1\<lparr>memory := m\<rparr>"
    "\<And>x. x < 4294967296 \<Longrightarrow> m (of_nat x) = (if ?a \<le> x \<and> x < ?a + 4 * 1024 then 0 else memory ?s1 (of_nat x))"
    using clear_table_nat [OF fb(2)] by blast
  have a0: "(of_nat ?a :: u32) \<noteq> 0" using of_nat_u32_eq_iff [of ?a 0] fb f(3) by simp
  let ?e = "of_nat ?a OR (PAGE_PRESENT OR PAGE_RW OR PAGE_USER) :: u32"
  define s2 where "s2 = ?s1\<lparr>memory := m, page_directory := (page_directory ?s1)[pd_of v := ?e]\<rparr>"
  have e7: "?e = of_nat ?a OR 7" by (simp add: PAGE_PRESENT_def PAGE_RW_def PAGE_USER_def)
  note pe = page_entry [OF fb(1)]
  have len: "length (page_directory s) = 1024" using ok by (simp add: paging_ok_def)
  have pd: "unat (drop_bit 22 v) = pd_of v" "pd_of v < 1024" using pd_of_page(2) [of v] by (simp_all add: unat_pd_idx pd_of_def)
  have pr2: "present s2 j \<longleftrightarrow> j = pd_of v \<or> present s j" for j
    using pe(2) len pd(2) unfolding present_def s2_def e7 by (cases "j = pd_of v") auto
  have tf2: "table_frame s2 j = (if j = pd_of v then f else table_frame s j)" for j
    using pe(1) len pd(2) unfolding table_frame_def s2_def e7 by auto
  have us2: "used_frame s2 = used_frame ?s1" by (simp add: used_frame_def s2_def fun_eq_iff)
  have ok2: "paging_ok s2"
  proof -
    have "length (page_directory s2) = 1024" "length (frame_bitmap s2) = BITMAP_SIZE"
      using len ok by (simp_all add: s2_def paging_ok_def)
    then show ?thesis using ok np f s1(1,3) unfolding paging_ok_def pr2 tf2 us2 by (auto simp: TOTAL_FRAMES_def)
  qed
  have mem: "m (of_nat x) = memory s (of_nat x)" if "x < 4294967296" "x div 4096 \<noteq> f" for x
  proof -
    have "\<not> (?a \<le> x \<and> x < ?a + 4 * 1024)" using that(2) div_nat_eqI [of 4096 f x] by (auto simp: algebra_simps)
    then show ?thesis using m(2) [OF that(1)] by auto
  qed
  have m2: "memory s2 = m" by (simp add: s2_def)
  have tr: "translate s2 u = translate s u" for u
  proof (cases "pd_of u = pd_of v")
    case True
    have sl: "slot s2 u = ?a + 4 * (page_of u mod 1024)" by (simp add: slot_def tf2 True)
    have "page_of u mod 1024 < 1024" by simp
    then have "m (of_nat (slot s2 u + k)) = 0" if "k < 4" for k
      using m(2) [of "slot s2 u + k"] that fb(1) f(1) unfolding sl TOTAL_FRAMES_def by auto
    from this [of 0] this [of 1] this [of 2] this [of 3]
    have "ld32 m (of_nat (slot s2 u)) = 0" unfolding ld32_nat by (simp add: u32_le_def del: of_nat_add)
    then show ?thesis unfolding translate_slot Let_def m2 using True np by simp
  next
    case False
    show ?thesis
    proof (cases "present s (pd_of u)")
      case pr: True
      have sl: "slot s2 u = slot s u" by (simp add: slot_def tf2 False)
      have tb: "table_frame s (pd_of u) < TOTAL_FRAMES" "table_frame s (pd_of u) \<noteq> f"
        using ok pr f(5) [OF pr] by (auto simp: paging_ok_def)
      have "m (of_nat (slot s u + k)) = memory s (of_nat (slot s u + k))" if "k < 4" for k
      proof (rule mem)
        have "4 * (page_of u mod 1024) + 4 \<le> 4096" using mod_less_divisor [of 1024 "page_of u"] by linarith
        then have "(slot s u + k) div 4096 = table_frame s (pd_of u)"
          using that unfolding slot_def by (intro div_nat_eqI) (simp_all add: algebra_simps)
        then show "(slot s u + k) div 4096 \<noteq> f" using tb(2) by simp
        show "slot s u + k < 4294967296" using slot_bound(1) [OF tb(1)] that by linarith
      qed
      from this [of 0] this [of 1] this [of 2] this [of 3]
      have "ld32 m (of_nat (slot s u)) = ld32 (memory s) (of_nat (slot s u))" unfolding ld32_nat by (simp del: of_nat_add)
      then show ?thesis unfolding translate_slot Let_def sl m2 using pr by (simp add: pr2)
    qed (use False in \<open>simp add: translate_slot pr2\<close>)
  qed
  have absent: "\<not> (page_directory s ! pd_of v AND PAGE_PRESENT \<noteq> 0)" using np pd(2) by (simp add: present_def PAGE_PRESENT_def)
  have there: "page_directory s2 ! pd_of v AND PAGE_PRESENT \<noteq> 0" using pr2 [of "pd_of v"] by (simp add: present_def PAGE_PRESENT_def)
  have base: "page_directory s2 ! pd_of v AND NOT 0xFFF = of_nat ?a"
  proof (rule u32_eqI)
    show "unat (page_directory s2 ! pd_of v AND NOT 0xFFF) = unat (of_nat ?a :: u32)"
      unfolding unat_page_base using tf2 [of "pd_of v"] fb(1) unfolding table_frame_def by (simp add: unat_of_nat_u32 mult.commute del: of_nat_mult)
  qed
  have mp: "map_page_direct p v fl s = map_page_direct p v fl s2"
    using absent there base unfolding map_page_direct_def Let_def pd(1) al
    using a0 m(1) by (simp only: if_True if_False split_conv simp_thms) (simp add: s2_def)
  have dm: "direct_map s2 \<and> map_page p v fl s = map_page p v fl s2" if "direct_map s" "f < 4096"
  proof
    show "direct_map s2" using that tr unfolding direct_map_def pr2 tf2 by auto
    have d1: "direct_map ?s1" "\<And>j. present ?s1 j \<Longrightarrow> table_frame ?s1 j \<noteq> f" using that(1) f(5) s1(4,5) by auto
    have c: "fold (\<lambda>i r. Option.bind r (store32_at (of_nat ?a + of_nat (4 * i)) 0)) [0..<1024] (Some ?s1) = Some (?s1\<lparr>memory := m\<rparr>)"
      using clear_table_direct [OF s1(1) d1(1) that(2) d1(2) le_refl] unfolding m(1) .
    show "map_page p v fl s = map_page p v fl s2"
      using absent there base unfolding map_page_def Let_def pd(1) al
      using a0 c by (simp only: if_True if_False split_conv simp_thms bind.simps) (simp add: s2_def)
  qed
  show ?thesis
  proof (rule that [of s2])
    show "free_frames s2 = free_frames s - {f}"
      using free_frames_set [of s f] ok f(1) by (simp add: free_frames_def us2 paging_ok_def)
    show "data_frame s2 i" if "data_frame s i" for i
      using that s1(3) f(2) unfolding data_frame_def us2 pr2 tf2 by auto
    show "direct_map s2 \<and> map_page p v fl s = map_page p v fl s2" if "direct_map s" "f < 4096" using dm [OF that] .
  qed (use mp ok2 tr mem tf2 pr2 m2 in auto)
qed

section \<open>Lemmas: mapping a page and a block of pages\<close>

lemma keeps_refl [simp]: "keeps s s"
  by (simp add: keeps_def)

lemma keeps_trans: "keeps s s1 \<Longrightarrow> keeps s1 s2 \<Longrightarrow> keeps s s2"
  unfolding keeps_def by metis

lemma map_page_step:
  assumes ok: "paging_ok s" and fl: "fl AND 1 \<noteq> 0" and room: "present s (pd_of v) \<or> free_frames s \<noteq> {}"
  shows "paging_ok (map_page_direct p v fl s)"
    and "translate (map_page_direct p v fl s) u =
      (if page_of u = page_of v then Some ((p AND NOT 0xFFF) OR (u AND 0xFFF)) else translate s u)"
    and "free_frames (map_page_direct p v fl s) = (if present s (pd_of v) then free_frames s else free_frames s - {Min (free_frames s)})"
    and "keeps s (map_page_direct p v fl s)"
proof -
  obtain s2 where s2: "map_page_direct p v fl s = map_page_direct p v fl s2" "paging_ok s2" "present s2 (pd_of v)" "\<And>u. translate s2 u = translate s u"
    "free_frames s2 = (if present s (pd_of v) then free_frames s else free_frames s - {Min (free_frames s)})" "keeps s s2"
  proof (cases "present s (pd_of v)")
    case True
    then show ?thesis using that [of s] ok by simp
  next
    case False
    then have fr: "free_frames s \<noteq> {}" using room by simp
    show ?thesis
    proof (rule map_page_new_table [OF ok False fr, of p fl])
      fix s2 assume n: "map_page_direct p v fl s = map_page_direct p v fl s2" "paging_ok s2" "present s2 (pd_of v)"
        "\<And>u. translate s2 u = translate s u" "free_frames s2 = free_frames s - {Min (free_frames s)}"
        "\<And>i. data_frame s i \<Longrightarrow> data_frame s2 i"
        "\<And>x. x < 4294967296 \<Longrightarrow> x div 4096 \<noteq> Min (free_frames s) \<Longrightarrow> memory s2 (of_nat x) = memory s (of_nat x)"
      have "keeps s s2" unfolding keeps_def using n(6,7) min_frame(4) [OF ok fr] by metis
      then show thesis using that [of s2] n False by simp
    qed
  qed
  have k: "keeps s2 (map_page_direct p v fl s2)" unfolding keeps_def
  proof (intro allI impI conjI)
    fix i assume i: "data_frame s2 i"
    then show "data_frame (map_page_direct p v fl s2) i" by (simp add: map_page_present [OF s2(3)])
    fix x :: nat assume "x < 4294967296" "x div 4096 = i"
    then show "memory (map_page_direct p v fl s2) (of_nat x) = memory s2 (of_nat x)"
      using map_page_present_memory [OF s2(2,3), of x] i s2(3) by (auto simp: data_frame_def)
  qed
  show "paging_ok (map_page_direct p v fl s)" using s2 by (simp add: map_page_present)
  show "translate (map_page_direct p v fl s) u =
      (if page_of u = page_of v then Some ((p AND NOT 0xFFF) OR (u AND 0xFFF)) else translate s u)"
    unfolding s2(1) map_page_present_translates [OF s2(2,3) fl] s2(4) ..
  show "free_frames (map_page_direct p v fl s) = (if present s (pd_of v) then free_frames s else free_frames s - {Min (free_frames s)})"
    unfolding s2(1) using s2(3,5) by (simp add: map_page_present)
  show "keeps s (map_page_direct p v fl s)" unfolding s2(1) by (rule keeps_trans [OF s2(6) k])
qed

lemma map_page_present_eq:
  assumes "paging_ok s" and "direct_map s" and "present s (pd_of v)"
  shows "map_page p v fl s = Some (map_page_direct p v fl s)"
proof -
  have "page_directory s ! unat (drop_bit 22 v) AND PAGE_PRESENT \<noteq> 0"
    using assms(3) by (simp add: present_def unat_pd_idx pd_of_def PAGE_PRESENT_def)
  moreover have "(page_directory s ! unat (drop_bit 22 v) AND NOT 0xFFF) + 4 * (drop_bit 12 v AND 0x3FF) = of_nat (slot s v)"
    using pte_addr_nat [of "page_directory s ! unat (drop_bit 22 v)" v]
    unfolding pte_addr_def slot_def table_frame_def page_of_def unat_pd_idx pd_of_def .
  moreover have "slot s v < 16777216"
  proof -
    have "table_frame s (pd_of v) < 4096" using assms(2,3) by (simp add: direct_map_def)
    moreover have "page_of v mod 1024 < 1024" by simp
    ultimately show ?thesis unfolding slot_def by linarith
  qed
  ultimately show ?thesis
    using store32_at_direct [OF assms(2)] map_page_present [OF assms(3)] unfolding map_page_def Let_def by (simp only: if_True simp_thms)
qed

text \<open>With all tables in the identity mapping, and the new one too, \<open>map_page\<close> is \<open>map_page_direct\<close>.\<close>

lemma map_page_eq:
  assumes ok: "paging_ok s" and dm: "direct_map s"
    and room: "present s (pd_of v) \<or> free_frames s \<noteq> {} \<and> Min (free_frames s) < 4096"
  shows "map_page p v fl s = Some (map_page_direct p v fl s)"
    and "fl AND 1 \<noteq> 0 \<Longrightarrow> 4096 \<le> page_of v \<Longrightarrow> direct_map (map_page_direct p v fl s)"
proof -
  obtain s2 where s2: "map_page_direct p v fl s = map_page_direct p v fl s2" "map_page p v fl s = map_page p v fl s2"
    "paging_ok s2" "present s2 (pd_of v)" "direct_map s2"
  proof (cases "present s (pd_of v)")
    case True
    then show ?thesis using that [of s] ok dm by simp
  next
    case False
    then have fr: "free_frames s \<noteq> {}" "Min (free_frames s) < 4096" using room by simp_all
    show ?thesis
    proof (rule map_page_new_table [OF ok False fr(1), of p fl])
      fix s2 assume n: "map_page_direct p v fl s = map_page_direct p v fl s2" "paging_ok s2" "present s2 (pd_of v)"
        "direct_map s \<Longrightarrow> Min (free_frames s) < 4096 \<Longrightarrow> direct_map s2 \<and> map_page p v fl s = map_page p v fl s2"
      then show thesis using that [of s2] dm fr(2) by simp
    qed
  qed
  show "map_page p v fl s = Some (map_page_direct p v fl s)"
    unfolding s2(1,2) by (rule map_page_present_eq [OF s2(3,5,4)])
  assume v: "fl AND 1 \<noteq> 0" "4096 \<le> page_of v"
  have "translate (map_page_direct p v fl s2) u = Some u" if "unat u < 16777216" for u
  proof -
    have "page_of u < 4096" using that by (simp add: page_of_def less_mult_imp_div_less)
    then show ?thesis
      unfolding map_page_present_translates [OF s2(3,4) v(1)] using v(2) s2(5) that by (simp add: direct_map_def)
  qed
  then show "direct_map (map_page_direct p v fl s)"
    unfolding s2(1) using s2(5) by (simp add: direct_map_def map_page_present [OF s2(4)])
qed

text \<open>A page table outside the mapping is a page fault, and so is a frame that \<open>memset\<close> cannot reach.\<close>

lemma map_page_faults:
  assumes "paging_ok s" and "\<not> present s (pd_of v)" and "free_frames s \<noteq> {}"
    and t: "translate s (of_nat (4096 * Min (free_frames s))) = None"
  shows "map_page p v fl s = None"
proof -
  let ?f = "Min (free_frames s)"
  note f = min_frame [OF assms(1,3)]
  have "4096 * ?f < 4294967296" using f(1) by (simp add: TOTAL_FRAMES_def)
  then have a0: "(of_nat (4096 * ?f) :: u32) \<noteq> 0" using of_nat_u32_eq_iff [of "4096 * ?f" 0] f(3) by simp
  have n: "fold (\<lambda>i r. Option.bind r (g i)) xs None = None" for g :: "nat \<Rightarrow> paging \<Rightarrow> paging option" and xs by (induction xs) auto
  have u: "[0..<1024] = 0 # [Suc 0..<1024]" by (rule upt_conv_Cons) simp
  have z: "store32_at (of_nat (4096 * ?f) + of_nat (4 * 0)) 0 (bitmap_set (of_nat ?f) s) = None"
    using t by (simp add: store32_at_def del: of_nat_mult)
  have "\<not> (page_directory s ! unat (drop_bit 22 v) AND PAGE_PRESENT \<noteq> 0)"
    using assms(2) pd_of_page(2) [of v] by (simp add: present_def PAGE_PRESENT_def unat_pd_idx pd_of_def)
  then show ?thesis
    unfolding map_page_def Let_def alloc_frame_some [OF assms(3)] split_conv u fold.simps comp_apply bind.simps z n
    using a0 by (simp only: if_False bind.simps simp_thms)
qed

lemma map_page_full:
  assumes "\<not> present s (pd_of v)" and "free_frames s = {}"
  shows "map_page p v fl s = Some s"
proof -
  have "\<not> (page_directory s ! unat (drop_bit 22 v) AND PAGE_PRESENT \<noteq> 0)"
    using assms(1) pd_of_page(2) [of v] by (simp add: present_def PAGE_PRESENT_def unat_pd_idx pd_of_def)
  then show ?thesis unfolding map_page_def Let_def alloc_frame_none [OF assms(2)] by simp
qed

lemma low_frames_finite [simp]: "finite (low_frames s)"
  by (simp add: low_frames_def)

lemma low_frames_memory [simp]: "low_frames (s\<lparr>memory := m\<rparr>) = low_frames s"
  by (simp add: low_frames_def)

lemma low_frames_min:
  assumes "low_frames s \<noteq> {}"
  shows "free_frames s \<noteq> {}" "Min (free_frames s) < 4096" "Min (free_frames s) \<in> low_frames s"
proof -
  obtain i where i: "i < 4096" "i \<in> free_frames s" using assms by (auto simp: low_frames_def)
  then show ne: "free_frames s \<noteq> {}" by auto
  have "Min (free_frames s) \<le> i" using i(2) by simp
  then show l: "Min (free_frames s) < 4096" using i(1) by simp
  show "Min (free_frames s) \<in> low_frames s" using l ne by (simp add: low_frames_def)
qed

lemma user_page:
  fixes v :: u32
  assumes ok: "paging_ok s" and dm: "direct_map s" and fr: "2 \<le> card (low_frames s)" and hi: "4096 \<le> page_of v"
  defines "f \<equiv> Min (free_frames s)"
  defines "s1 \<equiv> bitmap_set (of_nat f) s"
  defines "s2 \<equiv> map_page_direct (of_nat (4096 * f)) v 7 (s1\<lparr>memory := fill_ram 4096 (of_nat (4096 * f)) 0 (memory s1)\<rparr>)"
  shows "alloc_frame s = (s1, of_nat (4096 * f))" "(of_nat (4096 * f) :: u32) \<noteq> 0" "paging_ok s2" "f \<in> free_frames s"
    "free_frames s2 \<subseteq> free_frames s - {f}" "card (free_frames s) \<le> card (free_frames s2) + 2" "keeps s s2" "data_frame s2 f"
    "\<And>x. x < 4294967296 \<Longrightarrow> x div 4096 = f \<Longrightarrow> memory s2 (of_nat x) = 0"
    "\<And>u. translate s2 u = (if page_of u = page_of v then Some (of_nat (4096 * f) OR (u AND 0xFFF)) else translate s u)"
    "memset_at 4096 (of_nat (4096 * f)) 0 s1 = Some (s1\<lparr>memory := fill_ram 4096 (of_nat (4096 * f)) 0 (memory s1)\<rparr>)"
    "map_page (of_nat (4096 * f)) v 7 (s1\<lparr>memory := fill_ram 4096 (of_nat (4096 * f)) 0 (memory s1)\<rparr>) = Some s2"
    "direct_map s2" "f \<in> low_frames s" "low_frames s2 \<subseteq> low_frames s - {f}" "card (low_frames s) \<le> card (low_frames s2) + 2"
proof -
  have low: "low_frames s \<noteq> {}" using fr by auto
  note lo = low_frames_min [OF low, folded f_def]
  note ne = lo(1)
  show lf: "f \<in> low_frames s" by (rule lo(3))
  note f = min_frame [OF ok ne, folded f_def]
  show mem: "f \<in> free_frames s" unfolding f_def using ne by simp
  show "alloc_frame s = (s1, of_nat (4096 * f))" using alloc_frame_some [OF ne] by (simp add: f_def s1_def)
  have fb: "4096 * f + 4096 \<le> 4294967296" "4096 * f < 4294967296" using f(1) by (simp_all add: TOTAL_FRAMES_def)
  show "(of_nat (4096 * f) :: u32) \<noteq> 0" using of_nat_u32_eq_iff [of "4096 * f" 0] fb f(3) by simp
  have base: "of_nat (4096 * f) AND NOT 0xFFF = (of_nat (4096 * f) :: u32)"
    by (rule u32_eqI) (simp only: unat_page_base unat_of_nat_u32 [OF fb(2)], simp)
  note b1 = bitmap_set_ok [OF ok f(1), folded s1_def]
  let ?s = "s1\<lparr>memory := fill_ram 4096 (of_nat (4096 * f)) 0 (memory s1)\<rparr>"
  have m1: "memory s1 = memory s" by (simp add: s1_def)
  have fill: "memory ?s (of_nat x) = (if x div 4096 = f then 0 else memory s (of_nat x))" if "x < 4294967296" for x
  proof -
    have "4096 * f \<le> x \<and> x < 4096 * f + 4096 \<longleftrightarrow> x div 4096 = f"
      using div_nat_eqI [of 4096 f x] div_times_less_eq_dividend [of x 4096] dividend_less_div_times [of 4096 x] by (auto simp: algebra_simps)
    then show ?thesis using fill_ram_nat [OF fb(1) that, of 0 "memory s1"] by (simp add: m1)
  qed
  have ok': "paging_ok ?s" using b1(1) by simp
  have tr: "translate ?s u = translate s u" for u
    using translate_memory [OF b1(1), of "memory ?s" u] fill f(5) b1(4,5) m1 by (fastforce simp: s1_def)
  have fr1: "free_frames ?s = free_frames s - {f}" using free_frames_set [of s f] ok f(1) by (simp add: s1_def paging_ok_def)
  have c1: "card (free_frames ?s) = card (free_frames s) - 1" unfolding fr1 using mem by simp
  have lo1: "low_frames ?s = low_frames s - {f}" unfolding low_frames_def fr1 by auto
  then have cl: "card (low_frames ?s) = card (low_frames s) - 1" using lf by simp
  then have "low_frames ?s \<noteq> {}" using fr by auto
  note rm = low_frames_min [OF this]
  note room = rm(1)
  have dm1: "direct_map s1" using dm by (simp add: s1_def)
  have tf1: "table_frame s1 i \<noteq> f" if "present s1 i" for i using that f(5) b1(4,5) by auto
  show "memset_at 4096 (of_nat (4096 * f)) 0 s1 = Some ?s"
  proof (rule memset_at_direct [OF b1(1) dm1])
    show "4096 * f + 4096 \<le> 16777216" using lo(2) by simp
    fix x i assume x: "4096 * f \<le> x" "x < 4096 * f + 4096" "present s1 i"
    then have "x div 4096 = f" by (intro div_nat_eqI) (simp_all add: algebra_simps)
    then show "table_frame s1 i \<noteq> x div 4096" using tf1 x(3) by simp
  qed
  have dm2: "direct_map ?s"
    by (rule direct_map_memory [OF b1(1) dm1]) (use fill tf1 m1 in \<open>auto simp: s1_def\<close>)
  note me = map_page_eq [OF ok' dm2, of v]
  show "map_page (of_nat (4096 * f)) v 7 ?s = Some s2" unfolding s2_def by (rule me(1)) (use rm in simp)
  show "direct_map s2" unfolding s2_def by (rule me(2)) (use rm hi in simp_all)
  note mp = map_page_step [OF ok', of 7 v "of_nat (4096 * f)", folded s2_def]
  have p: "paging_ok s2" "free_frames s2 = (if present ?s (pd_of v) then free_frames ?s else free_frames ?s - {Min (free_frames ?s)})"
    "keeps ?s s2" using mp(1,3,4) room by simp_all
  show "paging_ok s2" by (rule p(1))
  show "free_frames s2 \<subseteq> free_frames s - {f}" unfolding p(2) fr1 by auto
  have l2: "low_frames s2 = (if present ?s (pd_of v) then low_frames ?s else low_frames ?s - {Min (free_frames ?s)})"
    unfolding low_frames_def p(2) by auto
  show "low_frames s2 \<subseteq> low_frames s - {f}" unfolding l2 lo1 by auto
  have "card (low_frames ?s) \<le> card (low_frames s2) + 1"
    unfolding l2 using rm(3) by (auto simp: card_Diff_singleton_if)
  then show "card (low_frames s) \<le> card (low_frames s2) + 2" using cl by simp
  have "card (free_frames ?s) \<le> card (free_frames s2) + 1"
    unfolding p(2) using room by (auto simp: card_Diff_singleton_if)
  then show "card (free_frames s) \<le> card (free_frames s2) + 2" using c1 by simp
  have "keeps s ?s" unfolding keeps_def using b1(2) fill f(4) by auto
  then show "keeps s s2" using p(3) keeps_trans by blast
  have df: "data_frame ?s f" using b1(3,4,5) f(1,5) by (simp add: data_frame_def)
  then show "data_frame s2 f" "\<And>x. x < 4294967296 \<Longrightarrow> x div 4096 = f \<Longrightarrow> memory s2 (of_nat x) = 0"
    using p(3) fill unfolding keeps_def by auto
  show "translate s2 u = (if page_of u = page_of v then Some (of_nat (4096 * f) OR (u AND 0xFFF)) else translate s u)" for u
    using mp(2) [of u] room unfolding base tr by simp
qed

lemma map_user_loop_pages:
  assumes "paging_ok s" and "2 * n \<le> card (low_frames s)" and "P + n < 1048576" and "direct_map s" and "4096 \<le> P"
  shows "\<exists>s' F. map_user_loop (of_nat (4096 * P)) (of_nat (4096 * (P + n))) s = Some s' \<and> user_mapped s P n s' F"
  using assms
proof (induction n arbitrary: P s)
  case 0
  have "map_user_loop (of_nat (4096 * P)) (of_nat (4096 * P)) s = Some s" by (subst map_user_loop.simps) simp
  then show ?case using 0 by (intro exI [of _ s] exI [of _ "[]"]) (auto simp: user_mapped_def)
next
  case (Suc n)
  let ?v = "of_nat (4096 * P) :: u32" and ?e = "of_nat (4096 * (P + Suc n)) :: u32"
  define f where "f = Min (free_frames s)"
  define s1 where "s1 = bitmap_set (of_nat f) s"
  define s2 where "s2 = map_page_direct (of_nat (4096 * f)) ?v 7 (s1\<lparr>memory := fill_ram 4096 (of_nat (4096 * f)) 0 (memory s1)\<rparr>)"
  have c: "2 \<le> card (low_frames s)" using Suc.prems(2) by simp
  have uv1: "unat ?v = 4096 * P" by (rule unat_of_nat_u32) (use Suc.prems(3) in simp)
  have uv2: "unat ?e = 4096 * (P + Suc n)" by (rule unat_of_nat_u32) (use Suc.prems(3) in simp)
  have pg: "page_of ?v = P" by (simp add: page_of_def uv1 del: of_nat_mult)
  have hi: "4096 \<le> page_of ?v" unfolding pg by (rule Suc.prems(5))
  note u0 = user_page(1,2,4) [OF Suc.prems(1,4) c hi, folded f_def, folded s1_def]
  note u = user_page(3,5-16) [OF Suc.prems(1,4) c hi, folded f_def, folded s1_def, folded s2_def]
  have lt: "?v < ?e" unfolding word_less_nat_alt uv1 uv2 by simp
  have nx: "?v + PAGE_SIZE = of_nat (4096 * Suc P)" by (simp add: PAGE_SIZE_def)
  have e: "?e = of_nat (4096 * (Suc P + n))" by simp
  have f7: "PAGE_PRESENT OR PAGE_RW OR PAGE_USER = 7" by (simp add: PAGE_PRESENT_def PAGE_RW_def PAGE_USER_def)
  have step: "map_user_loop ?v ?e s = map_user_loop (of_nat (4096 * Suc P)) (of_nat (4096 * (Suc P + n))) s2"
    using lt u0(2) by (subst map_user_loop.simps) (simp only: if_True if_False u0(1) split_conv Let_def nx e f7 u(8,9) bind.simps)
  obtain s' F where r: "map_user_loop (of_nat (4096 * Suc P)) (of_nat (4096 * (Suc P + n))) s2 = Some s'" "user_mapped s2 (Suc P) n s' F"
    using Suc.IH [OF u(1) _ _ u(10), of "Suc P"] u(13) Suc.prems(2,3,5) by auto
  have "user_mapped s P (Suc n) s' (f # F)"
  proof -
    have F: "paging_ok s'" "length F = n" "distinct F" "set F \<subseteq> low_frames s2" "keeps s2 s'" "\<forall>i \<in> set F. data_frame s' i"
      "\<forall>x < 4294967296. x div 4096 \<in> set F \<longrightarrow> memory s' (of_nat x) = 0" "card (free_frames s2) \<le> card (free_frames s') + 2 * n"
      "card (low_frames s2) \<le> card (low_frames s') + 2 * n" "direct_map s'"
      using r(2) by (auto simp: user_mapped_def)
    have tr: "translate s' w = (if P \<le> page_of w \<and> page_of w < P + Suc n
        then Some (of_nat (4096 * (f # F) ! (page_of w - P)) OR (w AND 0xFFF)) else translate s w)" for w
    proof -
      have "translate s' w = (if Suc P \<le> page_of w \<and> page_of w < Suc P + n
        then Some (of_nat (4096 * F ! (page_of w - Suc P)) OR (w AND 0xFFF)) else translate s2 w)"
        using r(2) unfolding user_mapped_def by blast
      then show ?thesis unfolding u(7) pg by (cases "page_of w = P") (auto simp: nth_Cons' simp del: of_nat_mult)
    qed
    have "memory s' (of_nat x) = 0" if "x < 4294967296" "x div 4096 = f" for x
      using F(5) u(5) u(6) that unfolding keeps_def by metis
    moreover have "data_frame s' f" using F(5) u(5) unfolding keeps_def by blast
    moreover have "f \<notin> set F" "set F \<subseteq> low_frames s" using F(4) u(12) by auto
    ultimately show ?thesis unfolding user_mapped_def using F tr u(11) keeps_trans [OF u(4) F(5)] u(3,13) by auto
  qed
  then show ?case unfolding step using r(1) by blast
qed

lemma map_user_memory_loop:
  assumes "sz \<noteq> 0" and "unat va + unat sz \<le> 4294963200"
  shows "paging_map_user_memory va sz s =
    map_user_loop (of_nat (4096 * (unat va div 4096))) (of_nat (4096 * ((unat va + unat sz + 4095) div 4096))) s"
    and "unat va div 4096 < (unat va + unat sz + 4095) div 4096" and "(unat va + unat sz + 4095) div 4096 < 1048576"
proof -
  let ?P = "unat va div 4096" and ?E = "(unat va + unat sz + 4095) div 4096"
  have pos: "0 < unat sz" using assms(1) by (simp add: unat_gt_0)
  show le1: "?P < ?E"
  proof -
    have "?P = (unat va + 4096) div 4096 - 1" by simp
    moreover have "(unat va + 4096) div 4096 \<le> ?E" using pos by (intro div_le_mono) simp
    ultimately show ?thesis by simp
  qed
  show le2: "?E < 1048576" using assms(2) by linarith
  have le: "?P \<le> ?E" "?E < 1048576" using le1 le2 by simp_all
  have m: "PAGE_SIZE - 1 = 0xFFF" by (simp add: PAGE_SIZE_def)
  have st: "va AND NOT (PAGE_SIZE - 1) = of_nat (4096 * ?P)"
    unfolding m by (rule u32_eqI) (use le in \<open>simp only: unat_page_base, subst unat_of_nat_u32, simp_all\<close>)
  have e: "va + sz + PAGE_SIZE - 1 = of_nat (unat va + unat sz + 4095)" by (simp add: PAGE_SIZE_def)
  have en: "(va + sz + PAGE_SIZE - 1) AND NOT (PAGE_SIZE - 1) = of_nat (4096 * ?E)"
    unfolding m e
  proof (rule u32_eqI)
    have "unat (of_nat (unat va + unat sz + 4095) :: u32) = unat va + unat sz + 4095" using assms(2) by (intro unat_of_nat_u32) simp
    moreover have "unat (of_nat (4096 * ?E) :: u32) = 4096 * ?E" using le(2) by (intro unat_of_nat_u32) simp
    ultimately show "unat (of_nat (unat va + unat sz + 4095) AND NOT 0xFFF :: u32) = unat (of_nat (4096 * ?E) :: u32)"
      unfolding unat_page_base by simp
  qed
  show "paging_map_user_memory va sz s = map_user_loop (of_nat (4096 * ?P)) (of_nat (4096 * ?E)) s"
    using assms(1) unfolding paging_map_user_memory_def st en by (simp only: if_False)
qed

lemma map_user_memory_pages:
  assumes "paging_ok s" and "direct_map s" and "sz \<noteq> 0" and "16777216 \<le> unat va" and "unat va + unat sz \<le> 4294963200"
    and "2 * ((unat va + unat sz + 4095) div 4096 - unat va div 4096) \<le> card (low_frames s)"
  shows "\<exists>s' F. paging_map_user_memory va sz s = Some s' \<and>
    user_mapped s (unat va div 4096) ((unat va + unat sz + 4095) div 4096 - unat va div 4096) s' F"
proof -
  let ?P = "unat va div 4096" and ?E = "(unat va + unat sz + 4095) div 4096"
  note l = map_user_memory_loop [OF assms(3,5)]
  have PE: "?P + (?E - ?P) = ?E" using l(2) by simp
  have "4096 \<le> ?P" using div_le_mono [OF assms(4), of 4096] by simp
  then show ?thesis using map_user_loop_pages [OF assms(1,6) _ assms(2), of ?P] l unfolding PE by simp
qed

lemma map_user_memory_faults:
  assumes "paging_ok s" and "sz \<noteq> 0" and "unat va + unat sz \<le> 4294963200"
    and "free_frames s \<noteq> {}" and t: "translate s (of_nat (4096 * Min (free_frames s))) = None"
  shows "paging_map_user_memory va sz s = None"
proof -
  let ?f = "Min (free_frames s)" and ?P = "unat va div 4096" and ?E = "(unat va + unat sz + 4095) div 4096"
  note l = map_user_memory_loop [OF assms(2,3)]
  note f = min_frame [OF assms(1,4)]
  have "4096 * ?f < 4294967296" using f(1) by (simp add: TOTAL_FRAMES_def)
  then have a0: "(of_nat (4096 * ?f) :: u32) \<noteq> 0" using of_nat_u32_eq_iff [of "4096 * ?f" 0] f(3) by simp
  have u: "unat (of_nat (4096 * ?P) :: u32) = 4096 * ?P" "unat (of_nat (4096 * ?E) :: u32) = 4096 * ?E"
    by (rule unat_of_nat_u32; use l(2,3) in simp)+
  have lt: "(of_nat (4096 * ?P) :: u32) < of_nat (4096 * ?E)"
    unfolding word_less_nat_alt u using l(2) by simp
  have m: "memset_at 4096 (of_nat (4096 * ?f)) 0 (bitmap_set (of_nat ?f) s) = None"
    by (rule memset_at_fault) (use t in \<open>simp_all del: of_nat_mult\<close>)
  show ?thesis
    unfolding l(1) using lt a0 m
    by (subst map_user_loop.simps) (simp only: if_True if_False alloc_frame_some [OF assms(4)] split_conv Let_def bind.simps)
qed

section \<open>Lemmas: the initial tables\<close>

lemma page_entry_3:
  assumes "f < 1048576"
  shows "unat (of_nat (4096 * f) OR 3 :: u32) = 4096 * f + 3" "(of_nat (4096 * f) OR 3 :: u32) AND 1 \<noteq> 0"
proof -
  have u: "unat (of_nat (4096 * f) :: u32) = 4096 * f" using assms by (intro unat_of_nat_u32) simp
  have m: "3 = (mask 2 :: u32)" by (simp add: mask_eq_exp_minus_1)
  have "(of_nat (4096 * f) :: u32) = push_bit 12 (of_nat f)" by (simp add: push_bit_eq_mult mult.commute)
  then have "(of_nat (4096 * f) :: u32) AND 3 = 0"
    unfolding m by (auto simp: bit_eq_iff bit_simps)
  then have "of_nat (4096 * f) OR 3 = (of_nat (4096 * f) + 3 :: u32)" by (simp add: or_add_u32)
  then show "unat (of_nat (4096 * f) OR 3 :: u32) = 4096 * f + 3" using assms u by (simp add: unat_add_u32)
  show "(of_nat (4096 * f) OR 3 :: u32) AND 1 \<noteq> 0"
    by (auto simp: bit_eq_iff bit_simps intro!: exI [of _ 0])
qed

lemma init_entries:
  assumes "a + 4 * n \<le> 4294967296"
  obtains m where "fold (\<lambda>entry_idx (s, address).
       (s\<lparr>memory := st32 (of_nat a + of_nat (4 * entry_idx)) (address OR (PAGE_PRESENT OR PAGE_RW)) (memory s)\<rparr>,
        address + PAGE_SIZE)) [0..<n] (s, of_nat (4096 * A)) = (s\<lparr>memory := m\<rparr>, of_nat (4096 * (A + n)))"
    and "\<And>k. k < n \<Longrightarrow> ld32 m (of_nat (a + 4 * k)) = of_nat (4096 * (A + k)) OR 3"
    and "\<And>x. x < 4294967296 \<Longrightarrow> x < a \<or> a + 4 * n \<le> x \<Longrightarrow> m (of_nat x) = memory s (of_nat x)"
  using assms
proof (induction n arbitrary: thesis)
  case 0
  show ?case by (rule 0(1) [of "memory s"]) auto
next
  case (Suc n)
  let ?f = "\<lambda>entry_idx (s, address).
       (s\<lparr>memory := st32 (of_nat a + of_nat (4 * entry_idx)) (address OR (PAGE_PRESENT OR PAGE_RW)) (memory s)\<rparr>,
        address + PAGE_SIZE)"
  obtain m where m: "fold ?f [0..<n] (s, of_nat (4096 * A)) = (s\<lparr>memory := m\<rparr>, of_nat (4096 * (A + n)))"
    "\<And>k. k < n \<Longrightarrow> ld32 m (of_nat (a + 4 * k)) = of_nat (4096 * (A + k)) OR 3"
    "\<And>x. x < 4294967296 \<Longrightarrow> x < a \<or> a + 4 * n \<le> x \<Longrightarrow> m (of_nat x) = memory s (of_nat x)"
    using Suc.IH Suc.prems(2) by auto
  let ?m = "st32 (of_nat (a + 4 * n)) (of_nat (4096 * (A + n)) OR 3) m"
  have b: "a + 4 * n + 4 \<le> 4294967296" using Suc.prems(2) by simp
  show ?case
  proof (rule Suc.prems(1))
    show "fold ?f [0..<Suc n] (s, of_nat (4096 * A)) = (s\<lparr>memory := ?m\<rparr>, of_nat (4096 * (A + Suc n)))"
      unfolding upt_Suc_append [OF le0] fold_append o_apply m(1) by (simp add: PAGE_PRESENT_def PAGE_RW_def PAGE_SIZE_def)
    fix k assume k: "k < Suc n"
    show "ld32 ?m (of_nat (a + 4 * k)) = of_nat (4096 * (A + k)) OR 3"
    proof (cases "k = n")
      case True
      then show ?thesis using ld32_st32_same [OF b] by simp
    next
      case False
      have "a + 4 * k + 4 \<le> 4294967296" "a + 4 * n + 4 \<le> a + 4 * k \<or> a + 4 * k + 4 \<le> a + 4 * n"
        using False k b by auto
      then have "ld32 ?m (of_nat (a + 4 * k)) = ld32 m (of_nat (a + 4 * k))" by (rule ld32_st32_other [OF b])
      then show ?thesis using m(2) [of k] False k by simp
    qed
  next
    fix x assume x: "x < 4294967296" "x < a \<or> a + 4 * Suc n \<le> x"
    then show "?m (of_nat x) = memory s (of_nat x)"
      using st32_nat [OF b x(1)] m(3) [OF x(1)] by auto
  qed
qed

lemma init_tables:
  assumes "n \<le> 1024" and "4096 * (T + n) \<le> 4294967296" and "length (page_directory s) = 1024"
  obtains m where "fold (\<lambda>table_idx (s, address).
           (let tbl = of_nat (4096 * T) + of_nat (4096 * table_idx);
                (s, address) = init_table tbl (s, address)
            in (s\<lparr>page_directory := (page_directory s)[table_idx :=
                  tbl OR (PAGE_PRESENT OR PAGE_RW OR PAGE_USER)]\<rparr>, address))) [0..<n] (s, 0) =
      (s\<lparr>memory := m, page_directory := map (\<lambda>i. of_nat (4096 * (T + i)) OR 7) [0..<n] @ drop n (page_directory s)\<rparr>,
       of_nat (4096 * (1024 * n)))"
    and "\<And>k. k < 1024 * n \<Longrightarrow> ld32 m (of_nat (4096 * T + 4 * k)) = of_nat (4096 * k) OR 3"
    and "\<And>x. x < 4294967296 \<Longrightarrow> x < 4096 * T \<or> 4096 * (T + n) \<le> x \<Longrightarrow> m (of_nat x) = memory s (of_nat x)"
  using assms
proof (induction n arbitrary: thesis)
  case 0
  show ?case by (rule 0(1) [of "memory s"]) (simp_all add: fun_eq_iff)
next
  case (Suc n)
  let ?f = "\<lambda>table_idx (s, address).
           (let tbl = of_nat (4096 * T) + of_nat (4096 * table_idx);
                (s, address) = init_table tbl (s, address)
            in (s\<lparr>page_directory := (page_directory s)[table_idx :=
                  tbl OR (PAGE_PRESENT OR PAGE_RW OR PAGE_USER)]\<rparr>, address))"
  let ?d = "map (\<lambda>i. of_nat (4096 * (T + i)) OR 7) [0..<n] @ drop n (page_directory s) :: u32 list"
  obtain m where m: "fold ?f [0..<n] (s, 0) = (s\<lparr>memory := m, page_directory := ?d\<rparr>, of_nat (4096 * (1024 * n)))"
    "\<And>k. k < 1024 * n \<Longrightarrow> ld32 m (of_nat (4096 * T + 4 * k)) = of_nat (4096 * k) OR 3"
    "\<And>x. x < 4294967296 \<Longrightarrow> x < 4096 * T \<or> 4096 * (T + n) \<le> x \<Longrightarrow> m (of_nat x) = memory s (of_nat x)"
    by (rule Suc.IH, rule that, assumption, blast, blast) (use Suc.prems in simp_all)
  let ?s = "s\<lparr>memory := m, page_directory := ?d\<rparr>" and ?a = "4096 * (T + n)"
  have b: "?a + 4 * 1024 \<le> 4294967296" using Suc.prems(3) by simp
  obtain m2 where m2: "fold (\<lambda>entry_idx (s, address).
       (s\<lparr>memory := st32 (of_nat ?a + of_nat (4 * entry_idx)) (address OR (PAGE_PRESENT OR PAGE_RW)) (memory s)\<rparr>,
        address + PAGE_SIZE)) [0..<1024] (?s, of_nat (4096 * (1024 * n))) = (?s\<lparr>memory := m2\<rparr>, of_nat (4096 * (1024 * n + 1024)))"
    "\<And>k. k < 1024 \<Longrightarrow> ld32 m2 (of_nat (?a + 4 * k)) = of_nat (4096 * (1024 * n + k)) OR 3"
    "\<And>x. x < 4294967296 \<Longrightarrow> x < ?a \<or> ?a + 4 * 1024 \<le> x \<Longrightarrow> m2 (of_nat x) = memory ?s (of_nat x)"
    by (rule init_entries [OF b, of ?s "1024 * n"], rule that, assumption, blast, blast)
  have tb: "of_nat (4096 * T) + of_nat (4096 * n) = (of_nat ?a :: u32)" by (simp add: algebra_simps)
  have it: "init_table (of_nat ?a) (?s, of_nat (4096 * (1024 * n))) = (?s\<lparr>memory := m2\<rparr>, of_nat (4096 * (1024 * Suc n)))"
    unfolding init_table_def using m2(1) by (simp add: algebra_simps)
  have f7: "PAGE_PRESENT OR PAGE_RW OR PAGE_USER = 7" by (simp add: PAGE_PRESENT_def PAGE_RW_def PAGE_USER_def)
  have dn: "drop n (page_directory s) = page_directory s ! n # drop (Suc n) (page_directory s)"
    using Suc.prems(2,4) by (simp add: Cons_nth_drop_Suc)
  have d: "?d[n := of_nat ?a OR 7] = map (\<lambda>i. of_nat (4096 * (T + i)) OR 7) [0..<Suc n] @ drop (Suc n) (page_directory s)"
    unfolding dn by (simp add: list_update_append)
  show ?case
  proof (rule Suc.prems(1))
    show "fold ?f [0..<Suc n] (s, 0) =
      (s\<lparr>memory := m2, page_directory := map (\<lambda>i. of_nat (4096 * (T + i)) OR 7) [0..<Suc n] @ drop (Suc n) (page_directory s)\<rparr>,
       of_nat (4096 * (1024 * Suc n)))"
    proof -
      have "fold ?f [0..<Suc n] (s, 0) = ?f n (fold ?f [0..<n] (s, 0))" by simp
      also have "\<dots> = ?f n (?s, of_nat (4096 * (1024 * n)))" unfolding m(1) ..
      also have "\<dots> = (?s\<lparr>memory := m2, page_directory := ?d[n := of_nat ?a OR 7]\<rparr>, of_nat (4096 * (1024 * Suc n)))"
        unfolding prod.case Let_def tb it f7 by simp
      finally show ?thesis unfolding d by simp
    qed
    show "m2 (of_nat x) = memory s (of_nat x)" if "x < 4294967296" "x < 4096 * T \<or> 4096 * (T + Suc n) \<le> x" for x
      using m2(3) [of x] m(3) [of x] that by auto
    fix k assume k: "k < 1024 * Suc n"
    show "ld32 m2 (of_nat (4096 * T + 4 * k)) = of_nat (4096 * k) OR 3"
    proof (cases "k < 1024 * n")
      case True
      have "m2 (of_nat (4096 * T + 4 * k + j)) = m (of_nat (4096 * T + 4 * k + j))" if "j < 4" for j
        using m2(3) [of "4096 * T + 4 * k + j"] True that b by auto
      from this [of 0] this [of 1] this [of 2] this [of 3]
      have "ld32 m2 (of_nat (4096 * T + 4 * k)) = ld32 m (of_nat (4096 * T + 4 * k))"
        unfolding ld32_nat by (simp del: of_nat_add of_nat_mult)
      then show ?thesis using m(2) [OF True] by simp
    next
      case False
      have "?a + 4 * (k - 1024 * n) = 4096 * T + 4 * k" "1024 * n + (k - 1024 * n) = k" "k - 1024 * n < 1024"
        using False k by auto
      then show ?thesis using m2(2) [of "k - 1024 * n"] by metis
    qed
  qed
qed

lemma fold_fill: "n \<le> length xs \<Longrightarrow> fold (\<lambda>i xs. xs[i := v]) [0..<n] xs = replicate n v @ drop n xs"
proof (induction n)
  case (Suc n)
  then have "drop n xs = xs ! n # drop (Suc n) xs" by (simp add: Cons_nth_drop_Suc)
  with Suc show ?case by (simp add: list_update_append replicate_append_same [symmetric])
qed simp

lemma fold_record:
  "fold (\<lambda>i s. s\<lparr>page_directory := g i (page_directory s)\<rparr>) is s = s\<lparr>page_directory := fold g is (page_directory s)\<rparr>"
  "fold (\<lambda>i s. s\<lparr>frame_bitmap := g i (frame_bitmap s)\<rparr>) is s = s\<lparr>frame_bitmap := fold g is (frame_bitmap s)\<rparr>"
  by (induction "is" arbitrary: s) simp_all

lemma reserve_frames:
  assumes "n \<le> TOTAL_FRAMES" and "length (frame_bitmap s) = BITMAP_SIZE" and "j < TOTAL_FRAMES"
  shows "used_frame (fold (\<lambda>i. bitmap_set (of_nat i)) [0..<n] s) j \<longleftrightarrow> j < n \<or> used_frame s j"
    and "page_directory (fold (\<lambda>i. bitmap_set (of_nat i)) [0..<n] s) = page_directory s"
    and "memory (fold (\<lambda>i. bitmap_set (of_nat i)) [0..<n] s) = memory s"
    and "length (frame_bitmap (fold (\<lambda>i. bitmap_set (of_nat i)) [0..<n] s)) = BITMAP_SIZE"
  using assms by (induction n) (auto simp: used_bitmap_set)

lemma paging_init_state:
  assumes len: "length (page_directory s) = 1024" "length (frame_bitmap s) = BITMAP_SIZE"
    and T: "4096 * (T + 4) \<le> unat kend" "unat kend \<le> 67108864"
  defines "s' \<equiv> paging_init (of_nat (4096 * T)) kend s" and "R \<equiv> (unat kend + 4095) div 4096"
  shows "page_directory s' = map (\<lambda>i. of_nat (4096 * (T + i)) OR 7) [0..<4] @ replicate 1020 2"
    and "length (frame_bitmap s') = BITMAP_SIZE" and "j < TOTAL_FRAMES \<Longrightarrow> used_frame s' j \<longleftrightarrow> j < R"
    and "k < 4096 \<Longrightarrow> ld32 (memory s') (of_nat (4096 * T + 4 * k)) = of_nat (4096 * k) OR 3"
    and "x < 4294967296 \<Longrightarrow> x < 4096 * T \<or> 4096 * (T + 4) \<le> x \<Longrightarrow> memory s' (of_nat x) = memory s (of_nat x)"
proof -
  let ?s2 = "s\<lparr>page_directory := replicate 1024 2, frame_bitmap := replicate BITMAP_SIZE 0\<rparr>"
  let ?s3 = "fold (\<lambda>i. bitmap_set (of_nat i)) [0..<R] ?s2"
  have "unat (kend + PAGE_SIZE - 1) = unat kend + 4095"
  proof -
    have e: "kend + PAGE_SIZE - 1 = kend + 4095" by (simp add: PAGE_SIZE_def)
    show ?thesis unfolding e using T(2) by (simp add: unat_add_u32)
  qed
  then have R: "unat ((kend + PAGE_SIZE - 1) div PAGE_SIZE) = R" by (simp add: unat_div R_def PAGE_SIZE_def)
  have Rb: "R \<le> TOTAL_FRAMES" using T(2) unfolding R_def TOTAL_FRAMES_def by linarith
  have l2: "length (frame_bitmap ?s2) = BITMAP_SIZE" by simp
  have r: "page_directory ?s3 = replicate 1024 2" "length (frame_bitmap ?s3) = BITMAP_SIZE"
    using reserve_frames(2,4) [OF Rb l2, of 0] by (simp_all add: TOTAL_FRAMES_def)
  have u3: "j < TOTAL_FRAMES \<Longrightarrow> used_frame ?s3 j \<longleftrightarrow> j < R" for j
    using reserve_frames(1) [OF Rb l2, of j] frame_word(3) [of j] by (simp add: used_frame_def [of ?s2])
  have b: "(4 :: nat) \<le> 1024" "4096 * (T + 4) \<le> 4294967296" "length (page_directory ?s3) = 1024" using T r by simp_all
  obtain m where m: "fold (\<lambda>table_idx (s, address).
           (let tbl = of_nat (4096 * T) + of_nat (4096 * table_idx);
                (s, address) = init_table tbl (s, address)
            in (s\<lparr>page_directory := (page_directory s)[table_idx :=
                  tbl OR (PAGE_PRESENT OR PAGE_RW OR PAGE_USER)]\<rparr>, address))) [0..<4] (?s3, 0) =
      (?s3\<lparr>memory := m, page_directory := map (\<lambda>i. of_nat (4096 * (T + i)) OR 7) [0..<4] @ drop 4 (page_directory ?s3)\<rparr>,
       of_nat (4096 * (1024 * 4)))"
    "\<And>k. k < 1024 * 4 \<Longrightarrow> ld32 m (of_nat (4096 * T + 4 * k)) = of_nat (4096 * k) OR 3"
    "\<And>x. x < 4294967296 \<Longrightarrow> x < 4096 * T \<or> 4096 * (T + 4) \<le> x \<Longrightarrow> m (of_nat x) = memory ?s3 (of_nat x)"
    by (rule init_tables [OF b], rule that, assumption, blast, blast)
  have s': "s' = ?s3\<lparr>memory := m, page_directory := map (\<lambda>i. of_nat (4096 * (T + i)) OR 7) [0..<4] @ drop 4 (page_directory ?s3)\<rparr>"
  proof -
    have d: "fold (\<lambda>i xs. xs[i := 2]) [0..<1024] (page_directory s) = replicate 1024 2"
      using fold_fill [of 1024 "page_directory s" 2] len(1) by simp
    have f: "fold (\<lambda>i xs. xs[i := 0]) [0..<BITMAP_SIZE] (frame_bitmap s) = replicate BITMAP_SIZE 0"
      using fold_fill [of BITMAP_SIZE "frame_bitmap s" 0] len(2) by simp
    have s2: "fold (\<lambda>i s. s\<lparr>frame_bitmap := (frame_bitmap s)[i := 0]\<rparr>) [0..<BITMAP_SIZE]
        (fold (\<lambda>i s. s\<lparr>page_directory := (page_directory s)[i := 0x00000002]\<rparr>) [0..<1024] s) = ?s2"
      unfolding fold_record(1) [of "\<lambda>i xs. xs[i := 2]"] fold_record(2) [of "\<lambda>i xs. xs[i := 0]"] d by (simp add: f)
    show ?thesis
      unfolding s'_def paging_init_def Let_def [of "fold _ _ _"] Let_def [of "_ div _"] s2 R m(1) by simp
  qed
  show "page_directory s' = map (\<lambda>i. of_nat (4096 * (T + i)) OR 7) [0..<4] @ replicate 1020 2"
    unfolding s' r by simp
  show "length (frame_bitmap s') = BITMAP_SIZE" unfolding s' using r(2) by simp
  show "j < TOTAL_FRAMES \<Longrightarrow> used_frame s' j \<longleftrightarrow> j < R" unfolding s' using u3 by simp
  show "k < 4096 \<Longrightarrow> ld32 (memory s') (of_nat (4096 * T + 4 * k)) = of_nat (4096 * k) OR 3"
    unfolding s' using m(2) by simp
  have "memory ?s3 = memory s" using reserve_frames(3) [OF Rb l2, of 0] by (simp add: TOTAL_FRAMES_def)
  then show "x < 4294967296 \<Longrightarrow> x < 4096 * T \<or> 4096 * (T + 4) \<le> x \<Longrightarrow> memory s' (of_nat x) = memory s (of_nat x)"
    unfolding s' using m(3) [of x] by simp
qed

lemma identity_entry:
  assumes "page_of u < 4096"
  shows "((of_nat (4096 * page_of u) OR 3) AND NOT 0xFFF) OR (u AND 0xFFF) = u"
proof (rule u32_eqI)
  have f: "page_of u < 1048576" using assms by simp
  show "unat (((of_nat (4096 * page_of u) OR 3) AND NOT 0xFFF) OR (u AND 0xFFF)) = unat u"
    unfolding page_plus_offset page_entry_3(1) [OF f] by (simp add: page_of_def)
qed

lemma paging_init_ok:
  assumes len: "length (page_directory s) = 1024" "length (frame_bitmap s) = BITMAP_SIZE"
    and T: "4096 * (T + 4) \<le> unat kend" "unat kend \<le> 67108864"
  defines "s' \<equiv> paging_init (of_nat (4096 * T)) kend s"
  shows "paging_ok s'" and "translate s' u = (if unat u < 16777216 then Some u else None)"
    and "free_frames s' = {(unat kend + 4095) div 4096..<TOTAL_FRAMES}" and "T + 4 \<le> 4096 \<Longrightarrow> direct_map s'"
proof -
  note i = paging_init_state [OF len T, folded s'_def]
  have Tb: "T + 4 \<le> 16384" using T by simp
  have pd: "page_directory s' ! j = (if j < 4 then of_nat (4096 * (T + j)) OR 7 else 2)" if "j < 1024" for j
    using that unfolding i(1) by (simp add: nth_append)
  have pr: "present s' j \<longleftrightarrow> j < 4" for j
    using pd [of j] page_entry(2) [of "T + j"] Tb unfolding present_def by (cases "j < 4") auto
  have tf: "table_frame s' j = T + j" if "j < 4" for j
    using pd [of j] page_entry(1) [of "T + j"] Tb that unfolding table_frame_def by simp
  have R: "T + 4 \<le> (unat kend + 4095) div 4096"
    using T(1) div_le_mono [of "4096 * (T + 4)" "unat kend + 4095" 4096] by simp
  show "paging_ok s'"
    using i(1,2) i(3) tf R Tb unfolding paging_ok_def pr by (auto simp: TOTAL_FRAMES_def)
  show "free_frames s' = {(unat kend + 4095) div 4096..<TOTAL_FRAMES}"
    using i(3) by (auto simp: free_frames_def not_less)
  show tr: "translate s' u = (if unat u < 16777216 then Some u else None)" for u
  proof (cases "unat u < 16777216")
    case True
    then have p: "page_of u < 4096" "pd_of u < 4" by (simp_all add: page_of_def pd_of_def less_mult_imp_div_less)
    have "slot s' u = 4096 * T + 4 * page_of u"
    proof -
      have "pd_of u * 1024 + page_of u mod 1024 = page_of u" unfolding pd_of_page(1) by (rule div_mult_mod_eq)
      then show ?thesis unfolding slot_def tf [OF p(2)] add_mult_distrib by linarith
    qed
    then have "ld32 (memory s') (of_nat (slot s' u)) = of_nat (4096 * page_of u) OR 3" using i(4) [OF p(1)] by simp
    then show ?thesis
      using p page_entry_3(2) [of "page_of u"] True pr unfolding translate_slot Let_def
      by (simp only: identity_entry [OF p(1)] if_True if_False simp_thms)
  next
    case False
    then have "\<not> pd_of u < 4" by (simp add: pd_of_def)
    then show ?thesis using False by (simp add: translate_slot pr)
  qed
  show "T + 4 \<le> 4096 \<Longrightarrow> direct_map s'" using tr tf by (auto simp: direct_map_def pr)
qed

lemma boot_paging_ok:
  "paging_ok boot_paging" "translate boot_paging u = (if unat u < 16777216 then Some u else None)"
  "free_frames boot_paging = {512..<16384}" "direct_map boot_paging"
  using paging_init_ok [of "\<lparr>page_directory = replicate 1024 0, frame_bitmap = replicate 512 0, memory = \<lambda>_. 0\<rparr>" 256 "0x200000"]
  by (simp_all add: boot_paging_def BITMAP_SIZE_def TOTAL_FRAMES_def)

lemma boot_low_frames: "low_frames boot_paging = {512..<4096}" "card (low_frames boot_paging) = 3584"
proof -
  show "low_frames boot_paging = {512..<4096}"
    unfolding low_frames_def boot_paging_ok by (simp only: set_eq_iff mem_Collect_eq atLeastLessThan_iff) linarith
  then show "card (low_frames boot_paging) = 3584" by simp
qed

section \<open>Properties\<close>

text \<open>
  \<open>alloc_frame\<close> returns the lowest free frame and marks exactly this one as used, without any effect
  on translation or memory, and \<open>free_frame\<close> takes it back; it returns \<open>NULL\<close> exactly when no frame is free.
\<close>

theorem alloc_frame_lowest:
  assumes "paging_ok s"
  shows "(free_frames s = {} \<longrightarrow> alloc_frame s = (s, 0)) \<and>
    (free_frames s \<noteq> {} \<longrightarrow>
      (\<exists>s' f. alloc_frame s = (s', of_nat (4096 * f)) \<and> of_nat (4096 * f) \<noteq> (0 :: u32) \<and> f \<in> free_frames s \<and>
         (\<forall>g \<in> free_frames s. f \<le> g) \<and> free_frames s' = free_frames s - {f} \<and> paging_ok s' \<and>
         (\<forall>u. translate s' u = translate s u) \<and> memory s' = memory s \<and>
         free_frames (free_frame (of_nat (4096 * f)) s') = free_frames s))"
proof (intro conjI impI)
  assume ne: "free_frames s \<noteq> {}"
  define f where "f = Min (free_frames s)"
  note f = min_frame [OF assms ne, folded f_def]
  have l: "length (frame_bitmap s) = BITMAP_SIZE" using assms by (simp add: paging_ok_def)
  have fb: "4096 * f < 4294967296" using f(1) by (simp add: TOTAL_FRAMES_def)
  then have "(of_nat (4096 * f) :: u32) \<noteq> 0" using of_nat_u32_eq_iff [of "4096 * f" 0] f(3) by simp
  moreover have "of_nat (4096 * f) div PAGE_SIZE = (of_nat f :: u32)"
    by (rule u32_eqI) (use f(1) in \<open>simp add: unat_div unat_of_nat_u32 [OF fb] unat_of_nat_u32 PAGE_SIZE_def TOTAL_FRAMES_def del: of_nat_mult\<close>)
  then have "free_frames (free_frame (of_nat (4096 * f)) (bitmap_set (of_nat f) s)) = free_frames s"
    using used_bitmap_clear [of "bitmap_set (of_nat f) s" f] bitmap_set_ok(3) [OF assms f(1)] f(1,2) l
    by (auto simp: free_frame_def free_frames_def)
  moreover have "f \<in> free_frames s" "\<forall>g \<in> free_frames s. f \<le> g" using ne by (auto simp: f_def)
  ultimately show "\<exists>s' f. alloc_frame s = (s', of_nat (4096 * f)) \<and> of_nat (4096 * f) \<noteq> (0 :: u32) \<and> f \<in> free_frames s \<and>
         (\<forall>g \<in> free_frames s. f \<le> g) \<and> free_frames s' = free_frames s - {f} \<and> paging_ok s' \<and>
         (\<forall>u. translate s' u = translate s u) \<and> memory s' = memory s \<and>
         free_frames (free_frame (of_nat (4096 * f)) s') = free_frames s"
    using alloc_frame_some [OF ne, folded f_def] free_frames_set [OF l f(1)] bitmap_set_ok(1) [OF assms f(1)]
    by (intro exI [of _ "bitmap_set (of_nat f) s"] exI [of _ f]) simp
qed (rule alloc_frame_none)

theorem alloc_frame_lowest_witness:
  "\<exists>s'. alloc_frame boot_paging = (s', 0x200000) \<and> free_frames s' = {513..<16384}"
proof -
  have ne: "free_frames boot_paging \<noteq> {}" by (simp add: boot_paging_ok)
  obtain s' f where a: "alloc_frame boot_paging = (s', of_nat (4096 * f))" "f \<in> free_frames boot_paging"
    "\<forall>g \<in> free_frames boot_paging. f \<le> g" "free_frames s' = free_frames boot_paging - {f}"
    using alloc_frame_lowest [OF boot_paging_ok(1)] ne by blast
  have "512 \<in> free_frames boot_paging" by (simp add: boot_paging_ok)
  then have "f \<le> 512" using a(3) by blast
  then have f: "f = 512" using a(2) by (simp add: boot_paging_ok)
  have "{512..<16384} - {512} = {513..<16384 :: nat}" by (simp only: set_eq_iff Diff_iff atLeastLessThan_iff singleton_iff) linarith
  then have "free_frames s' = {513..<16384}" using a(4) unfolding boot_paging_ok f by simp
  moreover have "alloc_frame boot_paging = (s', 0x200000)" using a(1) unfolding f by simp
  ultimately show ?thesis by blast
qed

text \<open>
  After \<open>paging_init\<close> every address below 16 MB is translated to itself and no other address at all;
  the free frames are those from the end of kernel and heap up to 64 MB, and the page tables are
  well-formed, provided that the preallocated tables lie in the kernel image.
\<close>

theorem paging_init_identity:
  assumes "length (page_directory s) = 1024" "length (frame_bitmap s) = 512"
    and "4096 * (T + 4) \<le> unat kend" "unat kend \<le> 67108864"
  shows "paging_ok (paging_init (of_nat (4096 * T)) kend s) \<and>
    (\<forall>u. translate (paging_init (of_nat (4096 * T)) kend s) u = (if unat u < 16777216 then Some u else None)) \<and>
    free_frames (paging_init (of_nat (4096 * T)) kend s) = {(unat kend + 4095) div 4096..<16384}"
  using paging_init_ok [of s T kend] assms by (simp add: BITMAP_SIZE_def TOTAL_FRAMES_def)

theorem paging_init_identity_witness:
  "translate boot_paging 0x123456 = Some 0x123456 \<and> translate boot_paging 0x1000000 = None"
  using paging_init_identity [of "\<lparr>page_directory = replicate 1024 0, frame_bitmap = replicate 512 0, memory = \<lambda>_. 0\<rparr>" 256 "0x200000"]
  by (simp add: boot_paging_def)

text \<open>
  C9: \<open>map_page\<close>, with the page tables in the identity mapping of the first 16 MB. When the page of \<open>v\<close> has a table, or the lowest
  free frame, which becomes the table, is in the identity mapping, it makes the page lead to the frame of \<open>p\<close> and
  changes the translation of no other page, the contents of no data frame and not the
  well-formedness of the tables, and from 16 MB on the identity mapping stays. When no frame is free nothing changes,
  without a report. When the new table would be in a frame that is not mapped, clearing it is a page fault.
\<close>

theorem map_page_translates:
  assumes "paging_ok s" and "direct_map s" and "fl AND PAGE_PRESENT \<noteq> 0"
  shows "(present s (unat v div 4194304) \<or> free_frames s \<noteq> {} \<and> Min (free_frames s) < 4096 \<longrightarrow>
      (\<exists>s'. map_page p v fl s = Some s' \<and> paging_ok s' \<and>
        (\<forall>u. translate s' u = (if unat u div 4096 = unat v div 4096 then Some ((p AND NOT 0xFFF) OR (u AND 0xFFF)) else translate s u)) \<and>
        keeps s s' \<and> (4096 \<le> unat v div 4096 \<longrightarrow> direct_map s'))) \<and>
    (\<not> present s (unat v div 4194304) \<and> free_frames s = {} \<longrightarrow> map_page p v fl s = Some s) \<and>
    (\<not> present s (unat v div 4194304) \<and> free_frames s \<noteq> {} \<and> translate s (of_nat (4096 * Min (free_frames s))) = None \<longrightarrow>
      map_page p v fl s = None)"
proof (intro conjI impI)
  have fl: "fl AND 1 \<noteq> 0" using assms(3) by (simp add: PAGE_PRESENT_def)
  assume "present s (unat v div 4194304) \<or> free_frames s \<noteq> {} \<and> Min (free_frames s) < 4096"
  then have room: "present s (pd_of v) \<or> free_frames s \<noteq> {} \<and> Min (free_frames s) < 4096" by (simp add: pd_of_def)
  then have room': "present s (pd_of v) \<or> free_frames s \<noteq> {}" by blast
  show "\<exists>s'. map_page p v fl s = Some s' \<and> paging_ok s' \<and>
        (\<forall>u. translate s' u = (if unat u div 4096 = unat v div 4096 then Some ((p AND NOT 0xFFF) OR (u AND 0xFFF)) else translate s u)) \<and>
        keeps s s' \<and> (4096 \<le> unat v div 4096 \<longrightarrow> direct_map s')"
    using map_page_eq [OF assms(1,2) room, where p = p and fl = fl] map_page_step(1,2,4) [OF assms(1) fl room', of p] fl
    unfolding page_of_def by blast
qed (use map_page_full map_page_faults [OF assms(1)] in \<open>auto simp: pd_of_def\<close>)

theorem map_page_translates_witness:
  "\<exists>s'. map_page 0x300000 0x40000000 7 boot_paging = Some s' \<and> translate s' 0x40000123 = Some 0x300123 \<and>
     translate s' 0x40001000 = None \<and> direct_map s'"
proof -
  have "512 \<in> free_frames boot_paging" by (simp add: boot_paging_ok)
  then have "free_frames boot_paging \<noteq> {}" "Min (free_frames boot_paging) \<le> 512" by auto
  then have "free_frames boot_paging \<noteq> {} \<and> Min (free_frames boot_paging) < 4096" by simp
  then obtain s' where "map_page 0x300000 0x40000000 7 boot_paging = Some s'"
    "\<And>u. translate s' u = (if unat u div 4096 = unat (0x40000000 :: u32) div 4096
       then Some ((0x300000 AND NOT 0xFFF) OR (u AND 0xFFF)) else translate boot_paging u)"
    "4096 \<le> unat (0x40000000 :: u32) div 4096 \<longrightarrow> direct_map s'"
    using map_page_translates [OF boot_paging_ok(1,4), of 7 "0x40000000" "0x300000"] by (auto simp: PAGE_PRESENT_def)
  then show ?thesis by (intro exI [of _ s']) (simp add: boot_paging_ok)
qed

text \<open>
  C30: \<open>paging_map_user_memory\<close> on a block above the identity mapping ends, and maps every page of the block to a zeroed frame of its own that
  was free before; nothing else is translated differently and no other data frame changes. Two
  free frames below 16 MB for each page are enough. Frames are handed out up to 64 MB, however: when the lowest free
  frame is not mapped, clearing it through its address is a page fault.
\<close>

theorem map_user_memory_fresh_frames:
  assumes "paging_ok s" and "direct_map s" and "sz \<noteq> 0" and "16777216 \<le> unat va" and "unat va + unat sz \<le> 4294963200"
  shows "(2 * ((unat va + unat sz + 4095) div 4096 - unat va div 4096) \<le> card (low_frames s) \<longrightarrow>
      (\<exists>s' F. paging_map_user_memory va sz s = Some s' \<and>
        user_mapped s (unat va div 4096) ((unat va + unat sz + 4095) div 4096 - unat va div 4096) s' F)) \<and>
    (free_frames s \<noteq> {} \<and> translate s (of_nat (4096 * Min (free_frames s))) = None \<longrightarrow> paging_map_user_memory va sz s = None)"
  using map_user_memory_pages [OF assms] map_user_memory_faults [OF assms(1,3,5)] by blast

theorem map_user_memory_fresh_frames_witness:
  "\<exists>s' F. paging_map_user_memory 0xBFFFB000 0x4000 boot_paging = Some s' \<and> length F = 4 \<and> distinct F \<and>
    translate s' 0xBFFFB010 = Some (of_nat (4096 * F ! 0) OR 0x10) \<and> translate s' 0xBFFFF000 = None"
proof -
  obtain s' F where "paging_map_user_memory 0xBFFFB000 0x4000 boot_paging = Some s'" "user_mapped boot_paging 786427 4 s' F"
    using map_user_memory_fresh_frames [OF boot_paging_ok(1,4), of "0x4000" "0xBFFFB000"] by (auto simp: boot_low_frames)
  then show ?thesis unfolding user_mapped_def
    by (intro exI [of _ s'] exI [of _ F]) (simp add: page_of_def boot_paging_ok)
qed

end
