(* ===== verification/Net.thy ===== *)
theory Net
  imports Memory Console Paging
begin

text \<open>
  The network stack (\<open>src/kernel/net\<close>): Ethernet frames, the ARP cache, IPv4 and ICMP echo. Packets
  are bytes in memory: a received frame lies in the receive ring, which is a block of the kernel
  heap, and packets to be sent are built in blocks of the heap. \<open>None\<close> stands for a run that does
  not return or whose behaviour C leaves undefined.
\<close>

unbundle bit_operations_syntax

section \<open>State\<close>

record arp_entry =
  ae_ip :: u32
  ae_mac :: "u8 list"
  ae_assigned :: bool

text \<open>
  The globals of the stack and of the driver. \<open>tx\<close> are the frames handed to the network card with
  the transmit size, in order, \<open>capr\<close> is the value last written to the card's read pointer, \<open>tty\<close>
  are the characters printed, and \<open>isr_reads\<close> are the values that the next reads of the card's
  interrupt status register return: the card is not part of the kernel and they are arbitrary.
\<close>

record net =
  heap :: kheap
  arp_cache :: "arp_entry list"
  mac_address :: "u8 list"
  rx_buffer :: u32
  rx_offset :: u32
  current_tx_descriptor :: u8
  isr_reads :: "u16 list"
  capr :: u16
  tx :: "(u8 list \<times> u32) list"
  tty :: "u8 list"

abbreviation mem :: "net \<Rightarrow> u32 \<Rightarrow> u8" where
  "mem s \<equiv> ram (heap s)"

definition MAKE_IP :: "u8 \<Rightarrow> u8 \<Rightarrow> u8 \<Rightarrow> u8 \<Rightarrow> u32" where
  "MAKE_IP a b c d = ucast a OR push_bit 8 (ucast b) OR push_bit 16 (ucast c) OR push_bit 24 (ucast d)"

definition sojeb_os_ip :: u32 where
  "sojeb_os_ip = MAKE_IP 192 168 10 11"

text \<open>A 16-bit field in memory, and a change of the memory.\<close>

definition ld16 :: "(u32 \<Rightarrow> u8) \<Rightarrow> u32 \<Rightarrow> u16" where
  "ld16 m a = u16_le (m a) (m (a + 1))"

definition set_mem :: "(u32 \<Rightarrow> u8) \<Rightarrow> net \<Rightarrow> net" where
  "set_mem m s = s\<lparr>heap := (heap s)\<lparr>ram := m\<rparr>\<rparr>"

section \<open>The network card\<close>

text \<open>The loops that wait for a bit of a register, over the values the reads return; \<open>None\<close> never ends.\<close>

fun wait_tok :: "u8 \<Rightarrow> u16 list \<Rightarrow> u16 list option" where
  "wait_tok d [] = None"
| "wait_tok d (v # vs) = (if v AND push_bit (unat d + 2) 1 \<noteq> 0 then Some vs else wait_tok d vs)"

fun wait_reset :: "u8 list \<Rightarrow> u8 list option" where
  "wait_reset [] = None"
| "wait_reset (v # vs) = (if v AND 0x10 \<noteq> 0 then wait_reset vs else Some vs)"

text \<open>
  \<open>cmd_reads\<close> are the values of the command register during the reset, \<open>id_reg\<close> the six bytes of the
  card's station address.
\<close>

definition rtl8139_init :: "u8 list \<Rightarrow> (nat \<Rightarrow> u8) \<Rightarrow> net \<Rightarrow> net option" where
  "rtl8139_init cmd_reads id_reg s =
     Option.bind (kmalloc 9708 (heap s))
       (\<lambda>(h, p).
          let s = s\<lparr>rx_buffer := p, heap := h\<lparr>ram := fill_ram 9708 p 0 (ram h)\<rparr>\<rparr>
          in map_option (\<lambda>_. s\<lparr>mac_address := map id_reg [0..<6]\<rparr>) (wait_reset cmd_reads))"

text \<open>
  The frame is given to the card with its length, padded to the minimum of 60 bytes; when the card
  has reported the end of the transmission the next descriptor is used.
\<close>

definition rtl8139_send_packet :: "u8 list \<Rightarrow> u32 \<Rightarrow> net \<Rightarrow> net option" where
  "rtl8139_send_packet data len s =
     (let transmit_size = (if len < 60 then 60 else len);
          s = s\<lparr>tx := tx s @ [(data, transmit_size)]\<rparr>
      in map_option (\<lambda>vs. s\<lparr>isr_reads := vs, current_tx_descriptor := (current_tx_descriptor s + 1) mod 4\<rparr>)
           (wait_tok (current_tx_descriptor s) (isr_reads s)))"

section \<open>Ethernet: sending\<close>

text \<open>
  \<open>data\<close> are the \<open>len\<close> bytes of the payload; the frame buffer has room for 1500 of them, and a
  longer payload is copied over the end of the buffer.
\<close>

definition ethernet_send_packet :: "u8 list \<Rightarrow> u16 \<Rightarrow> u8 list \<Rightarrow> u32 \<Rightarrow> net \<Rightarrow> net option" where
  "ethernet_send_packet dest_mac type data len s =
     (if 1500 < len then None
      else
        (let header = dest_mac @ mac_address s @ bytes16 (bswap16 type)
         in rtl8139_send_packet (header @ data) (len + 14) s))"

section \<open>ARP\<close>

record arp_packet =
  htype :: u16
  ptype :: u16
  hlen :: u8
  plen :: u8
  oper :: u16
  src_mac :: "u8 list"
  src_ip :: u32
  dest_mac :: "u8 list"
  dest_ip :: u32

definition arp_bytes :: "arp_packet \<Rightarrow> u8 list" where
  "arp_bytes p = bytes16 (htype p) @ bytes16 (ptype p) @ [hlen p, plen p] @ bytes16 (oper p) @
     src_mac p @ bytes32 (src_ip p) @ dest_mac p @ bytes32 (dest_ip p)"

definition arp_at :: "(u32 \<Rightarrow> u8) \<Rightarrow> u32 \<Rightarrow> arp_packet" where
  "arp_at m d =
     \<lparr>htype = ld16 m d, ptype = ld16 m (d + 2), hlen = m (d + 4), plen = m (d + 5), oper = ld16 m (d + 6),
      src_mac = load_ram m (d + 8) 6, src_ip = ld32 m (d + 14), dest_mac = load_ram m (d + 18) 6, dest_ip = ld32 m (d + 24)\<rparr>"

text \<open>The loop that stores the sender: the first entry that is free or has this address.\<close>

fun arp_learn :: "u32 \<Rightarrow> u8 list \<Rightarrow> arp_entry list \<Rightarrow> arp_entry list" where
  "arp_learn ip mac [] = []"
| "arp_learn ip mac (e # es) =
     (if \<not> ae_assigned e \<or> ae_ip e = ip then \<lparr>ae_ip = ip, ae_mac = mac, ae_assigned = True\<rparr> # es
      else e # arp_learn ip mac es)"

fun arp_find :: "arp_entry list \<Rightarrow> u32 \<Rightarrow> u8 list option" where
  "arp_find [] ip = None"
| "arp_find (e # es) ip = (if ae_assigned e \<and> ae_ip e = ip then Some (ae_mac e) else arp_find es ip)"

definition arp_handle_packet :: "u32 \<Rightarrow> u32 \<Rightarrow> net \<Rightarrow> net option" where
  "arp_handle_packet data len s =
     (if len < 28 then Some s
      else
        (let arp = arp_at (mem s) data;
             op = bswap16 (oper arp);
             s = s\<lparr>arp_cache := arp_learn (src_ip arp) (src_mac arp) (arp_cache s)\<rparr>
         in if op = 1 \<and> dest_ip arp = sojeb_os_ip then
              (let reply = \<lparr>htype = bswap16 1, ptype = bswap16 0x0800, hlen = 6, plen = 4, oper = bswap16 2,
                            src_mac = mac_address s, src_ip = sojeb_os_ip, dest_mac = src_mac arp, dest_ip = src_ip arp\<rparr>
               in ethernet_send_packet (src_mac arp) 0x0806 (arp_bytes reply) 28 s)
            else Some s))"

definition arp_send_request :: "u32 \<Rightarrow> net \<Rightarrow> net option" where
  "arp_send_request target_ip s =
     (let request = \<lparr>htype = bswap16 1, ptype = bswap16 0x0800, hlen = 6, plen = 4, oper = bswap16 1,
                     src_mac = mac_address s, src_ip = sojeb_os_ip, dest_mac = replicate 6 0, dest_ip = target_ip\<rparr>
      in ethernet_send_packet (replicate 6 0xFF) 0x0806 (arp_bytes request) 28 s)"

definition arp_lookup :: "u32 \<Rightarrow> net \<Rightarrow> u8 list option" where
  "arp_lookup ip s = arp_find (arp_cache s) ip"

section \<open>IPv4\<close>

function checksum_sum :: "(u32 \<Rightarrow> u8) \<Rightarrow> u32 \<Rightarrow> u32 \<Rightarrow> u32 \<Rightarrow> u32" where
  "checksum_sum m data length' acc =
     (if 1 < length' then checksum_sum m (data + 2) (length' - 2) (acc + ucast (ld16 m data))
      else if 0 < length' then acc + ucast (m data)
      else acc)"
  by auto
termination
  by (relation "measure (\<lambda>(m, data, length', acc). unat length')")
    (auto simp: word_less_nat_alt unat_sub_u32)

lemma fold_step:
  "unat (drop_bit 16 (w :: u32)) = unat w div 65536" "unat ((w AND 0xFFFF) + drop_bit 16 w) = unat w mod 65536 + unat w div 65536"
proof -
  show d: "unat (drop_bit 16 w) = unat w div 65536" by (simp add: drop_bit_eq_div unat_div)
  have m: "0xFFFF = (mask 16 :: u32)" by (simp add: mask_eq_exp_minus_1)
  have "w AND 0xFFFF = take_bit 16 w" unfolding m by (simp add: take_bit_eq_mask)
  then have l: "unat (w AND 0xFFFF) = unat w mod 65536" by (simp add: take_bit_eq_mod unat_mod)
  have "unat w div 65536 < 65536" using unat_u32_less [of w] by (simp add: less_mult_imp_div_less)
  then show "unat ((w AND 0xFFFF) + drop_bit 16 w) = unat w mod 65536 + unat w div 65536"
    using d l mod_less_divisor [of 65536 "unat w"] by (subst unat_add_u32) linarith+
qed

function checksum_fold :: "u32 \<Rightarrow> u32" where
  "checksum_fold acc =
     (if drop_bit 16 acc \<noteq> 0 then checksum_fold ((acc AND 0xFFFF) + drop_bit 16 acc) else acc)"
  by auto

termination
proof (relation "measure unat")
  fix acc :: u32 assume "drop_bit 16 acc \<noteq> 0"
  then have "unat (drop_bit 16 acc) \<noteq> 0" by (metis unat_eq_zero)
  then have "unat acc div 65536 \<noteq> 0" unfolding fold_step .
  then have "unat acc mod 65536 + unat acc div 65536 < unat acc"
    using div_mult_mod_eq [of "unat acc" 65536] by linarith
  then show "((acc AND 0xFFFF) + drop_bit 16 acc, acc) \<in> measure unat" unfolding in_measure fold_step .
qed simp

declare checksum_sum.simps [simp del] checksum_fold.simps [simp del]

definition net_checksum :: "(u32 \<Rightarrow> u8) \<Rightarrow> u32 \<Rightarrow> u32 \<Rightarrow> u16" where
  "net_checksum m vdata length' = NOT (ucast (checksum_fold (checksum_sum m vdata length' 0)))"

text \<open>The header that \<open>ipv4_send\<close> builds, with the given checksum field.\<close>

definition ip_header :: "u32 \<Rightarrow> u8 \<Rightarrow> u32 \<Rightarrow> u16 \<Rightarrow> u8 list" where
  "ip_header total_len protocol dest checksum =
     [0x45, 0] @ bytes16 (bswap16 (ucast total_len)) @ bytes16 (bswap16 0) @ bytes16 0 @ [64, protocol] @
     bytes16 checksum @ bytes32 sojeb_os_ip @ bytes32 dest"

definition ipv4_send :: "u32 \<Rightarrow> u8 \<Rightarrow> u32 \<Rightarrow> u32 \<Rightarrow> net \<Rightarrow> net option" where
  "ipv4_send dest protocol data len s =
     (let header_len = 20; total_len = header_len + len in
      Option.bind (kmalloc total_len (heap s))
        (\<lambda>(h, packet).
           let s = s\<lparr>heap := h\<rparr> in
           if packet = 0 then Some s
           else
             (let s = set_mem (put_ram packet (ip_header total_len protocol dest 0) (mem s)) s;
                  s = set_mem (put_ram (packet + 10) (bytes16 (net_checksum (mem s) packet header_len)) (mem s)) s;
                  s = set_mem (copy_ram (unat len) (packet + header_len) data (mem s)) s
              in Option.bind
                   (case arp_lookup dest s of
                      Some mac \<Rightarrow> ethernet_send_packet mac 0x0800 (load_ram (mem s) packet (unat total_len)) total_len s
                    | None \<Rightarrow> arp_send_request dest s)
                   (\<lambda>s. map_option (\<lambda>h. s\<lparr>heap := h\<rparr>) (kfree packet (heap s))))))"

section \<open>ICMP\<close>

definition icmp_handle :: "u32 \<Rightarrow> u32 \<Rightarrow> u32 \<Rightarrow> net \<Rightarrow> net option" where
  "icmp_handle ip_hdr data len s =
     (if len < 8 then Some s
      else if mem s data = 8 then
        (let s = set_mem (put_ram data [0, 0, 0, 0] (mem s)) s;
             s = set_mem (put_ram (data + 2) (bytes16 (net_checksum (mem s) data len)) (mem s)) s
         in ipv4_send (ld32 (mem s) (ip_hdr + 12)) 1 data len s)
      else if mem s data = 0 then
        map_option (\<lambda>cs. s\<lparr>tty := tty s @ cs\<rparr>)
          (printf_chars (cstr ''Received reply from %x: icmp_seq=%d'' @ [0x0A])
            [IntArg (bswap32 (ld32 (mem s) (ip_hdr + 12))), IntArg (ucast (bswap16 (ld16 (mem s) (data + 6))))])
      else Some s)"

section \<open>Receiving\<close>

definition ipv4_handle_packet :: "u32 \<Rightarrow> u32 \<Rightarrow> net \<Rightarrow> net option" where
  "ipv4_handle_packet data len s =
     (if len < 20 then Some s
      else if ld32 (mem s) (data + 16) \<noteq> sojeb_os_ip \<and> ld32 (mem s) (data + 16) \<noteq> 0xFFFFFFFF then Some s
      else
        (let header_len = (ucast (mem s data AND 0x0F) * 4 :: u32);
             payload = data + header_len;
             total_len_host = bswap16 (ld16 (mem s) (data + 2))
         in if (ucast total_len_host :: u32) < header_len then Some s
            else
              (let payload_len = ucast total_len_host - header_len
               in if mem s (data + 9) = 1 then icmp_handle data payload payload_len s else Some s)))"

definition ethernet_handle_packet :: "u32 \<Rightarrow> u32 \<Rightarrow> net \<Rightarrow> net option" where
  "ethernet_handle_packet data len s =
     (if len < 14 then Some s
      else
        (let (is_broadcast, for_us) =
               fold (\<lambda>i (is_broadcast, for_us).
                   (if mem s (data + of_nat i) \<noteq> 0xFF then False else is_broadcast,
                    if mem s (data + of_nat i) \<noteq> mac_address s ! i then False else for_us)) [0..<6] (True, True)
         in if \<not> is_broadcast \<and> \<not> for_us then Some s
            else
              (let type = bswap16 (ld16 (mem s) (data + 12));
                   payload = data + 14;
                   payload_len = len - 14
               in if type = 0x0800 then ipv4_handle_packet payload payload_len s
                  else if type = 0x0806 then arp_handle_packet payload payload_len s
                  else Some s)))"

section \<open>Polling the receive ring\<close>

text \<open>
  Where the next frame starts in the ring, the body of the loop of \<open>rtl8139_poll\<close>, and the loop over the values that the command register
  has, each with the bytes the card has stored in memory before it is read.
\<close>

definition next_offset :: "u32 \<Rightarrow> u16 \<Rightarrow> u32" where
  "next_offset offset packet_len =
     (let off = (offset + ucast packet_len + 4 + 3) AND NOT 3
      in if 8192 \<le> off then off mod 8192 else off)"

definition poll_frame :: "net \<Rightarrow> net option" where
  "poll_frame s =
     (let header_ptr = rx_buffer s + rx_offset s;
          status = ld16 (mem s) header_ptr;
          packet_len = ld16 (mem s) (header_ptr + 2)
      in if status AND 1 \<noteq> 0 then
           map_option
             (\<lambda>s. let off = next_offset (rx_offset s) packet_len
                  in s\<lparr>rx_offset := off, capr := ucast (off - 0x10)\<rparr>)
             (ethernet_handle_packet (header_ptr + 4) (ucast packet_len - 4) s)
         else Some s)"

fun rtl8139_poll :: "(u8 \<times> (u32 \<times> u8) list) list \<Rightarrow> net \<Rightarrow> net option" where
  "rtl8139_poll [] s = None"
| "rtl8139_poll ((cmd, stores) # rs) s =
     (let s = set_mem (fold (\<lambda>(a, b) m. m(a := b)) stores (mem s)) s
      in if cmd AND 1 \<noteq> 0 then Some s else Option.bind (poll_frame s) (rtl8139_poll rs))"

section \<open>Specification\<close>

text \<open>
  The Internet checksum of RFC 1071: the sum of the 16-bit words of a packet, and that their ones'
  complement sum is all ones, which is what a receiver checks.
\<close>

fun word_sum :: "u8 list \<Rightarrow> nat" where
  "word_sum [] = 0"
| "word_sum [a] = unat a"
| "word_sum (a # b # bs) = unat a + 256 * unat b + word_sum bs"

definition valid_checksum :: "u8 list \<Rightarrow> bool" where
  "valid_checksum bs \<longleftrightarrow> 0 < word_sum bs \<and> word_sum bs mod 65535 = 0"

definition ones_sum :: "nat \<Rightarrow> nat" where
  "ones_sum n = (if n = 0 then 0 else (n - 1) mod 65535 + 1)"

text \<open>
  The frames that \<open>ipv4_send\<close> and the ARP code give to the card, and what \<open>ipv4_send\<close> chooses: the
  packet when the hardware address is known, a request for the address otherwise.
\<close>

definition ip_frame :: "u8 list \<Rightarrow> net \<Rightarrow> u32 \<Rightarrow> u8 \<Rightarrow> u16 \<Rightarrow> u8 list \<Rightarrow> u8 list" where
  "ip_frame mac s d p c payload =
     mac @ mac_address s @ [0x08, 0x00] @ ip_header (of_nat (20 + length payload)) p d c @ payload"

definition arp_frame :: "u8 list \<Rightarrow> u8 list \<Rightarrow> u8 \<Rightarrow> u8 list \<Rightarrow> u32 \<Rightarrow> u8 list" where
  "arp_frame mac my_mac op target_mac target_ip =
     mac @ my_mac @ [0x08, 0x06] @ [0, 1, 0x08, 0, 6, 4, 0, op] @ my_mac @ bytes32 sojeb_os_ip @
     target_mac @ bytes32 target_ip"

definition ip_tx :: "net \<Rightarrow> u32 \<Rightarrow> u8 \<Rightarrow> u16 \<Rightarrow> u8 list \<Rightarrow> u8 list" where
  "ip_tx s d p c payload = (case arp_lookup d s of
       Some mac \<Rightarrow> ip_frame mac s d p c payload
     | None \<Rightarrow> arp_frame (replicate 6 0xFF) (mac_address s) 1 (replicate 6 0) d)"

text \<open>The card reports the next transmission, and the hardware addresses have six bytes.\<close>

definition ready :: "net \<Rightarrow> bool" where
  "ready s \<longleftrightarrow> wait_tok (current_tx_descriptor s) (isr_reads s) \<noteq> None \<and> length (mac_address s) = 6 \<and>
     (\<forall>e \<in> set (arp_cache s). length (ae_mac e) = 6)"

text \<open>The state after the card has taken a frame.\<close>

definition after_tx :: "u8 list \<Rightarrow> u32 \<Rightarrow> u16 list \<Rightarrow> net \<Rightarrow> net" where
  "after_tx frame k vs s = s\<lparr>tx := tx s @ [(frame, k)], isr_reads := vs, current_tx_descriptor := (current_tx_descriptor s + 1) mod 4\<rparr>"

text \<open>One frame was sent, and no byte of a client of the heap has changed.\<close>

definition sent :: "nat \<times> blocks \<Rightarrow> net \<Rightarrow> net \<Rightarrow> u8 list \<Rightarrow> bool" where
  "sent A s s' frame \<longleftrightarrow> (\<exists>n. tx s' = tx s @ [(frame, n)] \<and> 60 \<le> n \<and> length frame \<le> unat n) \<and>
     arp_cache s' = arp_cache s \<and> mac_address s' = mac_address s \<and> tty s' = tty s \<and>
     (\<exists>A'. heap_ok (heap s') A' \<and> client A' = client A \<and> (\<forall>q t. live A q t \<longrightarrow> live A' q t)) \<and>
     (\<forall>x \<in> client A. mem s' (of_nat x) = mem s (of_nat x))"

text \<open>An IPv4 packet with an ICMP message for this machine, and the reply to an echo request: type and code 0, a new checksum, the same data.\<close>

definition ip_request :: "u8 \<Rightarrow> u8 list \<Rightarrow> u8 \<Rightarrow> u8 list \<Rightarrow> u32 \<Rightarrow> u8 list \<Rightarrow> u8 list" where
  "ip_request tos idf ttl ck peer icmp =
     [0x45, tos] @ bytes16 (bswap16 (of_nat (20 + length icmp))) @ idf @ [ttl, 1] @ ck @ bytes32 peer @ bytes32 sojeb_os_ip @ icmp"

definition echo_reply :: "u16 \<Rightarrow> u8 list \<Rightarrow> u8 list" where
  "echo_reply k icmp = [0, 0] @ bytes16 k @ drop 4 icmp"

text \<open>
  The request has been answered: a reply with valid checksums was sent, or an ARP request when the
  hardware address of the peer is not known. Besides the first four bytes of the request at \<open>a\<close>
  no byte of a client of the heap has changed.
\<close>

definition answered :: "nat \<times> blocks \<Rightarrow> net \<Rightarrow> net \<Rightarrow> nat \<Rightarrow> u32 \<Rightarrow> u8 list \<Rightarrow> bool" where
  "answered A s s' a d icmp \<longleftrightarrow> (\<exists>c k n. tx s' = tx s @ [(ip_tx s d 1 c (echo_reply k icmp), n)] \<and>
       60 \<le> n \<and> length (ip_tx s d 1 c (echo_reply k icmp)) \<le> unat n \<and>
       valid_checksum (ip_header (of_nat (20 + length icmp)) 1 d c) \<and> valid_checksum (echo_reply k icmp)) \<and>
     arp_cache s' = arp_cache s \<and> mac_address s' = mac_address s \<and> tty s' = tty s \<and>
     (\<exists>A'. heap_ok (heap s') A' \<and> client A' = client A \<and> (\<forall>q t. live A q t \<longrightarrow> live A' q t)) \<and>
     (\<forall>x \<in> client A - {a..<a + 4}. mem s' (of_nat x) = mem s (of_nat x))"

text \<open>An entry of the cache that can take the address.\<close>

definition arp_room :: "arp_entry list \<Rightarrow> u32 \<Rightarrow> bool" where
  "arp_room es ip \<longleftrightarrow> (\<exists>e \<in> set es. \<not> ae_assigned e \<or> ae_ip e = ip)"

text \<open>The read position in the receive ring is inside the ring and aligned.\<close>

definition ring_ok :: "net \<Rightarrow> bool" where
  "ring_ok s \<longleftrightarrow> unat (rx_offset s) < 8192 \<and> 4 dvd unat (rx_offset s)"

definition same_ring :: "net \<Rightarrow> net \<Rightarrow> bool" where
  "same_ring s s' \<longleftrightarrow> rx_offset s' = rx_offset s \<and> rx_buffer s' = rx_buffer s \<and> capr s' = capr s"

section \<open>The interface of an address table\<close>

text \<open>
  What a client of the ARP cache may rely on: a learnt address is found when there was room for it,
  and no other address is touched.
\<close>

locale address_table =
  fixes lookup :: "'t \<Rightarrow> 'k \<Rightarrow> 'v option" and learn :: "'k \<Rightarrow> 'v \<Rightarrow> 't \<Rightarrow> 't" and room :: "'t \<Rightarrow> 'k \<Rightarrow> bool"
  assumes lookup_learn: "lookup (learn k v t) x = (if x = k \<and> room t k then Some v else lookup t x)"
    and known_room: "lookup t k \<noteq> None \<Longrightarrow> room t k"
begin

lemma learn_refreshes: "lookup t k \<noteq> None \<Longrightarrow> lookup (learn k v t) k = Some v"
  by (simp add: lookup_learn known_room)

lemma known_stays: "lookup t x \<noteq> None \<Longrightarrow> lookup (learn k v t) x \<noteq> None"
  by (simp add: lookup_learn)

lemma known_stays_all: "lookup t x \<noteq> None \<Longrightarrow> lookup (fold (\<lambda>(k, v). learn k v) kvs t) x \<noteq> None"
  by (induction kvs arbitrary: t) (simp_all add: known_stays split_beta del: not_None_eq)

end

section \<open>Lemmas: the Internet checksum\<close>

lemma unat_u16_le: "unat (u16_le a b) = unat a + 256 * unat b"
proof -
  have b: "unat a + 256 * unat b < 65536" using unat_u8_less [of a] unat_u8_less [of b] by linarith
  have "u16_le a b = ucast a + push_bit 8 (ucast b)"
    unfolding u16_le_def
    by (rule disjunctive_add [symmetric]) (auto simp: bit_simps dest: bit_imp_le_length)
  also have "\<dots> = of_nat (unat a + 256 * unat b)" by (simp add: push_bit_eq_mult)
  finally have "u16_le a b = of_nat (unat a + 256 * unat b)" .
  then show ?thesis using b by (simp only: unat_of_nat) simp
qed

lemma ucast_ld16: "ucast (ld16 m a) = (of_nat (unat (m a) + 256 * unat (m (a + 1))) :: u32)"
  by (rule u32_eqI) (use unat_u8_less [of "m a"] unat_u8_less [of "m (a + 1)"] in
    \<open>simp add: ld16_def unat_u16_le unat_of_nat_u32 del: of_nat_add of_nat_mult unat_u8_less\<close>)

lemma checksum_sum_eq:
  "n < 4294967296 \<Longrightarrow> checksum_sum m d (of_nat n) acc = acc + of_nat (word_sum (load_ram m d n))"
proof (induction n arbitrary: d acc rule: less_induct)
  case (less n)
  have u: "unat (of_nat n :: u32) = n" using less.prems by (rule unat_of_nat_u32)
  consider "n = 0" | "n = 1" | k where "n = Suc (Suc k)" by (metis One_nat_def not0_implies_Suc)
  then show ?case
  proof cases
    case (3 k)
    have "1 < (of_nat n :: u32)" using u 3 by (simp add: word_less_nat_alt del: of_nat_Suc)
    moreover have "of_nat n - 2 = (of_nat k :: u32)" using 3 by simp
    ultimately have "checksum_sum m d (of_nat n) acc = checksum_sum m (d + 2) (of_nat k) (acc + ucast (ld16 m d))"
      by (subst checksum_sum.simps) simp
    also have "\<dots> = acc + ucast (ld16 m d) + of_nat (word_sum (load_ram m (d + 2) k))"
      using less.IH [of k] less.prems 3 by simp
    also have "\<dots> = acc + of_nat (word_sum (load_ram m d n))"
      unfolding ucast_ld16 3 by (simp add: algebra_simps)
    finally show ?thesis .
  qed (subst checksum_sum.simps, simp add: u)+
qed

lemma ones_sum_step: "n div 65536 \<noteq> 0 \<Longrightarrow> ones_sum (n mod 65536 + n div 65536) = ones_sum n"
proof -
  assume h: "n div 65536 \<noteq> 0"
  have e: "n = 65536 * (n div 65536) + n mod 65536" by simp
  then have "n - 1 = 65535 * (n div 65536) + (n mod 65536 + n div 65536 - 1)" using h by linarith
  then have "(n - 1) mod 65535 = (n mod 65536 + n div 65536 - 1) mod 65535" by (metis mod_mult_self4)
  moreover have "n \<noteq> 0" using h by auto
  ultimately show ?thesis using h by (simp add: ones_sum_def)
qed

lemma ones_sum_small: "n < 65536 \<Longrightarrow> ones_sum n = n"
proof -
  assume "n < 65536"
  then have "n = 0 \<or> (n - 1) mod 65535 = n - 1" by (cases n) auto
  then show ?thesis by (auto simp: ones_sum_def)
qed

lemma checksum_fold_eq: "unat (checksum_fold w) = ones_sum (unat w)"
proof (induction w rule: checksum_fold.induct)
  case (1 w)
  show ?case
  proof (cases "drop_bit 16 w = 0")
    case True
    then have "unat w div 65536 = 0" by (metis fold_step(1) unat_0)
    then have "unat w < 65536" by (simp add: div_eq_0_iff)
    then show ?thesis using True by (subst checksum_fold.simps) (simp add: ones_sum_small)
  next
    case False
    then have "unat (drop_bit 16 w) \<noteq> 0" by (metis unat_eq_zero)
    then have h: "unat w div 65536 \<noteq> 0" unfolding fold_step(1) .
    show ?thesis using 1 False ones_sum_step [OF h] by (subst checksum_fold.simps) (simp add: fold_step(2))
  qed
qed

lemma ones_sum_le: "ones_sum n \<le> 65535"
proof -
  have "(n - 1) mod 65535 < 65535" by simp
  then have "(n - 1) mod 65535 + 1 \<le> 65535" by linarith
  then show ?thesis unfolding ones_sum_def by simp
qed

lemma word_sum_bound: "word_sum bs \<le> 65535 * ((length bs + 1) div 2)"
proof (induction bs rule: word_sum.induct)
  case (2 a)
  have "unat a < 256" by simp
  then have "unat a \<le> 65535" by linarith
  then show ?case by simp
next
  case (3 a b bs)
  have "(length (a # b # bs) + 1) div 2 = (length bs + 1) div 2 + 1" by simp
  moreover have "unat a + 256 * unat b \<le> 65535" using unat_u8_less [of a] unat_u8_less [of b] by linarith
  ultimately show ?case using 3 by simp
qed simp

lemma net_checksum_eq:
  assumes "n \<le> 65536"
  shows "unat (net_checksum m d (of_nat n)) = 65535 - ones_sum (word_sum (load_ram m d n))"
proof -
  let ?S = "word_sum (load_ram m d n)"
  have "?S \<le> 65535 * ((n + 1) div 2)" using word_sum_bound [of "load_ram m d n"] by simp
  also have "\<dots> \<le> 65535 * 32768" using assms by simp
  finally have "?S < 4294967296" by simp
  moreover have "checksum_sum m d (of_nat n) 0 = of_nat ?S" using checksum_sum_eq [of n m d 0] assms by simp
  ultimately have r: "unat (checksum_fold (checksum_sum m d (of_nat n) 0)) = ones_sum ?S"
    by (simp add: checksum_fold_eq unat_of_nat_u32)
  let ?r = "checksum_fold (checksum_sum m d (of_nat n) 0)"
  have "unat (ucast ?r :: u16) = ones_sum ?S"
    using r ones_sum_le [of ?S] by (simp add: unsigned_ucast_eq take_bit_nat_eq_self)
  moreover have "unat (NOT w) = 65535 - unat w" for w :: u16
  proof -
    have "NOT w = 0xFFFF - w" by (simp add: not_eq_complement)
    moreover have "unat w \<le> 65535" using unat_u16_less [of w] by linarith
    then have "w \<le> 0xFFFF" by (simp add: word_le_nat_alt)
    ultimately show ?thesis using unat_sub [of w "0xFFFF"] by simp
  qed
  ultimately show ?thesis unfolding net_checksum_def by simp
qed

lemma word_sum_append: "even (length xs) \<Longrightarrow> word_sum (xs @ ys) = word_sum xs + word_sum ys"
  by (induction xs rule: word_sum.induct) auto

lemma word_sum_bytes16: "word_sum (bytes16 c) = unat c"
proof -
  have "unat (u16_le (byte_of 0 c) (byte_of 1 c)) = unat (byte_of 0 c) + 256 * unat (byte_of 1 c)" by (rule unat_u16_le)
  then show ?thesis using u16_le_byte_of [of c] by (simp add: bytes16_def)
qed

lemma checksum_makes_valid:
  assumes "even (length xs)" and "unat c = 65535 - ones_sum (word_sum (xs @ [0, 0] @ ys))"
  shows "valid_checksum (xs @ bytes16 c @ ys)"
proof -
  let ?S = "word_sum (xs @ [0, 0] @ ys)"
  have "word_sum (xs @ bytes16 c @ ys) = word_sum xs + (word_sum (bytes16 c) + word_sum ys)"
    using assms(1) word_sum_append [of "bytes16 c" ys] by (simp add: word_sum_append)
  then have S': "word_sum (xs @ bytes16 c @ ys) = ?S + (65535 - ones_sum ?S)"
    using assms by (simp add: word_sum_append word_sum_bytes16)
  have "(?S + (65535 - ones_sum ?S)) mod 65535 = 0"
  proof (cases "?S = 0")
    case False
    define q where "q = (?S - 1) div 65535"
    have "?S - 1 = 65535 * q + (?S - 1) mod 65535" by (simp add: q_def)
    moreover have "(?S - 1) mod 65535 < 65535" by simp
    ultimately have "?S + (65535 - ones_sum ?S) = 65535 * (q + 1)" using False unfolding ones_sum_def by simp
    then show ?thesis by (metis mod_mult_self1_is_0)
  qed (simp add: ones_sum_def)
  moreover have "0 < ?S + (65535 - ones_sum ?S)" by (cases "?S = 0") (simp_all add: ones_sum_def)
  ultimately show ?thesis unfolding valid_checksum_def S' by blast
qed

section \<open>Lemmas: memory\<close>

lemma length_ip_header [simp]: "length (ip_header t p d c) = 20"
  by (simp add: ip_header_def)

lemma ip_header_split:
  "ip_header t p d c = take 10 (ip_header t p d 0) @ bytes16 c @ drop 12 (ip_header t p d 0)"
  "ip_header t p d 0 = take 10 (ip_header t p d 0) @ [0, 0] @ drop 12 (ip_header t p d 0)"
  by (simp_all add: ip_header_def bytes16_def bytes32_def byte_of_def)

lemma ipv4_packet:
  fixes t d :: u32 and p :: u8 and m :: "u32 \<Rightarrow> u8"
  assumes P: "P + 20 + len < 4294967296" and data: "data + len \<le> 4294967296" and dj: "{P..<P + (20 + len)} \<inter> {data..<data + len} = {}"
  defines "m1 \<equiv> put_ram (of_nat P) (ip_header t p d 0) m"
  defines "c \<equiv> net_checksum m1 (of_nat P) 20"
  defines "m2 \<equiv> put_ram (of_nat (P + 10)) (bytes16 c) m1"
  defines "m3 \<equiv> copy_ram len (of_nat (P + 20)) (of_nat data) m2"
  shows "load_ram m3 (of_nat P) (20 + len) = ip_header t p d c @ load_ram m (of_nat data) len"
    and "valid_checksum (ip_header t p d c)"
    and "\<And>x. x < 4294967296 \<Longrightarrow> x \<notin> {P..<P + (20 + len)} \<Longrightarrow> m3 (of_nat x) = m (of_nat x)"
proof -
  let ?h = "ip_header t p d 0"
  have n1: "m1 (of_nat x) = (if P \<le> x \<and> x < P + 20 then ?h ! (x - P) else m (of_nat x))" if "x < 4294967296" for x
    unfolding m1_def using put_ram_nat [of P ?h x m] P that by simp
  have n2: "m2 (of_nat x) = (if P + 10 \<le> x \<and> x < P + 12 then bytes16 c ! (x - (P + 10)) else m1 (of_nat x))" if "x < 4294967296" for x
    unfolding m2_def using put_ram_nat [of "P + 10" "bytes16 c" x m1] P that by simp
  have dj2: "{P + 20..<P + 20 + len} \<inter> {data..<data + len} = {}" using dj by auto
  have n3: "m3 (of_nat x) = (if P + 20 \<le> x \<and> x < P + 20 + len then m2 (of_nat (data + (x - (P + 20)))) else m2 (of_nat x))"
    if "x < 4294967296" for x
    unfolding m3_def by (rule copy_ram_nat [OF P data dj2 that])
  show frame: "m3 (of_nat x) = m (of_nat x)" if "x < 4294967296" "x \<notin> {P..<P + (20 + len)}" for x
    using n3 n2 n1 that by auto
  have "load_ram m1 (of_nat P) 20 = ?h"
    by (rule load_ram_eqI) (use n1 P in \<open>auto simp del: of_nat_add\<close>)
  then have c: "unat c = 65535 - ones_sum (word_sum ?h)" unfolding c_def using net_checksum_eq [of 20 m1 "of_nat P"] by simp
  show "valid_checksum (ip_header t p d c)"
    unfolding ip_header_split(1) [of t p d c]
    by (rule checksum_makes_valid) (simp, simp only: ip_header_split(2) [symmetric] c)
  show "load_ram m3 (of_nat P) (20 + len) = ip_header t p d c @ load_ram m (of_nat data) len"
  proof (rule load_ram_eqI)
    fix i assume i: "i < 20 + len"
    have xb: "P + i < 4294967296" using i P by simp
    consider "i < 10" | "i = 10" | "i = 11" | "12 \<le> i" "i < 20" | "20 \<le> i" by linarith
    then show "m3 (of_nat (P + i)) = (ip_header t p d c @ load_ram m (of_nat data) len) ! i"
    proof cases
      case 5
      have db: "data + (i - 20) < 4294967296" "data + (i - 20) \<notin> {P..<P + (20 + len)}" using i data dj 5 by auto
      have "m3 (of_nat (P + i)) = m2 (of_nat (data + (i - 20)))" using n3 [OF xb] i 5 by (simp del: of_nat_add of_nat_diff)
      also have "\<dots> = m (of_nat (data + (i - 20)))" using n2 [OF db(1)] n1 [OF db(1)] db(2) by (auto simp del: of_nat_add of_nat_diff)
      also have "\<dots> = load_ram m (of_nat data) len ! (i - 20)" using i 5 by (subst nth_load_ram) auto
      finally show ?thesis using 5 by (simp add: nth_append del: of_nat_add)
    qed (use n3 [OF xb] n2 [OF xb] n1 [OF xb] in \<open>auto simp: nth_append ip_header_split(1) [of t p d c] simp del: of_nat_add\<close>)
  qed simp
qed

section \<open>Lemmas: sending\<close>

lemma bswap_bytes: "bytes16 (bswap16 0x0800) = [0x08, 0x00]" "bytes16 (bswap16 0x0806) = [0x08, 0x06]"
  "bytes16 (bswap16 1) = [0, 1]" "bytes16 (bswap16 2) = [0, 2]"
  by (simp_all add: bytes16_def bswap16_def byte_of_def u16_le_def)

lemma ethernet_send:
  assumes "n \<le> 1500" and "wait_tok (current_tx_descriptor s) (isr_reads s) = Some vs"
  shows "\<exists>k. ethernet_send_packet mac ty data (of_nat n) s =
    Some (after_tx (mac @ mac_address s @ bytes16 (bswap16 ty) @ data) k vs s) \<and> 60 \<le> k \<and> n + 14 \<le> unat k"
proof -
  have u: "unat (of_nat n + 14 :: u32) = n + 14" using assms by (simp add: unat_add_u32 unat_of_nat_u32)
  have "\<not> 1500 < (of_nat n :: u32)" using assms by (simp add: word_less_nat_alt unat_of_nat_u32)
  then show ?thesis unfolding ethernet_send_packet_def rtl8139_send_packet_def Let_def after_tx_def
    using u assms(2) by (auto simp: word_less_nat_alt word_le_nat_alt)
qed

lemma arp_request_sent:
  assumes "wait_tok (current_tx_descriptor s) (isr_reads s) = Some vs"
  shows "\<exists>k. arp_send_request ip s =
    Some (after_tx (arp_frame (replicate 6 0xFF) (mac_address s) 1 (replicate 6 0) ip) k vs s) \<and> 60 \<le> k \<and> 42 \<le> unat k"
  using ethernet_send [of 28 s vs "replicate 6 0xFF" "0x0806"] assms unfolding arp_send_request_def Let_def
  by (simp add: arp_bytes_def arp_frame_def bswap_bytes)

lemma arp_find_len: "arp_find es ip = Some m \<Longrightarrow> \<forall>e \<in> set es. length (ae_mac e) = 6 \<Longrightarrow> length m = 6"
  by (induction es) (auto split: if_splits)

lemma ip_transmit:
  assumes r: "ready s" and l: "length payload \<le> 1480" and v: "wait_tok (current_tx_descriptor s) (isr_reads s) = Some vs"
  shows "\<exists>k. (case arp_lookup d s of
      Some mac \<Rightarrow> ethernet_send_packet mac 0x0800 (ip_header (of_nat (20 + length payload)) p d c @ payload) (of_nat (20 + length payload)) s
    | None \<Rightarrow> arp_send_request d s) = Some (after_tx (ip_tx s d p c payload) k vs s) \<and> 60 \<le> k \<and> length (ip_tx s d p c payload) \<le> unat k"
proof (cases "arp_lookup d s")
  case None
  have "length (ip_tx s d p c payload) = 42" using None r by (simp add: ip_tx_def arp_frame_def ready_def)
  then show ?thesis using arp_request_sent [OF v, of d] None by (simp add: ip_tx_def)
next
  case (Some mac)
  have l6: "length mac = 6" "length (mac_address s) = 6" using Some r arp_find_len unfolding arp_lookup_def ready_def by blast+
  have n: "20 + length payload \<le> 1500" using l by simp
  show ?thesis
    using Some l6 ethernet_send [OF n v, of mac "0x0800" "ip_header (of_nat (20 + length payload)) p d c @ payload"]
    by (simp add: ip_tx_def ip_frame_def bswap_bytes del: of_nat_add)
qed

lemma ipv4_send_sent:
  assumes ok: "heap_ok (heap s) A" and data: "{data..<data + len} \<subseteq> client A" "data + len \<le> 4294967296"
    and len: "len \<le> 1480" and fits: "fits A (of_nat (20 + len))" and r: "ready s"
  shows "\<exists>s' c. ipv4_send d p (of_nat data) (of_nat len) s = Some s' \<and> valid_checksum (ip_header (of_nat (20 + len)) p d c) \<and>
    sent A s s' (ip_tx s d p c (load_ram (mem s) (of_nat data) len))"
proof -
  have ul: "unat (of_nat (20 + len) :: u32) = 20 + len" "unat (of_nat len :: u32) = len" using len by (simp_all only: unat_of_nat_u32)
  obtain h1 q A1 t where k: "kmalloc (of_nat (20 + len)) (heap s) = Some (h1, q)" "q \<noteq> 0" "heap_ok h1 A1" "20 + len \<le> t"
      "live A1 (unat q) t" "{unat q..<unat q + t} \<inter> client A = {}" "client A1 = client A \<union> {unat q..<unat q + t}"
      "\<forall>x \<in> client A. ram h1 (of_nat x) = mem s (of_nat x)" "\<forall>r u. live A r u \<longrightarrow> live A1 r u" "\<forall>u. \<not> live A (unat q) u"
    using kmalloc_room [OF ok fits] ul len by auto
  define P where "P = unat q"
  have q: "q = of_nat P" by (simp add: P_def)
  have Pb: "P + 20 + len < 4294967296" using live_client [OF k(3,5)] k(4) by (simp add: P_def)
  have dj: "{P..<P + (20 + len)} \<inter> {data..<data + len} = {}" using k(4,6) data(1) unfolding P_def by fastforce
  define m1 where "m1 = put_ram (of_nat P) (ip_header (of_nat (20 + len)) p d 0) (ram h1)"
  define c where "c = net_checksum m1 (of_nat P) 20"
  define m2 where "m2 = put_ram (of_nat (P + 10)) (bytes16 c) m1"
  define m3 where "m3 = copy_ram len (of_nat (P + 20)) (of_nat data) m2"
  note pk = ipv4_packet(1) [OF Pb data(2) dj, of "of_nat (20 + len)" p d "ram h1", folded m1_def, folded c_def, folded m2_def, folded m3_def]
    ipv4_packet(2) [OF Pb data(2) dj, of "of_nat (20 + len)" p d "ram h1", folded m1_def, folded c_def]
    ipv4_packet(3) [OF Pb data(2) dj, of _ "of_nat (20 + len)" p d "ram h1", folded m1_def, folded c_def, folded m2_def, folded m3_def]
  have fr1: "load_ram (ram h1) (of_nat data) len = load_ram (mem s) (of_nat data) len"
    by (rule load_ram_eqI) (use k(8) data(1) in \<open>auto simp: nth_load_ram subset_iff simp del: of_nat_add\<close>)
  have fr: "m3 (of_nat x) = mem s (of_nat x)" if "x \<in> client A" for x
  proof -
    have "x \<notin> {P..<P + (20 + len)}" using that k(4,6) unfolding P_def by fastforce
    then show ?thesis using pk(3) k(8) that client_bound [OF ok that] by simp
  qed
  have ok3: "heap_ok (h1\<lparr>ram := m3\<rparr>) A1"
    by (rule heap_ok_ram [OF k(3)]) (use pk(3) k(4,7) in \<open>auto simp: P_def\<close>)
  obtain h4 A4 where f: "kfree q (h1\<lparr>ram := m3\<rparr>) = Some h4" "heap_ok h4 A4" "client A4 = client A1 - {unat q..<unat q + t}"
      "\<forall>x \<in> client A4. ram h4 (of_nat x) = m3 (of_nat x)" "\<forall>r u. live A1 r u \<and> r \<noteq> unat q \<longrightarrow> live A4 r u"
    using kfree_live [OF ok3 k(5)] by auto
  have c4: "client A4 = client A" "\<forall>r u. live A r u \<longrightarrow> live A4 r u" using f(3,5) k(6,7,9,10) by (auto, blast)
  define s3 where "s3 = s\<lparr>heap := h1\<lparr>ram := m3\<rparr>\<rparr>"
  obtain vs where v: "wait_tok (current_tx_descriptor s3) (isr_reads s3) = Some vs" using r by (auto simp: ready_def s3_def)
  have r3: "ready s3" "arp_lookup d s3 = arp_lookup d s" "mac_address s3 = mac_address s" using r by (simp_all add: ready_def s3_def arp_lookup_def)
  define payload where "payload = load_ram (mem s) (of_nat data) len"
  have lp: "length payload = len" by (simp add: payload_def load_ram_def)
  obtain n where n: "(case arp_lookup d s3 of
      Some mac \<Rightarrow> ethernet_send_packet mac 0x0800 (ip_header (of_nat (20 + len)) p d c @ payload) (of_nat (20 + len)) s3
    | None \<Rightarrow> arp_send_request d s3) = Some (after_tx (ip_tx s3 d p c payload) n vs s3)" "60 \<le> n" "length (ip_tx s3 d p c payload) \<le> unat n"
    using ip_transmit [OF r3(1) _ v, of payload d p c] len unfolding lp by blast
  have ie: "ip_tx s3 d p c payload = ip_tx s d p c payload" unfolding ip_tx_def ip_frame_def r3(2,3) ..
  define s' where "s' = (after_tx (ip_tx s d p c payload) n vs s3)\<lparr>heap := h4\<rparr>"
  have t: "20 + of_nat len = (of_nat (20 + len) :: u32)" "of_nat P + 10 = (of_nat (P + 10) :: u32)" "of_nat P + 20 = (of_nat (P + 20) :: u32)" by simp_all
  have hs3: "heap (after_tx x y z s3) = h1\<lparr>ram := m3\<rparr>" for x y z by (simp add: after_tx_def s3_def)
  have "ipv4_send d p (of_nat data) (of_nat len) s = Option.bind (case arp_lookup d s3 of
      Some mac \<Rightarrow> ethernet_send_packet mac 0x0800 (load_ram m3 (of_nat P) (20 + len)) (of_nat (20 + len)) s3
    | None \<Rightarrow> arp_send_request d s3) (\<lambda>s. map_option (\<lambda>h. s\<lparr>heap := h\<rparr>) (kfree q (heap s)))"
    using k(2) unfolding ipv4_send_def Let_def t k(1) bind.simps prod.case set_mem_def q ul m3_def m2_def c_def m1_def s3_def
    by (simp del: of_nat_add cong: option.case_cong)
  also have "\<dots> = Some s'"
    using n(1) f(1) unfolding pk(1) fr1 payload_def [symmetric] ie by (simp add: s'_def hs3)
  finally have "ipv4_send d p (of_nat data) (of_nat len) s = Some s'" .
  moreover have "sent A s s' (ip_tx s d p c payload)"
  proof -
    have "heap_ok (heap s') A4 \<and> client A4 = client A \<and> (\<forall>q t. live A q t \<longrightarrow> live A4 q t)" using f(2) c4 by (simp add: s'_def)
    moreover have "tx s' = tx s @ [(ip_tx s d p c payload, n)]" by (simp add: s'_def after_tx_def s3_def)
    moreover have "\<forall>x \<in> client A. mem s' (of_nat x) = mem s (of_nat x)" using f(4) c4 fr by (simp add: s'_def)
    moreover have "arp_cache s' = arp_cache s" "mac_address s' = mac_address s" "tty s' = tty s" by (simp_all add: s'_def after_tx_def s3_def)
    ultimately show ?thesis unfolding sent_def using n(2,3) unfolding ie by blast
  qed
  ultimately show ?thesis using pk(2) unfolding payload_def by blast
qed

section \<open>Lemmas: receiving\<close>

lemma icmp_reply_bytes:
  fixes m :: "u32 \<Rightarrow> u8"
  assumes n: "4 \<le> n" "n \<le> 65536" "a + n \<le> 4294967296"
  defines "m1 \<equiv> put_ram (of_nat a) [0, 0, 0, 0] m"
  defines "c \<equiv> net_checksum m1 (of_nat a) (of_nat n)"
  defines "m2 \<equiv> put_ram (of_nat (a + 2)) (bytes16 c) m1"
  shows "load_ram m2 (of_nat a) n = [0, 0] @ bytes16 c @ drop 4 (load_ram m (of_nat a) n)"
    and "valid_checksum ([0, 0] @ bytes16 c @ drop 4 (load_ram m (of_nat a) n))"
    and "\<And>x. x < 4294967296 \<Longrightarrow> x \<notin> {a..<a + 4} \<Longrightarrow> m2 (of_nat x) = m (of_nat x)"
proof -
  have n1: "m1 (of_nat x) = (if a \<le> x \<and> x < a + 4 then 0 else m (of_nat x))" if "x < 4294967296" for x
  proof -
    have "[0, 0, 0, 0 :: u8] ! (x - a) = 0" if "x < a + 4"
    proof -
      have "x - a < 4" using that by simp
      then consider "x - a = 0" | "x - a = 1" | "x - a = 2" | "x - a = 3" by linarith
      then show ?thesis by cases auto
    qed
    then show ?thesis unfolding m1_def using put_ram_nat [of a "[0, 0, 0, 0]" x m] n that by simp
  qed
  have n2: "m2 (of_nat x) = (if a + 2 \<le> x \<and> x < a + 4 then bytes16 c ! (x - (a + 2)) else m1 (of_nat x))" if "x < 4294967296" for x
    unfolding m2_def using put_ram_nat [of "a + 2" "bytes16 c" x m1] n that by simp
  show "m2 (of_nat x) = m (of_nat x)" if "x < 4294967296" "x \<notin> {a..<a + 4}" for x using n2 n1 that by auto
  have "load_ram m1 (of_nat a) n = [0, 0] @ [0, 0] @ drop 4 (load_ram m (of_nat a) n)"
  proof (rule load_ram_eqI)
    fix i assume i: "i < n"
    then consider "i = 0" | "i = 1" | "i = 2" | "i = 3" | "4 \<le> i" by linarith
    then show "m1 (of_nat (a + i)) = ([0, 0] @ [0, 0] @ drop 4 (load_ram m (of_nat a) n)) ! i"
      by cases (use n1 [of "a + i"] i n in \<open>auto simp: nth_Cons' nth_load_ram simp del: of_nat_add\<close>)
  qed (use n in simp)
  then have "unat c = 65535 - ones_sum (word_sum ([0, 0] @ [0, 0] @ drop 4 (load_ram m (of_nat a) n)))"
    unfolding c_def net_checksum_eq [OF n(2)] by simp
  then show "valid_checksum ([0, 0] @ bytes16 c @ drop 4 (load_ram m (of_nat a) n))"
    by (intro checksum_makes_valid) simp_all
  show "load_ram m2 (of_nat a) n = [0, 0] @ bytes16 c @ drop 4 (load_ram m (of_nat a) n)"
  proof (rule load_ram_eqI)
    fix i assume i: "i < n"
    then consider "i = 0" | "i = 1" | "i = 2" | "i = 3" | "4 \<le> i" by linarith
    then show "m2 (of_nat (a + i)) = ([0, 0] @ bytes16 c @ drop 4 (load_ram m (of_nat a) n)) ! i"
      by cases (use n2 [of "a + i"] n1 [of "a + i"] i n in \<open>auto simp: nth_Cons' nth_append nth_load_ram simp del: of_nat_add\<close>)
  qed (use n in simp)
qed

lemma icmp_echo:
  assumes ok: "heap_ok (heap s) A" and data: "{a..<a + n} \<subseteq> client A" "a + n \<le> 4294967296"
    and n: "8 \<le> n" "n \<le> 1480" and fits: "fits A (of_nat (20 + n))" and r: "ready s"
    and t8: "mem s (of_nat a) = 8" and ip: "ip + 16 \<le> a"
  shows "\<exists>s'. icmp_handle (of_nat ip) (of_nat a) (of_nat n) s = Some s' \<and>
    answered A s s' a (ld32 (mem s) (of_nat ip + 12)) (load_ram (mem s) (of_nat a) n)"
proof -
  define m1 where "m1 = put_ram (of_nat a) [0, 0, 0, 0] (mem s)"
  define k where "k = net_checksum m1 (of_nat a) (of_nat n)"
  define m2 where "m2 = put_ram (of_nat (a + 2)) (bytes16 k) m1"
  define icmp where "icmp = load_ram (mem s) (of_nat a) n"
  have nn: "4 \<le> n" "n \<le> 65536" using n by simp_all
  have b: "load_ram m2 (of_nat a) n = echo_reply k icmp" "valid_checksum (echo_reply k icmp)"
    "\<And>x. x < 4294967296 \<Longrightarrow> x \<notin> {a..<a + 4} \<Longrightarrow> m2 (of_nat x) = mem s (of_nat x)"
    using icmp_reply_bytes [OF nn data(2), where m = "mem s", folded m1_def, folded k_def, folded m2_def]
    unfolding echo_reply_def icmp_def by blast+
  define s2 where "s2 = set_mem m2 s"
  have s2: "heap s2 = (heap s)\<lparr>ram := m2\<rparr>" "tx s2 = tx s" "arp_cache s2 = arp_cache s" "mac_address s2 = mac_address s"
    "tty s2 = tty s" "arp_lookup d s2 = arp_lookup d s" "ready s2" for d
    using r by (simp_all add: s2_def set_mem_def arp_lookup_def ready_def)
  have "{a..<a + 4} \<subseteq> client A" using data(1) nn by auto
  then have ok2: "heap_ok (heap s2) A" unfolding s2 by (intro heap_ok_ram [OF ok] b(3)) auto
  define d where "d = ld32 (mem s) (of_nat ip + 12)"
  have "mem s2 (of_nat (ip + j)) = mem s (of_nat (ip + j))" if "j < 16" for j
    unfolding s2 by simp (rule b(3) [of "ip + j", simplified], use that ip data(2) in auto)
  from this [of 12] this [of 13] this [of 14] this [of 15]
  have d2: "ld32 (mem s2) (of_nat ip + 12) = d" unfolding d_def ld32_def by (simp add: add.commute)
  obtain s' c where f: "ipv4_send d 1 (of_nat a) (of_nat n) s2 = Some s'" "valid_checksum (ip_header (of_nat (20 + n)) 1 d c)"
      "sent A s2 s' (ip_tx s2 d 1 c (load_ram (mem s2) (of_nat a) n))"
    using ipv4_send_sent [OF ok2 data n(2) fits s2(7), of d 1] by blast
  have ie: "ip_tx s2 d 1 c x = ip_tx s d 1 c x" for x unfolding ip_tx_def ip_frame_def s2 ..
  have ld: "load_ram (mem s2) (of_nat a) n = echo_reply k icmp" unfolding s2 using b(1) by simp
  have un: "unat (of_nat n :: u32) = n" using nn by (intro unat_of_nat_u32) simp
  have "\<not> of_nat n < (8 :: u32)" using n(1) by (simp add: word_less_nat_alt un)
  then have "icmp_handle (of_nat ip) (of_nat a) (of_nat n) s = ipv4_send d 1 (of_nat a) (of_nat n) s2"
    unfolding icmp_handle_def using t8 d2 by (simp add: Let_def s2_def m2_def k_def m1_def set_mem_def add.commute)
  moreover have "answered A s s' a d icmp"
  proof -
    have l: "length icmp = n" by (simp add: icmp_def)
    have "\<forall>x \<in> client A - {a..<a + 4}. mem s' (of_nat x) = mem s (of_nat x)"
      using f(3) b(3) client_bound [OF ok] unfolding sent_def s2 by auto
    then show ?thesis
      using f(2) f(3) [unfolded ie ld] b(2) unfolding answered_def sent_def s2(2-5) l by blast
  qed
  ultimately show ?thesis using f(1) unfolding d_def icmp_def by auto
qed

lemma load_ram_get:
  assumes "load_ram m a n = F" and "numeral k < n"
  shows "m (a + numeral k) = F ! numeral k"
  using assms by (auto simp: load_ram_def)

lemma list4: "length xs = 4 \<Longrightarrow> \<exists>a b c d. xs = [a, b, c, d]" and list2: "length xs = 2 \<Longrightarrow> \<exists>a b. xs = [a, b]"
  by (auto simp: length_Suc_conv numeral_eq_Suc)

lemma ip_request_fields:
  assumes F: "load_ram m a (20 + length icmp) = ip_request tos idf ttl ck peer icmp" and l: "length idf = 4" "length ck = 2"
  shows "m a = 0x45" "ld16 m (a + 2) = bswap16 (of_nat (20 + length icmp))" "m (a + 9) = 1"
    "ld32 m (a + 12) = peer" "ld32 m (a + 16) = sojeb_os_ip" "load_ram m (a + 20) (length icmp) = icmp"
proof -
  obtain i1 i2 i3 i4 where i: "idf = [i1, i2, i3, i4]" using list4 [OF l(1)] by blast
  obtain c1 c2 where c: "ck = [c1, c2]" using list2 [OF l(2)] by blast
  note F = F [unfolded ip_request_def i c bytes16_def bytes32_def]
  note g = load_ram_get [OF F]
  show "m a = 0x45" using F by (simp add: numeral_eq_Suc)
  show "ld16 m (a + 2) = bswap16 (of_nat (20 + length icmp))"
    using g [of "num.Bit0 num.One"] g [of "num.Bit1 num.One"] by (simp add: ld16_def add.assoc layout_simps)
  show "m (a + 9) = 1" using g [of "num.Bit1 (num.Bit0 (num.Bit0 num.One))"] by simp
  show "ld32 m (a + 12) = peer"
    using g [of "num.Bit0 (num.Bit0 (num.Bit1 num.One))"] g [of "num.Bit1 (num.Bit0 (num.Bit1 num.One))"]
      g [of "num.Bit0 (num.Bit1 (num.Bit1 num.One))"] g [of "num.Bit1 (num.Bit1 (num.Bit1 num.One))"]
    by (simp add: ld32_def add.assoc layout_simps)
  show "ld32 m (a + 16) = sojeb_os_ip"
    using g [of "num.Bit0 (num.Bit0 (num.Bit0 (num.Bit0 num.One)))"] g [of "num.Bit1 (num.Bit0 (num.Bit0 (num.Bit0 num.One)))"]
      g [of "num.Bit0 (num.Bit1 (num.Bit0 (num.Bit0 num.One)))"] g [of "num.Bit1 (num.Bit1 (num.Bit0 (num.Bit0 num.One)))"]
    by (simp add: ld32_def add.assoc layout_simps)
  have "drop 20 (load_ram m a (20 + length icmp)) = load_ram m (a + 20) (length icmp)"
    by (rule nth_equalityI) (simp_all add: load_ram_def add.assoc)
  then show "load_ram m (a + 20) (length icmp) = icmp" unfolding F by simp
qed

lemma upt6: "[0..<6] = [0, 1, 2, 3, 4, 5 :: nat]"
  by (simp add: upt_rec numeral_eq_Suc)

lemma eth_filter:
  assumes "length mac = 6"
  shows "fold (\<lambda>i (is_broadcast, for_us). (if m (a + of_nat i) \<noteq> 0xFF then False else is_broadcast,
      if m (a + of_nat i) \<noteq> mac ! i then False else for_us)) [0..<6] (True, True) =
    (load_ram m a 6 = replicate 6 0xFF, load_ram m a 6 = mac)"
proof -
  obtain x0 x1 x2 x3 x4 x5 where mac: "mac = [x0, x1, x2, x3, x4, x5]"
    using assms by (auto simp: length_Suc_conv numeral_eq_Suc)
  show ?thesis unfolding load_ram_def upt6 mac by (auto simp: numeral_eq_Suc)
qed

lemma ethernet_dispatch:
  assumes F: "load_ram (mem s) a n = dst @ src @ bytes16 (bswap16 ty) @ body" and l: "length dst = 6" "length src = 6"
    and mac: "length (mac_address s) = 6" and us: "dst = mac_address s \<or> dst = replicate 6 0xFF" and n: "n < 4294967296"
  shows "ethernet_handle_packet a (of_nat n) s =
      (if ty = 0x0800 then ipv4_handle_packet (a + 14) (of_nat (length body)) s
       else if ty = 0x0806 then arp_handle_packet (a + 14) (of_nat (length body)) s else Some s)"
    and "load_ram (mem s) (a + 14) (length body) = body"
proof -
  have n14: "n = 14 + length body" using arg_cong [OF F, of length] l by simp
  have d: "load_ram (mem s) a 6 = dst" using load_ram_append(1) [OF F] l by simp
  have "load_ram (mem s) a n = (dst @ src) @ (bytes16 (bswap16 ty) @ body)" using F by simp
  note t = load_ram_append(2) [OF this]
  have "load_ram (mem s) (a + 12) (2 + length body) = bytes16 (bswap16 ty) @ body" using t l by simp
  from load_ram_append [OF this] have ty: "load_ram (mem s) (a + 12) 2 = bytes16 (bswap16 ty)"
    and body: "load_ram (mem s) (a + 14) (length body) = body" by (simp_all add: add.assoc)
  show "load_ram (mem s) (a + 14) (length body) = body" by (rule body)
  have ld: "ld16 (mem s) (a + 12) = bswap16 ty"
    using ty by (simp add: ld16_def numeral_eq_Suc bytes16_def u16_le_byte_of)
  have "\<not> of_nat n < (14 :: u32)" using n n14 unfolding word_less_nat_alt unat_of_nat_u32 [OF n] by simp
  moreover have "of_nat n - 14 = (of_nat (length body) :: u32)" unfolding n14 by simp
  ultimately show "ethernet_handle_packet a (of_nat n) s =
      (if ty = 0x0800 then ipv4_handle_packet (a + 14) (of_nat (length body)) s
       else if ty = 0x0806 then arp_handle_packet (a + 14) (of_nat (length body)) s else Some s)"
    unfolding ethernet_handle_packet_def Let_def eth_filter [OF mac] d using us by (auto simp: ld)
qed

lemma ucast_of_nat_u16:
  assumes "k < 65536"
  shows "ucast (of_nat k :: u16) = (of_nat k :: u32)"
proof -
  have "unat (of_nat k :: u16) = k" unfolding unat_of_nat using assms by (intro mod_less) simp
  moreover have "unat (of_nat k :: u32) = k" using assms by (intro unat_of_nat_u32) simp
  ultimately show ?thesis by (intro u32_eqI) (unfold unat_ucast_u16_u32, simp)
qed

lemma ipv4_echo:
  assumes ok: "heap_ok (heap s) A" and data: "{a..<a + n} \<subseteq> client A" "a + n \<le> 4294967296" and nb: "n < 4294967296"
    and F: "load_ram (mem s) (of_nat a) n = ip_request tos idf ttl ck peer icmp @ pad" and l: "length idf = 4" "length ck = 2"
    and i: "8 \<le> length icmp" "length icmp \<le> 1480" "icmp ! 0 = 8" and fits: "fits A (of_nat (20 + length icmp))" and r: "ready s"
  shows "\<exists>s'. ipv4_handle_packet (of_nat a) (of_nat n) s = Some s' \<and> answered A s s' (a + 20) peer icmp"
proof -
  let ?m = "mem s" and ?N = "length icmp"
  have li: "length (ip_request tos idf ttl ck peer icmp) = 20 + ?N" using l by (simp add: ip_request_def)
  have n: "20 + ?N \<le> n" using arg_cong [OF F, of length] li by simp
  have F1: "load_ram ?m (of_nat a) (20 + ?N) = ip_request tos idf ttl ck peer icmp" using load_ram_append(1) [OF F] li by simp
  note f = ip_request_fields [OF F1 l]
  have c1: "\<not> of_nat n < (20 :: u32)" using n unfolding word_less_nat_alt unat_of_nat_u32 [OF nb] by simp
  have u32: "unat (of_nat (20 + ?N) :: u32) = 20 + ?N" by (rule unat_of_nat_u32) (use i(2) in simp)
  have tl: "(ucast (of_nat (20 + ?N) :: u16) :: u32) = of_nat (20 + ?N)" by (rule ucast_of_nat_u16) (use i(2) in simp)
  have c2: "\<not> of_nat (20 + ?N) < (20 :: u32)" unfolding word_less_nat_alt u32 by simp
  have a20: "of_nat a + 20 = (of_nat (a + 20) :: u32)" "of_nat (20 + ?N) - 20 = (of_nat ?N :: u32)" by simp_all
  have "ipv4_handle_packet (of_nat a) (of_nat n) s = icmp_handle (of_nat a) (of_nat (a + 20)) (of_nat ?N) s"
    unfolding ipv4_handle_packet_def Let_def f bswap16_bswap16 tl using c1 c2 by (simp add: a20 del: of_nat_add)
  moreover have "\<exists>s'. icmp_handle (of_nat a) (of_nat (a + 20)) (of_nat ?N) s = Some s' \<and>
    answered A s s' (a + 20) (ld32 ?m (of_nat a + 12)) (load_ram ?m (of_nat (a + 20)) ?N)"
  proof (rule icmp_echo [OF ok _ _ i(1,2) fits r])
    have "load_ram ?m (of_nat a + 20) ?N ! 0 = ?m (of_nat a + 20)" using i(1) by (cases ?N) simp_all
    then show "?m (of_nat (a + 20)) = 8" using i(3) unfolding f(6) a20(1) [symmetric] by simp
  qed (use data n in auto)
  ultimately show ?thesis unfolding f(4) f(6) [unfolded a20] by simp
qed

lemma ld_load:
  "load_ram m a 2 = bytes16 v \<Longrightarrow> ld16 m a = v" "load_ram m a 4 = bytes32 w \<Longrightarrow> ld32 m a = w"
proof -
  have "load_ram m a 2 = [m a, m (a + 1)]" "load_ram m a 4 = [m a, m (a + 1), m (a + 2), m (a + 3)]"
    by (simp_all add: numeral_eq_Suc add.assoc)
  then show "load_ram m a 2 = bytes16 v \<Longrightarrow> ld16 m a = v" "load_ram m a 4 = bytes32 w \<Longrightarrow> ld32 m a = w"
    by (simp_all add: ld16_def ld32_def bytes16_def bytes32_def layout_simps)
qed

lemma arp_at_bytes:
  assumes F: "load_ram m a 28 = arp_bytes p" and l: "length (src_mac p) = 6" "length (dest_mac p) = 6"
  shows "arp_at m a = p"
proof -
  note a1 = load_ram_append [OF F [unfolded arp_bytes_def]]
  note a2 = load_ram_append [OF a1(2)]
  note a3 = load_ram_append [OF a2(2)]
  note a4 = load_ram_append [OF a3(2)]
  note a5 = load_ram_append [OF a4(2)]
  note a6 = load_ram_append [OF a5(2)]
  note a7 = load_ram_append [OF a6(2)]
  show ?thesis unfolding arp_at_def
    using a1(1) a2(1) a3(1) a4(1) a5(1) a6(1) a7 l
    by (intro arp_packet.equality) (simp_all add: ld_load add.assoc numeral_2_eq_2)
qed

section \<open>Lemmas: the address cache\<close>

lemma arp_find_learn: "arp_find (arp_learn ip mac es) x = (if x = ip \<and> arp_room es ip then Some mac else arp_find es x)"
  by (induction es) (auto simp: arp_room_def)

lemma arp_find_room: "arp_find es ip \<noteq> None \<Longrightarrow> arp_room es ip"
  by (induction es) (auto simp: arp_room_def split: if_splits)

interpretation at: address_table arp_find arp_learn arp_room
  by unfold_locales (rule arp_find_learn, rule arp_find_room)

lemma arp_handle:
  assumes F: "load_ram (mem s) a 28 = arp_bytes p" and l: "length (src_mac p) = 6" "length (dest_mac p) = 6"
    and n: "28 \<le> n" "n < 4294967296" and v: "wait_tok (current_tx_descriptor s) (isr_reads s) = Some vs"
  defines "s1 \<equiv> s\<lparr>arp_cache := arp_learn (src_ip p) (src_mac p) (arp_cache s)\<rparr>"
  shows "arp_handle_packet a (of_nat n) s = Some s1 \<and> \<not> (oper p = bswap16 1 \<and> dest_ip p = sojeb_os_ip) \<or>
    (\<exists>k. arp_handle_packet a (of_nat n) s = Some (after_tx (arp_frame (src_mac p) (mac_address s) 2 (src_mac p) (src_ip p)) k vs s1) \<and>
       60 \<le> k \<and> oper p = bswap16 1 \<and> dest_ip p = sojeb_os_ip)"
proof -
  have c: "\<not> of_nat n < (28 :: u32)" using n unfolding word_less_nat_alt unat_of_nat_u32 [OF n(2)] by simp
  have o: "bswap16 (oper p) = 1 \<longleftrightarrow> oper p = bswap16 1" by (metis bswap16_bswap16)
  have v1: "wait_tok (current_tx_descriptor s1) (isr_reads s1) = Some vs" using v by (simp add: s1_def)
  show ?thesis
  proof (cases "oper p = bswap16 1 \<and> dest_ip p = sojeb_os_ip")
    case True
    then show ?thesis
      using c ethernet_send [OF _ v1, of 28 "src_mac p" "0x0806"] unfolding arp_handle_packet_def Let_def arp_at_bytes [OF F l] s1_def [symmetric]
      by (simp add: arp_bytes_def arp_frame_def bswap_bytes s1_def) blast
  next
    case False
    then show ?thesis unfolding arp_handle_packet_def Let_def arp_at_bytes [OF F l] using c by (auto simp: o s1_def)
  qed
qed

section \<open>Lemmas: the transmit and receive rings\<close>

lemma wait_tok_iff: "wait_tok d vs \<noteq> None \<longleftrightarrow> (\<exists>v \<in> set vs. v AND push_bit (unat d + 2) 1 \<noteq> 0)"
  by (induction vs) auto

lemma same_ring_refl [simp]: "same_ring s s" by (simp add: same_ring_def)

lemma same_ring_set_mem [simp]: "same_ring s (set_mem m s') = same_ring s s'" "same_ring (set_mem m s) s' = same_ring s s'"
  by (simp_all add: same_ring_def set_mem_def)

lemma same_ring_send:
  "ethernet_send_packet mac ty data len s = Some s' \<Longrightarrow> same_ring s s'"
  by (auto simp: ethernet_send_packet_def rtl8139_send_packet_def Let_def same_ring_def split: if_splits)

lemma same_ring_ipv4_send:
  assumes "ipv4_send d p data len s = Some s'"
  shows "same_ring s s'"
  using assms unfolding ipv4_send_def
  by (auto simp: Let_def bind_eq_Some_conv arp_send_request_def same_ring_def set_mem_def
      dest!: same_ring_send split: if_splits option.splits)

lemma same_ring_ethernet:
  assumes "ethernet_handle_packet data len s = Some s'"
  shows "same_ring s s'"
proof -
  have icmp: "same_ring s s'" if "icmp_handle i d l s = Some s'" for i d l
    using that unfolding icmp_handle_def
    by (auto simp: Let_def same_ring_def set_mem_def dest!: same_ring_ipv4_send split: if_splits)
  have arp: "same_ring s s'" if "arp_handle_packet d l s = Some s'" for d l
    using that unfolding arp_handle_packet_def
    by (auto simp: Let_def same_ring_def dest!: same_ring_send split: if_splits)
  have "same_ring s s'" if "ipv4_handle_packet d l s = Some s'" for d l
    using that unfolding ipv4_handle_packet_def by (auto simp: Let_def dest: icmp split: if_splits)
  then show ?thesis using assms arp unfolding ethernet_handle_packet_def
    by (auto simp: Let_def split: if_splits prod.splits)
qed

lemma not3_dvd: "4 dvd unat ((w :: u32) AND NOT 3)"
proof -
  have "(3 :: u32) = mask 2" by (simp add: mask_eq_exp_minus_1)
  then have "take_bit 2 (w AND NOT 3) = 0" by (simp add: take_bit_eq_mask ac_simps)
  then have "unat (w AND NOT 3) mod 2 ^ 2 = 0" by (metis take_bit_eq_mod unsigned_take_bit_eq unat_0)
  then show ?thesis by (simp add: dvd_eq_mod_eq_0)
qed

lemma next_offset_ok: "unat (next_offset o1 n) < 8192" "4 dvd unat (next_offset o1 n)"
proof -
  define off where "off = (o1 + ucast n + 4 + 3) AND NOT 3"
  have "unat (off mod 8192) = unat off mod 8192" by (simp add: unat_mod)
  moreover have "4 dvd unat off" unfolding off_def by (rule not3_dvd)
  moreover have "next_offset o1 n = (if 8192 \<le> off then off mod 8192 else off)" by (simp only: next_offset_def off_def Let_def)
  ultimately show "unat (next_offset o1 n) < 8192" "4 dvd unat (next_offset o1 n)" by (auto simp: word_le_nat_alt dvd_mod)
qed

lemma poll_frame_ring_ok: "ring_ok s \<Longrightarrow> poll_frame s = Some s' \<Longrightarrow> ring_ok s'"
  unfolding poll_frame_def by (auto simp: Let_def ring_ok_def next_offset_ok split: if_splits)

lemma rtl8139_poll_ring_ok: "rtl8139_poll rs s = Some s' \<Longrightarrow> ring_ok s \<Longrightarrow> ring_ok s'"
proof (induction rs s rule: rtl8139_poll.induct)
  case (2 cmd stores rs s)
  have "ring_ok (set_mem m s)" for m using "2.prems" by (simp add: ring_ok_def set_mem_def)
  moreover from this have "poll_frame (set_mem m s) = Some y \<Longrightarrow> ring_ok y" for m y by (rule poll_frame_ring_ok)
  ultimately show ?case using 2 by (auto simp: Let_def bind_eq_Some_conv split: if_splits)
qed simp

lemma wait_tok_set: "wait_tok d vs = Some ws \<Longrightarrow> set ws \<subseteq> set vs"
  by (induction vs) (auto split: if_splits)

lemma ethernet_echo:
  assumes ok: "heap_ok (heap s) A" and data: "{a..<a + n} \<subseteq> client A" "a + n \<le> 4294967296" and nb: "n < 4294967296"
    and F: "load_ram (mem s) (of_nat a) n = dst @ src @ [0x08, 0x00] @ ip_request tos idf ttl ck peer icmp @ pad"
    and us: "dst = mac_address s \<or> dst = replicate 6 0xFF" and l: "length src = 6" "length idf = 4" "length ck = 2"
    and i: "8 \<le> length icmp" "length icmp \<le> 1480" "icmp ! 0 = 8" and fits: "fits A (of_nat (20 + length icmp))" and r: "ready s"
  shows "\<exists>s'. ethernet_handle_packet (of_nat a) (of_nat n) s = Some s' \<and> answered A s s' (a + 34) peer icmp"
proof -
  define body where "body = ip_request tos idf ttl ck peer icmp @ pad"
  have mac: "length (mac_address s) = 6" using r by (simp add: ready_def)
  then have ld: "length dst = 6" using us by auto
  have F1: "load_ram (mem s) (of_nat a) n = dst @ src @ bytes16 (bswap16 0x0800) @ body" using F by (simp add: bswap_bytes body_def)
  have n: "n = 14 + length body" using arg_cong [OF F1, of length] ld l by simp
  have a14: "of_nat a + 14 = (of_nat (a + 14) :: u32)" "a + 14 + 20 = a + 34" by simp_all
  note d = ethernet_dispatch [OF F1 ld l(1) mac us nb, unfolded a14]
  have b: "load_ram (mem s) (of_nat (a + 14)) (length body) = ip_request tos idf ttl ck peer icmp @ pad" using d(2) unfolding body_def .
  have "\<exists>s'. ipv4_handle_packet (of_nat (a + 14)) (of_nat (length body)) s = Some s' \<and> answered A s s' (a + 14 + 20) peer icmp"
    by (rule ipv4_echo [OF ok _ _ _ b l(2,3) i fits r]) (use data nb n in auto)
  then show ?thesis unfolding d(1) a14 by simp
qed

section \<open>Properties\<close>

text \<open>
  C5: A ping is answered, from the receive ring to the wire: when the ring holds an echo request for this
  machine, one poll of the card returns, has sent the reply with valid IP and ICMP checksums (or asked for
  the unknown hardware address), has freed the packet buffer without touching any other block of the
  heap, and has moved on to the next frame of the ring.
\<close>

theorem ping_answered:
  assumes "heap_ok (heap s) A" and "rx_buffer s + rx_offset s = of_nat a"
    and "{a..<a + (4 + n)} \<subseteq> client A" and "a + (4 + n) \<le> 4294967296" and "n + 4 < 65536"
    and "load_ram (mem s) (of_nat a) (4 + n) = bytes16 status @ bytes16 (of_nat (n + 4)) @
      dst @ src @ [0x08, 0x00] @ ip_request tos idf ttl ck peer icmp @ pad"
    and "status AND 1 \<noteq> 0" and "dst = mac_address s \<or> dst = replicate 6 0xFF"
    and "length src = 6" "length idf = 4" "length ck = 2"
    and "8 \<le> length icmp" "length icmp \<le> 1480" "icmp ! 0 = 8"
    and "fits A (of_nat (20 + length icmp))" and "ready s"
  shows "\<exists>s'. rtl8139_poll [(0, []), (1, [])] s = Some s' \<and> answered A s s' (a + 38) peer icmp \<and>
    rx_offset s' = next_offset (rx_offset s) (of_nat (n + 4))"
proof -
  define frame where "frame = dst @ src @ [0x08, 0x00] @ ip_request tos idf ttl ck peer icmp @ pad"
  have F: "load_ram (mem s) (of_nat a) (4 + n) = bytes16 status @ (bytes16 (of_nat (n + 4)) @ frame)" using assms(6) unfolding frame_def .
  have n: "length frame = n" using arg_cong [OF F, of length] by simp
  note f1 = load_ram_append [OF F]
  note f2 = load_ram_append [OF f1(2)]
  have t: "of_nat a + of_nat 2 = (of_nat a + 2 :: u32)" "of_nat a + 2 + of_nat 2 = (of_nat (a + 4) :: u32)" "a + 4 + 34 = a + 38" by simp_all
  have st: "ld16 (mem s) (of_nat a) = status" "ld16 (mem s) (of_nat a + 2) = of_nat (n + 4)"
    by (rule ld_load, use f1(1) in simp, rule ld_load, use f2(1) in simp)
  have fr: "load_ram (mem s) (of_nat (a + 4)) n = frame" using f2(2) n by (simp add: add.commute add.left_commute)
  have u: "ucast (of_nat (n + 4) :: u16) - 4 = (of_nat n :: u32)" unfolding ucast_of_nat_u16 [OF assms(5)] by simp
  obtain s1 where s1: "ethernet_handle_packet (of_nat (a + 4)) (of_nat n) s = Some s1" "answered A s s1 (a + 38) peer icmp"
    using ethernet_echo [OF assms(1) _ _ _ fr [unfolded frame_def] assms(8-16)] assms(3-5) unfolding t by fastforce
  have sr: "rx_offset s1 = rx_offset s" using same_ring_ethernet [OF s1(1)] by (simp add: same_ring_def)
  let ?off = "next_offset (rx_offset s) (of_nat (n + 4))"
  have "set_mem (mem s) s = s" "set_mem (mem (s1\<lparr>rx_offset := ?off, capr := c\<rparr>)) (s1\<lparr>rx_offset := ?off, capr := c\<rparr>) = s1\<lparr>rx_offset := ?off, capr := c\<rparr>" for c
    by (simp_all add: set_mem_def)
  moreover have "poll_frame s = Some (s1\<lparr>rx_offset := ?off, capr := ucast (?off - 0x10)\<rparr>)"
    unfolding poll_frame_def Let_def assms(2) st using assms(7) u s1(1) by (simp add: sr add.commute)
  ultimately have "rtl8139_poll [(0, []), (1, [])] s = Some (s1\<lparr>rx_offset := ?off, capr := ucast (?off - 0x10)\<rparr>)" by (simp add: Let_def)
  moreover have "answered A s (s1\<lparr>rx_offset := ?off, capr := c\<rparr>) (a + 38) peer icmp" for c using s1(2) by (simp add: answered_def)
  ultimately show ?thesis by auto
qed

theorem ping_answered_witness:
  "\<exists>s s' A. rx_offset s = 8 \<and> tx s = [] \<and> rtl8139_poll [(0, []), (1, [])] s = Some s' \<and> length (tx s') = 1 \<and>
     answered A s s' 1046 (MAKE_IP 192 168 10 1) [8, 0, 1, 2, 0, 7, 0, 1]"
proof -
  let ?mac = "[2, 0, 0, 0, 0, 1] :: u8 list" and ?peer = "MAKE_IP 192 168 10 1" and ?A = "(4096, [(244, True)]) :: nat \<times> blocks"
  define icmp where "icmp = [8, 0, 1, 2, 0, 7, 0, 1 :: u8]"
  define bytes where "bytes = bytes16 1 @ bytes16 (of_nat (42 + 4)) @ ?mac @ [2, 0, 0, 0, 0, 9] @ [0x08, 0x00] @
    ip_request 0 [0, 0, 0, 0] 64 [0, 0] ?peer icmp @ []"
  have lb: "length bytes = 4 + 42" by (simp add: bytes_def ip_request_def icmp_def)
  define m where "m = put_ram (of_nat 1008) bytes (ram small_heap)"
  have mn: "m (of_nat x) = (if 1008 \<le> x \<and> x < 1008 + 46 then bytes ! (x - 1008) else ram small_heap (of_nat x))" if "x < 4294967296" for x
    unfolding m_def using put_ram_nat [of 1008 bytes x "ram small_heap"] that lb by simp
  define s where "s = \<lparr>heap = small_heap\<lparr>ram := m\<rparr>, arp_cache = [\<lparr>ae_ip = ?peer, ae_mac = [2, 0, 0, 0, 0, 9], ae_assigned = True\<rparr>],
    mac_address = ?mac, rx_buffer = 1000, rx_offset = 8, current_tx_descriptor = 0, isr_reads = [0, 4], capr = 0, tx = [], tty = []\<rparr>"
  have c: "{1008..<1008 + (4 + 42)} \<subseteq> client ?A" by (auto simp: client_def client_bytes_def)
  have ok: "heap_ok (heap s) ?A" unfolding s_def net.select_convs
    by (rule heap_ok_ram [OF small_heap_ok]) (use c mn in auto)
  have ld: "load_ram (mem s) (of_nat 1008) (4 + 42) = bytes"
    by (rule load_ram_eqI) (use mn lb in \<open>auto simp: s_def simp del: of_nat_add of_nat_numeral\<close>)
  have "fits ?A (of_nat (20 + length icmp))" by (simp add: icmp_def fits_def ALIGN_def ALIGNMENT_def)
  moreover have "ready s" by (simp add: ready_def s_def)
  moreover have "rx_buffer s + rx_offset s = of_nat 1008" "mac_address s = ?mac" by (simp_all add: s_def)
  ultimately obtain s' where "rtl8139_poll [(0, []), (1, [])] s = Some s'" "answered ?A s s' (1008 + 38) ?peer icmp"
    using ping_answered [OF ok _ c _ _ ld [unfolded bytes_def]] by (auto simp: icmp_def)
  moreover have "rx_offset s = 8" "tx s = []" by (simp_all add: s_def)
  ultimately show ?thesis unfolding icmp_def answered_def by (intro exI [of _ s] exI [of _ s'] exI [of _ ?A]) auto
qed

text \<open>
  C23: An ARP packet for this machine is learnt and answered: the sender's address is found in the cache
  afterwards if an entry was free or already its own, no other address of the cache changes, and a
  request for our address, and nothing else, is answered with our hardware address.
\<close>

theorem arp_resolution:
  assumes "load_ram (mem s) a n = dst @ src @ [0x08, 0x06] @ arp_bytes p @ pad" and "n < 4294967296"
    and "dst = mac_address s \<or> dst = replicate 6 0xFF" and "length src = 6"
    and "length (src_mac p) = 6" and "length (dest_mac p) = 6" and "ready s"
  shows "\<exists>s' k. ethernet_handle_packet a (of_nat n) s = Some s' \<and>
    tx s' = tx s @ (if oper p = bswap16 1 \<and> dest_ip p = sojeb_os_ip
      then [(arp_frame (src_mac p) (mac_address s) 2 (src_mac p) (src_ip p), k)] else []) \<and> 60 \<le> k \<and>
    heap s' = heap s \<and>
    (\<forall>ip. arp_lookup ip s' = (if ip = src_ip p \<and> arp_room (arp_cache s) ip then Some (src_mac p) else arp_lookup ip s))"
proof -
  have mac: "length (mac_address s) = 6" and r: "wait_tok (current_tx_descriptor s) (isr_reads s) \<noteq> None" using assms(7) by (auto simp: ready_def)
  then obtain vs where v: "wait_tok (current_tx_descriptor s) (isr_reads s) = Some vs" by auto
  have ld: "length dst = 6" using assms(3) mac by auto
  have F: "load_ram (mem s) a n = dst @ src @ bytes16 (bswap16 0x0806) @ (arp_bytes p @ pad)" using assms(1) by (simp add: bswap_bytes)
  note d = ethernet_dispatch [OF F ld assms(4) mac assms(3,2)]
  have lp: "length (arp_bytes p) = 28" using assms(5,6) by (simp add: arp_bytes_def)
  have b: "load_ram (mem s) (a + 14) 28 = arp_bytes p" using load_ram_append(1) [OF d(2)] lp by simp
  have l: "28 \<le> length (arp_bytes p @ pad)" "length (arp_bytes p @ pad) < 4294967296"
    using lp arg_cong [OF F, of length] assms(2,4) ld by simp_all
  define s1 where "s1 = s\<lparr>arp_cache := arp_learn (src_ip p) (src_mac p) (arp_cache s)\<rparr>"
  have e: "ethernet_handle_packet a (of_nat n) s = arp_handle_packet (a + 14) (of_nat (length (arp_bytes p @ pad))) s" using d(1) by simp
  have f: "arp_lookup ip s1 = (if ip = src_ip p \<and> arp_room (arp_cache s) ip then Some (src_mac p) else arp_lookup ip s)" for ip
    by (auto simp: arp_lookup_def s1_def at.lookup_learn)
  have g: "tx s1 = tx s" "heap s1 = heap s" by (simp_all add: s1_def)
  have h: "tx (after_tx x k vs s1) = tx s @ [(x, k)]" "heap (after_tx x k vs s1) = heap s" "arp_lookup ip (after_tx x k vs s1) = arp_lookup ip s1" for x k ip
    by (simp_all add: after_tx_def s1_def arp_lookup_def)
  consider "\<not> (oper p = bswap16 1 \<and> dest_ip p = sojeb_os_ip)" "ethernet_handle_packet a (of_nat n) s = Some s1"
    | k where "oper p = bswap16 1 \<and> dest_ip p = sojeb_os_ip" "60 \<le> k"
        "ethernet_handle_packet a (of_nat n) s = Some (after_tx (arp_frame (src_mac p) (mac_address s) 2 (src_mac p) (src_ip p)) k vs s1)"
    using arp_handle [OF b assms(5,6) l v] unfolding e s1_def by blast
  then show ?thesis
  proof cases
    case 1
    then show ?thesis using f g by (intro exI [of _ s1] exI [of _ 60]) auto
  next
    case (2 k)
    then show ?thesis using f h by (intro exI [of _ "after_tx (arp_frame (src_mac p) (mac_address s) 2 (src_mac p) (src_ip p)) k vs s1"] exI [of _ k]) auto
  qed
qed

theorem arp_resolution_witness:
  "\<exists>s s'. arp_lookup (MAKE_IP 192 168 10 1) s = None \<and> ethernet_handle_packet 100 42 s = Some s' \<and>
     arp_lookup (MAKE_IP 192 168 10 1) s' = Some [2, 0, 0, 0, 0, 9] \<and> length (tx s') = 1"
proof -
  let ?mac = "[2, 0, 0, 0, 0, 1] :: u8 list" and ?peer = "MAKE_IP 192 168 10 1"
  define p where "p = \<lparr>htype = bswap16 1, ptype = bswap16 0x0800, hlen = 6, plen = 4, oper = bswap16 1,
    src_mac = [2, 0, 0, 0, 0, 9], src_ip = ?peer, dest_mac = replicate 6 0, dest_ip = sojeb_os_ip\<rparr>"
  define bytes where "bytes = replicate 6 0xFF @ [2, 0, 0, 0, 0, 9] @ [0x08, 0x06] @ arp_bytes p @ []"
  have lb: "length bytes = 42" by (simp add: bytes_def arp_bytes_def p_def)
  define m where "m = put_ram (of_nat 100) bytes (\<lambda>_. 0)"
  define s where "s = \<lparr>heap = small_heap\<lparr>ram := m\<rparr>, arp_cache = [\<lparr>ae_ip = 0, ae_mac = replicate 6 0, ae_assigned = False\<rparr>],
    mac_address = ?mac, rx_buffer = 1000, rx_offset = 8, current_tx_descriptor = 0, isr_reads = [4], capr = 0, tx = [], tty = []\<rparr>"
  have ld: "load_ram (mem s) (of_nat 100) 42 = bytes"
  proof (rule load_ram_eqI)
    fix i :: nat assume "i < 42"
    then show "mem s (of_nat (100 + i)) = bytes ! i"
      using put_ram_nat [of 100 bytes "100 + i" "\<lambda>_. 0"] lb by (simp add: s_def m_def)
  qed (rule lb)
  have "ready s" by (simp add: ready_def s_def)
  moreover have "arp_room (arp_cache s) ?peer" "arp_lookup ?peer s = None" "tx s = []" by (simp_all add: arp_room_def s_def arp_lookup_def)
  ultimately show ?thesis using arp_resolution [OF ld [unfolded bytes_def]] by (fastforce simp: p_def)
qed

text \<open>
  C24: \<open>net_checksum\<close> is the complement of the ones' complement sum of RFC 1071 for up to 65536 bytes,
  an odd last byte included, and storing it in a zeroed field at an even offset makes the checksum of the
  bytes valid.
\<close>

theorem net_checksum_rfc1071:
  assumes "n \<le> 65536" and "a + n \<le> 4294967296" and "load_ram m (of_nat a) n = xs @ [0, 0] @ ys" and "even (length xs)"
  shows "unat (net_checksum m (of_nat a) (of_nat n)) = 65535 - ones_sum (word_sum (xs @ [0, 0] @ ys)) \<and>
    (let m' = put_ram (of_nat (a + length xs)) (bytes16 (net_checksum m (of_nat a) (of_nat n))) m
     in load_ram m' (of_nat a) n = xs @ bytes16 (net_checksum m (of_nat a) (of_nat n)) @ ys \<and> valid_checksum (load_ram m' (of_nat a) n))"
proof -
  define c where "c = net_checksum m (of_nat a) (of_nat n)"
  define m' where "m' = put_ram (of_nat (a + length xs)) (bytes16 c) m"
  have c: "unat c = 65535 - ones_sum (word_sum (xs @ [0, 0] @ ys))"
    unfolding c_def net_checksum_eq [OF assms(1)] assms(3) ..
  have n: "n = length xs + 2 + length ys" using arg_cong [OF assms(3), of length] by simp
  have "load_ram m' (of_nat a) n = xs @ bytes16 c @ ys"
  proof (rule load_ram_eqI)
    fix i assume i: "i < n"
    have "m' (of_nat (a + i)) = (if length xs \<le> i \<and> i < length xs + 2 then bytes16 c ! (i - length xs) else m (of_nat (a + i)))"
      unfolding m'_def using put_ram_nat [of "a + length xs" "bytes16 c" "a + i" m] assms(2) i n by simp
    moreover have "m (of_nat (a + i)) = (xs @ [0, 0] @ ys) ! i" using nth_load_ram [OF i, of m a] unfolding assms(3) by simp
    moreover have "i < length xs \<or> i = length xs \<or> i = Suc (length xs) \<or> (\<exists>j. i = length xs + 2 + j)"
      by (metis less_Suc_eq linorder_not_less add_2_eq_Suc' le_Suc_ex)
    ultimately show "m' (of_nat (a + i)) = (xs @ bytes16 c @ ys) ! i" by (auto simp: nth_append simp del: of_nat_add)
  qed (simp add: n)
  moreover have "valid_checksum (xs @ bytes16 c @ ys)" by (rule checksum_makes_valid [OF assms(4) c])
  ultimately show ?thesis using c unfolding c_def [symmetric] Let_def m'_def by simp
qed

theorem net_checksum_rfc1071_witness:
  "let m = put_ram 100 [0x45, 0x00, 0, 0, 7] (\<lambda>_. 0); c = net_checksum m 100 5
   in valid_checksum (load_ram (put_ram 102 (bytes16 c) m) 100 5)"
proof -
  define m where "m = put_ram 100 [0x45, 0x00, 0, 0, 7] (\<lambda>_. 0 :: u8)"
  have "load_ram m (of_nat 100) 5 = [0x45, 0x00] @ [0, 0] @ [7]" by (simp add: m_def load_ram_def upt_rec)
  from net_checksum_rfc1071 [OF _ _ this]
  have "valid_checksum (load_ram (put_ram 102 (bytes16 (net_checksum m 100 5)) m) 100 5)" by (auto simp: Let_def)
  then show ?thesis unfolding m_def Let_def .
qed

text \<open>
  C34: Whatever the card stores in the receive ring, polling keeps the read offset inside the ring and a
  multiple of four.
\<close>

theorem ring_stays_aligned:
  assumes "ring_ok s" and "rtl8139_poll rs s = Some s'"
  shows "ring_ok s'"
  using rtl8139_poll_ring_ok assms by blast

theorem ring_stays_aligned_witness:
  "\<exists>s s'. rx_offset s = 8188 \<and> rtl8139_poll [(0, [(8188, 1), (8190, 64)]), (1, [])] s = Some s' \<and> ring_ok s'"
proof -
  define s where "s = \<lparr>heap = \<lparr>ram = \<lambda>_. 0, free_list_head = 0\<rparr>, arp_cache = [], mac_address = replicate 6 1, rx_buffer = 0, rx_offset = 8188,
    current_tx_descriptor = 0, isr_reads = [], capr = 0, tx = [], tty = []\<rparr>"
  have "ring_ok s" "rx_offset s = 8188" by (simp_all add: s_def ring_ok_def)
  moreover have "rtl8139_poll [(0, [(8188, 1), (8190, 64)]), (1, [])] s \<noteq> None"
    by (simp add: s_def poll_frame_def set_mem_def ld16_def u16_le_def ethernet_handle_packet_def upt6 Let_def)
  ultimately show ?thesis using ring_stays_aligned by fast
qed

text \<open>
  The driver waits for bit 3 of the interrupt status after its second frame, while the card reports every
  transmission in bit 2: a card that sets only the receive and transmit bits makes the second call of
  \<open>rtl8139_send_packet\<close> wait forever.
\<close>

theorem second_transmit_hangs:
  assumes "current_tx_descriptor s = 0" and "list_all (\<lambda>v. v AND NOT 5 = 0) (isr_reads s)"
    and "rtl8139_send_packet d1 l1 s = Some s1"
  shows "rtl8139_send_packet d2 l2 s1 = None"
proof -
  have c: "current_tx_descriptor s1 = 1" "set (isr_reads s1) \<subseteq> set (isr_reads s)"
    using assms(1,3) by (auto simp: rtl8139_send_packet_def Let_def dest: wait_tok_set [THEN subsetD])
  have "v AND 8 = 0" if "v AND NOT 5 = 0" for v :: u16
  proof -
    have "v AND 8 = (v AND NOT 5) AND 8" by (simp add: ac_simps)
    then show ?thesis using that by simp
  qed
  then have "\<not> (\<exists>v \<in> set (isr_reads s1). v AND push_bit (unat (1 :: u8) + 2) 1 \<noteq> 0)"
    using c(2) assms(2) by (auto simp: list_all_iff)
  then show ?thesis using wait_tok_iff [of 1 "isr_reads s1"] c(1) by (simp add: rtl8139_send_packet_def Let_def)
qed

theorem second_transmit_hangs_witness:
  "\<exists>s s1. rtl8139_send_packet [1] 1 s = Some s1 \<and> rtl8139_send_packet [1] 1 s1 = None"
proof -
  define s where "s = \<lparr>heap = \<lparr>ram = \<lambda>_. 0, free_list_head = 0\<rparr>, arp_cache = [], mac_address = replicate 6 1, rx_buffer = 0, rx_offset = 0,
    current_tx_descriptor = 0, isr_reads = [0, 4, 4, 5, 4], capr = 0, tx = [], tty = []\<rparr>"
  have "rtl8139_send_packet [1] 1 s \<noteq> None" by (simp add: s_def rtl8139_send_packet_def Let_def)
  then show ?thesis using second_transmit_hangs [of s "[1]" 1] by (fastforce simp: s_def)
qed

end
