(* ===== verification/Net_Any.thy ===== *)
theory Net_Any
  imports Net
begin

text \<open>
  What the network stack does with frames of any contents: besides the receive ring it changes no byte of a client of
  the heap, and the blocks in use stay in use, whatever the lengths and addresses in the frames say.
\<close>

unbundle bit_operations_syntax

section \<open>Specification\<close>

text \<open>The heap stays well formed, its blocks stay in use, and the clients only see changes in \<open>R\<close>.\<close>

definition heap_keeps :: "nat \<times> blocks \<Rightarrow> nat set \<Rightarrow> kheap \<Rightarrow> nat \<times> blocks \<Rightarrow> kheap \<Rightarrow> bool" where
  "heap_keeps A R h A' h' \<longleftrightarrow> heap_ok h' A' \<and> client A \<subseteq> client A' \<and> (\<forall>q t. 0 < t \<longrightarrow> live A q t \<longrightarrow> live A' q t) \<and>
     (\<forall>x \<in> client A - R. ram h' (of_nat x) = ram h (of_nat x))"

text \<open>A call of \<open>rtl8139_poll\<close> during which the card stores only in the receive ring.\<close>

definition ring_bytes :: "net \<Rightarrow> nat set" where
  "ring_bytes s = (if rx_buffer s = 0 then {} else {unat (rx_buffer s)..<unat (rx_buffer s) + 9708})"

definition card_poll :: "net \<Rightarrow> (u8 \<times> (u32 \<times> u8) list) list \<Rightarrow> bool" where
  "card_poll s p \<longleftrightarrow> (\<forall>(cmd, stores) \<in> set p. (\<forall>(a, b) \<in> set stores. unat a \<in> ring_bytes s) \<and> (rx_buffer s = 0 \<longrightarrow> cmd AND 1 \<noteq> 0))"

section \<open>Lemmas\<close>

lemma heap_keeps_refl: "heap_ok h A \<Longrightarrow> heap_keeps A R h A h"
  by (simp add: heap_keeps_def)

lemma heap_keeps_trans:
  assumes "heap_keeps A R h A1 h1" and "heap_keeps A1 R h1 A2 h2"
  shows "heap_keeps A R h A2 h2"
proof -
  have "ram h2 (of_nat x) = ram h (of_nat x)" if "x \<in> client A - R" for x
  proof -
    have "x \<in> client A1 - R" using assms(1) that unfolding heap_keeps_def by blast
    then show ?thesis using assms that unfolding heap_keeps_def by metis
  qed
  then show ?thesis using assms unfolding heap_keeps_def by blast
qed

lemma heap_keeps_mono: "heap_keeps A R h A' h' \<Longrightarrow> R \<subseteq> R' \<Longrightarrow> heap_keeps A R' h A' h'"
  unfolding heap_keeps_def by blast

text \<open>Writing into \<open>R\<close>.\<close>

lemma heap_keeps_write:
  assumes ok: "heap_ok h A" and R: "R \<subseteq> client A" and w: "\<And>x. x < 4294967296 \<Longrightarrow> x \<notin> R \<Longrightarrow> m (of_nat x) = ram h (of_nat x)"
  shows "heap_keeps A R h A (h\<lparr>ram := m\<rparr>)"
proof -
  have "heap_ok (h\<lparr>ram := m\<rparr>) A" by (rule heap_ok_ram [OF ok]) (use w R in blast)
  then show ?thesis using w client_bound [OF ok] by (simp add: heap_keeps_def)
qed

text \<open>A block that is allocated and written, and freed after something else has run.\<close>

lemma heap_keeps_around:
  assumes ok: "heap_ok h A" and k: "kmalloc n h = Some (h1, p)" "p \<noteq> 0" "unat n \<le> 4294967288" "0 < unat n"
    and w: "\<And>x. x < 4294967296 \<Longrightarrow> x \<notin> {unat p..<unat p + unat n} \<Longrightarrow> m (of_nat x) = ram h1 (of_nat x)"
    and run: "\<And>A1. heap_ok (h1\<lparr>ram := m\<rparr>) A1 \<Longrightarrow> \<exists>A2. heap_keeps A1 {} (h1\<lparr>ram := m\<rparr>) A2 h2"
    and f: "kfree p h2 = Some h3"
  shows "\<exists>A'. heap_keeps A {} h A' h3"
proof -
  have fits: "fits A n"
  proof (rule ccontr)
    assume "\<not> fits A n"
    then show False using kmalloc_full [OF ok] k(1,2) by simp
  qed
  obtain A1 t where a: "heap_ok h1 A1" "unat n \<le> t" "live A1 (unat p) t" "{unat p..<unat p + t} \<inter> client A = {}"
    "client A1 = client A \<union> {unat p..<unat p + t}" "\<forall>x \<in> client A. ram h1 (of_nat x) = ram h (of_nat x)" "\<forall>q u. live A q u \<longrightarrow> live A1 q u"
    "\<forall>u. \<not> live A (unat p) u"
    using kmalloc_room [OF ok fits k(3)] k(1) by auto
  have w': "m (of_nat x) = ram h1 (of_nat x)" if "x < 4294967296" "x \<notin> {unat p..<unat p + t}" for x
  proof (rule w [OF that(1)])
    show "x \<notin> {unat p..<unat p + unat n}" using that(2) a(2) by auto
  qed
  have ok1: "heap_ok (h1\<lparr>ram := m\<rparr>) A1" by (rule heap_ok_ram [OF a(1)]) (use w' a(5) in blast)
  from run [OF this] obtain A2 where r: "heap_ok h2 A2" "client A1 \<subseteq> client A2" "\<forall>q u. 0 < u \<longrightarrow> live A1 q u \<longrightarrow> live A2 q u"
    "\<forall>x \<in> client A1. ram h2 (of_nat x) = m (of_nat x)"
    by (auto simp: heap_keeps_def)
  have lv: "live A2 (unat p) t" using r(3) a(2,3) k(4) by simp
  obtain A3 where b: "heap_ok h3 A3" "client A3 = client A2 - {unat p..<unat p + t}" "\<forall>x \<in> client A3. ram h3 (of_nat x) = ram h2 (of_nat x)"
    "\<forall>q u. live A2 q u \<and> q \<noteq> unat p \<longrightarrow> live A3 q u"
    using kfree_live [OF r(1) lv] f by auto
  have c: "client A \<subseteq> client A3" using a(4,5) b(2) r(2) by blast
  moreover have "\<forall>q u. 0 < u \<longrightarrow> live A q u \<longrightarrow> live A3 q u" using a(7,8) b(4) r(3) by metis
  moreover have "ram h3 (of_nat x) = ram h (of_nat x)" if "x \<in> client A" for x
  proof -
    have "x \<notin> {unat p..<unat p + t}" using a(4) that by blast
    then have "m (of_nat x) = ram h1 (of_nat x)" using w' client_bound [OF ok that] by blast
    then show ?thesis using a(5,6) b(3) r(4) that c by auto
  qed
  ultimately have "heap_keeps A {} h A3 h3" using b(1) by (simp add: heap_keeps_def)
  then show ?thesis by blast
qed

lemma heap_keeps_block:
  assumes ok: "heap_ok h A" and k: "kmalloc n h = Some (h1, p)" "p \<noteq> 0" "unat n \<le> 4294967288" "0 < unat n"
    and w: "\<And>x. x < 4294967296 \<Longrightarrow> x \<notin> {unat p..<unat p + unat n} \<Longrightarrow> m (of_nat x) = ram h1 (of_nat x)"
    and f: "kfree p (h1\<lparr>ram := m\<rparr>) = Some h2"
  shows "\<exists>A'. heap_keeps A {} h A' h2"
  by (rule heap_keeps_around [OF ok k w _ f]) (use heap_keeps_refl in blast)+

section \<open>Lemmas: sending\<close>

lemma send_heap:
  "ethernet_send_packet mac ty data len s = Some s' \<Longrightarrow> heap s' = heap s"
  by (auto simp: ethernet_send_packet_def rtl8139_send_packet_def Let_def split: if_splits)

lemma arp_send_heap: "arp_send_request ip s = Some s' \<Longrightarrow> heap s' = heap s"
  by (auto simp: arp_send_request_def Let_def dest: send_heap)

lemma arp_handle_heap: "arp_handle_packet data len s = Some s' \<Longrightarrow> heap s' = heap s"
  by (auto simp: arp_handle_packet_def Let_def dest: send_heap split: if_splits)

lemma kmalloc_total: "heap_ok h A \<Longrightarrow> unat n \<le> 4294967288 \<Longrightarrow> \<exists>h' p. kmalloc n h = Some (h', p) \<and> (p = 0 \<longrightarrow> h' = h)"
  by (cases "fits A n") (use kmalloc_room in blast, use kmalloc_full in blast)

lemma ipv4_send_keeps:
  assumes ok: "heap_ok (heap s) A" and run: "ipv4_send d p data len s = Some s'" and len: "unat len \<le> 65535"
  shows "\<exists>A'. heap_keeps A {} (heap s) A' (heap s')"
proof -
  let ?n = "20 + len"
  have un: "unat ?n = 20 + unat len" using len by (simp add: unat_add_u32)
  then have n8: "unat ?n \<le> 4294967288" "0 < unat ?n" using len by simp_all
  obtain h1 q where k: "kmalloc ?n (heap s) = Some (h1, q)" "q = 0 \<longrightarrow> h1 = heap s" using kmalloc_total [OF ok n8(1)] by blast
  show ?thesis
  proof (cases "q = 0")
    case True
    then have "heap s' = heap s" using run k by (simp add: ipv4_send_def Let_def)
    then show ?thesis using heap_keeps_refl [OF ok] by (intro exI [of _ A]) simp
  next
    case False
    define P where "P = unat q"
    have q: "q = of_nat P" by (simp add: P_def)
    have fits: "fits A ?n"
    proof (rule ccontr)
      assume "\<not> fits A ?n"
      then show False using kmalloc_full [OF ok] k(1) False by simp
    qed
    obtain A1 t where a: "heap_ok h1 A1" "unat ?n \<le> t" "live A1 (unat q) t" using kmalloc_room [OF ok fits n8(1)] k(1) by auto
    have Pb: "P + (20 + unat len) < 4294967296" using live_client [OF a(1,3)] a(2) un by (simp add: P_def)
    define m1 where "m1 = put_ram q (ip_header ?n p d 0) (ram h1)"
    define m2 where "m2 = put_ram (q + 10) (bytes16 (net_checksum m1 q 20)) m1"
    define m3 where "m3 = copy_ram (unat len) (q + 20) data m2"
    have w: "m3 (of_nat x) = ram h1 (of_nat x)" if x: "x < 4294967296" "x \<notin> {unat q..<unat q + unat ?n}" for x
    proof -
      have o: "x \<notin> {P..<P + 20}" "x \<notin> {P + 10..<P + 12}" "x \<notin> {P + 20..<P + 20 + unat len}" using x(2) un by (auto simp: P_def)
      have e: "q + 20 = of_nat (P + 20)" "q + 10 = of_nat (P + 10)" by (simp_all add: q)
      have "m3 (of_nat x) = m2 (of_nat x)" unfolding m3_def e by (rule copy_ram_outside) (use o Pb x in auto)
      moreover have "m2 (of_nat x) = m1 (of_nat x)" unfolding m2_def e using put_ram_nat [of "P + 10" "bytes16 (net_checksum m1 q 20)" x m1] o Pb x by auto
      moreover have "m1 (of_nat x) = ram h1 (of_nat x)" unfolding m1_def using put_ram_nat [of P "ip_header ?n p d 0" x "ram h1"] o Pb x by (auto simp: q)
      ultimately show ?thesis by simp
    qed
    obtain s4 where s4: "heap s4 = h1\<lparr>ram := m3\<rparr>" "map_option (\<lambda>h. s4\<lparr>heap := h\<rparr>) (kfree q (heap s4)) = Some s'"
      using run False unfolding ipv4_send_def Let_def k(1) bind.simps prod.case set_mem_def
      by (auto simp: bind_eq_Some_conv m1_def m2_def m3_def dest!: send_heap arp_send_heap split: option.splits)
    then obtain h5 where "kfree q (h1\<lparr>ram := m3\<rparr>) = Some h5" "heap s' = h5" by auto
    then show ?thesis using heap_keeps_block [OF ok k(1) False n8 w] by blast
  qed
qed

section \<open>Lemmas: receiving\<close>

lemma icmp_keeps:
  assumes ok: "heap_ok (heap s) A" and run: "icmp_handle ip_hdr data len s = Some s'" and len: "unat len \<le> 65535"
    and R: "{unat data..<unat data + 4} \<subseteq> R" "R \<subseteq> client A" "unat data + 4 < 4294967296"
  shows "\<exists>A'. heap_keeps A R (heap s) A' (heap s')"
proof (cases "8 \<le> len \<and> mem s data = 8")
  case True
  obtain D where d: "data = of_nat D" "unat data = D" by (metis of_nat_unat ucast_id)
  define m1 where "m1 = put_ram data [0, 0, 0, 0] (mem s)"
  define m2 where "m2 = put_ram (data + 2) (bytes16 (net_checksum m1 data len)) m1"
  have w: "m2 (of_nat x) = mem s (of_nat x)" if x: "x < 4294967296" "x \<notin> R" for x
  proof -
    have "x \<notin> {D..<D + 4}" using x(2) R(1) unfolding d(2) by blast
    then have o: "x \<notin> {D..<D + 4}" "x \<notin> {D + 2..<D + 4}" by auto
    have e: "data + 2 = of_nat (D + 2)" by (simp add: d(1))
    have "m2 (of_nat x) = m1 (of_nat x)" unfolding m2_def e using put_ram_nat [of "D + 2" "bytes16 (net_checksum m1 data len)" x m1] o R(3) x(1) unfolding d(2) by auto
    moreover have "m1 (of_nat x) = mem s (of_nat x)" unfolding m1_def d(1) using put_ram_nat [of D "[0, 0, 0, 0]" x "mem s"] o R(3) x(1) unfolding d(2) by auto
    ultimately show ?thesis by simp
  qed
  have k1: "heap_keeps A R (heap s) A ((heap s)\<lparr>ram := m2\<rparr>)" by (rule heap_keeps_write [OF ok R(2) w])
  have r: "ipv4_send (ld32 m2 (ip_hdr + 12)) 1 data len (set_mem m2 s) = Some s'"
    using run True by (simp add: icmp_handle_def Let_def m1_def m2_def set_mem_def not_less [symmetric] del: put_ram.simps)
  have "heap_ok (heap (set_mem m2 s)) A" using k1 by (simp add: set_mem_def heap_keeps_def)
  from ipv4_send_keeps [OF this r len] obtain A' where "heap_keeps A {} (heap (set_mem m2 s)) A' (heap s')" by blast
  from heap_keeps_mono [OF this empty_subsetI, of R]
  have "heap_keeps A R ((heap s)\<lparr>ram := m2\<rparr>) A' (heap s')" by (simp add: set_mem_def)
  from heap_keeps_trans [OF k1 this] show ?thesis by blast
next
  case False
  then have "heap s' = heap s" using run by (auto simp: icmp_handle_def Let_def split: if_splits)
  then show ?thesis using heap_keeps_refl [OF ok] by (intro exI [of _ A]) simp
qed

lemma if_some: "(if c then Some a else e) = Some b \<longleftrightarrow> c \<and> b = a \<or> \<not> c \<and> e = Some b"
  "(if c then e else Some a) = Some b \<longleftrightarrow> \<not> c \<and> b = a \<or> c \<and> e = Some b" "\<not> x < y \<longleftrightarrow> (y :: u32) \<le> x"
  by auto

lemma ipv4_handle_keeps:
  assumes ok: "heap_ok (heap s) A" and run: "ipv4_handle_packet data len s = Some s'"
    and R: "{unat data..<unat data + 64} \<subseteq> R" "R \<subseteq> client A" "unat data + 64 < 4294967296"
  shows "\<exists>A'. heap_keeps A R (heap s) A' (heap s')"
proof -
  let ?hl = "ucast (mem s data AND 0x0F) * 4 :: u32" and ?tl = "ucast (bswap16 (ld16 (mem s) (data + 2))) :: u32"
  have "unat (mem s data AND 0x0F) \<le> 15" using word_and_le1 [of "mem s data" "0x0F"] by (simp add: word_le_nat_alt)
  then have hl: "unat ?hl \<le> 60" by (subst unat_mult_u32) simp_all
  then have p: "unat (data + ?hl) = unat data + unat ?hl" using R(3) by (subst unat_add_u32) simp_all
  have "(icmp_handle data (data + ?hl) (?tl - ?hl) s = Some s' \<and> ?hl \<le> ?tl) \<or> s' = s"
    using run unfolding ipv4_handle_packet_def Let_def if_some by blast
  then consider (icmp) "icmp_handle data (data + ?hl) (?tl - ?hl) s = Some s'" "?hl \<le> ?tl" | (same) "s' = s" by blast
  then show ?thesis
  proof cases
    case icmp
    have "unat ?tl < 65536" by simp
    moreover have "unat (?tl - ?hl) = unat ?tl - unat ?hl" using icmp(2) by (rule unat_sub)
    ultimately have "unat (?tl - ?hl) \<le> 65535" by linarith
    moreover have "{unat (data + ?hl)..<unat (data + ?hl) + 4} \<subseteq> {unat data..<unat data + 64}" unfolding p using hl by auto
    moreover from this have "{unat (data + ?hl)..<unat (data + ?hl) + 4} \<subseteq> R" using R(1) by blast
    moreover have "unat (data + ?hl) + 4 < 4294967296" unfolding p using R(3) hl by simp
    ultimately show ?thesis using icmp_keeps [OF ok icmp(1) _ _ R(2)] by blast
  next
    case same
    then show ?thesis using heap_keeps_refl [OF ok] by (intro exI [of _ A]) simp
  qed
qed

lemma ethernet_handle_keeps:
  assumes ok: "heap_ok (heap s) A" and run: "ethernet_handle_packet data len s = Some s'"
    and R: "{unat data..<unat data + 78} \<subseteq> R" "R \<subseteq> client A" "unat data + 78 < 4294967296"
  shows "\<exists>A'. heap_keeps A R (heap s) A' (heap s')"
proof -
  have p: "unat (data + 14) = unat data + 14" using R(3) by (subst unat_add_u32) simp_all
  consider (ip) "ipv4_handle_packet (data + 14) (len - 14) s = Some s'" | (same) "heap s' = heap s"
    using run by (auto simp: ethernet_handle_packet_def Let_def split_beta dest: arp_handle_heap split: if_splits)
  then show ?thesis
  proof cases
    case ip
    have "{unat (data + 14)..<unat (data + 14) + 64} \<subseteq> {unat data..<unat data + 78}" unfolding p by auto
    then have "{unat (data + 14)..<unat (data + 14) + 64} \<subseteq> R" using R(1) by blast
    moreover have "unat (data + 14) + 64 < 4294967296" unfolding p using R(3) by simp
    ultimately show ?thesis using ipv4_handle_keeps [OF ok ip _ R(2)] by blast
  next
    case same
    then show ?thesis using heap_keeps_refl [OF ok] by (intro exI [of _ A]) simp
  qed
qed

lemma poll_frame_keeps:
  assumes ok: "heap_ok (heap s) A" and run: "poll_frame s = Some s'" and rx: "rx_buffer s \<noteq> 0" "ring_ok s"
    and R: "ring_bytes s \<subseteq> client A" "unat (rx_buffer s) + 9708 < 4294967296"
  shows "\<exists>A'. heap_keeps A (ring_bytes s) (heap s) A' (heap s')"
proof -
  let ?h = "rx_buffer s + rx_offset s"
  have o: "unat (rx_offset s) < 8192" using rx(2) by (simp add: ring_ok_def)
  have p: "unat (?h + 4) = unat (rx_buffer s) + unat (rx_offset s) + 4" using o R(2) by (simp add: unat_add_u32)
  consider (frame) s1 len where "ethernet_handle_packet (?h + 4) len s = Some s1" "heap s' = heap s1" | (same) "s' = s"
    using run by (auto simp: poll_frame_def Let_def split: if_splits)
  then show ?thesis
  proof cases
    case frame
    have "{unat (?h + 4)..<unat (?h + 4) + 78} \<subseteq> ring_bytes s" unfolding p ring_bytes_def using o rx(1) by auto
    moreover have "unat (?h + 4) + 78 < 4294967296" unfolding p using o R(2) by simp
    ultimately show ?thesis using ethernet_handle_keeps [OF ok frame(1) _ R(1)] frame(2) by simp
  next
    case same
    then show ?thesis using heap_keeps_refl [OF ok] by (intro exI [of _ A]) simp
  qed
qed

lemma poll_frame_ring: "poll_frame s = Some s' \<Longrightarrow> rx_buffer s' = rx_buffer s"
  by (auto simp: poll_frame_def Let_def same_ring_def dest!: same_ring_ethernet split: if_splits)

lemma fold_stores:
  fixes stores :: "(u32 \<times> u8) list"
  shows "\<forall>(a, b) \<in> set stores. unat a \<in> R \<Longrightarrow> x < 4294967296 \<Longrightarrow> x \<notin> R \<Longrightarrow> fold (\<lambda>(a, b) m. m(a := b)) stores m (of_nat x) = m (of_nat x)"
proof (induction stores arbitrary: m)
  case (Cons ab stores)
  obtain a b where ab: "ab = (a, b)" by (cases ab)
  have "unat a \<in> R" using Cons.prems(1) ab by simp
  moreover have "unat (of_nat x :: u32) = x" by (rule unat_of_nat_u32 [OF Cons.prems(2)])
  ultimately have "of_nat x \<noteq> a" using Cons.prems(3) by metis
  then show ?case using Cons.IH [of "m(a := b)"] Cons.prems ab by simp
qed simp

lemma poll_keeps:
  "rtl8139_poll p s = Some s' \<Longrightarrow> heap_ok (heap s) A \<Longrightarrow> card_poll s p \<Longrightarrow> ring_ok s \<Longrightarrow> ring_bytes s \<subseteq> client A \<Longrightarrow>
   unat (rx_buffer s) + 9708 < 4294967296 \<Longrightarrow>
   \<exists>A'. heap_keeps A (ring_bytes s) (heap s) A' (heap s') \<and> ring_ok s' \<and> rx_buffer s' = rx_buffer s"
proof (induction p s arbitrary: A rule: rtl8139_poll.induct)
  case (2 cmd stores rs s)
  define s1 where "s1 = set_mem (fold (\<lambda>(a, b) m. m(a := b)) stores (mem s)) s"
  have s1: "heap s1 = (heap s)\<lparr>ram := fold (\<lambda>(a, b) m. m(a := b)) stores (mem s)\<rparr>" "rx_buffer s1 = rx_buffer s" "rx_offset s1 = rx_offset s"
    by (simp_all add: s1_def set_mem_def)
  have st: "\<forall>(a, b) \<in> set stores. unat a \<in> ring_bytes s" "rx_buffer s = 0 \<longrightarrow> cmd AND 1 \<noteq> 0" using "2.prems"(3) by (auto simp: card_poll_def)
  have k1: "heap_keeps A (ring_bytes s) (heap s) A (heap s1)"
    unfolding s1(1) by (rule heap_keeps_write [OF "2.prems"(2,5)]) (rule fold_stores [OF st(1)])
  have rb: "ring_bytes s1 = ring_bytes s" "ring_ok s1" using s1 "2.prems"(4) by (simp_all add: ring_bytes_def ring_ok_def)
  have ok1: "heap_ok (heap s1) A" using k1 by (simp add: heap_keeps_def)
  show ?case
  proof (cases "cmd AND 1 = 0")
    case False
    then have "s' = s1" using "2.prems"(1) by (simp add: Let_def s1_def)
    then show ?thesis using k1 rb s1(2) by blast
  next
    case True
    then obtain s2 where s2: "poll_frame s1 = Some s2" "rtl8139_poll rs s2 = Some s'"
      using "2.prems"(1) by (auto simp: Let_def bind_eq_Some_conv simp flip: s1_def)
    have rx: "rx_buffer s1 \<noteq> 0" using st(2) True s1(2) by auto
    obtain A2 where k2: "heap_keeps A (ring_bytes s) (heap s1) A2 (heap s2)"
      using poll_frame_keeps [OF ok1 s2(1) rx rb(2)] "2.prems"(5,6) rb(1) s1(2) by auto
    have r2: "rx_buffer s2 = rx_buffer s" "ring_ok s2" using poll_frame_ring [OF s2(1)] poll_frame_ring_ok [OF rb(2) s2(1)] s1(2) by simp_all
    then have rb2: "ring_bytes s2 = ring_bytes s" by (simp add: ring_bytes_def)
    have "card_poll s2 rs" using "2.prems"(3) rb2 r2(1) by (auto simp: card_poll_def)
    moreover have "heap_ok (heap s2) A2" "ring_bytes s2 \<subseteq> client A2" using k2 "2.prems"(5) rb2 by (auto simp: heap_keeps_def)
    ultimately obtain A3 where k3: "heap_keeps A2 (ring_bytes s) (heap s2) A3 (heap s')" "ring_ok s'" "rx_buffer s' = rx_buffer s2"
      using "2.IH" [OF s1_def _ s2(1), of A2] True s2 "2.prems"(6) r2 rb2 by auto
    show ?thesis using heap_keeps_trans [OF k1 heap_keeps_trans [OF k2 k3(1)]] k3(2,3) r2(1) by metis
  qed
qed simp

end
