(* ===== verification/Disk.thy ===== *)
theory Disk
  imports Prelude
begin

text \<open>
  The block layer: \<open>src/kernel/fs/disk.c\<close> over the ATA PIO driver \<open>src/kernel/fs/ata.c\<close>.
  The driver programs the six task-file registers and then moves a sector as 256 words through
  the data port. The medium is the state of the model: the 16-bit words of every sector the
  drive can address. The busy and data-request polls before a transfer only delay it; they are modelled in
  \<open>Ata\<close>, whose driver does what is defined here. The interface the file system relies on is the locale \<open>block_device\<close>.
\<close>

unbundle bit_operations_syntax

section \<open>The ATA driver\<close>

type_synonym disk = "u32 \<Rightarrow> nat \<Rightarrow> u16"

record ata_regs =
  ata_drive :: u8
  ata_sector_cnt :: u8
  ata_lba_low :: u8
  ata_lba_mid :: u8
  ata_lba_high :: u8
  ata_cmd :: u8

text \<open>The register bytes written before a transfer of sector \<open>lba\<close> with command \<open>cmd\<close>.\<close>

definition ata_setup :: "u8 \<Rightarrow> u32 \<Rightarrow> ata_regs" where
  "ata_setup cmd lba =
     \<lparr>ata_drive = ucast (0xE0 OR (drop_bit 24 lba AND 0x0F)),
      ata_sector_cnt = 1,
      ata_lba_low = ucast lba,
      ata_lba_mid = ucast (drop_bit 8 lba),
      ata_lba_high = ucast (drop_bit 16 lba),
      ata_cmd = cmd\<rparr>"

text \<open>
  The sector a drive in LBA28 mode selects from its registers: 28 bits, the four high ones from
  the low half of the drive register.
\<close>

definition ata_selected :: "ata_regs \<Rightarrow> u32" where
  "ata_selected r = u32_le (ata_lba_low r) (ata_lba_mid r) (ata_lba_high r) (ata_drive r AND 0x0F)"

text \<open>Reading: \<open>ptr[i] = inw(ATA_DATA)\<close> for the 256 words of the selected sector.\<close>

definition ata_read_sector :: "disk \<Rightarrow> u32 \<Rightarrow> u8 list" where
  "ata_read_sector d lba =
     concat (map (\<lambda>i. bytes16 (d (ata_selected (ata_setup 0x20 lba)) i)) [0..<256])"

text \<open>Writing: \<open>outw(ATA_DATA, ptr[i])\<close> for the 256 words of the buffer.\<close>

definition ata_write_sector :: "disk \<Rightarrow> u32 \<Rightarrow> u8 list \<Rightarrow> disk" where
  "ata_write_sector d lba buffer =
     d(ata_selected (ata_setup 0x30 lba) :=
         (\<lambda>i. if i < 256 then load16 buffer (2 * i) else d (ata_selected (ata_setup 0x30 lba)) i))"

section \<open>The block layer\<close>

definition disk_read :: "disk \<Rightarrow> u32 \<Rightarrow> u8 list" where
  "disk_read d sector = ata_read_sector d sector"

definition disk_write :: "disk \<Rightarrow> u32 \<Rightarrow> u8 list \<Rightarrow> disk" where
  "disk_write d sector buffer = ata_write_sector d sector buffer"

text \<open>The sectors that the 28 address bits tell apart.\<close>

definition lba_ok :: "u32 \<Rightarrow> bool" where
  "lba_ok s \<longleftrightarrow> unat s < 268435456"

section \<open>The interface\<close>

text \<open>
  What the file system relies on: sectors are 512 bytes, a read sees the last write to the
  sector, and writes to other sectors leave it alone.
\<close>

locale block_device =
  fixes rd :: "'d \<Rightarrow> u32 \<Rightarrow> u8 list"
    and wr :: "'d \<Rightarrow> u32 \<Rightarrow> u8 list \<Rightarrow> 'd"
    and valid :: "u32 \<Rightarrow> bool"
  assumes rd_length: "length (rd d s) = 512"
    and rd_wr_same: "512 \<le> length buf \<Longrightarrow> rd (wr d s buf) s = take 512 buf"
    and rd_wr_other: "valid s \<Longrightarrow> valid t \<Longrightarrow> s \<noteq> t \<Longrightarrow> rd (wr d s buf) t = rd d t"
begin

lemma rd_wr:
  "valid s \<Longrightarrow> valid t \<Longrightarrow> length buf = 512 \<Longrightarrow>
   rd (wr d s buf) t = (if s = t then buf else rd d t)"
  by (simp add: rd_wr_same rd_wr_other)

text \<open>Updating a 32-bit field of a sector in place.\<close>

lemma field_same:
  "i + 4 \<le> 512 \<Longrightarrow> load32 (rd (wr d s (store32 (rd d s) i v)) s) i = v"
  by (simp add: rd_wr_same rd_length load32_store32_same)

lemma field_other:
  assumes "valid s" and "valid t" and "i + 4 \<le> 512" and "j + 4 \<le> 512"
    and "s \<noteq> t \<or> j + 4 \<le> i \<or> i + 4 \<le> j"
  shows "load32 (rd (wr d s (store32 (rd d s) i v)) t) j = load32 (rd d t) j"
  using assms by (cases "s = t") (auto simp: rd_wr rd_length load32_store32_other)

text \<open>Writing runs of sectors leaves every sector outside the run alone.\<close>

lemma fold_wr_other:
  assumes "\<And>i. i \<in> set is \<Longrightarrow> valid (sec i) \<and> sec i \<noteq> t" and "valid t"
  shows "rd (fold (\<lambda>i d. wr d (sec i) (buf i)) is d) t = rd d t"
  using assms by (induction "is" arbitrary: d) (simp_all add: rd_wr_other)

end

section \<open>The model is a block device\<close>

lemma ata_selected_eq: "ata_selected (ata_setup cmd lba) = lba AND 0x0FFFFFFF"
proof (rule bit_word_eqI)
  have m: "0x0FFFFFFF = (mask 28 :: u32)" "0x0F = (mask 4 :: u8)" "0x0F = (mask 4 :: u32)"
    by (simp_all add: mask_eq_exp_minus_1)
  have e0: "\<not> bit (0xE0 :: u32) k" "\<not> bit (0xE0 :: u8) k" "\<not> bit (0xE0 :: int) k" if "k < 4" for k
  proof -
    have "k = 0 \<or> k = 1 \<or> k = 2 \<or> k = 3" using that by auto
    then show "\<not> bit (0xE0 :: u32) k" "\<not> bit (0xE0 :: u8) k" "\<not> bit (0xE0 :: int) k"
      by (auto simp: bit_simps)
  qed
  fix n assume "n < LENGTH(32)"
  then consider "n < 8" | "8 \<le> n \<and> n < 16" | "16 \<le> n \<and> n < 24" | "24 \<le> n \<and> n < 28" | "28 \<le> n \<and> n < 32"
    by fastforce
  then show "bit (ata_selected (ata_setup cmd lba)) n = bit (lba AND 0x0FFFFFFF) n"
    unfolding m
    by cases (auto simp: ata_selected_def ata_setup_def u32_le_def bit_simps m e0)
qed

lemma masked_lba: "lba_ok s \<Longrightarrow> s AND 0x0FFFFFFF = s"
proof -
  assume "lba_ok s"
  have "(0x0FFFFFFF :: u32) = mask 28" by (simp add: mask_eq_exp_minus_1)
  moreover have "take_bit 28 s = s"
    using \<open>lba_ok s\<close> by (auto simp: lba_ok_def word_unat_eq_iff unsigned_take_bit_eq take_bit_nat_eq_self)
  ultimately show ?thesis by (simp add: take_bit_eq_mask)
qed

lemma length_disk_read [simp]: "length (disk_read d s) = 512"
  by (simp add: disk_read_def ata_read_sector_def length_concat comp_def sum_list_triv)

lemma sector_words:
  assumes "512 \<le> length buf" and "n \<le> 256"
  shows "concat (map (\<lambda>i. bytes16 (load16 buf (2 * i))) [0..<n]) = take (2 * n) buf"
  using assms(2)
proof (induction n)
  case (Suc n)
  have "take (2 * Suc n) buf = take (2 * n) buf @ [buf ! (2 * n), buf ! (2 * n + 1)]"
    using Suc assms(1) by (simp add: take_Suc_conv_app_nth)
  with Suc show ?case
    by (simp add: bytes16_def load16_def layout_simps)
qed simp

lemma disk_read_write:
  assumes "512 \<le> length buf"
  shows "disk_read (disk_write d s buf) t =
    (if s AND 0x0FFFFFFF = t AND 0x0FFFFFFF then take 512 buf else disk_read d t)"
proof -
  have "disk_read (disk_write d s buf) t =
    concat (map (\<lambda>i. bytes16 (load16 buf (2 * i))) [0..<256])" if "s AND 0x0FFFFFFF = t AND 0x0FFFFFFF"
    unfolding disk_read_def disk_write_def ata_read_sector_def ata_write_sector_def ata_selected_eq
    using that by (intro arg_cong [where f = concat] map_cong) simp_all
  moreover have "disk_read (disk_write d s buf) t = disk_read d t" if "s AND 0x0FFFFFFF \<noteq> t AND 0x0FFFFFFF"
    using that unfolding disk_read_def disk_write_def ata_read_sector_def ata_write_sector_def ata_selected_eq
    by auto
  ultimately show ?thesis using sector_words [OF assms, of 256] by simp
qed

interpretation bd: block_device disk_read disk_write lba_ok
proof
  fix d :: disk and s t :: u32 and buf :: "u8 list"
  show "length (disk_read d s) = 512" by simp
  show "disk_read (disk_write d s buf) s = take 512 buf" if "512 \<le> length buf"
    using that by (simp add: disk_read_write)
  show "disk_read (disk_write d s buf) t = disk_read d t" if "lba_ok s" "lba_ok t" "s \<noteq> t"
    using that
    unfolding disk_read_def disk_write_def ata_read_sector_def ata_write_sector_def ata_selected_eq
    by (simp add: masked_lba)
qed

section \<open>Properties\<close>

text \<open>
  a sector read after a write returns the buffer that was written when both address the
  same sector modulo \<open>2^28\<close>, and the old contents otherwise: the driver transfers all 512
  bytes in order, and sector numbers of 29 bits and more wrap onto the start of the disk.
\<close>

theorem disk_roundtrip:
  "length buf = 512 \<Longrightarrow>
   disk_read (disk_write d s buf) t =
     (if s AND 0x0FFFFFFF = t AND 0x0FFFFFFF then buf else disk_read d t)"
  by (simp add: disk_read_write)

theorem disk_roundtrip_witness:
  "disk_read (disk_write (\<lambda>_ _. 0) 5 (replicate 512 7)) 0x10000005 = replicate 512 7"
  using disk_roundtrip [of "replicate 512 7" "\<lambda>_ _. 0" 5 "0x10000005"] by simp

end
