(* ===== verification/Fat32_Types.thy ===== *)
theory Fat32_Types
  imports Disk
begin

text \<open>
  The data of the FAT32 driver (\<open>src/kernel/fs/fat32.h\<close> and the statics of
  \<open>fat32.c\<close>): the volume parameters, the packed 32-byte directory entry with its layout in
  a sector buffer, the driver state, and the loop over a cluster chain that every directory
  operation shares.
\<close>

unbundle bit_operations_syntax

section \<open>Volume parameters and driver state\<close>

record FAT32 =
  bytes_per_sector :: u16
  sectors_per_cluster :: u8
  reserved_sector_count :: u16
  num_fats :: u8
  fat_size :: u32
  root_cluster :: u32
  first_data_sector :: u32

text \<open>
  The statics \<open>fs\<close> and \<open>current_dir_cluster\<close>, the disk behind the driver, and \<open>tty\<close>, the
  bytes the driver has sent to \<open>console_print\<close> so far.
\<close>

record fat_state =
  fs :: FAT32
  current_dir_cluster :: u32
  disk :: disk
  tty :: "u8 list"

definition console_print :: "u8 list \<Rightarrow> fat_state \<Rightarrow> fat_state" where
  "console_print str st = st\<lparr>tty := tty st @ str\<rparr>"

section \<open>Directory entries\<close>

record fat32_dir_entry =
  de_name :: "u8 list"
  de_attr :: u8
  de_nt_reserved :: u8
  de_create_time_tenth :: u8
  de_create_time :: u16
  de_create_date :: u16
  de_access_date :: u16
  de_first_cluster_high :: u16
  de_write_time :: u16
  de_write_date :: u16
  de_first_cluster_low :: u16
  de_file_size :: u32

text \<open>The packed layout: what a \<open>fat32_dir_entry *\<close> into a sector buffer reads and writes.\<close>

definition get_entry :: "u8 list \<Rightarrow> nat \<Rightarrow> fat32_dir_entry" where
  "get_entry buffer i =
     (let w = take 32 (drop (32 * i) buffer) in
      \<lparr>de_name = take 11 w,
       de_attr = w ! 11,
       de_nt_reserved = w ! 12,
       de_create_time_tenth = w ! 13,
       de_create_time = load16 w 14,
       de_create_date = load16 w 16,
       de_access_date = load16 w 18,
       de_first_cluster_high = load16 w 20,
       de_write_time = load16 w 22,
       de_write_date = load16 w 24,
       de_first_cluster_low = load16 w 26,
       de_file_size = load32 w 28\<rparr>)"

definition entry_bytes :: "fat32_dir_entry \<Rightarrow> u8 list" where
  "entry_bytes e = de_name e @ [de_attr e, de_nt_reserved e, de_create_time_tenth e] @
     bytes16 (de_create_time e) @ bytes16 (de_create_date e) @ bytes16 (de_access_date e) @
     bytes16 (de_first_cluster_high e) @ bytes16 (de_write_time e) @ bytes16 (de_write_date e) @
     bytes16 (de_first_cluster_low e) @ bytes32 (de_file_size e)"

definition put_entry :: "u8 list \<Rightarrow> nat \<Rightarrow> fat32_dir_entry \<Rightarrow> u8 list" where
  "put_entry buffer i e = put_bytes buffer (32 * i) (entry_bytes e)"

text \<open>\<open>((uint32_t)first_cluster_high << 16) | first_cluster_low\<close> and its two halves.\<close>

definition entry_cluster :: "fat32_dir_entry \<Rightarrow> u32" where
  "entry_cluster e = push_bit 16 (ucast (de_first_cluster_high e)) OR ucast (de_first_cluster_low e)"

definition set_entry_cluster :: "u32 \<Rightarrow> fat32_dir_entry \<Rightarrow> fat32_dir_entry" where
  "set_entry_cluster c e =
     e\<lparr>de_first_cluster_low := ucast (c AND 0xFFFF),
       de_first_cluster_high := ucast (drop_bit 16 c AND 0xFFFF)\<rparr>"

text \<open>The tests on the first name byte: end of directory and deleted entry.\<close>

definition entry_end :: "fat32_dir_entry \<Rightarrow> bool" where
  "entry_end e \<longleftrightarrow> de_name e ! 0 = 0"

definition entry_deleted :: "fat32_dir_entry \<Rightarrow> bool" where
  "entry_deleted e \<longleftrightarrow> de_name e ! 0 = 0xE5"

section \<open>Loops over cluster chains\<close>

text \<open>The guard \<open>cluster >= 2 && cluster < 0x0FFFFFF8\<close>.\<close>

definition in_chain :: "u32 \<Rightarrow> bool" where
  "in_chain c \<longleftrightarrow> 2 \<le> c \<and> c < 0x0FFFFFF8"

text \<open>
  \<open>while (cluster >= 2 && cluster < lim) { body; cluster = fat32_next_cluster(cluster); }\<close>,
  for a body that leaves the disk alone unless it returns; \<open>None\<close> is a loop that never ends.
\<close>

partial_function (option) cluster_loop ::
  "u32 \<Rightarrow> (u32 \<Rightarrow> u32) \<Rightarrow> (u32 \<Rightarrow> 'a \<Rightarrow> ('a, 'r) flow) \<Rightarrow> u32 \<Rightarrow> 'a \<Rightarrow> ('a, 'r) flow option" where
  "cluster_loop lim nxt body c acc =
     (if 2 \<le> c \<and> c < lim then
        (case body c acc of
           Done r \<Rightarrow> Some (Done r)
         | Go acc' \<Rightarrow> cluster_loop lim nxt body (nxt c) acc')
      else Some (Go acc))"

text \<open>The clusters that such a loop visits from \<open>c\<close> on.\<close>

fun chain :: "(u32 \<Rightarrow> u32) \<Rightarrow> u32 \<Rightarrow> u32 list \<Rightarrow> bool" where
  "chain nxt c [] \<longleftrightarrow> \<not> in_chain c"
| "chain nxt c (x # xs) \<longleftrightarrow> x = c \<and> in_chain c \<and> chain nxt (nxt c) xs"

section \<open>Lemmas: directory entries\<close>

lemma length_entry_bytes [simp]: "length (de_name e) = 11 \<Longrightarrow> length (entry_bytes e) = 32"
  by (simp add: entry_bytes_def)

lemma length_put_entry [simp]:
  "length buffer = 512 \<Longrightarrow> i < 16 \<Longrightarrow> length (de_name e) = 11 \<Longrightarrow> length (put_entry buffer i e) = 512"
  by (simp add: put_entry_def)

lemma length_entry_name [simp]:
  "length buffer = 512 \<Longrightarrow> i < 16 \<Longrightarrow> length (de_name (get_entry buffer i)) = 11"
  by (simp add: get_entry_def Let_def)

text \<open>Reading an entry only looks at its own 32 bytes.\<close>

lemma get_entry_cong:
  "take 32 (drop (32 * i) b1) = take 32 (drop (32 * j) b2) \<Longrightarrow> get_entry b1 i = get_entry b2 j"
  by (simp add: get_entry_def)

lemma get_put_entry_other:
  assumes "length buffer = 512" and "i < 16" and "j < 16" and "i \<noteq> j" and "length (de_name e) = 11"
  shows "get_entry (put_entry buffer i e) j = get_entry buffer j"
proof (rule get_entry_cong)
  have "32 * i + 32 \<le> 32 * j \<or> 32 * j + 32 \<le> 32 * i" using assms(4) by linarith
  then show "take 32 (drop (32 * j) (put_entry buffer i e)) = take 32 (drop (32 * j) buffer)"
    using assms by (intro nth_equalityI) (auto simp: put_entry_def nth_put_bytes)
qed

lemma get_put_entry_same:
  assumes "length buffer = 512" and "i < 16" and "length (de_name e) = 11"
  shows "get_entry (put_entry buffer i e) i = e"
proof -
  have "take 32 (drop (32 * i) (put_entry buffer i e)) = entry_bytes e"
    using assms by (simp add: put_entry_def put_bytes_def)
  moreover have "take 11 (entry_bytes e) = de_name e"
    "load16 (entry_bytes e) 14 = de_create_time e" "load16 (entry_bytes e) 16 = de_create_date e"
    "load16 (entry_bytes e) 18 = de_access_date e" "load16 (entry_bytes e) 20 = de_first_cluster_high e"
    "load16 (entry_bytes e) 22 = de_write_time e" "load16 (entry_bytes e) 24 = de_write_date e"
    "load16 (entry_bytes e) 26 = de_first_cluster_low e" "load32 (entry_bytes e) 28 = de_file_size e"
    "entry_bytes e ! 11 = de_attr e" "entry_bytes e ! 12 = de_nt_reserved e"
    "entry_bytes e ! 13 = de_create_time_tenth e"
    using assms(3)
    by (simp_all add: entry_bytes_def bytes16_def bytes32_def load16_def load32_def nth_append layout_simps)
  ultimately show ?thesis by (simp add: get_entry_def)
qed

lemma entry_cluster_set [simp]: "entry_cluster (set_entry_cluster c e) = c"
proof (rule bit_word_eqI)
  have m: "0xFFFF = (mask 16 :: u32)" by (simp add: mask_eq_exp_minus_1)
  fix n assume "n < LENGTH(32)"
  then show "bit (entry_cluster (set_entry_cluster c e)) n = bit c n"
    unfolding m by (cases "n < 16") (auto simp: entry_cluster_def set_entry_cluster_def bit_simps m)
qed

lemma set_entry_cluster_sel [simp]:
  "de_name (set_entry_cluster c e) = de_name e" "de_attr (set_entry_cluster c e) = de_attr e"
  "de_file_size (set_entry_cluster c e) = de_file_size e"
  by (simp_all add: set_entry_cluster_def)

section \<open>Lemmas: chains\<close>

lemma chain_unique: "chain nxt c xs \<Longrightarrow> chain nxt c ys \<Longrightarrow> xs = ys"
proof (induction xs arbitrary: c ys)
  case Nil
  then show ?case by (cases ys) auto
next
  case (Cons x xs)
  then show ?case by (cases ys) auto
qed

lemma chain_in_chain: "chain nxt c xs \<Longrightarrow> x \<in> set xs \<Longrightarrow> in_chain x"
  by (induction xs arbitrary: c) auto

lemma chain_cong: "(\<And>x. x \<in> set xs \<Longrightarrow> f x = g x) \<Longrightarrow> chain f c xs \<longleftrightarrow> chain g c xs"
  by (induction xs arbitrary: c) auto

lemma chain_append:
  "chain nxt c (xs @ y # ys) \<Longrightarrow> chain nxt y (y # ys)"
  by (induction xs arbitrary: c) auto

lemma chain_distinct: "chain nxt c xs \<Longrightarrow> distinct xs"
proof (induction xs arbitrary: c)
  case (Cons x xs)
  have "x \<notin> set xs"
  proof
    assume "x \<in> set xs"
    then obtain us vs where xs: "xs = us @ x # vs" by (auto simp: in_set_conv_decomp)
    then have "chain nxt (nxt x) (us @ x # vs)" using Cons.prems by auto
    then have "chain nxt x (x # vs)" by (rule chain_append)
    moreover have "chain nxt x (x # xs)" using Cons.prems by auto
    ultimately have "x # vs = x # xs" by (rule chain_unique)
    then show False using xs by simp
  qed
  with Cons show ?case by auto
qed simp

text \<open>Along a chain the loop is a \<open>for\<close> loop over the clusters of the chain.\<close>

lemma cluster_loop_chain:
  assumes "chain nxt c cl"
  shows "cluster_loop 0x0FFFFFF8 nxt body c acc = Some (for_each body cl acc)"
  using assms
proof (induction cl arbitrary: c acc)
  case Nil
  then show ?case by (subst cluster_loop.simps) (auto simp: in_chain_def)
next
  case (Cons x cl)
  then show ?case
    by (subst cluster_loop.simps) (auto simp: in_chain_def split: flow.split)
qed

text \<open>A loop that finds its result on the chain, and one that never advances.\<close>

lemma cluster_loop_found:
  assumes "chain nxt c cl" and "for_each body cl acc = Done r" and "0x0FFFFFF8 \<le> lim"
  shows "cluster_loop lim nxt body c acc = Some (Done r)"
  using assms(1,2)
proof (induction cl arbitrary: c acc)
  case (Cons x cl)
  have "2 \<le> c" "c < lim" using Cons.prems(1) assms(3) by (auto simp: in_chain_def)
  with Cons show ?case by (subst cluster_loop.simps) (auto split: flow.splits)
qed simp

lemma cluster_loop_stuck:
  assumes "body c acc = Go acc" and "2 \<le> c" and "c < lim"
  shows "cluster_loop lim (\<lambda>c. c) body c acc = None"
proof -
  have "\<not> (nxt = (\<lambda>c. c) \<and> body c acc = Go acc \<and> 2 \<le> c \<and> c < lim)"
    if "cluster_loop lim nxt body c acc = Some r" for nxt :: "u32 \<Rightarrow> u32" and r
    by (rule cluster_loop.raw_induct [OF _ that]) (fastforce split: if_splits)
  with assms show ?thesis by (cases "cluster_loop lim (\<lambda>c. c) body c acc") auto
qed

text \<open>Chains whose last link is not 0, and chains that grow at the end.\<close>

lemma chain_links_nz:
  assumes "chain nxt c cl" and "cl \<noteq> []" and "nxt (last cl) \<noteq> 0" and "x \<in> set cl"
  shows "nxt x \<noteq> 0"
  using assms
proof (induction cl arbitrary: c)
  case (Cons y cl)
  show ?case
  proof (cases "cl = []")
    case False
    then have "in_chain (nxt y)" using Cons.prems(1) by (cases cl) auto
    then have "nxt y \<noteq> 0" by (auto simp: in_chain_def)
    with False Cons show ?thesis by auto
  qed (use Cons in auto)
qed simp

lemma chain_snoc:
  assumes "chain f c cl" and "cl \<noteq> []" and "in_chain y" and "y \<notin> set cl"
    and "\<And>x. x \<in> set cl \<Longrightarrow> g x = (if x = last cl then y else f x)" and "\<not> in_chain (g y)"
  shows "chain g c (cl @ [y])"
  using assms(1,2,4,5)
proof (induction cl arbitrary: c)
  case (Cons x cl)
  show ?case
  proof (cases "cl = []")
    case True
    with Cons assms(3,6) show ?thesis by auto
  next
    case False
    have "distinct (x # cl)" using chain_distinct [OF Cons.prems(1)] .
    then have "g x = f x" using Cons.prems(4) [of x] False by auto
    then show ?thesis using Cons False by auto
  qed
qed simp

end
