(* ===== verification/Fat32_Table.thy ===== *)
theory Fat32_Table
  imports Fat32_Types CString
begin

text \<open>
  The file allocation table of \<open>src/kernel/fs/fat32.c\<close>: mounting, the map from clusters to
  sectors, following and updating links, the search for a free cluster, the release of a chain
  and the usage report. The table is seen by the layers above through the locale
  \<open>link_table\<close>.
\<close>

unbundle bit_operations_syntax

section \<open>Operations\<close>

definition cluster_to_sector :: "fat_state \<Rightarrow> u32 \<Rightarrow> u32" where
  "cluster_to_sector st cluster =
     (cluster - 2) * ucast (sectors_per_cluster (fs st)) + first_data_sector (fs st)"

definition fat32_next_cluster :: "fat_state \<Rightarrow> u32 \<Rightarrow> u32" where
  "fat32_next_cluster st cluster =
     (let fat_offset = cluster * 4;
          fat_sector = ucast (reserved_sector_count (fs st)) + fat_offset div 512;
          entry_offset = fat_offset mod 512;
          sector_buffer = disk_read (disk st) fat_sector;
          nxt = load32 sector_buffer (unat entry_offset)
      in nxt AND 0x0FFFFFFF)"

definition fat32_init :: "fat_state \<Rightarrow> fat_state" where
  "fat32_init st =
     (let boot = disk_read (disk st) 0;
          reserved = load16 boot 14;
          fats = boot ! 16;
          size = load32 boot 36;
          root = load32 boot 44
      in st\<lparr>fs := \<lparr>bytes_per_sector = load16 boot 11,
                   sectors_per_cluster = boot ! 13,
                   reserved_sector_count = reserved,
                   num_fats = fats,
                   fat_size = size,
                   root_cluster = root,
                   first_data_sector = ucast reserved + ucast fats * size\<rparr>,
            current_dir_cluster := root\<rparr>)"

definition fat32_find_free_cluster :: "fat_state \<Rightarrow> u32" where
  "fat32_find_free_cluster st =
     (let fat_sector_start = ucast (reserved_sector_count (fs st)) in
      case for_each
          (\<lambda>i _. let buffer = disk_read (disk st) (fat_sector_start + of_nat i) in
             for_each
               (\<lambda>j _. if i = 0 \<and> j < 2 then Go ()
                      else if load32 buffer (4 * j) AND 0x0FFFFFFF = 0 then Done (of_nat i * 128 + of_nat j)
                      else Go ())
               [0..<128] ())
          [0..<unat (fat_size (fs st))] () of
        Done c \<Rightarrow> c
      | Go _ \<Rightarrow> 0x0FFFFFFF)"

definition fat32_set_next_cluster :: "u32 \<Rightarrow> u32 \<Rightarrow> fat_state \<Rightarrow> fat_state" where
  "fat32_set_next_cluster cluster next_value st =
     (let fat_offset = cluster * 4;
          fat_sector = ucast (reserved_sector_count (fs st)) + fat_offset div 512;
          entry_offset = fat_offset mod 512;
          buffer = disk_read (disk st) fat_sector;
          current = load32 buffer (unat entry_offset);
          value = (next_value AND 0x0FFFFFFF) OR (current AND 0xF0000000)
      in st\<lparr>disk := disk_write (disk st) fat_sector (store32 buffer (unat entry_offset) value)\<rparr>)"

text \<open>
  The loop that \<open>fat32_delete_file\<close> and \<open>fat32_rmdir\<close> share: read the link, clear it, follow it.
\<close>

partial_function (option) clear_chain :: "u32 \<Rightarrow> fat_state \<Rightarrow> fat_state option" where
  "clear_chain cluster_to_free st =
     (if in_chain cluster_to_free then
        clear_chain (fat32_next_cluster st cluster_to_free)
          (fat32_set_next_cluster cluster_to_free 0 st)
      else Some st)"

definition count_free_clusters :: "fat_state \<Rightarrow> u32" where
  "count_free_clusters st =
     for_all
       (\<lambda>i n. let buffer = disk_read (disk st) (ucast (reserved_sector_count (fs st)) + of_nat i) in
          for_all
            (\<lambda>j n. if i = 0 \<and> j < 2 then n
                   else if load32 buffer (4 * j) AND 0x0FFFFFFF = 0 then n + 1 else n)
            [0..<128] n)
       [0..<unat (fat_size (fs st))] 0"

definition fat32_show_usage :: "fat_state \<Rightarrow> fat_state option" where
  "fat32_show_usage st =
     (let st1 = console_print (cstr ''Scanning Disk... '') st;
          free_clusters = count_free_clusters st1;
          free_kb = free_clusters * ucast (sectors_per_cluster (fs st1)) div 2;
          st2 = console_print (0x0A # cstr ''Free Clusters: '') st1
      in case itoa free_clusters of
           None \<Rightarrow> None
         | Some str_buf \<Rightarrow>
             (let st3 = console_print str_buf st2;
                  st4 = console_print (0x0A # cstr ''Free Space: '') st3
              in map_option (\<lambda>str_buf. console_print (cstr '' KB'' @ [0x0A]) (console_print str_buf st4)) (itoa free_kb)))"

text \<open>
  Sector \<open>s\<close> of a cluster, as the loops \<open>disk_read(cluster_to_sector(cluster) + s, buffer)\<close> and
  \<open>disk_write(cluster_to_sector(cluster) + s, buffer)\<close> address it.
\<close>

definition read_sector_of :: "fat_state \<Rightarrow> u32 \<Rightarrow> nat \<Rightarrow> u8 list" where
  "read_sector_of st cluster s = disk_read (disk st) (cluster_to_sector st cluster + of_nat s)"

definition write_sector_of :: "u32 \<Rightarrow> nat \<Rightarrow> u8 list \<Rightarrow> fat_state \<Rightarrow> fat_state" where
  "write_sector_of cluster s buffer st =
     st\<lparr>disk := disk_write (disk st) (cluster_to_sector st cluster + of_nat s) buffer\<rparr>"

section \<open>Well-formed volumes\<close>

text \<open>The number of entries of one copy of the table; clusters are numbered below it.\<close>

definition fat_entries :: "FAT32 \<Rightarrow> nat" where
  "fat_entries f = 128 * unat (fat_size f)"

text \<open>
  A volume whose table copies lie between the reserved sectors and the data area and whose data
  area, one cluster per table entry, lies within the sectors LBA28 can address.
\<close>

definition geometry :: "FAT32 \<Rightarrow> bool" where
  "geometry f \<longleftrightarrow>
     1 \<le> unat (sectors_per_cluster f) \<and> 1 \<le> unat (num_fats f) \<and>
     unat (first_data_sector f) =
       unat (reserved_sector_count f) + unat (num_fats f) * unat (fat_size f) \<and>
     unat (first_data_sector f) + fat_entries f * unat (sectors_per_cluster f) \<le> 268435456"

text \<open>Clusters of the data area, by number.\<close>

definition data_cluster :: "FAT32 \<Rightarrow> u32 \<Rightarrow> bool" where
  "data_cluster f c \<longleftrightarrow> 2 \<le> c \<and> unat c < fat_entries f"

text \<open>The table sector that holds the link of a cluster, and the clusters that have a link.\<close>

definition fat_sector :: "FAT32 \<Rightarrow> u32 \<Rightarrow> u32" where
  "fat_sector f c = ucast (reserved_sector_count f) + c * 4 div 512"

definition fat_entry_ok :: "fat_state \<Rightarrow> u32 \<Rightarrow> bool" where
  "fat_entry_ok st c \<longleftrightarrow> geometry (fs st) \<and> unat c < fat_entries (fs st)"

text \<open>Sector \<open>s\<close> of cluster \<open>c\<close> exists.\<close>

definition sector_ok :: "fat_state \<Rightarrow> u32 \<Rightarrow> nat \<Rightarrow> bool" where
  "sector_ok st c s \<longleftrightarrow>
     geometry (fs st) \<and> data_cluster (fs st) c \<and> s < unat (sectors_per_cluster (fs st))"

text \<open>Entry \<open>n\<close> of the table is free for allocation.\<close>

definition free_slot :: "fat_state \<Rightarrow> nat \<Rightarrow> bool" where
  "free_slot st n \<longleftrightarrow> 2 \<le> n \<and> fat32_next_cluster st (of_nat n) = 0"

text \<open>
  A freshly formatted volume of 126 one-sector clusters, with the empty root directory in
  cluster 2: the concrete input of the witnesses.
\<close>

definition blank_volume :: fat_state where
  "blank_volume =
     \<lparr>fs = \<lparr>bytes_per_sector = 512, sectors_per_cluster = 1, reserved_sector_count = 1, num_fats = 1,
            fat_size = 1, root_cluster = 2, first_data_sector = 2\<rparr>,
      current_dir_cluster = 2,
      disk = (\<lambda>sector i. if sector = 1 \<and> i < 6 then (if even i then 0xFFFF else 0x0FFF) else 0),
      tty = []\<rparr>"

section \<open>The interfaces\<close>

text \<open>
  A table of links: an update is read back masked to 28 bits and touches no other link.
\<close>

locale link_table =
  fixes nxt :: "'s \<Rightarrow> u32 \<Rightarrow> u32"
    and setn :: "u32 \<Rightarrow> u32 \<Rightarrow> 's \<Rightarrow> 's"
    and entry_ok :: "'s \<Rightarrow> u32 \<Rightarrow> bool"
  assumes nxt_same: "entry_ok st c \<Longrightarrow> nxt (setn c v st) c = v AND 0x0FFFFFFF"
    and nxt_other: "entry_ok st c \<Longrightarrow> entry_ok st e \<Longrightarrow> c \<noteq> e \<Longrightarrow> nxt (setn c v st) e = nxt st e"
    and entry_ok_set: "entry_ok (setn c v st) e \<longleftrightarrow> entry_ok st e"
begin

lemma nxt_setn:
  "entry_ok st c \<Longrightarrow> entry_ok st e \<Longrightarrow>
   nxt (setn c v st) e = (if e = c then v AND 0x0FFFFFFF else nxt st e)"
  by (auto simp: nxt_same nxt_other)

lemma entry_ok_fold: "entry_ok (fold (\<lambda>c. setn c (v c)) cl st) e \<longleftrightarrow> entry_ok st e"
  by (induction cl arbitrary: st) (simp_all add: entry_ok_set)

lemma nxt_fold_other:
  assumes "\<And>c. c \<in> set cl \<Longrightarrow> entry_ok st c" and "entry_ok st e" and "e \<notin> set cl"
  shows "nxt (fold (\<lambda>c. setn c (v c)) cl st) e = nxt st e"
  using assms by (induction cl arbitrary: st) (auto simp: entry_ok_set nxt_other)

lemma nxt_clear:
  assumes "\<And>c. c \<in> set cl \<Longrightarrow> entry_ok st c" and "e \<in> set cl"
  shows "nxt (fold (\<lambda>c. setn c 0) cl st) e = 0"
  using assms
proof (induction cl arbitrary: st)
  case (Cons c cl)
  show ?case
  proof (cases "e \<in> set cl")
    case True
    with Cons show ?thesis by (simp add: entry_ok_set)
  next
    case False
    with Cons.prems have "e = c" by simp
    with False Cons.prems show ?thesis
      by (simp add: nxt_fold_other entry_ok_set nxt_same)
  qed
qed simp

text \<open>A chain is not disturbed by updates outside it.\<close>

lemma chain_setn_other:
  assumes "chain (nxt st) c cl" and "e \<notin> set cl" and "entry_ok st e"
    and "\<And>x. x \<in> set cl \<Longrightarrow> entry_ok st x"
  shows "chain (nxt (setn e v st)) c cl"
  using assms by (subst chain_cong [where g = "nxt st"]) (auto intro!: nxt_other)

end

text \<open>
  A volume: a table of links and the sectors of its clusters, which do not disturb each other.
\<close>

locale volume = link_table +
  fixes rds :: "'a \<Rightarrow> u32 \<Rightarrow> nat \<Rightarrow> u8 list"
    and wrs :: "u32 \<Rightarrow> nat \<Rightarrow> u8 list \<Rightarrow> 'a \<Rightarrow> 'a"
    and slot_ok :: "'a \<Rightarrow> u32 \<Rightarrow> nat \<Rightarrow> bool"
  assumes rds_same: "slot_ok st c s \<Longrightarrow> length buf = 512 \<Longrightarrow> rds (wrs c s buf st) c s = buf"
    and rds_other: "slot_ok st c s \<Longrightarrow> slot_ok st c' s' \<Longrightarrow> (c, s) \<noteq> (c', s') \<Longrightarrow>
        rds (wrs c s buf st) c' s' = rds st c' s'"
    and slot_ok_wrs: "slot_ok (wrs c s buf st) c' s' \<longleftrightarrow> slot_ok st c' s'"
    and nxt_wrs: "slot_ok st c s \<Longrightarrow> entry_ok st e \<Longrightarrow> nxt (wrs c s buf st) e = nxt st e"
    and entry_ok_wrs: "entry_ok (wrs c s buf st) e \<longleftrightarrow> entry_ok st e"
    and rds_setn: "entry_ok st e \<Longrightarrow> slot_ok st c s \<Longrightarrow> rds (setn e v st) c s = rds st c s"
    and slot_ok_setn: "slot_ok (setn e v st) c s \<longleftrightarrow> slot_ok st c s"
    and slot_entry: "slot_ok st c s \<Longrightarrow> entry_ok st c"
begin

lemma chain_wrs:
  assumes "chain (nxt st) c cl" and "slot_ok st e s" and "\<And>x. x \<in> set cl \<Longrightarrow> entry_ok st x"
  shows "chain (nxt (wrs e s buf st)) c cl"
  using assms by (subst chain_cong [where g = "nxt st"]) (auto intro!: nxt_wrs)

lemma rds_fold_setn:
  assumes "\<And>e. e \<in> set cl \<Longrightarrow> entry_ok st e" and "slot_ok st c s"
  shows "rds (fold (\<lambda>e. setn e (v e)) cl st) c s = rds st c s"
  using assms by (induction cl arbitrary: st) (auto simp: rds_setn entry_ok_set slot_ok_setn)

lemma slot_ok_fold: "slot_ok (fold (\<lambda>e. setn e (v e)) cl st) c s \<longleftrightarrow> slot_ok st c s"
  by (induction cl arbitrary: st) (simp_all add: slot_ok_setn)

end

section \<open>Lemmas: the table on disk\<close>

lemma geometry_bounds:
  assumes "geometry f"
  shows "unat (reserved_sector_count f) + unat (fat_size f) \<le> unat (first_data_sector f)"
    and "fat_entries f \<le> 266354560"
    and "unat (first_data_sector f) \<le> 268435456"
proof -
  have g: "1 \<le> unat (num_fats f)" "1 \<le> unat (sectors_per_cluster f)"
    "unat (first_data_sector f) = unat (reserved_sector_count f) + unat (num_fats f) * unat (fat_size f)"
    "unat (first_data_sector f) + fat_entries f * unat (sectors_per_cluster f) \<le> 268435456"
    using assms by (auto simp: geometry_def)
  have "1 * unat (fat_size f) \<le> unat (num_fats f) * unat (fat_size f)" using g(1) by (rule mult_le_mono1)
  then show 1: "unat (reserved_sector_count f) + unat (fat_size f) \<le> unat (first_data_sector f)" using g(3) by simp
  have "fat_entries f \<le> fat_entries f * unat (sectors_per_cluster f)"
    using mult_le_mono2 [OF g(2), of "fat_entries f"] by simp
  moreover have "fat_entries f = 128 * unat (fat_size f)" by (rule fat_entries_def)
  ultimately show "fat_entries f \<le> 266354560" using g(4) 1 by linarith
  show "unat (first_data_sector f) \<le> 268435456" using g(4) by simp
qed

lemma fat_position:
  assumes "geometry f" and "unat c < fat_entries f"
  shows "unat (c * 4 div 512) = unat c div 128" and "unat (c * 4 mod 512) = 4 * (unat c mod 128)"
    and "unat (fat_sector f c) = unat (reserved_sector_count f) + unat c div 128"
    and "unat (fat_sector f c) < unat (first_data_sector f)"
    and "lba_ok (fat_sector f c)"
proof -
  have "unat (c * 4) = unat c * 4"
    using assms geometry_bounds(2) [OF assms(1)] unat_mult_u32 [of c 4] by simp
  moreover have "(x * 4) div 512 = x div 128" "(x * 4) mod 512 = 4 * (x mod 128)" for x :: nat
    using div_mult_mult2 [of 4 x 128] mod_mult_mult2 [of x 4 128] by simp_all
  ultimately show 1: "unat (c * 4 div 512) = unat c div 128" "unat (c * 4 mod 512) = 4 * (unat c mod 128)"
    by (simp_all add: unat_div unat_mod)
  have 2: "unat c div 128 < unat (fat_size f)"
    using assms(2) by (simp add: fat_entries_def less_mult_imp_div_less mult.commute)
  show 3: "unat (fat_sector f c) = unat (reserved_sector_count f) + unat c div 128"
    unfolding fat_sector_def using 1 2 geometry_bounds [OF assms(1)] by (simp add: unat_add_u32)
  show 4: "unat (fat_sector f c) < unat (first_data_sector f)"
    using 2 3 geometry_bounds [OF assms(1)] by simp
  then show "lba_ok (fat_sector f c)" using geometry_bounds [OF assms(1)] by (simp add: lba_ok_def)
qed

lemma next_cluster_eq:
  "fat32_next_cluster st c = load32 (disk_read (disk st) (fat_sector (fs st) c)) (unat (c * 4 mod 512)) AND 0x0FFFFFFF"
  by (simp add: fat32_next_cluster_def fat_sector_def Let_def)

lemma set_next_cluster_eq:
  "fat32_set_next_cluster c v st = st\<lparr>disk := disk_write (disk st) (fat_sector (fs st) c)
     (store32 (disk_read (disk st) (fat_sector (fs st) c)) (unat (c * 4 mod 512))
       ((v AND 0x0FFFFFFF) OR (load32 (disk_read (disk st) (fat_sector (fs st) c)) (unat (c * 4 mod 512)) AND 0xF0000000)))\<rparr>"
  by (simp add: fat32_set_next_cluster_def fat_sector_def Let_def)

lemma set_next_cluster_sel [simp]:
  "fs (fat32_set_next_cluster c v st) = fs st"
  "current_dir_cluster (fat32_set_next_cluster c v st) = current_dir_cluster st"
  "tty (fat32_set_next_cluster c v st) = tty st"
  by (simp_all add: set_next_cluster_eq)

lemma link_value:
  fixes v w :: u32
  shows "((v AND 0x0FFFFFFF) OR (w AND 0xF0000000)) AND 0x0FFFFFFF = v AND 0x0FFFFFFF"
    and "((v AND 0x0FFFFFFF) OR (w AND 0xF0000000)) AND 0xF0000000 = w AND 0xF0000000"
proof -
  have "(0x0FFFFFFF :: u32) AND 0xF0000000 = 0" by simp
  then show "((v AND 0x0FFFFFFF) OR (w AND 0xF0000000)) AND 0x0FFFFFFF = v AND 0x0FFFFFFF"
    "((v AND 0x0FFFFFFF) OR (w AND 0xF0000000)) AND 0xF0000000 = w AND 0xF0000000"
    by (simp_all add: bit.conj_disj_distrib2 and.assoc and.commute [of "0x0FFFFFFF :: u32"])
qed

lemma fat_offset_cases:
  assumes "geometry f" and "unat c < fat_entries f" and "unat e < fat_entries f" and "c \<noteq> e"
  shows "fat_sector f c \<noteq> fat_sector f e \<or> unat (e * 4 mod 512) + 4 \<le> unat (c * 4 mod 512) \<or>
    unat (c * 4 mod 512) + 4 \<le> unat (e * 4 mod 512)"
proof -
  have "unat c \<noteq> unat e" using assms(4) by (auto simp: word_unat_eq_iff)
  then have "unat c div 128 \<noteq> unat e div 128 \<or> unat c mod 128 \<noteq> unat e mod 128"
    by (metis div_mult_mod_eq)
  then show ?thesis
    using fat_position [OF assms(1,2)] fat_position [OF assms(1,3)] by auto
qed

interpretation ft: link_table fat32_next_cluster fat32_set_next_cluster fat_entry_ok
proof
  fix st c v e
  assume c: "fat_entry_ok st c"
  note p = fat_position [of "fs st" c] c [unfolded fat_entry_ok_def]
  have o: "unat (c * 4 mod 512) + 4 \<le> 512" using p by auto
  show "fat32_next_cluster (fat32_set_next_cluster c v st) c = v AND 0x0FFFFFFF"
    using o by (simp add: next_cluster_eq set_next_cluster_eq bd.field_same link_value)
  assume e: "fat_entry_ok st e" and ne: "c \<noteq> e"
  note q = fat_position [of "fs st" e] e [unfolded fat_entry_ok_def]
  have o': "unat (e * 4 mod 512) + 4 \<le> 512" using q by auto
  show "fat32_next_cluster (fat32_set_next_cluster c v st) e = fat32_next_cluster st e"
    using o o' p q fat_offset_cases [of "fs st" c e] ne
    by (simp add: next_cluster_eq set_next_cluster_eq bd.field_other)
next
  fix c v st e
  show "fat_entry_ok (fat32_set_next_cluster c v st) e = fat_entry_ok st e"
    by (simp add: fat_entry_ok_def)
qed

section \<open>Lemmas: the data area\<close>

lemma sector_position:
  assumes "sector_ok st c s"
  shows "unat (cluster_to_sector st c + of_nat s) =
      unat (first_data_sector (fs st)) + (unat c - 2) * unat (sectors_per_cluster (fs st)) + s"
    and "lba_ok (cluster_to_sector st c + of_nat s)"
proof -
  let ?f = "fs st"
  let ?k = "unat (sectors_per_cluster ?f)"
  have g: "geometry ?f" and c: "2 \<le> unat c" "unat c < fat_entries ?f" and s: "s < ?k"
    using assms by (auto simp: sector_ok_def data_cluster_def word_le_nat_alt)
  have "Suc (unat c - 2) \<le> fat_entries ?f" using c by simp
  then have "Suc (unat c - 2) * ?k \<le> fat_entries ?f * ?k" by (rule mult_le_mono1)
  then have b: "unat (first_data_sector ?f) + (unat c - 2) * ?k + s < 268435456"
    using g s by (simp add: geometry_def)
  have "unat (c - 2) = unat c - 2" using c by (simp add: unat_sub_u32)
  then have "unat ((c - 2) * ucast (sectors_per_cluster ?f)) = (unat c - 2) * ?k"
    using b by (simp add: unat_mult_u32)
  then have "unat (cluster_to_sector st c) = unat (first_data_sector ?f) + (unat c - 2) * ?k"
    using b by (simp add: cluster_to_sector_def unat_add_u32)
  then show 1: "unat (cluster_to_sector st c + of_nat s) =
      unat (first_data_sector ?f) + (unat c - 2) * ?k + s"
    using b by (simp add: unat_add_u32 unat_of_nat_u32)
  with b show "lba_ok (cluster_to_sector st c + of_nat s)" by (simp add: lba_ok_def)
qed

lemma sector_inj:
  assumes "sector_ok st c s" and "sector_ok st c' s'"
    and "cluster_to_sector st c + of_nat s = cluster_to_sector st c' + of_nat s'"
  shows "c = c' \<and> s = s'"
proof -
  let ?k = "unat (sectors_per_cluster (fs st))"
  have k: "s < ?k" "s' < ?k" and c: "2 \<le> unat c" "2 \<le> unat c'"
    using assms by (auto simp: sector_ok_def data_cluster_def word_le_nat_alt)
  have e: "(unat c - 2) * ?k + s = (unat c' - 2) * ?k + s'"
    using sector_position(1) [OF assms(1)] sector_position(1) [OF assms(2)] assms(3) by simp
  have "unat c - 2 = ((unat c - 2) * ?k + s) div ?k" "unat c' - 2 = ((unat c' - 2) * ?k + s') div ?k"
    using k by simp_all
  then have "unat c - 2 = unat c' - 2" using e by simp
  with c e show ?thesis by (auto simp: word_unat_eq_iff)
qed

lemma sector_not_table:
  assumes "sector_ok st c s" and "fat_entry_ok st e"
  shows "fat_sector (fs st) e \<noteq> cluster_to_sector st c + of_nat s"
  using sector_position(1) [OF assms(1)] fat_position(4) [of "fs st" e] assms(2)
  by (auto simp: fat_entry_ok_def)

lemma cluster_to_sector_cong: "fs st = fs st' \<Longrightarrow> cluster_to_sector st c = cluster_to_sector st' c"
  by (simp add: cluster_to_sector_def)

lemma cluster_to_sector_disk [simp]:
  "cluster_to_sector (st\<lparr>disk := d\<rparr>) c = cluster_to_sector st c"
  "cluster_to_sector (st\<lparr>tty := t\<rparr>) c = cluster_to_sector st c"
  by (simp_all add: cluster_to_sector_def)

lemma write_sector_of_sel [simp]:
  "fs (write_sector_of c s buf st) = fs st"
  "current_dir_cluster (write_sector_of c s buf st) = current_dir_cluster st"
  "tty (write_sector_of c s buf st) = tty st"
  by (simp_all add: write_sector_of_def)

lemma length_read_sector_of [simp]: "length (read_sector_of st c s) = 512"
  by (simp add: read_sector_of_def)

interpretation vol: volume fat32_next_cluster fat32_set_next_cluster fat_entry_ok
  read_sector_of write_sector_of sector_ok
proof
  fix st c s and buf :: "u8 list" and c' s' e v
  show "sector_ok (write_sector_of c s buf st) c' s' = sector_ok st c' s'"
    and "fat_entry_ok (write_sector_of c s buf st) e = fat_entry_ok st e"
    and "sector_ok (fat32_set_next_cluster e v st) c s = sector_ok st c s"
    by (simp_all add: sector_ok_def fat_entry_ok_def)
  assume a: "sector_ok st c s"
  show "fat_entry_ok st c" using a by (simp add: sector_ok_def fat_entry_ok_def data_cluster_def)
  show "read_sector_of (write_sector_of c s buf st) c s = buf" if "length buf = 512"
    using that by (simp add: read_sector_of_def write_sector_of_def bd.rd_wr_same)
  show "read_sector_of (write_sector_of c s buf st) c' s' = read_sector_of st c' s'"
    if "sector_ok st c' s'" and "(c, s) \<noteq> (c', s')"
    using that a sector_inj [OF a that(1)] sector_position(2) [OF a] sector_position(2) [OF that(1)]
    by (auto simp: read_sector_of_def write_sector_of_def intro!: bd.rd_wr_other)
  assume e: "fat_entry_ok st e"
  show "fat32_next_cluster (write_sector_of c s buf st) e = fat32_next_cluster st e"
    using sector_not_table [OF a e] sector_position(2) [OF a] fat_position(5) [of "fs st" e] e
    by (simp add: next_cluster_eq write_sector_of_def bd.rd_wr_other fat_entry_ok_def)
  show "read_sector_of (fat32_set_next_cluster e v st) c s = read_sector_of st c s"
    using sector_not_table [OF a e] sector_position(2) [OF a] fat_position(5) [of "fs st" e] e
    by (simp add: read_sector_of_def set_next_cluster_eq bd.rd_wr_other fat_entry_ok_def)
qed

section \<open>Lemmas: searching, counting, clearing\<close>

lemma link_at:
  assumes "geometry (fs st)" and "i < unat (fat_size (fs st))" and "j < 128"
  shows "load32 (disk_read (disk st) (ucast (reserved_sector_count (fs st)) + of_nat i)) (4 * j) AND 0x0FFFFFFF
    = fat32_next_cluster st (of_nat (i * 128 + j))"
proof -
  define c :: u32 where "c = of_nat (i * 128 + j)"
  have lt: "i * 128 + j < fat_entries (fs st)"
    using assms(2,3) by (simp add: fat_entries_def)
  then have u: "unat c = i * 128 + j"
    unfolding c_def using geometry_bounds(2) [OF assms(1)] by (intro unat_of_nat_u32) linarith
  have "unat (c * 4 div 512) = i"
    using fat_position(1) [OF assms(1), of c] lt u assms(3) by simp
  then have "of_nat (unat (c * 4 div 512)) = (of_nat i :: u32)" by (simp only:)
  then have "c * 4 div 512 = of_nat i" by simp
  moreover have "unat (c * 4 mod 512) = 4 * j"
    using fat_position(2) [OF assms(1), of c] lt u assms(3) by simp
  ultimately show ?thesis
    unfolding next_cluster_eq fat_sector_def c_def [symmetric] by simp
qed

lemma find_free_eq:
  assumes "geometry (fs st)"
  shows "fat32_find_free_cluster st =
    (case find (free_slot st) [0..<fat_entries (fs st)] of Some n \<Rightarrow> of_nat n | None \<Rightarrow> 0x0FFFFFFF)"
proof -
  let ?F = "unat (fat_size (fs st))"
  let ?g = "\<lambda>n (_::unit). if free_slot st n then Done (of_nat n :: u32) else Go ()"
  let ?body = "\<lambda>i (_::unit). let buffer = disk_read (disk st) (ucast (reserved_sector_count (fs st)) + of_nat i) in
      for_each (\<lambda>j _. if i = 0 \<and> j < 2 then Go ()
                      else if load32 buffer (4 * j) AND 0x0FFFFFFF = 0 then Done (of_nat i * 128 + of_nat j)
                      else Go ()) [0..<128] ()"
  have "for_each ?body [0..<?F] () = for_each (\<lambda>i. for_each (\<lambda>j. ?g (i * 128 + j)) [0..<128]) [0..<?F] ()"
    by (rule for_each_cong) (auto simp: Let_def free_slot_def link_at [OF assms] intro!: for_each_cong)
  also have "\<dots> = for_each ?g [0..<fat_entries (fs st)] ()"
    using for_each_nested [of ?g 128 ?F "()"] by (simp only: fat_entries_def mult.commute)
  finally show ?thesis
    by (simp add: fat32_find_free_cluster_def Let_def for_each_find split: option.split)
qed

lemma count_free_eq:
  assumes "geometry (fs st)"
  shows "count_free_clusters st = of_nat (length (filter (free_slot st) [0..<fat_entries (fs st)]))"
proof -
  let ?F = "unat (fat_size (fs st))"
  let ?g = "\<lambda>n (c :: u32). if free_slot st n then c + 1 else c"
  have "count_free_clusters st = fold (\<lambda>i. fold (\<lambda>j. ?g (i * 128 + j)) [0..<128]) [0..<?F] 0"
    unfolding count_free_clusters_def for_all_def Let_def
    by (rule fold_cong) (auto simp: free_slot_def link_at [OF assms] fun_eq_iff intro!: fold_cong)
  also have "\<dots> = fold ?g [0..<fat_entries (fs st)] 0"
    using fold_nested [of ?g 128 ?F 0] by (simp only: fat_entries_def mult.commute)
  finally show ?thesis by (simp add: fold_count)
qed

lemma clear_chain_chain:
  assumes "chain (fat32_next_cluster st) c cl" and "\<And>x. x \<in> set cl \<Longrightarrow> fat_entry_ok st x"
  shows "clear_chain c st = Some (fold (\<lambda>x. fat32_set_next_cluster x 0) cl st)"
  using assms
proof (induction cl arbitrary: c st)
  case Nil
  then show ?case by (subst clear_chain.simps) simp
next
  case (Cons x cl)
  have "x \<notin> set cl" using chain_distinct [OF Cons.prems(1)] by simp
  moreover have "fat_entry_ok st x" using Cons.prems(2) by simp
  moreover have "chain (fat32_next_cluster st) (fat32_next_cluster st x) cl" using Cons.prems(1) by auto
  ultimately have "chain (fat32_next_cluster (fat32_set_next_cluster x 0 st)) (fat32_next_cluster st x) cl"
    using Cons.prems(2) by (intro ft.chain_setn_other) auto
  then show ?case
    using Cons.prems Cons.IH [of "fat32_set_next_cluster x 0 st" "fat32_next_cluster st x"]
    by (subst clear_chain.simps) (auto simp: ft.entry_ok_set)
qed

text \<open>The search in terms of cluster numbers: the two outcomes.\<close>

lemma find_free_cases:
  assumes g: "geometry (fs st)"
  obtains (found) "data_cluster (fs st) (fat32_find_free_cluster st)"
      "fat32_next_cluster st (fat32_find_free_cluster st) = 0"
      "\<And>e. 2 \<le> e \<Longrightarrow> e < fat32_find_free_cluster st \<Longrightarrow> fat32_next_cluster st e \<noteq> 0"
      "fat32_find_free_cluster st < 0x0FFFFFF8"
    | (full) "\<And>c. data_cluster (fs st) c \<Longrightarrow> fat32_next_cluster st c \<noteq> 0"
      "fat32_find_free_cluster st = 0x0FFFFFFF"
proof (cases "find (free_slot st) [0..<fat_entries (fs st)]")
  case None
  then have "\<not> free_slot st (unat c)" if "data_cluster (fs st) c" for c
    using that by (auto simp: find_upt_None data_cluster_def)
  then have "fat32_next_cluster st c \<noteq> 0" if "data_cluster (fs st) c" for c
    using that by (auto simp: free_slot_def data_cluster_def word_le_nat_alt)
  with None show ?thesis using full by (simp add: find_free_eq [OF g])
next
  case (Some n)
  then have n: "n < fat_entries (fs st)" "free_slot st n" "\<And>j. j < n \<Longrightarrow> \<not> free_slot st j"
    by (auto simp: find_upt_Some)
  have r: "fat32_find_free_cluster st = of_nat n" using Some by (simp add: find_free_eq [OF g])
  have u: "unat (of_nat n :: u32) = n" using n(1) geometry_bounds(2) [OF g] by (simp add: unat_of_nat_u32)
  show ?thesis
  proof (rule found)
    show "data_cluster (fs st) (fat32_find_free_cluster st)"
      using n u by (simp add: r data_cluster_def free_slot_def word_le_nat_alt)
    show "fat32_next_cluster st (fat32_find_free_cluster st) = 0"
      using n by (simp add: r free_slot_def)
    show "fat32_find_free_cluster st < 0x0FFFFFF8"
      using n(1) u geometry_bounds(2) [OF g] by (simp add: r word_less_nat_alt)
    fix e :: u32 assume e: "2 \<le> e" "e < fat32_find_free_cluster st"
    then have "unat e < n" using u by (simp add: r word_less_nat_alt)
    with n(3) [of "unat e"] e show "fat32_next_cluster st e \<noteq> 0"
      by (simp add: free_slot_def word_le_nat_alt)
  qed
qed

text \<open>The cluster the search finds can be used.\<close>

lemma free_cluster_found:
  assumes "geometry (fs st)" and "fat32_find_free_cluster st = c" and "c \<noteq> 0x0FFFFFFF"
  shows "data_cluster (fs st) c" "fat32_next_cluster st c = 0" "in_chain c" "fat_entry_ok st c"
proof -
  have 1: "data_cluster (fs st) c \<and> fat32_next_cluster st c = 0 \<and> c < 0x0FFFFFF8"
    using assms by (cases rule: find_free_cases) simp_all
  then show "data_cluster (fs st) c" "fat32_next_cluster st c = 0" by simp_all
  show "in_chain c" "fat_entry_ok st c" using 1 assms(1) by (simp_all add: in_chain_def data_cluster_def fat_entry_ok_def)
qed

section \<open>Lemmas: printing, and runs of updates\<close>

lemma console_print_sel [simp]:
  "fs (console_print m st) = fs st" "disk (console_print m st) = disk st"
  "current_dir_cluster (console_print m st) = current_dir_cluster st" "tty (console_print m st) = tty st @ m"
  by (simp_all add: console_print_def)

lemma console_print_disk [simp]:
  "fat32_next_cluster (console_print m st) = fat32_next_cluster st"
  "read_sector_of (console_print m st) = read_sector_of st"
  by (simp_all add: fun_eq_iff read_sector_of_def cluster_to_sector_def fat32_next_cluster_def)

lemma fold_set_next_sel [simp]:
  "fs (fold (\<lambda>x. fat32_set_next_cluster x v) fl st) = fs st"
  "current_dir_cluster (fold (\<lambda>x. fat32_set_next_cluster x v) fl st) = current_dir_cluster st"
  "tty (fold (\<lambda>x. fat32_set_next_cluster x v) fl st) = tty st"
  by (induction fl arbitrary: st) simp_all

lemma fold_write_sel [simp]:
  "fs (fold (\<lambda>s. write_sector_of c s buf) ss st) = fs st"
  "current_dir_cluster (fold (\<lambda>s. write_sector_of c s buf) ss st) = current_dir_cluster st"
  "tty (fold (\<lambda>s. write_sector_of c s buf) ss st) = tty st"
  by (induction ss arbitrary: st) simp_all

lemma read_fold_write:
  assumes "\<And>s. s \<in> set ss \<Longrightarrow> sector_ok st c s" and "length buf = 512" and "sector_ok st x t"
  shows "read_sector_of (fold (\<lambda>s. write_sector_of c s buf) ss st) x t =
    (if x = c \<and> t \<in> set ss then buf else read_sector_of st x t)"
  using assms
proof (induction ss arbitrary: st)
  case (Cons s ss)
  show ?case
  proof (cases "(c, s) = (x, t)")
    case True
    with Cons show ?thesis by (simp add: vol.slot_ok_wrs vol.rds_same)
  next
    case False
    with Cons show ?thesis by (auto simp: vol.slot_ok_wrs vol.rds_other)
  qed
qed simp

lemma next_fold_write:
  assumes "\<And>s. s \<in> set ss \<Longrightarrow> sector_ok st c s" and "fat_entry_ok st x"
  shows "fat32_next_cluster (fold (\<lambda>s. write_sector_of c s buf) ss st) x = fat32_next_cluster st x"
  using assms by (induction ss arbitrary: st) (auto simp: vol.slot_ok_wrs vol.nxt_wrs vol.entry_ok_wrs)

lemma memset_zeros: "memset (replicate 512 0) 0 0 512 = replicate 512 (0 :: u8)"
  by (rule nth_equalityI) (simp_all add: memset_put_bytes nth_put_bytes)

lemma read_fold_writes:
  assumes "distinct ss" and "\<And>s. s \<in> set ss \<Longrightarrow> sector_ok st c s" and "\<And>s. s \<in> set ss \<Longrightarrow> P s \<Longrightarrow> length (B s) = 512"
    and "sector_ok st x t"
  shows "read_sector_of (fold (\<lambda>s st. if P s then write_sector_of c s (B s) st else st) ss st) x t =
    (if x = c \<and> t \<in> set ss \<and> P t then B t else read_sector_of st x t)"
  using assms
proof (induction ss arbitrary: st)
  case (Cons s ss)
  let ?st = "if P s then write_sector_of c s (B s) st else st"
  have "read_sector_of (fold (\<lambda>s st. if P s then write_sector_of c s (B s) st else st) ss ?st) x t =
    (if x = c \<and> t \<in> set ss \<and> P t then B t else read_sector_of ?st x t)"
    using Cons by (intro Cons.IH) (auto simp: vol.slot_ok_wrs)
  moreover have "read_sector_of ?st x t = (if (x, t) = (c, s) \<and> P s then B s else read_sector_of st x t)"
    using Cons.prems by (auto simp: vol.rds_same vol.rds_other)
  ultimately show ?case using Cons.prems(1) by auto
qed simp

lemma fold_writes_frame:
  shows "fs (fold (\<lambda>s st. if P s then write_sector_of c s (B s) st else st) ss st) = fs st"
    and "current_dir_cluster (fold (\<lambda>s st. if P s then write_sector_of c s (B s) st else st) ss st) = current_dir_cluster st"
    and "tty (fold (\<lambda>s st. if P s then write_sector_of c s (B s) st else st) ss st) = tty st"
    and "(\<And>s. s \<in> set ss \<Longrightarrow> sector_ok st c s) \<Longrightarrow> fat_entry_ok st e \<Longrightarrow>
      fat32_next_cluster (fold (\<lambda>s st. if P s then write_sector_of c s (B s) st else st) ss st) e = fat32_next_cluster st e"
proof -
  show "fs (fold (\<lambda>s st. if P s then write_sector_of c s (B s) st else st) ss st) = fs st"
    "current_dir_cluster (fold (\<lambda>s st. if P s then write_sector_of c s (B s) st else st) ss st) = current_dir_cluster st"
    "tty (fold (\<lambda>s st. if P s then write_sector_of c s (B s) st else st) ss st) = tty st"
    by (induction ss arbitrary: st) simp_all
  show "fat32_next_cluster (fold (\<lambda>s st. if P s then write_sector_of c s (B s) st else st) ss st) e = fat32_next_cluster st e"
    if "\<And>s. s \<in> set ss \<Longrightarrow> sector_ok st c s" "fat_entry_ok st e"
    using that by (induction ss arbitrary: st) (simp_all add: vol.slot_ok_wrs vol.entry_ok_wrs vol.nxt_wrs)
qed

lemma masked_cluster: "in_chain c \<Longrightarrow> c AND 0x0FFFFFFF = c"
proof -
  assume "in_chain c"
  then have "lba_ok c" by (simp add: in_chain_def lba_ok_def word_less_nat_alt)
  then show ?thesis by (rule masked_lba)
qed

section \<open>Lemmas: the blank volume\<close>

lemma blank_geometry [simp]: "geometry (fs blank_volume)" "fat_entries (fs blank_volume) = 128"
  by (simp_all add: geometry_def fat_entries_def blank_volume_def)

lemma blank_entry_ok [simp]: "fat_entry_ok blank_volume c \<longleftrightarrow> unat c < 128"
  by (simp add: fat_entry_ok_def)

lemma blank_sector_ok [simp]: "sector_ok blank_volume c s \<longleftrightarrow> 2 \<le> c \<and> unat c < 128 \<and> s = 0"
  by (auto simp: sector_ok_def data_cluster_def) (auto simp: blank_volume_def)

lemma concat_pairs_nth:
  "k < 2 * n \<Longrightarrow> concat (map (\<lambda>i. bytes16 (g i)) [0..<n]) ! k = byte_of (k mod 2) (g (k div 2))"
proof (induction n)
  case (Suc n)
  have len: "length (concat (map (\<lambda>i. bytes16 (g i)) [0..<n])) = 2 * n"
    by (induction n) simp_all
  show ?case
  proof (cases "k < 2 * n")
    case True
    with Suc len show ?thesis by (simp add: nth_append)
  next
    case False
    with Suc.prems have "k = 2 * n \<or> k = 2 * n + 1" by auto
    with len show ?thesis by (auto simp: nth_append bytes16_def)
  qed
qed simp

lemma disk_read_nth:
  "lba_ok s \<Longrightarrow> k < 512 \<Longrightarrow> disk_read d s ! k = byte_of (k mod 2) (d s (k div 2))"
  unfolding disk_read_def ata_read_sector_def ata_selected_eq
  by (simp add: concat_pairs_nth masked_lba)

lemma blank_next:
  assumes "unat c < 128"
  shows "fat32_next_cluster blank_volume c = (if c < 3 then 0x0FFFFFFF else 0)"
proof -
  note p = fat_position [OF blank_geometry(1), of c]
  have lt: "unat c < fat_entries (fs blank_volume)" using assms by simp
  have "unat (fat_sector (fs blank_volume) c) = 1"
    using p(3) [OF lt] assms by (simp add: blank_volume_def)
  then have s: "fat_sector (fs blank_volume) c = 1" by (simp add: word_unat_eq_iff)
  have o: "unat (c * 4 mod 512) = 4 * unat c" using p(2) [OF lt] assms by simp
  have n: "disk_read (disk blank_volume) 1 ! (4 * unat c + k) =
      byte_of (k mod 2) (disk blank_volume 1 (2 * unat c + k div 2))" if "k < 4" for k
  proof -
    have "(4 * m + k) mod 2 = k mod 2" "(4 * m + k) div 2 = 2 * m + k div 2" for m :: nat by presburger+
    then show ?thesis using that assms by (simp add: disk_read_nth lba_ok_def)
  qed
  have v: "disk blank_volume 1 i = (if i < 6 then (if even i then 0xFFFF else 0x0FFF) else 0)" for i
    by (simp add: blank_volume_def)
  have "c < 3 \<longleftrightarrow> unat c < 3" by (simp add: word_less_nat_alt)
  moreover have "u32_le (byte_of 0 (0xFFFF :: u16)) (byte_of (Suc 0) (0xFFFF :: u16)) (byte_of 0 (0x0FFF :: u16)) (byte_of (Suc 0) (0x0FFF :: u16)) AND 0x0FFFFFFF = 0x0FFFFFFF"
    "u32_le (byte_of 0 (0 :: u16)) (byte_of (Suc 0) (0 :: u16)) (byte_of 0 (0 :: u16)) (byte_of (Suc 0) (0 :: u16)) = 0"
    by (simp_all add: u32_le_def byte_of_def)
  ultimately show ?thesis
    using n [of 0] n [of 1] n [of 2] n [of 3]
    by (simp add: next_cluster_eq s o load32_def v)
qed

lemma blank_sector: "unat c < 128 \<Longrightarrow> 2 \<le> c \<Longrightarrow> read_sector_of blank_volume c 0 = replicate 512 0"
proof (rule nth_equalityI)
  assume c: "unat c < 128" "2 \<le> c"
  then have ok: "sector_ok blank_volume c 0" by simp
  have "unat (cluster_to_sector blank_volume c) = unat c"
    using sector_position(1) [OF ok] c by (simp add: blank_volume_def word_le_nat_alt)
  then have s: "cluster_to_sector blank_volume c = c" by (rule u32_eqI)
  have "lba_ok c" and "c \<noteq> 1" using c by (auto simp: lba_ok_def word_le_nat_alt)
  fix i assume "i < length (read_sector_of blank_volume c 0)"
  then show "read_sector_of blank_volume c 0 ! i = replicate 512 0 ! i"
    using \<open>lba_ok c\<close> \<open>c \<noteq> 1\<close>
    by (simp add: read_sector_of_def s disk_read_nth) (simp add: blank_volume_def byte_of_def)
qed simp

lemma blank_sel [simp]: "current_dir_cluster blank_volume = 2" "root_cluster (fs blank_volume) = 2"
  "sectors_per_cluster (fs blank_volume) = 1"
  by (simp_all add: blank_volume_def)

lemma blank_free: "fat32_find_free_cluster blank_volume = 3"
proof (cases rule: find_free_cases [OF blank_geometry(1)])
  case 1
  let ?c = "fat32_find_free_cluster blank_volume"
  have "?c \<noteq> 2" using 1(2) by (auto simp: blank_next)
  moreover have "\<not> 3 < ?c" using 1(3) [of 3] by (auto simp: blank_next)
  ultimately show ?thesis using 1(1) unfolding data_cluster_def by unat_arith
next
  case 2
  then show ?thesis using 2(1) [of 3] by (simp add: data_cluster_def blank_next)
qed

section \<open>Properties\<close>

text \<open>
  C14: after \<open>fat32_set_next_cluster(c, v)\<close> the link of \<open>c\<close> is the low 28 bits of \<open>v\<close>, every other
  link and every sector of the data area is unchanged, and the reserved high bits of the entry
  keep their value.
\<close>

theorem set_next_cluster_correct:
  assumes "geometry (fs st)" and "unat c < fat_entries (fs st)"
  shows "fat32_next_cluster (fat32_set_next_cluster c v st) c = v AND 0x0FFFFFFF \<and>
    (\<forall>e. unat e < fat_entries (fs st) \<and> e \<noteq> c \<longrightarrow>
       fat32_next_cluster (fat32_set_next_cluster c v st) e = fat32_next_cluster st e) \<and>
    (\<forall>e s. sector_ok st e s \<longrightarrow>
       read_sector_of (fat32_set_next_cluster c v st) e s = read_sector_of st e s) \<and>
    load32 (disk_read (disk (fat32_set_next_cluster c v st)) (fat_sector (fs st) c)) (unat (c * 4 mod 512)) AND 0xF0000000 =
    load32 (disk_read (disk st) (fat_sector (fs st) c)) (unat (c * 4 mod 512)) AND 0xF0000000"
proof -
  have ok: "fat_entry_ok st c" using assms by (simp add: fat_entry_ok_def)
  have "unat (c * 4 mod 512) + 4 \<le> 512" using fat_position(2) [OF assms] by auto
  then have "load32 (disk_read (disk (fat32_set_next_cluster c v st)) (fat_sector (fs st) c)) (unat (c * 4 mod 512)) AND 0xF0000000 =
    load32 (disk_read (disk st) (fat_sector (fs st) c)) (unat (c * 4 mod 512)) AND 0xF0000000"
    by (simp add: set_next_cluster_eq bd.field_same link_value)
  with ok assms show ?thesis
    by (auto simp: ft.nxt_same vol.rds_setn intro!: ft.nxt_other) (simp add: fat_entry_ok_def)
qed

theorem set_next_cluster_correct_witness:
  "fat32_next_cluster (fat32_set_next_cluster 5 0xF0000009 blank_volume) 5 = 9 \<and>
   fat32_next_cluster (fat32_set_next_cluster 5 0xF0000009 blank_volume) 6 = 0"
  using set_next_cluster_correct [of blank_volume 5 "0xF0000009"] blank_next [of 6]
  by simp

text \<open>
  \<open>fat32_find_free_cluster\<close> returns the lowest cluster from 2 on whose link is 0, and the
  end marker \<open>0x0FFFFFFF\<close> exactly when the table has none.
\<close>

theorem find_free_cluster_lowest:
  assumes "geometry (fs st)"
  shows "(\<exists>c. data_cluster (fs st) c \<and> fat32_next_cluster st c = 0 \<and>
        (\<forall>e. 2 \<le> e \<and> e < c \<longrightarrow> fat32_next_cluster st e \<noteq> 0) \<and> fat32_find_free_cluster st = c) \<or>
    (\<forall>c. data_cluster (fs st) c \<longrightarrow> fat32_next_cluster st c \<noteq> 0) \<and> fat32_find_free_cluster st = 0x0FFFFFFF"
  using assms by (cases rule: find_free_cases) auto

theorem find_free_cluster_lowest_witness:
  "fat32_find_free_cluster blank_volume = 3"
proof -
  have b: "fat32_next_cluster blank_volume 2 = 0x0FFFFFFF" "fat32_next_cluster blank_volume 3 = 0"
    by (simp_all add: blank_next)
  have "data_cluster (fs blank_volume) 3" by (simp add: data_cluster_def)
  with b(2) obtain c where c: "data_cluster (fs blank_volume) c" "fat32_next_cluster blank_volume c = 0"
    "\<forall>e. 2 \<le> e \<and> e < c \<longrightarrow> fat32_next_cluster blank_volume e \<noteq> 0" "fat32_find_free_cluster blank_volume = c"
    using find_free_cluster_lowest [OF blank_geometry(1)] by auto
  then have "\<not> 3 < c" using b by auto
  moreover have "c \<noteq> 2" "2 \<le> c" using c b by (auto simp: data_cluster_def)
  ultimately have "c = 3" by unat_arith
  with c show ?thesis by simp
qed

text \<open>
  C36: clearing a chain ends on every chain of the table, frees each of its clusters and leaves
  all other links and all data sectors as they were.
\<close>

theorem clear_chain_frees:
  assumes "geometry (fs st)" and "chain (fat32_next_cluster st) c cl"
    and "\<forall>x \<in> set cl. unat x < fat_entries (fs st)"
  shows "\<exists>st'. clear_chain c st = Some st' \<and>
    (\<forall>x. unat x < fat_entries (fs st) \<longrightarrow>
       fat32_next_cluster st' x = (if x \<in> set cl then 0 else fat32_next_cluster st x)) \<and>
    (\<forall>e s. sector_ok st e s \<longrightarrow> read_sector_of st' e s = read_sector_of st e s)"
proof -
  have ok: "fat_entry_ok st x" if "x \<in> set cl" for x using assms that by (simp add: fat_entry_ok_def)
  show ?thesis
    using clear_chain_chain [OF assms(2) ok] assms(1) ok
    by (auto simp: ft.nxt_clear ft.nxt_fold_other vol.rds_fold_setn fat_entry_ok_def)
qed

theorem clear_chain_frees_witness:
  "\<exists>st'. clear_chain 2 blank_volume = Some st' \<and> fat32_next_cluster st' 2 = 0"
proof -
  have "chain (fat32_next_cluster blank_volume) 2 [2]" by (simp add: in_chain_def blank_next)
  then show ?thesis using clear_chain_frees [of blank_volume 2 "[2]"] by auto
qed

text \<open>
  the number of free clusters that \<open>df\<close> reports is the number of zero links from cluster 2
  on, without wrap-around.
\<close>

theorem usage_counts_free:
  assumes "geometry (fs st)"
  shows "unat (count_free_clusters st) =
    card {n. 2 \<le> n \<and> n < fat_entries (fs st) \<and> fat32_next_cluster st (of_nat n) = 0}"
proof -
  let ?xs = "filter (free_slot st) [0..<fat_entries (fs st)]"
  have "length ?xs \<le> fat_entries (fs st)" using length_filter_le [of _ "[0..<fat_entries (fs st)]"] by simp
  then have "unat (count_free_clusters st) = length ?xs"
    using geometry_bounds(2) [OF assms] by (simp add: count_free_eq [OF assms] unat_of_nat_u32)
  also have "\<dots> = card (set ?xs)" by (rule distinct_card [symmetric]) simp
  also have "set ?xs = {n. 2 \<le> n \<and> n < fat_entries (fs st) \<and> fat32_next_cluster st (of_nat n) = 0}"
    by (auto simp: free_slot_def)
  finally show ?thesis .
qed

theorem usage_counts_free_witness: "unat (count_free_clusters blank_volume) = 125"
proof -
  have "fat32_next_cluster blank_volume (of_nat n) = 0 \<longleftrightarrow> 3 \<le> n" if "n < 128" for n
  proof -
    have "unat (of_nat n :: u32) = n" using that by (simp add: unat_of_nat_u32)
    then show ?thesis using that by (simp add: blank_next word_less_nat_alt)
  qed
  then have "{n. 2 \<le> n \<and> n < 128 \<and> fat32_next_cluster blank_volume (of_nat n) = 0} = {3..<128}" by auto
  then show ?thesis using usage_counts_free [OF blank_geometry(1)] by simp
qed

end
