(* ===== verification/Fat32_Names.thy ===== *)
theory Fat32_Names
  imports Fat32_Table
begin

text \<open>
  File names in \<open>src/kernel/fs/fat32.c\<close>: the conversion of a typed name to the 11-byte 8.3
  form of directory entries, its display form, and the splitting of paths into components.
\<close>

unbundle bit_operations_syntax

section \<open>Operations\<close>

text \<open>The loop over the name part: up to 8 characters, stopping at a dot or the terminator.\<close>

function format_name_loop :: "u8 list \<Rightarrow> nat \<Rightarrow> nat \<Rightarrow> u8 list \<Rightarrow> nat \<times> u8 list" where
  "format_name_loop input i out_idx output =
     (if cget input i \<noteq> 0x2E \<and> cget input i \<noteq> 0 \<and> out_idx < 8 then
        format_name_loop input (Suc i) (Suc out_idx) (output[out_idx := upper_char (cget input i)])
      else (i, output))"
  by pat_completeness auto
termination
  by (relation "measure (\<lambda>(input, i, out_idx, output). 8 - out_idx)") auto

declare format_name_loop.simps [simp del]

text \<open>The loop over the extension: up to 3 characters after the dot.\<close>

function format_ext_loop :: "u8 list \<Rightarrow> nat \<Rightarrow> nat \<Rightarrow> u8 list \<Rightarrow> u8 list" where
  "format_ext_loop input i out_idx output =
     (if cget input i \<noteq> 0 \<and> out_idx < 11 then
        format_ext_loop input (Suc i) (Suc out_idx) (output[out_idx := upper_char (cget input i)])
      else output)"
  by pat_completeness auto
termination
  by (relation "measure (\<lambda>(input, i, out_idx, output). 11 - out_idx)") auto

declare format_ext_loop.simps [simp del]

definition format_filename :: "u8 list \<Rightarrow> u8 list" where
  "format_filename input =
     (let output = replicate 11 0x20 in
      if cget input 0 = 0x2E \<and> cget input 1 = 0 then output[0 := 0x2E]
      else if cget input 0 = 0x2E \<and> cget input 1 = 0x2E \<and> cget input 2 = 0 then
        output[0 := 0x2E, 1 := 0x2E]
      else
        (case format_name_loop input 0 0 output of (i, output') \<Rightarrow>
           if cget input i = 0x2E then format_ext_loop input (Suc i) 8 output' else output'))"

text \<open>The text that \<open>print_name\<close> assembles in \<open>out\<close>.\<close>

definition display_name :: "u8 list \<Rightarrow> u8 list" where
  "display_name name =
     filter (\<lambda>b. b \<noteq> 0x20) (take 8 name) @
     (if name ! 8 \<noteq> 0x20 then 0x2E # filter (\<lambda>b. b \<noteq> 0x20) (take 3 (drop 8 name)) else [])"

definition print_name :: "u8 list \<Rightarrow> fat_state \<Rightarrow> fat_state" where
  "print_name name st =
     (if name ! 0 = 0xE5 then st
      else console_print [0x0A] (console_print (cstr_of (display_name name)) st))"

text \<open>
  \<open>get_next_component\<close>: skip slashes, then copy up to 127 bytes to the next slash; the result is
  the index to go on with and the component.
\<close>

function skip_slashes :: "u8 list \<Rightarrow> nat \<Rightarrow> nat" where
  "skip_slashes path i = (if cget path i = 0x2F then skip_slashes path (Suc i) else i)"
  by pat_completeness auto
termination
  by (relation "measure (\<lambda>(path, i). length path - i)") (auto simp: cget_def split: if_splits)

declare skip_slashes.simps [simp del]

function copy_component :: "u8 list \<Rightarrow> nat \<Rightarrow> u8 list \<Rightarrow> nat \<times> u8 list" where
  "copy_component path i component =
     (if cget path i \<noteq> 0x2F \<and> cget path i \<noteq> 0 \<and> length component < 127 then
        copy_component path (Suc i) (component @ [cget path i])
      else (i, component))"
  by pat_completeness auto
termination
  by (relation "measure (\<lambda>(path, i, component). 127 - length component)") auto

declare copy_component.simps [simp del]

definition get_next_component :: "u8 list \<Rightarrow> nat \<Rightarrow> nat \<times> u8 list" where
  "get_next_component path start_idx = copy_component path (skip_slashes path start_idx) []"

section \<open>Specification of the 8.3 form\<close>

text \<open>A field of \<open>n\<close> bytes, filled up with spaces.\<close>

definition space_pad :: "nat \<Rightarrow> u8 list \<Rightarrow> u8 list" where
  "space_pad n xs = take n (xs @ replicate n 0x20)"

text \<open>The part before the first dot, and what follows the dot.\<close>

definition base_part :: "u8 list \<Rightarrow> u8 list" where
  "base_part input = takeWhile (\<lambda>b. b \<noteq> 0x2E) input"

definition ext_part :: "u8 list \<Rightarrow> u8 list" where
  "ext_part input = drop (Suc (length (base_part input))) input"

text \<open>
  The 8.3 form: eight bytes of name and three of extension, upper case, space-padded; the
  extension is dropped when the part before the dot is longer than eight bytes.
\<close>

definition short_name :: "u8 list \<Rightarrow> u8 list" where
  "short_name input =
     space_pad 8 (strupper (base_part input)) @
     space_pad 3 (if length (base_part input) \<le> 8 then strupper (ext_part input) else [])"

text \<open>Names that fit the 8.3 form and contain no space: what the shell's users can type.\<close>

definition plain_name :: "u8 list \<Rightarrow> bool" where
  "plain_name input \<longleftrightarrow>
     is_cstr input \<and> 0x20 \<notin> set input \<and> base_part input \<noteq> [] \<and>
     length (base_part input) \<le> 8 \<and> length (ext_part input) \<le> 3 \<and> 0x2E \<notin> set (ext_part input) \<and>
     (input \<noteq> base_part input \<longrightarrow> ext_part input \<noteq> [])"

section \<open>Lemmas: the 8.3 form\<close>

lemma format_name_loop_eq:
  assumes "is_cstr input" and "out_idx \<le> 8" and "length output = 11"
    and "r = take (8 - out_idx) (base_part (drop i input))"
  shows "format_name_loop input i out_idx output = (i + length r, put_bytes output out_idx (strupper r))"
  using assms
proof (induction input i out_idx "output" arbitrary: r rule: format_name_loop.induct)
  case (1 input i out_idx outp)
  show ?case
  proof (cases "cget input i \<noteq> 0x2E \<and> cget input i \<noteq> 0 \<and> out_idx < 8")
    case True
    define r' where "r' = take (8 - Suc out_idx) (base_part (drop (Suc i) input))"
    have "8 - out_idx = Suc (8 - Suc out_idx)" using True by arith
    then have r: "r = cget input i # r'"
      using True 1 by (simp add: r'_def base_part_def drop_cget)
    have "length r' \<le> 8 - Suc out_idx" by (simp add: r'_def)
    then have "out_idx + Suc (length r') \<le> 11" using True by arith
    moreover have "format_name_loop input (Suc i) (Suc out_idx) (outp[out_idx := upper_char (cget input i)]) =
        (Suc i + length r', put_bytes (outp[out_idx := upper_char (cget input i)]) (Suc out_idx) (strupper r'))"
      using True 1 by (intro "1.IH") (auto simp: r'_def)
    ultimately show ?thesis
      using True 1(4) unfolding r
      by (subst format_name_loop.simps) (simp add: strupper_def put_bytes_Cons)
  next
    case False
    then have "r = []"
      using 1 drop_cget [of input i] drop_cget_0 [of input i]
      by (cases "cget input i = 0") (auto simp: base_part_def)
    with False show ?thesis by (subst format_name_loop.simps) (auto simp: strupper_def)
  qed
qed

lemma format_ext_loop_eq:
  assumes "is_cstr input" and "out_idx \<le> 11" and "length output = 11"
  shows "format_ext_loop input i out_idx output =
    put_bytes output out_idx (strupper (take (11 - out_idx) (drop i input)))"
  using assms
proof (induction input i out_idx "output" rule: format_ext_loop.induct)
  case (1 input i out_idx outp)
  show ?case
  proof (cases "cget input i \<noteq> 0 \<and> out_idx < 11")
    case True
    have "11 - out_idx = Suc (11 - Suc out_idx)" using True by arith
    with True 1 show ?thesis
      by (subst format_ext_loop.simps) (simp add: drop_cget strupper_def put_bytes_Cons)
  next
    case False
    then have "take (11 - out_idx) (drop i input) = []"
      using 1 drop_cget_0 [of input i] by (cases "cget input i = 0") auto
    with False show ?thesis by (subst format_ext_loop.simps) (auto simp: strupper_def)
  qed
qed

lemma length_space_pad [simp]: "length (space_pad n xs) = n"
  by (simp add: space_pad_def)

lemma put_bytes_pad: "length xs \<le> n \<Longrightarrow> put_bytes (replicate n 0x20) 0 xs = space_pad n xs"
  by (simp add: put_bytes_def space_pad_def)

lemma space_pad_Nil: "space_pad n [] = replicate n 0x20"
  by (simp add: space_pad_def)

lemma space_pad_take: "space_pad n (take n xs) = space_pad n xs"
  by (auto simp: space_pad_def)

lemma base_part_split:
  "input = base_part input \<and> ext_part input = [] \<or> input = base_part input @ 0x2E # ext_part input"
proof (cases "0x2E \<in> set input")
  case True
  then obtain us vs where *: "input = us @ 0x2E # vs" "0x2E \<notin> set us"
    by (meson split_list_first)
  have "takeWhile (\<lambda>b. b \<noteq> 0x2E) (us @ 0x2E # vs) = us" using *(2) by (induction us) auto
  with * have "base_part input = us" by (simp add: base_part_def)
  with * show ?thesis by (simp add: ext_part_def)
next
  case False
  then have "base_part input = input"
    by (auto simp: base_part_def takeWhile_eq_all_conv)
  then show ?thesis by (simp add: ext_part_def)
qed

lemma is_dots:
  assumes "is_cstr input"
  shows "cget input 0 = 0x2E \<and> cget input 1 = 0 \<longleftrightarrow> input = [0x2E]"
    and "cget input 0 = 0x2E \<and> cget input 1 = 0x2E \<and> cget input 2 = 0 \<longleftrightarrow> input = [0x2E, 0x2E]"
proof -
  consider "input = []" | a where "input = [a]" | a b where "input = [a, b]"
    | a b c rest where "input = a # b # c # rest"
    by (metis remdups_adj.cases)
  note cs = this
  show "cget input 0 = 0x2E \<and> cget input 1 = 0 \<longleftrightarrow> input = [0x2E]"
    using cs by cases (use assms in \<open>auto simp: cget_def is_cstr_def\<close>)
  show "cget input 0 = 0x2E \<and> cget input 1 = 0x2E \<and> cget input 2 = 0 \<longleftrightarrow> input = [0x2E, 0x2E]"
    using cs by cases (use assms in \<open>auto simp: cget_def is_cstr_def\<close>)
qed

lemma format_filename_short:
  assumes "is_cstr input" and "input \<noteq> [0x2E]" and "input \<noteq> [0x2E, 0x2E]"
  shows "format_filename input = short_name input"
proof -
  let ?b = "base_part input"
  define k where "k = length (take 8 ?b)"
  have k8: "k \<le> 8" by (simp add: k_def)
  have dots: "\<not> (cget input 0 = 0x2E \<and> cget input 1 = 0)"
    "\<not> (cget input 0 = 0x2E \<and> cget input 1 = 0x2E \<and> cget input 2 = 0)"
    using assms is_dots [of input] by auto
  have nl: "format_name_loop input 0 0 (replicate 11 0x20) =
      (k, put_bytes (replicate 11 0x20) 0 (strupper (take 8 ?b)))"
    using format_name_loop_eq [OF assms(1), of 0 "replicate 11 0x20" "take 8 ?b" 0] by (simp add: k_def)
  have first: "put_bytes (replicate 11 0x20) 0 (strupper (take 8 ?b)) =
      space_pad 8 (strupper ?b) @ space_pad 3 []"
  proof -
    have "(replicate 11 0x20 :: u8 list) = replicate 8 0x20 @ replicate 3 0x20" by (simp flip: replicate_add)
    then show ?thesis
      by (auto simp: put_bytes_def space_pad_def strupper_def take_map)
  qed
  have ff: "format_filename input =
      (if cget input k = 0x2E then format_ext_loop input (Suc k) 8 (space_pad 8 (strupper ?b) @ space_pad 3 [])
       else space_pad 8 (strupper ?b) @ space_pad 3 [])"
    unfolding format_filename_def Let_def nl first using dots by (simp only: if_False prod.case simp_thms)
  show ?thesis
  proof (cases "length ?b \<le> 8 \<and> ?b \<noteq> input")
    case True
    then have inp: "input = ?b @ 0x2E # ext_part input" using base_part_split [of input] by auto
    have kb: "k = length ?b" using True by (simp add: k_def)
    have "cget input k = 0x2E" using kb by (subst inp) (simp add: cget_def nth_append)
    moreover have "drop (Suc k) input = ext_part input" using kb by (simp add: ext_part_def)
    moreover have "put_bytes (space_pad 8 (strupper ?b) @ space_pad 3 []) 8 (strupper (take 3 (ext_part input))) =
        space_pad 8 (strupper ?b) @ space_pad 3 (strupper (ext_part input))"
      by (simp add: put_bytes_append strupper_def take_map [symmetric] space_pad_Nil put_bytes_pad space_pad_take)
    ultimately show ?thesis
      using True by (simp add: ff format_ext_loop_eq assms(1) short_name_def)
  next
    case False
    have "cget input k \<noteq> 0x2E"
    proof (cases "?b = input")
      case True
      then have "0x2E \<notin> set input" by (metis (mono_tags) base_part_def set_takeWhileD)
      then show ?thesis by (auto simp: cget_def dest: nth_mem)
    next
      case F: False
      with False have "length ?b > 8" by simp
      then have "k = 8" and "8 < length input" and "input ! 8 = ?b ! 8"
        using length_takeWhile_le [of "\<lambda>b. b \<noteq> 0x2E" input]
        by (auto simp: k_def base_part_def takeWhile_nth)
      moreover have "?b ! 8 \<noteq> 0x2E"
        using \<open>length ?b > 8\<close> by (metis (mono_tags) base_part_def nth_mem set_takeWhileD)
      ultimately show ?thesis by (simp add: cget_def)
    qed
    moreover have "length ?b \<le> 8 \<Longrightarrow> ext_part input = []"
      using False by (simp add: ext_part_def)
    ultimately show ?thesis
      by (auto simp: ff short_name_def strupper_def)
  qed
qed

lemma length_short_name [simp]: "length (short_name input) = 11"
  by (simp add: short_name_def)

lemma length_format_filename [simp]: "is_cstr input \<Longrightarrow> length (format_filename input) = 11"
  by (cases "input = [0x2E]"; cases "input = [0x2E, 0x2E]")
    (simp_all add: format_filename_short, simp_all add: format_filename_def cget_def)

lemma format_filename_dot:
  "format_filename [0x2E] = 0x2E # replicate 10 0x20"
  "format_filename [0x2E, 0x2E] = 0x2E # 0x2E # replicate 9 0x20"
  by code_simp+

lemma upper_char_nz [simp]: "upper_char b = 0 \<longleftrightarrow> b = 0"
  by (auto simp: upper_char_def word_le_nat_alt)

lemma upper_char_special [simp]:
  "upper_char b = 0x20 \<longleftrightarrow> b = 0x20" "upper_char b = 0x2E \<longleftrightarrow> b = 0x2E" "upper_char b = 0xE5 \<longleftrightarrow> b = 0xE5"
proof -
  have "unat b - 32 \<noteq> 32" "unat b - 32 \<noteq> 46" "unat b - 32 \<noteq> 229" if "0x61 \<le> b" "b \<le> 0x7A"
    using that by (auto simp: word_le_nat_alt)
  moreover have "unat (b - 32) = unat b - 32" if "0x61 \<le> b"
    using that by (subst unat_sub) (auto simp: word_le_nat_alt)
  ultimately show "upper_char b = 0x20 \<longleftrightarrow> b = 0x20" "upper_char b = 0x2E \<longleftrightarrow> b = 0x2E"
    "upper_char b = 0xE5 \<longleftrightarrow> b = 0xE5"
    by (auto simp: upper_char_def word_unat_eq_iff word_le_nat_alt)
qed

lemma short_name_first:
  "short_name input ! 0 = (if base_part input = [] then 0x20 else upper_char (hd input))"
proof (cases "base_part input")
  case Nil
  then show ?thesis by (simp add: short_name_def space_pad_def strupper_def nth_append)
next
  case (Cons b bs)
  then have "hd input = b" by (cases input) (auto simp: base_part_def split: if_splits)
  with Cons show ?thesis by (simp add: short_name_def space_pad_def strupper_def nth_append)
qed

lemma format_filename_first_nz:
  assumes "is_cstr input"
  shows "format_filename input ! 0 \<noteq> 0"
proof (cases "input = [0x2E] \<or> input = [0x2E, 0x2E]")
  case True
  then show ?thesis by (auto simp: format_filename_def cget_def)
next
  case False
  then show ?thesis
    using assms by (cases input) (auto simp: format_filename_short short_name_first is_cstr_def base_part_def)
qed

section \<open>Lemmas: display\<close>

lemma filter_space_pad:
  "0x20 \<notin> set xs \<Longrightarrow> length xs \<le> n \<Longrightarrow> filter (\<lambda>b. b \<noteq> 0x20) (space_pad n xs) = xs"
  by (auto simp: space_pad_def filter_id_conv)

lemma display_short_name:
  assumes "plain_name input"
  shows "display_name (short_name input) = strupper input"
proof -
  have b: "0x20 \<notin> set (base_part input)" "0x20 \<notin> set (ext_part input)"
    using assms by (auto simp: plain_name_def base_part_def ext_part_def dest: set_takeWhileD in_set_dropD)
  moreover have "0x20 \<in> set (strupper xs) \<longleftrightarrow> 0x20 \<in> set xs" for xs
    by (induction xs) (simp_all add: strupper_def eq_commute [of "0x20"])
  ultimately have u: "0x20 \<notin> set (strupper (base_part input))" "0x20 \<notin> set (strupper (ext_part input))"
    by simp_all
  have l: "length (base_part input) \<le> 8" "length (ext_part input) \<le> 3" using assms by (auto simp: plain_name_def)
  have parts: "take 8 (short_name input) = space_pad 8 (strupper (base_part input))"
    "drop 8 (short_name input) = space_pad 3 (strupper (ext_part input))"
    using l by (simp_all add: short_name_def)
  have "short_name input ! 8 = space_pad 3 (strupper (ext_part input)) ! 0"
    using l by (simp add: short_name_def nth_append)
  then have "short_name input ! 8 = 0x20 \<longleftrightarrow> ext_part input = []"
    using u(2) by (cases "ext_part input") (auto simp: space_pad_def strupper_def)
  then have d: "display_name (short_name input) = strupper (base_part input) @
      (if ext_part input = [] then [] else 0x2E # strupper (ext_part input))"
    using u l by (simp add: display_name_def parts filter_space_pad strupper_def)
  show ?thesis
  proof (cases "input = base_part input")
    case True
    with d base_part_split [of input] show ?thesis by auto
  next
    case False
    then have "input = base_part input @ 0x2E # ext_part input" using base_part_split [of input] by blast
    from arg_cong [OF this, of strupper] False assms show ?thesis
      by (simp add: d) (simp add: strupper_def plain_name_def)
  qed
qed

section \<open>Lemmas: path components\<close>

lemma skip_slashes_eq: "is_cstr path \<Longrightarrow> drop (skip_slashes path i) path = dropWhile (\<lambda>b. b = 0x2F) (drop i path)"
proof (induction path i rule: skip_slashes.induct)
  case (1 path i)
  show ?case
  proof (cases "cget path i = 0x2F")
    case True
    with 1 show ?thesis by (subst skip_slashes.simps) (simp add: drop_cget)
  next
    case False
    then show ?thesis
      using 1 drop_cget [of path i] drop_cget_0 [of path i]
      by (subst skip_slashes.simps) (cases "cget path i = 0", auto)
  qed
qed

lemma copy_component_eq:
  assumes "is_cstr path" and "length acc \<le> 127"
    and "r = take (127 - length acc) (takeWhile (\<lambda>b. b \<noteq> 0x2F) (drop i path))"
  shows "copy_component path i acc = (i + length r, acc @ r)"
  using assms
proof (induction path i acc arbitrary: r rule: copy_component.induct)
  case (1 path i acc)
  show ?case
  proof (cases "cget path i \<noteq> 0x2F \<and> cget path i \<noteq> 0 \<and> length acc < 127")
    case True
    define r' where "r' = take (127 - Suc (length acc)) (takeWhile (\<lambda>b. b \<noteq> 0x2F) (drop (Suc i) path))"
    have "127 - length acc = Suc (127 - Suc (length acc))" using True by arith
    then have r: "r = cget path i # r'" using True 1 by (simp add: r'_def drop_cget)
    have "copy_component path (Suc i) (acc @ [cget path i]) = (Suc i + length r', (acc @ [cget path i]) @ r')"
      using True 1 by (intro "1.IH") (auto simp: r'_def)
    with True show ?thesis unfolding r by (subst copy_component.simps) simp
  next
    case False
    then have "r = []"
      using 1 drop_cget [of path i] drop_cget_0 [of path i] by (cases "cget path i = 0") auto
    with False show ?thesis by (subst copy_component.simps) auto
  qed
qed

lemma get_next_component_eq:
  assumes "is_cstr path" and "get_next_component path i = (j, c)"
  shows "c = take 127 (takeWhile (\<lambda>b. b \<noteq> 0x2F) (dropWhile (\<lambda>b. b = 0x2F) (drop i path)))"
    and "j = skip_slashes path i + length c"
  using assms copy_component_eq [OF assms(1), of "[]" _ "skip_slashes path i"]
  by (auto simp: get_next_component_def skip_slashes_eq)

lemma cget_in_range: "cget path i \<noteq> 0 \<Longrightarrow> i < length path"
  by (auto simp: cget_def split: if_splits)

lemma skip_slashes_ge: "i \<le> skip_slashes path i"
proof (induction path i rule: skip_slashes.induct)
  case (1 path i)
  then show ?case by (subst skip_slashes.simps) auto
qed

lemma copy_component_advance: "fst (copy_component path i acc) + length acc = i + length (snd (copy_component path i acc))"
proof (induction path i acc rule: copy_component.induct)
  case (1 path i acc)
  then show ?case by (subst (1 2) copy_component.simps) auto
qed

lemma get_next_component_progress:
  "cget (snd (get_next_component path i)) 0 \<noteq> 0 \<Longrightarrow> i < fst (get_next_component path i)"
  using skip_slashes_ge [of i path] copy_component_advance [of path "skip_slashes path i" "[]"]
  by (cases "snd (get_next_component path i)") (auto simp: get_next_component_def cget_def)

section \<open>Properties\<close>

text \<open>
  \<open>format_filename\<close> computes the 8.3 form of every name other than the two dot names, which
  it keeps: eleven bytes, upper case, the extension dropped when the part before the dot has
  more than eight characters.
\<close>

theorem format_filename_8_3:
  "is_cstr input \<Longrightarrow>
   length (format_filename input) = 11 \<and>
   format_filename input =
     (if input = [0x2E] then 0x2E # replicate 10 0x20
      else if input = [0x2E, 0x2E] then 0x2E # 0x2E # replicate 9 0x20
      else short_name input)"
  by (auto simp: format_filename_short format_filename_dot)

theorem format_filename_8_3_witness:
  "format_filename (cstr ''longfilename.txt'') = cstr ''LONGFILE   '' \<and>
   format_filename (cstr ''a.c'') = cstr ''A       C  ''"
proof -
  have "is_cstr (cstr ''longfilename.txt'')" "is_cstr (cstr ''a.c'')" by (simp_all add: is_cstr_def cstr_def)
  moreover have "replicate 2 (0x20 :: u8) = [0x20, 0x20]" "replicate 3 (0x20 :: u8) = [0x20, 0x20, 0x20]"
    "replicate 7 (0x20 :: u8) = [0x20, 0x20, 0x20, 0x20, 0x20, 0x20, 0x20]" by code_simp+
  ultimately show ?thesis
    using format_filename_8_3 [of "cstr ''longfilename.txt''"] format_filename_8_3 [of "cstr ''a.c''"]
    by (simp add: cstr_def short_name_def base_part_def ext_part_def space_pad_def strupper_def upper_char_def)
qed

text \<open>
  a name that fits the 8.3 form is listed as it was typed, in upper case: \<open>print_name\<close>
  inverts \<open>format_filename\<close> up to case.
\<close>

theorem listed_name_roundtrip:
  "plain_name input \<Longrightarrow> hd input \<noteq> 0xE5 \<Longrightarrow>
   tty (print_name (format_filename input) st) = tty st @ strupper input @ [0x0A]"
proof -
  assume p: "plain_name input" and e5: "hd input \<noteq> 0xE5"
  have c: "is_cstr input" "base_part input \<noteq> []" using p by (auto simp: plain_name_def)
  then have "format_filename input = short_name input"
    by (intro format_filename_short) (auto simp: base_part_def)
  moreover have "short_name input ! 0 \<noteq> 0xE5" using e5 c by (simp add: short_name_first)
  moreover have "is_cstr (strupper input)"
    using c by (auto simp: is_cstr_def strupper_def)
  ultimately show ?thesis
    using p by (simp add: print_name_def console_print_def display_short_name cstr_of_id)
qed

theorem listed_name_roundtrip_witness:
  "tty (print_name (format_filename (cstr ''readme.md'')) blank_volume) = cstr ''README.MD'' @ [0x0A]"
proof -
  have "plain_name (cstr ''readme.md'')" "hd (cstr ''readme.md'') \<noteq> 0xE5"
    by (simp_all add: plain_name_def is_cstr_def cstr_def base_part_def ext_part_def)
  from listed_name_roundtrip [OF this, of blank_volume] show ?thesis
    by (simp add: cstr_def strupper_def upper_char_def blank_volume_def)
qed

end
