(* ===== verification/Fat32_Slots.thy ===== *)
theory Fat32_Slots
  imports Fat32_Names
begin

text \<open>
  A directory of \<open>src/kernel/fs/fat32.c\<close> as a sequence of slots: the triple loop with which
  every directory operation visits the clusters, sectors and entries of a directory, and the
  view of a directory as the list of its slots. The locale \<open>entry_slots\<close> states what a store
  of directory entries promises; it is interpreted on the slots of the disk.
\<close>

unbundle bit_operations_syntax

section \<open>Scanning a directory\<close>

text \<open>
  The triple loop over the clusters of a directory, the sectors of a cluster and the 16 entries
  of a sector. \<open>body c s buffer i\<close> sees the sector \<open>s\<close> of cluster \<open>c\<close> in \<open>buffer\<close> and works on
  entry \<open>i\<close>.
\<close>

definition scan_cluster ::
  "fat_state \<Rightarrow> (u32 \<Rightarrow> nat \<Rightarrow> u8 list \<Rightarrow> nat \<Rightarrow> 'a \<Rightarrow> ('a, 'r) flow) \<Rightarrow> u32 \<Rightarrow> 'a \<Rightarrow> ('a, 'r) flow" where
  "scan_cluster st body c =
     for_each (\<lambda>s acc. let buffer = read_sector_of st c s in for_each (body c s buffer) [0..<16] acc)
       [0..<unat (sectors_per_cluster (fs st))]"

definition scan_dir ::
  "fat_state \<Rightarrow> u32 \<Rightarrow> (u32 \<Rightarrow> nat \<Rightarrow> u8 list \<Rightarrow> nat \<Rightarrow> 'a \<Rightarrow> ('a, 'r) flow) \<Rightarrow> 'a \<Rightarrow> ('a, 'r) flow option" where
  "scan_dir st c body acc =
     cluster_loop 0x0FFFFFF8 (fat32_next_cluster st) (scan_cluster st body) c acc"

text \<open>The value of a finished loop: what it returned, or \<open>f\<close> of what it fell through with.\<close>

definition flow_result :: "('a \<Rightarrow> 'r) \<Rightarrow> ('a, 'r) flow \<Rightarrow> 'r" where
  "flow_result f fl = (case fl of Go acc \<Rightarrow> f acc | Done r \<Rightarrow> r)"

text \<open>The byte-by-byte comparison of two names in \<open>fat32_delete_file\<close> and \<open>fat32_rmdir\<close>.\<close>

definition names_match :: "u8 list \<Rightarrow> u8 list \<Rightarrow> bool" where
  "names_match a b \<longleftrightarrow> list_all (\<lambda>j. a ! j = b ! j) [0..<11]"

section \<open>Slots\<close>

text \<open>A slot is a cluster, a sector of the cluster and the index of an entry in the sector.\<close>

type_synonym slot = "u32 \<times> nat \<times> nat"

definition dir_slots :: "fat_state \<Rightarrow> u32 list \<Rightarrow> slot list" where
  "dir_slots st cl = concat (map (\<lambda>c. concat (map (\<lambda>s. map (\<lambda>i. (c, s, i)) [0..<16])
     [0..<unat (sectors_per_cluster (fs st))])) cl)"

definition slot_entry :: "fat_state \<Rightarrow> slot \<Rightarrow> fat32_dir_entry" where
  "slot_entry st sl = (case sl of (c, s, i) \<Rightarrow> get_entry (read_sector_of st c s) i)"

definition set_slot :: "slot \<Rightarrow> fat32_dir_entry \<Rightarrow> fat_state \<Rightarrow> fat_state" where
  "set_slot sl e st = (case sl of (c, s, i) \<Rightarrow> write_sector_of c s (put_entry (read_sector_of st c s) i e) st)"

text \<open>A slot that a new entry may take: the end of the directory or a deleted entry.\<close>

definition free_entry :: "fat32_dir_entry \<Rightarrow> bool" where
  "free_entry e \<longleftrightarrow> entry_end e \<or> entry_deleted e"

text \<open>
  The slots in use: those before the first unused entry that are not deleted. The listed ones
  are those that are not part of a long name.
\<close>

definition used_slots :: "fat_state \<Rightarrow> u32 list \<Rightarrow> slot list" where
  "used_slots st cl = filter (\<lambda>sl. \<not> entry_deleted (slot_entry st sl))
     (takeWhile (\<lambda>sl. \<not> entry_end (slot_entry st sl)) (dir_slots st cl))"

definition listing :: "('k \<Rightarrow> fat32_dir_entry) \<Rightarrow> 'k list \<Rightarrow> 'k list" where
  "listing ent ks = filter (\<lambda>k. \<not> entry_deleted (ent k) \<and> de_attr (ent k) \<noteq> 0x0F)
     (takeWhile (\<lambda>k. \<not> entry_end (ent k)) ks)"

definition listed_slots :: "fat_state \<Rightarrow> u32 list \<Rightarrow> slot list" where
  "listed_slots st cl = listing (slot_entry st) (dir_slots st cl)"

text \<open>The first listed slot, and the first used slot, with a given name.\<close>

definition lookup_slot :: "fat_state \<Rightarrow> u32 list \<Rightarrow> u8 list \<Rightarrow> slot option" where
  "lookup_slot st cl n = find (\<lambda>sl. de_name (slot_entry st sl) = n) (listed_slots st cl)"

definition named_slot :: "fat_state \<Rightarrow> u32 list \<Rightarrow> u8 list \<Rightarrow> slot option" where
  "named_slot st cl n = find (\<lambda>sl. de_name (slot_entry st sl) = n) (used_slots st cl)"

text \<open>The directory that starts at cluster \<open>c\<close> has the clusters \<open>cl\<close>, all of them in the data area.\<close>

definition dir_at :: "fat_state \<Rightarrow> u32 \<Rightarrow> u32 list \<Rightarrow> bool" where
  "dir_at st c cl \<longleftrightarrow> geometry (fs st) \<and> chain (fat32_next_cluster st) c cl \<and> (\<forall>x \<in> set cl. data_cluster (fs st) x)"

text \<open>Volumes with one directory entry, for the concrete inputs of the theorems.\<close>

definition one_entry_volume :: "fat32_dir_entry \<Rightarrow> fat_state" where
  "one_entry_volume e = set_slot (2, 0, 0) e (fat32_set_next_cluster 3 0x0FFFFFFF blank_volume)"

definition sample_entry :: "u8 list \<Rightarrow> u8 \<Rightarrow> fat32_dir_entry" where
  "sample_entry n a = set_entry_cluster 3 ((get_entry (replicate 512 0) 0)\<lparr>de_name := n, de_attr := a\<rparr>)"

abbreviation "name_a \<equiv> (0x41 # replicate 10 0x20 :: u8 list)"

section \<open>The interface of a store of entries\<close>

text \<open>
  Writing an entry changes its slot only, a valid list of slots has no duplicates, and names
  have eleven bytes. These laws give the two facts the directory operations rest on: marking an
  entry deleted removes it, and nothing else, from the listing; an entry put into the first
  free slot is found under its name.
\<close>

locale entry_slots =
  fixes ent :: "'s \<Rightarrow> 'k \<Rightarrow> fat32_dir_entry"
    and put :: "'k \<Rightarrow> fat32_dir_entry \<Rightarrow> 's \<Rightarrow> 's"
    and slots_ok :: "'s \<Rightarrow> 'k list \<Rightarrow> bool"
  assumes ent_put: "slots_ok st ks \<Longrightarrow> k \<in> set ks \<Longrightarrow> k' \<in> set ks \<Longrightarrow> length (de_name e) = 11 \<Longrightarrow>
      ent (put k e st) k' = (if k' = k then e else ent st k')"
    and slots_distinct: "slots_ok st ks \<Longrightarrow> distinct ks"
    and slot_name: "slots_ok st ks \<Longrightarrow> k \<in> set ks \<Longrightarrow> length (de_name (ent st k)) = 11"
begin

lemma listing_delete:
  assumes ok: "slots_ok st ks" and k: "k \<in> set ks" and e: "\<not> entry_end (ent st k)"
  shows "listing (ent (put k ((ent st k)\<lparr>de_name := (de_name (ent st k))[0 := 0xE5]\<rparr>) st)) ks =
    remove1 k (listing (ent st) ks)"
proof -
  let ?e = "(ent st k)\<lparr>de_name := (de_name (ent st k))[0 := 0xE5]\<rparr>"
  have len: "length (de_name (ent st k)) = 11" using ok k by (rule slot_name)
  have new: "ent (put k ?e st) x = (if x = k then ?e else ent st x)" if "x \<in> set ks" for x
    using ent_put [OF ok k that, of ?e] len by simp
  have d: "entry_deleted ?e" "\<not> entry_end ?e" using len by (simp_all add: entry_deleted_def entry_end_def)
  show ?thesis
    unfolding listing_def using slots_distinct [OF ok] e
    by (intro filter_takeWhile_mark) (auto simp: new d)
qed

lemma lookup_put:
  assumes ok: "slots_ok st ks" and n: "find (\<lambda>k. de_name (ent st k) = de_name e) (listing (ent st) ks) = None"
    and k: "find (\<lambda>k. free_entry (ent st k)) ks = Some k"
    and e: "length (de_name e) = 11" "\<not> free_entry e" "de_attr e \<noteq> 0x0F"
  shows "find (\<lambda>x. de_name (ent (put k e st) x) = de_name e) (listing (ent (put k e st)) ks) = Some k"
proof -
  let ?n = "ent (put k e st)"
  from k obtain pre post where s: "ks = pre @ k # post"
    and pre: "\<forall>x \<in> set pre. \<not> free_entry (ent st x)" by (rule find_split)
  have new: "?n k = e" and old: "\<forall>x \<in> set pre. ?n x = ent st x"
    using ent_put [OF ok _ _ e(1)] slots_distinct [OF ok] s by auto
  have "\<forall>x \<in> set pre. \<not> (\<not> entry_deleted (ent st x) \<and> de_attr (ent st x) \<noteq> 0x0F \<and> de_name (ent st x) = de_name e)"
    using n pre unfolding listing_def s find_filter find_None_iff by (auto simp: free_entry_def)
  then have "find (\<lambda>x. (\<not> entry_deleted (?n x) \<and> de_attr (?n x) \<noteq> 0x0F) \<and> de_name (?n x) = de_name e) (pre @ k # ys) = Some k" for ys
    using old new e by (induction pre) (auto simp: free_entry_def)
  moreover have "takeWhile (\<lambda>x. \<not> entry_end (?n x)) ks = pre @ k # takeWhile (\<lambda>x. \<not> entry_end (?n x)) post"
    using old new pre e unfolding s by (auto simp: free_entry_def)
  ultimately show ?thesis unfolding listing_def find_filter by simp
qed

end

section \<open>Lemmas: the scan visits the slots in order\<close>

lemma listed_slots_alt: "listed_slots st cl = filter (\<lambda>sl. de_attr (slot_entry st sl) \<noteq> 0x0F) (used_slots st cl)"
  by (simp add: listed_slots_def listing_def used_slots_def conj_commute)

lemma slot_entry_simp [simp]: "slot_entry st (c, s, i) = get_entry (read_sector_of st c s) i"
  by (simp add: slot_entry_def)

lemma dir_slots_Cons: "dir_slots st (c # cl) = dir_slots st [c] @ dir_slots st cl"
  by (simp add: dir_slots_def)

lemma dir_slots_Nil [simp]: "dir_slots st [] = []"
  by (simp add: dir_slots_def)

lemma scan_cluster_slots:
  "scan_cluster st body c acc =
   for_each (\<lambda>(c, s, i). body c s (read_sector_of st c s) i) (dir_slots st [c]) acc"
  unfolding scan_cluster_def dir_slots_def
  by (auto simp: for_each_concat for_each_map Let_def intro!: for_each_cong)

lemma for_each_scan:
  "for_each (scan_cluster st body) cl acc =
   for_each (\<lambda>(c, s, i). body c s (read_sector_of st c s) i) (dir_slots st cl) acc"
proof (induction cl arbitrary: acc)
  case (Cons c cl)
  then show ?case
    by (subst dir_slots_Cons) (simp add: for_each_append scan_cluster_slots [symmetric] split: flow.split)
qed simp

lemma scan_dir_slots:
  assumes "chain (fat32_next_cluster st) c cl"
  shows "scan_dir st c body acc =
    Some (for_each (\<lambda>(c, s, i). body c s (read_sector_of st c s) i) (dir_slots st cl) acc)"
  by (simp add: scan_dir_def cluster_loop_chain [OF assms] for_each_scan)

lemma dir_slots_set:
  "sl \<in> set (dir_slots st cl) \<longleftrightarrow>
   (case sl of (c, s, i) \<Rightarrow> c \<in> set cl \<and> s < unat (sectors_per_cluster (fs st)) \<and> i < 16)"
  by (cases sl) (auto simp: dir_slots_def image_iff)

lemma dir_slots_distinct: "distinct cl \<Longrightarrow> distinct (dir_slots st cl)"
proof (induction cl)
  case (Cons c cl)
  have "distinct (dir_slots st [c])"
    unfolding dir_slots_def list.map concat.simps append_Nil2
    by (rule distinct_concat) (auto simp: distinct_map inj_on_def, metis zero_less_numeral)
  moreover have "set (dir_slots st [c]) \<inter> set (dir_slots st cl) = {}"
    using Cons.prems by (auto simp: dir_slots_set)
  ultimately show ?case using Cons by (subst dir_slots_Cons) simp
qed simp

lemma dir_slots_cong: "fs st = fs st' \<Longrightarrow> dir_slots st cl = dir_slots st' cl"
  by (simp add: dir_slots_def)

text \<open>Every search of the driver: the slot found is the first one before the end marker.\<close>

lemma scan_dir_search:
  assumes "chain (fat32_next_cluster st) c cl"
    and "\<And>c s i. i < 16 \<Longrightarrow> body c s (read_sector_of st c s) i () =
      (if stop (slot_entry st (c, s, i)) then Done r
       else if hit (slot_entry st (c, s, i)) then Done (h (c, s, i)) else Go ())"
  shows "scan_dir st c body () = Some
    (case find (\<lambda>sl. hit (slot_entry st sl)) (takeWhile (\<lambda>sl. \<not> stop (slot_entry st sl)) (dir_slots st cl)) of
       Some sl \<Rightarrow> Done (h sl)
     | None \<Rightarrow> if \<exists>sl \<in> set (dir_slots st cl). stop (slot_entry st sl) then Done r else Go ())"
proof -
  have "for_each (\<lambda>(c, s, i). body c s (read_sector_of st c s) i) (dir_slots st cl) () =
    for_each (\<lambda>sl _. if stop (slot_entry st sl) then Done r
       else if hit (slot_entry st sl) then Done (h sl) else Go ()) (dir_slots st cl) ()"
    by (rule for_each_cong) (auto simp: dir_slots_set assms(2))
  then show ?thesis by (simp only: scan_dir_slots [OF assms(1)] for_each_search)
qed

lemma lookup_slot_eq:
  "lookup_slot st cl n = find (\<lambda>sl. \<not> entry_deleted (slot_entry st sl) \<and> de_attr (slot_entry st sl) \<noteq> 0x0F \<and>
     de_name (slot_entry st sl) = n) (takeWhile (\<lambda>sl. \<not> entry_end (slot_entry st sl)) (dir_slots st cl))"
  by (simp add: lookup_slot_def listed_slots_alt used_slots_def find_filter)

section \<open>Lemmas: reading and writing slots\<close>

lemma dir_atD:
  assumes "dir_at st c cl"
  shows "geometry (fs st)" "chain (fat32_next_cluster st) c cl" "x \<in> set cl \<Longrightarrow> fat_entry_ok st x"
    "x \<in> set cl \<Longrightarrow> s < unat (sectors_per_cluster (fs st)) \<Longrightarrow> sector_ok st x s"
  using assms by (auto simp: dir_at_def fat_entry_ok_def sector_ok_def data_cluster_def)

lemma dir_slot_ok:
  "dir_at st c cl \<Longrightarrow> (c', s, i) \<in> set (dir_slots st cl) \<Longrightarrow> sector_ok st c' s \<and> i < 16"
  by (simp add: dir_slots_set dir_atD)

lemma set_slot_sel [simp]:
  "fs (set_slot sl e st) = fs st" "current_dir_cluster (set_slot sl e st) = current_dir_cluster st"
  "tty (set_slot sl e st) = tty st"
  by (cases sl, simp add: set_slot_def)+

lemma slot_entry_set_slot:
  assumes "dir_at st c cl" and "sl \<in> set (dir_slots st cl)" and "sl' \<in> set (dir_slots st cl)"
    and "length (de_name e) = 11"
  shows "slot_entry (set_slot sl e st) sl' = (if sl' = sl then e else slot_entry st sl')"
proof -
  obtain a s i where sl: "sl = (a, s, i)" by (cases sl)
  obtain a' s' i' where sl': "sl' = (a', s', i')" by (cases sl')
  note ok = dir_slot_ok [OF assms(1) assms(2) [unfolded sl]] dir_slot_ok [OF assms(1) assms(3) [unfolded sl']]
  show ?thesis
  proof (cases "(a, s) = (a', s')")
    case True
    with ok assms(4) show ?thesis
      by (auto simp: sl sl' set_slot_def vol.rds_same get_put_entry_same get_put_entry_other)
  next
    case False
    with ok show ?thesis by (auto simp: sl sl' set_slot_def vol.rds_other)
  qed
qed

lemma next_set_slot:
  assumes "dir_at st c cl" and "sl \<in> set (dir_slots st cl)" and "fat_entry_ok st x"
  shows "fat32_next_cluster (set_slot sl e st) x = fat32_next_cluster st x"
  using assms dir_slot_ok [OF assms(1)] by (cases sl) (auto simp: set_slot_def vol.nxt_wrs)

lemma dir_at_cong:
  assumes "dir_at st c cl" and "fs st' = fs st"
    and "\<And>x. x \<in> set cl \<Longrightarrow> fat32_next_cluster st' x = fat32_next_cluster st x"
  shows "dir_at st' c cl"
  using assms by (auto simp: dir_at_def chain_cong [of cl "fat32_next_cluster st'" "fat32_next_cluster st"])

lemma dir_at_set_slot:
  assumes "dir_at st c cl" and "sl \<in> set (dir_slots st cl)"
  shows "dir_at (set_slot sl e st) c' cl' \<longleftrightarrow> dir_at st c' cl'"
proof -
  have "fat32_next_cluster (set_slot sl e st) x = fat32_next_cluster st x"
    if "geometry (fs st)" "data_cluster (fs st) x" for x
    using that next_set_slot [OF assms] by (simp add: fat_entry_ok_def data_cluster_def)
  then show ?thesis
    by (auto simp: dir_at_def chain_cong [of cl' "fat32_next_cluster (set_slot sl e st)" "fat32_next_cluster st"])
qed

interpretation slots: entry_slots slot_entry set_slot "\<lambda>st ks. \<exists>c cl. dir_at st c cl \<and> ks = dir_slots st cl"
proof
  fix st ks k k' and e :: fat32_dir_entry
  assume "\<exists>c cl. dir_at st c cl \<and> ks = dir_slots st cl"
  then obtain c cl where d: "dir_at st c cl" "ks = dir_slots st cl" by blast
  show "distinct ks" using d chain_distinct [OF dir_atD(2) [OF d(1)]] by (simp add: dir_slots_distinct)
  show "length (de_name (slot_entry st k)) = 11" if "k \<in> set ks"
    using that d by (auto simp: dir_slots_set)
  show "slot_entry (set_slot k e st) k' = (if k' = k then e else slot_entry st k')"
    if "k \<in> set ks" "k' \<in> set ks" "length (de_name e) = 11"
    using slot_entry_set_slot [OF d(1)] that d(2) by blast
qed

lemma listed_slots_delete:
  assumes "dir_at st c cl" and "sl \<in> set (dir_slots st cl)" and "\<not> entry_end (slot_entry st sl)"
  shows "listed_slots (set_slot sl ((slot_entry st sl)\<lparr>de_name := (de_name (slot_entry st sl))[0 := 0xE5]\<rparr>) st) cl =
    remove1 sl (listed_slots st cl)"
proof -
  have "dir_slots (set_slot sl e st) cl = dir_slots st cl" for e by (rule dir_slots_cong) simp
  then show ?thesis unfolding listed_slots_def using assms by (auto intro!: slots.listing_delete)
qed

lemma lookup_insert:
  assumes "dir_at st c cl" and "lookup_slot st cl (de_name e) = None"
    and "find (\<lambda>sl. free_entry (slot_entry st sl)) (dir_slots st cl) = Some sl"
    and "length (de_name e) = 11" and "\<not> free_entry e" and "de_attr e \<noteq> 0x0F"
  shows "lookup_slot (set_slot sl e st) cl (de_name e) = Some sl"
proof -
  have "dir_slots (set_slot sl e st) cl = dir_slots st cl" by (rule dir_slots_cong) simp
  then show ?thesis
    using assms unfolding lookup_slot_def listed_slots_def by (auto intro!: slots.lookup_put simp del: slot_entry_simp)
qed

lemma listed_slots_subset: "set (listed_slots st cl) \<subseteq> set (dir_slots st cl)"
  by (auto simp: listed_slots_alt used_slots_def dest: set_takeWhileD)

lemma lookup_slotD:
  assumes "lookup_slot st cl n = Some sl"
  shows "sl \<in> set (dir_slots st cl)" "\<not> entry_end (slot_entry st sl)" "\<not> entry_deleted (slot_entry st sl)"
    "de_attr (slot_entry st sl) \<noteq> 0x0F" "de_name (slot_entry st sl) = n"
  using assms unfolding lookup_slot_eq find_Some_iff by (metis nth_mem set_takeWhileD)+

lemma named_slotD:
  assumes "named_slot st cl n = Some sl"
  shows "sl \<in> set (dir_slots st cl)" "\<not> entry_end (slot_entry st sl)"
  using assms unfolding named_slot_def used_slots_def find_filter find_Some_iff by (metis nth_mem set_takeWhileD)+

lemma listing_Cons: "listing ent (k # ks) =
  (if entry_end (ent k) then [] else if entry_deleted (ent k) \<or> de_attr (ent k) = 0x0F then listing ent ks
   else k # listing ent ks)"
  by (simp add: listing_def)

lemma listing_subset: "set (listing ent ks) \<subseteq> set ks"
  by (auto simp: listing_def dest: set_takeWhileD)

lemma find_listing_prefix:
  assumes "find P (listing ent1 (pre @ post)) = Some k0" and "k0 \<in> set pre" and "distinct (pre @ post)"
    and "\<And>x. x \<in> set pre \<Longrightarrow> ent2 x = ent1 x \<and> P2 x = P x"
  shows "find P2 (listing ent2 (pre @ post)) = Some k0"
  using assms
proof (induction pre)
  case (Cons x pre)
  show ?case
  proof (cases "x = k0")
    case True
    then have "k0 \<notin> set (listing ent1 (pre @ post))" using Cons.prems(3) listing_subset by fastforce
    then have "find P (listing ent1 (pre @ post)) \<noteq> Some k0" by (auto simp: find_Some_iff)
    then show ?thesis using True Cons.prems(1,4) by (auto simp: listing_Cons split: if_splits)
  next
    case False
    then show ?thesis using Cons by (auto simp: listing_Cons split: if_splits)
  qed
qed simp

text \<open>An entry put into a later free slot does not hide an entry with the same name.\<close>

lemma lookup_keeps:
  assumes d: "dir_at st c cl" and l: "lookup_slot st cl n = Some old" and e: "length (de_name e) = 11"
    and sl: "find (\<lambda>sl. free_entry (slot_entry st sl)) (dir_slots st cl) = Some sl"
    and old: "old \<in> set (takeWhile (\<lambda>sl. \<not> free_entry (slot_entry st sl)) (dir_slots st cl))"
  shows "lookup_slot (set_slot sl e st) cl n = Some old" "slot_entry (set_slot sl e st) old = slot_entry st old"
proof -
  let ?st = "set_slot sl e st"
  from sl obtain pre post where s: "dir_slots st cl = pre @ sl # post"
    and pre: "\<forall>x \<in> set pre. \<not> free_entry (slot_entry st x)" and fsl: "free_entry (slot_entry st sl)" by (rule find_split)
  have dst: "distinct (pre @ sl # post)" using dir_slots_distinct [OF chain_distinct [OF dir_atD(2) [OF d]], of st] s by simp
  have o: "old \<in> set pre" using old pre fsl by (simp add: s takeWhile_append2)
  have same: "slot_entry ?st x = slot_entry st x" if "x \<in> set pre" for x
    using slot_entry_set_slot [OF d _ _ e, of sl x] that dst s by auto
  show "slot_entry ?st old = slot_entry st old" using same o by blast
  have "dir_slots ?st cl = dir_slots st cl" by (rule dir_slots_cong) simp
  then show "lookup_slot ?st cl n = Some old"
    using find_listing_prefix [OF _ o dst, of _ "slot_entry st" "slot_entry ?st"] l same
    unfolding lookup_slot_def listed_slots_def s by simp
qed

text \<open>The view of a directory depends on its slots only.\<close>

lemma listed_slots_cong:
  assumes "fs st' = fs st" and "\<And>sl. sl \<in> set (dir_slots st cl) \<Longrightarrow> slot_entry st' sl = slot_entry st sl"
  shows "listed_slots st' cl = listed_slots st cl"
  unfolding listed_slots_alt used_slots_def filter_filter dir_slots_cong [OF assms(1)]
  using assms(2) takeWhile_cong [of "dir_slots st cl" "dir_slots st cl" "\<lambda>sl. \<not> entry_end (slot_entry st' sl)"
      "\<lambda>sl. \<not> entry_end (slot_entry st sl)"]
  by (auto intro!: filter_cong dest: set_takeWhileD)

lemma lookup_slot_cong:
  assumes "fs st' = fs st" and "\<And>sl. sl \<in> set (dir_slots st cl) \<Longrightarrow> slot_entry st' sl = slot_entry st sl"
  shows "lookup_slot st' cl n = lookup_slot st cl n"
proof -
  have "slot_entry st' sl = slot_entry st sl" if "sl \<in> set (listed_slots st cl)" for sl
    using that listed_slots_subset assms(2) by blast
  then show ?thesis
    unfolding lookup_slot_def using listed_slots_cong [OF assms] by (intro find_cong) simp_all
qed

lemma console_print_view [simp]:
  "slot_entry (console_print m st) = slot_entry st"
  "dir_slots (console_print m st) = dir_slots st"
  "listed_slots (console_print m st) = listed_slots st"
  "lookup_slot (console_print m st) = lookup_slot st"
  "dir_at (console_print m st) = dir_at st"
proof -
  show 1: "slot_entry (console_print m st) = slot_entry st" "dir_slots (console_print m st) = dir_slots st"
    by (simp_all add: fun_eq_iff dir_slots_def)
  show 2: "listed_slots (console_print m st) = listed_slots st" by (simp add: fun_eq_iff 1 listed_slots_def)
  show "lookup_slot (console_print m st) = lookup_slot st" by (simp add: fun_eq_iff 1 2 lookup_slot_def)
  show "dir_at (console_print m st) = dir_at st" by (simp add: fun_eq_iff dir_at_def)
qed

lemma cwd_view [simp]:
  "fat32_next_cluster (st\<lparr>current_dir_cluster := c\<rparr>) = fat32_next_cluster st"
  "read_sector_of (st\<lparr>current_dir_cluster := c\<rparr>) = read_sector_of st"
  "slot_entry (st\<lparr>current_dir_cluster := c\<rparr>) = slot_entry st"
  "dir_slots (st\<lparr>current_dir_cluster := c\<rparr>) = dir_slots st"
  "dir_at (st\<lparr>current_dir_cluster := c\<rparr>) = dir_at st"
  "lookup_slot (st\<lparr>current_dir_cluster := c\<rparr>) = lookup_slot st"
proof -
  show 1: "read_sector_of (st\<lparr>current_dir_cluster := c\<rparr>) = read_sector_of st"
    "dir_slots (st\<lparr>current_dir_cluster := c\<rparr>) = dir_slots st"
    "fat32_next_cluster (st\<lparr>current_dir_cluster := c\<rparr>) = fat32_next_cluster st"
    by (simp_all add: fun_eq_iff read_sector_of_def cluster_to_sector_def dir_slots_def fat32_next_cluster_def)
  show 2: "slot_entry (st\<lparr>current_dir_cluster := c\<rparr>) = slot_entry st" by (simp add: fun_eq_iff 1)
  show "dir_at (st\<lparr>current_dir_cluster := c\<rparr>) = dir_at st" by (simp add: fun_eq_iff dir_at_def 1)
  show "lookup_slot (st\<lparr>current_dir_cluster := c\<rparr>) = lookup_slot st"
    by (simp add: fun_eq_iff lookup_slot_def listed_slots_alt used_slots_def 1 2)
qed

lemma memcmp_names: "length a = 11 \<Longrightarrow> length b = 11 \<Longrightarrow> memcmp a b 0 11 = 0 \<longleftrightarrow> a = b"
  by (auto simp: memcmp_0_iff list_eq_iff_nth_eq)

lemma names_match_iff: "length a = 11 \<Longrightarrow> length b = 11 \<Longrightarrow> names_match a b \<longleftrightarrow> a = b"
  by (auto simp: names_match_def list_all_iff list_eq_iff_nth_eq)

section \<open>Lemmas: the sample volumes\<close>

lemma zero_entry_end: "i < 16 \<Longrightarrow> entry_end (get_entry (replicate 512 0) i)"
  by (simp add: entry_end_def get_entry_def Let_def)

lemma blank_dir: "dir_at blank_volume 2 [2]"
  by (simp add: dir_at_def in_chain_def blank_next data_cluster_def)

lemma blank_slots: "dir_slots blank_volume [c] = map (\<lambda>i. (c, 0, i)) [0..<16]"
  by (simp add: dir_slots_def)

lemma blank_entry: "i < 16 \<Longrightarrow> slot_entry blank_volume (2, 0, i) = get_entry (replicate 512 0) i"
  by (simp add: blank_sector)

lemma blank_lookup: "lookup_slot blank_volume [2] n = None"
proof -
  have "takeWhile (\<lambda>sl. \<not> entry_end (slot_entry blank_volume sl)) (dir_slots blank_volume [2]) = []"
    using zero_entry_end [of 0] blank_entry [of 0] unfolding blank_slots by (simp add: upt_rec del: slot_entry_simp)
  then show ?thesis by (simp add: lookup_slot_eq)
qed

lemma blank_free_slot: "find (\<lambda>sl. free_entry (slot_entry blank_volume sl)) (dir_slots blank_volume [2]) = Some (2, 0, 0)"
  using zero_entry_end [of 0] blank_entry [of 0] unfolding blank_slots
  by (simp add: upt_rec free_entry_def del: slot_entry_simp)

lemma takeWhile_map_first:
  "\<not> P (f 1) \<Longrightarrow> P (f 0) \<Longrightarrow> takeWhile P (map f [0..<16]) = [f 0]"
  by (simp add: upt_rec)

lemma one_entry_facts:
  assumes "length (de_name e) = 11"
  shows "fs (one_entry_volume e) = fs blank_volume" "current_dir_cluster (one_entry_volume e) = 2"
    "dir_slots (one_entry_volume e) = dir_slots blank_volume"
    "i < 16 \<Longrightarrow> slot_entry (one_entry_volume e) (2, 0, i) = (if i = 0 then e else get_entry (replicate 512 0) i)"
    "dir_at (one_entry_volume e) 2 [2]" "dir_at (one_entry_volume e) 3 [3]"
    "i < 16 \<Longrightarrow> slot_entry (one_entry_volume e) (3, 0, i) = get_entry (replicate 512 0) i"
proof -
  let ?s = "fat32_set_next_cluster 3 0x0FFFFFFF blank_volume"
  show fs: "fs (one_entry_volume e) = fs blank_volume" and "current_dir_cluster (one_entry_volume e) = 2"
    by (simp_all add: one_entry_volume_def)
  then show ds: "dir_slots (one_entry_volume e) = dir_slots blank_volume" by (simp add: dir_slots_def fun_eq_iff)
  have nx: "fat32_next_cluster ?s c = (if c < 4 then 0x0FFFFFFF else 0)" if "unat c < 128" for c
    using that ft.nxt_setn [of blank_volume 3 c "0x0FFFFFFF"] blank_next [of c] by (auto simp: word_less_nat_alt) unat_arith
  have d: "dir_at ?s 2 [2]" "dir_at ?s 3 [3]"
    by (simp_all add: dir_at_def in_chain_def nx data_cluster_def)
  have m: "(2, 0, i) \<in> set (dir_slots ?s [2])" if "i < 16" for i using that by (simp add: dir_slots_set)
  have r: "read_sector_of ?s c 0 = replicate 512 0" if "c = 2 \<or> c = 3" for c
    using that by (auto simp: vol.rds_setn blank_sector)
  show "slot_entry (one_entry_volume e) (2, 0, i) = (if i = 0 then e else get_entry (replicate 512 0) i)" if "i < 16"
    using slot_entry_set_slot [OF d(1) m [of 0] m [OF that] assms] r [of 2]
    by (simp add: one_entry_volume_def)
  show "dir_at (one_entry_volume e) 2 [2]" "dir_at (one_entry_volume e) 3 [3]"
    using d dir_at_set_slot [OF d(1) m, of 0] by (simp_all add: one_entry_volume_def)
  show "slot_entry (one_entry_volume e) (3, 0, i) = get_entry (replicate 512 0) i" if "i < 16"
    using r by (simp add: one_entry_volume_def set_slot_def vol.rds_other vol.slot_ok_setn)
qed

lemma one_entry_listed:
  assumes "length (de_name e) = 11" and "\<not> free_entry e"
  shows "used_slots (one_entry_volume e) [2] = [(2, 0, 0)]"
proof -
  note f = one_entry_facts [OF assms(1)]
  have "takeWhile (\<lambda>sl. \<not> entry_end (slot_entry (one_entry_volume e) sl)) (dir_slots (one_entry_volume e) [2]) = [(2, 0, 0)]"
    unfolding f(3) blank_slots
    by (rule takeWhile_map_first) (use assms zero_entry_end [of 1] in \<open>simp_all add: f(4) free_entry_def del: slot_entry_simp\<close>)
  then show ?thesis using assms by (simp add: used_slots_def f(4) free_entry_def del: slot_entry_simp)
qed

lemma sample_entry_facts:
  "length n = 11 \<Longrightarrow> length (de_name (sample_entry n a)) = 11" "de_name (sample_entry n a) = n"
  "de_attr (sample_entry n a) = a" "entry_cluster (sample_entry n a) = 3"
  "free_entry (sample_entry n a) \<longleftrightarrow> n ! 0 = 0 \<or> n ! 0 = 0xE5"
  by (simp_all add: sample_entry_def free_entry_def entry_end_def entry_deleted_def)

lemma one_lookup:
  assumes "length n = 11" and "n ! 0 \<noteq> 0" and "n ! 0 \<noteq> 0xE5" and "a \<noteq> 0x0F"
  shows "listed_slots (one_entry_volume (sample_entry n a)) [2] = [(2, 0, 0)]"
    and "lookup_slot (one_entry_volume (sample_entry n a)) [2] n = Some (2, 0, 0)"
    and "named_slot (one_entry_volume (sample_entry n a)) [2] n = Some (2, 0, 0)"
    and "slot_entry (one_entry_volume (sample_entry n a)) (2, 0, 0) = sample_entry n a"
proof -
  note e = sample_entry_facts [of n a]
  show s: "slot_entry (one_entry_volume (sample_entry n a)) (2, 0, 0) = sample_entry n a"
    using one_entry_facts(4) [OF e(1) [OF assms(1)], of 0] by simp
  have u: "used_slots (one_entry_volume (sample_entry n a)) [2] = [(2, 0, 0)]"
    using assms e by (intro one_entry_listed) simp_all
  show l: "listed_slots (one_entry_volume (sample_entry n a)) [2] = [(2, 0, 0)]"
    using s assms(4) e(3) unfolding listed_slots_alt u by (simp del: slot_entry_simp)
  show "lookup_slot (one_entry_volume (sample_entry n a)) [2] n = Some (2, 0, 0)"
    "named_slot (one_entry_volume (sample_entry n a)) [2] n = Some (2, 0, 0)"
    using s e(2) unfolding lookup_slot_def l named_slot_def u by (simp_all del: slot_entry_simp)
qed

lemma format_a: "format_filename (cstr ''a'') = cstr ''A          ''"
  by code_simp

lemma cstr_a: "cstr ''A          '' = 0x41 # replicate 10 0x20" "is_cstr (cstr ''a'')" "cstr ''a'' \<noteq> []"
  by code_simp+

lemma format_a': "format_filename (cstr ''a'') = name_a"
  using format_a cstr_a by simp

lemma blank_free_exists: "\<exists>sl \<in> set (dir_slots blank_volume [2]). free_entry (slot_entry blank_volume sl)"
  using blank_free_slot by (auto simp: find_Some_iff simp del: slot_entry_simp)

lemma name_a_ok: "format_filename (cstr ''a'') ! 0 \<noteq> 0xE5"
  by (simp add: format_a')

end
