(* ===== verification/Fat32_Dir.thy ===== *)
theory Fat32_Dir
  imports Fat32_Slots
begin

text \<open>
  Directories of the FAT32 driver (\<open>src/kernel/fs/fat32.c\<close>): listing, lookup, creation and
  removal, path resolution and the working directory. An operation has the result type
  \<open>option\<close> where a loop of it follows links of the disk: \<open>None\<close> is a call that never returns.
\<close>

unbundle bit_operations_syntax

section \<open>Listing and lookup\<close>

definition fat32_ls :: "fat_state \<Rightarrow> fat_state option" where
  "fat32_ls st =
     map_option (flow_result id)
       (scan_dir st (current_dir_cluster st)
         (\<lambda>c s buffer i st'. let e = get_entry buffer i in
            if entry_end e then Done st'
            else if entry_deleted e then Go st'
            else if de_attr e = 0x0F then Go st'
            else Go (print_name (de_name e) st'))
         st)"

text \<open>The inner \<open>Some\<close> is the entry found, the inner \<open>None\<close> the null pointer.\<close>

definition fat32_find_file :: "fat_state \<Rightarrow> u8 list \<Rightarrow> fat32_dir_entry option option" where
  "fat32_find_file st filename =
     (let search_name = format_filename filename in
      map_option (flow_result (\<lambda>_. None))
        (scan_dir st (current_dir_cluster st)
          (\<lambda>c s buffer i (_ :: unit). let e = get_entry buffer i in
             if entry_end e then Done None
             else if entry_deleted e then Go ()
             else if de_attr e = 0x0F then Go ()
             else if memcmp (de_name e) search_name 0 11 = 0 then Done (Some e)
             else Go ())
          ()))"

section \<open>Deletion of files\<close>

definition fat32_delete_file :: "fat_state \<Rightarrow> u8 list \<Rightarrow> fat_state option" where
  "fat32_delete_file st filename =
     (let search_name = format_filename filename in
      Option.bind
        (scan_dir st (current_dir_cluster st)
          (\<lambda>c s dir_buffer i (_ :: unit). let e = get_entry dir_buffer i in
             if entry_end e then Done (Some st)
             else if entry_deleted e then Go ()
             else if names_match (de_name e) search_name \<and> de_attr e \<noteq> 0x0F then
               Done (map_option
                 (write_sector_of c s (put_entry dir_buffer i (e\<lparr>de_name := (de_name e)[0 := 0xE5]\<rparr>)))
                 (clear_chain (entry_cluster e) st))
             else Go ())
          ())
        (flow_result (\<lambda>_. Some st)))"

section \<open>Creation of directories\<close>

definition ATTR_DIRECTORY :: u8 where
  "ATTR_DIRECTORY = 0x10"

definition init_directory_cluster :: "u32 \<Rightarrow> u32 \<Rightarrow> fat_state \<Rightarrow> fat_state" where
  "init_directory_cluster current_cluster parent_cluster st =
     (let buffer = memset (replicate 512 0) 0 0 512;
          dot = set_entry_cluster current_cluster
            ((get_entry buffer 0)\<lparr>de_name := (replicate 11 0x20)[0 := 0x2E],
               de_attr := ATTR_DIRECTORY, de_file_size := 0\<rparr>);
          p_cluster = (if parent_cluster = root_cluster (fs st) then 0 else parent_cluster);
          dotdot = set_entry_cluster p_cluster
            ((get_entry buffer 1)\<lparr>de_name := (replicate 11 0x20)[0 := 0x2E, 1 := 0x2E],
               de_attr := ATTR_DIRECTORY, de_file_size := 0\<rparr>);
          st1 = write_sector_of current_cluster 0 (put_entry (put_entry buffer 0 dot) 1 dotdot) st
      in for_all (\<lambda>s. write_sector_of current_cluster s (memset buffer 0 0 512))
           [1..<unat (sectors_per_cluster (fs st))] st1)"

text \<open>
  The search for a slot of the parent directory repeats the first cluster: the loop of
  \<open>fat32_create_directory\<close> does not advance \<open>dir_cluster\<close>.
\<close>

definition fat32_create_directory :: "fat_state \<Rightarrow> u8 list \<Rightarrow> fat_state option" where
  "fat32_create_directory st dirname =
     Option.bind (fat32_find_file st dirname)
       (\<lambda>found. case found of
          Some _ \<Rightarrow> Some (console_print (cstr ''Directory or file already exists'') st)
        | None \<Rightarrow>
            (let new_cluster = fat32_find_free_cluster st in
             if new_cluster = 0x0FFFFFFF then Some (console_print (cstr ''Error: Disk Full.'' @ [0x0A]) st)
             else
               (let st1 = fat32_set_next_cluster new_cluster 0x0FFFFFFF st;
                    st2 = init_directory_cluster new_cluster (current_dir_cluster st1) st1
                in map_option (flow_result (\<lambda>_. st2))
                     (cluster_loop 0x0FFFFFF8 (\<lambda>dir_cluster. dir_cluster)
                       (scan_cluster st2
                         (\<lambda>c s dir_buffer i (_ :: unit). let e = get_entry dir_buffer i in
                            if entry_end e \<or> entry_deleted e then
                              Done (console_print (cstr ''Directory created successfully.'' @ [0x0A])
                                (write_sector_of c s
                                  (put_entry dir_buffer i
                                    (set_entry_cluster new_cluster
                                      (e\<lparr>de_name := format_filename dirname, de_attr := ATTR_DIRECTORY,
                                         de_file_size := 0\<rparr>)))
                                  st2))
                            else Go ()))
                       (current_dir_cluster st2) ()))))"

section \<open>Removal of directories\<close>

text \<open>The entries that do not count as contents: unused, deleted, long names and the dot entries.\<close>

definition boilerplate :: "fat32_dir_entry \<Rightarrow> bool" where
  "boilerplate e \<longleftrightarrow> entry_end e \<or> entry_deleted e \<or> de_attr e = 0x0F \<or>
     de_name e ! 0 = 0x2E \<and>
       (de_name e ! 1 = 0x20 \<or> de_name e ! 1 = 0x2E \<and> de_name e ! 2 = 0x20)"

definition is_directory_empty :: "fat_state \<Rightarrow> u32 \<Rightarrow> bool option" where
  "is_directory_empty st dir_cluster =
     map_option (flow_result (\<lambda>_. True))
       (scan_dir st dir_cluster
         (\<lambda>c s buffer i (_ :: unit). if boilerplate (get_entry buffer i) then Go () else Done False)
         ())"

text \<open>The part of \<open>fat32_rmdir\<close> that handles the entry with the name searched for.\<close>

definition rmdir_entry :: "fat_state \<Rightarrow> u32 \<Rightarrow> nat \<Rightarrow> u8 list \<Rightarrow> nat \<Rightarrow> fat_state option" where
  "rmdir_entry st c s dir_buffer i =
     (let e = get_entry dir_buffer i in
      if de_attr e AND 0x10 = 0 then
        Some (console_print (cstr ''Error: Target path is a file, not a directory.'' @ [0x0A]) st)
      else
        Option.bind (is_directory_empty st (entry_cluster e))
          (\<lambda>empty.
            if \<not> empty then Some (console_print (cstr ''Error: Directory is not empty.'' @ [0x0A]) st)
            else
              map_option
                (\<lambda>st1. console_print (cstr ''Directory deleted successfully.'' @ [0x0A])
                   (write_sector_of c s (put_entry dir_buffer i (e\<lparr>de_name := (de_name e)[0 := 0xE5]\<rparr>)) st1))
                (clear_chain (entry_cluster e) st)))"

definition fat32_rmdir :: "fat_state \<Rightarrow> u8 list \<Rightarrow> fat_state option" where
  "fat32_rmdir st dirname =
     (let search_name = format_filename dirname in
      Option.bind
        (scan_dir st (current_dir_cluster st)
          (\<lambda>c s dir_buffer i (_ :: unit). let e = get_entry dir_buffer i in
             if entry_end e then Done (Some st)
             else if entry_deleted e then Go ()
             else if names_match (de_name e) search_name then Done (rmdir_entry st c s dir_buffer i)
             else Go ())
          ())
        (flow_result (\<lambda>_. Some st)))"

section \<open>Paths\<close>

text \<open>
  The search for one path component from the directory \<open>run_cluster\<close>. The \<open>break\<close> at an unused
  entry leaves the loop over the entries only: the next sector is still searched.
\<close>

definition find_component :: "fat_state \<Rightarrow> u32 \<Rightarrow> u8 list \<Rightarrow> u32 option option" where
  "find_component st run_cluster formatted_search =
     map_option (flow_result (\<lambda>_. None))
       (cluster_loop 0x0FFFFFF8 (fat32_next_cluster st)
         (\<lambda>c. for_each
           (\<lambda>s (_ :: unit). let buffer = read_sector_of st c s in
              case for_each
                (\<lambda>i (_ :: unit). let e = get_entry buffer i in
                   if entry_end e then Done None
                   else if entry_deleted e then Go ()
                   else if de_attr e = 0x0F then Go ()
                   else if memcmp (de_name e) formatted_search 0 11 = 0 then
                     (if de_attr e AND ATTR_DIRECTORY \<noteq> 0 then
                        Done (Some (if entry_cluster e = 0 then root_cluster (fs st) else entry_cluster e))
                      else Go ())
                   else Go ())
                [0..<16] () of
                Done (Some cluster) \<Rightarrow> Done (Some cluster)
              | Done None \<Rightarrow> Go ()
              | Go _ \<Rightarrow> Go ())
           [0..<unat (sectors_per_cluster (fs st))])
         run_cluster ())"

text \<open>The loop over the components; it ends because a component takes at least one byte.\<close>

function path_loop :: "fat_state \<Rightarrow> u8 list \<Rightarrow> nat \<Rightarrow> u32 \<Rightarrow> u32 option" where
  "path_loop st path idx cluster =
     (if cget path idx = 0 then Some cluster
      else
        (let component = snd (get_next_component path idx) in
         if cget component 0 = 0 then Some cluster
         else
           Option.bind (find_component st cluster (format_filename component))
             (\<lambda>found. case found of
                None \<Rightarrow> Some 0xFFFFFFFF
              | Some cluster' \<Rightarrow> path_loop st path (fst (get_next_component path idx)) cluster')))"
  by pat_completeness auto
termination
  by (relation "measure (\<lambda>(st, path, idx, cluster). length path - idx)")
     (auto intro!: diff_less_mono2 get_next_component_progress cget_in_range)

declare path_loop.simps [simp del]

definition fat32_get_path_cluster :: "fat_state \<Rightarrow> u8 list \<Rightarrow> u32 option" where
  "fat32_get_path_cluster st path =
     (if cget path 0 = 0x2F then path_loop st path 1 (root_cluster (fs st))
      else path_loop st path 0 (current_dir_cluster st))"

definition fat32_cd :: "fat_state \<Rightarrow> u8 list \<Rightarrow> fat_state option" where
  "fat32_cd st path =
     map_option
       (\<lambda>target_cluster.
          if target_cluster = 0xFFFFFFFF then
            console_print (cstr ''cd: No such file or directory.'' @ [0x0A]) st
          else st\<lparr>current_dir_cluster := target_cluster\<rparr>)
       (fat32_get_path_cluster st path)"

section \<open>The working directory\<close>

text \<open>The loop guard of \<open>find_dirname_in_parent\<close> is \<open>cluster < 0xFFFFFFF8\<close>, with 32 bits.\<close>

definition find_dirname_in_parent :: "fat_state \<Rightarrow> u32 \<Rightarrow> u32 \<Rightarrow> u8 list option option" where
  "find_dirname_in_parent st parent_cluster child_cluster =
     map_option (flow_result (\<lambda>_. None))
       (cluster_loop 0xFFFFFFF8 (fat32_next_cluster st)
         (scan_cluster st
           (\<lambda>c s buffer i (_ :: unit). let e = get_entry buffer i in
              if entry_end e then Done None
              else if entry_deleted e then Go ()
              else if de_attr e = 0x0F then Go ()
              else if de_attr e AND ATTR_DIRECTORY \<noteq> 0 then
                (let ec = (if entry_cluster e = 0 \<and> parent_cluster = root_cluster (fs st)
                           then root_cluster (fs st) else entry_cluster e)
                 in if ec = child_cluster then Done (Some (filter (\<lambda>b. b \<noteq> 0x20) (take 8 (de_name e))))
                    else Go ())
              else Go ()))
         parent_cluster ())"

text \<open>The climb along the \<open>..\<close> entries, at most 16 levels; \<open>None\<close> is a missing \<open>..\<close> entry.\<close>

fun pwd_climb :: "nat \<Rightarrow> fat_state \<Rightarrow> u32 \<Rightarrow> u32 list \<Rightarrow> u32 list option" where
  "pwd_climb 0 st walk_cluster cluster_stack = Some cluster_stack"
| "pwd_climb (Suc n) st walk_cluster cluster_stack =
     (if walk_cluster = root_cluster (fs st) then Some cluster_stack
      else
        (let stack = cluster_stack @ [walk_cluster];
             e = get_entry (read_sector_of st walk_cluster 0) 1
         in if de_name e ! 0 = 0x2E \<and> de_name e ! 1 = 0x2E then
              (let parent = (if entry_cluster e = 0 then root_cluster (fs st) else entry_cluster e)
               in if parent = walk_cluster then Some stack else pwd_climb n st parent stack)
            else None))"

fun pwd_descend :: "u32 \<Rightarrow> u32 list \<Rightarrow> fat_state \<Rightarrow> fat_state option" where
  "pwd_descend parent [] st = Some (console_print [0x0A] st)"
| "pwd_descend parent (child # stack) st =
     (let st1 = console_print [0x2F] st in
      Option.bind (find_dirname_in_parent st1 parent child)
        (\<lambda>found. pwd_descend child stack
           (case found of
              Some name_buffer \<Rightarrow> console_print (cstr_of name_buffer) st1
            | None \<Rightarrow> console_print (cstr ''???'') st1)))"

definition fat32_pwd :: "fat_state \<Rightarrow> fat_state option" where
  "fat32_pwd st =
     (if current_dir_cluster st = root_cluster (fs st) then Some (console_print (cstr ''/'' @ [0x0A]) st)
      else
        (case pwd_climb 16 st (current_dir_cluster st) [] of
           None \<Rightarrow> Some (console_print (cstr ''Error: Directory structure corrupted ('' @ [0x27, 0x2E, 0x2E, 0x27] @
             cstr '' missing).'' @ [0x0A]) st)
         | Some stack \<Rightarrow> pwd_descend (root_cluster (fs st)) (rev stack) st))"

section \<open>Specification\<close>

definition erased :: "fat_state \<Rightarrow> u32 list \<Rightarrow> slot \<Rightarrow> u32 list \<Rightarrow> fat_state \<Rightarrow> bool" where
  "erased st cl sl fl st' \<longleftrightarrow>
     fs st' = fs st \<and> current_dir_cluster st' = current_dir_cluster st \<and>
     listed_slots st' cl = remove1 sl (listed_slots st cl) \<and>
     (\<forall>sl' \<in> set (dir_slots st cl) - {sl}. slot_entry st' sl' = slot_entry st sl') \<and>
     (\<forall>x. unat x < fat_entries (fs st) \<longrightarrow>
        fat32_next_cluster st' x = (if x \<in> set fl then 0 else fat32_next_cluster st x)) \<and>
     (\<forall>c s. sector_ok st c s \<and> c \<notin> set cl \<longrightarrow> read_sector_of st' c s = read_sector_of st c s)"

definition dot_entry :: "u8 list \<Rightarrow> u32 \<Rightarrow> fat32_dir_entry \<Rightarrow> bool" where
  "dot_entry nm c e \<longleftrightarrow> de_name e = nm \<and> de_attr e = ATTR_DIRECTORY \<and> de_file_size e = 0 \<and> entry_cluster e = c"

definition new_directory :: "u32 \<Rightarrow> u8 list \<Rightarrow> fat32_dir_entry \<Rightarrow> fat32_dir_entry" where
  "new_directory c n e = set_entry_cluster c (e\<lparr>de_name := n, de_attr := ATTR_DIRECTORY, de_file_size := 0\<rparr>)"

definition child_cluster_of :: "fat_state \<Rightarrow> fat32_dir_entry \<Rightarrow> u32" where
  "child_cluster_of st e = (if entry_cluster e = 0 then root_cluster (fs st) else entry_cluster e)"

definition match_component :: "fat_state \<Rightarrow> u8 list \<Rightarrow> fat32_dir_entry \<Rightarrow> unit \<Rightarrow> (unit, u32 option) flow" where
  "match_component st n e u =
     (if entry_end e then Done None
      else if entry_deleted e then Go ()
      else if de_attr e = 0x0F then Go ()
      else if memcmp (de_name e) n 0 11 = 0 then
        (if de_attr e AND ATTR_DIRECTORY \<noteq> 0 then Done (Some (child_cluster_of st e)) else Go ())
      else Go ())"

fun split_path :: "u8 list \<Rightarrow> u8 list \<Rightarrow> u8 list list" where
  "split_path cur [] = (if cur = [] then [] else [cur])"
| "split_path cur (b # p) =
     (if b = 0x2F then (if cur = [] then split_path [] p else cur # split_path [] p)
      else split_path (cur @ [b]) p)"

fun resolve :: "fat_state \<Rightarrow> u32 \<Rightarrow> u8 list list \<Rightarrow> u32 option" where
  "resolve st c [] = Some c"
| "resolve st c (n # ns) =
     Option.bind (find_component st c (format_filename n))
       (\<lambda>found. case found of None \<Rightarrow> Some 0xFFFFFFFF | Some c' \<Rightarrow> resolve st c' ns)"

definition full_volume :: fat_state where
  "full_volume = write_sector_of 2 0 (replicate 512 0x41) blank_volume"

definition nested_volume :: fat_state where
  "nested_volume = (set_slot (3, 0, 1)
     (set_entry_cluster 0 ((get_entry (replicate 512 0) 1)\<lparr>de_name := (replicate 11 0x20)[0 := 0x2E, 1 := 0x2E],
        de_attr := ATTR_DIRECTORY, de_file_size := 0\<rparr>))
     (one_entry_volume (sample_entry name_a 0x10)))\<lparr>current_dir_cluster := 3\<rparr>"

section \<open>Lemmas: lookup and removal\<close>

lemma find_file_lookup:
  assumes "chain (fat32_next_cluster st) (current_dir_cluster st) cl" and "is_cstr filename"
  shows "fat32_find_file st filename =
    Some (map_option (slot_entry st) (lookup_slot st cl (format_filename filename)))"
proof -
  let ?n = "format_filename filename"
  have "memcmp (de_name (get_entry (read_sector_of st c s) i)) ?n 0 11 = 0 \<longleftrightarrow>
      de_name (get_entry (read_sector_of st c s) i) = ?n" if "i < 16" for c s i
    using that assms(2) by (intro memcmp_names) simp_all
  then show ?thesis
    unfolding fat32_find_file_def Let_def lookup_slot_eq
    by (subst scan_dir_search [OF assms(1), where stop = entry_end and r = None and h = "\<lambda>sl. Some (slot_entry st sl)"
      and hit = "\<lambda>e. \<not> entry_deleted e \<and> de_attr e \<noteq> 0x0F \<and> de_name e = ?n"])
       (use memcmp_names [of ?n ?n] assms(2) in \<open>auto simp: flow_result_def split: option.split\<close>)
qed

lemma ls_scan:
  "flow_result id (for_each (\<lambda>sl st'. if stop sl then Done st' else if skip sl then Go st'
      else if skip2 sl then Go st' else Go (h sl st')) sls st0) =
   fold h (filter (\<lambda>sl. \<not> skip2 sl) (filter (\<lambda>sl. \<not> skip sl) (takeWhile (\<lambda>sl. \<not> stop sl) sls))) st0"
  by (induction sls arbitrary: st0) (auto simp: flow_result_def)

lemma delete_file_eq:
  assumes "dir_at st (current_dir_cluster st) cl" and "is_cstr filename"
  shows "fat32_delete_file st filename =
    (case lookup_slot st cl (format_filename filename) of
       None \<Rightarrow> Some st
     | Some (c, s, i) \<Rightarrow>
         (let e = slot_entry st (c, s, i) in
          map_option (write_sector_of c s (put_entry (read_sector_of st c s) i (e\<lparr>de_name := (de_name e)[0 := 0xE5]\<rparr>)))
            (clear_chain (entry_cluster e) st)))"
proof -
  let ?n = "format_filename filename"
  let ?h = "\<lambda>(c, s, i). let e = slot_entry st (c, s, i) in
          map_option (write_sector_of c s (put_entry (read_sector_of st c s) i (e\<lparr>de_name := (de_name e)[0 := 0xE5]\<rparr>)))
            (clear_chain (entry_cluster e) st)"
  have "names_match (de_name (get_entry (read_sector_of st c s) i)) ?n \<longleftrightarrow>
      de_name (get_entry (read_sector_of st c s) i) = ?n" if "i < 16" for c s i
    using that assms(2) by (intro names_match_iff) simp_all
  then show ?thesis
    unfolding fat32_delete_file_def Let_def lookup_slot_eq
    by (subst scan_dir_search [OF dir_atD(2) [OF assms(1)], where stop = entry_end and r = "Some st" and h = ?h
      and hit = "\<lambda>e. \<not> entry_deleted e \<and> de_attr e \<noteq> 0x0F \<and> de_name e = ?n"])
       (use names_match_iff [of ?n ?n] assms(2) in \<open>auto simp: flow_result_def Let_def split: option.split\<close>)
qed

lemma read_clear_chain:
  assumes "dir_at st c fl" and "sector_ok st x s"
  shows "read_sector_of (fold (\<lambda>x. fat32_set_next_cluster x 0) fl st) x s = read_sector_of st x s"
  using assms by (intro vol.rds_fold_setn) (auto dest: dir_atD)

lemma erase_slot:
  assumes d: "dir_at st d cl" and sl: "(c, s, i) \<in> set (dir_slots st cl)"
    and e: "e = slot_entry st (c, s, i)" "\<not> entry_end e"
    and f: "dir_at st (entry_cluster e) fl" and dj: "set cl \<inter> set fl = {}"
  obtains st' where "map_option (write_sector_of c s (put_entry (read_sector_of st c s) i
      (e\<lparr>de_name := (de_name e)[0 := 0xE5]\<rparr>))) (clear_chain (entry_cluster e) st) = Some st'"
    and "erased st cl (c, s, i) fl st'" and "dir_at st' d cl" and "tty st' = tty st"
proof -
  let ?st1 = "fold (\<lambda>x. fat32_set_next_cluster x 0) fl st"
  let ?e = "e\<lparr>de_name := (de_name e)[0 := 0xE5]\<rparr>"
  let ?st' = "set_slot (c, s, i) ?e ?st1"
  have ok: "sector_ok st c s" "i < 16" using dir_slot_ok [OF d sl] by auto
  have rd: "read_sector_of ?st1 x t = read_sector_of st x t" if "sector_ok st x t" for x t
    using read_clear_chain [OF f that] .
  have se: "slot_entry ?st1 x = slot_entry st x" if "x \<in> set (dir_slots st cl)" for x
    by (cases x) (use that dir_slot_ok [OF d] rd in auto)
  have nx: "fat32_next_cluster ?st1 x = (if x \<in> set fl then 0 else fat32_next_cluster st x)"
    if "unat x < fat_entries (fs st)" for x
    using that dir_atD(1,3) [OF f] by (auto simp: ft.nxt_clear ft.nxt_fold_other fat_entry_ok_def)
  have d1: "dir_at ?st1 d cl"
    using dj nx dir_atD(3) [OF d] by (intro dir_at_cong [OF d]) (auto simp: fat_entry_ok_def)
  have s1: "(c, s, i) \<in> set (dir_slots ?st1 cl)" using sl dir_slots_cong [of ?st1 st] by simp
  have len: "length (de_name ?e) = 11" using e ok by simp
  show ?thesis
  proof (rule that [of ?st'])
    show "map_option (write_sector_of c s (put_entry (read_sector_of st c s) i ?e)) (clear_chain (entry_cluster e) st) = Some ?st'"
      using clear_chain_chain [OF dir_atD(2,3) [OF f]] rd [OF ok(1)] by (simp add: set_slot_def)
    show "dir_at ?st' d cl" using d1 by (simp add: dir_at_set_slot [OF d1 s1])
    show "tty ?st' = tty st" by simp
    have "listed_slots ?st' cl = remove1 (c, s, i) (listed_slots st cl)"
      using listed_slots_delete [OF d1 s1] se [OF sl] e listed_slots_cong [of ?st1 st cl] se by simp
    moreover have "slot_entry ?st' x = slot_entry st x" if "x \<in> set (dir_slots st cl) - {(c, s, i)}" for x
      using that slot_entry_set_slot [OF d1 s1, of x ?e] len se [of x] dir_slots_cong [of ?st1 st] by auto
    moreover have "fat32_next_cluster ?st' x = (if x \<in> set fl then 0 else fat32_next_cluster st x)"
      if "unat x < fat_entries (fs st)" for x
      using that nx next_set_slot [OF d1 s1, of x] dir_atD(1) [OF d] by (simp add: fat_entry_ok_def)
    moreover have "read_sector_of ?st' x t = read_sector_of st x t" if "sector_ok st x t" "x \<notin> set cl" for x t
    proof -
      have "c \<noteq> x" using that(2) sl by (auto simp: dir_slots_set)
      then show ?thesis using that rd ok by (simp add: set_slot_def vol.rds_other vol.slot_ok_fold)
    qed
    ultimately show "erased st cl (c, s, i) fl ?st'"
      unfolding erased_def by simp
  qed
qed

lemma erasedD:
  assumes "erased st cl sl fl st'"
  shows "listed_slots st' cl = remove1 sl (listed_slots st cl)"
    "x \<in> set fl \<Longrightarrow> unat x < fat_entries (fs st) \<Longrightarrow> fat32_next_cluster st' x = 0"
  using assms by (simp_all add: erased_def)

lemma erased_print [simp]: "erased st cl sl fl (console_print m st') \<longleftrightarrow> erased st cl sl fl st'"
  by (simp add: erased_def)

lemma is_directory_empty_eq:
  assumes "dir_at st c cl"
  shows "is_directory_empty st c = Some (\<forall>sl \<in> set (dir_slots st cl). boilerplate (slot_entry st sl))"
  unfolding is_directory_empty_def
  by (subst scan_dir_search [OF dir_atD(2) [OF assms], where stop = "\<lambda>e. \<not> boilerplate e" and r = False and h = "\<lambda>_. False"
    and hit = "\<lambda>e. False"]) (auto simp: flow_result_def find_None_iff find_Some_iff split: option.split)

lemma rmdir_eq:
  assumes "dir_at st (current_dir_cluster st) cl" and "is_cstr dirname"
  shows "fat32_rmdir st dirname =
    (case named_slot st cl (format_filename dirname) of
       None \<Rightarrow> Some st
     | Some (c, s, i) \<Rightarrow> rmdir_entry st c s (read_sector_of st c s) i)"
proof -
  let ?n = "format_filename dirname"
  have "names_match (de_name (get_entry (read_sector_of st c s) i)) ?n \<longleftrightarrow>
      de_name (get_entry (read_sector_of st c s) i) = ?n" if "i < 16" for c s i
    using that assms(2) by (intro names_match_iff) simp_all
  then show ?thesis
    unfolding fat32_rmdir_def Let_def named_slot_def used_slots_def find_filter
    by (subst scan_dir_search [OF dir_atD(2) [OF assms(1)], where stop = entry_end and r = "Some st"
      and h = "\<lambda>(c, s, i). rmdir_entry st c s (read_sector_of st c s) i"
      and hit = "\<lambda>e. \<not> entry_deleted e \<and> de_name e = ?n"])
       (use names_match_iff [of ?n ?n] assms(2) in \<open>auto simp: flow_result_def Let_def split: option.split\<close>)
qed

section \<open>Lemmas: creation\<close>

lemma console_print_dir [simp]:
  "is_directory_empty (console_print m st) = is_directory_empty st"
  by (simp add: fun_eq_iff is_directory_empty_def scan_dir_def scan_cluster_def [abs_def])

lemma init_directory_sel [simp]:
  "fs (init_directory_cluster c p st) = fs st"
  "current_dir_cluster (init_directory_cluster c p st) = current_dir_cluster st"
  "tty (init_directory_cluster c p st) = tty st"
  by (simp_all add: init_directory_cluster_def for_all_def Let_def)

lemma init_directory_next:
  assumes "geometry (fs st)" and "data_cluster (fs st) c" and "fat_entry_ok st x"
  shows "fat32_next_cluster (init_directory_cluster c p st) x = fat32_next_cluster st x"
  using assms unfolding init_directory_cluster_def for_all_def Let_def
  by (subst next_fold_write) (auto simp: vol.slot_ok_wrs vol.entry_ok_wrs sector_ok_def geometry_def intro!: vol.nxt_wrs)

lemma init_directory_other:
  assumes "geometry (fs st)" and "data_cluster (fs st) c" and "sector_ok st x s" and "x \<noteq> c"
  shows "read_sector_of (init_directory_cluster c p st) x s = read_sector_of st x s"
  using assms unfolding init_directory_cluster_def for_all_def Let_def
  by (subst read_fold_write) (auto simp: memset_zeros vol.slot_ok_wrs sector_ok_def geometry_def intro!: vol.rds_other)

lemma init_directory_entries:
  assumes "geometry (fs st)" and "data_cluster (fs st) c"
    and "s < unat (sectors_per_cluster (fs st))" and "i < 16"
  shows "if (s, i) = (0, 0) then dot_entry ((replicate 11 0x20)[0 := 0x2E]) c (slot_entry (init_directory_cluster c p st) (c, s, i))
    else if (s, i) = (0, 1) then dot_entry ((replicate 11 0x20)[0 := 0x2E, 1 := 0x2E])
      (if p = root_cluster (fs st) then 0 else p) (slot_entry (init_directory_cluster c p st) (c, s, i))
    else entry_end (slot_entry (init_directory_cluster c p st) (c, s, i))"
proof -
  have ok: "sector_ok st c t" if "t < unat (sectors_per_cluster (fs st))" for t
    using assms that by (simp add: sector_ok_def)
  define e0 where "e0 = set_entry_cluster c ((get_entry (replicate 512 0) 0)\<lparr>de_name := (replicate 11 0x20)[0 := 0x2E],
               de_attr := ATTR_DIRECTORY, de_file_size := 0\<rparr>)"
  define e1 where "e1 = set_entry_cluster (if p = root_cluster (fs st) then 0 else p)
            ((get_entry (replicate 512 0) 1)\<lparr>de_name := (replicate 11 0x20)[0 := 0x2E, 1 := 0x2E],
               de_attr := ATTR_DIRECTORY, de_file_size := 0\<rparr>)"
  have len: "length (de_name e0) = 11" "length (de_name e1) = 11" by (simp_all add: e0_def e1_def)
  define b where "b = put_entry (put_entry (replicate 512 0) 0 e0) 1 e1"
  have b: "get_entry b 0 = e0" "get_entry b 1 = e1" "i \<noteq> 0 \<Longrightarrow> i \<noteq> 1 \<Longrightarrow> get_entry b i = get_entry (replicate 512 0) i"
    using len assms(4) by (simp_all add: b_def get_put_entry_same get_put_entry_other)
  have "init_directory_cluster c p st = fold (\<lambda>s. write_sector_of c s (replicate 512 0))
      [1..<unat (sectors_per_cluster (fs st))] (write_sector_of c 0 b st)"
    unfolding init_directory_cluster_def for_all_def Let_def memset_zeros e0_def e1_def b_def by simp
  then have r: "read_sector_of (init_directory_cluster c p st) c s = (if s = 0 then b else replicate 512 0)"
    using ok [OF assms(3)] ok [of 0] ok len assms(3)
    by (subst \<open>init_directory_cluster c p st = _\<close>, subst read_fold_write)
       (auto simp: vol.slot_ok_wrs vol.rds_same b_def)
  have "dot_entry ((replicate 11 0x20)[0 := 0x2E]) c e0"
    "dot_entry ((replicate 11 0x20)[0 := 0x2E, 1 := 0x2E]) (if p = root_cluster (fs st) then 0 else p) e1"
    by (simp_all add: dot_entry_def e0_def e1_def)
  then show ?thesis
    using b zero_entry_end [OF assms(4)] unfolding slot_entry_simp r by simp
qed

lemma one_cluster_search:
  assumes "in_chain c" and "\<And>s i. i < 16 \<Longrightarrow> body c s (read_sector_of st c s) i () =
      (if free_entry (slot_entry st (c, s, i)) then Done (h (c, s, i)) else Go ())"
  shows "cluster_loop 0x0FFFFFF8 (\<lambda>c. c) (scan_cluster st body) c () =
    map_option (\<lambda>sl. Done (h sl)) (find (\<lambda>sl. free_entry (slot_entry st sl)) (dir_slots st [c]))"
proof -
  let ?f = "find (\<lambda>sl. free_entry (slot_entry st sl)) (dir_slots st [c])"
  have "scan_cluster st body c () = for_each (\<lambda>sl _. if free_entry (slot_entry st sl) then Done (h sl) else Go ()) (dir_slots st [c]) ()"
    unfolding scan_cluster_slots by (rule for_each_cong) (auto simp: dir_slots_set assms(2))
  then have s: "scan_cluster st body c () = (case ?f of Some sl \<Rightarrow> Done (h sl) | None \<Rightarrow> Go ())"
    by (simp add: for_each_find)
  show ?thesis
  proof (cases ?f)
    case None
    then have "scan_cluster st body c () = Go ()" using s by simp
    then show ?thesis using None assms(1) cluster_loop_stuck [of "scan_cluster st body" c "()"] by (simp add: in_chain_def)
  next
    case (Some sl)
    then show ?thesis using s assms(1) by (subst cluster_loop.simps) (simp add: in_chain_def)
  qed
qed

lemma create_directory_eq:
  assumes d: "dir_at st (current_dir_cluster st) (current_dir_cluster st # cl)" and n: "is_cstr dirname"
    and l: "lookup_slot st (current_dir_cluster st # cl) (format_filename dirname) = None"
    and c: "fat32_find_free_cluster st \<noteq> 0x0FFFFFFF"
    and u: "\<forall>x \<in> set (current_dir_cluster st # cl). fat32_next_cluster st x \<noteq> 0"
  shows "fat32_create_directory st dirname =
    (let c = fat32_find_free_cluster st;
         st2 = init_directory_cluster c (current_dir_cluster st) (fat32_set_next_cluster c 0x0FFFFFFF st)
     in map_option (\<lambda>sl. console_print (cstr ''Directory created successfully.'' @ [0x0A])
            (set_slot sl (new_directory c (format_filename dirname) (slot_entry st sl)) st2))
          (find (\<lambda>sl. free_entry (slot_entry st sl)) (dir_slots st [current_dir_cluster st])))"
proof -
  let ?d = "current_dir_cluster st"
  let ?c = "fat32_find_free_cluster st"
  let ?st1 = "fat32_set_next_cluster ?c 0x0FFFFFFF st"
  let ?st2 = "init_directory_cluster ?c ?d ?st1"
  let ?h = "\<lambda>sl. console_print (cstr ''Directory created successfully.'' @ [0x0A])
            (set_slot sl (new_directory ?c (format_filename dirname) (slot_entry ?st2 sl)) ?st2)"
  have g: "geometry (fs st)" using dir_atD(1) [OF d] .
  have dc: "data_cluster (fs st) ?c" "fat32_next_cluster st ?c = 0" using g c by (cases rule: find_free_cases; simp)+
  have "?c \<noteq> ?d" using dc u by auto
  then have rd: "read_sector_of ?st2 ?d s = read_sector_of st ?d s" if "s < unat (sectors_per_cluster (fs st))" for s
  proof -
    have "sector_ok st ?d s" using dir_atD(4) [OF d _ that] by simp
    moreover have "fat_entry_ok st ?c" using g dc by (simp add: fat_entry_ok_def data_cluster_def)
    ultimately show ?thesis using g dc \<open>?c \<noteq> ?d\<close>
      by (subst init_directory_other) (auto simp: vol.slot_ok_setn vol.rds_setn)
  qed
  have ds: "dir_slots ?st2 [?d] = dir_slots st [?d]" by (rule dir_slots_cong) simp
  have se: "slot_entry ?st2 sl = slot_entry st sl" if "sl \<in> set (dir_slots st [?d])" for sl
    by (cases sl) (use that rd in \<open>auto simp: dir_slots_set\<close>)
  have "in_chain ?d" using dir_atD(2) [OF d] by simp
  then have "fat32_create_directory st dirname =
     map_option ?h (find (\<lambda>sl. free_entry (slot_entry ?st2 sl)) (dir_slots ?st2 [?d]))"
    unfolding fat32_create_directory_def find_file_lookup [OF dir_atD(2) [OF d] n] l Let_def
    using c by (simp add: one_cluster_search [where h = ?h] Let_def free_entry_def set_slot_def new_directory_def
        option.map_comp comp_def flow_result_def)
  also have "find (\<lambda>sl. free_entry (slot_entry ?st2 sl)) (dir_slots ?st2 [?d]) =
      find (\<lambda>sl. free_entry (slot_entry st sl)) (dir_slots st [?d])"
    unfolding ds by (rule find_cong) (auto simp: se)
  finally show ?thesis
    unfolding Let_def using se by (auto intro!: option.map_cong0 simp: find_Some_iff)
qed

lemma boilerplate_dots:
  "dot_entry ((replicate 11 0x20)[0 := 0x2E]) c e \<Longrightarrow> boilerplate e"
  "dot_entry ((replicate 11 0x20)[0 := 0x2E, Suc 0 := 0x2E]) c e \<Longrightarrow> boilerplate e"
  by (simp_all add: dot_entry_def boilerplate_def)

lemma boilerplate_end: "entry_end e \<Longrightarrow> boilerplate e"
  by (simp add: boilerplate_def)

lemma new_dir_cluster:
  fixes c d :: u32
  assumes g: "geometry (fs st)" "data_cluster (fs st) c" and ok: "fat_entry_ok st c"
  defines "st2 \<equiv> init_directory_cluster c d (fat32_set_next_cluster c 0x0FFFFFFF st)"
  shows "\<And>x. fat_entry_ok st x \<Longrightarrow> fat32_next_cluster st2 x = (if x = c then 0x0FFFFFFF else fat32_next_cluster st x)"
    and "\<And>x s. sector_ok st x s \<Longrightarrow> x \<noteq> c \<Longrightarrow> read_sector_of st2 x s = read_sector_of st x s"
    and "dir_slots st2 = dir_slots st" and "fs st2 = fs st"
proof -
  show "fat32_next_cluster st2 x = (if x = c then 0x0FFFFFFF else fat32_next_cluster st x)" if "fat_entry_ok st x" for x
    using that ok g by (simp add: st2_def init_directory_next ft.entry_ok_set ft.nxt_setn)
  show "read_sector_of st2 x s = read_sector_of st x s" if "sector_ok st x s" "x \<noteq> c" for x s
    using that ok g by (simp add: st2_def init_directory_other vol.slot_ok_setn vol.rds_setn)
  show "dir_slots st2 = dir_slots st" by (rule ext, rule dir_slots_cong) (simp add: st2_def)
  show "fs st2 = fs st" by (simp add: st2_def)
qed

lemma new_dir_entries:
  assumes "geometry (fs st)" "data_cluster (fs st) c" "fat_entry_ok st c"
    and "s < unat (sectors_per_cluster (fs st))" and "i < 16"
  shows "if (s, i) = (0, 0) then dot_entry ((replicate 11 0x20)[0 := 0x2E]) c
      (slot_entry (init_directory_cluster c p (fat32_set_next_cluster c v st)) (c, s, i))
    else if (s, i) = (0, 1) then dot_entry ((replicate 11 0x20)[0 := 0x2E, 1 := 0x2E])
      (if p = root_cluster (fs st) then 0 else p)
      (slot_entry (init_directory_cluster c p (fat32_set_next_cluster c v st)) (c, s, i))
    else entry_end (slot_entry (init_directory_cluster c p (fat32_set_next_cluster c v st)) (c, s, i))"
  using init_directory_entries [of "fat32_set_next_cluster c v st" c s i p] assms
  unfolding set_next_cluster_sel by blast

lemma create_directory_result:
  assumes d: "dir_at st (current_dir_cluster st) (current_dir_cluster st # cl)" and n: "is_cstr dirname"
    and l: "lookup_slot st (current_dir_cluster st # cl) (format_filename dirname) = None"
    and c: "fat32_find_free_cluster st = c" "c \<noteq> 0x0FFFFFFF"
    and u: "\<forall>x \<in> set (current_dir_cluster st # cl). fat32_next_cluster st x \<noteq> 0"
    and sl: "find (\<lambda>sl. free_entry (slot_entry st sl)) (dir_slots st [current_dir_cluster st]) = Some sl"
    and e5: "format_filename dirname ! 0 \<noteq> 0xE5"
  defines "st2 \<equiv> init_directory_cluster c (current_dir_cluster st) (fat32_set_next_cluster c 0x0FFFFFFF st)"
  defines "st3 \<equiv> set_slot sl (new_directory c (format_filename dirname) (slot_entry st sl)) st2"
  shows "lookup_slot st3 (current_dir_cluster st # cl) (format_filename dirname) = Some sl"
    and "slot_entry st3 sl = new_directory c (format_filename dirname) (slot_entry st sl)"
    and "dir_at st3 c [c]"
    and "fat32_next_cluster st3 c = 0x0FFFFFFF"
    and "dir_at st3 (current_dir_cluster st) (current_dir_cluster st # cl)"
    and "s < unat (sectors_per_cluster (fs st)) \<Longrightarrow> i < 16 \<Longrightarrow> slot_entry st3 (c, s, i) = slot_entry st2 (c, s, i)"
proof -
  let ?cl = "current_dir_cluster st # cl"
  let ?n = "format_filename dirname"
  let ?e = "new_directory c ?n (slot_entry st sl)"
  have g: "geometry (fs st)" using dir_atD(1) [OF d] .
  note dc = free_cluster_found [OF g c]
  note st2 = new_dir_cluster [OF g dc(1,4), where d = "current_dir_cluster st", folded st2_def]
  have nin: "c \<notin> set ?cl" using dc(2) u by blast
  have d2: "dir_at st2 (current_dir_cluster st) ?cl"
  proof (rule dir_at_cong [OF d st2(4)])
    fix x assume "x \<in> set ?cl"
    then show "fat32_next_cluster st2 x = fat32_next_cluster st x"
      using nin st2(1) [OF dir_atD(3) [OF d]] by (metis (full_types))
  qed
  have se: "slot_entry st2 x = slot_entry st x" if "x \<in> set (dir_slots st ?cl)" for x
  proof (cases x)
    case (fields a s i)
    then have "sector_ok st a s" "a \<in> set ?cl" using that dir_slot_ok [OF d, of a s i] by (simp_all add: dir_slots_set)
    moreover from this(2) have "a \<noteq> c" using nin by blast
    ultimately show ?thesis using st2(2) fields by simp
  qed
  have "find (\<lambda>sl. free_entry (slot_entry st sl)) (dir_slots st ?cl) = Some sl"
    by (subst dir_slots_Cons) (rule find_prefix [OF sl])
  moreover have "find (\<lambda>sl. free_entry (slot_entry st2 sl)) (dir_slots st ?cl) =
     find (\<lambda>sl. free_entry (slot_entry st sl)) (dir_slots st ?cl)"
    by (rule find_cong) (simp_all only: se)
  ultimately have sl2: "find (\<lambda>sl. free_entry (slot_entry st2 sl)) (dir_slots st2 ?cl) = Some sl"
    by (simp only: st2(3))
  have mem: "sl \<in> set (dir_slots st2 ?cl)" using sl2 unfolding find_Some_iff by (metis nth_mem)
  have e: "length (de_name ?e) = 11" "\<not> free_entry ?e" "de_attr ?e \<noteq> 0x0F" "de_name ?e = ?n"
    using n e5 format_filename_first_nz [OF n]
    by (simp_all add: new_directory_def free_entry_def entry_end_def entry_deleted_def ATTR_DIRECTORY_def)
  have "lookup_slot st2 ?cl ?n = None"
    using l lookup_slot_cong [OF st2(4) se] by simp
  then show "lookup_slot st3 ?cl ?n = Some sl"
    unfolding st3_def using lookup_insert [OF d2 _ sl2 e(1-3)] e(4) by simp
  show "dir_at st3 (current_dir_cluster st) ?cl" using d2 dir_at_set_slot [OF d2 mem] by (simp add: st3_def)
  show "slot_entry st3 sl = ?e" using slot_entry_set_slot [OF d2 mem mem e(1)] by (simp add: st3_def)
  show nx: "fat32_next_cluster st3 c = 0x0FFFFFFF"
    using next_set_slot [OF d2 mem, of c] st2(1,4) dc(4) g by (simp add: st3_def fat_entry_ok_def)
  show "dir_at st3 c [c]"
    using nx dc g st2(4) by (simp add: dir_at_def st3_def in_chain_def)
  assume "s < unat (sectors_per_cluster (fs st))" "i < 16"
  then have "sector_ok st2 c s" using dc g st2(4) by (simp add: sector_ok_def)
  moreover obtain a t j where a: "sl = (a, t, j)" by (cases sl)
  moreover have "sector_ok st2 a t" "a \<in> set ?cl" using dir_slot_ok [OF d2, of a t j] mem a by (simp_all add: dir_slots_set)
  moreover from this(2) have "a \<noteq> c" using nin by blast
  ultimately show "slot_entry st3 (c, s, i) = slot_entry st2 (c, s, i)"
    by (simp add: st3_def set_slot_def vol.rds_other)
qed

lemma empty_cluster_boilerplate:
  assumes "\<And>s i. s < unat (sectors_per_cluster (fs st)) \<Longrightarrow> i < 16 \<Longrightarrow> boilerplate (slot_entry st (c, s, i))"
  shows "\<forall>sl \<in> set (dir_slots st [c]). boilerplate (slot_entry st sl)"
proof
  fix sl assume "sl \<in> set (dir_slots st [c])"
  then show "boilerplate (slot_entry st sl)"
    using assms by (simp add: dir_slots_set split: prod.splits del: slot_entry_simp)
qed

lemma create_directory_post:
  assumes "dir_at st (current_dir_cluster st) (current_dir_cluster st # cl)" and "is_cstr dirname"
    and "lookup_slot st (current_dir_cluster st # cl) (format_filename dirname) = None"
    and "fat32_find_free_cluster st = c" and "c \<noteq> 0x0FFFFFFF"
    and "\<forall>x \<in> set (current_dir_cluster st # cl). fat32_next_cluster st x \<noteq> 0"
    and "find (\<lambda>sl. free_entry (slot_entry st sl)) (dir_slots st [current_dir_cluster st]) = Some sl"
    and "format_filename dirname ! 0 \<noteq> 0xE5"
  obtains st1 where "fat32_create_directory st dirname = Some st1"
    and "lookup_slot st1 (current_dir_cluster st # cl) (format_filename dirname) = Some sl"
    and "slot_entry st1 sl = new_directory c (format_filename dirname) (slot_entry st sl)"
    and "fat32_next_cluster st1 c = 0x0FFFFFFF"
    and "dot_entry ((replicate 11 0x20)[0 := 0x2E]) c (slot_entry st1 (c, 0, 0))"
    and "dot_entry ((replicate 11 0x20)[0 := 0x2E, 1 := 0x2E])
      (if current_dir_cluster st = root_cluster (fs st) then 0 else current_dir_cluster st) (slot_entry st1 (c, 0, 1))"
    and "is_directory_empty st1 c = Some True"
    and "dir_at st1 (current_dir_cluster st) (current_dir_cluster st # cl)" and "dir_at st1 c [c]"
    and "fs st1 = fs st" and "current_dir_cluster st1 = current_dir_cluster st"
proof -
  define st2 where "st2 = init_directory_cluster c (current_dir_cluster st) (fat32_set_next_cluster c 0x0FFFFFFF st)"
  define st3 where "st3 = set_slot sl (new_directory c (format_filename dirname) (slot_entry st sl)) st2"
  let ?st1 = "console_print (cstr ''Directory created successfully.'' @ [0x0A]) st3"
  note r = create_directory_result [OF assms, folded st2_def, folded st3_def]
  have g: "geometry (fs st)" using dir_atD(1) [OF assms(1)] .
  note dc = free_cluster_found [OF g assms(4,5)]
  note en = new_dir_entries [OF g dc(1,4), where v = "0x0FFFFFFF" and p = "current_dir_cluster st", folded st2_def]
  have sel: "fs st3 = fs st" "current_dir_cluster st3 = current_dir_cluster st" by (simp_all add: st3_def st2_def)
  have k: "0 < unat (sectors_per_cluster (fs st))" using g by (simp add: geometry_def)
  have "boilerplate (slot_entry st3 (c, s, i))" if "s < unat (sectors_per_cluster (fs st3))" "i < 16" for s i
    using that en [of s i] r(6) [of s i] sel boilerplate_dots boilerplate_end by (auto split: if_splits simp del: slot_entry_simp)
  then have emp: "is_directory_empty st3 c = Some True"
    unfolding is_directory_empty_eq [OF r(3)] using empty_cluster_boilerplate [of st3 c] by simp
  have eq: "fat32_create_directory st dirname = Some ?st1"
    using create_directory_eq [OF assms(1-3) _ assms(6)] assms(4,5,7) by (simp add: Let_def st2_def st3_def)
  show ?thesis
    by (rule that [of ?st1])
       (use emp eq sel r(1-5) r(6) [OF k, of 0] r(6) [OF k, of 1] en [OF k, of 0] en [OF k, of 1] in
         \<open>simp_all del: slot_entry_simp\<close>)
qed

section \<open>Lemmas: paths\<close>

lemma find_component_found:
  assumes d: "dir_at st c cl" and n: "length n = 11" and l: "lookup_slot st cl n = Some sl"
    and dir: "de_attr (slot_entry st sl) AND ATTR_DIRECTORY \<noteq> 0"
  shows "find_component st c n = Some (Some (child_cluster_of st (slot_entry st sl)))"
proof -
  let ?k = "unat (sectors_per_cluster (fs st))"
  let ?r = "child_cluster_of st (slot_entry st sl)"
  let ?g = "\<lambda>sl. match_component st n (slot_entry st sl)"
  let ?w = "\<lambda>xs (_::unit). case for_each ?g xs () of Done (Some y) \<Rightarrow> Done (Some y) | Done None \<Rightarrow> Go () | Go _ \<Rightarrow> Go ()"
  let ?secs = "concat (map (\<lambda>c. map (\<lambda>s. map (\<lambda>i. (c, s, i)) [0..<16]) [0..<?k]) cl)"
  note lk = lookup_slotD [OF l]
  have mc: "memcmp (de_name (slot_entry st x)) n 0 11 = 0 \<longleftrightarrow> de_name (slot_entry st x) = n"
    if "x \<in> set (dir_slots st cl)" for x
    using that n by (intro memcmp_names) (auto simp: dir_slots_set split: prod.splits)
  have "for_each ?g (dir_slots st cl) () = Done (Some ?r)"
    by (rule for_each_pre [OF l [unfolded lookup_slot_eq]])
       (use lk dir mc mc [OF lk(1)] in \<open>auto simp: match_component_def simp del: slot_entry_simp\<close>)
  moreover have "dir_slots st cl = concat ?secs" unfolding dir_slots_def by (induction cl) simp_all
  ultimately have "for_each ?w ?secs () = Done (Some ?r)"
    by (intro for_each_groups) (simp add: for_each_concat)
  then have "for_each (\<lambda>c. for_each (\<lambda>s. ?w (map (\<lambda>i. (c, s, i)) [0..<16])) [0..<?k]) cl () = Done (Some ?r)"
    by (simp add: for_each_concat for_each_map_fun)
  then show ?thesis
    unfolding find_component_def
    by (subst cluster_loop_found [OF dir_atD(2) [OF d]])
       (simp_all add: for_each_map_fun match_component_def [abs_def] Let_def flow_result_def child_cluster_of_def [symmetric] cong: if_cong)
qed

lemma split_path_cur:
  "cur \<noteq> [] \<Longrightarrow> split_path cur p =
    (cur @ takeWhile (\<lambda>b. b \<noteq> 0x2F) p) # split_path [] (dropWhile (\<lambda>b. b \<noteq> 0x2F) p)"
  by (induction p arbitrary: cur) auto

lemma split_path_slashes: "split_path [] p = split_path [] (dropWhile (\<lambda>b. b = 0x2F) p)"
  by (induction p) auto

lemma split_path_first:
  assumes "dropWhile (\<lambda>b. b = 0x2F) p = q" and "q \<noteq> []"
  shows "split_path [] p = takeWhile (\<lambda>b. b \<noteq> 0x2F) q # split_path [] (dropWhile (\<lambda>b. b \<noteq> 0x2F) q)"
proof -
  obtain b r where q: "q = b # r" using assms(2) by (cases q) auto
  then have "b \<noteq> 0x2F" using assms(1) by (metis (full_types) dropWhile_eq_Cons_conv)
  then show ?thesis
    using split_path_slashes [of p] assms(1) split_path_cur [of "[b]" r] by (simp add: q)
qed

lemma path_loop_resolve:
  assumes "is_cstr path" and "\<forall>n \<in> set (split_path [] (drop idx path)). length n \<le> 127"
  shows "path_loop st path idx c = resolve st c (split_path [] (drop idx path))"
  using assms
proof (induction st path idx c rule: path_loop.induct)
  case (1 st path idx c)
  define q where "q = dropWhile (\<lambda>b. b = 0x2F) (drop idx path)"
  obtain j n where g: "get_next_component path idx = (j, n)" by fastforce
  note e = get_next_component_eq [OF "1.prems"(1) g]
  show ?case
  proof (cases "q = []")
    case True
    then have "n = []" using e(1) by (simp only: q_def takeWhile.simps take_Nil)
    moreover have "split_path [] (drop idx path) = []"
      using True by (subst split_path_slashes) (simp flip: q_def)
    ultimately show ?thesis
      by (subst path_loop.simps) (simp add: g cget_def)
  next
    case False
    then have idx: "cget path idx \<noteq> 0"
      using drop_cget_0 [of path idx] "1.prems"(1) by (auto simp: q_def)
    note sp = split_path_first [OF q_def [symmetric] False]
    have "length (takeWhile (\<lambda>b. b \<noteq> 0x2F) q) \<le> 127" using "1.prems"(2) sp by simp
    then have n: "n = takeWhile (\<lambda>b. b \<noteq> 0x2F) q" using e(1) by (simp add: q_def)
    have "hd q \<noteq> 0x2F" using False hd_dropWhile [of "\<lambda>b. b = 0x2F" "drop idx path"] by (simp add: q_def)
    then have "n \<noteq> []" using False n by (cases q) auto
    moreover have "set n \<subseteq> set path"
      unfolding n q_def by (auto dest!: set_takeWhileD set_dropWhileD in_set_dropD)
    ultimately have "cget n 0 \<noteq> 0" using "1.prems"(1) by (cases n) (auto simp: cget_def is_cstr_def)
    have "drop j path = drop (length n) q"
      using skip_slashes_eq [OF "1.prems"(1), of idx] e(2) by (simp add: q_def add.commute flip: drop_drop)
    also have "\<dots> = dropWhile (\<lambda>b. b \<noteq> 0x2F) q"
      unfolding n by (metis append_eq_conv_conj takeWhile_dropWhile_id)
    finally have dj: "drop j path = dropWhile (\<lambda>b. b \<noteq> 0x2F) q" .
    have IH: "path_loop st path j c' = resolve st c' (split_path [] (drop j path))"
      if "find_component st c (format_filename n) = Some (Some c')" for c'
    proof -
      have "\<forall>m \<in> set (split_path [] (drop j path)). length m \<le> 127" using "1.prems"(2) sp dj by simp
      then show ?thesis
        using "1.IH" [OF idx refl, of "Some c'" c'] that g \<open>cget n 0 \<noteq> 0\<close> "1.prems"(1) by simp
    qed
    show ?thesis
      unfolding sp n [symmetric] dj [symmetric] using idx \<open>cget n 0 \<noteq> 0\<close> IH
      by (subst path_loop.simps) (auto simp: g Let_def split: option.split Option.bind_split)
  qed
qed

lemma path_cluster_resolve:
  assumes "is_cstr path" and "\<forall>n \<in> set (split_path [] path). length n \<le> 127"
  shows "fat32_get_path_cluster st path =
    resolve st (if cget path 0 = 0x2F then root_cluster (fs st) else current_dir_cluster st) (split_path [] path)"
proof (cases "cget path 0 = 0x2F")
  case True
  then have "path = 0x2F # drop 1 path" using drop_cget [OF assms(1), of 0] by simp
  then have "split_path [] path = split_path [] (drop 1 path)" by (metis split_path.simps(2))
  then show ?thesis using True assms path_loop_resolve [of path 1] by (simp add: fat32_get_path_cluster_def)
next
  case False
  then show ?thesis using assms path_loop_resolve [of path 0] by (simp add: fat32_get_path_cluster_def)
qed

lemma split_path_single: "0x2F \<notin> set n \<Longrightarrow> n \<noteq> [] \<Longrightarrow> split_path [] n = [n]"
proof -
  assume n: "0x2F \<notin> set n" "n \<noteq> []"
  have "split_path cur m = [cur @ m]" if "0x2F \<notin> set m" "cur \<noteq> [] \<or> m \<noteq> []" for cur m
    using that by (induction m arbitrary: cur) auto
  from this [of n "[]"] n show ?thesis by simp
qed

lemma cd_name:
  assumes "dir_at st (current_dir_cluster st) cl" and "is_cstr n" "0x2F \<notin> set n" "n \<noteq> []" "length n \<le> 127"
    and "lookup_slot st cl (format_filename n) = Some sl"
    and "de_attr (slot_entry st sl) AND ATTR_DIRECTORY \<noteq> 0"
    and "child_cluster_of st (slot_entry st sl) \<noteq> 0xFFFFFFFF"
  shows "fat32_cd st n = Some (st\<lparr>current_dir_cluster := child_cluster_of st (slot_entry st sl)\<rparr>)"
proof -
  have "cget n 0 \<noteq> 0x2F" using assms(3,4) by (cases n) (auto simp: cget_def)
  then have "fat32_get_path_cluster st n = Some (child_cluster_of st (slot_entry st sl))"
    using find_component_found [OF assms(1) _ assms(6,7)] assms(2-5)
    by (simp add: path_cluster_resolve split_path_single)
  then show ?thesis using assms(8) by (simp add: fat32_cd_def)
qed

lemma dots_lookup:
  assumes "dir_at st c [c]" and "dot_entry ((replicate 11 0x20)[0 := 0x2E]) c0 (slot_entry st (c, 0, 0))"
    and "dot_entry ((replicate 11 0x20)[0 := 0x2E, 1 := 0x2E]) c1 (slot_entry st (c, 0, 1))"
  shows "lookup_slot st [c] ((replicate 11 0x20)[0 := 0x2E, 1 := 0x2E]) = Some (c, 0, 1)"
proof -
  have "1 \<le> unat (sectors_per_cluster (fs st))" using assms(1) by (simp add: dir_at_def geometry_def)
  then have "[0..<unat (sectors_per_cluster (fs st))] = 0 # [1..<unat (sectors_per_cluster (fs st))]" by (simp add: upt_conv_Cons)
  then obtain r where d: "dir_slots st [c] = (c, 0, 0) # (c, 0, 1) # r"
    by (simp add: dir_slots_def upt_rec [of _ 16])
  have "(replicate 11 (0x20 :: u8))[0 := 0x2E] \<noteq> (replicate 11 0x20)[0 := 0x2E, 1 := 0x2E]" by code_simp
  then show ?thesis
    using assms(2,3) unfolding lookup_slot_eq d
    by (auto simp: dot_entry_def entry_end_def entry_deleted_def ATTR_DIRECTORY_def simp del: slot_entry_simp)
qed

lemma format_dotdot: "format_filename (cstr ''..'') = (replicate 11 0x20)[0 := 0x2E, 1 := 0x2E]"
  by code_simp

lemma dotdot_name: "is_cstr (cstr ''..'')" "0x2F \<notin> set (cstr ''..'')" "cstr ''..'' \<noteq> []" "length (cstr ''..'') \<le> 127"
  by code_simp+

lemma find_dirname_found:
  assumes d: "dir_at st p cl"
    and l: "find (\<lambda>sl. de_attr (slot_entry st sl) AND ATTR_DIRECTORY \<noteq> 0 \<and> entry_cluster (slot_entry st sl) = c) (listed_slots st cl) = Some sl"
    and c: "c \<noteq> 0" "c \<noteq> root_cluster (fs st)"
  shows "find_dirname_in_parent st p c = Some (Some (filter (\<lambda>b. b \<noteq> 0x20) (take 8 (de_name (slot_entry st sl)))))"
proof -
  let ?b = "\<lambda>e (_ :: unit). if entry_end e then Done None
              else if entry_deleted e then Go ()
              else if de_attr e = 0x0F then Go ()
              else if de_attr e AND ATTR_DIRECTORY \<noteq> 0 then
                (let ec = (if entry_cluster e = 0 \<and> p = root_cluster (fs st)
                           then root_cluster (fs st) else entry_cluster e)
                 in if ec = c then Done (Some (filter (\<lambda>b. b \<noteq> 0x20) (take 8 (de_name e)))) else Go ())
              else Go ()"
  let ?r = "Some (filter (\<lambda>b. b \<noteq> 0x20) (take 8 (de_name (slot_entry st sl))))"
  have "\<not> entry_end (slot_entry st sl)" using l unfolding listed_slots_alt used_slots_def find_filter find_Some_iff
    by (metis (mono_tags, lifting) nth_mem set_takeWhileD)
  moreover have "\<not> entry_deleted (slot_entry st sl)" "de_attr (slot_entry st sl) \<noteq> 0x0F"
    "de_attr (slot_entry st sl) AND ATTR_DIRECTORY \<noteq> 0" "entry_cluster (slot_entry st sl) = c"
    using l unfolding listed_slots_alt used_slots_def find_filter find_Some_iff by blast+
  ultimately have "?b (slot_entry st sl) () = Done ?r" using c by simp
  moreover have "?b (slot_entry st x) () = Go ()" if "\<not> entry_end (slot_entry st x)"
    "\<not> (\<not> entry_deleted (slot_entry st x) \<and> de_attr (slot_entry st x) \<noteq> 0x0F \<and>
       de_attr (slot_entry st x) AND ATTR_DIRECTORY \<noteq> 0 \<and> entry_cluster (slot_entry st x) = c)" for x
    using that c by auto
  ultimately have "for_each (\<lambda>sl. ?b (slot_entry st sl)) (dir_slots st cl) () = Done ?r"
    by (intro for_each_pre [OF l [unfolded listed_slots_alt used_slots_def find_filter]]) blast+
  moreover have "for_each (\<lambda>(c, s, i). ?b (get_entry (read_sector_of st c s) i)) (dir_slots st cl) () =
      for_each (\<lambda>sl. ?b (slot_entry st sl)) (dir_slots st cl) ()"
    by (rule for_each_cong) (simp split: prod.split)
  ultimately have "for_each (\<lambda>(c, s, i). ?b (get_entry (read_sector_of st c s) i)) (dir_slots st cl) () = Done ?r"
    by simp
  then show ?thesis
    unfolding find_dirname_in_parent_def
    by (subst cluster_loop_found [OF dir_atD(2) [OF d], where r = ?r])
       (simp_all add: for_each_scan Let_def flow_result_def)
qed

lemma full_entry:
  assumes "i < 16"
  shows "de_name (get_entry (replicate 512 0x41) i) = replicate 11 0x41" 
  using assms by (simp add: get_entry_def Let_def)

lemma full_facts: "fs full_volume = fs blank_volume" "current_dir_cluster full_volume = 2"
  "dir_slots full_volume = dir_slots blank_volume" "dir_at full_volume 2 [2]"
  "fat32_find_free_cluster full_volume = 3" "fat32_next_cluster full_volume 2 = 0x0FFFFFFF"
  "sl \<in> set (dir_slots full_volume [2]) \<Longrightarrow> de_name (slot_entry full_volume sl) = replicate 11 0x41"
proof -
  show f: "fs full_volume = fs blank_volume" "current_dir_cluster full_volume = 2"
    by (simp_all add: full_volume_def)
  then show ds: "dir_slots full_volume = dir_slots blank_volume" by (simp add: fun_eq_iff dir_slots_def)
  have nx: "fat32_next_cluster full_volume c = fat32_next_cluster blank_volume c" if "unat c < 128" for c
    using that by (simp add: full_volume_def vol.nxt_wrs)
  then show n2: "fat32_next_cluster full_volume 2 = 0x0FFFFFFF" by (simp add: blank_next)
  show "dir_at full_volume 2 [2]" using nx by (intro dir_at_cong [OF blank_dir f(1)]) simp
  have "find (free_slot full_volume) [0..<128] = find (free_slot blank_volume) [0..<128]"
    by (rule find_cong) (auto simp: free_slot_def nx unat_of_nat_u32)
  then show "fat32_find_free_cluster full_volume = 3"
    using blank_free find_free_eq [of blank_volume] find_free_eq [of full_volume] f by simp
  show "sl \<in> set (dir_slots full_volume [2]) \<Longrightarrow> de_name (slot_entry full_volume sl) = replicate 11 0x41"
    unfolding ds blank_slots by (auto simp: full_volume_def vol.rds_same full_entry)
qed

section \<open>Properties\<close>

text \<open>
  C20: \<open>fat32_find_file\<close> returns the first listed entry of the current directory whose name is
  the 8.3 form of the argument, and the null pointer when there is none.
\<close>

theorem find_file_correct:
  assumes "chain (fat32_next_cluster st) (current_dir_cluster st) cl" and "is_cstr filename"
  shows "fat32_find_file st filename =
    Some (map_option (slot_entry st) (lookup_slot st cl (format_filename filename)))"
  using assms by (rule find_file_lookup)

theorem find_file_correct_witness:
  "fat32_find_file (one_entry_volume (sample_entry name_a 0x20)) (cstr ''a'') = Some (Some (sample_entry name_a 0x20))"
proof -
  let ?v = "one_entry_volume (sample_entry name_a 0x20)"
  have len: "length (de_name (sample_entry name_a 0x20)) = 11" by (simp add: sample_entry_facts)
  note f = one_entry_facts [OF len]
  have "chain (fat32_next_cluster ?v) (current_dir_cluster ?v) [2]"
    using dir_atD(2) [OF f(5)] f(2) by simp
  from find_file_correct [OF this cstr_a(2)] show ?thesis
    using one_lookup [of name_a "0x20"] by (simp add: format_a' del: slot_entry_simp)
qed

text \<open>
  \<open>fat32_ls\<close> prints the names of exactly the listed entries, in their order, and ends on every
  directory whose chain ends.
\<close>

theorem ls_prints_listed:
  assumes "chain (fat32_next_cluster st) (current_dir_cluster st) cl"
  shows "fat32_ls st = Some (fold (\<lambda>sl. print_name (de_name (slot_entry st sl))) (listed_slots st cl) st)"
  unfolding fat32_ls_def scan_dir_slots [OF assms] listed_slots_alt used_slots_def ls_scan [symmetric]
  by (auto simp: Let_def intro!: arg_cong [where f = "flow_result id"] for_each_cong)

theorem ls_prints_listed_witness:
  "fat32_ls (one_entry_volume (sample_entry name_a 0x20)) =
   Some (print_name name_a (one_entry_volume (sample_entry name_a 0x20)))"
proof -
  let ?v = "one_entry_volume (sample_entry name_a 0x20)"
  have len: "length (de_name (sample_entry name_a 0x20)) = 11" by (simp add: sample_entry_facts)
  note f = one_entry_facts [OF len]
  have "chain (fat32_next_cluster ?v) (current_dir_cluster ?v) [2]"
    using dir_atD(2) [OF f(5)] f(2) by simp
  from ls_prints_listed [OF this] show ?thesis
    using one_lookup [of name_a "0x20"] sample_entry_facts(2) [of name_a "0x20"] by (simp del: slot_entry_simp)
qed

text \<open>
  C2: deleting a file that exists ends, removes its entry and no other from the listing, frees
  every cluster of its chain and leaves all other links, entries and sectors as they were.
\<close>

theorem delete_file_removes:
  assumes "dir_at st (current_dir_cluster st) cl" and "is_cstr filename"
    and "lookup_slot st cl (format_filename filename) = Some sl"
    and "dir_at st (entry_cluster (slot_entry st sl)) fl" and "set cl \<inter> set fl = {}"
  shows "\<exists>st'. fat32_delete_file st filename = Some st' \<and> erased st cl sl fl st'"
proof -
  obtain c s i where sl: "sl = (c, s, i)" by (cases sl)
  note l = lookup_slotD [OF assms(3) [unfolded sl]]
  from erase_slot [OF assms(1) l(1) refl l(2) assms(4) [unfolded sl] assms(5)]
  show ?thesis
    unfolding delete_file_eq [OF assms(1,2)] assms(3) sl by (simp add: Let_def) metis
qed

theorem delete_file_removes_witness:
  "\<exists>st'. fat32_delete_file (one_entry_volume (sample_entry name_a 0x20)) (cstr ''a'') = Some st' \<and>
     listed_slots st' [2] = [] \<and> fat32_next_cluster st' 3 = 0"
proof -
  let ?v = "one_entry_volume (sample_entry name_a 0x20)"
  have len: "length (de_name (sample_entry name_a 0x20)) = 11" by (simp add: sample_entry_facts)
  note f = one_entry_facts [OF len]
  note l = one_lookup [of name_a "0x20"]
  have "\<exists>st'. fat32_delete_file ?v (cstr ''a'') = Some st' \<and> erased ?v [2] (2, 0, 0) [3] st'"
    using f l format_a' cstr_a sample_entry_facts(4) [of name_a "0x20"]
    by (intro delete_file_removes) (simp_all del: slot_entry_simp)
  then show ?thesis using f(1) l(1) erasedD(1) [of ?v "[2]" "(2, 0, 0)" "[3]"]
      erasedD(2) [of ?v "[2]" "(2, 0, 0)" "[3]" _ 3] by auto
qed

text \<open>
  C19: \<open>fat32_rmdir\<close> removes the entry and frees the chain of a directory that holds nothing but
  dot entries, and leaves the disk alone when the name is a file or the directory has contents.
\<close>

theorem rmdir_removes_empty:
  assumes "dir_at st (current_dir_cluster st) cl" and "is_cstr dirname"
    and "named_slot st cl (format_filename dirname) = Some sl"
    and "dir_at st (entry_cluster (slot_entry st sl)) fl" and "set cl \<inter> set fl = {}"
  shows "\<exists>st'. fat32_rmdir st dirname = Some st' \<and>
    (if de_attr (slot_entry st sl) AND 0x10 \<noteq> 0 \<and> (\<forall>sl' \<in> set (dir_slots st fl). boilerplate (slot_entry st sl'))
     then erased st cl sl fl st' else disk st' = disk st)"
proof -
  obtain c s i where sl: "sl = (c, s, i)" by (cases sl)
  note l = named_slotD [OF assms(3) [unfolded sl]]
  from erase_slot [OF assms(1) l(1) refl l(2) assms(4) [unfolded sl] assms(5)]
  obtain st1 st' where st': "clear_chain (entry_cluster (slot_entry st sl)) st = Some st1"
    "write_sector_of c s (put_entry (read_sector_of st c s) i
      ((slot_entry st sl)\<lparr>de_name := (de_name (slot_entry st sl))[0 := 0xE5]\<rparr>)) st1 = st'" "erased st cl sl fl st'"
    unfolding sl by blast
  show ?thesis
    unfolding rmdir_eq [OF assms(1,2)] assms(3)
    using st' is_directory_empty_eq [OF assms(4)] by (auto simp: sl rmdir_entry_def Let_def)
qed

theorem rmdir_removes_empty_witness:
  "\<exists>st'. fat32_rmdir (one_entry_volume (sample_entry name_a 0x10)) (cstr ''a'') = Some st' \<and>
     listed_slots st' [2] = [] \<and> fat32_next_cluster st' 3 = 0"
proof -
  let ?v = "one_entry_volume (sample_entry name_a 0x10)"
  have len: "length (de_name (sample_entry name_a 0x10)) = 11" by (simp add: sample_entry_facts)
  note f = one_entry_facts [OF len]
  note l = one_lookup [of name_a "0x10"]
  have b: "\<forall>sl \<in> set (dir_slots ?v [3]). boilerplate (slot_entry ?v sl)"
    using f(7) zero_entry_end by (auto simp: f(3) blank_slots boilerplate_def simp del: slot_entry_simp)
  have "\<exists>st'. fat32_rmdir ?v (cstr ''a'') = Some st' \<and>
    (if de_attr (slot_entry ?v (2, 0, 0)) AND 0x10 \<noteq> 0 \<and> (\<forall>sl' \<in> set (dir_slots ?v [3]). boilerplate (slot_entry ?v sl'))
     then erased ?v [2] (2, 0, 0) [3] st' else disk st' = disk ?v)"
    using f l format_a' cstr_a sample_entry_facts(4) [of name_a "0x10"]
    by (intro rmdir_removes_empty) (simp_all del: slot_entry_simp)
  then have "\<exists>st'. fat32_rmdir ?v (cstr ''a'') = Some st' \<and> erased ?v [2] (2, 0, 0) [3] st'"
    using l(4) sample_entry_facts(3) [of name_a "0x10"] b by (simp del: slot_entry_simp)
  then show ?thesis using f(1) l(1) erasedD(1) [of ?v "[2]" "(2, 0, 0)" "[3]"]
      erasedD(2) [of ?v "[2]" "(2, 0, 0)" "[3]" _ 3] by auto
qed

text \<open>
  C16: creating a directory puts an entry into the first free slot that lookup then finds, links it
  to a new one-cluster chain, and fills the cluster with the two dot entries and nothing else.
\<close>

theorem create_directory_correct:
  assumes "dir_at st (current_dir_cluster st) (current_dir_cluster st # cl)" and "is_cstr dirname"
    and "lookup_slot st (current_dir_cluster st # cl) (format_filename dirname) = None"
    and "fat32_find_free_cluster st = c" and "c \<noteq> 0x0FFFFFFF"
    and "\<forall>x \<in> set (current_dir_cluster st # cl). fat32_next_cluster st x \<noteq> 0"
    and "find (\<lambda>sl. free_entry (slot_entry st sl)) (dir_slots st [current_dir_cluster st]) = Some sl"
    and "format_filename dirname ! 0 \<noteq> 0xE5"
  shows "\<exists>st'. fat32_create_directory st dirname = Some st' \<and>
    lookup_slot st' (current_dir_cluster st # cl) (format_filename dirname) = Some sl \<and>
    de_attr (slot_entry st' sl) = ATTR_DIRECTORY \<and> entry_cluster (slot_entry st' sl) = c \<and>
    fat32_next_cluster st' c = 0x0FFFFFFF \<and>
    dot_entry ((replicate 11 0x20)[0 := 0x2E]) c (slot_entry st' (c, 0, 0)) \<and>
    dot_entry ((replicate 11 0x20)[0 := 0x2E, 1 := 0x2E])
      (if current_dir_cluster st = root_cluster (fs st) then 0 else current_dir_cluster st)
      (slot_entry st' (c, 0, 1)) \<and>
    is_directory_empty st' c = Some True"
proof (rule create_directory_post [OF assms])
  fix st1
  assume "fat32_create_directory st dirname = Some st1"
    and "lookup_slot st1 (current_dir_cluster st # cl) (format_filename dirname) = Some sl"
    and "slot_entry st1 sl = new_directory c (format_filename dirname) (slot_entry st sl)"
    and "fat32_next_cluster st1 c = 0x0FFFFFFF"
    and "dot_entry ((replicate 11 0x20)[0 := 0x2E]) c (slot_entry st1 (c, 0, 0))"
    and "dot_entry ((replicate 11 0x20)[0 := 0x2E, 1 := 0x2E])
      (if current_dir_cluster st = root_cluster (fs st) then 0 else current_dir_cluster st) (slot_entry st1 (c, 0, 1))"
    and "is_directory_empty st1 c = Some True"
  then show ?thesis by (intro exI [of _ st1]) (simp add: new_directory_def del: slot_entry_simp)
qed

theorem create_directory_correct_witness:
  "\<exists>st'. fat32_create_directory blank_volume (cstr ''a'') = Some st' \<and>
     lookup_slot st' [2] name_a = Some (2, 0, 0) \<and> is_directory_empty st' 3 = Some True"
  using create_directory_correct [of blank_volume "[]" "cstr ''a''" 3 "(2, 0, 0)"]
    blank_dir blank_lookup blank_free blank_free_slot cstr_a format_a' blank_next [of 2]
  by auto

text \<open>
  C38: \<open>fat32_create_directory\<close> never returns when the first cluster of the current directory has
  no free slot, even when a later cluster has one: its loop does not advance.
\<close>

theorem create_directory_full_hangs:
  assumes "dir_at st (current_dir_cluster st) (current_dir_cluster st # cl)" and "is_cstr dirname"
    and "lookup_slot st (current_dir_cluster st # cl) (format_filename dirname) = None"
    and "fat32_find_free_cluster st \<noteq> 0x0FFFFFFF"
    and "\<forall>x \<in> set (current_dir_cluster st # cl). fat32_next_cluster st x \<noteq> 0"
    and "\<forall>sl \<in> set (dir_slots st [current_dir_cluster st]). \<not> free_entry (slot_entry st sl)"
  shows "fat32_create_directory st dirname = None"
proof -
  have "find (\<lambda>sl. free_entry (slot_entry st sl)) (dir_slots st [current_dir_cluster st]) = None"
    using assms(6) unfolding find_None_iff by blast
  then show ?thesis using create_directory_eq [OF assms(1-5)] by (simp add: Let_def)
qed

theorem create_directory_full_hangs_witness: "fat32_create_directory full_volume (cstr ''a'') = None"
proof -
  have nm: "de_name (slot_entry full_volume sl) = replicate 11 0x41" if "sl \<in> set (dir_slots full_volume [2])" for sl
    using full_facts(7) [OF that] .
  have "(replicate 11 0x41 :: u8 list) \<noteq> name_a" by code_simp
  then have "lookup_slot full_volume [2] name_a = None"
    using nm by (auto simp: lookup_slot_eq find_None_iff simp del: slot_entry_simp split_paired_All dest!: set_takeWhileD)
  moreover have "\<forall>sl \<in> set (dir_slots full_volume [2]). \<not> free_entry (slot_entry full_volume sl)"
    using nm by (auto simp: free_entry_def entry_end_def entry_deleted_def simp del: slot_entry_simp split_paired_All)
  ultimately show ?thesis
    using full_facts(1-6) cstr_a format_a'
    by (intro create_directory_full_hangs [where cl = "[]"]) (simp_all del: slot_entry_simp)
qed

text \<open>
  C18: path resolution is the left-to-right lookup of the non-empty components between slashes, from
  the root for an absolute path and from the current directory for a relative one.
\<close>

theorem path_resolution:
  assumes "is_cstr path" and "\<forall>n \<in> set (split_path [] path). length n \<le> 127"
  shows "fat32_get_path_cluster st path =
    resolve st (if cget path 0 = 0x2F then root_cluster (fs st) else current_dir_cluster st) (split_path [] path)"
  using assms by (rule path_cluster_resolve)

theorem path_resolution_witness:
  "fat32_get_path_cluster (one_entry_volume (sample_entry name_a 0x10)) (cstr ''//a/'') = Some 3"
proof -
  let ?v = "one_entry_volume (sample_entry name_a 0x10)"
  have len: "length (de_name (sample_entry name_a 0x10)) = 11" by (simp add: sample_entry_facts)
  note f = one_entry_facts [OF len]
  note l = one_lookup [of name_a "0x10"]
  have p: "is_cstr (cstr ''//a/'')" "split_path [] (cstr ''//a/'') = [cstr ''a'']" "cget (cstr ''//a/'') 0 = 0x2F"
    "length (cstr ''a'') \<le> 127" by code_simp+
  have "find_component ?v 2 name_a = Some (Some 3)"
    using find_component_found [OF f(5), of name_a "(2, 0, 0)"] l sample_entry_facts [of name_a "0x10"]
    by (simp add: child_cluster_of_def ATTR_DIRECTORY_def del: slot_entry_simp)
  then show ?thesis
    using path_resolution [OF p(1), of ?v] p f(1) format_a' by simp
qed

text \<open>
  C17: after \<open>mkdir\<close> the directory can be entered by its name, and \<open>cd ..\<close> leads back to the parent.
\<close>

theorem mkdir_cd_and_back:
  assumes "dir_at st (current_dir_cluster st) (current_dir_cluster st # cl)" and "is_cstr dirname"
    and "lookup_slot st (current_dir_cluster st # cl) (format_filename dirname) = None"
    and "fat32_find_free_cluster st = c" and "c \<noteq> 0x0FFFFFFF"
    and "\<forall>x \<in> set (current_dir_cluster st # cl). fat32_next_cluster st x \<noteq> 0"
    and "find (\<lambda>sl. free_entry (slot_entry st sl)) (dir_slots st [current_dir_cluster st]) = Some sl"
    and "format_filename dirname ! 0 \<noteq> 0xE5"
    and "0x2F \<notin> set dirname" and "dirname \<noteq> []" and "length dirname \<le> 127"
  shows "\<exists>st1 st2 st3. fat32_create_directory st dirname = Some st1 \<and>
    fat32_cd st1 dirname = Some st2 \<and> current_dir_cluster st2 = c \<and>
    fat32_cd st2 (cstr ''..'') = Some st3 \<and> current_dir_cluster st3 = current_dir_cluster st"
proof (rule create_directory_post [OF assms(1-8)])
  fix st1
  assume st1: "fat32_create_directory st dirname = Some st1"
    "lookup_slot st1 (current_dir_cluster st # cl) (format_filename dirname) = Some sl"
    "slot_entry st1 sl = new_directory c (format_filename dirname) (slot_entry st sl)"
    "dot_entry ((replicate 11 0x20)[0 := 0x2E]) c (slot_entry st1 (c, 0, 0))"
    "dot_entry ((replicate 11 0x20)[0 := 0x2E, 1 := 0x2E])
      (if current_dir_cluster st = root_cluster (fs st) then 0 else current_dir_cluster st) (slot_entry st1 (c, 0, 1))"
    "dir_at st1 (current_dir_cluster st) (current_dir_cluster st # cl)" "dir_at st1 c [c]"
    "fs st1 = fs st" "current_dir_cluster st1 = current_dir_cluster st"
  let ?st2 = "st1\<lparr>current_dir_cluster := c\<rparr>"
  have c: "2 \<le> c" "c \<noteq> 0xFFFFFFFF" using dir_atD(2) [OF st1(7)] by (auto simp: in_chain_def)
  have d: "2 \<le> current_dir_cluster st" "current_dir_cluster st \<noteq> 0xFFFFFFFF"
    using dir_atD(2) [OF assms(1)] by (auto simp: in_chain_def)
  have ch: "child_cluster_of st1 (slot_entry st1 sl) = c" "de_attr (slot_entry st1 sl) AND ATTR_DIRECTORY \<noteq> 0"
    using c by (auto simp: st1(3) child_cluster_of_def new_directory_def ATTR_DIRECTORY_def)
  have 1: "fat32_cd st1 dirname = Some ?st2"
    using cd_name [of st1 "current_dir_cluster st # cl" dirname sl] st1 ch c assms(2,9-11) by auto
  have ch2: "child_cluster_of ?st2 (slot_entry ?st2 (c, 0, 1)) = current_dir_cluster st"
    "de_attr (slot_entry ?st2 (c, 0, 1)) AND ATTR_DIRECTORY \<noteq> 0"
    using d st1(5,8) by (auto simp: dot_entry_def child_cluster_of_def ATTR_DIRECTORY_def simp del: slot_entry_simp split: if_splits)
  have "lookup_slot ?st2 [c] (format_filename (cstr ''..'')) = Some (c, 0, 1)"
    unfolding format_dotdot using dots_lookup [OF st1(7,4,5)] by (simp del: slot_entry_simp)
  then have "fat32_cd ?st2 (cstr ''..'') = Some (?st2\<lparr>current_dir_cluster := current_dir_cluster st\<rparr>)"
    using cd_name [of ?st2 "[c]" "cstr ''..''" "(c, 0, 1)"] ch2 d st1(7) dotdot_name
    by (auto simp del: slot_entry_simp)
  with 1 st1(1) show ?thesis by auto
qed

theorem mkdir_cd_and_back_witness:
  "\<exists>st1 st2 st3. fat32_create_directory blank_volume (cstr ''a'') = Some st1 \<and>
    fat32_cd st1 (cstr ''a'') = Some st2 \<and> current_dir_cluster st2 = 3 \<and>
    fat32_cd st2 (cstr ''..'') = Some st3 \<and> current_dir_cluster st3 = 2"
proof -
  have "0x2F \<notin> set (cstr ''a'')" "length (cstr ''a'') \<le> 127" by code_simp+
  then show ?thesis
    using mkdir_cd_and_back [of blank_volume "[]" "cstr ''a''" 3 "(2, 0, 0)"]
      blank_dir blank_lookup blank_free blank_free_slot cstr_a format_a' blank_next [of 2]
    by auto
qed

text \<open>
  in a directory below the root, \<open>fat32_pwd\<close> prints a slash and the first eight bytes of the
  name under which the root lists it, without spaces.
\<close>

theorem pwd_below_root:
  assumes "dir_at st (root_cluster (fs st)) cl" and "current_dir_cluster st = c" and "c \<noteq> 0" and "c \<noteq> root_cluster (fs st)"
    and "dot_entry ((replicate 11 0x20)[0 := 0x2E, 1 := 0x2E]) 0 (slot_entry st (c, 0, 1))"
    and "find (\<lambda>sl. de_attr (slot_entry st sl) AND ATTR_DIRECTORY \<noteq> 0 \<and> entry_cluster (slot_entry st sl) = c)
      (listed_slots st cl) = Some sl"
  shows "fat32_pwd st = Some (st\<lparr>tty := tty st @ [0x2F] @
    cstr_of (filter (\<lambda>b. b \<noteq> 0x20) (take 8 (de_name (slot_entry st sl)))) @ [0x0A]\<rparr>)"
proof -
  have "pwd_climb 16 st c [] = Some [c]"
    using assms(4,5) by (simp add: numeral_eq_Suc dot_entry_def Let_def)
  moreover have "find_dirname_in_parent (console_print m st) p x = find_dirname_in_parent st p x" for m p x
    unfolding find_dirname_in_parent_def scan_cluster_def console_print_sel console_print_disk ..
  ultimately show ?thesis
    using find_dirname_found [OF assms(1,6,3,4)] assms(2,4)
    by (simp add: fat32_pwd_def Let_def console_print_def)
qed

theorem pwd_below_root_witness:
  "map_option tty (fat32_pwd nested_volume) = Some (cstr ''/A'' @ [0x0A])"
proof -
  let ?v = "one_entry_volume (sample_entry name_a 0x10)"
  let ?d = "set_entry_cluster 0 ((get_entry (replicate 512 0) 1)\<lparr>de_name := (replicate 11 0x20)[0 := 0x2E, 1 := 0x2E],
        de_attr := ATTR_DIRECTORY, de_file_size := 0\<rparr>)"
  have len: "length (de_name (sample_entry name_a 0x10)) = 11" by (simp add: sample_entry_facts)
  note f = one_entry_facts [OF len]
  note l = one_lookup [of name_a "0x10"]
  have m: "(3, 0, i) \<in> set (dir_slots ?v [3])" if "i < 16" for i using that by (simp add: f(3) blank_slots)
  have e3: "slot_entry nested_volume (3, 0, 1) = ?d"
    using slot_entry_set_slot [OF f(6) m m, of 1 1 ?d] by (simp add: nested_volume_def)
  have ok: "sector_ok ?v 2 0" "sector_ok ?v 3 0" using dir_atD(4) [OF f(5), of 2 0] dir_atD(4) [OF f(6), of 3 0] f(1) by simp_all
  have e2: "slot_entry nested_volume (2, 0, i) = slot_entry ?v (2, 0, i)" for i
    using ok by (simp add: nested_volume_def set_slot_def vol.rds_other)
  have sel: "fs nested_volume = fs ?v" "current_dir_cluster nested_volume = 3" "tty nested_volume = []"
    by (simp_all add: nested_volume_def one_entry_volume_def) (simp add: blank_volume_def)
  have "listed_slots nested_volume [2] = listed_slots ?v [2]"
    using e2 by (intro listed_slots_cong [OF sel(1)]) (auto simp: f(3) blank_slots simp del: slot_entry_simp)
  then have ls: "listed_slots nested_volume [2] = [(2, 0, 0)]" using l(1) by simp
  have d2: "dir_at nested_volume 2 [2]"
    using f(5) dir_at_set_slot [OF f(6) m, of 1] by (simp add: nested_volume_def)
  have e0: "slot_entry nested_volume (2, 0, 0) = sample_entry name_a 0x10" using e2 l(4) by (simp del: slot_entry_simp)
  have "fat32_pwd nested_volume = Some (nested_volume\<lparr>tty := tty nested_volume @ [0x2F] @
    cstr_of (filter (\<lambda>b. b \<noteq> 0x20) (take 8 (de_name (slot_entry nested_volume (2, 0, 0))))) @ [0x0A]\<rparr>)"
    using d2 sel f(1) e3 e0 ls sample_entry_facts [of name_a "0x10"]
    by (intro pwd_below_root [where cl = "[2]" and c = 3])
       (simp_all add: dot_entry_def ATTR_DIRECTORY_def del: slot_entry_simp)
  moreover have "[0x2F] @ cstr_of (filter (\<lambda>b. b \<noteq> 0x20) (take 8 name_a)) @ [0x0A] = cstr ''/A'' @ [0x0A]" by code_simp
  ultimately show ?thesis using sel e0 sample_entry_facts(2) [of name_a "0x10"] by (simp del: slot_entry_simp)
qed

end
