(* ===== verification/Fat32_File.thy ===== *)
theory Fat32_File
  imports Fat32_Dir
begin

text \<open>
  Reading and writing files in \<open>src/kernel/fs/fat32.c\<close>: whole-file reads, \<open>cat\<close>, the write of
  a new file, and the positioned read that the virtual file system uses. A call that never
  returns, or that divides by a zero cluster size, has the value \<open>None\<close>.
\<close>

unbundle bit_operations_syntax

section \<open>Whole-file reads\<close>

definition bytes_per_cluster :: "fat_state \<Rightarrow> u32" where
  "bytes_per_cluster st = ucast (sectors_per_cluster (fs st)) * 512"

text \<open>
  \<open>fat32_read_file\<close>: the bytes stored from \<open>destination\<close> on, sector by sector; the count of
  remaining bytes ends the loops.
\<close>

definition fat32_read_file :: "fat_state \<Rightarrow> fat32_dir_entry \<Rightarrow> u8 list option" where
  "fat32_read_file st entry =
     map_option (flow_result snd)
       (cluster_loop 0x0FFFFFF8 (fat32_next_cluster st)
         (\<lambda>c. for_each
           (\<lambda>i (bytes_remaining, destination).
              let destination = destination @ read_sector_of st c i in
              if 512 < bytes_remaining then Go (bytes_remaining - 512, destination)
              else Done destination)
           [0..<unat (sectors_per_cluster (fs st))])
         (entry_cluster entry) (de_file_size entry, []))"

text \<open>\<open>load_and_run_file\<close>, with the bytes stored from the load address \<open>0x100000\<close> on.\<close>

definition load_and_run_file :: "fat_state \<Rightarrow> u8 list \<Rightarrow> (fat_state \<times> u8 list) option" where
  "load_and_run_file st name =
     Option.bind (fat32_find_file st name)
       (\<lambda>file. case file of
          Some entry \<Rightarrow>
            (let st1 = console_print (cstr ''File found! Loading...'' @ [0x0A]) st in
             map_option (\<lambda>bytes. (console_print (cstr ''Read complete.'' @ [0x0A]) st1, bytes))
               (fat32_read_file st1 entry))
        | None \<Rightarrow> Some (console_print (cstr ''File not found.'' @ [0x0A]) st, []))"

text \<open>
  One sector of \<open>fat32_cat\<close>: the byte after the last one to print is set to NUL, and
  \<open>console_print\<close> prints the string that starts the buffer.
\<close>

definition cat_sector :: "fat_state \<Rightarrow> u32 \<Rightarrow> nat \<Rightarrow> fat_state \<times> u32 \<Rightarrow> fat_state \<times> u32" where
  "cat_sector st c i acc =
     (case acc of (st', bytes_remaining) \<Rightarrow>
        if 0 < bytes_remaining then
          (let to_print = (if 512 < bytes_remaining then 512 else bytes_remaining);
               sector_buffer = (read_sector_of st c i @ [0])[unat to_print := 0]
           in (console_print (cstr_of sector_buffer) st', bytes_remaining - to_print))
        else acc)"

definition fat32_cat :: "fat_state \<Rightarrow> u8 list \<Rightarrow> fat_state option" where
  "fat32_cat st filename =
     Option.bind (fat32_find_file st filename)
       (\<lambda>found. case found of
          None \<Rightarrow> Some (console_print (cstr ''File not found.'' @ [0x0A]) st)
        | Some entry \<Rightarrow>
            map_option (\<lambda>fl. console_print [0x0A] (flow_result fst fl))
              (cluster_loop 0x0FFFFFF8 (fat32_next_cluster st)
                (\<lambda>c (st', bytes_remaining).
                   if 0 < bytes_remaining then
                     Go (for_all (cat_sector st c) [0..<unat (sectors_per_cluster (fs st))] (st', bytes_remaining))
                   else Done st')
                (entry_cluster entry) (st, de_file_size entry)))"

section \<open>Writing a file\<close>

text \<open>The buffer for the last, partial sector: \<open>chunk_size\<close> bytes of data, then zeros.\<close>

definition pad_chunk :: "u8 list \<Rightarrow> u32 \<Rightarrow> u32 \<Rightarrow> u8 list" where
  "pad_chunk data data_offset chunk_size =
     for_all (\<lambda>j padding. padding[j := data ! unat (data_offset + of_nat j)]) [0..<unat chunk_size] (replicate 512 0)"

text \<open>The data sectors of the \<open>i\<close>-th cluster of the file.\<close>

definition write_cluster :: "u8 list \<Rightarrow> u32 \<Rightarrow> nat \<Rightarrow> u32 \<Rightarrow> fat_state \<Rightarrow> fat_state" where
  "write_cluster data sz i current_cluster st =
     for_all
       (\<lambda>s st'. let data_offset = of_nat i * bytes_per_cluster st + of_nat s * 512 in
          if data_offset < sz then
            (let chunk_size = sz - data_offset in
             if 512 \<le> chunk_size then write_sector_of current_cluster s (take 512 (drop (unat data_offset) data)) st'
             else write_sector_of current_cluster s (pad_chunk data data_offset chunk_size) st')
          else st')
       [0..<unat (sectors_per_cluster (fs st))] st"

text \<open>One turn of the allocation loop; its state is the driver state, the previous and the first cluster.\<close>

definition alloc_step ::
  "u8 list \<Rightarrow> u32 \<Rightarrow> nat \<Rightarrow> fat_state \<times> u32 \<times> u32 \<Rightarrow> (fat_state \<times> u32 \<times> u32, fat_state) flow" where
  "alloc_step data sz i acc =
     (case acc of (st, prev_cluster, first_cluster) \<Rightarrow>
        (let current_cluster = fat32_find_free_cluster st in
         if current_cluster = 0x0FFFFFFF then Done st
         else
           (let first_cluster = (if i = 0 then current_cluster else first_cluster);
                st1 = (if i = 0 then st else fat32_set_next_cluster prev_cluster current_cluster st);
                st2 = fat32_set_next_cluster current_cluster 0x0FFFFFFF st1;
                st3 = write_cluster data sz i current_cluster st2
            in Go (st3, current_cluster, first_cluster))))"

definition file_entry :: "u8 list \<Rightarrow> u32 \<Rightarrow> u32 \<Rightarrow> fat32_dir_entry \<Rightarrow> fat32_dir_entry" where
  "file_entry filename first_cluster sz e =
     (set_entry_cluster first_cluster (e\<lparr>de_name := format_filename filename, de_attr := 0x20\<rparr>))\<lparr>de_file_size := sz\<rparr>"

definition fat32_write_file :: "fat_state \<Rightarrow> u8 list \<Rightarrow> u8 list \<Rightarrow> u32 \<Rightarrow> fat_state option" where
  "fat32_write_file st filename data sz =
     (let bpc = bytes_per_cluster st in
      if bpc = 0 then None
      else
        (let clusters_needed = (sz + bpc - 1) div bpc in
         case for_each (alloc_step data sz) [0..<unat clusters_needed] (st, 0, 0) of
           Done st' \<Rightarrow> Some st'
         | Go (st1, prev_cluster, first_cluster) \<Rightarrow>
             map_option (flow_result (\<lambda>_. st1))
               (scan_dir st1 (current_dir_cluster st1)
                 (\<lambda>c s dir_buffer i (_ :: unit). let e = get_entry dir_buffer i in
                    if entry_end e \<or> entry_deleted e then
                      Done (write_sector_of c s (put_entry dir_buffer i (file_entry filename first_cluster sz e)) st1)
                    else Go ())
                 ())))"

section \<open>Positioned reads\<close>

text \<open>The loop that walks to the cluster of \<open>offset\<close>; the inner \<open>None\<close> is the early \<open>return 0\<close>.\<close>

partial_function (option) seek_cluster :: "fat_state \<Rightarrow> u32 \<Rightarrow> u32 \<Rightarrow> (u32 \<times> u32) option option" where
  "seek_cluster st cluster offset =
     (if bytes_per_cluster st \<le> offset then
        (let cluster' = fat32_next_cluster st cluster in
         if in_chain cluster' then seek_cluster st cluster' (offset - bytes_per_cluster st) else Some None)
      else Some (Some (cluster, offset)))"

text \<open>
  The loop over the sectors of one cluster. The state is the caller's buffer, \<open>total_read\<close>,
  \<open>size\<close>, \<open>offset\<close> and \<open>sector_offset\<close>.
\<close>

definition read_chunk ::
  "fat_state \<Rightarrow> u32 \<Rightarrow> nat \<Rightarrow> u8 list \<times> u32 \<times> u32 \<times> u32 \<times> u32 \<Rightarrow> u8 list \<times> u32 \<times> u32 \<times> u32 \<times> u32" where
  "read_chunk st cluster s acc =
     (case acc of (buffer, total_read, sz, offset, sector_offset) \<Rightarrow>
        if 0 < sz then
          (let sector_buffer = read_sector_of st cluster s;
               chunk = (if sz < 512 - sector_offset then sz else 512 - sector_offset)
           in (memcpy buffer (unat total_read) sector_buffer (unat sector_offset) (unat chunk),
               total_read + chunk, sz - chunk, 0, 0))
        else acc)"

definition read_cluster ::
  "fat_state \<Rightarrow> u32 \<Rightarrow> u8 list \<times> u32 \<times> u32 \<times> u32 \<Rightarrow> u8 list \<times> u32 \<times> u32 \<times> u32" where
  "read_cluster st cluster acc =
     (case acc of (buffer, total_read, sz, offset) \<Rightarrow>
        (let sector_index = offset div 512;
             sector_offset = offset mod 512
         in case for_all (read_chunk st cluster)
                [unat (ucast sector_index :: u8)..<unat (sectors_per_cluster (fs st))]
                (buffer, total_read, sz, offset, sector_offset) of
              (buffer, total_read, sz, offset, _) \<Rightarrow> (buffer, total_read, sz, offset)))"

partial_function (option) read_clusters ::
  "fat_state \<Rightarrow> u32 \<Rightarrow> u8 list \<times> u32 \<times> u32 \<times> u32 \<Rightarrow> (u32 \<times> u8 list) option" where
  "read_clusters st cluster acc =
     (case acc of (buffer, total_read, sz, offset) \<Rightarrow>
        if 0 < sz \<and> in_chain cluster then
          read_clusters st (fat32_next_cluster st cluster) (read_cluster st cluster acc)
        else Some (total_read, buffer))"

definition fat32_read_absolute :: "fat_state \<Rightarrow> u32 \<Rightarrow> u32 \<Rightarrow> u32 \<Rightarrow> u8 list \<Rightarrow> (u32 \<times> u8 list) option" where
  "fat32_read_absolute st start_cluster offset sz buffer =
     Option.bind (seek_cluster st start_cluster offset)
       (\<lambda>pos. case pos of
          None \<Rightarrow> Some (0, buffer)
        | Some (cluster, offset) \<Rightarrow> read_clusters st cluster (buffer, 0, sz, offset))"

section \<open>Specification\<close>

text \<open>The bytes of a cluster and of the file whose chain is \<open>cl\<close>.\<close>

definition cluster_bytes :: "fat_state \<Rightarrow> u32 \<Rightarrow> u8 list" where
  "cluster_bytes st c = concat (map (read_sector_of st c) [0..<unat (sectors_per_cluster (fs st))])"

definition file_bytes :: "fat_state \<Rightarrow> u32 list \<Rightarrow> u8 list" where
  "file_bytes st cl = concat (map (cluster_bytes st) cl)"

definition chain_sectors :: "fat_state \<Rightarrow> u32 list \<Rightarrow> (u32 \<times> nat) list" where
  "chain_sectors st cl = concat (map (\<lambda>c. map (\<lambda>s. (c, s)) [0..<unat (sectors_per_cluster (fs st))]) cl)"

text \<open>
  The sector of the file that starts at position \<open>p\<close>, as it is written: data, then zeros; and
  the position of sector \<open>s\<close> of the \<open>i\<close>-th cluster.
\<close>

definition file_sector :: "u8 list \<Rightarrow> u32 \<Rightarrow> nat \<Rightarrow> u8 list" where
  "file_sector data sz p = take 512 (take (unat sz - p) (drop p data) @ replicate 512 0)"

definition sector_pos :: "fat_state \<Rightarrow> nat \<Rightarrow> nat \<Rightarrow> nat" where
  "sector_pos st i s = (i * unat (sectors_per_cluster (fs st)) + s) * 512"

definition free_clusters :: "fat_state \<Rightarrow> u32 set" where
  "free_clusters st = {c. data_cluster (fs st) c \<and> fat32_next_cluster st c = 0}"

definition link_cluster :: "u32 list \<Rightarrow> u32 \<Rightarrow> u32 \<Rightarrow> fat_state \<Rightarrow> fat_state" where
  "link_cluster cl prev c st' =
     fat32_set_next_cluster c 0x0FFFFFFF (if cl = [] then st' else fat32_set_next_cluster prev c st')"

text \<open>
  The invariant of the allocation loop: the clusters \<open>cl\<close> taken so far were free, form a chain
  that ends in \<open>0x0FFFFFFF\<close> and hold the first sectors of the data; all other links and sectors
  are as at the start.
\<close>

definition alloc_inv :: "fat_state \<Rightarrow> u8 list \<Rightarrow> u32 \<Rightarrow> u32 list \<Rightarrow> fat_state \<times> u32 \<times> u32 \<Rightarrow> bool" where
  "alloc_inv st data sz cl acc \<longleftrightarrow>
     (case acc of (st', prev, fst_c) \<Rightarrow>
        fs st' = fs st \<and> current_dir_cluster st' = current_dir_cluster st \<and> tty st' = tty st \<and>
        (\<forall>x \<in> set cl. data_cluster (fs st) x \<and> fat32_next_cluster st x = 0) \<and>
        chain (fat32_next_cluster st') fst_c cl \<and>
        (cl = [] \<longrightarrow> fst_c = 0) \<and>
        (cl \<noteq> [] \<longrightarrow> prev = last cl \<and> fat32_next_cluster st' prev = 0x0FFFFFFF) \<and>
        (\<forall>x. fat_entry_ok st x \<and> x \<notin> set cl \<longrightarrow> fat32_next_cluster st' x = fat32_next_cluster st x) \<and>
        (\<forall>x s. sector_ok st x s \<and> x \<notin> set cl \<longrightarrow> read_sector_of st' x s = read_sector_of st x s) \<and>
        (\<forall>j s. j < length cl \<and> s < unat (sectors_per_cluster (fs st)) \<and> sector_pos st j s < unat sz \<longrightarrow>
           read_sector_of st' (cl ! j) s = file_sector data sz (sector_pos st j s)))"

section \<open>Lemmas: positioned reads\<close>

lemma length_sectors [simp]: "length (concat (map (read_sector_of st c) ss)) = 512 * length ss"
  by (induction ss) simp_all

lemma length_cluster_bytes [simp]: "length (cluster_bytes st c) = 512 * unat (sectors_per_cluster (fs st))"
  by (simp add: cluster_bytes_def)

lemma length_file_bytes [simp]: "length (file_bytes st cl) = length cl * (512 * unat (sectors_per_cluster (fs st)))"
  by (induction cl) (simp_all add: file_bytes_def)

lemma file_bytes_Cons [simp]: "file_bytes st (c # cl) = cluster_bytes st c @ file_bytes st cl"
  by (simp add: file_bytes_def)

lemma unat_bpc: "unat (bytes_per_cluster st) = 512 * unat (sectors_per_cluster (fs st))"
proof -
  have "unat (sectors_per_cluster (fs st)) < 8388608"
    using unat_u8_less [of "sectors_per_cluster (fs st)"] by linarith
  then show ?thesis unfolding bytes_per_cluster_def by (subst unat_mult_u32) simp_all
qed

lemma bpc_nonzero: "geometry (fs st) \<Longrightarrow> bytes_per_cluster st \<noteq> 0"
  using unat_bpc [of st] by (auto simp: geometry_def)

lemma seek_cluster_chain:
  assumes "chain (fat32_next_cluster st) c cl" and "cl \<noteq> []" and "0 < unat (sectors_per_cluster (fs st))"
  shows "seek_cluster st c offset =
    (let k = unat (bytes_per_cluster st) in
     if unat offset < length cl * k then Some (Some (cl ! (unat offset div k), of_nat (unat offset mod k)))
     else Some None)"
  using assms(1,2)
proof (induction cl arbitrary: c offset)
  case (Cons x cl)
  let ?k = "unat (bytes_per_cluster st)"
  have k: "0 < ?k" using assms(3) by (simp add: unat_bpc)
  have c: "x = c" "in_chain c" "chain (fat32_next_cluster st) (fat32_next_cluster st c) cl" using Cons.prems(1) by auto
  show ?case
  proof (cases "unat offset < ?k")
    case True
    then have "\<not> bytes_per_cluster st \<le> offset" by (simp add: word_le_nat_alt)
    with True c show ?thesis by (subst seek_cluster.simps) simp
  next
    case False
    then have le: "bytes_per_cluster st \<le> offset" by (simp add: word_le_nat_alt)
    have u: "unat (offset - bytes_per_cluster st) = unat offset - ?k" using le by (simp add: unat_sub_u32 word_le_nat_alt)
    show ?thesis
    proof (cases "cl = []")
      case True
      with c False le show ?thesis by (subst seek_cluster.simps) (simp add: Let_def)
    next
      case cl: False
      then have "in_chain (fat32_next_cluster st c)" using c(3) by (cases cl) auto
      moreover have "unat offset div ?k = Suc ((unat offset - ?k) div ?k)" "unat offset mod ?k = (unat offset - ?k) mod ?k"
        using False k by (simp_all add: le_div_geq le_mod_geq)
      ultimately show ?thesis
        using Cons.IH [OF c(3) cl, of "offset - bytes_per_cluster st"] le False u
        by (subst seek_cluster.simps) (auto simp: Let_def c(1) less_diff_conv2 add.commute)
    qed
  qed
qed simp

lemma read_chunk_step:
  assumes "0 < sz" and "unat so < 512" and "unat tot + unat sz < 4294967296" and "unat tot + unat sz \<le> length buf"
  defines "n \<equiv> min (unat sz) (512 - unat so)"
  shows "read_chunk st c s (buf, tot, sz, off, so) =
    (put_bytes buf (unat tot) (take n (drop (unat so) (read_sector_of st c s))), tot + of_nat n, sz - of_nat n, 0, 0)"
proof -
  have u: "unat (512 - so) = 512 - unat so" using assms(2) by (simp add: unat_sub_u32)
  define chunk where "chunk = (if sz < 512 - so then sz else 512 - so)"
  have ch: "unat chunk = n" unfolding chunk_def n_def by (simp add: word_less_nat_alt u min_def)
  then have cn: "chunk = of_nat n" by (simp flip: ch)
  have "memcpy buf (unat tot) (read_sector_of st c s) (unat so) n =
      put_bytes buf (unat tot) (take n (drop (unat so) (read_sector_of st c s)))"
    using assms(2,4) by (intro memcpy_put_bytes) (auto simp: n_def)
  with assms(1) show ?thesis
    unfolding read_chunk_def by (simp add: Let_def chunk_def [symmetric] ch) (simp add: cn)
qed

lemma read_chunk_none: "fold (read_chunk st c) ss (buf, tot, 0, off, so) = (buf, tot, 0, off, so)"
  by (induction ss) (simp_all add: read_chunk_def)

lemma read_chunks:
  assumes "unat so < 512" and "unat tot + unat sz < 4294967296" and "unat tot + unat sz \<le> length buf"
    and "ss \<noteq> []" and "0 < sz" and "D = drop (unat so) (concat (map (read_sector_of st c) ss))"
    and "n = min (unat sz) (length D)"
  shows "fold (read_chunk st c) ss (buf, tot, sz, off, so) =
    (put_bytes buf (unat tot) (take n D), tot + of_nat n, sz - of_nat n, 0, 0)"
  using assms
proof (induction ss arbitrary: buf tot sz off so D n)
  case (Cons s ss)
  define n1 where "n1 = min (unat sz) (512 - unat so)"
  define x1 where "x1 = drop (unat so) (read_sector_of st c s)"
  note step = read_chunk_step [OF Cons.prems(5,1-3), of st c s off, folded n1_def]
  have D: "D = x1 @ concat (map (read_sector_of st c) ss)" using Cons.prems(1,6) by (simp add: x1_def)
  have l1: "length x1 = 512 - unat so" by (simp add: x1_def)
  have un1: "unat (of_nat n1 :: u32) = n1" by (simp add: n1_def unat_of_nat_u32 min_def)
  have usz: "unat (sz - of_nat n1) = unat sz - n1" using un1 by (simp add: unat_sub_u32 n1_def)
  have utot: "unat (tot + of_nat n1) = unat tot + n1"
    using un1 Cons.prems(2) by (simp add: unat_add_u32 n1_def)
  show ?case
  proof (cases "ss = [] \<or> unat sz \<le> 512 - unat so")
    case True
    then have n: "n = n1" using Cons.prems(7) D l1 by (auto simp: n1_def)
    have t: "take n1 D = take n1 x1" using D l1 by (simp add: n1_def)
    have "fold (read_chunk st c) ss (b, t, sz - of_nat n1, 0, 0) = (b, t, sz - of_nat n1, 0, 0)" for b t
    proof (cases "ss = []")
      case False
      then have "n1 = unat sz" using True by (simp add: n1_def)
      then have "sz - of_nat n1 = 0" by simp
      then show ?thesis by (simp add: read_chunk_none)
    qed simp
    then show ?thesis by (simp add: step n t x1_def [symmetric])
  next
    case False
    then have n1: "n1 = 512 - unat so" by (simp add: n1_def)
    define m where "m = min (unat (sz - of_nat n1)) (length (concat (map (read_sector_of st c) ss)))"
    have nm: "n = n1 + m" using Cons.prems(7) D l1 n1 False usz by (simp add: m_def min_add_left)
    have t: "take n D = x1 @ take m (concat (map (read_sector_of st c) ss))" using D l1 nm n1 by simp
    have sz: "0 < sz - of_nat n1" using False n1 usz by (simp add: word_less_nat_alt)
    have "fold (read_chunk st c) ss (put_bytes buf (unat tot) x1, tot + of_nat n1, sz - of_nat n1, 0, 0) =
      (put_bytes (put_bytes buf (unat tot) x1) (unat tot + n1) (take m (concat (map (read_sector_of st c) ss))),
       tot + of_nat n1 + of_nat m, sz - of_nat n1 - of_nat m, 0, 0)"
      using Cons.IH [of 0 "tot + of_nat n1" "sz - of_nat n1" "put_bytes buf (unat tot) x1"
          "concat (map (read_sector_of st c) ss)" m 0] False sz Cons.prems(2,3) usz utot l1 n1
      by (simp add: m_def)
    moreover have "put_bytes (put_bytes buf (unat tot) x1) (unat tot + n1) (take m (concat (map (read_sector_of st c) ss))) =
      put_bytes buf (unat tot) (take n D)"
      using put_bytes_chain [of "unat tot" x1 buf] l1 n1 Cons.prems(3) False by (simp add: t)
    moreover have "take n1 x1 = x1" using l1 n1 by simp
    ultimately show ?thesis using step by (simp add: nm x1_def [symmetric] add.assoc diff_diff_eq)
  qed
qed simp

lemma read_cluster_eq:
  assumes "unat off < unat (bytes_per_cluster st)" and "unat tot + unat sz < 4294967296"
    and "unat tot + unat sz \<le> length buf" and "0 < sz"
    and "D = drop (unat off) (cluster_bytes st c)" and "n = min (unat sz) (length D)"
  shows "read_cluster st c (buf, tot, sz, off) =
    (put_bytes buf (unat tot) (take n D), tot + of_nat n, sz - of_nat n, 0)"
proof -
  let ?k = "unat (sectors_per_cluster (fs st))"
  let ?q = "unat off div 512"
  have q: "?q < ?k" using assms(1) by (simp add: unat_bpc less_mult_imp_div_less mult.commute)
  have q8: "?q < 256" using q unat_u8_less [of "sectors_per_cluster (fs st)"] by linarith
  have u: "unat (off div 512) = ?q" by (simp add: unat_div)
  have "unat (ucast (off div 512) :: u8) = ?q"
    using q8 u by (simp add: unsigned_ucast_eq take_bit_nat_eq_self)
  moreover have "concat (map (read_sector_of st c) [?q..<?k]) = drop (?q * 512) (cluster_bytes st c)"
    using concat_drop_uniform [of "[0..<?k]" "read_sector_of st c" 512 ?q 0] q by (simp add: cluster_bytes_def)
  moreover have "drop (unat (off mod 512)) (drop (?q * 512) (cluster_bytes st c)) = D"
    unfolding assms(5) by (simp add: unat_mod)
  ultimately show ?thesis
    using read_chunks [of "off mod 512" tot sz buf "[?q..<?k]" D st c n off] assms q
    by (simp add: read_cluster_def for_all_def unat_mod)
qed

lemma read_clusters_chain:
  assumes "chain (fat32_next_cluster st) c cl" and "unat off < unat (bytes_per_cluster st)"
    and "unat tot + unat sz < 4294967296" and "unat tot + unat sz \<le> length buf"
    and "D = drop (unat off) (file_bytes st cl)" and "n = min (unat sz) (length D)"
  shows "read_clusters st c (buf, tot, sz, off) = Some (tot + of_nat n, put_bytes buf (unat tot) (take n D))"
  using assms
proof (induction cl arbitrary: c buf tot sz off D n)
  case Nil
  then have "n = 0" by (simp add: file_bytes_def)
  with Nil show ?case by (subst read_clusters.simps) simp
next
  case (Cons x cl)
  show ?case
  proof (cases "sz = 0")
    case True
    then have "n = 0" using Cons.prems(6) by simp
    with True show ?thesis by (subst read_clusters.simps) simp
  next
    case False
    define D1 where "D1 = drop (unat off) (cluster_bytes st c)"
    define n1 where "n1 = min (unat sz) (length D1)"
    have c: "x = c" "in_chain c" "chain (fat32_next_cluster st) (fat32_next_cluster st c) cl" using Cons.prems(1) by auto
    have pos: "0 < sz" using False by (simp add: word_gt_0)
    note st1 = read_cluster_eq [OF Cons.prems(2-4) pos D1_def n1_def]
    have D: "D = D1 @ file_bytes st cl"
      using Cons.prems(2,5) c(1) by (simp add: D1_def unat_bpc)
    define m where "m = min (unat sz - n1) (length (file_bytes st cl))"
    have "n1 \<le> unat sz" by (simp add: n1_def)
    then have un1: "unat (of_nat n1 :: u32) = n1"
      using unat_u32_less [of sz] by (intro unat_of_nat_u32) linarith
    have usz: "unat (sz - of_nat n1) = unat sz - n1" using un1 by (simp add: unat_sub_u32 n1_def)
    have utot: "unat (tot + of_nat n1) = unat tot + n1"
      using un1 Cons.prems(3) by (simp add: unat_add_u32 n1_def)
    have nm: "n = n1 + m" and t: "take n D = take n1 D1 @ take m (file_bytes st cl)"
      using Cons.prems(6) D by (auto simp: n1_def m_def min_def)
    have "read_clusters st (fat32_next_cluster st c) (put_bytes buf (unat tot) (take n1 D1), tot + of_nat n1, sz - of_nat n1, 0) =
      Some (tot + of_nat n1 + of_nat m, put_bytes (put_bytes buf (unat tot) (take n1 D1)) (unat tot + n1) (take m (file_bytes st cl)))"
      using Cons.IH [OF c(3), of 0 "tot + of_nat n1" "sz - of_nat n1" "put_bytes buf (unat tot) (take n1 D1)" "file_bytes st cl" m]
        Cons.prems(2-4) usz utot by (simp add: m_def n1_def)
    moreover have "put_bytes (put_bytes buf (unat tot) (take n1 D1)) (unat tot + n1) (take m (file_bytes st cl)) =
        put_bytes buf (unat tot) (take n D)"
      using put_bytes_chain [of "unat tot" "take n1 D1" buf "take m (file_bytes st cl)"] Cons.prems(4) t
      by (simp add: n1_def)
    ultimately show ?thesis
      using pos c(2) by (subst read_clusters.simps) (simp add: st1 nm add.assoc)
  qed
qed

lemma read_absolute_chain:
  assumes "chain (fat32_next_cluster st) c cl" and "cl \<noteq> []" and "0 < unat (sectors_per_cluster (fs st))"
    and "unat sz \<le> length buf" and "n = min (unat sz) (length (file_bytes st cl) - unat off)"
  shows "fat32_read_absolute st c off sz buf =
    Some (of_nat n, put_bytes buf 0 (take n (drop (unat off) (file_bytes st cl))))"
proof -
  let ?k = "unat (bytes_per_cluster st)"
  have k: "0 < ?k" using assms(3) by (simp add: unat_bpc)
  have len: "length (file_bytes st cl) = length cl * ?k" by (simp add: unat_bpc)
  show ?thesis
  proof (cases "unat off < length cl * ?k")
    case False
    then have "n = 0" unfolding assms(5) len by simp
    with False show ?thesis
      using seek_cluster_chain [OF assms(1-3), of off] by (simp add: fat32_read_absolute_def Let_def)
  next
    case True
    define q where "q = unat off div ?k"
    define r where "r = unat off mod ?k"
    have q: "q < length cl" using True k by (simp add: q_def less_mult_imp_div_less)
    have r: "r < ?k" using k by (simp add: r_def)
    have ur: "unat (of_nat r :: u32) = r"
      using r unat_u32_less [of "bytes_per_cluster st"] by (intro unat_of_nat_u32) linarith
    have cl: "cl = take q cl @ cl ! q # drop (Suc q) cl" using q by (rule id_take_nth_drop)
    have ch: "chain (fat32_next_cluster st) (cl ! q) (cl ! q # drop (Suc q) cl)"
      using chain_append assms(1) cl by metis
    have D: "drop (unat off) (file_bytes st cl) = drop r (file_bytes st (cl ! q # drop (Suc q) cl))"
    proof -
      have "q * ?k + r = unat off" by (simp add: q_def r_def)
      moreover have "drop (q * ?k + r) (concat (map (cluster_bytes st) cl)) =
          drop r (concat (map (cluster_bytes st) (drop q cl)))"
        using q by (intro concat_drop_uniform) (simp_all add: unat_bpc)
      ultimately show ?thesis using q by (simp add: file_bytes_def Cons_nth_drop_Suc del: concat.simps list.map)
    qed
    have "n = min (unat sz) (length (drop (unat off) (file_bytes st cl)))" using assms(5) by (simp only: length_drop)
    moreover have "drop (unat off) (file_bytes st cl) = drop (unat (of_nat r :: u32)) (file_bytes st (cl ! q # drop (Suc q) cl))"
      unfolding ur by (rule D)
    moreover have "unat (of_nat r :: u32) < ?k" using r ur by (simp only:)
    ultimately have "read_clusters st (cl ! q) (buf, 0, sz, of_nat r) =
        Some (0 + of_nat n, put_bytes buf (unat (0 :: u32)) (take n (drop (unat off) (file_bytes st cl))))"
      using assms(4) by (intro read_clusters_chain [OF ch]) simp_all
    then show ?thesis
      using seek_cluster_chain [OF assms(1-3), of off] True
      by (simp add: fat32_read_absolute_def Let_def q_def r_def)
  qed
qed

lemma read_back:
  assumes "dir_at st c cl" and "take (unat sz) (file_bytes st cl) = take (unat sz) data"
    and "unat sz \<le> length (file_bytes st cl)" and "unat off + unat n \<le> unat sz" and "unat n \<le> length buf"
  shows "fat32_read_absolute st c off n buf = Some (n, put_bytes buf 0 (take (unat n) (drop (unat off) data)))"
proof (cases "cl = []")
  case True
  then have z: "unat sz = 0" "unat n = 0" "unat off = 0" using assms(3,4) by (simp_all add: file_bytes_def)
  have "\<not> bytes_per_cluster st \<le> off"
    using bpc_nonzero [OF dir_atD(1) [OF assms(1)]] z(3) by (simp add: word_le_nat_alt unat_eq_zero)
  then have "seek_cluster st c off = Some (Some (c, off))" by (subst seek_cluster.simps) simp
  moreover have "n = 0" using z(2) by (simp add: unat_eq_zero)
  ultimately show ?thesis by (simp add: fat32_read_absolute_def) (subst read_clusters.simps, simp)
next
  case False
  have k: "0 < unat (sectors_per_cluster (fs st))" using dir_atD(1) [OF assms(1)] by (simp add: geometry_def)
  have m: "unat n = min (unat n) (length (file_bytes st cl) - unat off)" using assms(3,4) by linarith
  have "take (unat n) (drop (unat off) (file_bytes st cl)) = take (unat n) (drop (unat off) (take (unat sz) (file_bytes st cl)))"
    using assms(4) by (simp add: drop_take take_take min_def)
  also have "\<dots> = take (unat n) (drop (unat off) data)"
    unfolding assms(2) using assms(4) by (simp add: drop_take take_take min_def)
  finally show ?thesis
    using read_absolute_chain [OF dir_atD(2) [OF assms(1)] False k assms(5) m] by simp
qed

section \<open>Lemmas: the sectors of a cluster are written\<close>

lemma pad_loop:
  assumes "n \<le> 512"
  shows "fold (\<lambda>j (p :: u8 list). p[j := f j]) [0..<n] (replicate 512 0) = map f [0..<n] @ replicate (512 - n) 0"
  using assms
proof (induction n)
  case (Suc n)
  then have "replicate (512 - n) (0 :: u8) = 0 # replicate (512 - Suc n) 0"
    by (metis Suc_diff_Suc Suc_le_lessD replicate_Suc)
  with Suc show ?case by (simp add: list_update_append)
qed simp

lemma pad_chunk_eq:
  assumes "unat off + unat n < 4294967296" and "unat off + unat n \<le> length data" and "unat n \<le> 512"
  shows "pad_chunk data off n = take (unat n) (drop (unat off) data) @ replicate (512 - unat n) 0"
proof -
  have "unat (off + of_nat j) = unat off + j" if "j < unat n" for j
    using that assms by (simp add: unat_add_u32 unat_of_nat_u32)
  then have "map (\<lambda>j. data ! unat (off + of_nat j)) [0..<unat n] = take (unat n) (drop (unat off) data)"
    using assms(2) by (intro nth_equalityI) simp_all
  then show ?thesis
    unfolding pad_chunk_def for_all_def using pad_loop [OF assms(3)] by simp
qed

text \<open>The data offset of a sector does not wrap around.\<close>

lemma data_offset_unat:
  assumes "sector_pos st i s < 4294967296"
  shows "unat (of_nat i * bytes_per_cluster st + of_nat s * 512) = sector_pos st i s"
proof -
  have eq: "sector_pos st i s = i * unat (bytes_per_cluster st) + s * 512"
    by (simp add: sector_pos_def unat_bpc algebra_simps)
  then have "of_nat (sector_pos st i s) = of_nat i * bytes_per_cluster st + of_nat s * (512 :: u32)" by simp
  then show ?thesis using assms by (metis unat_of_nat_u32)
qed

lemma length_file_sector [simp]: "length (file_sector data sz p) = 512"
  by (simp add: file_sector_def)

lemma write_cluster_eq:
  assumes "unat sz \<le> length data" and "\<And>s. s < unat (sectors_per_cluster (fs st)) \<Longrightarrow> sector_pos st i s < 4294967296"
  shows "write_cluster data sz i c st =
    fold (\<lambda>s st'. if sector_pos st i s < unat sz then write_sector_of c s (file_sector data sz (sector_pos st i s)) st' else st')
      [0..<unat (sectors_per_cluster (fs st))] st"
  unfolding write_cluster_def for_all_def Let_def
proof (rule fold_cong [OF refl refl], rule ext)
  fix s st'
  assume "s \<in> set [0..<unat (sectors_per_cluster (fs st))]"
  then have lt: "sector_pos st i s < 4294967296" using assms(2) by simp
  let ?o = "of_nat i * bytes_per_cluster st + of_nat s * 512 :: u32"
  let ?p = "sector_pos st i s"
  note u = data_offset_unat [OF lt]
  have "(if 512 \<le> sz - ?o then write_sector_of c s (take 512 (drop (unat ?o) data)) st'
      else write_sector_of c s (pad_chunk data ?o (sz - ?o)) st') = write_sector_of c s (file_sector data sz ?p) st'"
    if "?p < unat sz"
  proof -
    have d: "unat (sz - ?o) = unat sz - ?p" using that u by (simp add: unat_sub_u32)
    have "unat sz < 4294967296" by (rule unat_u32_less)
    then have pad: "pad_chunk data ?o (sz - ?o) = take (unat sz - ?p) (drop ?p data) @ replicate (512 - (unat sz - ?p)) 0"
      if "unat sz - ?p < 512"
      using pad_chunk_eq [of ?o "sz - ?o" data] that \<open>?p < unat sz\<close> assms(1) u d by simp
    show ?thesis
    proof (cases "512 \<le> unat sz - ?p")
      case True
      then have "file_sector data sz ?p = take 512 (drop ?p data)" using assms(1) by (auto simp: file_sector_def min_def)
      with True show ?thesis by (simp add: word_le_nat_alt d u)
    next
      case False
      then have "file_sector data sz ?p = take (unat sz - ?p) (drop ?p data) @ replicate (512 - (unat sz - ?p)) 0"
        using assms(1) by (simp add: file_sector_def)
      with False pad show ?thesis by (simp add: word_le_nat_alt d)
    qed
  qed
  then show "(if ?o < sz then if 512 \<le> sz - ?o then write_sector_of c s (take 512 (drop (unat ?o) data)) st'
          else write_sector_of c s (pad_chunk data ?o (sz - ?o)) st' else st') =
     (if ?p < unat sz then write_sector_of c s (file_sector data sz ?p) st' else st')"
    by (simp add: word_less_nat_alt u)
qed

lemma write_cluster_view:
  assumes "geometry (fs st)" and "data_cluster (fs st) c" and "unat sz \<le> length data"
    and "\<And>s. s < unat (sectors_per_cluster (fs st)) \<Longrightarrow> sector_pos st i s < 4294967296"
  shows "fs (write_cluster data sz i c st) = fs st"
    and "current_dir_cluster (write_cluster data sz i c st) = current_dir_cluster st"
    and "tty (write_cluster data sz i c st) = tty st"
    and "fat_entry_ok st x \<Longrightarrow> fat32_next_cluster (write_cluster data sz i c st) x = fat32_next_cluster st x"
    and "sector_ok st x s \<Longrightarrow> read_sector_of (write_cluster data sz i c st) x s =
      (if x = c \<and> sector_pos st i s < unat sz then file_sector data sz (sector_pos st i s) else read_sector_of st x s)"
proof -
  have ok: "\<And>s. s \<in> set [0..<unat (sectors_per_cluster (fs st))] \<Longrightarrow> sector_ok st c s"
    using assms(1,2) by (simp add: sector_ok_def)
  have w: "write_cluster data sz i c st =
    fold (\<lambda>s st'. if sector_pos st i s < unat sz then write_sector_of c s (file_sector data sz (sector_pos st i s)) st' else st')
      [0..<unat (sectors_per_cluster (fs st))] st"
    using assms(3,4) by (rule write_cluster_eq)
  show "fs (write_cluster data sz i c st) = fs st"
    "current_dir_cluster (write_cluster data sz i c st) = current_dir_cluster st"
    "tty (write_cluster data sz i c st) = tty st" by (simp_all only: w fold_writes_frame(1-3))
  show "fat32_next_cluster (write_cluster data sz i c st) x = fat32_next_cluster st x" if "fat_entry_ok st x"
    unfolding w using ok that by (rule fold_writes_frame(4))
  show "read_sector_of (write_cluster data sz i c st) x s =
      (if x = c \<and> sector_pos st i s < unat sz then file_sector data sz (sector_pos st i s) else read_sector_of st x s)"
    if "sector_ok st x s"
    unfolding w using ok that by (subst read_fold_writes) (auto simp: sector_ok_def)
qed

lemma sector_pos_cong: "fs st' = fs st \<Longrightarrow> sector_pos st' = sector_pos st"
  by (simp add: fun_eq_iff sector_pos_def)

section \<open>Lemmas: allocation\<close>

lemma link_cluster_sel [simp]:
  "fs (link_cluster cl prev c st') = fs st'" "tty (link_cluster cl prev c st') = tty st'"
  "current_dir_cluster (link_cluster cl prev c st') = current_dir_cluster st'"
  by (simp_all add: link_cluster_def)

lemma link_cluster_view:
  assumes "fat_entry_ok st' c" and "in_chain c" and "cl \<noteq> [] \<Longrightarrow> fat_entry_ok st' prev"
  shows "fat_entry_ok st' x \<Longrightarrow> fat32_next_cluster (link_cluster cl prev c st') x =
      (if x = c then 0x0FFFFFFF else if cl \<noteq> [] \<and> x = prev then c else fat32_next_cluster st' x)"
    and "sector_ok st' x s \<Longrightarrow> read_sector_of (link_cluster cl prev c st') x s = read_sector_of st' x s"
  using assms by (auto simp: link_cluster_def ft.nxt_setn ft.entry_ok_set vol.rds_setn vol.slot_ok_setn masked_cluster)

lemma alloc_step_eq:
  "fat32_find_free_cluster st' = c \<Longrightarrow> c \<noteq> 0x0FFFFFFF \<Longrightarrow>
   alloc_step data sz (length cl) (st', prev, fst_c) =
     Go (write_cluster data sz (length cl) c (link_cluster cl prev c st'), c, if cl = [] then c else fst_c)"
  by (simp add: alloc_step_def link_cluster_def Let_def)

lemma alloc_step_inv:
  assumes g: "geometry (fs st)" and inv: "alloc_inv st data sz cl (st', prev, fst_c)"
    and c: "fat32_find_free_cluster st' = c" and full: "c \<noteq> 0x0FFFFFFF"
    and len: "unat sz \<le> length data" and pos: "\<And>s. s < unat (sectors_per_cluster (fs st)) \<Longrightarrow> sector_pos st (length cl) s < 4294967296"
  shows "alloc_inv st data sz (cl @ [c])
    (write_cluster data sz (length cl) c (link_cluster cl prev c st'), c, if cl = [] then c else fst_c)"
proof -
  have f: "fs st' = fs st" and cwd: "current_dir_cluster st' = current_dir_cluster st" "tty st' = tty st"
    and fr: "\<And>x. x \<in> set cl \<Longrightarrow> data_cluster (fs st) x \<and> fat32_next_cluster st x = 0"
    and ch: "chain (fat32_next_cluster st') fst_c cl" and f0: "cl = [] \<Longrightarrow> fst_c = 0"
    and lst: "cl \<noteq> [] \<Longrightarrow> prev = last cl \<and> fat32_next_cluster st' prev = 0x0FFFFFFF"
    and nx: "\<And>x. fat_entry_ok st x \<Longrightarrow> x \<notin> set cl \<Longrightarrow> fat32_next_cluster st' x = fat32_next_cluster st x"
    and rd: "\<And>x s. sector_ok st x s \<Longrightarrow> x \<notin> set cl \<Longrightarrow> read_sector_of st' x s = read_sector_of st x s"
    and dat: "\<And>j s. j < length cl \<Longrightarrow> s < unat (sectors_per_cluster (fs st)) \<Longrightarrow> sector_pos st j s < unat sz \<Longrightarrow>
           read_sector_of st' (cl ! j) s = file_sector data sz (sector_pos st j s)"
    using inv unfolding alloc_inv_def by auto
  let ?st2 = "link_cluster cl prev c st'"
  let ?st3 = "write_cluster data sz (length cl) c ?st2"
  have ok: "fat_entry_ok st' x \<longleftrightarrow> fat_entry_ok st x" "sector_ok st' x s \<longleftrightarrow> sector_ok st x s"
    "fat_entry_ok ?st2 x \<longleftrightarrow> fat_entry_ok st x" "sector_ok ?st2 x s \<longleftrightarrow> sector_ok st x s" for x s
    using f by (simp_all add: fat_entry_ok_def sector_ok_def)
  have "geometry (fs st')" using f g by simp
  note fc = free_cluster_found [OF this c full]
  have okc: "fat_entry_ok st c" and dc: "data_cluster (fs st) c" using fc ok f by simp_all
  have okl: "fat_entry_ok st x" if "x \<in> set cl" for x using fr [OF that] g by (simp add: fat_entry_ok_def data_cluster_def)
  have nin: "c \<notin> set cl"
  proof
    assume "c \<in> set cl"
    moreover from this have ne: "cl \<noteq> []" by auto
    moreover have "fat32_next_cluster st' (last cl) = 0x0FFFFFFF" using lst [OF ne] by blast
    ultimately show False using chain_links_nz [OF ch, of c] fc(2) by simp
  qed
  have okp: "fat_entry_ok st' prev" if "cl \<noteq> []" using okl lst that ok by simp
  note lv = link_cluster_view [OF fc(4,3) okp, unfolded ok]
  note wv = write_cluster_view [of ?st2 c sz data "length cl", unfolded link_cluster_sel f ok sector_pos_cong [OF trans [OF link_cluster_sel(1) f]], OF g dc len pos]
  have n3: "fat32_next_cluster ?st3 x = (if x = c then 0x0FFFFFFF else if cl \<noteq> [] \<and> x = prev then c else fat32_next_cluster st' x)"
    if "fat_entry_ok st x" for x using that wv(4) lv(1) by simp
  have chn: "chain (fat32_next_cluster ?st3) (if cl = [] then c else fst_c) (cl @ [c])"
  proof (cases "cl = []")
    case True
    then show ?thesis using n3 [OF okc] fc(3) by (simp add: in_chain_def)
  next
    case False
    have "\<not> in_chain (fat32_next_cluster ?st3 c)" using n3 [OF okc] by (simp add: in_chain_def)
    then show ?thesis using False n3 [OF okl] lst nin by (auto intro!: chain_snoc [OF ch False fc(3) nin])
  qed
  have r3: "read_sector_of ?st3 x s = (if x = c \<and> sector_pos st (length cl) s < unat sz
      then file_sector data sz (sector_pos st (length cl) s) else read_sector_of st' x s)" if "sector_ok st x s" for x s
    using that wv(5) lv(2) by simp
  have "fat32_next_cluster ?st3 x = fat32_next_cluster st x" if "fat_entry_ok st x" "x \<notin> set (cl @ [c])" for x
    using that n3 [OF that(1)] nx [of x] lst by (auto dest: last_in_set)
  moreover have "read_sector_of ?st3 x s = read_sector_of st x s" if "sector_ok st x s" "x \<notin> set (cl @ [c])" for x s
    using that r3 rd by simp
  moreover have "read_sector_of ?st3 ((cl @ [c]) ! j) s = file_sector data sz (sector_pos st j s)"
    if "j < length (cl @ [c])" "s < unat (sectors_per_cluster (fs st))" "sector_pos st j s < unat sz" for j s
  proof (cases "j = length cl")
    case True
    then show ?thesis using that r3 [of c s] g dc by (simp add: sector_ok_def)
  next
    case False
    then have j: "j < length cl" "cl ! j \<in> set cl" using that by simp_all
    then have "sector_ok st (cl ! j) s" "cl ! j \<noteq> c" using fr g that(2) nin by (auto simp: sector_ok_def)
    then show ?thesis using r3 dat that j by (simp add: nth_append)
  qed
  moreover have "\<forall>x \<in> set (cl @ [c]). data_cluster (fs st) x \<and> fat32_next_cluster st x = 0"
    using fr dc fc(2) nx [OF okc nin] by auto
  ultimately show ?thesis
    unfolding alloc_inv_def prod.case
    using wv(1-3) cwd chn n3 [OF okc] by auto
qed

lemma alloc_loop:
  assumes g: "geometry (fs st)" and len: "unat sz \<le> length data" and n: "n \<le> card (free_clusters st)"
    and pos: "\<And>j s. j < n \<Longrightarrow> s < unat (sectors_per_cluster (fs st)) \<Longrightarrow> sector_pos st j s < 4294967296"
  shows "\<exists>cl acc. for_each (alloc_step data sz) [0..<n] (st, 0, 0) = Go acc \<and> length cl = n \<and> alloc_inv st data sz cl acc"
  using n pos
proof (induction n)
  case 0
  then show ?case by (auto simp: alloc_inv_def in_chain_def)
next
  case (Suc n)
  then obtain cl acc where it: "for_each (alloc_step data sz) [0..<n] (st, 0, 0) = Go acc" "length cl = n"
    "alloc_inv st data sz cl acc" by fastforce
  obtain st' prev fst_c where acc: "acc = (st', prev, fst_c)" by (cases acc)
  note inv = it(3) [unfolded acc]
  have f: "fs st' = fs st" and nx: "\<And>x. fat_entry_ok st x \<Longrightarrow> x \<notin> set cl \<Longrightarrow> fat32_next_cluster st' x = fat32_next_cluster st x"
    using inv by (auto simp: alloc_inv_def)
  have full: "fat32_find_free_cluster st' \<noteq> 0x0FFFFFFF"
  proof
    assume eoc: "fat32_find_free_cluster st' = 0x0FFFFFFF"
    have "geometry (fs st')" using f g by simp
    then have "\<forall>c. data_cluster (fs st') c \<longrightarrow> fat32_next_cluster st' c \<noteq> 0"
      by (cases rule: find_free_cases) (use eoc in auto)
    then have "free_clusters st \<subseteq> set cl"
      using nx g f by (auto simp: free_clusters_def fat_entry_ok_def data_cluster_def) metis
    then have "card (free_clusters st) \<le> n"
      using card_mono [of "set cl" "free_clusters st"] card_length [of cl] it(2) by simp
    then show False using Suc.prems(1) by simp
  qed
  have p: "\<And>s. s < unat (sectors_per_cluster (fs st)) \<Longrightarrow> sector_pos st (length cl) s < 4294967296"
    using Suc.prems(2) it(2) by simp
  have "for_each (alloc_step data sz) [0..<Suc n] (st, 0, 0) = alloc_step data sz n acc"
    by (simp add: for_each_append it(1) split: flow.split)
  then show ?case
    using alloc_step_eq [OF refl full, of data sz cl prev fst_c] alloc_step_inv [OF g inv refl full len p] it(2) acc
    by (intro exI [of _ "cl @ [fat32_find_free_cluster st']"]) auto
qed

lemma file_bytes_nth:
  assumes "p < length cl * (512 * unat (sectors_per_cluster (fs st)))"
  shows "\<exists>j s. j < length cl \<and> s < unat (sectors_per_cluster (fs st)) \<and> p = sector_pos st j s + p mod 512 \<and>
    file_bytes st cl ! p = read_sector_of st (cl ! j) s ! (p mod 512)"
proof -
  let ?k = "unat (sectors_per_cluster (fs st))"
  define j where "j = p div (512 * ?k)"
  define s where "s = p mod (512 * ?k) div 512"
  have k: "0 < ?k" using assms by (cases "?k") auto
  have j: "j < length cl" using assms by (simp add: j_def less_mult_imp_div_less)
  have lt: "p mod (512 * ?k) < 512 * ?k" using k by simp
  then have s: "s < ?k" by (simp add: s_def less_mult_imp_div_less mult.commute)
  have pm: "p mod (512 * ?k) mod 512 = p mod 512" by (simp add: mod_mod_cancel)
  have "file_bytes st cl ! p = cluster_bytes st (cl ! j) ! (p mod (512 * ?k))"
    using assms by (simp add: file_bytes_def concat_nth_uniform j_def)
  also have "\<dots> = read_sector_of st (cl ! j) s ! (p mod 512)"
    using lt s pm by (simp add: cluster_bytes_def concat_nth_uniform s_def mult.commute)
  finally have v: "file_bytes st cl ! p = read_sector_of st (cl ! j) s ! (p mod 512)" .
  have "p = j * (512 * ?k) + p mod (512 * ?k)" unfolding j_def by (rule div_mult_mod_eq [symmetric])
  also have "p mod (512 * ?k) = s * 512 + p mod 512" using pm by (simp add: s_def) (metis div_mult_mod_eq pm)
  finally have "p = sector_pos st j s + p mod 512" by (simp add: sector_pos_def algebra_simps)
  with v j s show ?thesis by blast
qed

lemma alloc_inv_bytes:
  assumes "alloc_inv st data sz cl (st', prev, fst_c)" and "unat sz \<le> length data"
    and "unat sz \<le> length cl * (512 * unat (sectors_per_cluster (fs st)))"
  shows "take (unat sz) (file_bytes st' cl) = take (unat sz) data"
proof (rule nth_equalityI)
  have f: "fs st' = fs st" and dat: "\<And>j s. j < length cl \<Longrightarrow> s < unat (sectors_per_cluster (fs st)) \<Longrightarrow> sector_pos st j s < unat sz \<Longrightarrow>
           read_sector_of st' (cl ! j) s = file_sector data sz (sector_pos st j s)"
    using assms(1) by (auto simp: alloc_inv_def)
  show "length (take (unat sz) (file_bytes st' cl)) = length (take (unat sz) data)" using assms(2,3) f by simp
  fix p assume "p < length (take (unat sz) (file_bytes st' cl))"
  then have p: "p < unat sz" by simp
  then have "p < length cl * (512 * unat (sectors_per_cluster (fs st')))" using assms(3) f by simp
  from file_bytes_nth [OF this] obtain j s where js: "j < length cl" "s < unat (sectors_per_cluster (fs st))"
    "p = sector_pos st j s + p mod 512" "file_bytes st' cl ! p = read_sector_of st' (cl ! j) s ! (p mod 512)"
    using f sector_pos_cong [OF f] by auto
  have lt: "sector_pos st j s < unat sz" "p mod 512 < unat sz - sector_pos st j s" "p mod 512 < 512" using p js(3) by linarith+
  then have "read_sector_of st' (cl ! j) s ! (p mod 512) = data ! (sector_pos st j s + p mod 512)"
    using dat [OF js(1,2)] assms(2) by (simp add: file_sector_def nth_append)
  then show "take (unat sz) (file_bytes st' cl) ! p = take (unat sz) data ! p" using js p by simp
qed

lemma alloc_inv_free:
  assumes "alloc_inv st data sz cl (st', prev, fst_c)" and "geometry (fs st)" and "free_clusters st \<subseteq> set cl"
  shows "free_clusters st' = {}"
proof -
  have f: "fs st' = fs st" and ch: "chain (fat32_next_cluster st') fst_c cl"
    and lst: "cl \<noteq> [] \<Longrightarrow> fat32_next_cluster st' (last cl) = 0x0FFFFFFF"
    and nx: "\<And>x. fat_entry_ok st x \<Longrightarrow> x \<notin> set cl \<Longrightarrow> fat32_next_cluster st' x = fat32_next_cluster st x"
    using assms(1) unfolding alloc_inv_def by auto
  have "fat32_next_cluster st' x \<noteq> 0" if "data_cluster (fs st) x" for x
  proof (cases "x \<in> set cl")
    case True
    then have "cl \<noteq> []" by auto
    then show ?thesis using chain_links_nz [OF ch _ _ True] lst by simp
  next
    case False
    then have "x \<notin> free_clusters st" using assms(3) by blast
    moreover have "fat_entry_ok st x" using that assms(2) by (simp add: fat_entry_ok_def data_cluster_def)
    ultimately show ?thesis using nx False that by (simp add: free_clusters_def)
  qed
  then show ?thesis by (auto simp: free_clusters_def f)
qed

lemma alloc_exhausted:
  assumes "geometry (fs st)" and "free_clusters st = {}"
  shows "fat32_find_free_cluster st = 0x0FFFFFFF"
  using assms by (cases rule: find_free_cases) (auto simp: free_clusters_def)

lemma write_file_bounds:
  assumes "bytes_per_cluster st \<noteq> 0" and "unat sz + unat (bytes_per_cluster st) \<le> 4294967296"
    and "n = unat ((sz + bytes_per_cluster st - 1) div bytes_per_cluster st)"
  shows "n = (unat sz + unat (bytes_per_cluster st) - 1) div unat (bytes_per_cluster st)"
    and "unat sz \<le> n * (512 * unat (sectors_per_cluster (fs st)))"
    and "j < n \<Longrightarrow> s < unat (sectors_per_cluster (fs st)) \<Longrightarrow> sector_pos st j s < 4294967296"
proof -
  let ?b = "unat (bytes_per_cluster st)"
  have b: "0 < ?b" using assms(1) by (simp add: unat_gt_0)
  have "sz + bytes_per_cluster st - 1 = sz + (bytes_per_cluster st - 1)" by simp
  moreover have "unat (bytes_per_cluster st - 1) = ?b - 1" using b by (simp add: unat_sub_u32)
  ultimately have "unat (sz + bytes_per_cluster st - 1) = unat sz + (?b - 1)"
    using assms(2) b by (simp only: unat_add_u32)
  then have "unat (sz + bytes_per_cluster st - 1) = unat sz + ?b - 1" using b by simp
  then show n: "n = (unat sz + ?b - 1) div ?b" by (simp add: assms(3) unat_div)
  have "unat sz + ?b - 1 < Suc n * ?b" unfolding n using b by (simp add: dividend_less_div_times)
  then show "unat sz \<le> n * (512 * unat (sectors_per_cluster (fs st)))" using b by (simp add: unat_bpc)
  have nb: "n * ?b \<le> unat sz + ?b - 1" unfolding n by (rule div_times_less_eq_dividend)
  assume "j < n" "s < unat (sectors_per_cluster (fs st))"
  then have "Suc j * ?b \<le> n * ?b" "sector_pos st j s < Suc j * ?b"
    using mult_le_mono1 [of "Suc j" n ?b] by (simp_all add: sector_pos_def unat_bpc algebra_simps)
  then show "sector_pos st j s < 4294967296" using nb assms(2) b by linarith
qed

section \<open>Lemmas: the whole write\<close>

lemma write_alloc:
  assumes d: "dir_at st (current_dir_cluster st) dl"
    and u: "\<forall>x \<in> set dl. fat32_next_cluster st x \<noteq> 0"
    and len: "unat sz \<le> length data" and wrap: "unat sz + unat (bytes_per_cluster st) \<le> 4294967296"
    and n: "n = unat ((sz + bytes_per_cluster st - 1) div bytes_per_cluster st)" "n \<le> card (free_clusters st)"
  obtains st1 prev fst_c cl where "for_each (alloc_step data sz) [0..<n] (st, 0, 0) = Go (st1, prev, fst_c)"
    and "alloc_inv st data sz cl (st1, prev, fst_c)" and "length cl = n"
    and "dir_at st1 (current_dir_cluster st) dl" and "dir_at st1 fst_c cl"
    and "set cl \<inter> set dl = {}" and "\<And>x. x \<in> set (dir_slots st dl) \<Longrightarrow> slot_entry st1 x = slot_entry st x"
    and "take (unat sz) (file_bytes st1 cl) = take (unat sz) data" and "unat sz \<le> length (file_bytes st1 cl)"
proof -
  have g: "geometry (fs st)" using dir_atD(1) [OF d] .
  note bd = write_file_bounds [OF bpc_nonzero [OF g] wrap n(1)]
  from alloc_loop [OF g len n(2) bd(3)]
  obtain cl st1 prev fst_c where loop: "for_each (alloc_step data sz) [0..<n] (st, 0, 0) = Go (st1, prev, fst_c)"
    "length cl = n" and inv: "alloc_inv st data sz cl (st1, prev, fst_c)" by (metis prod_cases3)
  have f1: "fs st1 = fs st"
    and fr: "\<And>x. x \<in> set cl \<Longrightarrow> data_cluster (fs st) x \<and> fat32_next_cluster st x = 0"
    and ch: "chain (fat32_next_cluster st1) fst_c cl"
    and nx: "\<And>x. fat_entry_ok st x \<Longrightarrow> x \<notin> set cl \<Longrightarrow> fat32_next_cluster st1 x = fat32_next_cluster st x"
    and rd: "\<And>x s. sector_ok st x s \<Longrightarrow> x \<notin> set cl \<Longrightarrow> read_sector_of st1 x s = read_sector_of st x s"
    using inv unfolding alloc_inv_def by auto
  have dj: "x \<notin> set cl" if "x \<in> set dl" for x using that u fr by auto
  have "dir_at st1 (current_dir_cluster st) dl"
    using dj nx dir_atD(3) [OF d] by (intro dir_at_cong [OF d f1(1)]) auto
  moreover have "dir_at st1 fst_c cl" using ch fr g f1 by (auto simp: dir_at_def)
  moreover have "slot_entry st1 x = slot_entry st x" if "x \<in> set (dir_slots st dl)" for x
  proof (cases x)
    case (fields a s i)
    then have "sector_ok st a s" "a \<in> set dl" using that dir_slot_ok [OF d, of a s i] by (simp_all add: dir_slots_set)
    then show ?thesis using rd dj fields by simp
  qed
  moreover have "take (unat sz) (file_bytes st1 cl) = take (unat sz) data"
    using alloc_inv_bytes [OF inv len] bd(2) loop(2) by simp
  moreover have "unat sz \<le> length (file_bytes st1 cl)" using bd(2) loop(2) f1 by simp
  ultimately show ?thesis using that [OF loop(1) inv loop(2)] dj by blast
qed

lemma file_bytes_cong:
  assumes "fs st' = fs st" and "\<And>c s. c \<in> set cl \<Longrightarrow> s < unat (sectors_per_cluster (fs st)) \<Longrightarrow>
      read_sector_of st' c s = read_sector_of st c s"
  shows "file_bytes st' cl = file_bytes st cl"
  unfolding file_bytes_def cluster_bytes_def assms(1)
  by (intro arg_cong [where f = concat] map_cong refl) (simp add: assms(2))

lemma file_entry_facts:
  assumes "is_cstr filename" and "format_filename filename ! 0 \<noteq> 0xE5"
  shows "de_name (file_entry filename c sz e) = format_filename filename" "de_attr (file_entry filename c sz e) = 0x20"
    "de_file_size (file_entry filename c sz e) = sz" "entry_cluster (file_entry filename c sz e) = c"
    "length (de_name (file_entry filename c sz e)) = 11" "\<not> free_entry (file_entry filename c sz e)"
  using assms format_filename_first_nz [OF assms(1)] entry_cluster_set [of c]
  by (simp_all add: file_entry_def free_entry_def entry_end_def entry_deleted_def entry_cluster_def)

lemma write_file_scan:
  assumes "dir_at st1 d dl" and "find (\<lambda>sl. free_entry (slot_entry st1 sl)) (dir_slots st1 dl) = Some sl"
  shows "scan_dir st1 d (\<lambda>c s dir_buffer i (_ :: unit). let e = get_entry dir_buffer i in
      if entry_end e \<or> entry_deleted e then
        Done (write_sector_of c s (put_entry dir_buffer i (file_entry filename fc sz e)) st1)
      else Go ()) () = Some (Done (set_slot sl (file_entry filename fc sz (slot_entry st1 sl)) st1))"
  using assms(2)
  by (subst scan_dir_search [OF dir_atD(2) [OF assms(1)], where stop = "\<lambda>_. False" and r = st1 and hit = free_entry
      and h = "\<lambda>sl. set_slot sl (file_entry filename fc sz (slot_entry st1 sl)) st1"])
     (auto simp: free_entry_def set_slot_def Let_def takeWhile_eq_all_conv [THEN iffD2])

lemma write_file_slot:
  assumes d: "dir_at st (current_dir_cluster st) dl"
    and sl: "find (\<lambda>sl. free_entry (slot_entry st sl)) (dir_slots st dl) = Some sl"
    and u: "\<forall>x \<in> set dl. fat32_next_cluster st x \<noteq> 0"
    and len: "unat sz \<le> length data" and wrap: "unat sz + unat (bytes_per_cluster st) \<le> 4294967296"
    and room: "unat ((sz + bytes_per_cluster st - 1) div bytes_per_cluster st) \<le> card (free_clusters st)"
  obtains st1 cl c where
    "fat32_write_file st filename data sz = Some (set_slot sl (file_entry filename c sz (slot_entry st sl)) st1)"
    and "dir_at st1 (current_dir_cluster st) dl" and "dir_at st1 c cl" and "set cl \<inter> set dl = {}"
    and "length cl = unat ((sz + bytes_per_cluster st - 1) div bytes_per_cluster st)"
    and "take (unat sz) (file_bytes st1 cl) = take (unat sz) data" and "unat sz \<le> length (file_bytes st1 cl)"
    and "fs st1 = fs st" and "current_dir_cluster st1 = current_dir_cluster st"
    and "\<And>x. x \<in> set (dir_slots st dl) \<Longrightarrow> slot_entry st1 x = slot_entry st x"
    and "find (\<lambda>sl. free_entry (slot_entry st1 sl)) (dir_slots st1 dl) = Some sl" and "tty st1 = tty st"
proof -
  from write_alloc [OF d u len wrap refl room]
  obtain st1 prev c cl where loop: "for_each (alloc_step data sz)
      [0..<unat ((sz + bytes_per_cluster st - 1) div bytes_per_cluster st)] (st, 0, 0) = Go (st1, prev, c)"
    and inv: "alloc_inv st data sz cl (st1, prev, c)"
    and lcl: "length cl = unat ((sz + bytes_per_cluster st - 1) div bytes_per_cluster st)"
    and d1: "dir_at st1 (current_dir_cluster st) dl" and c1: "dir_at st1 c cl" and dj: "set cl \<inter> set dl = {}"
    and se: "\<And>x. x \<in> set (dir_slots st dl) \<Longrightarrow> slot_entry st1 x = slot_entry st x"
    and byt: "take (unat sz) (file_bytes st1 cl) = take (unat sz) data" "unat sz \<le> length (file_bytes st1 cl)" by metis
  have f1: "fs st1 = fs st" "current_dir_cluster st1 = current_dir_cluster st" "tty st1 = tty st" using inv by (auto simp: alloc_inv_def)
  have ds: "dir_slots st1 dl = dir_slots st dl" by (rule dir_slots_cong) (simp add: f1)
  have "find (\<lambda>sl. free_entry (slot_entry st1 sl)) (dir_slots st dl) = find (\<lambda>sl. free_entry (slot_entry st sl)) (dir_slots st dl)"
    by (rule find_cong) (simp_all only: se)
  then have sl1: "find (\<lambda>sl. free_entry (slot_entry st1 sl)) (dir_slots st1 dl) = Some sl" using sl ds by simp
  then have "sl \<in> set (dir_slots st1 dl)" unfolding find_Some_iff by (metis nth_mem)
  then have "slot_entry st1 sl = slot_entry st sl" using se ds by simp
  then have "fat32_write_file st filename data sz = Some (set_slot sl (file_entry filename c sz (slot_entry st sl)) st1)"
    unfolding fat32_write_file_def Let_def
    using loop write_file_scan [OF d1 sl1, of filename c sz] bpc_nonzero [OF dir_atD(1) [OF d]] f1(2)
    by (simp add: Let_def flow_result_def del: slot_entry_simp)
  then show ?thesis using that d1 c1 dj lcl byt f1 se sl1 by blast
qed

lemma file_bytes_set_slot:
  assumes d: "dir_at st d dl" and sl: "sl \<in> set (dir_slots st dl)" and c: "dir_at st c cl" and dj: "set cl \<inter> set dl = {}"
  shows "file_bytes (set_slot sl e st) cl = file_bytes st cl"
proof (rule file_bytes_cong)
  fix a s assume a: "a \<in> set cl" "s < unat (sectors_per_cluster (fs st))"
  obtain b t i where b: "sl = (b, t, i)" by (cases sl)
  then have "b \<noteq> a" "sector_ok st b t" using sl a(1) dj dir_slot_ok [OF d, of b t i] by (auto simp: dir_slots_set)
  then show "read_sector_of (set_slot sl e st) a s = read_sector_of st a s"
    using dir_atD(4) [OF c a] by (simp add: b set_slot_def vol.rds_other)
qed simp

lemma write_file_result:
  assumes d: "dir_at st (current_dir_cluster st) dl" and n: "is_cstr filename" and e5: "format_filename filename ! 0 \<noteq> 0xE5"
    and l: "lookup_slot st dl (format_filename filename) = None"
    and sl: "find (\<lambda>sl. free_entry (slot_entry st sl)) (dir_slots st dl) = Some sl"
    and u: "\<forall>x \<in> set dl. fat32_next_cluster st x \<noteq> 0"
    and len: "unat sz \<le> length data" and wrap: "unat sz + unat (bytes_per_cluster st) \<le> 4294967296"
    and room: "unat ((sz + bytes_per_cluster st - 1) div bytes_per_cluster st) \<le> card (free_clusters st)"
  obtains st' cl e where "fat32_write_file st filename data sz = Some st'"
    and "fat32_find_file st' filename = Some (Some e)" and "de_file_size e = sz"
    and "dir_at st' (entry_cluster e) cl"
    and "take (unat sz) (file_bytes st' cl) = take (unat sz) data" and "unat sz \<le> length (file_bytes st' cl)" and "tty st' = tty st"
proof (rule write_file_slot [OF d sl u len wrap room, of filename])
  fix st1 cl c
  let ?e = "file_entry filename c sz (slot_entry st sl)"
  let ?st' = "set_slot sl ?e st1"
  assume w: "fat32_write_file st filename data sz = Some ?st'"
    and d1: "dir_at st1 (current_dir_cluster st) dl" and c1: "dir_at st1 c cl" and dj: "set cl \<inter> set dl = {}"
    and byt: "take (unat sz) (file_bytes st1 cl) = take (unat sz) data" "unat sz \<le> length (file_bytes st1 cl)"
    and f1: "fs st1 = fs st" "current_dir_cluster st1 = current_dir_cluster st"
    and se: "\<And>x. x \<in> set (dir_slots st dl) \<Longrightarrow> slot_entry st1 x = slot_entry st x"
    and sl1: "find (\<lambda>sl. free_entry (slot_entry st1 sl)) (dir_slots st1 dl) = Some sl" and tt: "tty st1 = tty st"
  note fe = file_entry_facts [OF n e5, of c sz "slot_entry st sl"]
  have mem: "sl \<in> set (dir_slots st1 dl)" using sl1 unfolding find_Some_iff by (metis nth_mem)
  have "lookup_slot st1 dl (format_filename filename) = None"
    using l lookup_slot_cong [OF f1(1) se] by simp
  then have L: "lookup_slot ?st' dl (format_filename filename) = Some sl"
    using lookup_insert [OF d1 _ sl1 fe(5,6)] fe(1,2) by simp
  have "slot_entry ?st' sl = ?e" using slot_entry_set_slot [OF d1 mem mem fe(5)] by simp
  moreover have "dir_at ?st' (current_dir_cluster st) dl" "dir_at ?st' c cl"
    using dir_at_set_slot [OF d1 mem] d1 c1 by simp_all
  moreover from this have "fat32_find_file ?st' filename = Some (map_option (slot_entry ?st') (lookup_slot ?st' dl (format_filename filename)))"
    using f1(2) by (intro find_file_lookup [OF dir_atD(2) n]) simp
  ultimately show ?thesis
    using w L fe(3,4) byt tt file_bytes_set_slot [OF d1 mem c1 dj] by (intro that [of ?st' ?e cl]) (simp_all del: slot_entry_simp)
qed

section \<open>Lemmas: whole-file reads\<close>

lemma file_bytes_sectors: "file_bytes st cl = concat (map (\<lambda>(c, s). read_sector_of st c s) (chain_sectors st cl))"
  by (induction cl) (simp_all add: file_bytes_def cluster_bytes_def chain_sectors_def comp_def)

lemma length_chain_sectors: "length (chain_sectors st cl) = length cl * unat (sectors_per_cluster (fs st))"
  by (induction cl) (simp_all add: chain_sectors_def)

lemma read_file_sectors:
  "flow_result snd (for_each (\<lambda>sec (rem, dst). let dst = dst @ rd sec in
      if (512 :: u32) < rem then Go (rem - 512, dst) else Done dst) secs (rem, dst)) =
   dst @ concat (map rd (take (Suc ((unat rem - 1) div 512)) secs))"
proof (induction secs arbitrary: rem dst)
  case (Cons sec secs)
  show ?case
  proof (cases "512 < rem")
    case True
    then have "unat (rem - 512) = unat rem - 512" "512 < unat rem"
      by (simp_all add: unat_sub_u32 word_less_nat_alt)
    then have "(unat rem - 1) div 512 = Suc ((unat (rem - 512) - 1) div 512)" by simp
    with True Cons show ?thesis by simp
  next
    case False
    then have "(unat rem - 1) div 512 = 0" by (simp add: word_less_nat_alt)
    with False show ?thesis by (simp add: flow_result_def)
  qed
qed (simp add: flow_result_def)

lemma read_file_chain:
  assumes "chain (fat32_next_cluster st) (entry_cluster e) cl"
  shows "fat32_read_file st e = Some (take (512 * Suc ((unat (de_file_size e) - 1) div 512)) (file_bytes st cl))"
proof -
  let ?m = "Suc ((unat (de_file_size e) - 1) div 512)"
  let ?g = "\<lambda>sec (rem, dst). let dst = dst @ (\<lambda>(c, s). read_sector_of st c s) sec in
      if (512 :: u32) < rem then Go (rem - 512, dst) else Done dst"
  have "for_each (\<lambda>c. for_each (\<lambda>i (rem, dst). let dst = dst @ read_sector_of st c i in
              if 512 < rem then Go (rem - 512, dst) else Done dst)
           [0..<unat (sectors_per_cluster (fs st))]) cl acc = for_each ?g (chain_sectors st cl) acc" for acc
    by (simp add: chain_sectors_def for_each_concat for_each_map_fun)
  moreover have "concat (map (\<lambda>(c, s). read_sector_of st c s) (take n secs)) =
      take (512 * n) (concat (map (\<lambda>(c, s). read_sector_of st c s) secs))" for n secs
    by (induction secs arbitrary: n) (auto simp: take_Cons split: nat.split)
  ultimately show ?thesis
    unfolding fat32_read_file_def cluster_loop_chain [OF assms] file_bytes_sectors
    using read_file_sectors [of "\<lambda>(c, s). read_sector_of st c s" "chain_sectors st cl" "de_file_size e" "[]"] by simp
qed

lemma cat_sectors:
  assumes "0 \<notin> set (take (unat rem) (concat (map (\<lambda>(c, s). read_sector_of st c s) secs)))"
  shows "fst (fold (\<lambda>(c, s). cat_sector st c s) secs (st', rem)) =
    console_print (take (unat rem) (concat (map (\<lambda>(c, s). read_sector_of st c s) secs))) st'"
  using assms
proof (induction secs arbitrary: rem st')
  case Nil
  then show ?case by (simp add: console_print_def)
next
  case (Cons sec secs)
  obtain c s where sec: "sec = (c, s)" by (cases sec)
  define x where "x = read_sector_of st c s"
  define t where "t = (if 512 < rem then 512 else rem)"
  have ut: "unat t = min 512 (unat rem)" by (simp add: t_def word_less_nat_alt)
  have ur: "unat (rem - t) = unat rem - unat t" by (simp add: unat_sub_u32 ut)
  have lx: "length x = 512" by (simp add: x_def)
  have tk: "take (unat rem) (x @ ys) = take (unat t) x @ take (unat rem - unat t) ys" for ys
    using lx by (auto simp: ut min_def)
  have nz: "0 \<notin> set (take (unat t) x)" and nz': "0 \<notin> set (take (unat (rem - t)) (concat (map (\<lambda>(c, s). read_sector_of st c s) secs)))"
    using Cons.prems unfolding sec list.map concat.simps prod.case x_def [symmetric] tk ur by auto
  have "(x @ [0])[unat t := 0] = take (unat t) x @ 0 # drop (Suc (unat t)) (x @ [0])"
    using lx by (simp add: ut upd_conv_take_nth_drop)
  moreover have "cstr_of (take (unat t) x @ 0 # r) = take (unat t) x" for r
    unfolding cstr_of_def using nz by (subst takeWhile_append2) auto
  ultimately have "cstr_of ((x @ [0])[unat t := 0]) = take (unat t) x" by simp
  then have "cat_sector st c s (st', rem) = (if 0 < rem then (console_print (take (unat t) x) st', rem - t) else (st', rem))"
    by (simp add: cat_sector_def t_def [symmetric] x_def [symmetric] Let_def)
  moreover have "rem - t = rem" "take (unat t) x = []" if "\<not> 0 < rem"
    using that ut by (auto simp: t_def word_gt_0)
  ultimately have "cat_sector st c s (st', rem) = (console_print (take (unat t) x) st', rem - t)"
    by (auto simp: console_print_def)
  then show ?case
    using Cons.IH [OF nz', of "console_print (take (unat t) x) st'"]
    by (simp add: sec x_def [symmetric] tk ur console_print_def del: take_append)
qed

lemma cat_loop:
  "flow_result fst (for_each (\<lambda>c (st', rem). if 0 < rem then
       Go (for_all (cat_sector st c) [0..<unat (sectors_per_cluster (fs st))] (st', rem)) else Done st') cl (st', rem)) =
   fst (fold (\<lambda>(c, s). cat_sector st c s) (chain_sectors st cl) (st', rem))"
proof (induction cl arbitrary: st' rem)
  case Nil
  then show ?case by (simp add: flow_result_def chain_sectors_def)
next
  case (Cons c cl)
  have cs: "chain_sectors st (c # cl) = map (\<lambda>s. (c, s)) [0..<unat (sectors_per_cluster (fs st))] @ chain_sectors st cl"
    by (simp add: chain_sectors_def)
  show ?case
  proof (cases "0 < rem")
    case True
    obtain st2 rem2 where f: "fold (cat_sector st c) [0..<unat (sectors_per_cluster (fs st))] (st', rem) = (st2, rem2)"
      by fastforce
    then show ?thesis using True Cons [of st2 rem2] by (simp add: cs fold_map comp_def for_all_def)
  next
    case False
    have "fold (\<lambda>(c, s). cat_sector st c s) secs (st', rem) = (st', rem)" for secs
      using False by (induction secs) (auto simp: cat_sector_def)
    with False show ?thesis by (simp add: flow_result_def)
  qed
qed

lemma cat_chain:
  assumes "fat32_find_file st filename = Some (Some e)" and "chain (fat32_next_cluster st) (entry_cluster e) cl"
    and "0 \<notin> set (take (unat (de_file_size e)) (file_bytes st cl))"
  shows "fat32_cat st filename =
    Some (console_print (take (unat (de_file_size e)) (file_bytes st cl) @ [0x0A]) st)"
  using cat_loop [of st cl st "de_file_size e"] cat_sectors [of "de_file_size e" st "chain_sectors st cl" st] assms(3)
  unfolding fat32_cat_def assms(1) file_bytes_sectors
  by (simp add: cluster_loop_chain [OF assms(2)] console_print_def)

section \<open>Lemmas: the sample volumes\<close>

lemma blank_bpc: "bytes_per_cluster blank_volume = 512"
  by (simp add: bytes_per_cluster_def)

lemma blank_room: "2 \<le> card (free_clusters blank_volume)"
proof -
  have "{3, 4} \<subseteq> free_clusters blank_volume" by (simp add: free_clusters_def data_cluster_def blank_next)
  then have "card {3 :: u32, 4} \<le> card (free_clusters blank_volume)" by (intro card_mono) simp_all
  then show ?thesis by simp
qed

lemma blank_used: "card (free_clusters blank_volume) \<le> 125"
proof -
  have "free_clusters blank_volume \<subseteq> of_nat ` {3..<128}"
  proof
    fix c assume "c \<in> free_clusters blank_volume"
    then have "unat c < 128" "\<not> c < 3" by (auto simp: free_clusters_def data_cluster_def blank_next split: if_splits)
    then have "unat c \<in> {3..<128}" by (simp add: word_less_nat_alt)
    then have "of_nat (unat c) \<in> (of_nat :: nat \<Rightarrow> u32) ` {3..<128}" by (rule imageI)
    then show "c \<in> of_nat ` {3..<128}" by simp
  qed
  then have "card (free_clusters blank_volume) \<le> card ((of_nat :: nat \<Rightarrow> u32) ` {3..<128})" by (intro card_mono) simp_all
  also have "\<dots> \<le> card {3..<128 :: nat}" by (rule card_image_le) simp
  finally show ?thesis by simp
qed

lemma one_free:
  fixes a :: u8
  assumes "length n = 11" and "n ! 0 \<noteq> 0" and "n ! 0 \<noteq> 0xE5"
  defines "v \<equiv> one_entry_volume (sample_entry n a)"
  shows "find (\<lambda>sl. free_entry (slot_entry v sl)) (dir_slots v [2]) = Some (2, 0, 1)"
    and "(2, 0, 0) \<in> set (takeWhile (\<lambda>sl. \<not> free_entry (slot_entry v sl)) (dir_slots v [2]))"
    and "card (free_clusters v) \<ge> 1"
    and "fat32_next_cluster v 2 \<noteq> 0"
proof -
  have len: "length (de_name (sample_entry n a)) = 11" using assms(1) by (simp add: sample_entry_facts)
  note f = one_entry_facts [OF len, folded v_def]
  have e0: "\<not> free_entry (slot_entry v (2, 0, 0))" using f(4) [of 0] assms by (simp add: sample_entry_facts del: slot_entry_simp)
  have e1: "free_entry (slot_entry v (2, 0, 1))" using f(4) [of 1] zero_entry_end [of 1] by (simp add: free_entry_def del: slot_entry_simp)
  have ds: "dir_slots v [2] = (2, 0, 0) # (2, 0, 1) # map (\<lambda>i. (2, 0, i)) [2..<16]"
    unfolding f(3) blank_slots by (simp add: upt_rec)
  show "find (\<lambda>sl. free_entry (slot_entry v sl)) (dir_slots v [2]) = Some (2, 0, 1)"
    and "(2, 0, 0) \<in> set (takeWhile (\<lambda>sl. \<not> free_entry (slot_entry v sl)) (dir_slots v [2]))"
    using e0 e1 unfolding ds by (simp_all del: slot_entry_simp)
  have nx: "fat32_next_cluster v c = fat32_next_cluster (fat32_set_next_cluster 3 0x0FFFFFFF blank_volume) c" if "unat c < 128" for c
    unfolding v_def one_entry_volume_def set_slot_def prod.case
    using that by (intro vol.nxt_wrs) (simp_all add: vol.slot_ok_setn ft.entry_ok_set)
  have "4 \<in> free_clusters v" using f(1) nx [of 4] by (simp add: free_clusters_def data_cluster_def ft.nxt_setn blank_next)
  then have "card {4 :: u32} \<le> card (free_clusters v)" by (intro card_mono) simp_all
  then show "card (free_clusters v) \<ge> 1" by simp
  show "fat32_next_cluster v 2 \<noteq> 0" using nx [of 2] by (simp add: ft.nxt_setn blank_next)
qed

section \<open>Properties\<close>

text \<open>
  C1: a file written into a directory with a free slot and no entry of that name, on a volume with
  enough free clusters, is found under its name with its size, and every positioned read inside
  it returns exactly the bytes written. The call ends.
\<close>

theorem write_file_read_back:
  assumes "dir_at st (current_dir_cluster st) dl" and "is_cstr filename" and "format_filename filename ! 0 \<noteq> 0xE5"
    and "lookup_slot st dl (format_filename filename) = None"
    and "\<exists>sl \<in> set (dir_slots st dl). free_entry (slot_entry st sl)"
    and "\<forall>x \<in> set dl. fat32_next_cluster st x \<noteq> 0"
    and "unat sz \<le> length data" and "unat sz + unat (bytes_per_cluster st) \<le> 4294967296"
    and "unat ((sz + bytes_per_cluster st - 1) div bytes_per_cluster st) \<le> card (free_clusters st)"
  shows "\<exists>st' e. fat32_write_file st filename data sz = Some st' \<and>
    fat32_find_file st' filename = Some (Some e) \<and> de_file_size e = sz \<and>
    (\<forall>off n buf. unat off + unat n \<le> unat sz \<and> unat n \<le> length buf \<longrightarrow>
       fat32_read_absolute st' (entry_cluster e) off n buf =
         Some (n, put_bytes buf 0 (take (unat n) (drop (unat off) data))))"
proof -
  obtain sl where sl: "find (\<lambda>sl. free_entry (slot_entry st sl)) (dir_slots st dl) = Some sl"
    using assms(5) by (cases "find (\<lambda>sl. free_entry (slot_entry st sl)) (dir_slots st dl)") (auto simp: find_None_iff)
  show ?thesis
  proof (rule write_file_result [OF assms(1-4) sl assms(6-9)])
    fix st' cl e
    assume "fat32_write_file st filename data sz = Some st'" "fat32_find_file st' filename = Some (Some e)"
      and "de_file_size e = sz" and "dir_at st' (entry_cluster e) cl"
      and "take (unat sz) (file_bytes st' cl) = take (unat sz) data" "unat sz \<le> length (file_bytes st' cl)"
    then show ?thesis using read_back [of st' "entry_cluster e" cl sz data] by blast
  qed
qed

theorem write_file_read_back_witness:
  "\<exists>st' e. fat32_write_file blank_volume (cstr ''a'') (replicate 600 0x61) 600 = Some st' \<and>
     fat32_find_file st' (cstr ''a'') = Some (Some e) \<and>
     fat32_read_absolute st' (entry_cluster e) 510 4 [0, 0, 0, 0] = Some (4, [0x61, 0x61, 0x61, 0x61])"
proof -
  have "\<exists>st' e. fat32_write_file blank_volume (cstr ''a'') (replicate 600 0x61) 600 = Some st' \<and>
    fat32_find_file st' (cstr ''a'') = Some (Some e) \<and> de_file_size e = 600 \<and>
    (\<forall>off n buf. unat off + unat n \<le> unat (600 :: u32) \<and> unat n \<le> length buf \<longrightarrow>
       fat32_read_absolute st' (entry_cluster e) off n buf =
         Some (n, put_bytes buf 0 (take (unat n) (drop (unat off) (replicate 600 0x61)))))"
    by (rule write_file_read_back [where dl = "[2]"])
       (use blank_dir blank_lookup blank_free_exists name_a_ok cstr_a(2) blank_room in
         \<open>simp_all add: blank_next blank_bpc del: slot_entry_simp\<close>)
  then obtain st' e where st': "fat32_write_file blank_volume (cstr ''a'') (replicate 600 0x61) 600 = Some st'"
    "fat32_find_file st' (cstr ''a'') = Some (Some e)"
    "\<forall>off n buf. unat off + unat n \<le> unat (600 :: u32) \<and> unat n \<le> length buf \<longrightarrow>
       fat32_read_absolute st' (entry_cluster e) off n buf =
         Some (n, put_bytes buf 0 (take (unat n) (drop (unat off) (replicate 600 0x61))))" by blast
  have "fat32_read_absolute st' (entry_cluster e) 510 4 [0, 0, 0, 0] =
      Some (4, put_bytes [0, 0, 0, 0] 0 (take 4 (drop 510 (replicate 600 0x61))))"
    using st'(3) [rule_format, of 510 4 "[0, 0, 0, 0]"] by simp
  moreover have "put_bytes [0, 0, 0, 0] 0 (take 4 (drop 510 (replicate 600 (0x61 :: u8)))) = replicate 4 0x61"
    by (simp add: put_bytes_def)
  ultimately show ?thesis using st'(1,2) by (auto simp: numeral_eq_Suc)
qed

text \<open>
  C15: on every chain, \<open>fat32_read_absolute\<close> ends and stores the requested slice of the chain's
  bytes at the start of the buffer, cut at the end of the chain; it returns the number of bytes.
\<close>

theorem read_absolute_slice:
  assumes "chain (fat32_next_cluster st) c cl" and "cl \<noteq> []" and "0 < unat (sectors_per_cluster (fs st))"
    and "unat sz \<le> length buf"
  shows "fat32_read_absolute st c off sz buf =
    Some (of_nat (min (unat sz) (length (file_bytes st cl) - unat off)),
      put_bytes buf 0 (take (unat sz) (drop (unat off) (file_bytes st cl))))"
proof -
  have "take (min (unat sz) (length xs - k)) (drop k xs) = take (unat sz) (drop k xs)" for k and xs :: "u8 list"
    by (simp add: min_def)
  from this [of "file_bytes st cl" "unat off"] show ?thesis
    using read_absolute_chain [OF assms refl, of off] by (simp only:)
qed

theorem read_absolute_slice_witness:
  "fat32_read_absolute blank_volume 2 500 100 (replicate 100 1) = Some (12, replicate 12 0 @ replicate 88 1)"
proof -
  have "chain (fat32_next_cluster blank_volume) 2 [2]" using dir_atD(2) [OF blank_dir] .
  moreover have "file_bytes blank_volume [2] = replicate 512 0"
    by (simp add: file_bytes_def cluster_bytes_def blank_sector)
  ultimately show ?thesis
    using read_absolute_slice [of blank_volume 2 "[2]" 100 "replicate 100 1" 500] by (simp add: put_bytes_def)
qed

text \<open>
  \<open>cat\<close> of a text file that was just written prints the text and a newline.
\<close>

theorem write_file_then_cat:
  assumes "dir_at st (current_dir_cluster st) dl" and "is_cstr filename" and "format_filename filename ! 0 \<noteq> 0xE5"
    and "lookup_slot st dl (format_filename filename) = None"
    and "\<exists>sl \<in> set (dir_slots st dl). free_entry (slot_entry st sl)"
    and "\<forall>x \<in> set dl. fat32_next_cluster st x \<noteq> 0"
    and "unat sz = length data" and "is_cstr data" and "unat sz + unat (bytes_per_cluster st) \<le> 4294967296"
    and "unat ((sz + bytes_per_cluster st - 1) div bytes_per_cluster st) \<le> card (free_clusters st)"
  shows "\<exists>st'. fat32_write_file st filename data sz = Some st' \<and>
    fat32_cat st' filename = Some (console_print (data @ [0x0A]) st')"
proof -
  obtain sl where sl: "find (\<lambda>sl. free_entry (slot_entry st sl)) (dir_slots st dl) = Some sl"
    using assms(5) by (cases "find (\<lambda>sl. free_entry (slot_entry st sl)) (dir_slots st dl)") (auto simp: find_None_iff)
  have len: "unat sz \<le> length data" using assms(7) by simp
  show ?thesis
  proof (rule write_file_result [OF assms(1-4) sl assms(6) len assms(9,10)])
    fix st' cl e
    assume "fat32_write_file st filename data sz = Some st'" "fat32_find_file st' filename = Some (Some e)"
      and "de_file_size e = sz" and c: "dir_at st' (entry_cluster e) cl"
      and "take (unat sz) (file_bytes st' cl) = take (unat sz) data"
    then show ?thesis
      using cat_chain [of st' filename e cl] dir_atD(2) [OF c] assms(7,8) by (simp add: is_cstr_def)
  qed
qed

theorem write_file_then_cat_witness:
  "\<exists>st'. fat32_write_file blank_volume (cstr ''a'') (cstr ''hello'') 5 = Some st' \<and>
     fat32_cat st' (cstr ''a'') = Some (console_print (cstr ''hello'' @ [0x0A]) st')"
proof -
  have "is_cstr (cstr ''hello'')" "length (cstr ''hello'') = 5" by code_simp+
  then show ?thesis
    by (intro write_file_then_cat [where dl = "[2]"])
       (use blank_dir blank_lookup blank_free_exists name_a_ok cstr_a(2) blank_room in
         \<open>simp_all add: blank_next blank_bpc del: slot_entry_simp\<close>)
qed

text \<open>
  C37: when the free clusters do not suffice, \<open>fat32_write_file\<close> returns silently with every free
  cluster of the volume allocated to no file, and no directory entry written.
\<close>

theorem write_file_disk_full:
  assumes "geometry (fs st)" and "unat sz \<le> length data" and "unat sz + unat (bytes_per_cluster st) \<le> 4294967296"
    and "card (free_clusters st) < unat ((sz + bytes_per_cluster st - 1) div bytes_per_cluster st)"
  shows "\<exists>st'. fat32_write_file st filename data sz = Some st' \<and> free_clusters st' = {} \<and>
    (\<forall>x s. sector_ok st x s \<and> x \<notin> free_clusters st \<longrightarrow> read_sector_of st' x s = read_sector_of st x s)"
proof -
  let ?n = "card (free_clusters st)"
  let ?N = "unat ((sz + bytes_per_cluster st - 1) div bytes_per_cluster st)"
  have b: "bytes_per_cluster st \<noteq> 0" using assms(1) by (rule bpc_nonzero)
  note bd = write_file_bounds [OF b assms(3) refl]
  have "sector_pos st j s < 4294967296" if "j < ?n" "s < unat (sectors_per_cluster (fs st))" for j s
    using bd(3) [of j s] that assms(4) by simp
  from alloc_loop [OF assms(1,2) le_refl this]
  obtain cl st1 prev fst_c where loop: "for_each (alloc_step data sz) [0..<?n] (st, 0, 0) = Go (st1, prev, fst_c)"
    "length cl = ?n" and inv: "alloc_inv st data sz cl (st1, prev, fst_c)" by (metis prod_cases3)
  have sub: "set cl \<subseteq> free_clusters st" and ch: "chain (fat32_next_cluster st1) fst_c cl" and f: "fs st1 = fs st"
    and rd: "\<And>x s. sector_ok st x s \<Longrightarrow> x \<notin> set cl \<Longrightarrow> read_sector_of st1 x s = read_sector_of st x s"
    using inv unfolding alloc_inv_def free_clusters_def by auto
  have "card (set cl) = ?n" using distinct_card [OF chain_distinct [OF ch]] loop(2) by simp
  then have "set cl = free_clusters st" using card_subset_eq [OF _ sub] by simp
  then have ex: "free_clusters st1 = {}" using alloc_inv_free [OF inv assms(1)] by simp
  then have "alloc_step data sz ?n (st1, prev, fst_c) = Done st1"
    using alloc_exhausted [of st1] assms(1) f by (simp add: alloc_step_def)
  moreover have "[0..<?N] = [0..<?n] @ ?n # [Suc ?n..<?N]"
    using assms(4) by (metis less_imp_le_nat upt_add_eq_append le_add_diff_inverse upt_conv_Cons zero_le)
  ultimately have "for_each (alloc_step data sz) [0..<?N] (st, 0, 0) = Done st1"
    by (simp add: for_each_append loop(1))
  then have "fat32_write_file st filename data sz = Some st1" using b by (simp add: fat32_write_file_def Let_def)
  with ex rd sub show ?thesis by auto
qed

theorem write_file_disk_full_witness:
  "\<exists>st'. fat32_write_file blank_volume (cstr ''a'') (replicate 64512 0) 64512 = Some st' \<and> free_clusters st' = {}"
  using write_file_disk_full [of blank_volume 64512 "replicate 64512 0" "cstr ''a''"] blank_used
  by (auto simp: blank_bpc)

text \<open>
  writing to a name that exists does not replace the file: lookup still finds the old entry
  whenever the first free slot comes after it.
\<close>

theorem write_file_existing_name:
  assumes "dir_at st (current_dir_cluster st) dl" and "is_cstr filename" and "format_filename filename ! 0 \<noteq> 0xE5"
    and "lookup_slot st dl (format_filename filename) = Some old"
    and "find (\<lambda>sl. free_entry (slot_entry st sl)) (dir_slots st dl) = Some sl"
    and "old \<in> set (takeWhile (\<lambda>sl. \<not> free_entry (slot_entry st sl)) (dir_slots st dl))"
    and "\<forall>x \<in> set dl. fat32_next_cluster st x \<noteq> 0"
    and "unat sz \<le> length data" and "unat sz + unat (bytes_per_cluster st) \<le> 4294967296"
    and "unat ((sz + bytes_per_cluster st - 1) div bytes_per_cluster st) \<le> card (free_clusters st)"
  shows "\<exists>st'. fat32_write_file st filename data sz = Some st' \<and>
    fat32_find_file st' filename = Some (Some (slot_entry st old))"
proof (rule write_file_slot [OF assms(1,5,7-10), of filename])
  fix st1 cl c
  let ?e = "file_entry filename c sz (slot_entry st sl)"
  let ?st' = "set_slot sl ?e st1"
  assume w: "fat32_write_file st filename data sz = Some ?st'"
    and d1: "dir_at st1 (current_dir_cluster st) dl"
    and f1: "fs st1 = fs st" "current_dir_cluster st1 = current_dir_cluster st"
    and se: "\<And>x. x \<in> set (dir_slots st dl) \<Longrightarrow> slot_entry st1 x = slot_entry st x"
    and sl1: "find (\<lambda>sl. free_entry (slot_entry st1 sl)) (dir_slots st1 dl) = Some sl"
  have ds: "dir_slots st1 dl = dir_slots st dl" by (rule dir_slots_cong) (simp add: f1)
  have l1: "lookup_slot st1 dl (format_filename filename) = Some old" using assms(4) lookup_slot_cong [OF f1(1) se] by simp
  have "takeWhile (\<lambda>sl. \<not> free_entry (slot_entry st1 sl)) (dir_slots st1 dl) =
      takeWhile (\<lambda>sl. \<not> free_entry (slot_entry st sl)) (dir_slots st dl)"
    using se ds by (intro takeWhile_cong) simp_all
  then have old1: "old \<in> set (takeWhile (\<lambda>sl. \<not> free_entry (slot_entry st1 sl)) (dir_slots st1 dl))" using assms(6) by simp
  have mem: "sl \<in> set (dir_slots st1 dl)" using sl1 unfolding find_Some_iff by (metis nth_mem)
  note k = lookup_keeps [OF d1 l1 file_entry_facts(5) [OF assms(2,3)] sl1 old1]
  have "dir_at ?st' (current_dir_cluster st) dl" using dir_at_set_slot [OF d1 mem] d1 by simp
  then have "fat32_find_file ?st' filename = Some (map_option (slot_entry ?st') (lookup_slot ?st' dl (format_filename filename)))"
    using f1(2) by (intro find_file_lookup [OF dir_atD(2) assms(2)]) simp
  then show ?thesis using w k se [of old] lookup_slotD(1) [OF assms(4)] by (simp del: slot_entry_simp)
qed

theorem write_file_existing_name_witness:
  "\<exists>st'. fat32_write_file (one_entry_volume (sample_entry name_a 0x20)) (cstr ''a'') [1] 1 = Some st' \<and>
     fat32_find_file st' (cstr ''a'') = Some (Some (sample_entry name_a 0x20))"
proof -
  let ?v = "one_entry_volume (sample_entry name_a 0x20)"
  have len: "length (de_name (sample_entry name_a 0x20)) = 11" by (simp add: sample_entry_facts)
  note f = one_entry_facts [OF len]
  note l = one_lookup [of name_a "0x20"]
  note o = one_free [of name_a "0x20"]
  have b: "bytes_per_cluster ?v = 512" using f(1) by (simp add: bytes_per_cluster_def)
  have "\<exists>st'. fat32_write_file ?v (cstr ''a'') [1] 1 = Some st' \<and>
     fat32_find_file st' (cstr ''a'') = Some (Some (slot_entry ?v (2, 0, 0)))"
    by (rule write_file_existing_name [where dl = "[2]" and sl = "(2, 0, 1)"])
       (use f(2,5) l o b name_a_ok cstr_a(2) format_a' in \<open>simp_all del: slot_entry_simp\<close>)
  then show ?thesis using l(4) by (simp del: slot_entry_simp)
qed

text \<open>
  \<open>fat32_read_file\<close> stores the file's bytes followed by the rest of its last sector, and at
  least one sector even for an empty file.
\<close>

theorem read_file_whole_sectors:
  assumes "chain (fat32_next_cluster st) (entry_cluster e) cl"
    and "unat (de_file_size e) \<le> length (file_bytes st cl)"
  shows "\<exists>bytes. fat32_read_file st e = Some bytes \<and>
    take (unat (de_file_size e)) bytes = take (unat (de_file_size e)) (file_bytes st cl) \<and>
    length bytes = min (512 * Suc ((unat (de_file_size e) - 1) div 512)) (length (file_bytes st cl))"
proof -
  have "m \<le> 512 * Suc ((m - 1) div 512)" for m :: nat
    using dividend_less_times_div [of 512 "m - 1"] by simp
  from this [of "unat (de_file_size e)"] show ?thesis using read_file_chain [OF assms(1)] by (simp add: min_def)
qed

theorem read_file_whole_sectors_witness:
  "\<exists>bytes. fat32_read_file (one_entry_volume (sample_entry name_a 0x20)) (sample_entry name_a 0x20) = Some bytes \<and> length bytes = 512"
proof -
  let ?v = "one_entry_volume (sample_entry name_a 0x20)"
  have len: "length (de_name (sample_entry name_a 0x20)) = 11" by (simp add: sample_entry_facts)
  note f = one_entry_facts [OF len]
  have "de_file_size (sample_entry name_a 0x20) = 0" by code_simp
  moreover have "chain (fat32_next_cluster ?v) (entry_cluster (sample_entry name_a 0x20)) [3]"
    using dir_atD(2) [OF f(6)] by (simp add: sample_entry_facts)
  ultimately show ?thesis using read_file_whole_sectors [of ?v "sample_entry name_a 0x20" "[3]"] f(1) by auto
qed

end
