(* ===== verification/Vfs.thy ===== *)
theory Vfs
  imports Fat32_File KHeap_Spec
begin

text \<open>
  The virtual file system (\<open>src/kernel/fs/vfs.c\<close>) and the hooks by which FAT32 serves it
  (\<open>src/kernel/fs/fat32.c\<close>). A node is an object in a block of the kernel heap: the state maps the
  addresses of the open nodes to their contents. A function pointer in a node is the name of the
  function, \<open>None\<close> for NULL. The result of an operation is \<open>None\<close> when it does not return or uses a
  pointer that is not a node.
\<close>

section \<open>State\<close>

datatype vfs_io_type = Fat32_Vfs_Read

datatype vfs_close_type = Fat32_Vfs_Close

record vfs_node =
  node_name :: "u8 list"
  flags :: u32
  node_size :: u32
  inode :: u32
  read_op :: "vfs_io_type option"
  write_op :: "vfs_io_type option"
  close_op :: "vfs_close_type option"

record vfs =
  vheap :: kheap
  vfat :: fat_state
  nodes :: "u32 \<rightharpoonup> vfs_node"

definition VFS_FILE :: u32 where
  "VFS_FILE = 0x01"

definition VFS_DIRECTORY :: u32 where
  "VFS_DIRECTORY = 0x02"

section \<open>The FAT32 hooks\<close>

definition fat32_vfs_read :: "fat_state \<Rightarrow> vfs_node \<Rightarrow> u32 \<Rightarrow> u32 \<Rightarrow> u8 list \<Rightarrow> (u32 \<times> u8 list) option" where
  "fat32_vfs_read st node offset sz buffer =
     (if node_size node \<le> offset then Some (0, buffer)
      else
        (let sz = (if node_size node < offset + sz then node_size node - offset else sz)
         in fat32_read_absolute st (inode node) offset sz buffer))"

text \<open>The result is -1 when there is no such file; \<open>out_node\<close> keeps the fields that are not set.\<close>

definition fat32_file_lookup :: "fat_state \<Rightarrow> u8 list \<Rightarrow> vfs_node \<Rightarrow> (vfs_node \<times> int) option" where
  "fat32_file_lookup st filename out_node =
     map_option
       (\<lambda>found. case found of
          None \<Rightarrow> (out_node, -1)
        | Some entry \<Rightarrow>
            (out_node\<lparr>node_name := strncpy (node_name out_node) filename 255,
               node_size := de_file_size entry,
               inode := push_bit 16 (ucast (de_first_cluster_high entry)) OR ucast (de_first_cluster_low entry),
               flags := (if de_attr entry AND ATTR_DIRECTORY \<noteq> 0 then VFS_DIRECTORY else VFS_FILE),
               read_op := Some Fat32_Vfs_Read, write_op := None, close_op := Some Fat32_Vfs_Close\<rparr>, 0))
       (fat32_find_file st filename)"

section \<open>The file system interface\<close>

definition vfs_init :: "vfs \<Rightarrow> vfs" where
  "vfs_init s = s\<lparr>vfat := fat32_init (vfat s)\<rparr>"

text \<open>\<open>raw\<close> are the contents of the new block, which is not initialised; a node has 284 bytes.\<close>

definition vfs_open :: "vfs_node \<Rightarrow> u8 list \<Rightarrow> vfs \<Rightarrow> (vfs \<times> u32) option" where
  "vfs_open raw filename s =
     Option.bind (kmalloc 284 (vheap s))
       (\<lambda>(h, node).
          let s = s\<lparr>vheap := h\<rparr>
          in if node = 0 then Some (s, 0)
             else
               Option.bind (fat32_file_lookup (vfat s) filename raw)
                 (\<lambda>(nd, r).
                    if r \<noteq> 0 then map_option (\<lambda>h. (s\<lparr>vheap := h\<rparr>, 0)) (kfree node (vheap s))
                    else Some (s\<lparr>nodes := (nodes s)(node \<mapsto> nd)\<rparr>, node)))"

definition vfs_read :: "u32 \<Rightarrow> u32 \<Rightarrow> u32 \<Rightarrow> u8 list \<Rightarrow> vfs \<Rightarrow> (u32 \<times> u8 list) option" where
  "vfs_read node offset sz buffer s =
     (if node = 0 then Some (0, buffer)
      else
        Option.bind (nodes s node)
          (\<lambda>nd. case read_op nd of
             Some Fat32_Vfs_Read \<Rightarrow> fat32_vfs_read (vfat s) nd offset sz buffer
           | None \<Rightarrow> Some (0, buffer)))"

definition vfs_write :: "u32 \<Rightarrow> u32 \<Rightarrow> u32 \<Rightarrow> u8 list \<Rightarrow> vfs \<Rightarrow> (u32 \<times> u8 list) option" where
  "vfs_write node offset sz buffer s =
     (if node = 0 then Some (0, buffer)
      else
        Option.bind (nodes s node)
          (\<lambda>nd. case write_op nd of
             Some Fat32_Vfs_Read \<Rightarrow> fat32_vfs_read (vfat s) nd offset sz buffer
           | None \<Rightarrow> Some (0, buffer)))"

definition vfs_close :: "u32 \<Rightarrow> vfs \<Rightarrow> vfs option" where
  "vfs_close node s =
     (if node = 0 then Some s
      else
        Option.bind (nodes s node)
          (\<lambda>_. map_option (\<lambda>h. s\<lparr>vheap := h, nodes := (nodes s)(node := None)\<rparr>) (kfree node (vheap s))))"

text \<open>The operations on directories and whole files go to FAT32 unchanged.\<close>

definition on_fat :: "(fat_state \<Rightarrow> fat_state option) \<Rightarrow> vfs \<Rightarrow> vfs option" where
  "on_fat f s = map_option (\<lambda>st. s\<lparr>vfat := st\<rparr>) (f (vfat s))"

definition vfs_write_temp :: "u8 list \<Rightarrow> u8 list \<Rightarrow> u32 \<Rightarrow> vfs \<Rightarrow> vfs option" where
  "vfs_write_temp name data sz = on_fat (\<lambda>st. fat32_write_file st name data sz)"

definition vfs_ls :: "vfs \<Rightarrow> vfs option" where
  "vfs_ls = on_fat fat32_ls"

definition vfs_cd :: "u8 list \<Rightarrow> vfs \<Rightarrow> vfs option" where
  "vfs_cd path = on_fat (\<lambda>st. fat32_cd st path)"

definition vfs_pwd :: "vfs \<Rightarrow> vfs option" where
  "vfs_pwd = on_fat fat32_pwd"

definition vfs_create_directory :: "u8 list \<Rightarrow> vfs \<Rightarrow> vfs option" where
  "vfs_create_directory dirname = on_fat (\<lambda>st. fat32_create_directory st dirname)"

definition vfs_rm :: "u8 list \<Rightarrow> vfs \<Rightarrow> vfs option" where
  "vfs_rm name = on_fat (\<lambda>st. fat32_delete_file st name)"

definition vfs_rmdir :: "u8 list \<Rightarrow> vfs \<Rightarrow> vfs option" where
  "vfs_rmdir dirname = on_fat (\<lambda>st. fat32_rmdir st dirname)"

definition vfs_cat :: "u8 list \<Rightarrow> vfs \<Rightarrow> vfs option" where
  "vfs_cat name = on_fat (\<lambda>st. fat32_cat st name)"

definition vfs_usage :: "vfs \<Rightarrow> vfs option" where
  "vfs_usage = on_fat fat32_show_usage"

section \<open>Specification\<close>

text \<open>The open node \<open>p\<close> reads as the bytes \<open>bs\<close>: every positioned read stores what is there and returns its length.\<close>

definition reads_as :: "vfs \<Rightarrow> u32 \<Rightarrow> u8 list \<Rightarrow> bool" where
  "reads_as s p bs \<longleftrightarrow> (\<forall>off n buf. unat off + unat n < 4294967296 \<and> unat n \<le> length buf \<longrightarrow>
     vfs_read p off n buf s = Some (of_nat (min (unat n) (length bs - unat off)), put_bytes buf 0 (take (unat n) (drop (unat off) bs))))"

section \<open>Lemmas\<close>

lemma fat32_vfs_read_file:
  assumes "dir_at st (inode nd) cl" and "unat (node_size nd) \<le> length (file_bytes st cl)"
    and n: "unat off + unat n < 4294967296" "unat n \<le> length buf"
  defines "bs \<equiv> take (unat (node_size nd)) (file_bytes st cl)"
  shows "fat32_vfs_read st nd off n buf = Some (of_nat (min (unat n) (length bs - unat off)), put_bytes buf 0 (take (unat n) (drop (unat off) bs)))"
proof -
  let ?sz = "node_size nd"
  have l: "length bs = unat ?sz" using assms(2) by (simp add: bs_def)
  have b: "take (unat ?sz) (file_bytes st cl) = take (unat ?sz) bs" by (simp add: bs_def)
  show ?thesis
  proof (cases "?sz \<le> off")
    case True
    then have "unat ?sz \<le> unat off" by (simp add: word_le_nat_alt)
    then show ?thesis using True l by (simp add: fat32_vfs_read_def put_bytes_def)
  next
    case False
    then have lt: "unat off < unat ?sz" by (simp add: word_le_nat_alt)
    define k where "k = (if ?sz < off + n then ?sz - off else n)"
    have "unat (off + n) = unat off + unat n" using n(1) by (rule unat_add_u32)
    then have k: "unat k = min (unat n) (unat ?sz - unat off)"
      using lt by (auto simp: k_def word_less_nat_alt unat_sub_u32)
    have "fat32_vfs_read st nd off n buf = fat32_read_absolute st (inode nd) off k buf"
      using False by (simp add: fat32_vfs_read_def k_def)
    also have "\<dots> = Some (k, put_bytes buf 0 (take (unat k) (drop (unat off) bs)))"
      by (rule read_back [OF assms(1) b assms(2)]) (use k lt n(2) in auto)
    also have "take (unat k) (drop (unat off) bs) = take (unat n) (drop (unat off) bs)" unfolding k by (simp add: l min_def)
    finally show ?thesis using k l by (metis of_nat_unat ucast_id)
  qed
qed

lemma vfs_open_found:
  assumes ok: "heap_ok (vheap s) A" and fits: "fits A 284" and e: "fat32_find_file (vfat s) filename = Some (Some e)"
    and d: "dir_at (vfat s) (entry_cluster e) cl" and l: "unat (de_file_size e) \<le> length (file_bytes (vfat s) cl)"
  shows "\<exists>s2 p s3. vfs_open raw filename s = Some (s2, p) \<and> p \<noteq> 0 \<and> vfat s2 = vfat s \<and>
    reads_as s2 p (take (unat (de_file_size e)) (file_bytes (vfat s) cl)) \<and>
    vfs_close p s2 = Some s3 \<and> vfat s3 = vfat s \<and> nodes s3 = (nodes s)(p := None) \<and> heap_ok (vheap s3) A \<and>
    (\<forall>x \<in> client A. ram (vheap s3) (of_nat x) = ram (vheap s) (of_nat x))"
proof -
  obtain h1 p h2 where k: "kmalloc 284 (vheap s) = Some (h1, p)" "p \<noteq> 0" "kfree p h1 = Some h2" "heap_ok h2 A"
      "\<forall>x \<in> client A. ram h2 (of_nat x) = ram (vheap s) (of_nat x)"
    using alloc_release [OF ok fits] by blast
  obtain nd where nd: "fat32_file_lookup (vfat s) filename raw = Some (nd, 0)" "node_size nd = de_file_size e" "inode nd = entry_cluster e"
      "read_op nd = Some Fat32_Vfs_Read"
    using e by (simp add: fat32_file_lookup_def entry_cluster_def)
  define s2 where "s2 = s\<lparr>vheap := h1, nodes := (nodes s)(p \<mapsto> nd)\<rparr>"
  have o: "vfs_open raw filename s = Some (s2, p)" using k(1,2) nd(1) by (simp add: vfs_open_def s2_def)
  have "reads_as s2 p (take (unat (de_file_size e)) (file_bytes (vfat s) cl))"
    unfolding reads_as_def
    using fat32_vfs_read_file [of "vfat s" nd cl] d l nd k(2) by (simp add: vfs_read_def s2_def)
  moreover have "vfs_close p s2 = Some (s2\<lparr>vheap := h2, nodes := (nodes s2)(p := None)\<rparr>)"
    using k(2,3) by (simp add: vfs_close_def s2_def)
  ultimately show ?thesis using o k(2,4,5) by (auto simp: s2_def)
qed

section \<open>Properties\<close>

text \<open>
  C7: A file that was written under a new name can be opened, reads back as exactly its bytes at every
  position, with short reads at its end, and closing it gives the block of the node back to the
  heap, which is then as it was.
\<close>

theorem vfs_file_roundtrip:
  assumes "dir_at (vfat s) (current_dir_cluster (vfat s)) dl" and "is_cstr filename" and "format_filename filename ! 0 \<noteq> 0xE5"
    and "lookup_slot (vfat s) dl (format_filename filename) = None"
    and "\<exists>sl \<in> set (dir_slots (vfat s) dl). free_entry (slot_entry (vfat s) sl)"
    and "\<forall>x \<in> set dl. fat32_next_cluster (vfat s) x \<noteq> 0"
    and "unat sz \<le> length data" and "unat sz + unat (bytes_per_cluster (vfat s)) \<le> 4294967296"
    and "unat ((sz + bytes_per_cluster (vfat s) - 1) div bytes_per_cluster (vfat s)) \<le> card (free_clusters (vfat s))"
    and "heap_ok (vheap s) A" and "fits A 284"
  shows "\<exists>s1 s2 p s3. vfs_write_temp filename data sz s = Some s1 \<and> vfs_open raw filename s1 = Some (s2, p) \<and> p \<noteq> 0 \<and>
    reads_as s2 p (take (unat sz) data) \<and> vfs_close p s2 = Some s3 \<and> vfat s3 = vfat s1 \<and> heap_ok (vheap s3) A \<and>
    (\<forall>x \<in> client A. ram (vheap s3) (of_nat x) = ram (vheap s) (of_nat x))"
proof -
  obtain sl where sl: "find (\<lambda>sl. free_entry (slot_entry (vfat s) sl)) (dir_slots (vfat s) dl) = Some sl"
    using assms(5) by (cases "find (\<lambda>sl. free_entry (slot_entry (vfat s) sl)) (dir_slots (vfat s) dl)") (auto simp: find_None_iff)
  show ?thesis
  proof (rule write_file_result [OF assms(1-4) sl assms(6-9)])
    fix st' cl e
    assume w: "fat32_write_file (vfat s) filename data sz = Some st'" "fat32_find_file st' filename = Some (Some e)"
      "de_file_size e = sz" "dir_at st' (entry_cluster e) cl"
      "take (unat sz) (file_bytes st' cl) = take (unat sz) data" "unat sz \<le> length (file_bytes st' cl)"
    let ?s1 = "s\<lparr>vfat := st'\<rparr>"
    have "vfs_write_temp filename data sz s = Some ?s1" using w(1) by (simp add: vfs_write_temp_def on_fat_def)
    moreover have "heap_ok (vheap ?s1) A" using assms(10) by simp
    note vfs_open_found [OF this assms(11), of filename e cl raw]
    ultimately show ?thesis using w by fastforce
  qed
qed

theorem vfs_file_roundtrip_witness:
  "\<forall>raw. \<exists>s1 s2 p. vfs_write_temp (cstr ''a'') (replicate 600 0x61) 600 \<lparr>vheap = kheap_init 4096 1024 small_heap, vfat = blank_volume, nodes = Map.empty\<rparr> = Some s1 \<and>
     vfs_open raw (cstr ''a'') s1 = Some (s2, p) \<and> vfs_read p 598 4 [0, 0, 0, 0] s2 = Some (2, [0x61, 0x61, 0, 0])"
proof
  fix raw
  let ?s = "\<lparr>vheap = kheap_init 4096 1024 small_heap, vfat = blank_volume, nodes = Map.empty\<rparr>"
  have ok: "heap_ok (vheap ?s) (4096, [(1012, True)])"
    using kheap_init_heap_ok [of 4096 1024 small_heap] by simp
  have fits: "fits (4096, [(1012, True)]) 284" by (simp add: fits_def ALIGN_def ALIGNMENT_def)
  have "\<exists>s1 s2 p s3. vfs_write_temp (cstr ''a'') (replicate 600 0x61) 600 ?s = Some s1 \<and> vfs_open raw (cstr ''a'') s1 = Some (s2, p) \<and> p \<noteq> 0 \<and>
    reads_as s2 p (take (unat (600 :: u32)) (replicate 600 0x61)) \<and> vfs_close p s2 = Some s3 \<and> vfat s3 = vfat s1 \<and>
    heap_ok (vheap s3) (4096, [(1012, True)]) \<and> (\<forall>x \<in> client (4096, [(1012, True)]). ram (vheap s3) (of_nat x) = ram (vheap ?s) (of_nat x))"
    by (rule vfs_file_roundtrip [where dl = "[2]", OF _ _ _ _ _ _ _ _ _ ok fits])
      (use blank_dir blank_lookup blank_free_exists name_a_ok cstr_a(2) blank_room in
         \<open>simp_all add: blank_next blank_bpc del: slot_entry_simp\<close>)
  then obtain s1 s2 p where s: "vfs_write_temp (cstr ''a'') (replicate 600 0x61) 600 ?s = Some s1" "vfs_open raw (cstr ''a'') s1 = Some (s2, p)"
      "reads_as s2 p (take (unat (600 :: u32)) (replicate 600 0x61))" by blast
  have "vfs_read p 598 4 [0, 0, 0, 0] s2 = Some (of_nat 2, put_bytes [0, 0, 0, 0] 0 (take 4 (drop 598 (replicate 600 0x61))))"
    using s(3) [unfolded reads_as_def, rule_format, of 598 4 "[0, 0, 0, 0]"] by simp
  then show "\<exists>s1 s2 p. vfs_write_temp (cstr ''a'') (replicate 600 0x61) 600 ?s = Some s1 \<and>
     vfs_open raw (cstr ''a'') s1 = Some (s2, p) \<and> vfs_read p 598 4 [0, 0, 0, 0] s2 = Some (2, [0x61, 0x61, 0, 0])"
    using s(1,2) by (simp add: put_bytes_def numeral_eq_Suc)
qed

text \<open>
  Opening a name that the current directory does not list returns NULL and gives the block of the
  node back to the heap.
\<close>

theorem vfs_open_missing:
  assumes "dir_at (vfat s) (current_dir_cluster (vfat s)) dl" and "is_cstr filename"
    and "lookup_slot (vfat s) dl (format_filename filename) = None" and "heap_ok (vheap s) A"
  shows "\<exists>s'. vfs_open raw filename s = Some (s', 0) \<and> vfat s' = vfat s \<and> nodes s' = nodes s \<and> heap_ok (vheap s') A \<and>
    (\<forall>x \<in> client A. ram (vheap s') (of_nat x) = ram (vheap s) (of_nat x))"
proof -
  have n: "fat32_find_file (vfat s) filename = Some None"
    using find_file_lookup [OF dir_atD(2) [OF assms(1)] assms(2)] assms(3) by simp
  show ?thesis
  proof (cases "fits A 284")
    case True
    then show ?thesis using alloc_release [OF assms(4), of 284] n by (auto simp: vfs_open_def fat32_file_lookup_def)
  next
    case False
    then show ?thesis using kmalloc_full [OF assms(4)] assms(4) by (simp add: vfs_open_def)
  qed
qed

theorem vfs_open_missing_witness:
  "\<forall>raw. \<exists>s'. vfs_open raw (cstr ''a'') \<lparr>vheap = small_heap, vfat = blank_volume, nodes = Map.empty\<rparr> = Some (s', 0)"
proof
  fix raw
  let ?s = "\<lparr>vheap = small_heap, vfat = blank_volume, nodes = Map.empty\<rparr>"
  show "\<exists>s'. vfs_open raw (cstr ''a'') ?s = Some (s', 0)"
    using vfs_open_missing [of ?s "[2]" "cstr ''a''" "(4096, [(244, True)])" raw] blank_dir blank_lookup cstr_a(2) small_heap_ok by auto
qed

end
