(* ===== verification/Process.thy ===== *)
theory Process
  imports Vfs Memory Paging
begin

text \<open>
  The ELF loader (\<open>src/kernel/process/process.c\<close>, \<open>src/kernel/elf/elf.h\<close>). It joins the virtual file system,
  the kernel heap and paging: physical memory is the memory of the heap, which the page tables share, and
  the loader writes a segment through the addresses it has just mapped. Jumping to ring 3
  (\<open>enter_user_mode\<close>, assembly) is the result \<open>User_Mode\<close>.
\<close>

unbundle bit_operations_syntax

section \<open>ELF headers\<close>

record elf_header =
  e_ident :: "u8 list"
  e_type :: u16
  e_machine :: u16
  e_version :: u32
  e_entry :: u32
  e_phoff :: u32
  e_shoff :: u32
  e_flags :: u32
  e_ehsize :: u32
  e_phentsize :: u16
  e_phnum :: u16
  e_shentsize :: u16
  e_shnum :: u16
  e_shstrndx :: u16

record elf_program_header =
  p_type :: u32
  p_offset :: u32
  p_vaddr :: u32
  p_paddr :: u32
  p_filesz :: u32
  p_memsz :: u32
  p_flags :: u32
  p_align :: u32

text \<open>The packed structures, read from the bytes that were stored in them.\<close>

definition elf_header_at :: "u8 list \<Rightarrow> elf_header" where
  "elf_header_at b =
     \<lparr>e_ident = take 16 b, e_type = load16 b 16, e_machine = load16 b 18, e_version = load32 b 20,
      e_entry = load32 b 24, e_phoff = load32 b 28, e_shoff = load32 b 32, e_flags = load32 b 36,
      e_ehsize = load32 b 40, e_phentsize = load16 b 44, e_phnum = load16 b 46,
      e_shentsize = load16 b 48, e_shnum = load16 b 50, e_shstrndx = load16 b 52\<rparr>"

definition elf_program_header_at :: "u8 list \<Rightarrow> elf_program_header" where
  "elf_program_header_at b =
     \<lparr>p_type = load32 b 0, p_offset = load32 b 4, p_vaddr = load32 b 8, p_paddr = load32 b 12,
      p_filesz = load32 b 16, p_memsz = load32 b 20, p_flags = load32 b 24, p_align = load32 b 28\<rparr>"

definition ELF_MAGIC :: u32 where
  "ELF_MAGIC = 0x464C457F"

definition ET_EXEC :: u16 where
  "ET_EXEC = 2"

definition PT_LOAD :: u32 where
  "PT_LOAD = 1"

section \<open>State\<close>

text \<open>The memory of \<open>mpaging\<close> is not used: the tables are in the memory of the heap.\<close>

record machine =
  mvfs :: vfs
  mpaging :: paging

datatype exec_result = Status int | User_Mode u32 u32

definition pg :: "machine \<Rightarrow> paging" where
  "pg m = (mpaging m)\<lparr>memory := ram (vheap (mvfs m))\<rparr>"

definition on_paging :: "(paging \<Rightarrow> paging option) \<Rightarrow> machine \<Rightarrow> machine option" where
  "on_paging f m =
     map_option (\<lambda>p. m\<lparr>mpaging := p, mvfs := (mvfs m)\<lparr>vheap := (vheap (mvfs m))\<lparr>ram := memory p\<rparr>\<rparr>\<rparr>) (f (pg m))"

text \<open>Bytes stored at virtual addresses; \<open>None\<close> is a page fault, which the kernel does not handle.\<close>

fun store_virt :: "u32 \<Rightarrow> u8 list \<Rightarrow> paging \<Rightarrow> paging option" where
  "store_virt va [] p = Some p"
| "store_virt va (b # bs) p =
     (case translate p va of
        None \<Rightarrow> None
      | Some pa \<Rightarrow> store_virt (va + 1) bs (p\<lparr>memory := (memory p)(pa := b)\<rparr>))"

section \<open>Loading\<close>

definition load_segment :: "u32 \<Rightarrow> elf_program_header \<Rightarrow> machine \<Rightarrow> machine option" where
  "load_segment file ph m =
     Option.bind (on_paging (paging_map_user_memory (p_vaddr ph) (p_memsz ph)) m)
       (\<lambda>m. Option.bind (on_paging (store_virt (p_vaddr ph) (replicate (unat (p_memsz ph)) 0)) m)
         (\<lambda>m. if 0 < p_filesz ph then
                 Option.bind (vfs_read file (p_offset ph) (p_filesz ph) (replicate (unat (p_filesz ph)) 0) (mvfs m))
                   (\<lambda>(n, buffer). on_paging (store_virt (p_vaddr ph) (take (unat n) buffer)) m)
               else Some m))"

text \<open>
  The loop over the program headers; \<open>junk\<close> are the contents of the variables that a short read
  leaves as they are.
\<close>

fun load_segments :: "u32 \<Rightarrow> elf_header \<Rightarrow> (nat \<Rightarrow> u8 list) \<Rightarrow> nat list \<Rightarrow> machine \<Rightarrow> machine option" where
  "load_segments file h junk [] m = Some m"
| "load_segments file h junk (i # is) m =
     (let offset = e_phoff h + of_nat i * ucast (e_phentsize h)
      in Option.bind (vfs_read file offset 32 (junk i) (mvfs m))
           (\<lambda>(_, buffer).
              let ph = elf_program_header_at buffer
              in Option.bind (if p_type ph = PT_LOAD then load_segment file ph m else Some m)
                   (load_segments file h junk is)))"

definition close_with :: "u32 \<Rightarrow> exec_result \<Rightarrow> machine \<Rightarrow> (machine \<times> exec_result) option" where
  "close_with file r m = map_option (\<lambda>v. (m\<lparr>mvfs := v\<rparr>, r)) (vfs_close file (mvfs m))"

definition exec_elf :: "vfs_node \<Rightarrow> u8 list \<Rightarrow> (nat \<Rightarrow> u8 list) \<Rightarrow> u8 list \<Rightarrow> machine \<Rightarrow> (machine \<times> exec_result) option" where
  "exec_elf raw hjunk junk filename m =
     Option.bind (vfs_open raw filename (mvfs m))
       (\<lambda>(v, file).
          let m = m\<lparr>mvfs := v\<rparr>
          in if file = 0 then Some (m, Status (-1))
             else
               Option.bind (vfs_read file 0 54 hjunk (mvfs m))
                 (\<lambda>(_, buffer).
                    let h = elf_header_at buffer
                    in if load32 (e_ident h) 0 \<noteq> ELF_MAGIC then close_with file (Status (-2)) m
                       else if e_type h \<noteq> ET_EXEC then close_with file (Status (-3)) m
                       else
                         Option.bind (load_segments file h junk [0..<unat (e_phnum h)] m)
                           (\<lambda>m. let user_stack_top = 0xBFFFF000;
                                     stack_size = 4096 * 4;
                                     user_stack_bottom = user_stack_top - stack_size
                                 in Option.bind (on_paging (paging_map_user_memory user_stack_bottom stack_size) m)
                                      (\<lambda>m. Option.bind (on_paging (store_virt user_stack_bottom (replicate (unat stack_size) 0)) m)
                                        (close_with file (User_Mode (e_entry h) user_stack_top))))))"

section \<open>Specification\<close>

text \<open>
  A byte that user code sees at a virtual address, in a frame that is not a page table and none of the
  frames \<open>D\<close>.
\<close>

definition virt_byte :: "nat set \<Rightarrow> paging \<Rightarrow> nat \<Rightarrow> u8 \<Rightarrow> bool" where
  "virt_byte D s u b \<longleftrightarrow> (\<exists>pa. translate s (of_nat u) = Some pa \<and> unat pa div 4096 \<notin> D \<and>
     data_frame s (unat pa div 4096) \<and> memory s pa = b)"

text \<open>The number of pages of a run of addresses.\<close>

definition pages :: "nat \<Rightarrow> nat \<Rightarrow> nat" where
  "pages va sz = (va + sz + 4095) div 4096 - va div 4096"

text \<open>The segment \<open>ph\<close> of the file \<open>bs\<close> is in memory: its bytes from the file, and zeros after them.\<close>

definition segment_loaded :: "nat set \<Rightarrow> paging \<Rightarrow> u8 list \<Rightarrow> elf_program_header \<Rightarrow> bool" where
  "segment_loaded D s bs ph \<longleftrightarrow> (\<forall>k < unat (p_memsz ph).
     virt_byte D s (unat (p_vaddr ph) + k) (if k < unat (p_filesz ph) then bs ! (unat (p_offset ph) + k) else 0))"

text \<open>The pages of a segment, and a segment that the file, the address space and the loader have room for:
  it does not overlap the 16 MB of the kernel or the stack.\<close>

definition ph_pages :: "elf_program_header \<Rightarrow> nat set" where
  "ph_pages ph = {unat (p_vaddr ph) div 4096..<unat (p_vaddr ph) div 4096 + pages (unat (p_vaddr ph)) (unat (p_memsz ph))}"

definition fits_file :: "u8 list \<Rightarrow> elf_program_header \<Rightarrow> bool" where
  "fits_file bs ph \<longleftrightarrow> p_memsz ph \<noteq> 0 \<and> unat (p_filesz ph) \<le> unat (p_memsz ph) \<and>
     unat (p_offset ph) + unat (p_filesz ph) \<le> length bs \<and> unat (p_offset ph) + unat (p_filesz ph) < 4294967296 \<and>
     0x1000000 \<le> unat (p_vaddr ph) \<and> unat (p_vaddr ph) + unat (p_memsz ph) \<le> 0xBFFFB000"

text \<open>The program headers as the loader reads them, and those that it loads.\<close>

definition header_of :: "u8 list \<Rightarrow> elf_header \<Rightarrow> nat \<Rightarrow> elf_program_header" where
  "header_of bs h i = elf_program_header_at (take 32 (drop (unat (e_phoff h) + i * unat (e_phentsize h)) bs))"

definition loads :: "u8 list \<Rightarrow> elf_header \<Rightarrow> nat list \<Rightarrow> elf_program_header list" where
  "loads bs h is = filter (\<lambda>ph. p_type ph = PT_LOAD) (map (header_of bs h) is)"

text \<open>An executable file.\<close>

definition executable_file :: "u8 list \<Rightarrow> elf_header \<Rightarrow> bool" where
  "executable_file bs h \<longleftrightarrow> 54 \<le> length bs \<and> h = elf_header_at (take 54 bs) \<and> load32 bs 0 = ELF_MAGIC \<and> e_type h = ET_EXEC \<and>
     (\<forall>i < unat (e_phnum h). unat (e_phoff h) + i * unat (e_phentsize h) + 32 \<le> length bs) \<and>
     (\<forall>ph \<in> set (loads bs h [0..<unat (e_phnum h)]). fits_file bs ph) \<and>
     sorted_wrt (\<lambda>a b. ph_pages a \<inter> ph_pages b = {}) (loads bs h [0..<unat (e_phnum h)])"

text \<open>The zeroed stack, and a heap whose own bytes lie in frames that are not handed out again.\<close>

definition stack_ready :: "nat set \<Rightarrow> paging \<Rightarrow> bool" where
  "stack_ready D s \<longleftrightarrow> (\<forall>u \<in> {0xBFFFB000..<0xBFFFF000}. virt_byte D s u 0)"

definition isolated :: "nat \<times> blocks \<Rightarrow> paging \<Rightarrow> bool" where
  "isolated A s \<longleftrightarrow> (\<forall>x < 4294967296. x \<notin> client A \<longrightarrow> data_frame s (x div 4096))"

text \<open>The header of the ELF standard, where every field from \<open>e_ehsize\<close> on has 16 bits.\<close>

definition elf32_header :: "u8 list \<Rightarrow> u16 \<Rightarrow> u16 \<Rightarrow> u32 \<Rightarrow> u32 \<Rightarrow> u32 \<Rightarrow> u32 \<Rightarrow> u32 \<Rightarrow> u16 \<Rightarrow> u16 \<Rightarrow> u16 \<Rightarrow> u16 \<Rightarrow> u16 \<Rightarrow> u16 \<Rightarrow> u8 list" where
  "elf32_header ident ty machine version entry phoff shoff fl ehsize phentsize phnum shentsize shnum shstrndx =
     ident @ bytes16 ty @ bytes16 machine @ bytes32 version @ bytes32 entry @ bytes32 phoff @ bytes32 shoff @ bytes32 fl @
     bytes16 ehsize @ bytes16 phentsize @ bytes16 phnum @ bytes16 shentsize @ bytes16 shnum @ bytes16 shstrndx"

text \<open>The bytes of the repository's sample program up to the end of its segment, that segment, and a machine
  after boot.\<close>

definition sojeb_elf :: "u8 list" where
  "sojeb_elf =
    [0x7F, 0x45, 0x4C, 0x46, 0x01, 0x01, 0x01, 0x00, 0x00, 0x00, 0x00, 0x00, 0x00, 0x00, 0x00, 0x00, 0x02, 0x00, 0x03, 0x00,
     0x01, 0x00, 0x00, 0x00, 0x00, 0x00, 0x00, 0x01, 0x34, 0x00, 0x00, 0x00, 0x28, 0x02, 0x00, 0x00, 0x00, 0x00, 0x00, 0x00,
     0x34, 0x00, 0x20, 0x00, 0x02, 0x00, 0x28, 0x00, 0x08, 0x00, 0x07, 0x00, 0x01, 0x00, 0x00, 0x00, 0x74, 0x00, 0x00, 0x00,
     0x00, 0x00, 0x00, 0x01, 0x00, 0x00, 0x00, 0x01, 0x68, 0x00, 0x00, 0x00, 0x68, 0x00, 0x00, 0x00, 0x07, 0x00, 0x00, 0x00,
     0x04, 0x00, 0x00, 0x00, 0x51, 0xE5, 0x74, 0x64, 0x00, 0x00, 0x00, 0x00, 0x00, 0x00, 0x00, 0x00, 0x00, 0x00, 0x00, 0x00,
     0x00, 0x00, 0x00, 0x00, 0x00, 0x00, 0x00, 0x00, 0x06, 0x00, 0x00, 0x00, 0x10, 0x00, 0x00, 0x00, 0x55, 0x89, 0xE5, 0xE8,
     0x08, 0x00, 0x00, 0x00, 0x05, 0x54, 0x00, 0x00, 0x00, 0x90, 0xEB, 0xFD, 0x8B, 0x04, 0x24, 0xC3, 0x14, 0x00, 0x00, 0x00,
     0x00, 0x00, 0x00, 0x00, 0x01, 0x7A, 0x52, 0x00, 0x01, 0x7C, 0x08, 0x01, 0x1B, 0x0C, 0x04, 0x04, 0x88, 0x01, 0x00, 0x00,
     0x18, 0x00, 0x00, 0x00, 0x1C, 0x00, 0x00, 0x00, 0xCC, 0xFF, 0xFF, 0xFF, 0x10, 0x00, 0x00, 0x00, 0x00, 0x41, 0x0E, 0x08,
     0x85, 0x02, 0x42, 0x0D, 0x05, 0x00, 0x00, 0x00, 0x10, 0x00, 0x00, 0x00, 0x38, 0x00, 0x00, 0x00, 0xC0, 0xFF, 0xFF, 0xFF,
     0x04, 0x00, 0x00, 0x00, 0x00, 0x00, 0x00, 0x00, 0x00, 0x00, 0x00, 0x00, 0x00, 0x00, 0x00, 0x00, 0x00, 0x00, 0x00, 0x00]"

definition sojeb_segment :: elf_program_header where
  "sojeb_segment = \<lparr>p_type = 1, p_offset = 116, p_vaddr = 0x1000000, p_paddr = 0x1000000, p_filesz = 104, p_memsz = 104, p_flags = 7, p_align = 4\<rparr>"

definition boot_machine :: "fat_state \<Rightarrow> machine" where
  "boot_machine st = \<lparr>mvfs = \<lparr>vheap = kheap_init 4096 1024 \<lparr>ram = memory boot_paging, free_list_head = 0\<rparr>, vfat = st, nodes = Map.empty\<rparr>,
     mpaging = boot_paging\<rparr>"

section \<open>Lemmas: stores through mapped pages\<close>

text \<open>The pages from \<open>P\<close> on lead to the data frames \<open>F\<close>.\<close>

definition phys :: "nat list \<Rightarrow> nat \<Rightarrow> nat \<Rightarrow> nat" where
  "phys F P u = 4096 * F ! (u div 4096 - P) + u mod 4096"

lemma phys_div: "phys F P u div 4096 = F ! (u div 4096 - P)"
  by (simp add: phys_def)

lemma phys_inj:
  assumes "distinct F" and "u div 4096 \<in> {P..<P + length F}" and "w div 4096 \<in> {P..<P + length F}" and "phys F P u = phys F P w"
  shows "u = w"
proof -
  have "F ! (u div 4096 - P) = F ! (w div 4096 - P)" using assms(4) phys_div by metis
  then have "u div 4096 - P = w div 4096 - P" using assms(1-3) by (subst (asm) nth_eq_iff_index_eq) auto
  then have "u div 4096 = w div 4096" using assms(2,3) by (simp add: eq_diff_iff)
  moreover have "u mod 4096 = w mod 4096" using assms(4) calculation by (simp add: phys_def)
  ultimately show ?thesis by (metis div_mult_mod_eq)
qed

definition mapped :: "paging \<Rightarrow> nat \<Rightarrow> nat list \<Rightarrow> bool" where
  "mapped s P F \<longleftrightarrow> paging_ok s \<and> distinct F \<and> (\<forall>i \<in> set F. data_frame s i) \<and> P + length F \<le> 1048576 \<and>
     (\<forall>u. P \<le> u div 4096 \<and> u div 4096 < P + length F \<longrightarrow> translate s (of_nat u) = Some (of_nat (phys F P u)))"

lemma mapped_phys: "mapped s P F \<Longrightarrow> u div 4096 \<in> {P..<P + length F} \<Longrightarrow> phys F P u < 67108864 \<and> F ! (u div 4096 - P) \<in> set F"
proof -
  assume m: "mapped s P F" and u: "u div 4096 \<in> {P..<P + length F}"
  then have "F ! (u div 4096 - P) \<in> set F" by (intro nth_mem) auto
  moreover from this have "F ! (u div 4096 - P) < 16384" using m by (auto simp: mapped_def data_frame_def TOTAL_FRAMES_def)
  then have "phys F P u < 67108864" unfolding phys_def using mod_less_divisor [of 4096 u] by linarith
  ultimately show ?thesis by simp
qed

lemma mapped_store:
  assumes m: "mapped s P F" and mem: "\<And>x. x < 4294967296 \<Longrightarrow> x div 4096 \<notin> set F \<Longrightarrow> m' (of_nat x) = memory s (of_nat x)"
  shows "mapped (s\<lparr>memory := m'\<rparr>) P F" and "translate (s\<lparr>memory := m'\<rparr>) u = translate s u"
proof -
  have tf: "table_frame s i \<notin> set F" if "present s i" for i using m that by (auto simp: mapped_def data_frame_def)
  show tr: "translate (s\<lparr>memory := m'\<rparr>) u = translate s u" for u
    by (rule translate_memory) (use m mem tf in \<open>auto simp: mapped_def\<close>)
  show "mapped (s\<lparr>memory := m'\<rparr>) P F" using m unfolding mapped_def tr by (simp add: fields_memory)
qed

lemma store_virt_mapped:
  assumes "mapped s P F" and "\<forall>k < length bs. (va + k) div 4096 \<in> {P..<P + length F}" and "va + length bs \<le> 4294967296"
  obtains m' where "store_virt (of_nat va) bs s = Some (s\<lparr>memory := m'\<rparr>)"
    "\<And>k. k < length bs \<Longrightarrow> m' (of_nat (phys F P (va + k))) = bs ! k"
    "\<And>x. x < 4294967296 \<Longrightarrow> x \<notin> (\<lambda>k. phys F P (va + k)) ` {..<length bs} \<Longrightarrow> m' (of_nat x) = memory s (of_nat x)"
  using assms
proof (induction bs arbitrary: s va thesis)
  case Nil
  show ?case by (rule Nil(1) [of "memory s"]) simp_all
next
  case (Cons b bs)
  have r: "va div 4096 \<in> {P..<P + length F}" using Cons.prems(3) by force
  note pv = mapped_phys [OF Cons.prems(2) r]
  have tr: "translate s (of_nat va) = Some (of_nat (phys F P va))" using Cons.prems(2) r by (simp add: mapped_def)
  define m1 where "m1 = (memory s)(of_nat (phys F P va) := b)"
  have m1: "m1 (of_nat x) = (if x = phys F P va then b else memory s (of_nat x))" if "x < 4294967296" for x
    using that pv of_nat_u32_eq_iff [of x "phys F P va"] by (simp add: m1_def)
  have mp: "mapped (s\<lparr>memory := m1\<rparr>) P F"
    by (rule mapped_store(1) [OF Cons.prems(2)]) (use m1 pv phys_div in auto)
  have nx: "of_nat va + 1 = (of_nat (Suc va) :: u32)" by simp
  have rk: "\<forall>k < length bs. (Suc va + k) div 4096 \<in> {P..<P + length F}" "Suc va + length bs \<le> 4294967296"
    using Cons.prems(3,4) by auto
  obtain m' where m': "store_virt (of_nat (Suc va)) bs (s\<lparr>memory := m1\<rparr>) = Some (s\<lparr>memory := m1\<rparr>\<lparr>memory := m'\<rparr>)"
    "\<And>k. k < length bs \<Longrightarrow> m' (of_nat (phys F P (Suc va + k))) = bs ! k"
    "\<And>x. x < 4294967296 \<Longrightarrow> x \<notin> (\<lambda>k. phys F P (Suc va + k)) ` {..<length bs} \<Longrightarrow> m' (of_nat x) = memory (s\<lparr>memory := m1\<rparr>) (of_nat x)"
    by (rule Cons.IH [OF _ mp rk]) auto
  have st: "store_virt (of_nat va) (b # bs) s = Some (s\<lparr>memory := m'\<rparr>)"
    using m'(1) unfolding store_virt.simps tr nx m1_def by simp
  have first: "phys F P va \<notin> (\<lambda>k. phys F P (Suc va + k)) ` {..<length bs}"
  proof
    assume "phys F P va \<in> (\<lambda>k. phys F P (Suc va + k)) ` {..<length bs}"
    then obtain k where k: "k < length bs" "phys F P va = phys F P (Suc va + k)" by auto
    have "va = Suc va + k"
      by (rule phys_inj [OF _ r _ k(2)]) (use Cons.prems(2) rk(1) k(1) in \<open>auto simp: mapped_def\<close>)
    then show False by simp
  qed
  show ?case
  proof (rule Cons.prems(1) [OF st])
    fix k assume k: "k < length (b # bs)"
    show "m' (of_nat (phys F P (va + k))) = (b # bs) ! k"
    proof (cases k)
      case 0
      have "m' (of_nat (phys F P va)) = m1 (of_nat (phys F P va))" using m'(3) first pv by simp
      then show ?thesis using 0 m1 [of "phys F P va"] pv by simp
    next
      case (Suc j)
      then show ?thesis using m'(2) [of j] k by simp
    qed
  next
    fix x assume x: "x < 4294967296" "x \<notin> (\<lambda>k. phys F P (va + k)) ` {..<length (b # bs)}"
    have "x \<noteq> phys F P va" using x(2) by force
    moreover have "x \<notin> (\<lambda>k. phys F P (Suc va + k)) ` {..<length bs}"
    proof
      assume "x \<in> (\<lambda>k. phys F P (Suc va + k)) ` {..<length bs}"
      then obtain k where "k < length bs" "x = phys F P (va + Suc k)" by auto
      then show False using x(2) by force
    qed
    ultimately show "m' (of_nat x) = memory s (of_nat x)" using m'(3) [OF x(1)] m1 [OF x(1)] by simp
  qed
qed

lemma page_range:
  assumes "va \<le> u" and "u < va + sz"
  shows "u div 4096 \<in> {va div 4096..<va div 4096 + pages va sz}"
proof -
  have "va div 4096 \<le> u div 4096" using assms(1) by (rule div_le_mono)
  moreover have "u div 4096 < (va + sz + 4095) div 4096" using assms(2) by linarith
  ultimately show ?thesis by (simp add: pages_def)
qed

lemma user_mapped_mapped:
  assumes "user_mapped s P n s1 F" and "P + n \<le> 1048576"
  shows "mapped s1 P F"
proof -
  have f: "\<forall>i \<in> set F. data_frame s1 i" "length F = n" "distinct F" "paging_ok s1" using assms(1) by (auto simp: user_mapped_def)
  have "translate s1 (of_nat u) = Some (of_nat (phys F P u))" if u: "P \<le> u div 4096" "u div 4096 < P + n" for u
  proof -
    have "u div 4096 < 1048576" using u assms(2) by simp
    then have ub: "u < 4294967296" by linarith
    have uu: "unat (of_nat u :: u32) = u" using ub by (rule unat_of_nat_u32)
    have "page_of (of_nat u) = u div 4096" by (simp add: page_of_def uu)
    then have "translate s1 (of_nat u) = Some (of_nat (4096 * F ! (u div 4096 - P)) OR (of_nat u AND 0xFFF))"
      using assms(1) u unfolding user_mapped_def by simp
    moreover
    have fs: "F ! (u div 4096 - P) \<in> set F" by (rule nth_mem) (use f(2) u in simp)
    then have fb: "4096 * F ! (u div 4096 - P) < 4294967296" using f(1) by (auto simp: data_frame_def TOTAL_FRAMES_def)
    let ?b = "of_nat (4096 * F ! (u div 4096 - P)) :: u32"
    have base: "?b AND NOT 0xFFF = ?b" by (rule u32_eqI) (simp only: unat_page_base unat_of_nat_u32 [OF fb], simp)
    have "phys F P u < 4294967296" using fs f(1) unfolding phys_def data_frame_def TOTAL_FRAMES_def by fastforce
    then have uf: "unat (of_nat (phys F P u) :: u32) = phys F P u" by (rule unat_of_nat_u32)
    have "unat (?b OR (of_nat u AND 0xFFF)) = phys F P u"
      using page_plus_offset [of ?b "of_nat u"] unfolding base unat_of_nat_u32 [OF fb] uu phys_def by simp
    with uf have "?b OR (of_nat u AND 0xFFF) = of_nat (phys F P u)" by (intro u32_eqI) simp
    ultimately show ?thesis by simp
  qed
  then show ?thesis using f assms(2) by (simp add: mapped_def)
qed

lemma virt_byteI:
  assumes "mapped s P F" and "u div 4096 \<in> {P..<P + length F}" and "memory s (of_nat (phys F P u)) = b" and "set F \<inter> D = {}"
  shows "virt_byte D s u b"
proof -
  note p = mapped_phys [OF assms(1,2)]
  have "unat (of_nat (phys F P u) :: u32) = phys F P u" using p by (intro unat_of_nat_u32) simp
  moreover have "data_frame s (F ! (u div 4096 - P))" using assms(1) p by (simp add: mapped_def)
  moreover have "F ! (u div 4096 - P) \<notin> D" using assms(4) p by blast
  ultimately show ?thesis using assms unfolding virt_byte_def by (intro exI [of _ "of_nat (phys F P u)"]) (simp add: mapped_def phys_div)
qed

lemma virt_byte_frame:
  assumes v: "virt_byte D s u b" and t: "translate s' (of_nat u) = translate s (of_nat u)" and k: "keeps s s'"
  shows "virt_byte D s' u b"
proof -
  obtain pa where pa: "translate s (of_nat u) = Some pa" "unat pa div 4096 \<notin> D" "data_frame s (unat pa div 4096)" "memory s pa = b" using v by (auto simp: virt_byte_def)
  have "memory s' (of_nat (unat pa)) = memory s (of_nat (unat pa))" "data_frame s' (unat pa div 4096)"
    using k pa(3) unat_u32_less [of pa] unfolding keeps_def by blast+
  then show ?thesis using pa t unfolding virt_byte_def by auto
qed

text \<open>A store into pages of their own, and its effect on what user code sees.\<close>

lemma store_virt_run:
  assumes m: "mapped s P F" and r: "\<forall>k < length bs. (va + k) div 4096 \<in> {P..<P + length F}" and b: "va + length bs \<le> 4294967296"
    and dj: "set F \<inter> D = {}"
  obtains s' where "store_virt (of_nat va) bs s = Some s'" "mapped s' P F" "\<exists>m'. s' = s\<lparr>memory := m'\<rparr>"
    "\<And>k. k < length bs \<Longrightarrow> virt_byte D s' (va + k) (bs ! k)"
    "\<And>u c. \<lbrakk>virt_byte D s u c; u < 4294967296; u \<notin> {va..<va + length bs}; u div 4096 \<in> {P..<P + length F}\<rbrakk> \<Longrightarrow> virt_byte D s' u c"
    "\<And>x. x < 4294967296 \<Longrightarrow> x div 4096 \<notin> set F \<Longrightarrow> memory s' (of_nat x) = memory s (of_nat x)"
    "\<And>u. translate s' u = translate s u"
proof -
  obtain m' where m': "store_virt (of_nat va) bs s = Some (s\<lparr>memory := m'\<rparr>)"
    "\<And>k. k < length bs \<Longrightarrow> m' (of_nat (phys F P (va + k))) = bs ! k"
    "\<And>x. x < 4294967296 \<Longrightarrow> x \<notin> (\<lambda>k. phys F P (va + k)) ` {..<length bs} \<Longrightarrow> m' (of_nat x) = memory s (of_nat x)"
    by (rule store_virt_mapped [OF m r b], rule that, assumption, blast, blast)
  have out: "m' (of_nat x) = memory s (of_nat x)" if "x < 4294967296" "x div 4096 \<notin> set F" for x
  proof (rule m'(3) [OF that(1)])
    show "x \<notin> (\<lambda>k. phys F P (va + k)) ` {..<length bs}" using that(2) r mapped_phys [OF m] by (auto simp: phys_div)
  qed
  note mp = mapped_store [OF m, of m', OF out]
  show thesis
  proof (rule that [OF m'(1) mp(1)])
    show "\<exists>ma. s\<lparr>memory := m'\<rparr> = s\<lparr>memory := ma\<rparr>" by blast
    show "virt_byte D (s\<lparr>memory := m'\<rparr>) (va + k) (bs ! k)" if "k < length bs" for k
      by (rule virt_byteI [OF mp(1) _ _ dj]) (use that r m'(2) in auto)
    show "virt_byte D (s\<lparr>memory := m'\<rparr>) u c"
      if u: "virt_byte D s u c" "u < 4294967296" "u \<notin> {va..<va + length bs}" "u div 4096 \<in> {P..<P + length F}" for u c
    proof (rule virt_byteI [OF mp(1) u(4) _ dj])
      note pu = mapped_phys [OF m u(4)]
      have "phys F P u \<notin> (\<lambda>k. phys F P (va + k)) ` {..<length bs}"
      proof
        assume "phys F P u \<in> (\<lambda>k. phys F P (va + k)) ` {..<length bs}"
        then obtain k where k: "k < length bs" "phys F P u = phys F P (va + k)" by auto
        have "u = va + k" by (rule phys_inj [OF _ u(4) _ k(2)]) (use m r k(1) in \<open>auto simp: mapped_def\<close>)
        then show False using u(3) k(1) by simp
      qed
      then have "m' (of_nat (phys F P u)) = memory s (of_nat (phys F P u))" using m'(3) pu by simp
      moreover have "translate s (of_nat u) = Some (of_nat (phys F P u))" using m u(4) by (simp add: mapped_def)
      ultimately show "memory (s\<lparr>memory := m'\<rparr>) (of_nat (phys F P u)) = c" using u(1) by (simp add: virt_byte_def)
    qed
    show "memory (s\<lparr>memory := m'\<rparr>) (of_nat x) = memory s (of_nat x)" if "x < 4294967296" "x div 4096 \<notin> set F" for x using out that by simp
    show "translate (s\<lparr>memory := m'\<rparr>) u = translate s u" for u by (rule mp(2))
  qed (use out in auto)
qed

lemma keeps_store:
  assumes "keeps s s2" and "set F \<subseteq> free_frames s" and "s3 = s2\<lparr>memory := m'\<rparr>"
    and "\<And>x. x < 4294967296 \<Longrightarrow> x div 4096 \<notin> set F \<Longrightarrow> m' (of_nat x) = memory s2 (of_nat x)"
  shows "keeps s s3"
proof -
  have "i \<notin> set F" if "data_frame s i" for i using that assms(2) by (auto simp: data_frame_def free_frames_def)
  then show ?thesis using assms(1,3,4) unfolding keeps_def by simp
qed

lemma load_pages:
  assumes ok: "paging_ok s" and dm: "direct_map s" and sz: "sz \<noteq> 0" and lo: "16777216 \<le> unat va" and b: "unat va + unat sz \<le> 4294963200"
    and fr: "2 * pages (unat va) (unat sz) \<le> card (low_frames s)"
    and D: "\<forall>i \<in> D. used_frame s i"
  defines "P \<equiv> unat va div 4096"
  obtains s1 s2 F where "paging_map_user_memory va sz s = Some s1" "paging_ok s1" "direct_map s1" "keeps s s1"
    "store_virt va (replicate (unat sz) 0) s1 = Some s2" "direct_map s2"
    "mapped s2 P F" "length F = pages (unat va) (unat sz)" "set F \<subseteq> free_frames s" "keeps s s2"
    "card (low_frames s) \<le> card (low_frames s2) + 2 * pages (unat va) (unat sz)"
    "\<And>u. u < 4294967296 \<Longrightarrow> u div 4096 \<notin> {P..<P + length F} \<Longrightarrow> translate s2 (of_nat u) = translate s (of_nat u)"
    "\<And>k. k < unat sz \<Longrightarrow> virt_byte D s2 (unat va + k) 0"
proof -
  let ?n = "pages (unat va) (unat sz)"
  obtain s1 F where s1: "paging_map_user_memory va sz s = Some s1" "user_mapped s P ?n s1 F"
    using map_user_memory_pages [OF ok dm sz lo b] fr unfolding pages_def P_def by blast
  have Pn: "P + ?n \<le> 1048576" using b unfolding pages_def P_def by linarith
  note m1 = user_mapped_mapped [OF s1(2) Pn]
  have f: "length F = ?n" "set F \<subseteq> free_frames s" "keeps s s1" "card (low_frames s) \<le> card (low_frames s1) + 2 * ?n" "paging_ok s1" "direct_map s1"
    using s1(2) by (auto simp: user_mapped_def low_frames_def)
  have dj: "set F \<inter> D = {}" using f(2) D by (auto simp: free_frames_def)
  have tr: "translate s1 (of_nat u) = translate s (of_nat u)" if "u < 4294967296" "u div 4096 \<notin> {P..<P + length F}" for u
  proof -
    have "page_of (of_nat u) = u div 4096" using that(1) by (simp add: page_of_def unat_of_nat_u32)
    then show ?thesis using s1(2) that(2) f(1) unfolding user_mapped_def by auto
  qed
  have r: "\<forall>k < length (replicate (unat sz) (0 :: u8)). (unat va + k) div 4096 \<in> {P..<P + length F}"
    using page_range [of "unat va" _ "unat sz"] by (simp add: P_def f(1))
  obtain s2 where s2: "store_virt (of_nat (unat va)) (replicate (unat sz) 0) s1 = Some s2" "mapped s2 P F" "\<exists>m'. s2 = s1\<lparr>memory := m'\<rparr>"
    "\<And>k. k < unat sz \<Longrightarrow> virt_byte D s2 (unat va + k) 0"
    "\<And>x. x < 4294967296 \<Longrightarrow> x div 4096 \<notin> set F \<Longrightarrow> memory s2 (of_nat x) = memory s1 (of_nat x)" "\<And>u. translate s2 u = translate s1 u"
    by (rule store_virt_run [OF m1 r _ dj]) (use b in auto)
  obtain m' where m': "s2 = s1\<lparr>memory := m'\<rparr>" using s2(3) by blast
  have k2: "keeps s s2" by (rule keeps_store [OF f(3,2) m']) (use s2(5) m' in auto)
  have dm2: "direct_map s2" using f(6) s2(6) m' by (simp add: direct_map_def)
  have "low_frames s2 = low_frames s1" unfolding m' by simp
  then show thesis
    by (intro that [OF s1(1) f(5,6,3) s2(1) [unfolded of_nat_unat ucast_id] dm2 s2(2) f(1,2) k2]) (use f(4) tr s2(4,6) in auto)
qed

section \<open>Lemmas: one segment\<close>

text \<open>What the steps of the loader keep.\<close>

definition loader_inv :: "nat \<times> blocks \<Rightarrow> machine \<Rightarrow> bool" where
  "loader_inv A m \<longleftrightarrow> heap_ok (vheap (mvfs m)) A \<and> paging_ok (pg m) \<and> direct_map (pg m) \<and>
     (\<forall>x < 4294967296. x \<notin> client A \<longrightarrow> data_frame (pg m) (x div 4096))"

definition same_files :: "machine \<Rightarrow> machine \<Rightarrow> bool" where
  "same_files m m' \<longleftrightarrow> vfat (mvfs m') = vfat (mvfs m) \<and> nodes (mvfs m') = nodes (mvfs m)"

lemma reads_as_cong: "vfat v' = vfat v \<Longrightarrow> nodes v' = nodes v \<Longrightarrow> reads_as v' p bs = reads_as v p bs"
  unfolding reads_as_def vfs_read_def by (simp only:)

definition seen :: "nat set \<Rightarrow> paging \<Rightarrow> paging \<Rightarrow> nat set \<Rightarrow> bool" where
  "seen D s s' S \<longleftrightarrow> (\<forall>u < 4294967296. u div 4096 \<notin> S \<longrightarrow>
     translate s' (of_nat u) = translate s (of_nat u) \<and> (\<forall>b. virt_byte D s u b \<longrightarrow> virt_byte D s' u b))"

text \<open>A change of the tables or of pages that the state \<open>m0\<close> did not use leaves the heap as it is.\<close>

lemma on_paging_step:
  assumes i0: "loader_inv A m0" and i: "loader_inv A m" "keeps (pg m0) (pg m)" and f: "f (pg m) = Some p" and ok: "paging_ok p" "direct_map p" and k: "keeps (pg m0) p"
  shows "\<exists>m'. on_paging f m = Some m' \<and> pg m' = p \<and> loader_inv A m' \<and> same_files m m'"
proof -
  let ?m = "m\<lparr>mpaging := p, mvfs := (mvfs m)\<lparr>vheap := (vheap (mvfs m))\<lparr>ram := memory p\<rparr>\<rparr>\<rparr>"
  have p: "pg ?m = p" by (simp add: pg_def)
  have "memory p (of_nat x) = memory (pg m) (of_nat x)" "data_frame p (x div 4096)" if "x < 4294967296" "x \<notin> client A" for x
    using i0 i(2) k that unfolding loader_inv_def keeps_def by metis+
  then have "loader_inv A ?m" using i(1) ok unfolding loader_inv_def p by (auto intro!: heap_ok_ram simp: pg_def)
  then show ?thesis using f p by (intro exI [of _ ?m]) (simp add: on_paging_def same_files_def)
qed

lemma load_segment_loads:
  assumes i: "loader_inv A m" and rd: "reads_as (mvfs m) file bs" and ph: "fits_file bs ph"
    and D: "\<forall>i \<in> D. data_frame (pg m) i" and fr: "2 * card (ph_pages ph) \<le> card (low_frames (pg m))"
  shows "\<exists>m'. load_segment file ph m = Some m' \<and> loader_inv A m' \<and> same_files m m' \<and> keeps (pg m) (pg m') \<and> segment_loaded D (pg m') bs ph \<and>
    seen D (pg m) (pg m') (ph_pages ph) \<and> card (low_frames (pg m)) \<le> card (low_frames (pg m')) + 2 * card (ph_pages ph)"
proof -
  let ?va = "p_vaddr ph" and ?sz = "p_memsz ph" and ?fs = "p_filesz ph" and ?P = "unat (p_vaddr ph) div 4096"
  have b: "?sz \<noteq> 0" "unat ?va + unat ?sz \<le> 4294963200" "unat ?fs \<le> unat ?sz" and lo: "16777216 \<le> unat ?va"
    using ph by (auto simp: fits_file_def)
  have c: "card (ph_pages ph) = pages (unat ?va) (unat ?sz)" by (simp add: ph_pages_def)
  have ok: "paging_ok (pg m)" "direct_map (pg m)" using i by (simp_all add: loader_inv_def)
  have Du: "\<forall>i \<in> D. used_frame (pg m) i" using D by (simp add: data_frame_def)
  obtain s1 s2 F where ld: "direct_map s1" "direct_map s2"
    and l: "paging_map_user_memory ?va ?sz (pg m) = Some s1" "paging_ok s1" "keeps (pg m) s1"
    "store_virt ?va (replicate (unat ?sz) 0) s1 = Some s2"
    "mapped s2 ?P F" "length F = pages (unat ?va) (unat ?sz)" "set F \<subseteq> free_frames (pg m)" "keeps (pg m) s2"
    "card (low_frames (pg m)) \<le> card (low_frames s2) + 2 * pages (unat ?va) (unat ?sz)"
    "\<And>u. u < 4294967296 \<Longrightarrow> u div 4096 \<notin> {?P..<?P + length F} \<Longrightarrow> translate s2 (of_nat u) = translate (pg m) (of_nat u)"
    "\<And>k. k < unat ?sz \<Longrightarrow> virt_byte D s2 (unat ?va + k) 0"
    by (rule load_pages [OF ok b(1) lo b(2) _ Du]) (use fr c in auto)
  obtain m1 where m1: "on_paging (paging_map_user_memory ?va ?sz) m = Some m1" "pg m1 = s1" "loader_inv A m1" "same_files m m1"
    using on_paging_step [OF i i keeps_refl, where f = "paging_map_user_memory ?va ?sz", OF l(1,2) ld(1) l(3)] by blast
  have ok2: "paging_ok s2" using l(5) by (simp add: mapped_def)
  obtain m2 where m2: "on_paging (store_virt ?va (replicate (unat ?sz) 0)) m1 = Some m2" "pg m2 = s2" "loader_inv A m2" "same_files m1 m2"
    using on_paging_step [OF i m1(3), where f = "store_virt ?va (replicate (unat ?sz) 0)", unfolded m1(2), OF l(3,4) ok2 ld(2) l(8)] by blast
  have sf2: "same_files m m2" using m1(4) m2(4) by (simp add: same_files_def)
  have r: "(unat ?va + k) div 4096 \<in> {?P..<?P + length F}" if "k < unat ?sz" for k
    using page_range [of "unat ?va" "unat ?va + k" "unat ?sz"] that by (simp add: l(6))
  have pp: "ph_pages ph = {?P..<?P + length F}" by (simp add: ph_pages_def l(6))
  have dj: "set F \<inter> D = {}" using l(7) Du by (auto simp: free_frames_def)
  have seen2: "seen D (pg m) s2 (ph_pages ph)"
    unfolding seen_def pp using virt_byte_frame [OF _ l(10) l(8)] l(10) by blast
  show ?thesis
  proof (cases "0 < ?fs")
    case False
    then have z: "unat ?fs = 0" by (simp add: word_less_nat_alt)
    have "load_segment file ph m = Some m2" using m1(1) m2(1) False by (simp add: load_segment_def)
    moreover have "segment_loaded D s2 bs ph" using l(11) z by (simp add: segment_loaded_def)
    ultimately show ?thesis using m2(2,3) sf2 seen2 l(8,9) c by auto
  next
    case True
    have rd2: "reads_as (mvfs m2) file bs" using rd sf2 reads_as_cong unfolding same_files_def by metis
    have pf: "unat (p_offset ph) + unat ?fs \<le> length bs" "unat (p_offset ph) + unat ?fs < 4294967296" using ph by (auto simp: fits_file_def)
    define data where "data = take (unat ?fs) (drop (unat (p_offset ph)) bs)"
    have len: "length data = unat ?fs" using pf by (simp add: data_def)
    have "vfs_read file (p_offset ph) ?fs (replicate (unat ?fs) 0) (mvfs m2) = Some (?fs, put_bytes (replicate (unat ?fs) 0) 0 data)"
      using rd2 [unfolded reads_as_def, rule_format, of "p_offset ph" ?fs "replicate (unat ?fs) 0"] pf by (simp add: data_def)
    moreover have "put_bytes (replicate (unat ?fs) 0) 0 data = data" by (simp add: put_bytes_def len)
    ultimately have rv: "vfs_read file (p_offset ph) ?fs (replicate (unat ?fs) 0) (mvfs m2) = Some (?fs, data)" by simp
    have rk: "\<forall>k < length data. (unat ?va + k) div 4096 \<in> {?P..<?P + length F}" using r b(3) len by simp
    obtain s3 where s3: "store_virt (of_nat (unat ?va)) data s2 = Some s3" "mapped s3 ?P F" "\<exists>m'. s3 = s2\<lparr>memory := m'\<rparr>"
      "\<And>k. k < length data \<Longrightarrow> virt_byte D s3 (unat ?va + k) (data ! k)"
      "\<And>u c. \<lbrakk>virt_byte D s2 u c; u < 4294967296; u \<notin> {unat ?va..<unat ?va + length data}; u div 4096 \<in> {?P..<?P + length F}\<rbrakk> \<Longrightarrow> virt_byte D s3 u c"
      "\<And>x. x < 4294967296 \<Longrightarrow> x div 4096 \<notin> set F \<Longrightarrow> memory s3 (of_nat x) = memory s2 (of_nat x)" "\<And>u. translate s3 u = translate s2 u"
      by (rule store_virt_run [OF l(5) rk _ dj]) (use b len in auto)
    obtain mm where mm: "s3 = s2\<lparr>memory := mm\<rparr>" using s3(3) by blast
    have k3: "keeps (pg m) s3" by (rule keeps_store [OF l(8,7) mm]) (use s3(6) mm in auto)
    have ok3: "paging_ok s3" "direct_map s3" using s3(2,7) ld(2) mm by (simp_all add: mapped_def direct_map_def)
    obtain m3 where m3: "on_paging (store_virt ?va data) m2 = Some m3" "pg m3 = s3" "loader_inv A m3" "same_files m2 m3"
      using on_paging_step [OF i m2(3), where f = "store_virt ?va data", unfolded m2(2), OF l(8) s3(1) [unfolded of_nat_unat ucast_id] ok3 k3] by blast
    have "load_segment file ph m = Some m3" using m1(1) m2(1) m3(1) True rv len by (simp add: load_segment_def)
    moreover have "same_files m m3" using sf2 m3(4) by (simp add: same_files_def)
    moreover have "segment_loaded D s3 bs ph"
      unfolding segment_loaded_def
    proof (intro allI impI)
      fix k assume k: "k < unat ?sz"
      show "virt_byte D s3 (unat ?va + k) (if k < unat ?fs then bs ! (unat (p_offset ph) + k) else 0)"
      proof (cases "k < unat ?fs")
        case True
        then show ?thesis using s3(4) [of k] len pf by (simp add: data_def)
      next
        case False
        then show ?thesis using s3(5) [OF l(11) [OF k]] r [OF k] k b(2) len by simp
      qed
    qed
    moreover have "seen D (pg m) s3 (ph_pages ph)"
      unfolding seen_def pp using virt_byte_frame [OF _ _ k3] l(10) s3(7) by metis
    moreover have "low_frames s3 = low_frames s2" unfolding mm by simp
    ultimately show ?thesis using m3(2,3) k3 l(9) c by auto
  qed
qed

section \<open>Lemmas: all segments\<close>

lemma seen_trans: "seen D s s1 S \<Longrightarrow> seen D s1 s2 T \<Longrightarrow> seen D s s2 (S \<union> T)"
  unfolding seen_def by auto

lemma segment_loaded_seen:
  assumes l: "segment_loaded D s bs ph" and s: "seen D s s' S" and d: "ph_pages ph \<inter> S = {}" and b: "unat (p_vaddr ph) + unat (p_memsz ph) \<le> 0xBFFFB000"
  shows "segment_loaded D s' bs ph"
  unfolding segment_loaded_def
proof (intro allI impI)
  fix k assume k: "k < unat (p_memsz ph)"
  have "(unat (p_vaddr ph) + k) div 4096 \<in> ph_pages ph"
    unfolding ph_pages_def using page_range [of "unat (p_vaddr ph)" "unat (p_vaddr ph) + k" "unat (p_memsz ph)"] k by simp
  then have "(unat (p_vaddr ph) + k) div 4096 \<notin> S" using d by blast
  moreover have "unat (p_vaddr ph) + k < 4294967296" using b k by simp
  ultimately show "virt_byte D s' (unat (p_vaddr ph) + k) (if k < unat (p_filesz ph) then bs ! (unat (p_offset ph) + k) else 0)"
    using l s k unfolding segment_loaded_def seen_def by blast
qed

lemma same_files_trans: "same_files m m1 \<Longrightarrow> same_files m1 m2 \<Longrightarrow> same_files m m2"
  by (simp add: same_files_def)

lemma load_segments_loads:
  assumes "loader_inv A m" and "reads_as (mvfs m) file bs"
    and "\<forall>i \<in> set is. unat (e_phoff h) + i * unat (e_phentsize h) + 32 \<le> length bs" and "length bs < 4294967296"
    and "\<forall>i. length (junk i) = 32"
    and "\<forall>ph \<in> set (loads bs h is). fits_file bs ph" and "sorted_wrt (\<lambda>a b. ph_pages a \<inter> ph_pages b = {}) (loads bs h is)"
    and "\<forall>i \<in> D. data_frame (pg m) i"
    and "2 * (\<Sum>ph \<leftarrow> loads bs h is. card (ph_pages ph)) \<le> card (low_frames (pg m))"
  shows "\<exists>m'. load_segments file h junk is m = Some m' \<and> loader_inv A m' \<and> same_files m m' \<and> keeps (pg m) (pg m') \<and>
    (\<forall>ph \<in> set (loads bs h is). segment_loaded D (pg m') bs ph) \<and> seen D (pg m) (pg m') (\<Union>ph \<in> set (loads bs h is). ph_pages ph) \<and>
    card (low_frames (pg m)) \<le> card (low_frames (pg m')) + 2 * (\<Sum>ph \<leftarrow> loads bs h is. card (ph_pages ph))"
  using assms(1-3,6-9)
proof (induction "is" arbitrary: m)
  case Nil
  then show ?case by (simp add: same_files_def loads_def seen_def)
next
  case (Cons i "is")
  let ?o = "unat (e_phoff h) + i * unat (e_phentsize h)"
  have ob: "?o + 32 \<le> length bs" using Cons.prems(3) by simp
  have "unat (of_nat i * ucast (e_phentsize h) :: u32) = i * unat (e_phentsize h)"
  proof (cases "unat (e_phentsize h) = 0")
    case True
    then have "(ucast (e_phentsize h) :: u32) = 0" by (simp add: unat_eq_zero)
    then show ?thesis using True by simp
  next
    case False
    then have "i \<le> i * unat (e_phentsize h)" by simp
    then have "i < 4294967296" using ob assms(4) by linarith
    then have "unat (of_nat i :: u32) = i" by (rule unat_of_nat_u32)
    then show ?thesis using ob assms(4) by (subst unat_mult_u32) simp_all
  qed
  then have off: "unat (e_phoff h + of_nat i * ucast (e_phentsize h)) = ?o" using ob assms(4) by (subst unat_add_u32) simp_all
  have "vfs_read file (e_phoff h + of_nat i * ucast (e_phentsize h)) 32 (junk i) (mvfs m) =
      Some (of_nat (min 32 (length bs - ?o)), put_bytes (junk i) 0 (take 32 (drop ?o bs)))"
    using Cons.prems(2) [unfolded reads_as_def, rule_format, of "e_phoff h + of_nat i * ucast (e_phentsize h)" 32 "junk i"] ob assms(4,5)
    by (simp add: off)
  moreover have "put_bytes (junk i) 0 (take 32 (drop ?o bs)) = take 32 (drop ?o bs)" using assms(5) ob by (simp add: put_bytes_def)
  ultimately have rd: "vfs_read file (e_phoff h + of_nat i * ucast (e_phentsize h)) 32 (junk i) (mvfs m) =
      Some (of_nat (min 32 (length bs - ?o)), take 32 (drop ?o bs))" by simp
  let ?ph = "header_of bs h i"
  have un: "load_segments file h junk (i # is) m =
      Option.bind (if p_type ?ph = PT_LOAD then load_segment file ?ph m else Some m) (load_segments file h junk is)"
    using rd by (simp add: Let_def header_of_def)
  show ?case
  proof (cases "p_type ?ph = PT_LOAD")
    case False
    then have "loads bs h (i # is) = loads bs h is" by (simp add: loads_def)
    then show ?thesis using Cons.IH [OF Cons.prems(1,2)] Cons.prems(3-7) un False by simp
  next
    case True
    then have lo: "loads bs h (i # is) = ?ph # loads bs h is" by (simp add: loads_def)
    have ff: "fits_file bs ?ph" "2 * card (ph_pages ?ph) \<le> card (low_frames (pg m))" using Cons.prems(4,7) lo by auto
    obtain m1 where m1: "load_segment file ?ph m = Some m1" "loader_inv A m1" "same_files m m1" "keeps (pg m) (pg m1)" "segment_loaded D (pg m1) bs ?ph"
      "seen D (pg m) (pg m1) (ph_pages ?ph)" "card (low_frames (pg m)) \<le> card (low_frames (pg m1)) + 2 * card (ph_pages ?ph)"
      using load_segment_loads [OF Cons.prems(1,2) ff(1) Cons.prems(6) ff(2)] by blast
    have rd1: "reads_as (mvfs m1) file bs" using Cons.prems(2) m1(3) reads_as_cong unfolding same_files_def by metis
    have D1: "\<forall>i \<in> D. data_frame (pg m1) i" using Cons.prems(6) m1(4) unfolding keeps_def by blast
    obtain m2 where m2: "load_segments file h junk is m1 = Some m2" "loader_inv A m2" "same_files m1 m2" "keeps (pg m1) (pg m2)"
      "\<forall>ph \<in> set (loads bs h is). segment_loaded D (pg m2) bs ph" "seen D (pg m1) (pg m2) (\<Union>ph \<in> set (loads bs h is). ph_pages ph)"
      "card (low_frames (pg m1)) \<le> card (low_frames (pg m2)) + 2 * (\<Sum>ph \<leftarrow> loads bs h is. card (ph_pages ph))"
      using Cons.IH [OF m1(2) rd1] Cons.prems(3-7) m1(7) D1 unfolding lo by auto
    have "ph_pages ?ph \<inter> (\<Union>ph \<in> set (loads bs h is). ph_pages ph) = {}" using Cons.prems(5) unfolding lo by auto
    then have "segment_loaded D (pg m2) bs ?ph" using segment_loaded_seen [OF m1(5) m2(6)] ff(1) by (simp add: fits_file_def)
    then show ?thesis
      using un True m1(1,7) m2 same_files_trans [OF m1(3) m2(3)] keeps_trans [OF m1(4) m2(4)] seen_trans [OF m1(6) m2(6)] unfolding lo by auto
  qed
qed

section \<open>Lemmas: opening the file and the stack\<close>

lemma vfs_open_node:
  assumes ok: "heap_ok (vheap v) A" and fits: "fits A 284" and e: "fat32_find_file (vfat v) filename = Some (Some e)"
    and d: "dir_at (vfat v) (entry_cluster e) cl" and l: "unat (de_file_size e) \<le> length (file_bytes (vfat v) cl)"
  obtains v2 p A1 t where "vfs_open raw filename v = Some (v2, p)" "p \<noteq> 0" "vfat v2 = vfat v" "nodes v2 p \<noteq> None"
    "reads_as v2 p (take (unat (de_file_size e)) (file_bytes (vfat v) cl))" "heap_ok (vheap v2) A1" "live A1 (unat p) t"
    "client A1 = client A \<union> {unat p..<unat p + t}" "{unat p..<unat p + t} \<inter> client A = {}"
    "\<forall>x \<in> client A. ram (vheap v2) (of_nat x) = ram (vheap v) (of_nat x)" "\<forall>q u. live A q u \<longrightarrow> live A1 q u" "\<forall>u. \<not> live A (unat p) u"
proof -
  obtain h1 p A1 t where k: "kmalloc 284 (vheap v) = Some (h1, p)" "p \<noteq> 0" "heap_ok h1 A1" "live A1 (unat p) t"
      "{unat p..<unat p + t} \<inter> client A = {}" "client A1 = client A \<union> {unat p..<unat p + t}"
      "\<forall>x \<in> client A. ram h1 (of_nat x) = ram (vheap v) (of_nat x)" "\<forall>q u. live A q u \<longrightarrow> live A1 q u" "\<forall>u. \<not> live A (unat p) u"
    using kmalloc_room [OF ok fits] by auto
  obtain nd where nd: "fat32_file_lookup (vfat v) filename raw = Some (nd, 0)" "node_size nd = de_file_size e" "inode nd = entry_cluster e"
      "read_op nd = Some Fat32_Vfs_Read"
    using e by (simp add: fat32_file_lookup_def entry_cluster_def)
  define v2 where "v2 = v\<lparr>vheap := h1, nodes := (nodes v)(p \<mapsto> nd)\<rparr>"
  have o: "vfs_open raw filename v = Some (v2, p)" using k(1,2) nd(1) by (simp add: vfs_open_def v2_def)
  have "reads_as v2 p (take (unat (de_file_size e)) (file_bytes (vfat v) cl))"
    unfolding reads_as_def
    using fat32_vfs_read_file [of "vfat v" nd cl] d l nd k(2) by (simp add: vfs_read_def v2_def)
  then show thesis by (intro that [OF o k(2)]) (use k in \<open>auto simp: v2_def\<close>)
qed

text \<open>A change of the heap outside the bytes of the clients \<open>A\<close> does not touch the page tables.\<close>

lemma heap_step:
  assumes ok: "paging_ok (pg m)" and D: "\<forall>x < 4294967296. x \<notin> client A \<longrightarrow> x div 4096 \<in> D" "\<forall>i \<in> D. data_frame (pg m) i"
    and r: "\<forall>x \<in> client A. ram (vheap v') (of_nat x) = ram (vheap (mvfs m)) (of_nat x)"
  shows "paging_ok (pg (m\<lparr>mvfs := v'\<rparr>))" and "data_frame (pg (m\<lparr>mvfs := v'\<rparr>)) = data_frame (pg m)"
    and "free_frames (pg (m\<lparr>mvfs := v'\<rparr>)) = free_frames (pg m)" and "virt_byte D (pg m) u b \<Longrightarrow> virt_byte D (pg (m\<lparr>mvfs := v'\<rparr>)) u b"
    and "translate (pg (m\<lparr>mvfs := v'\<rparr>)) w = translate (pg m) w" and "low_frames (pg (m\<lparr>mvfs := v'\<rparr>)) = low_frames (pg m)"
    and "direct_map (pg (m\<lparr>mvfs := v'\<rparr>)) = direct_map (pg m)"
proof -
  have e: "pg (m\<lparr>mvfs := v'\<rparr>) = (pg m)\<lparr>memory := ram (vheap v')\<rparr>" by (simp add: pg_def)
  have mm: "memory (pg m) = ram (vheap (mvfs m))" by (simp add: pg_def)
  have c: "ram (vheap v') (of_nat x) = memory (pg m) (of_nat x)" if "x < 4294967296" "x div 4096 \<notin> D" for x
    using that D(1) r unfolding mm by blast
  show "paging_ok (pg (m\<lparr>mvfs := v'\<rparr>))" "data_frame (pg (m\<lparr>mvfs := v'\<rparr>)) = data_frame (pg m)"
    using ok unfolding e by simp_all
  show "free_frames (pg (m\<lparr>mvfs := v'\<rparr>)) = free_frames (pg m)" unfolding e by (simp add: free_frames_def used_frame_def)
  show tr: "translate (pg (m\<lparr>mvfs := v'\<rparr>)) w = translate (pg m) w" for w
    unfolding e by (rule translate_memory [OF ok]) (use c D(2) in \<open>auto simp: data_frame_def\<close>)
  show "low_frames (pg (m\<lparr>mvfs := v'\<rparr>)) = low_frames (pg m)" unfolding e by simp
  show "direct_map (pg (m\<lparr>mvfs := v'\<rparr>)) = direct_map (pg m)" using tr unfolding direct_map_def by (simp add: e)
  show "virt_byte D (pg (m\<lparr>mvfs := v'\<rparr>)) u b" if v: "virt_byte D (pg m) u b"
  proof -
    obtain pa where pa: "translate (pg m) (of_nat u) = Some pa" "unat pa div 4096 \<notin> D" "data_frame (pg m) (unat pa div 4096)" "memory (pg m) pa = b"
      using v by (auto simp: virt_byte_def)
    have "ram (vheap v') (of_nat (unat pa)) = memory (pg m) (of_nat (unat pa))" using c pa(2) unat_u32_less by blast
    then show ?thesis using pa tr unfolding virt_byte_def e by auto
  qed
qed

lemma stack_maps:
  assumes i: "loader_inv A m" and D: "\<forall>i \<in> D. data_frame (pg m) i" and fr: "8 \<le> card (low_frames (pg m))"
  obtains m1 m2 where "on_paging (paging_map_user_memory 0xBFFFB000 0x4000) m = Some m1"
    "on_paging (store_virt 0xBFFFB000 (replicate 0x4000 0)) m1 = Some m2" "loader_inv A m2" "same_files m m2" "keeps (pg m) (pg m2)"
    "stack_ready D (pg m2)" "seen D (pg m) (pg m2) {0xBFFFB..<0xBFFFF}"
proof -
  have ok: "paging_ok (pg m)" "direct_map (pg m)" using i by (simp_all add: loader_inv_def)
  have Du: "\<forall>i \<in> D. used_frame (pg m) i" using D by (simp add: data_frame_def)
  have n: "pages (unat (0xBFFFB000 :: u32)) (unat (0x4000 :: u32)) = 4" by (simp add: pages_def)
  obtain s1 s2 F where ld: "direct_map s1" "direct_map s2"
    and l: "paging_map_user_memory 0xBFFFB000 0x4000 (pg m) = Some s1" "paging_ok s1" "keeps (pg m) s1"
    "store_virt 0xBFFFB000 (replicate (unat (0x4000 :: u32)) 0) s1 = Some s2"
    "mapped s2 (unat (0xBFFFB000 :: u32) div 4096) F" "length F = pages (unat (0xBFFFB000 :: u32)) (unat (0x4000 :: u32))"
    "keeps (pg m) s2"
    "\<And>u. u < 4294967296 \<Longrightarrow> u div 4096 \<notin> {unat (0xBFFFB000 :: u32) div 4096..<unat (0xBFFFB000 :: u32) div 4096 + length F} \<Longrightarrow>
      translate s2 (of_nat u) = translate (pg m) (of_nat u)"
    "\<And>k. k < unat (0x4000 :: u32) \<Longrightarrow> virt_byte D s2 (unat (0xBFFFB000 :: u32) + k) 0"
    by (rule load_pages [OF ok, of "0x4000" "0xBFFFB000" D]) (use fr n Du in auto)
  obtain m1 where m1: "on_paging (paging_map_user_memory 0xBFFFB000 0x4000) m = Some m1" "pg m1 = s1" "loader_inv A m1" "same_files m m1"
    using on_paging_step [OF i i keeps_refl, where f = "paging_map_user_memory 0xBFFFB000 0x4000", OF l(1,2) ld(1) l(3)] by blast
  have ok2: "paging_ok s2" using l(5) by (simp add: mapped_def)
  obtain m2 where m2: "on_paging (store_virt 0xBFFFB000 (replicate (unat (0x4000 :: u32)) 0)) m1 = Some m2" "pg m2 = s2" "loader_inv A m2" "same_files m1 m2"
    using on_paging_step [OF i m1(3), where f = "store_virt 0xBFFFB000 (replicate (unat (0x4000 :: u32)) 0)", unfolded m1(2), OF l(3,4) ok2 ld(2) l(7)] by blast
  have lF: "length F = 4" using l(6) n by (simp only:)
  have "seen D (pg m) s2 {0xBFFFB..<0xBFFFF}"
    unfolding seen_def using virt_byte_frame [OF _ l(8) l(7)] l(8) by (auto simp: lF)
  moreover have "stack_ready D s2"
    unfolding stack_ready_def
  proof
    fix u :: nat assume u: "u \<in> {0xBFFFB000..<0xBFFFF000}"
    then have "u - 0xBFFFB000 < 0x4000" by auto
    then show "virt_byte D s2 u 0" using l(9) [of "u - 0xBFFFB000"] u by simp
  qed
  ultimately show thesis using that [OF m1(1)] m2 l(7) m1(4) same_files_trans by auto
qed

lemma read_header:
  assumes "reads_as v p bs" and "length hjunk = 54" and "54 \<le> length bs"
  shows "vfs_read p 0 54 hjunk v = Some (54, take 54 bs)"
proof -
  have "vfs_read p 0 54 hjunk v = Some (of_nat (min 54 (length bs)), put_bytes hjunk 0 (take 54 bs))"
    using assms(1) [unfolded reads_as_def, rule_format, of 0 54 hjunk] assms(2) by simp
  moreover have "put_bytes hjunk 0 (take 54 bs) = take 54 bs" using assms(2,3) by (simp add: put_bytes_def)
  ultimately show ?thesis using assms(3) by (simp add: min_def)
qed

section \<open>Lemmas: the sample program\<close>

lemma load_skip:
  "length xs \<le> i \<Longrightarrow> load16 (xs @ ys) i = load16 ys (i - length xs)" "length xs \<le> i \<Longrightarrow> load32 (xs @ ys) i = load32 ys (i - length xs)"
  by (simp_all add: load16_def load32_def nth_append Suc_diff_le)

lemma load_first: "load16 (bytes16 v @ ys) 0 = v" "load32 (bytes32 w @ ys) 0 = w"
  by (simp_all add: load16_def load32_def bytes16_def bytes32_def u16_le_byte_of u32_le_byte_of)

lemma header_fields:
  assumes "length ident = 16"
    and "h = elf_header_at (elf32_header ident ty machine version entry phoff shoff fl ehsize phentsize phnum shentsize shnum shstrndx @ [b, c])"
  shows "e_type h = ty \<and> e_entry h = entry \<and> e_phoff h = phoff \<and>
    e_phentsize h = phnum \<and> e_phnum h = shentsize \<and> e_shentsize h = shnum \<and> e_shnum h = shstrndx \<and> e_shstrndx h = u16_le b c"
proof -
  have "load16 [b, c] 0 = u16_le b c" by (simp add: load16_def)
  then show ?thesis
    unfolding assms(2) elf_header_at_def elf32_header_def by (simp add: assms(1) load_skip load_first)
qed

lemma sojeb_header: "take 54 sojeb_elf = elf32_header (take 16 sojeb_elf) 2 3 1 0x1000000 52 552 0 52 32 2 40 8 7 @ [1, 0]"
  unfolding elf32_header_def bytes16_def bytes32_def sojeb_elf_def by (simp add: byte_of_def)

lemma u32_le_one: "u32_le a b c d = 1 \<longleftrightarrow> a = 1 \<and> b = 0 \<and> c = 0 \<and> d = 0"
proof
  assume one: "u32_le a b c d = 1"
  from arg_cong [OF one, of "byte_of 0"] arg_cong [OF one, of "byte_of (Suc 0)"] arg_cong [OF one, of "byte_of 2"] arg_cong [OF one, of "byte_of 3"]
  show "a = 1 \<and> b = 0 \<and> c = 0 \<and> d = 0"
    unfolding byte_of_u32_le by (simp add: byte_of_def)
qed (simp add: u32_le_def)

lemma sojeb_facts:
  "e_phoff (elf_header_at (take 54 sojeb_elf)) = 52" "e_phentsize (elf_header_at (take 54 sojeb_elf)) = 2"
  "e_phnum (elf_header_at (take 54 sojeb_elf)) = 40" "e_type (elf_header_at (take 54 sojeb_elf)) = 2"
  "e_entry (elf_header_at (take 54 sojeb_elf)) = 0x1000000" "length sojeb_elf = 220"
proof -
  have l: "length (take 16 sojeb_elf) = 16" by (simp add: sojeb_elf_def)
  show "e_phoff (elf_header_at (take 54 sojeb_elf)) = 52" "e_phentsize (elf_header_at (take 54 sojeb_elf)) = 2"
    "e_phnum (elf_header_at (take 54 sojeb_elf)) = 40" "e_type (elf_header_at (take 54 sojeb_elf)) = 2"
    "e_entry (elf_header_at (take 54 sojeb_elf)) = 0x1000000"
    using header_fields [OF l sojeb_header [THEN arg_cong [where f = elf_header_at]]] by blast+
  show "length sojeb_elf = 220" by (simp add: sojeb_elf_def)
qed

lemma sojeb_first: "header_of sojeb_elf (elf_header_at (take 54 sojeb_elf)) 0 = sojeb_segment"
proof -
  have "take 32 (drop 52 sojeb_elf) = bytes32 1 @ bytes32 116 @ bytes32 0x1000000 @ bytes32 0x1000000 @ bytes32 104 @ bytes32 104 @ bytes32 7 @ bytes32 4 @ []"
    unfolding bytes32_def sojeb_elf_def by (simp add: byte_of_def)
  then show ?thesis
    by (simp add: header_of_def sojeb_facts elf_program_header_at_def sojeb_segment_def load_skip load_first del: append_Nil2)
qed

lemma p_type_header: "k + 32 \<le> length bs \<Longrightarrow> p_type (elf_program_header_at (take 32 (drop k bs))) = 1 \<longleftrightarrow> bs ! k = 1 \<and> bs ! (k + 1) = 0 \<and> bs ! (k + 2) = 0 \<and> bs ! (k + 3) = 0"
  by (simp add: elf_program_header_at_def load32_def u32_le_one)

lemma sojeb_others: "\<forall>i \<in> {1..<40}. sojeb_elf ! (52 + i * 2) \<noteq> 1 \<or> sojeb_elf ! (52 + i * 2 + 1) \<noteq> 0 \<or> sojeb_elf ! (52 + i * 2 + 2) \<noteq> 0 \<or> sojeb_elf ! (52 + i * 2 + 3) \<noteq> 0"
proof -
  have "list_all (\<lambda>i. sojeb_elf ! (52 + i * 2) \<noteq> 1 \<or> sojeb_elf ! (52 + i * 2 + 1) \<noteq> 0 \<or> sojeb_elf ! (52 + i * 2 + 2) \<noteq> 0 \<or> sojeb_elf ! (52 + i * 2 + 3) \<noteq> 0) [1..<40]"
    by code_simp
  then show ?thesis by (simp add: list_all_iff)
qed

lemma sojeb_loads: "loads sojeb_elf (elf_header_at (take 54 sojeb_elf)) [0..<40] = [sojeb_segment]"
proof -
  let ?H = "header_of sojeb_elf (elf_header_at (take 54 sojeb_elf))"
  have n: "p_type (?H i) \<noteq> PT_LOAD" if "i \<in> set [1..<40]" for i
  proof -
    have i: "i \<in> {1..<40}" using that by simp
    then have "52 + i * 2 + 32 \<le> length sojeb_elf" by (simp add: sojeb_facts)
    from p_type_header [OF this] show ?thesis
      using sojeb_others i unfolding header_of_def sojeb_facts PT_LOAD_def by auto
  qed
  have u: "[0..<40] = 0 # [1..<40]" by (simp add: upt_rec)
  have "filter (\<lambda>ph. p_type ph = PT_LOAD) (map ?H [1..<40]) = []" using n by (simp add: filter_empty_conv)
  then show ?thesis unfolding loads_def u list.map filter.simps sojeb_first by (simp add: sojeb_segment_def PT_LOAD_def)
qed

lemma sojeb_executable: "executable_file sojeb_elf (elf_header_at (take 54 sojeb_elf))"
proof -
  let ?h = "elf_header_at (take 54 sojeb_elf)"
  have n: "unat (e_phnum ?h) = 40" "unat (e_phentsize ?h) = 2" "unat (e_phoff ?h) = 52" unfolding sojeb_facts by simp_all
  have m: "load32 sojeb_elf 0 = ELF_MAGIC"
  proof -
    have "sojeb_elf = bytes32 ELF_MAGIC @ drop 4 sojeb_elf" unfolding bytes32_def sojeb_elf_def by (simp add: byte_of_def ELF_MAGIC_def)
    then show ?thesis using load_first(2) by metis
  qed
  have f: "fits_file sojeb_elf sojeb_segment" unfolding fits_file_def sojeb_facts by (simp add: sojeb_segment_def)
  have b: "\<forall>i < 40. 52 + i * 2 + 32 \<le> (220 :: nat)" by simp
  have t: "e_type ?h = ET_EXEC" unfolding sojeb_facts ET_EXEC_def ..
  show ?thesis
    unfolding executable_file_def n sojeb_loads unfolding sojeb_facts(6) list.set ball_simps sorted_wrt.simps
    using m f b t by (intro conjI) simp_all
qed

lemma boot_frames: "i < 16384 \<Longrightarrow> used_frame boot_paging i \<longleftrightarrow> i < 512"
proof -
  assume i: "i < 16384"
  have "i \<in> free_frames boot_paging \<longleftrightarrow> i \<in> {512..<16384}" by (simp only: boot_paging_ok(3))
  then show ?thesis using i unfolding free_frames_def mem_Collect_eq TOTAL_FRAMES_def by auto
qed

lemma boot_client: "x < 4294967296 \<Longrightarrow> x \<notin> client (4096, [(1012, True)]) \<Longrightarrow> x div 4096 = 1"
  by (auto simp: client_def client_bytes_def)

lemma boot_tables: "present boot_paging j \<Longrightarrow> 256 \<le> table_frame boot_paging j"
proof -
  assume p: "present boot_paging j"
  let ?s = "\<lparr>page_directory = replicate 1024 0, frame_bitmap = replicate 512 0, memory = \<lambda>_. 0\<rparr>"
  have "page_directory (paging_init (of_nat (4096 * 256)) 0x200000 ?s) = map (\<lambda>i. of_nat (4096 * (256 + i)) OR 7) [0..<4] @ replicate 1020 2"
    by (rule paging_init_state(1)) (simp_all add: BITMAP_SIZE_def)
  then have pd: "page_directory boot_paging = map (\<lambda>i. of_nat (4096 * (256 + i)) OR 7) [0..<4] @ replicate 1020 2"
    unfolding boot_paging_def by simp
  have j: "j < 4"
  proof (rule ccontr)
    assume n: "\<not> j < 4"
    moreover have "j < 1024" using p by (simp add: present_def)
    ultimately have "page_directory boot_paging ! j = 2" unfolding pd by (simp add: nth_append del: upt_rec_numeral)
    then show False using p by (simp add: present_def)
  qed
  then have "page_directory boot_paging ! j = of_nat (4096 * (256 + j)) OR 7" unfolding pd by (simp add: nth_append del: upt_rec_numeral)
  then show ?thesis using page_entry(1) [of "256 + j"] j unfolding table_frame_def by simp
qed

lemma pg_boot: "pg (boot_machine st) = boot_paging\<lparr>memory := ram (vheap (mvfs (boot_machine st)))\<rparr>"
  by (simp add: pg_def boot_machine_def)

lemma boot_machine_ok:
  "heap_ok (vheap (mvfs (boot_machine st))) (4096, [(1012, True)])" "fits (4096, [(1012, True)]) 284" "paging_ok (pg (boot_machine st))"
  "isolated (4096, [(1012, True)]) (pg (boot_machine st))" "card (low_frames (pg (boot_machine st))) = 3584"
  "vfat (mvfs (boot_machine st)) = st" "direct_map (pg (boot_machine st))"
proof -
  show "heap_ok (vheap (mvfs (boot_machine st))) (4096, [(1012, True)])"
    using kheap_init_heap_ok [of 4096 1024] by (simp add: boot_machine_def)
  show "fits (4096, [(1012, True)]) 284" by (simp add: fits_def ALIGN_def ALIGNMENT_def)
  show "paging_ok (pg (boot_machine st))" using boot_paging_ok(1) unfolding pg_boot fields_memory .
  show "card (low_frames (pg (boot_machine st))) = 3584" unfolding pg_boot by (simp add: boot_low_frames)
  have "data_frame boot_paging 1" using boot_frames [of 1] boot_tables by (auto simp: data_frame_def TOTAL_FRAMES_def dest!: boot_tables)
  then show "isolated (4096, [(1012, True)]) (pg (boot_machine st))"
    using boot_client unfolding isolated_def pg_boot fields_memory by metis
  have "memory boot_paging (of_nat x) = ram (vheap (mvfs (boot_machine st))) (of_nat x)"
    if x: "x < 4294967296" "present boot_paging i" "x div 4096 = table_frame boot_paging i" for x i
  proof -
    have "256 \<le> x div 4096" using boot_tables [OF x(2)] x(3) by simp
    then have "4096 + 12 \<le> x" by linarith
    then show ?thesis using kheap_init_frame [of 4096 x 1024] x(1) by (simp add: boot_machine_def)
  qed
  then show "direct_map (pg (boot_machine st))"
    unfolding pg_boot by (intro direct_map_memory [OF boot_paging_ok(1,4)]) auto
  show "vfat (mvfs (boot_machine st)) = st" by (simp add: boot_machine_def)
qed

lemma exec_elf_status:
  assumes ok: "heap_ok (vheap (mvfs m)) A" and run: "exec_elf raw hjunk junk filename m = Some (m', Status st)"
  shows "mpaging m' = mpaging m \<and> vfat (mvfs m') = vfat (mvfs m) \<and> heap_ok (vheap (mvfs m')) A \<and>
    (\<forall>x \<in> client A. ram (vheap (mvfs m')) (of_nat x) = ram (vheap (mvfs m)) (of_nat x))"
proof (cases "fits A 284")
  case False
  then have "kmalloc 284 (vheap (mvfs m)) = Some (vheap (mvfs m), 0)" using kmalloc_full [OF ok] by blast
  then have "exec_elf raw hjunk junk filename m = Some (m, Status (- 1))" by (simp add: exec_elf_def vfs_open_def)
  then show ?thesis using run ok by simp
next
  case True
  then obtain h1 p h2 where k: "kmalloc 284 (vheap (mvfs m)) = Some (h1, p)" "p \<noteq> 0" "kfree p h1 = Some h2" "heap_ok h2 A"
      "\<forall>x \<in> client A. ram h2 (of_nat x) = ram (vheap (mvfs m)) (of_nat x)"
    using alloc_release [OF ok] by blast
  obtain nd r where l: "fat32_file_lookup (vfat (mvfs m)) filename raw = Some (nd, r)"
    using run k(1,2) by (cases "fat32_file_lookup (vfat (mvfs m)) filename raw") (auto simp: exec_elf_def vfs_open_def)
  have closing: ?thesis if "close_with p res (m\<lparr>mvfs := (mvfs m)\<lparr>vheap := h1, nodes := (nodes (mvfs m))(p \<mapsto> nd)\<rparr>\<rparr>) = Some (m', Status st)" for res
    using that k by (auto simp: close_with_def vfs_close_def)
  show ?thesis
  proof (cases "r = 0")
    case False
    then have "exec_elf raw hjunk junk filename m = Some (m\<lparr>mvfs := (mvfs m)\<lparr>vheap := h2\<rparr>\<rparr>, Status (- 1))"
      using k(1-3) l by (simp add: exec_elf_def vfs_open_def)
    then show ?thesis using run k(4,5) by auto
  next
    case True
    let ?m = "m\<lparr>mvfs := (mvfs m)\<lparr>vheap := h1, nodes := (nodes (mvfs m))(p \<mapsto> nd)\<rparr>\<rparr>"
    obtain n buffer where rd: "vfs_read p 0 54 hjunk (mvfs ?m) = Some (n, buffer)"
      using run k(1,2) l True by (cases "vfs_read p 0 54 hjunk (mvfs ?m)") (auto simp: exec_elf_def vfs_open_def)
    let ?h = "elf_header_at buffer"
    have e: "exec_elf raw hjunk junk filename m =
        (if load32 (e_ident ?h) 0 \<noteq> ELF_MAGIC then close_with p (Status (-2)) ?m
         else if e_type ?h \<noteq> ET_EXEC then close_with p (Status (-3)) ?m
         else
           Option.bind (load_segments p ?h junk [0..<unat (e_phnum ?h)] ?m)
             (\<lambda>m. Option.bind (on_paging (paging_map_user_memory (0xBFFFF000 - 4096 * 4) (4096 * 4)) m)
                (\<lambda>m. Option.bind (on_paging (store_virt (0xBFFFF000 - 4096 * 4) (replicate (unat (4096 * 4 :: u32)) 0)) m)
                  (close_with p (User_Mode (e_entry ?h) 0xBFFFF000)))))"
      unfolding exec_elf_def vfs_open_def k(1) using k(2) l True rd by (simp add: Let_def)
    show ?thesis
    proof (cases "load32 (e_ident ?h) 0 \<noteq> ELF_MAGIC \<or> e_type ?h \<noteq> ET_EXEC")
      case True
      then show ?thesis using closing run unfolding e by (auto split: if_splits)
    next
      case False
      then show ?thesis using run unfolding e by (auto simp: close_with_def bind_eq_Some_conv)
    qed
  qed
qed

section \<open>Properties\<close>

text \<open>
  C6: \<open>exec_elf\<close> on an executable file enters user mode at its entry point with the stack pointer at the top
  of a zeroed stack of 16 KB. By then every loadable segment of the file is in memory, its bytes
  followed by zeros, in frames that no one used before; the identity mapping of the kernel, the
  file system and the blocks in use are as they were, and the file is closed. The segments are those
  that the loader sees, at or above 16 MB, below the stack and in pages of their own; heap and page tables are in the identity
  mapping, and two free frames below 16 MB for each page are enough.
\<close>

theorem exec_elf_loads:
  assumes "heap_ok (vheap (mvfs m)) A" and "fits A 284" and "paging_ok (pg m)" and "isolated A (pg m)"
    and "fat32_find_file (vfat (mvfs m)) filename = Some (Some e)" and "dir_at (vfat (mvfs m)) (entry_cluster e) cl"
    and "unat (de_file_size e) \<le> length (file_bytes (vfat (mvfs m)) cl)"
    and "executable_file (take (unat (de_file_size e)) (file_bytes (vfat (mvfs m)) cl)) h"
    and "2 * (\<Sum>ph \<leftarrow> loads (take (unat (de_file_size e)) (file_bytes (vfat (mvfs m)) cl)) h [0..<unat (e_phnum h)]. card (ph_pages ph)) + 8
      \<le> card (low_frames (pg m))"
    and "length hjunk = 54" and "\<forall>i. length (junk i) = 32"
    and "direct_map (pg m)" and "\<forall>x < 4294967296. x \<notin> client A \<longrightarrow> x < 0x1000000"
  shows "\<exists>m' A'. exec_elf raw hjunk junk filename m = Some (m', User_Mode (e_entry h) 0xBFFFF000) \<and>
    (\<forall>ph \<in> set (loads (take (unat (de_file_size e)) (file_bytes (vfat (mvfs m)) cl)) h [0..<unat (e_phnum h)]).
       segment_loaded (Collect (data_frame (pg m))) (pg m') (take (unat (de_file_size e)) (file_bytes (vfat (mvfs m)) cl)) ph) \<and>
    stack_ready (Collect (data_frame (pg m))) (pg m') \<and>
    (\<forall>u < 0x1000000. translate (pg m') (of_nat u) = translate (pg m) (of_nat u)) \<and>
    heap_ok (vheap (mvfs m')) A' \<and> client A' = client A \<and> (\<forall>q t. live A q t \<longrightarrow> live A' q t) \<and> vfat (mvfs m') = vfat (mvfs m)"
proof -
  define bs where "bs = take (unat (de_file_size e)) (file_bytes (vfat (mvfs m)) cl)"
  define D where "D = Collect (data_frame (pg m))"
  have lb: "length bs < 4294967296" unfolding bs_def length_take by (rule min.strict_coboundedI2, rule unat_u32_less)
  have x: "54 \<le> length bs" "h = elf_header_at (take 54 bs)" "load32 bs 0 = ELF_MAGIC" "e_type h = ET_EXEC"
    "\<forall>i \<in> set [0..<unat (e_phnum h)]. unat (e_phoff h) + i * unat (e_phentsize h) + 32 \<le> length bs"
    "\<forall>ph \<in> set (loads bs h [0..<unat (e_phnum h)]). fits_file bs ph"
    "sorted_wrt (\<lambda>a b. ph_pages a \<inter> ph_pages b = {}) (loads bs h [0..<unat (e_phnum h)])"
    using assms(8) unfolding executable_file_def bs_def [symmetric] by auto
  obtain v2 p A1 t where o: "vfs_open raw filename (mvfs m) = Some (v2, p)" "p \<noteq> 0" "vfat v2 = vfat (mvfs m)" "nodes v2 p \<noteq> None"
    "reads_as v2 p bs" "heap_ok (vheap v2) A1" "live A1 (unat p) t"
    "client A1 = client A \<union> {unat p..<unat p + t}" "{unat p..<unat p + t} \<inter> client A = {}"
    "\<forall>x \<in> client A. ram (vheap v2) (of_nat x) = ram (vheap (mvfs m)) (of_nat x)" "\<forall>q u. live A q u \<longrightarrow> live A1 q u" "\<forall>u. \<not> live A (unat p) u"
    using vfs_open_node [OF assms(1,2,5-7)] unfolding bs_def by metis
  define m1 where "m1 = m\<lparr>mvfs := v2\<rparr>"
  have DA: "\<forall>x < 4294967296. x \<notin> client A \<longrightarrow> x div 4096 \<in> D" "\<forall>i \<in> D. data_frame (pg m) i" using assms(4) by (simp_all add: isolated_def D_def)
  note s1 = heap_step [OF assms(3) DA o(10), folded m1_def]
  have i1: "loader_inv A1 m1" using s1(1,2,7) assms(12) o(6,8) DA unfolding loader_inv_def D_def by (auto simp: m1_def)
  have r1: "reads_as (mvfs m1) p bs" using o(5) by (simp add: m1_def)
  have D1: "\<forall>i \<in> D. data_frame (pg m1) i" using DA(2) s1(2) by simp
  define S where "S = (\<Sum>ph \<leftarrow> loads bs h [0..<unat (e_phnum h)]. card (ph_pages ph))"
  have S: "2 * S + 8 \<le> card (low_frames (pg m))" using assms(9) unfolding S_def bs_def .
  obtain m2 where m2: "load_segments p h junk [0..<unat (e_phnum h)] m1 = Some m2" "loader_inv A1 m2" "same_files m1 m2" "keeps (pg m1) (pg m2)"
    "\<forall>ph \<in> set (loads bs h [0..<unat (e_phnum h)]). segment_loaded D (pg m2) bs ph"
    "card (low_frames (pg m1)) \<le> card (low_frames (pg m2)) + 2 * S"
    "seen D (pg m1) (pg m2) (\<Union>ph \<in> set (loads bs h [0..<unat (e_phnum h)]). ph_pages ph)"
    using load_segments_loads [OF i1 r1 x(5) lb assms(11) x(6,7) D1] S s1(6) unfolding S_def [symmetric] by auto
  have D2: "\<forall>i \<in> D. data_frame (pg m2) i" using D1 m2(4) unfolding keeps_def by blast
  have fr2: "8 \<le> card (low_frames (pg m2))" using S m2(6) s1(6) by simp
  obtain m3 m4 where m4: "on_paging (paging_map_user_memory 0xBFFFB000 0x4000) m2 = Some m3"
    "on_paging (store_virt 0xBFFFB000 (replicate 0x4000 0)) m3 = Some m4" "loader_inv A1 m4" "same_files m2 m4" "keeps (pg m2) (pg m4)"
    "stack_ready D (pg m4)" "seen D (pg m2) (pg m4) {0xBFFFB..<0xBFFFF}"
    by (rule stack_maps [OF m2(2) D2 fr2])
  have D4: "\<forall>i \<in> D. data_frame (pg m4) i" using D2 m4(5) unfolding keeps_def by blast
  have seg4: "segment_loaded D (pg m4) bs ph" if "ph \<in> set (loads bs h [0..<unat (e_phnum h)])" for ph
  proof (rule segment_loaded_seen [OF _ m4(7)])
    have ff: "fits_file bs ph" using x(6) that by blast
    then show "unat (p_vaddr ph) + unat (p_memsz ph) \<le> 0xBFFFB000" by (simp add: fits_file_def)
    then have "(unat (p_vaddr ph) + unat (p_memsz ph) + 4095) div 4096 \<le> 0xBFFFB" by simp
    then show "ph_pages ph \<inter> {0xBFFFB..<0xBFFFF} = {}" unfolding ph_pages_def pages_def by auto
    show "segment_loaded D (pg m2) bs ph" using m2(5) that by blast
  qed
  have h4: "heap_ok (vheap (mvfs m4)) A1" using m4(3) by (simp add: loader_inv_def)
  obtain h5 A5 where f: "kfree p (vheap (mvfs m4)) = Some h5" "heap_ok h5 A5" "client A5 = client A1 - {unat p..<unat p + t}"
      "\<forall>x \<in> client A5. ram h5 (of_nat x) = ram (vheap (mvfs m4)) (of_nat x)" "\<forall>q u. live A1 q u \<and> q \<noteq> unat p \<longrightarrow> live A5 q u"
    using kfree_live [OF h4 o(7)] by blast
  have c5: "client A5 = client A" using f(3) o(8,9) by auto
  define v5 where "v5 = (mvfs m4)\<lparr>vheap := h5, nodes := (nodes (mvfs m4))(p := None)\<rparr>"
  have sf: "same_files m1 m4" using m2(3) m4(4) by (simp add: same_files_def)
  have "nodes (mvfs m4) p \<noteq> None" using sf o(4) by (simp add: same_files_def m1_def)
  then have cl: "close_with p r m4 = Some (m4\<lparr>mvfs := v5\<rparr>, r)" for r
    using o(2) f(1) by (auto simp: close_with_def vfs_close_def v5_def)
  have ok4: "paging_ok (pg m4)" using m4(3) by (simp add: loader_inv_def)
  have r5: "\<forall>x \<in> client A. ram (vheap v5) (of_nat x) = ram (vheap (mvfs m4)) (of_nat x)" using f(4) c5 by (simp add: v5_def)
  note s5 = heap_step(4) [OF ok4 DA(1) D4 r5]
  have low: "translate (pg (m4\<lparr>mvfs := v5\<rparr>)) (of_nat u) = translate (pg m) (of_nat u)" if u: "u < 0x1000000" for u
  proof -
    have b: "u < 4294967296" "u div 4096 < 4096" "u div 4096 \<notin> {0xBFFFB..<0xBFFFF}" using u by (auto simp: less_mult_imp_div_less)
    have "u div 4096 \<notin> ph_pages ph" if "ph \<in> set (loads bs h [0..<unat (e_phnum h)])" for ph
    proof -
      have "0x1000000 \<le> unat (p_vaddr ph)" using x(6) that by (simp add: fits_file_def)
      then have "4096 \<le> unat (p_vaddr ph) div 4096" using div_le_mono [of "0x1000000" "unat (p_vaddr ph)" 4096] by simp
      then show ?thesis using b(2) by (simp add: ph_pages_def)
    qed
    then have n: "u div 4096 \<notin> (\<Union>ph \<in> set (loads bs h [0..<unat (e_phnum h)]). ph_pages ph)" by blast
    have "translate (pg m2) (of_nat u) = translate (pg m1) (of_nat u)" using m2(7) n b(1) unfolding seen_def by blast
    moreover have "translate (pg m4) (of_nat u) = translate (pg m2) (of_nat u)" using m4(7) b(1,3) unfolding seen_def by blast
    ultimately show ?thesis using s1(5) heap_step(5) [OF ok4 DA(1) D4 r5] by simp
  qed
  have hd: "vfs_read p 0 54 hjunk (mvfs m1) = Some (54, take 54 bs)" by (rule read_header [OF r1 assms(10) x(1)])
  have mg: "load32 (e_ident h) 0 = ELF_MAGIC" using x(1-3) by (simp add: elf_header_at_def load32_def)
  have st: "0xBFFFF000 - 4096 * 4 = (0xBFFFB000 :: u32)" "4096 * 4 = (0x4000 :: u32)" "unat (0x4000 :: u32) = 0x4000" by simp_all
  have "exec_elf raw hjunk junk filename m = Some (m4\<lparr>mvfs := v5\<rparr>, User_Mode (e_entry h) 0xBFFFF000)"
    unfolding exec_elf_def o(1) bind.simps prod.case Let_def m1_def [symmetric] hd x(2) [symmetric] st
    using o(2) mg x(4) m2(1) m4(1,2) cl by simp
  moreover have "segment_loaded D (pg (m4\<lparr>mvfs := v5\<rparr>)) bs ph" if "ph \<in> set (loads bs h [0..<unat (e_phnum h)])" for ph
    using seg4 [OF that] s5 unfolding segment_loaded_def by blast
  moreover have "stack_ready D (pg (m4\<lparr>mvfs := v5\<rparr>))" using m4(6) s5 unfolding stack_ready_def by blast
  moreover have "\<forall>q u. live A q u \<longrightarrow> live A5 q u" using o(11,12) f(5) by metis
  moreover note low
  ultimately show ?thesis
    unfolding bs_def [symmetric] D_def [symmetric] using f(2) c5 sf o(3) by (intro exI [of _ "m4\<lparr>mvfs := v5\<rparr>"] exI [of _ A5]) (simp add: v5_def same_files_def m1_def)
qed

theorem exec_elf_loads_witness:
  "\<forall>raw. \<exists>st m'. fat32_write_file blank_volume (cstr ''a'') sojeb_elf 220 = Some st \<and>
     exec_elf raw (replicate 54 0) (\<lambda>_. replicate 32 0) (cstr ''a'') (boot_machine st) = Some (m', User_Mode 0x1000000 0xBFFFF000) \<and>
     segment_loaded (Collect (data_frame (pg (boot_machine st)))) (pg m') sojeb_elf sojeb_segment"
proof
  fix raw
  let ?h = "elf_header_at (take 54 sojeb_elf)"
  have n: "unat (e_phnum ?h) = 40" "e_entry ?h = 0x1000000" unfolding sojeb_facts by simp_all
  obtain st cl e where w: "fat32_write_file blank_volume (cstr ''a'') sojeb_elf 220 = Some st"
      "fat32_find_file st (cstr ''a'') = Some (Some e)" "de_file_size e = 220"
      "dir_at st (entry_cluster e) cl" "take (unat (220 :: u32)) (file_bytes st cl) = take (unat (220 :: u32)) sojeb_elf" "unat (220 :: u32) \<le> length (file_bytes st cl)"
    by (rule write_file_result [of blank_volume "[2]" "cstr ''a''" "(2, 0, 0)" 220 sojeb_elf])
      (use blank_dir blank_lookup blank_free_slot name_a_ok cstr_a(2) blank_room in
         \<open>simp_all add: blank_next blank_bpc sojeb_facts del: slot_entry_simp\<close>)
  have bs: "take (unat (de_file_size e)) (file_bytes (vfat (mvfs (boot_machine st))) cl) = sojeb_elf"
    using w(5) sojeb_facts(6) unfolding boot_machine_ok(6) w(3) by simp
  note b = boot_machine_ok(1) [of st] boot_machine_ok(2) boot_machine_ok(3-6) [of st]
  have pp: "card (ph_pages sojeb_segment) = 1" by (simp add: ph_pages_def sojeb_segment_def pages_def)
  have "\<exists>m' A'. exec_elf raw (replicate 54 0) (\<lambda>_. replicate 32 0) (cstr ''a'') (boot_machine st) = Some (m', User_Mode (e_entry ?h) 0xBFFFF000) \<and>
    (\<forall>ph \<in> set (loads (take (unat (de_file_size e)) (file_bytes (vfat (mvfs (boot_machine st))) cl)) ?h [0..<unat (e_phnum ?h)]).
       segment_loaded (Collect (data_frame (pg (boot_machine st)))) (pg m') (take (unat (de_file_size e)) (file_bytes (vfat (mvfs (boot_machine st))) cl)) ph) \<and>
    stack_ready (Collect (data_frame (pg (boot_machine st)))) (pg m') \<and>
    (\<forall>u < 0x1000000. translate (pg m') (of_nat u) = translate (pg (boot_machine st)) (of_nat u)) \<and>
    heap_ok (vheap (mvfs m')) A' \<and> client A' = client (4096, [(1012, True)]) \<and> (\<forall>q t. live (4096, [(1012, True)]) q t \<longrightarrow> live A' q t) \<and>
    vfat (mvfs m') = vfat (mvfs (boot_machine st))"
  proof (rule exec_elf_loads [OF b(1-4)])
    show "fat32_find_file (vfat (mvfs (boot_machine st))) (cstr ''a'') = Some (Some e)" "dir_at (vfat (mvfs (boot_machine st))) (entry_cluster e) cl"
      "unat (de_file_size e) \<le> length (file_bytes (vfat (mvfs (boot_machine st))) cl)"
      unfolding b(6) w(3) using w(2,4,6) by blast+
    show "executable_file (take (unat (de_file_size e)) (file_bytes (vfat (mvfs (boot_machine st))) cl)) ?h"
      unfolding bs by (rule sojeb_executable)
    show "2 * (\<Sum>ph \<leftarrow> loads (take (unat (de_file_size e)) (file_bytes (vfat (mvfs (boot_machine st))) cl)) ?h [0..<unat (e_phnum ?h)]. card (ph_pages ph)) + 8
      \<le> card (low_frames (pg (boot_machine st)))"
      unfolding bs n sojeb_loads b(5) using pp by simp
    show "direct_map (pg (boot_machine st))" by (rule boot_machine_ok(7))
    show "\<forall>x < 4294967296. x \<notin> client (4096, [(1012, True)]) \<longrightarrow> x < 0x1000000"
      using boot_client by (auto dest: boot_client)
  qed simp_all
  then show "\<exists>st m'. fat32_write_file blank_volume (cstr ''a'') sojeb_elf 220 = Some st \<and>
     exec_elf raw (replicate 54 0) (\<lambda>_. replicate 32 0) (cstr ''a'') (boot_machine st) = Some (m', User_Mode 0x1000000 0xBFFFF000) \<and>
     segment_loaded (Collect (data_frame (pg (boot_machine st)))) (pg m') sojeb_elf sojeb_segment"
    unfolding bs n sojeb_loads using w(1) by auto
qed

text \<open>
  C35: A file whose first four bytes are not the ELF magic number, or else whose type is not that of an
  executable, is refused with -2 or -3: it is closed again, the heap, the page tables and the disk
  are as before. Of a file shorter than a header the missing bytes are those of the stack.
\<close>

theorem exec_elf_rejects:
  assumes "heap_ok (vheap (mvfs m)) A" and "fits A 284"
    and "fat32_find_file (vfat (mvfs m)) filename = Some (Some e)" and "dir_at (vfat (mvfs m)) (entry_cluster e) cl"
    and "unat (de_file_size e) \<le> length (file_bytes (vfat (mvfs m)) cl)" and "length hjunk = 54"
    and "buffer = put_bytes hjunk 0 (take 54 (take (unat (de_file_size e)) (file_bytes (vfat (mvfs m)) cl)))"
    and "load32 buffer 0 \<noteq> ELF_MAGIC \<or> load16 buffer 16 \<noteq> ET_EXEC"
  shows "\<exists>m'. exec_elf raw hjunk junk filename m = Some (m', Status (if load32 buffer 0 \<noteq> ELF_MAGIC then - 2 else - 3)) \<and>
    mpaging m' = mpaging m \<and> vfat (mvfs m') = vfat (mvfs m) \<and> heap_ok (vheap (mvfs m')) A \<and>
    (\<forall>x \<in> client A. ram (vheap (mvfs m')) (of_nat x) = ram (vheap (mvfs m)) (of_nat x))"
proof -
  let ?bs = "take (unat (de_file_size e)) (file_bytes (vfat (mvfs m)) cl)"
  obtain v2 p v3 where o: "vfs_open raw filename (mvfs m) = Some (v2, p)" "p \<noteq> 0" "reads_as v2 p ?bs" "vfs_close p v2 = Some v3"
    "vfat v3 = vfat (mvfs m)" "heap_ok (vheap v3) A" "\<forall>x \<in> client A. ram (vheap v3) (of_nat x) = ram (vheap (mvfs m)) (of_nat x)"
    using vfs_open_found [OF assms(1,2,3-5)] by metis
  have rd: "vfs_read p 0 54 hjunk v2 = Some (of_nat (min 54 (length ?bs)), buffer)"
    using o(3) [unfolded reads_as_def, rule_format, of 0 54 hjunk] assms(6,7) by simp
  have lb: "16 \<le> length buffer" using assms(6,7) by simp
  have id: "load32 (e_ident (elf_header_at buffer)) 0 = load32 buffer 0" "e_type (elf_header_at buffer) = load16 buffer 16"
    using lb by (simp_all add: elf_header_at_def load32_def)
  have cl: "close_with p r (m\<lparr>mvfs := v2\<rparr>) = Some (m\<lparr>mvfs := v3\<rparr>, r)" for r using o(4) by (simp add: close_with_def)
  have "exec_elf raw hjunk junk filename m = Some (m\<lparr>mvfs := v3\<rparr>, Status (if load32 buffer 0 \<noteq> ELF_MAGIC then - 2 else - 3))"
    using o(1,2) rd assms(8) cl by (simp add: exec_elf_def id)
  then show ?thesis using o(5-7) by auto
qed

theorem exec_elf_rejects_witness:
  "\<forall>raw. \<exists>st m'. fat32_write_file blank_volume (cstr ''a'') (cstr ''hello'') 5 = Some st \<and>
     exec_elf raw (replicate 54 0) (\<lambda>_. []) (cstr ''a'') (boot_machine st) = Some (m', Status (- 2)) \<and> vfat (mvfs m') = st"
proof
  fix raw
  have l: "length (cstr ''hello'') = 5" by code_simp
  obtain st cl e where w: "fat32_write_file blank_volume (cstr ''a'') (cstr ''hello'') 5 = Some st"
      "fat32_find_file st (cstr ''a'') = Some (Some e)" "de_file_size e = 5"
      "dir_at st (entry_cluster e) cl" "take (unat (5 :: u32)) (file_bytes st cl) = take (unat (5 :: u32)) (cstr ''hello'')" "unat (5 :: u32) \<le> length (file_bytes st cl)"
    by (rule write_file_result [of blank_volume "[2]" "cstr ''a''" "(2, 0, 0)" 5 "cstr ''hello''"])
      (use blank_dir blank_lookup blank_free_slot name_a_ok cstr_a(2) blank_room l in
         \<open>simp_all add: blank_next blank_bpc del: slot_entry_simp\<close>)
  note b = boot_machine_ok(6) [of st]
  let ?buf = "put_bytes (replicate 54 0) 0 (take 54 (take (unat (de_file_size e)) (file_bytes (vfat (mvfs (boot_machine st))) cl)))"
  have "?buf = cstr ''hello'' @ replicate 49 0"
    using w(5) l unfolding b w(3) by (simp add: put_bytes_def)
  moreover have "load32 (cstr ''hello'' @ replicate 49 0) 0 \<noteq> ELF_MAGIC" by code_simp
  ultimately have m: "load32 ?buf 0 \<noteq> ELF_MAGIC" by simp
  have "\<exists>m'. exec_elf raw (replicate 54 0) (\<lambda>_. []) (cstr ''a'') (boot_machine st) = Some (m', Status (if load32 ?buf 0 \<noteq> ELF_MAGIC then - 2 else - 3)) \<and>
    mpaging m' = mpaging (boot_machine st) \<and> vfat (mvfs m') = vfat (mvfs (boot_machine st)) \<and> heap_ok (vheap (mvfs m')) (4096, [(1012, True)]) \<and>
    (\<forall>x \<in> client (4096, [(1012, True)]). ram (vheap (mvfs m')) (of_nat x) = ram (vheap (mvfs (boot_machine st))) (of_nat x))"
    by (rule exec_elf_rejects [OF boot_machine_ok(1,2) _ _ _ _ refl disjI1 [OF m]]) (use w in \<open>simp_all add: b\<close>)
  then show "\<exists>st m'. fat32_write_file blank_volume (cstr ''a'') (cstr ''hello'') 5 = Some st \<and>
     exec_elf raw (replicate 54 0) (\<lambda>_. []) (cstr ''a'') (boot_machine st) = Some (m', Status (- 2)) \<and> vfat (mvfs m') = st"
    using w(1) m b by auto
qed

text \<open>
  The structure of \<open>elf.h\<close> gives \<open>e_ehsize\<close> 32 bits where the standard has 16: the fields after it are
  read from two bytes too far, the number of program headers as their size and the size of a section
  header as their number, and the last field from behind the header. The sample program of the
  repository has 2 headers of 32 bytes; the loader looks for 40 headers, 2 bytes apart.
\<close>

theorem elf_header_fields_shifted:
  assumes "length ident = 16"
    and "h = elf_header_at (elf32_header ident ty machine version entry phoff shoff fl ehsize phentsize phnum shentsize shnum shstrndx @ [b, c])"
  shows "e_type h = ty \<and> e_entry h = entry \<and> e_phoff h = phoff \<and>
    e_phentsize h = phnum \<and> e_phnum h = shentsize \<and> e_shentsize h = shnum \<and> e_shnum h = shstrndx \<and> e_shstrndx h = u16_le b c"
  by (rule header_fields [OF assms])

theorem elf_header_fields_shifted_witness:
  "e_phentsize (elf_header_at (take 54 sojeb_elf)) = 2 \<and> e_phnum (elf_header_at (take 54 sojeb_elf)) = 40"
proof -
  have "length (take 16 sojeb_elf) = 16" by (simp add: sojeb_elf_def)
  from elf_header_fields_shifted [OF this sojeb_header [THEN arg_cong [where f = elf_header_at]]]
  show ?thesis by blast
qed

end
