(* ===== verification/Vector.thy ===== *)
theory Vector
  imports Memory
begin

text \<open>
  The growable array of \<open>src/kernel/libc/vector.c\<close> on the kernel heap. A \<open>Vector *\<close> argument is an
  option, \<open>None\<close> for the NULL pointer; elements are passed by their address in memory. An \<open>int\<close> result
  is 1 for success and 0 for failure; \<open>None\<close> stands for a run that does not return.
\<close>

section \<open>Operations\<close>

record vector =
  vdata :: u32
  vsize :: u32
  capacity :: u32
  element_size :: u32

definition vector_resize :: "u32 \<Rightarrow> vector \<Rightarrow> kheap \<Rightarrow> (vector \<times> kheap \<times> u32) option" where
  "vector_resize new_capacity v h =
     Option.bind (kmalloc (new_capacity * element_size v) h)
       (\<lambda>(h, new_data).
          if new_data = 0 then Some (v, h, 0)
          else
            map_option (\<lambda>h. (v\<lparr>vdata := new_data, capacity := new_capacity\<rparr>, h, 1))
              (if vdata v \<noteq> 0 \<and> 0 < vsize v then
                 (let elements_to_copy = (if vsize v < new_capacity then vsize v else new_capacity)
                  in kfree (vdata v)
                       (h\<lparr>ram := copy_ram (unat (elements_to_copy * element_size v)) new_data (vdata v) (ram h)\<rparr>))
               else Some h))"

definition vector_init :: "vector option \<Rightarrow> u32 \<Rightarrow> u32 \<Rightarrow> kheap \<Rightarrow> (vector option \<times> kheap \<times> u32) option" where
  "vector_init vec initial_capacity es h =
     (case vec of
        None \<Rightarrow> Some (None, h, 0)
      | Some v \<Rightarrow>
          if es = 0 then Some (Some v, h, 0)
          else
            (let v = v\<lparr>vsize := 0, capacity := (if initial_capacity = 0 then 4 else initial_capacity), element_size := es\<rparr>
             in Option.bind (kmalloc (capacity v * element_size v) h)
                  (\<lambda>(h, p).
                     let v = v\<lparr>vdata := p\<rparr>
                     in if p = 0 then Some (Some (v\<lparr>capacity := 0\<rparr>), h, 0) else Some (Some v, h, 1))))"

definition vector_free :: "vector option \<Rightarrow> kheap \<Rightarrow> (vector option \<times> kheap) option" where
  "vector_free vec h =
     (case vec of
        None \<Rightarrow> Some (None, h)
      | Some v \<Rightarrow>
          if vdata v \<noteq> 0 then map_option (\<lambda>h. (Some (v\<lparr>vdata := 0, vsize := 0, capacity := 0\<rparr>), h)) (kfree (vdata v) h)
          else Some (Some v, h))"

definition vector_push_back :: "vector option \<Rightarrow> u32 \<Rightarrow> kheap \<Rightarrow> (vector option \<times> kheap \<times> u32) option" where
  "vector_push_back vec element h =
     (case vec of
        None \<Rightarrow> Some (None, h, 0)
      | Some v \<Rightarrow>
          if element = 0 then Some (Some v, h, 0)
          else
            Option.bind (if capacity v \<le> vsize v then vector_resize (capacity v * 2) v h else Some (v, h, 1))
              (\<lambda>(v, h, ok).
                 if ok = 0 then Some (Some v, h, 0)
                 else
                   (let target = vdata v + vsize v * element_size v
                    in Some (Some (v\<lparr>vsize := vsize v + 1\<rparr>),
                         h\<lparr>ram := copy_ram (unat (element_size v)) target element (ram h)\<rparr>, 1))))"

definition vector_get :: "vector option \<Rightarrow> u32 \<Rightarrow> u32" where
  "vector_get vec index =
     (case vec of
        None \<Rightarrow> 0
      | Some v \<Rightarrow> if vsize v \<le> index then 0 else vdata v + index * element_size v)"

definition vector_pop_back :: "vector option \<Rightarrow> vector option \<times> u32" where
  "vector_pop_back vec =
     (case vec of
        None \<Rightarrow> (None, 0)
      | Some v \<Rightarrow> if vsize v = 0 then (Some v, 0) else (Some (v\<lparr>vsize := vsize v - 1\<rparr>), 1))"

definition vector_clear :: "vector option \<Rightarrow> vector option" where
  "vector_clear vec = map_option (\<lambda>v. v\<lparr>vsize := 0\<rparr>) vec"

section \<open>Specification\<close>

text \<open>
  The vector \<open>v\<close> with a block of \<open>t\<close> bytes holds the elements \<open>xs\<close>, and what an operation on it must
  leave alone: the blocks in use and the client bytes outside the block.
\<close>

definition vec_ok :: "kheap \<Rightarrow> nat \<times> blocks \<Rightarrow> vector \<Rightarrow> nat \<Rightarrow> u8 list list \<Rightarrow> bool" where
  "vec_ok h A v t xs \<longleftrightarrow> heap_ok h A \<and> live A (unat (vdata v)) t \<and>
     0 < unat (element_size v) \<and> 0 < unat (capacity v) \<and> unat (capacity v) * unat (element_size v) \<le> t \<and>
     unat (vsize v) \<le> unat (capacity v) \<and> length xs = unat (vsize v) \<and> (\<forall>x \<in> set xs. length x = unat (element_size v)) \<and>
     load_ram (ram h) (vdata v) (unat (vsize v) * unat (element_size v)) = concat xs"

definition vec_bytes :: "vector \<Rightarrow> nat \<Rightarrow> nat set" where
  "vec_bytes v t = {unat (vdata v)..<unat (vdata v) + t}"

definition vec_frame :: "kheap \<Rightarrow> nat \<times> blocks \<Rightarrow> vector \<Rightarrow> nat \<Rightarrow> kheap \<Rightarrow> nat \<times> blocks \<Rightarrow> bool" where
  "vec_frame h A v t h' A' \<longleftrightarrow> (\<forall>x \<in> client A - vec_bytes v t. x \<in> client A' \<and> ram h' (of_nat x) = ram h (of_nat x)) \<and>
     (\<forall>q s. live A q s \<and> q \<noteq> unat (vdata v) \<longrightarrow> live A' q s)"

section \<open>Lemmas\<close>

lemma load_ram_split: "load_ram m a (k + n) = load_ram m a k @ load_ram m (a + of_nat k) n"
  by (rule nth_equalityI) (auto simp: load_ram_def nth_append add.assoc simp flip: of_nat_add)

lemma load_ram_cong:
  "(\<And>i. i < n \<Longrightarrow> m' (of_nat (a' + i)) = m (of_nat (a + i))) \<Longrightarrow> load_ram m' (of_nat a') n = load_ram m (of_nat a) n"
  by (rule load_ram_eqI) (auto simp: nth_load_ram simp del: of_nat_add)

lemma vec_resize:
  assumes ok: "vec_ok h A v t xs" and full: "vsize v = capacity v"
    and b: "2 * unat (capacity v) * unat (element_size v) \<le> 4294967288" and fits: "fits A (capacity v * 2 * element_size v)"
  obtains v' h' A' t' where "vector_resize (capacity v * 2) v h = Some (v', h', 1)" "vec_ok h' A' v' t' xs" "vec_frame h A v t h' A'"
    "vsize v' = vsize v" "element_size v' = element_size v" "unat (vsize v') < unat (capacity v')"
    "vec_bytes v' t' \<inter> (client A - vec_bytes v t) = {}" "unat (capacity v') = 2 * unat (capacity v)"
proof -
  let ?es = "unat (element_size v)" and ?c = "unat (capacity v)"
  let ?n = "capacity v * 2 * element_size v" and ?k = "?c * ?es"
  have o: "heap_ok h A" "live A (unat (vdata v)) t" "0 < ?es" "0 < ?c" "?k \<le> t" "length xs = ?c"
    "\<forall>x \<in> set xs. length x = ?es" "load_ram (ram h) (vdata v) ?k = concat xs"
    using ok full by (auto simp: vec_ok_def)
  have b: "2 * ?k \<le> 4294967288" using b by (simp add: ac_simps)
  moreover have "?c \<le> ?k" using o(3) by simp
  ultimately have "?c * 2 < 4294967296" by linarith
  then have c2: "unat (capacity v * 2) = ?c * 2" by (simp add: unat_mult_u32)
  have un: "unat ?n = 2 * ?k" using b c2 by (subst unat_mult_u32) (simp_all add: ac_simps)
  have uk: "unat (vsize v * element_size v) = ?k" using b full by (subst unat_mult_u32) simp_all
  have n8: "unat ?n \<le> 4294967288" "?k \<le> unat ?n" using b un by (simp_all add: ac_simps)
  show ?thesis
  proof (rule kh.move [OF o(1) fits n8 o(2,5)])
    fix h1 p h2 A' s
    assume m: "kmalloc ?n h = Some (h1, p)" "p \<noteq> 0" "kfree (vdata v) (copy_mem ?k p (vdata v) h1) = Some h2" "heap_ok h2 A'"
      "unat ?n \<le> s" "live A' (unat p) s" "client A' = client A - {unat (vdata v)..<unat (vdata v) + t} \<union> {unat p..<unat p + s}"
      "\<And>i. i < ?k \<Longrightarrow> ram h2 (of_nat (unat p + i)) = ram h (of_nat (unat (vdata v) + i))"
      "\<And>x. x \<in> client A - {unat (vdata v)..<unat (vdata v) + t} \<Longrightarrow> x < 4294967296 \<Longrightarrow> ram h2 (of_nat x) = ram h (of_nat x)"
      "\<And>q u. live A q u \<Longrightarrow> q \<noteq> unat (vdata v) \<Longrightarrow> live A' q u" "{unat p..<unat p + s} \<inter> client A = {}"
    define v' where "v' = v\<lparr>vdata := p, capacity := capacity v * 2\<rparr>"
    have v': "vdata v' = p" "capacity v' = capacity v * 2" "vsize v' = vsize v" "element_size v' = element_size v" by (simp_all add: v'_def)
    have d0: "vdata v \<noteq> 0" using live_client [OF o(1,2)] by auto
    have s0: "0 < vsize v" "vsize v < capacity v * 2" using o(4) c2 full by (simp_all add: word_less_nat_alt)
    have "vector_resize (capacity v * 2) v h = Some (v', h2, 1)"
      unfolding vector_resize_def m(1) bind.simps prod.case using m(2,3) d0 s0 uk by (simp add: copy_mem_def v'_def)
    moreover have "load_ram (ram h2) p ?k = concat xs"
    proof -
      have "load_ram (ram h2) (of_nat (unat p)) ?k = load_ram (ram h) (of_nat (unat (vdata v))) ?k"
        by (rule load_ram_cong) (rule m(8))
      then show ?thesis using o(8) by simp
    qed
    then have "vec_ok h2 A' v' s xs"
      using m(4-6) o full c2 un unfolding vec_ok_def v' by (simp add: ac_simps)
    moreover have "vec_frame h A v t h2 A'"
      unfolding vec_frame_def vec_bytes_def using m(7,9,10) client_bound [OF o(1)] by auto
    moreover have "vec_bytes v' s \<inter> (client A - vec_bytes v t) = {}"
      unfolding vec_bytes_def v' using m(11) by auto
    moreover have "unat (vsize v') < unat (capacity v')" using v' c2 full o(4) by simp
    moreover have "unat (capacity v') = 2 * ?c" using v'(2) c2 by simp
    ultimately show thesis using that v'(3,4) by blast
  qed
qed

lemma vec_store:
  assumes ok: "vec_ok h A v t xs" and room: "unat (vsize v) < unat (capacity v)"
    and e: "{e..<e + unat (element_size v)} \<subseteq> client A - vec_bytes v t" "e + unat (element_size v) \<le> 4294967296"
  defines "h' \<equiv> h\<lparr>ram := copy_ram (unat (element_size v)) (vdata v + vsize v * element_size v) (of_nat e) (ram h)\<rparr>"
  shows "vec_ok h' A (v\<lparr>vsize := vsize v + 1\<rparr>) t (xs @ [load_ram (ram h) (of_nat e) (unat (element_size v))])"
    and "\<forall>x \<in> client A - vec_bytes v t. ram h' (of_nat x) = ram h (of_nat x)"
proof -
  let ?es = "unat (element_size v)" and ?c = "unat (capacity v)" and ?k = "unat (vsize v) * unat (element_size v)" and ?d = "unat (vdata v)"
  have o: "heap_ok h A" "live A ?d t" "0 < ?es" "0 < ?c" "?c * ?es \<le> t" "length xs = unat (vsize v)"
    "\<forall>x \<in> set xs. length x = ?es" "load_ram (ram h) (vdata v) ?k = concat xs"
    using ok by (auto simp: vec_ok_def)
  have lc: "?d + t < 4294967296" "{?d..<?d + t} \<subseteq> client A" using live_client [OF o(1,2)] by auto
  have "Suc (unat (vsize v)) * ?es \<le> ?c * ?es" using room by (intro mult_le_mono1) simp
  then have kt: "?k + ?es \<le> t" using o(5) by simp
  have uk: "unat (vsize v * element_size v) = ?k" using kt lc by (intro unat_mult_u32) simp
  have tg: "vdata v + vsize v * element_size v = of_nat (?d + ?k)" by (rule u32_eqI) (use kt lc uk in \<open>simp add: unat_add_u32 unat_of_nat_u32 del: of_nat_add of_nat_mult\<close>)
  have dj: "{?d + ?k..<?d + ?k + ?es} \<inter> {e..<e + ?es} = {}" using e(1) kt unfolding vec_bytes_def by fastforce
  have bd: "?d + ?k + ?es < 4294967296" using kt lc by simp
  note cp = copy_ram_nat [OF bd e(2) dj, of _ "ram h", folded tg]
  have r: "ram h' (of_nat x) = (if ?d + ?k \<le> x \<and> x < ?d + ?k + ?es then ram h (of_nat (e + (x - (?d + ?k)))) else ram h (of_nat x))"
    if "x < 4294967296" for x using cp [OF that] by (simp add: h'_def)
  show out: "\<forall>x \<in> client A - vec_bytes v t. ram h' (of_nat x) = ram h (of_nat x)"
    using r client_bound [OF o(1)] kt by (auto simp: vec_bytes_def)
  have hk: "heap_ok h' A" unfolding h'_def
  proof (rule heap_ok_ram [OF o(1)])
    fix x :: nat assume x: "x < 4294967296" "x \<notin> client A"
    then have "x \<notin> {?d..<?d + t}" using lc(2) by blast
    then have "\<not> (?d + ?k \<le> x \<and> x < ?d + ?k + ?es)" using kt unfolding atLeastLessThan_iff by linarith
    then show "copy_ram ?es (vdata v + vsize v * element_size v) (of_nat e) (ram h) (of_nat x) = ram h (of_nat x)" unfolding cp [OF x(1)] by (rule if_not_P)
  qed
  have s1: "unat (vsize v + 1) = Suc (unat (vsize v))" 
  proof -
    have "unat (vsize v) + 1 < 4294967296" using room unat_u32_less [of "capacity v"] by linarith
    then show ?thesis by (simp add: unat_add_u32)
  qed
  have "load_ram (ram h') (of_nat ?d) ?k = load_ram (ram h) (of_nat ?d) ?k"
    by (rule load_ram_cong) (use r bd in \<open>simp del: of_nat_add of_nat_mult\<close>)
  moreover have "load_ram (ram h') (of_nat (?d + ?k)) ?es = load_ram (ram h) (of_nat e) ?es"
    by (rule load_ram_cong) (use r bd in \<open>simp del: of_nat_add of_nat_mult\<close>)
  ultimately have "load_ram (ram h') (vdata v) (?k + ?es) = concat (xs @ [load_ram (ram h) (of_nat e) ?es])"
    unfolding load_ram_split using o(8) by simp
  then show "vec_ok h' A (v\<lparr>vsize := vsize v + 1\<rparr>) t (xs @ [load_ram (ram h) (of_nat e) ?es])"
    using hk o room s1 unfolding vec_ok_def by (simp add: ac_simps)
qed

lemma vec_frame_step:
  assumes f: "vec_frame h A v t h1 A'" and d: "vec_bytes v' t' \<inter> (client A - vec_bytes v t) = {}"
    and r: "\<forall>x \<in> client A' - vec_bytes v' t'. ram h2 (of_nat x) = ram h1 (of_nat x)"
  shows "vec_frame h A v t h2 A'"
proof -
  have "x \<in> client A' \<and> ram h2 (of_nat x) = ram h (of_nat x)" if "x \<in> client A - vec_bytes v t" for x
  proof -
    have "x \<in> client A'" "ram h1 (of_nat x) = ram h (of_nat x)" using f that unfolding vec_frame_def by blast+
    moreover have "x \<notin> vec_bytes v' t'" using d that by blast
    ultimately show ?thesis using r by simp
  qed
  then show ?thesis using f unfolding vec_frame_def by blast
qed

lemma vec_prefix:
  assumes "load_ram m a (n * k) = concat xs" and "length xs = n" and "\<forall>x \<in> set xs. length x = k" and "i < n"
  shows "load_ram m (a + of_nat (i * k)) k = xs ! i" and "load_ram m a (i * k) = concat (take i xs)"
proof -
  have xs: "xs = take i xs @ xs ! i # drop (Suc i) xs" using assms(2,4) by (simp add: id_take_nth_drop)
  have l: "length (concat (take i xs)) = i * k"
    using assms(2-4) by (induction i) (simp_all add: take_Suc_conv_app_nth)
  have F: "load_ram m a (n * k) = concat (take i xs) @ xs ! i @ concat (drop (Suc i) xs)"
    unfolding assms(1) by (subst xs) simp
  have li: "length (xs ! i) = k" using assms(2-4) by simp
  show "load_ram m a (i * k) = concat (take i xs)" using load_ram_append(1) [OF F] unfolding l .
  from load_ram_append(2) [OF F] have "load_ram m (a + of_nat (i * k)) (k + length (concat (drop (Suc i) xs))) = xs ! i @ concat (drop (Suc i) xs)"
    unfolding l by (simp add: li)
  from load_ram_append(1) [OF this] show "load_ram m (a + of_nat (i * k)) k = xs ! i" unfolding li .
qed

lemma vec_get:
  assumes "vec_ok h A v t xs"
  shows "\<forall>i. if unat i < length xs then vector_get (Some v) i \<noteq> 0 \<and> load_ram (ram h) (vector_get (Some v) i) (unat (element_size v)) = xs ! unat i
    else vector_get (Some v) i = 0"
proof -
  let ?es = "unat (element_size v)"
  have o: "heap_ok h A" "live A (unat (vdata v)) t" "0 < ?es" "unat (capacity v) * ?es \<le> t" "length xs = unat (vsize v)"
    "\<forall>x \<in> set xs. length x = ?es" "load_ram (ram h) (vdata v) (unat (vsize v) * ?es) = concat xs" "unat (vsize v) \<le> unat (capacity v)"
    using assms by (auto simp: vec_ok_def)
  have lc: "0 < unat (vdata v)" "unat (vdata v) + t < 4294967296" "{unat (vdata v)..<unat (vdata v) + t} \<subseteq> client A" using live_client [OF o(1,2)] by auto
  show "\<forall>i. if unat i < length xs then vector_get (Some v) i \<noteq> 0 \<and> load_ram (ram h) (vector_get (Some v) i) ?es = xs ! unat i
      else vector_get (Some v) i = 0"
  proof
    fix i :: u32
    show "if unat i < length xs then vector_get (Some v) i \<noteq> 0 \<and> load_ram (ram h) (vector_get (Some v) i) ?es = xs ! unat i
      else vector_get (Some v) i = 0"
    proof (cases "unat i < length xs")
      case True
      have "unat i * ?es \<le> unat (capacity v) * ?es" using True o(5,8) by (intro mult_le_mono1) simp
      then have it: "unat i * ?es \<le> t" using o(4) by linarith
      then have ui: "unat (i * element_size v) = unat i * ?es" using lc(2) by (intro unat_mult_u32) simp
      then have w: "i * element_size v = of_nat (unat i * ?es)" by (metis of_nat_unat ucast_id)
      have g: "vector_get (Some v) i = vdata v + of_nat (unat i * ?es)"
        using True o(5) unfolding vector_get_def w by (simp add: word_le_nat_alt)
      have "unat (vdata v + of_nat (unat i * ?es)) = unat (vdata v) + unat i * ?es"
        using it lc(2) by (simp add: unat_add_u32 unat_of_nat_u32 del: of_nat_mult)
      then have "vector_get (Some v) i \<noteq> 0" using lc(1) unfolding g by (metis add_is_0 less_irrefl unat_0)
      moreover have "load_ram (ram h) (vector_get (Some v) i) ?es = xs ! unat i"
        unfolding g by (rule vec_prefix(1) [OF o(7,5,6)]) (use True o(5) in simp)
      ultimately show ?thesis using True by simp
    qed (use o(5) in \<open>auto simp: vector_get_def word_le_nat_alt\<close>)
  qed
qed

lemma vec_init:
  assumes ok: "heap_ok h A" and es: "es \<noteq> 0" and b: "(if c = 0 then 4 else unat c) * unat es \<le> 4294967288"
  shows "if fits A ((if c = 0 then 4 else c) * es)
    then \<exists>v' h' A' t. vector_init (Some v) c es h = Some (Some v', h', 1) \<and> vec_ok h' A' v' t [] \<and> element_size v' = es \<and> unat (capacity v') = (if c = 0 then 4 else unat c) \<and>
      vec_bytes v' t \<inter> client A = {} \<and> (\<forall>x \<in> client A. x \<in> client A' \<and> ram h' (of_nat x) = ram h (of_nat x)) \<and>
      (\<forall>q s. live A q s \<longrightarrow> live A' q s)
    else \<exists>v'. vector_init (Some v) c es h = Some (Some v', h, 0)"
proof -
  define cap where "cap = (if c = 0 then 4 else c)"
  have uc: "unat cap = (if c = 0 then 4 else unat c)" by (simp add: cap_def)
  have un: "unat (cap * es) = unat cap * unat es" using b unfolding uc [symmetric] by (intro unat_mult_u32) simp
  have n8: "unat (cap * es) \<le> 4294967288" using b un uc by simp
  have "c \<noteq> 0 \<Longrightarrow> unat c \<noteq> 0" by (simp add: unat_eq_zero)
  then have pos: "0 < unat cap" "0 < unat es" using es unfolding uc by (auto simp: unat_eq_zero intro: Nat.gr0I)
  show ?thesis
  proof (cases "fits A (cap * es)")
    case True
    obtain h' p A' t where k: "kmalloc (cap * es) h = Some (h', p)" "p \<noteq> 0" "heap_ok h' A'" "unat (cap * es) \<le> t" "live A' (unat p) t"
        "{unat p..<unat p + t} \<inter> client A = {}" "client A' = client A \<union> {unat p..<unat p + t}"
        "\<forall>x \<in> client A. ram h' (of_nat x) = ram h (of_nat x)" "\<forall>q t. live A q t \<longrightarrow> live A' q t"
      using kmalloc_room [OF ok True n8] by blast
    define v' where "v' = v\<lparr>vsize := 0, capacity := cap, element_size := es, vdata := p\<rparr>"
    have "vector_init (Some v) c es h = Some (Some v', h', 1)"
      using es k(1,2) by (simp add: vector_init_def Let_def v'_def flip: cap_def)
    moreover have "vec_ok h' A' v' t []" using k(3-5) pos un by (simp add: vec_ok_def v'_def)
    moreover have "vec_bytes v' t \<inter> client A = {}" using k(6) by (simp add: vec_bytes_def v'_def)
    moreover have "\<forall>x \<in> client A. x \<in> client A' \<and> ram h' (of_nat x) = ram h (of_nat x)" using k(7,8) by blast
    moreover have "element_size v' = es" "unat (capacity v') = (if c = 0 then 4 else unat c)" by (simp_all add: v'_def uc)
    ultimately have "\<exists>v' h' A' t. vector_init (Some v) c es h = Some (Some v', h', 1) \<and> vec_ok h' A' v' t [] \<and> element_size v' = es \<and> unat (capacity v') = (if c = 0 then 4 else unat c) \<and>
      vec_bytes v' t \<inter> client A = {} \<and> (\<forall>x \<in> client A. x \<in> client A' \<and> ram h' (of_nat x) = ram h (of_nat x)) \<and>
      (\<forall>q s. live A q s \<longrightarrow> live A' q s)" using k(9) by blast
    then show ?thesis using True unfolding cap_def [symmetric] by (simp only: if_True)
  next
    case False
    then have "kmalloc (cap * es) h = Some (h, 0)" by (rule kmalloc_full [OF ok])
    then have "\<exists>v'. vector_init (Some v) c es h = Some (Some v', h, 0)" using es by (simp add: vector_init_def Let_def flip: cap_def)
    then show ?thesis using False unfolding cap_def [symmetric] by (simp only: if_False)
  qed
qed

lemma small_vector:
  obtains v h A t where "vector_init (Some v0) 1 4 small_heap = Some (Some v, h, 1)" "vec_ok h A v t []" "element_size v = 4" "unat (capacity v) = 1"
    "{16..<20} \<subseteq> client A - vec_bytes v t"
proof -
  have "fits (4096, [(244, True)]) 4" by (simp add: fits_def ALIGN_def ALIGNMENT_def)
  then obtain v h A t where i: "vector_init (Some v0) 1 4 small_heap = Some (Some v, h, 1)" "vec_ok h A v t []" "element_size v = 4"
      "unat (capacity v) = 1" "vec_bytes v t \<inter> client (4096, [(244, True)]) = {}" "\<forall>x \<in> client (4096, [(244, True)]). x \<in> client A"
    using vec_init [OF small_heap_ok, of 4 1 v0] by auto
  have "{16..<20} \<subseteq> client (4096, [(244, True)])" by (auto simp: client_def client_bytes_def)
  then show thesis using i(5,6) by (intro that [OF i(1-4)]) blast
qed

lemma vec_push:
  assumes "vec_ok h A v t xs" and "e \<noteq> 0" and "2 * unat (capacity v) * unat (element_size v) \<le> 4294967288"
    and "{unat e..<unat e + unat (element_size v)} \<subseteq> client A - vec_bytes v t"
  shows "if vsize v = capacity v \<and> \<not> fits A (capacity v * 2 * element_size v) then vector_push_back (Some v) e h = Some (Some v, h, 0)
    else \<exists>v' h' A' t'. vector_push_back (Some v) e h = Some (Some v', h', 1) \<and>
      vec_ok h' A' v' t' (xs @ [load_ram (ram h) e (unat (element_size v))]) \<and> vec_frame h A v t h' A' \<and>
      element_size v' = element_size v \<and> unat (capacity v') \<le> 2 * unat (capacity v) \<and> vec_bytes v' t' \<inter> (client A - vec_bytes v t) = {}"
proof -
  have ok: "heap_ok h A" using assms(1) by (simp add: vec_ok_def)
  have le: "unat (vsize v) \<le> unat (capacity v)" using assms(1) by (simp add: vec_ok_def)
  have full: "capacity v \<le> vsize v \<longleftrightarrow> vsize v = capacity v" using le by (auto simp: word_le_nat_alt intro: u32_eqI)
  have push: "vector_push_back (Some v) e h = Some (Some (v1\<lparr>vsize := vsize v1 + 1\<rparr>),
      h1\<lparr>ram := copy_ram (unat (element_size v1)) (vdata v1 + vsize v1 * element_size v1) e (ram h1)\<rparr>, 1)"
    if "(if capacity v \<le> vsize v then vector_resize (capacity v * 2) v h else Some (v, h, 1)) = Some (v1, h1, 1)" for v1 h1
    using that assms(2) by (simp add: vector_push_back_def)
  have ue: "unat e + unat (element_size v) \<le> 4294967296"
  proof -
    have "0 < unat (element_size v)" using assms(1) by (simp add: vec_ok_def)
    then have "unat e + (unat (element_size v) - 1) \<in> {unat e..<unat e + unat (element_size v)}" by auto
    then have "unat e + (unat (element_size v) - 1) < 4294967296" using assms(4) client_bound [OF ok] by blast
    then show ?thesis by linarith
  qed
  show ?thesis
  proof (cases "vsize v = capacity v")
    case False
    then have room: "unat (vsize v) < unat (capacity v)" using le by (metis le_neq_implies_less word_unat_eq_iff)
    note st = vec_store [OF assms(1) room assms(4) ue, unfolded of_nat_unat ucast_id]
    have "vec_frame h A v t (h\<lparr>ram := copy_ram (unat (element_size v)) (vdata v + vsize v * element_size v) e (ram h)\<rparr>) A"
      using st(2) unfolding vec_frame_def by simp
    moreover note st(1)
    moreover have "(if capacity v \<le> vsize v then vector_resize (capacity v * 2) v h else Some (v, h, 1)) = Some (v, h, 1)" using False full by simp
    note push [OF this]
    moreover have "vec_bytes (v\<lparr>vsize := vsize v + 1\<rparr>) t \<inter> (client A - vec_bytes v t) = {}" by (auto simp: vec_bytes_def)
    moreover have "element_size (v\<lparr>vsize := vsize v + 1\<rparr>) = element_size v" "unat (capacity (v\<lparr>vsize := vsize v + 1\<rparr>)) \<le> 2 * unat (capacity v)" by simp_all
    ultimately have "\<exists>v' h' A' t'. vector_push_back (Some v) e h = Some (Some v', h', 1) \<and>
      vec_ok h' A' v' t' (xs @ [load_ram (ram h) e (unat (element_size v))]) \<and> vec_frame h A v t h' A' \<and>
      element_size v' = element_size v \<and> unat (capacity v') \<le> 2 * unat (capacity v) \<and> vec_bytes v' t' \<inter> (client A - vec_bytes v t) = {}" by blast
    then show ?thesis using False by (simp only: if_False simp_thms)
  next
    case full': True
    show ?thesis
    proof (cases "fits A (capacity v * 2 * element_size v)")
      case False
      then have "kmalloc (capacity v * 2 * element_size v) h = Some (h, 0)" by (rule kmalloc_full [OF ok])
      then show ?thesis using False full' assms(2) by (simp add: vector_push_back_def vector_resize_def)
    next
      case True
      obtain v' h1 A' t' where r: "vector_resize (capacity v * 2) v h = Some (v', h1, 1)" "vec_ok h1 A' v' t' xs" "vec_frame h A v t h1 A'"
          "vsize v' = vsize v" "element_size v' = element_size v" "unat (vsize v') < unat (capacity v')"
          "vec_bytes v' t' \<inter> (client A - vec_bytes v t) = {}" "unat (capacity v') = 2 * unat (capacity v)"
        by (rule vec_resize [OF assms(1) full' assms(3) True])
      have e: "{unat e..<unat e + unat (element_size v')} \<subseteq> client A' - vec_bytes v' t'"
        using assms(4) r(3,7) unfolding r(5) vec_frame_def by blast
      note st = vec_store [OF r(2,6) e, unfolded r(5), OF ue, unfolded of_nat_unat ucast_id]
      have l: "load_ram (ram h1) e (unat (element_size v)) = load_ram (ram h) e (unat (element_size v))"
      proof -
        have "load_ram (ram h1) (of_nat (unat e)) (unat (element_size v)) = load_ram (ram h) (of_nat (unat e)) (unat (element_size v))"
          by (rule load_ram_cong) (use assms(4) r(3) in \<open>auto simp: vec_frame_def subset_iff simp del: of_nat_add\<close>)
        then show ?thesis by simp
      qed
      let ?h2 = "h1\<lparr>ram := copy_ram (unat (element_size v)) (vdata v' + vsize v' * element_size v) e (ram h1)\<rparr>"
      have "vec_frame h A v t ?h2 A'"
        by (rule vec_frame_step [OF r(3,7)]) (use st(2) in simp)
      moreover have "(if capacity v \<le> vsize v then vector_resize (capacity v * 2) v h else Some (v, h, 1)) = Some (v', h1, 1)" using full' r(1) by simp
      note push [OF this, unfolded r(5)]
      moreover note st(1) [unfolded l]
      moreover have "vec_bytes (v'\<lparr>vsize := vsize v' + 1\<rparr>) t' \<inter> (client A - vec_bytes v t) = {}" using r(7) by (simp add: vec_bytes_def)
      moreover have "element_size (v'\<lparr>vsize := vsize v' + 1\<rparr>) = element_size v" "unat (capacity (v'\<lparr>vsize := vsize v' + 1\<rparr>)) \<le> 2 * unat (capacity v)"
        using r(5,8) by simp_all
      ultimately have "\<exists>v' h' A' t'. vector_push_back (Some v) e h = Some (Some v', h', 1) \<and>
        vec_ok h' A' v' t' (xs @ [load_ram (ram h) e (unat (element_size v))]) \<and> vec_frame h A v t h' A' \<and>
      element_size v' = element_size v \<and> unat (capacity v') \<le> 2 * unat (capacity v) \<and> vec_bytes v' t' \<inter> (client A - vec_bytes v t) = {}" by blast
      then show ?thesis using True by (simp only: if_False simp_thms)
    qed
  qed
qed

lemma vec_free:
  assumes "vec_ok h A v t xs"
  shows "\<exists>v' h' A'. vector_free (Some v) h = Some (Some v', h') \<and> vdata v' = 0 \<and> heap_ok h' A' \<and>
    client A' = client A - vec_bytes v t \<and> vec_frame h A v t h' A'"
proof -
  have o: "heap_ok h A" "live A (unat (vdata v)) t" using assms by (simp_all add: vec_ok_def)
  have lc: "0 < unat (vdata v)" using live_client [OF o] by simp
  obtain h' A' where f: "kfree (vdata v) h = Some h'" "heap_ok h' A'" "client A' = client A - {unat (vdata v)..<unat (vdata v) + t}"
      "\<forall>x \<in> client A'. ram h' (of_nat x) = ram h (of_nat x)" "\<forall>q u. live A q u \<and> q \<noteq> unat (vdata v) \<longrightarrow> live A' q u"
    using kfree_live [OF o] by blast
  have "vector_free (Some v) h = Some (Some (v\<lparr>vdata := 0, vsize := 0, capacity := 0\<rparr>), h')"
    using f(1) lc by (auto simp: vector_free_def)
  moreover have "vec_frame h A v t h' A'" unfolding vec_frame_def vec_bytes_def using f(3-5) by blast
  ultimately show ?thesis using f(2,3) by (intro exI conjI) (auto simp: vec_bytes_def)
qed

section \<open>Properties\<close>

text \<open>
  C25: A push appends the bytes of the element to the list that the vector holds, moving the vector to a
  larger block when it is full, and touches no other block and no other byte of a client; it fails,
  and changes nothing, only when the vector is full and the heap has no room for twice its capacity.
\<close>

theorem vector_push_appends:
  assumes "vec_ok h A v t xs" and "e \<noteq> 0" and "2 * unat (capacity v) * unat (element_size v) \<le> 4294967288"
    and "{unat e..<unat e + unat (element_size v)} \<subseteq> client A - vec_bytes v t"
  shows "if vsize v = capacity v \<and> \<not> fits A (capacity v * 2 * element_size v) then vector_push_back (Some v) e h = Some (Some v, h, 0)
    else \<exists>v' h' A' t'. vector_push_back (Some v) e h = Some (Some v', h', 1) \<and>
      vec_ok h' A' v' t' (xs @ [load_ram (ram h) e (unat (element_size v))]) \<and> vec_frame h A v t h' A'"
proof (cases "vsize v = capacity v \<and> \<not> fits A (capacity v * 2 * element_size v)")
  case True
  show ?thesis using vec_push [OF assms] unfolding if_P [OF True] .
next
  case False
  show ?thesis using vec_push [OF assms] unfolding if_not_P [OF False] by blast
qed

theorem vector_push_appends_witness:
  "\<forall>v0. \<exists>v h v1 h1 A t. vector_init (Some v0) 1 4 small_heap = Some (Some v, h, 1) \<and> vector_push_back (Some v) 16 h = Some (Some v1, h1, 1) \<and>
    vec_ok h1 A v1 t [load_ram (ram h) 16 4]"
proof
  fix v0
  obtain v h A t where v: "vector_init (Some v0) 1 4 small_heap = Some (Some v, h, 1)" "vec_ok h A v t []" "element_size v = 4" "unat (capacity v) = 1"
    "{16..<20} \<subseteq> client A - vec_bytes v t" by (rule small_vector)
  have "unat (vsize v) = 0" using v(2) by (simp add: vec_ok_def)
  then have "vsize v \<noteq> capacity v" using v(4) by auto
  with vector_push_appends [OF v(2), of 16] v(3-5)
  obtain v1 h1 A1 t1 where "vector_push_back (Some v) 16 h = Some (Some v1, h1, 1)" "vec_ok h1 A1 v1 t1 [load_ram (ram h) 16 4]"
    by auto
  then show "\<exists>v h v1 h1 A t. vector_init (Some v0) 1 4 small_heap = Some (Some v, h, 1) \<and> vector_push_back (Some v) 16 h = Some (Some v1, h1, 1) \<and>
    vec_ok h1 A v1 t [load_ram (ram h) 16 4]" using v(1) by blast
qed

text \<open>
  The other operations are those of a list: \<open>vector_get\<close> returns the address of the element with the
  index, or NULL past the end, \<open>vector_pop_back\<close> drops the last element, \<open>vector_clear\<close> all of them, and
  \<open>vector_free\<close> gives exactly the block of the vector back to the heap.
\<close>

theorem vector_list_operations:
  assumes "vec_ok h A v t xs"
  shows "(\<forall>i. if unat i < length xs then vector_get (Some v) i \<noteq> 0 \<and> load_ram (ram h) (vector_get (Some v) i) (unat (element_size v)) = xs ! unat i
        else vector_get (Some v) i = 0) \<and>
    (if xs = [] then vector_pop_back (Some v) = (Some v, 0)
     else \<exists>v'. vector_pop_back (Some v) = (Some v', 1) \<and> vec_ok h A v' t (butlast xs)) \<and>
    (\<exists>v'. vector_clear (Some v) = Some v' \<and> vec_ok h A v' t []) \<and>
    (\<exists>v' h' A'. vector_free (Some v) h = Some (Some v', h') \<and> vdata v' = 0 \<and> heap_ok h' A' \<and>
       client A' = client A - vec_bytes v t \<and> vec_frame h A v t h' A')"
proof (intro conjI)
  let ?es = "unat (element_size v)"
  have o: "heap_ok h A" "live A (unat (vdata v)) t" "0 < ?es" "unat (capacity v) * ?es \<le> t" "length xs = unat (vsize v)"
    "\<forall>x \<in> set xs. length x = ?es" "load_ram (ram h) (vdata v) (unat (vsize v) * ?es) = concat xs" "unat (vsize v) \<le> unat (capacity v)"
    using assms by (auto simp: vec_ok_def)
  have lc: "0 < unat (vdata v)" "unat (vdata v) + t < 4294967296" "{unat (vdata v)..<unat (vdata v) + t} \<subseteq> client A" using live_client [OF o(1,2)] by auto
  show "\<forall>i. if unat i < length xs then vector_get (Some v) i \<noteq> 0 \<and> load_ram (ram h) (vector_get (Some v) i) ?es = xs ! unat i
      else vector_get (Some v) i = 0" by (rule vec_get [OF assms])
  show "if xs = [] then vector_pop_back (Some v) = (Some v, 0)
     else \<exists>v'. vector_pop_back (Some v) = (Some v', 1) \<and> vec_ok h A v' t (butlast xs)"
  proof (cases "xs = []")
    case True
    then show ?thesis using o(5) by (simp add: vector_pop_back_def unat_eq_zero)
  next
    case False
    then have s: "0 < unat (vsize v)" using o(5) by (metis length_greater_0_conv)
    then have u: "unat (vsize v - 1) = unat (vsize v) - 1" by (subst unat_sub_u32) simp_all
    have "load_ram (ram h) (vdata v) ((unat (vsize v) - 1) * ?es) = concat (take (unat (vsize v) - 1) xs)"
      by (rule vec_prefix(2) [OF o(7,5,6)]) (use s in simp)
    then have "vec_ok h A (v\<lparr>vsize := vsize v - 1\<rparr>) t (butlast xs)"
      using assms u o(5,6) unfolding vec_ok_def by (auto simp: butlast_conv_take dest: in_set_takeD)
    moreover have "vsize v \<noteq> 0" using s by auto
    ultimately show ?thesis using False by (simp add: vector_pop_back_def)
  qed
  show "\<exists>v'. vector_clear (Some v) = Some v' \<and> vec_ok h A v' t []"
    using assms by (simp add: vector_clear_def vec_ok_def)
  show "\<exists>v' h' A'. vector_free (Some v) h = Some (Some v', h') \<and> vdata v' = 0 \<and> heap_ok h' A' \<and>
       client A' = client A - vec_bytes v t \<and> vec_frame h A v t h' A'" by (rule vec_free [OF assms])
qed

theorem vector_list_operations_witness:
  "\<exists>v h A t x v1. vec_ok h A v t [x] \<and> vector_get (Some v) 0 \<noteq> 0 \<and> vector_get (Some v) 1 = 0 \<and>
    vector_pop_back (Some v) = (Some v1, 1) \<and> vec_ok h A v1 t []"
proof -
  obtain v h A t where v: "vec_ok h A v t []" "element_size v = 4" "unat (capacity v) = 1"
    "{16..<20} \<subseteq> client A - vec_bytes v t" by (rule small_vector)
  have "unat (vsize v) < unat (capacity v)" using v(1,3) by (simp add: vec_ok_def)
  from vec_store(1) [OF v(1) this, of 16] v(2,4)
  obtain v' h' x where ok: "vec_ok h' A v' t [x]" by auto
  note l = vector_list_operations [OF ok]
  have "vector_get (Some v') 0 \<noteq> 0" using conjunct1 [OF l, THEN spec [of _ 0]] by simp
  moreover have "vector_get (Some v') 1 = 0" using conjunct1 [OF l, THEN spec [of _ 1]] by simp
  moreover obtain v1 where "vector_pop_back (Some v') = (Some v1, 1)" "vec_ok h' A v1 t []" using conjunct1 [OF conjunct2 [OF l]] by auto
  ultimately show ?thesis using ok by blast
qed

end
