(* ===== verification/Gdt.thy ===== *)
theory Gdt
  imports CString
begin

text \<open>
  The global descriptor table and the task state segment (\<open>src/kernel/gdt\<close>). The table is the list of
  its six packed entries of eight bytes; loading it and its task register (\<open>gdt_flush\<close>, \<open>ltr\<close>) changes neither.
\<close>

unbundle bit_operations_syntax

section \<open>Entries\<close>

record gdt_entry =
  limit_low :: u16
  base_low :: u16
  base_middle :: u8
  access :: u8
  granularity :: u8
  base_high :: u8

definition gdt_set_gate :: "nat \<Rightarrow> u32 \<Rightarrow> u32 \<Rightarrow> u8 \<Rightarrow> u8 \<Rightarrow> gdt_entry list \<Rightarrow> gdt_entry list" where
  "gdt_set_gate num base limit acc gran gdt =
     gdt[num :=
       \<lparr>limit_low = ucast (limit AND 0xFFFF),
        base_low = ucast (base AND 0xFFFF),
        base_middle = ucast (drop_bit 16 base AND 0xFF),
        access = acc,
        granularity = ucast (drop_bit 16 limit AND 0x0F) OR (gran AND 0xF0),
        base_high = ucast (drop_bit 24 base AND 0xFF)\<rparr>]"

text \<open>What \<open>lgdt\<close> loads: the size of the table minus 1 and its address.\<close>

record gdt_ptr =
  gp_limit :: u16
  gp_base :: u32

definition gdt_init :: "u32 \<Rightarrow> gdt_entry list \<Rightarrow> gdt_ptr \<times> gdt_entry list" where
  "gdt_init gdt_entries gdt =
     (let gdt_ptr = \<lparr>gp_limit = 8 * 6 - 1, gp_base = gdt_entries\<rparr>;
          gdt = gdt_set_gate 0 0 0 0 0 gdt;
          gdt = gdt_set_gate 1 0 0xFFFFFFFF 0x9A 0xCF gdt;
          gdt = gdt_set_gate 2 0 0xFFFFFFFF 0x92 0xCF gdt;
          gdt = gdt_set_gate 3 0 0xFFFFFFFF 0xFA 0xCF gdt;
          gdt = gdt_set_gate 4 0 0xFFFFFFFF 0xF2 0xCF gdt
      in (gdt_ptr, gdt))"

section \<open>The task state segment\<close>

record tss =
  prev_tss :: u32
  tss_esp0 :: u32
  tss_ss0 :: u32
  tss_esp1 :: u32
  tss_ss1 :: u32
  tss_esp2 :: u32
  tss_ss2 :: u32
  tss_cr3 :: u32
  tss_eip :: u32
  tss_eflags :: u32
  tss_eax :: u32
  tss_ecx :: u32
  tss_edx :: u32
  tss_ebx :: u32
  tss_esp :: u32
  tss_ebp :: u32
  tss_esi :: u32
  tss_edi :: u32
  tss_es :: u32
  tss_cs :: u32
  tss_ss :: u32
  tss_ds :: u32
  tss_fs :: u32
  tss_gs :: u32
  tss_ldt :: u32
  tss_trap :: u16
  iomap_base :: u16

text \<open>
  \<open>sizeof(tss_entry_t)\<close>, the packed structure in memory, and the structure after \<open>memset\<close> with zero. \<open>address\<close> is where
  the linker has put the segment; the result of \<open>tss_init\<close> is the segment, the table and the selector that is loaded.
\<close>

definition TSS_SIZE :: nat where "TSS_SIZE = 104"

definition tss_bytes :: "tss \<Rightarrow> u8 list" where
  "tss_bytes t =
     concat (map bytes32
       [prev_tss t, tss_esp0 t, tss_ss0 t, tss_esp1 t, tss_ss1 t, tss_esp2 t,
        tss_ss2 t, tss_cr3 t, tss_eip t, tss_eflags t, tss_eax t, tss_ecx t,
        tss_edx t, tss_ebx t, tss_esp t, tss_ebp t, tss_esi t, tss_edi t,
        tss_es t, tss_cs t, tss_ss t, tss_ds t, tss_fs t, tss_gs t,
        tss_ldt t]) @
     bytes16 (tss_trap t) @ bytes16 (iomap_base t)"

definition cleared_tss :: tss where
  "cleared_tss = \<lparr>prev_tss = 0, tss_esp0 = 0, tss_ss0 = 0, tss_esp1 = 0, tss_ss1 = 0, tss_esp2 = 0,
     tss_ss2 = 0, tss_cr3 = 0, tss_eip = 0, tss_eflags = 0, tss_eax = 0, tss_ecx = 0,
     tss_edx = 0, tss_ebx = 0, tss_esp = 0, tss_ebp = 0, tss_esi = 0, tss_edi = 0,
     tss_es = 0, tss_cs = 0, tss_ss = 0, tss_ds = 0, tss_fs = 0, tss_gs = 0,
     tss_ldt = 0,
     tss_trap = 0, iomap_base = 0\<rparr>"

definition tss_init :: "nat \<Rightarrow> u32 \<Rightarrow> u32 \<Rightarrow> u32 \<Rightarrow> tss \<Rightarrow> gdt_entry list \<Rightarrow> tss \<times> gdt_entry list \<times> u16" where
  "tss_init idx kss kesp address entry gdt =
     (let entry = cleared_tss;
          entry = entry\<lparr>tss_ss0 := kss\<rparr>;
          entry = entry\<lparr>tss_esp0 := kesp\<rparr>;
          entry = entry\<lparr>iomap_base := of_nat TSS_SIZE\<rparr>;
          base = address;
          limit = of_nat TSS_SIZE - 1
      in (entry, gdt_set_gate idx base limit 0x89 0x00 gdt, of_nat (idx * 8)))"

definition tss_set_stack :: "u32 \<Rightarrow> u32 \<Rightarrow> tss \<Rightarrow> tss" where
  "tss_set_stack kss kesp entry = entry\<lparr>tss_ss0 := kss, tss_esp0 := kesp\<rparr>"

text \<open>The entry that \<open>gdt_set_gate\<close> stores.\<close>

definition gate :: "u32 \<Rightarrow> u32 \<Rightarrow> u8 \<Rightarrow> u8 \<Rightarrow> gdt_entry" where
  "gate base limit acc gran = gdt_set_gate 0 base limit acc gran
     [\<lparr>limit_low = 0, base_low = 0, base_middle = 0, access = 0, granularity = 0, base_high = 0\<rparr>] ! 0"

section \<open>Specification: what the processor reads from a descriptor\<close>

definition seg_base :: "gdt_entry \<Rightarrow> nat" where
  "seg_base e = unat (base_low e) + 65536 * unat (base_middle e) + 16777216 * unat (base_high e)"

definition raw_limit :: "gdt_entry \<Rightarrow> nat" where
  "raw_limit e = unat (limit_low e) + 65536 * (unat (granularity e) mod 16)"

text \<open>The last byte of the segment: with the granularity bit the limit counts pages.\<close>

definition seg_limit :: "gdt_entry \<Rightarrow> nat" where
  "seg_limit e = (if bit (granularity e) 7 then raw_limit e * 4096 + 4095 else raw_limit e)"

definition privilege :: "gdt_entry \<Rightarrow> nat" where
  "privilege e = unat (access e) div 32 mod 4"

definition seg_present :: "gdt_entry \<Rightarrow> bool" where
  "seg_present e \<longleftrightarrow> bit (access e) 7"

definition code_or_data :: "gdt_entry \<Rightarrow> bool" where
  "code_or_data e \<longleftrightarrow> bit (access e) 4"

definition executable :: "gdt_entry \<Rightarrow> bool" where
  "executable e \<longleftrightarrow> bit (access e) 3"

section \<open>Lemmas\<close>

lemma ucast_masks:
  "unat (ucast (w AND 0xFFFF) :: u16) = unat (w :: u32) mod 65536"
  "unat (ucast (drop_bit 16 w AND 0xFF) :: u8) = unat w div 65536 mod 256"
  "unat (ucast (drop_bit 24 w AND 0xFF) :: u8) = unat w div 16777216"
proof -
  have m: "w AND 0xFFFF = take_bit 16 w" "drop_bit 16 w AND 0xFF = take_bit 8 (drop_bit 16 w)" "drop_bit 24 w AND 0xFF = take_bit 8 (drop_bit 24 w)"
    for w :: u32 using take_bit_eq_mask [of 16 w] take_bit_eq_mask [of 8 "drop_bit 16 w"] take_bit_eq_mask [of 8 "drop_bit 24 w"]
    by (simp_all add: mask_eq_exp_minus_1)
  show "unat (ucast (w AND 0xFFFF) :: u16) = unat (w :: u32) mod 65536"
    unfolding m by (simp add: unsigned_ucast_eq unsigned_take_bit_eq take_bit_eq_mod unat_mod)
  show "unat (ucast (drop_bit 16 w AND 0xFF) :: u8) = unat w div 65536 mod 256"
    unfolding m by (simp add: unsigned_ucast_eq unsigned_take_bit_eq unsigned_drop_bit_eq take_bit_eq_mod drop_bit_eq_div unat_mod unat_div)
  have "unat w div 16777216 < 256" using unat_u32_less [of w] by (simp add: less_mult_imp_div_less)
  then show "unat (ucast (drop_bit 24 w AND 0xFF) :: u8) = unat w div 16777216"
    unfolding m by (simp add: unsigned_ucast_eq unsigned_take_bit_eq unsigned_drop_bit_eq take_bit_eq_mod drop_bit_eq_div unat_mod unat_div)
qed

lemma set_gate: "gdt_set_gate n base limit acc gran gdt = gdt[n := gate base limit acc gran]"
  by (simp add: gate_def gdt_set_gate_def)

lemma granularity_bits:
  fixes limit :: u32 and gran :: u8
  defines "g \<equiv> ucast (drop_bit 16 limit AND 0x0F) OR (gran AND 0xF0)"
  shows "unat g mod 16 = unat limit div 65536 mod 16" and "bit g 7 = bit gran 7"
proof -
  have m: "0x0F = (mask 4 :: u32)" "0xF0 = (push_bit 4 (mask 4) :: u8)" by (simp_all add: mask_eq_exp_minus_1 push_bit_eq_mult)
  have "take_bit 4 g = (ucast (take_bit 4 (drop_bit 16 limit)) :: u8)"
    unfolding g_def m by (rule bit_word_eqI) (auto simp: bit_simps)
  then have "unat (take_bit 4 g) = unat (ucast (take_bit 4 (drop_bit 16 limit)) :: u8)" by simp
  then show "unat g mod 16 = unat limit div 65536 mod 16"
    by (simp add: unsigned_take_bit_eq unsigned_ucast_eq take_bit_eq_mod drop_bit_eq_div unat_mod unat_div)
  show "bit g 7 = bit gran 7" unfolding g_def m by (auto simp: bit_simps)
qed

lemma gate_decodes:
  "seg_base (gate base limit acc gran) = unat base"
  "raw_limit (gate base limit acc gran) = unat limit mod 1048576"
  "bit (granularity (gate base limit acc gran)) 7 = bit gran 7"
  "access (gate base limit acc gran) = acc"
proof -
  have "unat base mod 65536 + 65536 * (unat base div 65536 mod 256) + 16777216 * (unat base div 65536 div 256) = unat base"
    using div_mult_mod_eq [of "unat base" 65536] div_mult_mod_eq [of "unat base div 65536" 256] by linarith
  then show "seg_base (gate base limit acc gran) = unat base"
    by (simp add: seg_base_def gate_def gdt_set_gate_def ucast_masks [unfolded] div_mult2_eq [symmetric])
  have "unat limit mod 1048576 = 65536 * (unat limit div 65536 mod 16) + unat limit mod 65536"
    using mod_mult2_eq [of "unat limit" 65536 16] by simp
  then show "raw_limit (gate base limit acc gran) = unat limit mod 1048576"
    unfolding raw_limit_def gate_def gdt_set_gate_def by (simp add: ucast_masks granularity_bits)
  show "bit (granularity (gate base limit acc gran)) 7 = bit gran 7" "access (gate base limit acc gran) = acc"
    unfolding gate_def gdt_set_gate_def by (simp_all add: granularity_bits)
qed

text \<open>Where the processor finds the fields that the kernel sets.\<close>

lemma tss_bytes_fields:
  "length (tss_bytes t) = TSS_SIZE" "load32 (tss_bytes t) 4 = tss_esp0 t" "load32 (tss_bytes t) 8 = tss_ss0 t"
  "load16 (tss_bytes t) 102 = iomap_base t"
  by (simp_all add: TSS_SIZE_def tss_bytes_def load32_def load16_def bytes32_def bytes16_def nth_append nth_Cons' layout_simps)

section \<open>Properties\<close>

text \<open>
  After \<open>gdt_init\<close> and \<open>tss_init\<close> the processor is given the whole table, which describes flat 4 GB code and data segments for ring 0 and
  ring 3 at the selectors the kernel uses, entry 5 describes exactly the 104 bytes of the task state
  segment, in which the processor finds the kernel stack and the I/O map base, also after a later
  \<open>tss_set_stack\<close>, and the null entry is not present.
\<close>

theorem segments_set_up:
  assumes "length gdt = 6"
  shows "let (ptr, gdt0) = gdt_init entries gdt; (tss', gdt', selector) = tss_init 5 0x10 kesp address tss gdt0 in
    gp_base ptr = entries \<and> unat (gp_limit ptr) + 1 = 8 * length gdt' \<and>
    (\<forall>i \<in> {1..4}. seg_base (gdt' ! i) = 0 \<and> seg_limit (gdt' ! i) = 4294967295 \<and> seg_present (gdt' ! i) \<and> code_or_data (gdt' ! i) \<and>
       executable (gdt' ! i) = odd i \<and> privilege (gdt' ! i) = (if i \<le> 2 then 0 else 3)) \<and>
    \<not> seg_present (gdt' ! 0) \<and>
    seg_base (gdt' ! 5) = unat address \<and> seg_limit (gdt' ! 5) = length (tss_bytes tss') - 1 \<and> seg_present (gdt' ! 5) \<and>
    \<not> code_or_data (gdt' ! 5) \<and> privilege (gdt' ! 5) = 0 \<and> selector = 5 * 8 \<and>
    load32 (tss_bytes tss') 4 = kesp \<and> load32 (tss_bytes tss') 8 = 0x10 \<and> load16 (tss_bytes tss') 102 = 104 \<and>
    load32 (tss_bytes (tss_set_stack kss esp tss')) 4 = esp \<and> load32 (tss_bytes (tss_set_stack kss esp tss')) 8 = kss \<and>
    load16 (tss_bytes (tss_set_stack kss esp tss')) 102 = 104"
proof -
  define tss' where "tss' = cleared_tss\<lparr>tss_ss0 := 0x10, tss_esp0 := kesp, iomap_base := 104\<rparr>"
  define G where "G = [gate 0 0 0 0, gate 0 0xFFFFFFFF 0x9A 0xCF, gate 0 0xFFFFFFFF 0x92 0xCF, gate 0 0xFFFFFFFF 0xFA 0xCF,
    gate 0 0xFFFFFFFF 0xF2 0xCF, gate address 103 0x89 0]"
  obtain e0 e1 e2 e3 e4 e5 where gdt: "gdt = [e0, e1, e2, e3, e4, e5]"
    using assms by (auto simp: length_Suc_conv numeral_eq_Suc)
  have init: "gdt_init entries gdt = (\<lparr>gp_limit = 47, gp_base = entries\<rparr>, take 5 G @ [e5])"
    "tss_init 5 0x10 kesp address tss (take 5 G @ [e5]) = (tss', G, 40)"
    unfolding tss_init_def gdt_init_def Let_def set_gate gdt tss'_def G_def by (simp_all add: TSS_SIZE_def)
  have t: "tss_esp0 tss' = kesp" "tss_ss0 tss' = 0x10" "iomap_base tss' = 104" by (simp_all add: tss'_def)
  have "seg_base (G ! 5) = unat address \<and> seg_limit (G ! 5) = TSS_SIZE - 1 \<and> seg_present (G ! 5) \<and> \<not> code_or_data (G ! 5) \<and> privilege (G ! 5) = 0"
    by (simp add: G_def gate_decodes seg_limit_def seg_present_def code_or_data_def privilege_def TSS_SIZE_def)
  moreover have "\<not> seg_present (G ! 0)" by (simp add: G_def gate_decodes seg_present_def)
  moreover have "\<forall>i \<in> {1..4}. seg_base (G ! i) = 0 \<and> seg_limit (G ! i) = 4294967295 \<and> seg_present (G ! i) \<and> code_or_data (G ! i) \<and>
       executable (G ! i) = odd i \<and> privilege (G ! i) = (if i \<le> 2 then 0 else 3)"
  proof
    fix i :: nat assume "i \<in> {1..4}"
    then consider "i = 1" | "i = 2" | "i = 3" | "i = 4" by force
    then show "seg_base (G ! i) = 0 \<and> seg_limit (G ! i) = 4294967295 \<and> seg_present (G ! i) \<and> code_or_data (G ! i) \<and>
       executable (G ! i) = odd i \<and> privilege (G ! i) = (if i \<le> 2 then 0 else 3)"
      by cases (simp_all add: G_def gate_decodes seg_limit_def seg_present_def code_or_data_def privilege_def executable_def)
  qed
  moreover have "length G = 6" by (simp add: G_def)
  ultimately show ?thesis unfolding init Let_def prod.case using t by (simp add: tss_bytes_fields tss_set_stack_def)
qed

theorem segments_set_up_witness:
  "let (tss', gdt', selector) = tss_init 5 0x10 0x90000 0x105000 cleared_tss (snd (gdt_init 0x106000 (replicate 6 (gate 0 0 0 0)))) in
     seg_base (gdt' ! 5) = 0x105000 \<and> selector = 0x28 \<and> load32 (tss_bytes tss') 4 = 0x90000"
  using segments_set_up [of "replicate 6 (gate 0 0 0 0)" "0x106000" "0x90000" "0x105000" cleared_tss] by (auto simp: split_beta Let_def)

end
