(* ===== verification/Pci.thy ===== *)
theory Pci
  imports Prelude
begin

text \<open>
  The scan of the PCI bus for the network card (\<open>src/kernel/drivers/pci.c\<close>). The configuration
  space belongs to the devices: \<open>config\<close> gives the 32-bit value read back after an address was
  written to the address port.
\<close>

unbundle bit_operations_syntax

section \<open>Reading the configuration space\<close>

definition pci_read_long :: "(u32 \<Rightarrow> u32) \<Rightarrow> u16 \<Rightarrow> u16 \<Rightarrow> u16 \<Rightarrow> u16 \<Rightarrow> u32" where
  "pci_read_long config bus slot func offset =
     config (push_bit 16 (ucast bus) OR push_bit 11 (ucast slot) OR push_bit 8 (ucast func) OR
       (ucast offset AND 0xFC) OR 0x80000000)"

definition pci_read_word :: "(u32 \<Rightarrow> u32) \<Rightarrow> u16 \<Rightarrow> u16 \<Rightarrow> u16 \<Rightarrow> u16 \<Rightarrow> u16" where
  "pci_read_word config bus slot func offset =
     (let reg = pci_read_long config bus slot func offset
      in ucast (drop_bit (unat ((offset AND 2) * 8)) reg AND 0xFFFF))"

section \<open>Looking for the card\<close>

definition pci_find_rtl8139 :: "(u32 \<Rightarrow> u32) \<Rightarrow> u32" where
  "pci_find_rtl8139 config =
     (case
       for_each (\<lambda>bus. for_each (\<lambda>slot (_ :: unit).
            if pci_read_word config (of_nat bus) (of_nat slot) 0 0 = 0x10EC then
              (if pci_read_word config (of_nat bus) (of_nat slot) 0 2 = 0x8139
               then Done (pci_read_long config (of_nat bus) (of_nat slot) 0 0x10 AND NOT 1)
               else Go ())
            else Go ())
          [0..<32]) [0..<256] () of
        Done r \<Rightarrow> r
      | Go _ \<Rightarrow> 0)"

section \<open>Specification\<close>

text \<open>The card is function 0 of a slot; its address comes from the first base address register.\<close>

definition is_rtl8139 :: "(u32 \<Rightarrow> u32) \<Rightarrow> nat \<times> nat \<Rightarrow> bool" where
  "is_rtl8139 config d \<longleftrightarrow> pci_read_word config (of_nat (fst d)) (of_nat (snd d)) 0 0 = 0x10EC \<and>
     pci_read_word config (of_nat (fst d)) (of_nat (snd d)) 0 2 = 0x8139"

definition all_slots :: "(nat \<times> nat) list" where
  "all_slots = concat (map (\<lambda>bus. map (Pair bus) [0..<32]) [0..<256])"

section \<open>Lemmas\<close>

lemma pci_find_first:
  "pci_find_rtl8139 config = (case find (is_rtl8139 config) all_slots of
     Some d \<Rightarrow> pci_read_long config (of_nat (fst d)) (of_nat (snd d)) 0 0x10 AND NOT 1
   | None \<Rightarrow> 0)"
proof -
  let ?h = "\<lambda>d. pci_read_long config (of_nat (fst d)) (of_nat (snd d)) 0 0x10 AND NOT 1"
  let ?f = "\<lambda>d (_ :: unit). if is_rtl8139 config d then Done (?h d) else Go ()"
  have e: "(\<lambda>slot (_ :: unit). if pci_read_word config (of_nat bus) (of_nat slot) 0 0 = 0x10EC then
              (if pci_read_word config (of_nat bus) (of_nat slot) 0 2 = 0x8139
               then Done (pci_read_long config (of_nat bus) (of_nat slot) 0 0x10 AND NOT 1)
               else Go ())
            else Go ()) = (\<lambda>slot. ?f (bus, slot))" for bus
    by (intro ext) (simp add: is_rtl8139_def)
  have "pci_find_rtl8139 config = (case for_each ?f all_slots () of Done r \<Rightarrow> r | Go _ \<Rightarrow> 0)"
    unfolding pci_find_rtl8139_def e all_slots_def for_each_concat for_each_map for_each_map_fun ..
  also have "for_each ?f all_slots () = (case find (is_rtl8139 config) all_slots of Some d \<Rightarrow> Done (?h d) | None \<Rightarrow> Go ())"
    by (rule for_each_find)
  finally show ?thesis by (simp split: option.split)
qed

text \<open>The device found is one of those that the configuration space shows.\<close>

lemma pci_find_some:
  assumes "pci_find_rtl8139 config \<noteq> 0"
  obtains bus slot where "bus < 256" "slot < 32" "is_rtl8139 config (bus, slot)"
    "pci_find_rtl8139 config = pci_read_long config (of_nat bus) (of_nat slot) 0 0x10 AND NOT 1"
proof -
  obtain d where d: "find (is_rtl8139 config) all_slots = Some d"
    using assms unfolding pci_find_first by (cases "find (is_rtl8139 config) all_slots") auto
  then have m: "d \<in> set all_slots" "is_rtl8139 config d" by (auto simp: find_Some_iff)
  then obtain bus slot where "d = (bus, slot)" "bus < 256" "slot < 32" by (auto simp: all_slots_def)
  then show thesis using that m(2) d unfolding pci_find_first by simp
qed

end
