(* ===== verification/Kernel_State.thy ===== *)
theory Kernel_State
  imports Net_Any Process Vector Gdt Pci
begin

text \<open>
  The state of the whole kernel: the components of the other theories over one memory and one heap.
  What a component prints goes to the console; the keyboard and the network card are the scancodes
  and the register values that they will deliver.
\<close>

section \<open>State\<close>

text \<open>
  \<open>mach\<close> holds the heap, the file system and the page tables; the heap field of \<open>netw\<close> is not used, the
  network stack runs on the heap of \<open>mach\<close>. \<open>keys\<close> are the scancodes to come, and each element of \<open>polls\<close>
  what the card does during one call of \<open>rtl8139_poll\<close>.
\<close>

record kernel =
  mach :: machine
  con :: console
  netw :: net
  apps_vector :: vector
  gdt_table :: "gdt_entry list"
  gdt_pointer :: gdt_ptr
  tss_entry :: tss
  keys :: "u8 list"
  polls :: "(u8 \<times> (u32 \<times> u8) list) list list"

abbreviation kheap_of :: "kernel \<Rightarrow> kheap" where
  "kheap_of k \<equiv> vheap (mvfs (mach k))"

abbreviation kram :: "kernel \<Rightarrow> u32 \<Rightarrow> u8" where
  "kram k \<equiv> ram (kheap_of k)"

abbreviation kfat :: "kernel \<Rightarrow> fat_state" where
  "kfat k \<equiv> vfat (mvfs (mach k))"

definition set_heap :: "kheap \<Rightarrow> kernel \<Rightarrow> kernel" where
  "set_heap h k = k\<lparr>mach := (mach k)\<lparr>mvfs := (mvfs (mach k))\<lparr>vheap := h\<rparr>\<rparr>\<rparr>"

section \<open>Output and input\<close>

definition kprint :: "u8 list \<Rightarrow> kernel \<Rightarrow> kernel" where
  "kprint str k = k\<lparr>con := Console.console_print str (con k)\<rparr>"

definition kputchar :: "u8 \<Rightarrow> kernel \<Rightarrow> kernel" where
  "kputchar c k = k\<lparr>con := console_putchar c (con k)\<rparr>"

definition kprintf :: "u8 list \<Rightarrow> va_value list \<Rightarrow> kernel \<Rightarrow> kernel option" where
  "kprintf fmt args k = map_option (\<lambda>c. k\<lparr>con := c\<rparr>) (console_printf fmt args (con k))"

definition kread_line :: "u8 list \<Rightarrow> int \<Rightarrow> kernel \<Rightarrow> (u8 list \<times> kernel) option" where
  "kread_line buffer max_len k =
     map_option (\<lambda>(buffer, scs, c). (buffer, k\<lparr>keys := scs, con := c\<rparr>)) (console_read_line buffer max_len (keys k) (con k))"

section \<open>Calls of the components\<close>

text \<open>
  A call of a component that prints runs with an empty output, which the console then shows. The
  pages of the kernel are mapped to the frames of the same number, so a component that reads or
  writes memory does so in the memory of the heap.
\<close>

definition on_vfs :: "(vfs \<Rightarrow> vfs option) \<Rightarrow> kernel \<Rightarrow> kernel option" where
  "on_vfs f k =
     map_option (\<lambda>v. kprint (fat_state.tty (vfat v)) (k\<lparr>mach := (mach k)\<lparr>mvfs := v\<rparr>\<rparr>))
       (f ((mvfs (mach k))\<lparr>vfat := fat_state.tty_update (\<lambda>_. []) (kfat k)\<rparr>))"

definition on_net :: "(net \<Rightarrow> net option) \<Rightarrow> kernel \<Rightarrow> kernel option" where
  "on_net f k =
     map_option (\<lambda>n. kprint (net.tty n) (set_heap (heap n) (k\<lparr>netw := n\<rparr>)))
       (f (net.tty_update (\<lambda>_. []) ((netw k)\<lparr>heap := kheap_of k\<rparr>)))"

definition kpoll :: "kernel \<Rightarrow> kernel option" where
  "kpoll k = (case polls k of [] \<Rightarrow> None | p # ps \<Rightarrow> on_net (rtl8139_poll p) (k\<lparr>polls := ps\<rparr>))"

section \<open>Lemmas\<close>

lemma read_line_loop_shorter:
  "read_line_loop max_len idx buffer scs s = Some (b, scs', s') \<Longrightarrow> length scs' < length scs"
proof (induction max_len idx buffer scs s rule: read_line_loop.induct)
  case (1 max_len idx buffer scs s)
  show ?case
  proof (cases "console_get_char scs s")
    case None
    then show ?thesis using 1(5) by (simp add: read_line_loop.simps [of max_len idx buffer scs s])
  next
    case (Some r)
    obtain c scs1 s1 where r: "r = (c, scs1, s1)" by (cases r)
    have g: "console_get_char scs s = Some (c, scs1, s1)" using Some r by simp
    have "length scs' < length scs1 \<or> scs' = scs1"
      using 1(5) 1(1-4) [OF g refl refl] by (simp add: read_line_loop.simps [of max_len idx buffer scs s] g split: if_splits)
    then show ?thesis using get_char_shorter [OF g] by auto
  qed
qed

lemma kread_line_shorter: "kread_line buffer max_len k = Some (b, k') \<Longrightarrow> length (keys k') < length (keys k)"
  unfolding kread_line_def console_read_line_def using read_line_loop_shorter by fastforce

lemma keys_simps [simp]: "keys (kprint str k) = keys k" "keys (kputchar c k) = keys k" "keys (set_heap h k) = keys k"
  by (simp_all add: kprint_def kputchar_def set_heap_def)

lemma set_heap_simps [simp]:
  "kheap_of (set_heap h k) = h" "con (set_heap h k) = con k" "netw (set_heap h k) = netw k" "apps_vector (set_heap h k) = apps_vector k"
  "kfat (set_heap h k) = kfat k" "mpaging (mach (set_heap h k)) = mpaging (mach k)" "polls (set_heap h k) = polls k"
  "nodes (mvfs (mach (set_heap h k))) = nodes (mvfs (mach k))" "gdt_table (set_heap h k) = gdt_table k" "tss_entry (set_heap h k) = tss_entry k"
  by (simp_all add: set_heap_def)

lemma kprint_simps [simp]:
  "mach (kprint cs k) = mach k" "netw (kprint cs k) = netw k" "apps_vector (kprint cs k) = apps_vector k" "polls (kprint cs k) = polls k"
  by (simp_all add: kprint_def)

lemma shift_kprint [simp]: "shift_pressed (con (kprint cs k)) = shift_pressed (con k)"
  by (simp add: kprint_def shift_print_same)

lemma kprint_append: "kprint cs (kprint ds k) = kprint (ds @ cs) k"
  by (simp add: kprint_def Console.console_print_def)

lemma fold_kputchar: "fold kputchar cs k = kprint cs k"
  by (induction cs arbitrary: k) (simp_all add: kputchar_def kprint_def Console.console_print_def)

lemma kpoll_idle:
  assumes "polls k = [(cmd, [])] # ps" and "cmd AND 1 \<noteq> 0"
  shows "\<exists>n. kpoll k = Some (k\<lparr>polls := ps, netw := n\<rparr>)"
  using assms unfolding kpoll_def on_net_def
  by (simp add: set_mem_def kprint_def Console.console_print_def set_heap_def Let_def) (metis)

lemma kread_line_keeps:
  assumes "kread_line input n k = Some (input', k')"
  shows "mach k' = mach k \<and> netw k' = netw k \<and> apps_vector k' = apps_vector k \<and> polls k' = polls k \<and> (console_ok (con k) \<longrightarrow> console_ok (con k'))"
proof -
  obtain scs c where r: "console_read_line input n (keys k) (con k) = Some (input', scs, c)" "k' = k\<lparr>keys := scs, con := c\<rparr>"
    using assms by (auto simp: kread_line_def)
  have "console_ok s' \<longrightarrow> console_ok c'" if "read_line_loop m i b scs s' = Some (b', scs', c')" for m i b scs s' b' scs' c'
    using that
  proof (induction m i b scs s' rule: read_line_loop.induct)
    case (1 m i b scs s)
    obtain ch scs1 s1 where g: "console_get_char scs s = Some (ch, scs1, s1)"
      using 1(5) by (cases "console_get_char scs s") (auto simp: read_line_loop.simps [of m i b scs s])
    have k1: "console_ok s \<longrightarrow> console_ok s1" using get_char_typed [of s scs] g
      by (cases "typed (shift_pressed s) scs") (auto simp: console_ok_def)
    show ?case
      using 1(5) 1(1-4) [OF g refl refl] k1 putchar_ok by (auto simp: read_line_loop.simps [of m i b scs s] g split: if_splits)
  qed
  then show ?thesis using r by (auto simp: console_read_line_def)
qed

lemma kread_typed:
  assumes "typed (shift_pressed (con k)) (keys k) = line @ 0x0A # rest" and "0x0A \<notin> set line" and "0x08 \<notin> set line"
    and "length line < 64" and "length input = 64"
  shows "\<exists>tail scs b. kread_line input 64 k =
      Some (line @ 0 # tail, k\<lparr>keys := scs, con := (Console.console_print (line @ [0x0A]) (con k))\<lparr>shift_pressed := b\<rparr>\<rparr>) \<and>
    typed b scs = rest \<and> length (line @ 0 # tail) = 64"
proof -
  have e: "edit 63 [] line = line" "echo 63 0 line = line" using edit_plain [of line "[]" 63] echo_plain [of line 0 63] assms(3,4) by simp_all
  have "\<exists>buffer' scs' b. read_line_loop (int 63 + 1) (int (length ([] :: u8 list))) input (keys k) (con k) =
      Some (buffer', scs', (Console.console_print (echo 63 (length ([] :: u8 list)) line @ [0x0A]) (con k))\<lparr>shift_pressed := b\<rparr>) \<and>
    typed b scs' = rest \<and> length buffer' = length input \<and> take (length (edit 63 [] line) + 1) buffer' = edit 63 [] line @ [0] \<and> length (edit 63 [] line) \<le> 63"
    by (rule read_line_loop_edits [OF assms(1,2)]) (use assms(5) in simp_all)
  then obtain buffer' scs' b where r: "read_line_loop 64 0 input (keys k) (con k) =
      Some (buffer', scs', (Console.console_print (line @ [0x0A]) (con k))\<lparr>shift_pressed := b\<rparr>)"
    "typed b scs' = rest" "length buffer' = 64" "take (length line + 1) buffer' = line @ [0]"
    using assms(5) e by auto
  have "buffer' = line @ 0 # drop (length line + 1) buffer'"
    using r(4) append_take_drop_id [of "length line + 1" buffer'] by (metis append.assoc append_Cons append_Nil)
  moreover have "kread_line input 64 k = Some (buffer', k\<lparr>keys := scs', con := (Console.console_print (line @ [0x0A]) (con k))\<lparr>shift_pressed := b\<rparr>\<rparr>)"
    unfolding kread_line_def console_read_line_def using r(1) by simp
  ultimately show ?thesis using r(2,3) by metis
qed

end
