(* ===== verification/Apps.thy ===== *)
theory Apps
  imports Kernel_State "HOL-Library.Signed_Division"
begin

text \<open>
  The applications of the shell (\<open>src/apps\<close>). An application gets the strings of \<open>argv\<close>; \<open>None\<close> stands for a run that
  does not return, also one that waits for input that never comes. Local variables that C does not initialise are
  arguments.
\<close>

unbundle bit_operations_syntax

section \<open>Interactive applications\<close>

definition is_exit :: "u8 list \<Rightarrow> bool" where
  "is_exit input \<longleftrightarrow> cget input 0 = 0x65 \<and> cget input 1 = 0x78 \<and> cget input 2 = 0x69 \<and> cget input 3 = 0x74"

function hello_loop :: "u8 list \<Rightarrow> kernel \<Rightarrow> kernel option" where
  "hello_loop input k =
     (case kread_line input 64 k of
        None \<Rightarrow> None
      | Some (input, k') \<Rightarrow>
          if is_exit input then Some k'
          else hello_loop input (kprint [0x0A] (kprint (cstr_of input) (kprint (cstr ''You typed: '') k'))))"
  by auto
termination
  by (relation "measure (\<lambda>(input, k). length (keys k))") (auto dest: kread_line_shorter)

definition hello_app :: "u8 list \<Rightarrow> kernel \<Rightarrow> kernel option" where
  "hello_app input k =
     hello_loop input (kprint (cstr ''Type something or 'exit' to leave.'' @ [0x0A]) (kprint (cstr ''Hello App'' @ [0x0A]) k))"

function digits_end :: "u8 list \<Rightarrow> nat \<Rightarrow> nat" where
  "digits_end input op_ptr =
     (if cget input op_ptr \<noteq> 0 \<and> 0x30 \<le> cget input op_ptr \<and> cget input op_ptr \<le> 0x39
      then digits_end input (op_ptr + 1) else op_ptr)"
  by auto
termination
proof (relation "measure (\<lambda>(input, ptr). length input - ptr)")
  fix input :: "u8 list" and op_ptr
  assume "cget input op_ptr \<noteq> 0 \<and> 0x30 \<le> cget input op_ptr \<and> cget input op_ptr \<le> 0x39"
  then have "op_ptr < length input" using cget_nonzero_less [of input op_ptr] by simp
  then show "((input, op_ptr + 1), (input, op_ptr)) \<in> measure (\<lambda>(input, ptr). length input - ptr)" by auto
qed simp

text \<open>
  The value of one line; \<open>None\<close> is a number or a result that does not fit an \<open>int\<close>, which C leaves
  undefined.
\<close>

definition calculate :: "u8 list \<Rightarrow> u32 option" where
  "calculate input =
     Option.bind (atoi (cstr_of input))
       (\<lambda>a. let op_ptr = digits_end input 0;
                op = cget input op_ptr
            in Option.bind (atoi (cstr_of (drop (op_ptr + 1) input)))
                 (\<lambda>b. if op = 0x2B then s32 (sint a + sint b)
                      else if op = 0x2D then s32 (sint a - sint b)
                      else if op = 0x2A then s32 (sint a * sint b)
                      else if op = 0x2F then (if b = 0 then Some 0 else s32 (sint a sdiv sint b))
                      else Some 0))"

text \<open>The characters of \<open>buf\<close>, least significant digit first; \<open>temp\<close> is not negative where it is divided.\<close>

function calc_digits :: "u32 \<Rightarrow> u8 list" where
  "calc_digits temp = (if 0 < sint temp then ucast (0x30 + temp mod 10) # calc_digits (temp div 10) else [])"
  by auto
termination
proof (relation "measure unat")
  fix temp :: u32 assume "0 < sint temp"
  then have "temp \<noteq> 0" by auto
  then show "(temp div 10, temp) \<in> measure unat" by (simp add: unat_div unat_gt_0 div_less_dividend)
qed simp

declare calc_digits.simps [simp del]

definition calc_print :: "u32 \<Rightarrow> kernel \<Rightarrow> kernel option" where
  "calc_print result k =
     (let k = kprint (cstr ''= '') k
      in if result = 0 then Some (kprint [0x0A, 0x0A] (kputchar 0x30 k))
         else
           map_option (\<lambda>(temp, k). kprint [0x0A, 0x0A] (fold kputchar (rev (calc_digits temp)) k))
             (if sint result < 0 then map_option (\<lambda>temp. (temp, kputchar 0x2D k)) (s32 (- sint result))
              else Some (result, k)))"

lemma keys_calc_print: "calc_print result k = Some k' \<Longrightarrow> keys k' = keys k"
proof -
  have "keys (fold kputchar cs k) = keys k" for cs k by (induction cs arbitrary: k) simp_all
  then show "calc_print result k = Some k' \<Longrightarrow> keys k' = keys k"
    by (auto simp: calc_print_def Let_def split: if_splits)
qed

function calc_loop :: "u8 list \<Rightarrow> kernel \<Rightarrow> kernel option" where
  "calc_loop input k =
     (case kread_line input 64 k of
        None \<Rightarrow> None
      | Some (input, k') \<Rightarrow>
          if is_exit input then Some k'
          else
            (case calculate input of
               None \<Rightarrow> None
             | Some result \<Rightarrow> (case calc_print result k' of None \<Rightarrow> None | Some k'' \<Rightarrow> calc_loop input k'')))"
  by auto
termination
  by (relation "measure (\<lambda>(input, k). length (keys k))") (auto dest: kread_line_shorter simp: keys_calc_print)

definition calculator_app :: "u8 list \<Rightarrow> kernel \<Rightarrow> kernel option" where
  "calculator_app input k =
     calc_loop input (kprint (cstr ''Example: 12+5'' @ [0x0A, 0x0A]) (kprint (cstr ''Calculator App'' @ [0x0A]) k))"

declare hello_loop.simps [simp del] digits_end.simps [simp del] calc_loop.simps [simp del]

section \<open>File commands\<close>

definition clear_app :: "kernel \<Rightarrow> kernel" where
  "clear_app k = k\<lparr>con := console_clear (con k)\<rparr>"

definition ls_app :: "kernel \<Rightarrow> kernel option" where
  "ls_app = on_vfs vfs_ls"

definition cat_app :: "u8 list list \<Rightarrow> kernel \<Rightarrow> kernel option" where
  "cat_app argv k =
     (if length argv < 2 then Some (kprint (cstr ''Usage: cat <filename>'' @ [0x0A]) k)
      else on_vfs (vfs_cat (argv ! 1)) k)"

definition write_app :: "u8 list list \<Rightarrow> kernel \<Rightarrow> kernel option" where
  "write_app argv k =
     (if length argv < 3 then Some (kprint (cstr ''Usage: write <filename> <content>'' @ [0x0A]) k)
      else
        (let filename = argv ! 1; content = argv ! 2; sz = strlen content
         in map_option (kprint (cstr ''File written successfully!'' @ [0x0A])) (on_vfs (vfs_write_temp filename content sz) k)))"

definition rm_app :: "u8 list list \<Rightarrow> kernel \<Rightarrow> kernel option" where
  "rm_app argv k =
     (if length argv < 2 then Some (kprint (cstr ''Usage: rm <filename>'' @ [0x0A]) k)
      else map_option (kprint (cstr ''File deleted successfully!'' @ [0x0A])) (on_vfs (vfs_rm (argv ! 1)) k))"

definition disk_usage_app :: "kernel \<Rightarrow> kernel option" where
  "disk_usage_app = on_vfs vfs_usage"

definition mkdir_app :: "u8 list list \<Rightarrow> kernel \<Rightarrow> kernel option" where
  "mkdir_app argv k =
     (if length argv < 2 then Some (kprint (cstr ''Usage: mkdir <dirname>'' @ [0x0A]) k)
      else on_vfs (vfs_create_directory (argv ! 1)) k)"

definition rmdir_app :: "u8 list list \<Rightarrow> kernel \<Rightarrow> kernel option" where
  "rmdir_app argv k =
     (if length argv < 2 then Some (kprint (cstr ''Usage: rmdir <dirname>'' @ [0x0A]) k)
      else on_vfs (vfs_rmdir (argv ! 1)) k)"

definition cd_app :: "u8 list list \<Rightarrow> kernel \<Rightarrow> kernel option" where
  "cd_app argv k =
     (if length argv < 2 then Some (kprint (cstr ''Usage: cd <path>'' @ [0x0A]) k)
      else on_vfs (vfs_cd (argv ! 1)) k)"

definition pwd_app :: "kernel \<Rightarrow> kernel option" where
  "pwd_app = on_vfs vfs_pwd"

section \<open>Ping\<close>

text \<open>The request in the new block at \<open>temp\<close>, with the checksum over header and payload.\<close>

definition ping_payload :: "u8 list" where
  "ping_payload = cstr ''SojebOS Ping''"

definition ping_request :: "u32 \<Rightarrow> (u32 \<Rightarrow> u8) \<Rightarrow> (u32 \<Rightarrow> u8)" where
  "ping_request temp m =
     (let ping_req = [8, 0] @ bytes16 0 @ bytes16 (bswap16 1234) @ bytes16 (bswap16 1);
          m = put_ram (temp + 8) ping_payload (put_ram temp ping_req m)
      in put_ram (temp + 2) (bytes16 (net_checksum m temp 20)) m)"

definition send_ping :: "u32 \<Rightarrow> net \<Rightarrow> net option" where
  "send_ping dest s =
     Option.bind (kmalloc 20 (heap s))
       (\<lambda>(h, temp).
          Option.bind (ipv4_send dest 1 temp 20 (set_mem (ping_request temp (ram h)) (s\<lparr>heap := h\<rparr>)))
            (\<lambda>s. map_option (\<lambda>h. s\<lparr>heap := h\<rparr>) (kfree temp (heap s))))"

primrec poll_times :: "nat \<Rightarrow> kernel \<Rightarrow> kernel option" where
  "poll_times 0 k = Some k"
| "poll_times (Suc n) k = Option.bind (kpoll k) (poll_times n)"

definition command_ping :: "u8 list list \<Rightarrow> kernel \<Rightarrow> kernel option" where
  "command_ping argv k =
     (if length argv < 2 then Some (kprint (cstr ''Usage: ping <dest_ip>'' @ [0x0A]) k)
      else
        Option.bind (parse_ip (argv ! 1))
          (\<lambda>(dest, ip). Option.bind (kprintf (cstr ''PINGing %s...'' @ [0x0A]) [StrArg (cstr_of ip)] k)
              (\<lambda>k. Option.bind (on_net (send_ping dest) k)
                (\<lambda>k. poll_times 2000 (kprint (cstr ''Packet sent. Waiting for response...'' @ [0x0A]) k)))))"

section \<open>The vector test\<close>

text \<open>\<open>at\<close> are the addresses of \<open>p1\<close>, \<open>p2\<close> and \<open>p3\<close> on the stack, \<open>points\<close> the vector before it is initialised.\<close>

definition put_points :: "(nat \<Rightarrow> u32) \<Rightarrow> (u32 \<Rightarrow> u8) \<Rightarrow> (u32 \<Rightarrow> u8)" where
  "put_points at m =
     put_ram (at 2) (bytes32 50 @ bytes32 60) (put_ram (at 1) (bytes32 30 @ bytes32 40) (put_ram (at 0) (bytes32 10 @ bytes32 20) m))"

definition push_point :: "(nat \<Rightarrow> u32) \<Rightarrow> nat \<Rightarrow> (vector option \<times> kheap) option \<Rightarrow> (vector option \<times> kheap) option" where
  "push_point at i vh = Option.bind vh (\<lambda>(v, h). map_option (\<lambda>(v, h, _). (v, h)) (vector_push_back v (at i) h))"

definition print_point :: "vector \<Rightarrow> nat \<Rightarrow> kernel option \<Rightarrow> kernel option" where
  "print_point points i k =
     Option.bind k
       (\<lambda>k. let p = vector_get (Some points) (of_nat i)
             in if p \<noteq> 0 then
                  kprintf (cstr ''Point %zu: x=%d, y=%d'' @ [0x0A])
                    [IntArg (of_nat i), IntArg (ld32 (kram k) p), IntArg (ld32 (kram k) (p + 4))] k
                else Some k)"

definition test_app :: "(nat \<Rightarrow> u32) \<Rightarrow> vector \<Rightarrow> kernel \<Rightarrow> kernel option" where
  "test_app at points k =
     Option.bind (vector_init (Some points) 2 8 (kheap_of k))
       (\<lambda>(v, h, ok).
          if ok = 0 then Some (set_heap h k)
          else
            Option.bind (fold (push_point at) [0..<3] (Some (v, h\<lparr>ram := put_points at (ram h)\<rparr>)))
              (\<lambda>(v, h). case v of
                 None \<Rightarrow> None
               | Some points \<Rightarrow>
                   Option.bind (fold (print_point points) [0..<unat (vsize points)] (Some (set_heap h k)))
                     (\<lambda>k. map_option (\<lambda>(_, h). set_heap h k) (vector_free (Some points) (kheap_of k)))))"

section \<open>The table of applications\<close>

datatype app = Hello | Calc | Clear | Ls | Cat | Write | Rm | Df | Mkdir | Rmdir | Cd | Pwd | Ping | Test

text \<open>
  What the linker and the compiler decide: the addresses of the names, of the code of the
  applications, and of the local variables \<open>new_app\<close>, \<open>p1\<close>, \<open>p2\<close> and \<open>p3\<close>.
\<close>

record image =
  literal :: "app \<Rightarrow> u32"
  entry :: "app \<Rightarrow> u32"
  new_app :: u32
  point_slot :: "nat \<Rightarrow> u32"

text \<open>What local variables contain before they are initialised, and a new node of the virtual file system.\<close>

record garbage =
  old_input :: "u8 list"
  old_points :: vector
  old_node :: vfs_node
  old_header :: "u8 list"
  old_segment :: "nat \<Rightarrow> u8 list"

definition app_table :: "(u8 list \<times> app) list" where
  "app_table =
     [(cstr ''hello'', Hello), (cstr ''calc'', Calc), (cstr ''clear'', Clear), (cstr ''ls'', Ls), (cstr ''cat'', Cat),
      (cstr ''write'', Write), (cstr ''rm'', Rm), (cstr ''df'', Df), (cstr ''mkdir'', Mkdir), (cstr ''rmdir'', Rmdir),
      (cstr ''cd'', Cd), (cstr ''pwd'', Pwd), (cstr ''ping'', Ping), (cstr ''test'', Test)]"

text \<open>A \<open>ConsoleApp\<close> in memory: the pointer to the name and the pointer to the code.\<close>

definition console_app :: "image \<Rightarrow> app \<Rightarrow> u8 list" where
  "console_app img a = bytes32 (literal img a) @ bytes32 (entry img a)"

definition register_app :: "image \<Rightarrow> u8 list \<times> app \<Rightarrow> kernel \<Rightarrow> kernel option" where
  "register_app img na k =
     (case na of (name, a) \<Rightarrow>
        (let h = (kheap_of k)\<lparr>ram := put_ram (new_app img) (console_app img a) (kram k)\<rparr>
         in Option.bind (vector_push_back (Some (apps_vector k)) (new_app img) h)
              (\<lambda>(v, h, ok).
                 let k = set_heap h (k\<lparr>apps_vector := the v\<rparr>)
                 in if ok = 0 then kprintf (cstr ''Failed to register app '' @ [0x27] @ cstr ''%s'' @ [0x27, 0x0A]) [StrArg name] k
                    else Some k)))"

definition register_all_apps :: "image \<Rightarrow> kernel \<Rightarrow> kernel option" where
  "register_all_apps img k =
     Option.bind (vector_init (Some (apps_vector k)) 16 8 (kheap_of k))
       (\<lambda>(v, h, ok).
          let k = set_heap h (k\<lparr>apps_vector := the v\<rparr>)
          in if ok = 0 then Some k
             else fold (\<lambda>na k. Option.bind k (register_app img na)) app_table (Some k))"

definition run_app :: "image \<Rightarrow> (kernel \<Rightarrow> garbage) \<Rightarrow> app \<Rightarrow> u8 list list \<Rightarrow> kernel \<Rightarrow> kernel option" where
  "run_app img G a argv k =
     (case a of
        Hello \<Rightarrow> hello_app (old_input (G k)) k
      | Calc \<Rightarrow> calculator_app (old_input (G k)) k
      | Clear \<Rightarrow> Some (clear_app k)
      | Ls \<Rightarrow> ls_app k
      | Cat \<Rightarrow> cat_app argv k
      | Write \<Rightarrow> write_app argv k
      | Rm \<Rightarrow> rm_app argv k
      | Df \<Rightarrow> disk_usage_app k
      | Mkdir \<Rightarrow> mkdir_app argv k
      | Rmdir \<Rightarrow> rmdir_app argv k
      | Cd \<Rightarrow> cd_app argv k
      | Pwd \<Rightarrow> pwd_app k
      | Ping \<Rightarrow> command_ping argv k
      | Test \<Rightarrow> test_app (point_slot img) (old_points (G k)) k)"

section \<open>Specification\<close>

text \<open>
  What the calculator computes from two numbers and an operator, as a number: the quotient is that of
  numbers that are not negative.
\<close>

definition calc_value :: "u8 \<Rightarrow> u32 \<Rightarrow> u32 \<Rightarrow> int" where
  "calc_value op a b =
     (let x = uint a; y = uint b
      in if op = 0x2B then x + y else if op = 0x2D then x - y else if op = 0x2A then x * y
         else if y = 0 then 0 else x div y)"

text \<open>The echo request that \<open>ping\<close> sends, with its checksum.\<close>

definition ping_message :: "u16 \<Rightarrow> u8 list" where
  "ping_message c = [8, 0] @ bytes16 c @ bytes16 (bswap16 1234) @ bytes16 (bswap16 1) @ cstr ''SojebOS Ping''"

section \<open>Lemmas: the calculator\<close>

lemma calc_digits_eq: "calc_digits n = pf_digits n"
proof (induction n rule: calc_digits.induct)
  case (1 n)
  then show ?case by (subst calc_digits.simps, subst pf_digits.simps) simp
qed

lemma calc_print_eq: "calc_print result k = map_option (\<lambda>ds. kprint (cstr ''= '' @ ds @ [0x0A, 0x0A]) k) (pf_int result)"
proof -
  have c: "kputchar ch j = kprint [ch] j" for ch j by (simp add: kputchar_def kprint_def Console.console_print_def)
  show ?thesis
    unfolding calc_print_def Let_def fold_kputchar c calc_digits_eq pf_int_def
    by (cases "result = 0"; cases "sint result < 0"; cases "s32 (- sint result)"; simp add: kprint_append)
qed

lemma digits_end_append:
  assumes "list_all is_digit ds" and "\<not> is_digit c"
  shows "digits_end (pre @ ds @ c # rest) (length pre) = length pre + length ds"
  using assms(1)
proof (induction ds arbitrary: pre)
  case Nil
  then show ?case using assms(2) by (subst digits_end.simps) (auto simp: cget_def is_digit_def)
next
  case (Cons d ds)
  have "digits_end (pre @ (d # ds) @ c # rest) (length pre + 1) = length pre + 1 + length ds"
    using Cons.IH [of "pre @ [d]"] Cons.prems by simp
  moreover have "cget (pre @ (d # ds) @ c # rest) (length pre) = d" by (simp add: cget_def)
  moreover have "0x30 \<le> d \<and> d \<le> 0x39" "d \<noteq> 0" using Cons.prems by (auto simp: is_digit_def)
  ultimately show ?case by (subst digits_end.simps) simp
qed

text \<open>A line of two numbers in decimal.\<close>

definition calc_line :: "u32 \<Rightarrow> u8 \<Rightarrow> u32 \<Rightarrow> u8 list" where
  "calc_line a op b = decimal a @ op # decimal b"

lemma calculate_two:
  assumes a: "0 \<le> sint a" and b: "0 \<le> sint b" and op: "op \<in> {0x2B, 0x2D, 0x2A, 0x2F}"
  shows "calculate (calc_line a op b @ 0 # rest) = s32 (calc_value op a b)"
    and "\<not> is_exit (calc_line a op b @ 0 # rest)"
proof -
  let ?in = "decimal a @ op # decimal b @ 0 # rest"
  have i: "calc_line a op b @ 0 # rest = ?in" by (simp add: calc_line_def)
  have d: "list_all is_digit (decimal a)" "list_all is_digit (decimal b)" using decimal_digits_only a b by blast+
  have nd: "\<not> is_digit op" "op \<noteq> 0" using op by (auto simp: is_digit_def)
  have cs: "is_cstr (decimal a @ op # decimal b)" using digits_cstr d nd by (auto simp: is_cstr_def)
  have "cstr_of ?in = decimal a @ op # decimal b" using cstr_of_nul [OF cs, of rest] by simp
  then have va: "atoi (cstr_of ?in) = Some a"
    using atoi_decimal [OF a] d(1) by (simp add: atoi_def atoi_loop_append atoi_loop_stop [OF nd(1)] del: atoi_loop.simps)
  have e: "digits_end ?in 0 = length (decimal a)" using digits_end_append [OF d(1) nd(1), of "[]" "decimal b @ 0 # rest"] by simp
  have o: "cget ?in (length (decimal a)) = op" by (simp add: cget_def)
  have vb: "atoi (cstr_of (drop (length (decimal a) + 1) ?in)) = Some b"
    using atoi_decimal [OF b] cstr_of_nul [OF digits_cstr [OF d(2)], of rest] by simp
  have z: "uint b = 0 \<longleftrightarrow> b = 0" by (simp add: uint_0_iff)
  have s: "sint a = uint a" "sint b = uint b" using sint_nonneg_unat [OF a] sint_nonneg_unat [OF b] by simp_all
  have "s32 0 = Some 0" by (simp add: s32_def)
  then show "calculate (calc_line a op b @ 0 # rest) = s32 (calc_value op a b)"
    unfolding calculate_def Let_def i va e o vb calc_value_def
    using op by (auto simp: s z signed_divide_int_def)
  show "\<not> is_exit (calc_line a op b @ 0 # rest)"
  proof -
    obtain c cs where c: "decimal a = c # cs" using decimal_nonempty [OF a] by (cases "decimal a") auto
    then have "c \<le> 0x39" using d(1) by (simp add: is_digit_def)
    then show ?thesis using c unfolding i by (auto simp: is_exit_def cget_def)
  qed
qed

lemma calc_value_bounds:
  assumes "0 \<le> sint a" and "0 \<le> sint b"
  shows "- 2147483648 < calc_value op a b"
proof -
  have "uint b < 2147483648" using sint_nonneg_unat [OF assms(2)] sint_bounds_u32 [of b] by simp
  moreover have "0 \<le> uint a * uint b" "0 \<le> uint a" "0 \<le> uint b" by simp_all
  moreover have "0 \<le> uint a div uint b" by (metis uint_div uint_ge_0)
  ultimately show ?thesis unfolding calc_value_def Let_def by (simp only: split: if_split) (intro conjI impI; linarith)
qed

text \<open>The value that a line shows, where it fits an \<open>int\<close>.\<close>

lemma calculated:
  assumes "0 \<le> sint a" and "0 \<le> sint b"
  shows "Option.bind (s32 (calc_value op a b)) pf_int =
    (if calc_value op a b < 2147483648 then Some (decimal (of_int (calc_value op a b))) else None)"
proof (cases "calc_value op a b < 2147483648")
  case True
  then have s: "s32 (calc_value op a b) = Some (of_int (calc_value op a b))"
    using calc_value_bounds [OF assms, of op] by (simp add: s32_def)
  have "of_int (calc_value op a b) \<noteq> (0x80000000 :: u32)"
  proof
    assume "of_int (calc_value op a b) = (0x80000000 :: u32)"
    then have "calc_value op a b = - 2147483648" using s32_Some [OF s] by simp
    then show False using calc_value_bounds [OF assms, of op] by simp
  qed
  then show ?thesis using s True by (simp add: pf_int_decimal)
qed (simp add: s32_def)

lemma calc_round:
  "kread_line input 64 k = Some (line, k') \<Longrightarrow> \<not> is_exit line \<Longrightarrow>
   calc_loop input k =
     Option.bind (Option.bind (calculate line) pf_int) (\<lambda>ds. calc_loop line (kprint (cstr ''= '' @ ds @ [0x0A, 0x0A]) k'))"
  by (subst calc_loop.simps) (auto simp: calc_print_eq split: option.splits)

lemma calculator_typed:
  assumes a: "0 \<le> sint a" and b: "0 \<le> sint b" and op: "op \<in> {0x2B, 0x2D, 0x2A, 0x2F}"
    and ty: "typed (shift_pressed (con k)) (keys k) = calc_line a op b @ 0x0A # rest" and l: "length input = 64"
  shows "\<exists>input' scs s.
    calc_loop input k =
      (if calc_value op a b < 2147483648 then
         calc_loop input'
           (k\<lparr>keys := scs,
              con := (Console.console_print (calc_line a op b @ [0x0A] @ cstr ''= '' @ decimal (of_int (calc_value op a b)) @ [0x0A, 0x0A])
                        (con k))\<lparr>shift_pressed := s\<rparr>\<rparr>)
       else None) \<and>
    typed s scs = rest \<and> length input' = 64"
proof -
  let ?line = "calc_line a op b"
  have d: "list_all is_digit (decimal a)" "list_all is_digit (decimal b)" using decimal_digits_only a b by blast+
  have "0x0A \<notin> set ?line" "0x08 \<notin> set ?line" using d op by (auto simp: list_all_iff is_digit_def calc_line_def)
  moreover have "length ?line < 64" using decimal_length [OF a] decimal_length [OF b] by (simp add: calc_line_def)
  ultimately obtain tail scs s where r: "kread_line input 64 k = Some (?line @ 0 # tail, k\<lparr>keys := scs, con := (Console.console_print (?line @ [0x0A]) (con k))\<lparr>shift_pressed := s\<rparr>\<rparr>)"
    "typed s scs = rest" "length (?line @ 0 # tail) = 64"
    using kread_typed [OF ty _ _ _ l] by metis
  let ?k = "\<lambda>ds. k\<lparr>keys := scs, con := (Console.console_print (?line @ [0x0A] @ cstr ''= '' @ ds @ [0x0A, 0x0A]) (con k))\<lparr>shift_pressed := s\<rparr>\<rparr>"
  have p: "kprint (cstr ''= '' @ ds @ [0x0A, 0x0A]) (k\<lparr>keys := scs, con := (Console.console_print (?line @ [0x0A]) (con k))\<lparr>shift_pressed := s\<rparr>\<rparr>) = ?k ds" for ds
    by (simp add: kprint_def print_shift flip: print_append)
  have "calc_loop input k =
      (if calc_value op a b < 2147483648 then calc_loop (?line @ 0 # tail) (?k (decimal (of_int (calc_value op a b)))) else None)"
    unfolding calc_round [OF r(1) calculate_two(2) [OF a b op]] calculate_two(1) [OF a b op] calculated [OF a b] p by simp
  then show ?thesis using r(2,3) by (intro exI [of _ "?line @ 0 # tail"] exI [of _ scs] exI [of _ s] conjI) assumption+
qed

section \<open>Lemmas: ping\<close>

lemma ping_request_bytes:
  assumes b: "P + 20 < 4294967296"
  shows "\<exists>c. load_ram (ping_request (of_nat P) m) (of_nat P) 20 = ping_message c \<and> valid_checksum (ping_message c) \<and>
    (\<forall>x < 4294967296. x \<notin> {P..<P + 20} \<longrightarrow> ping_request (of_nat P) m (of_nat x) = m (of_nat x))"
proof -
  define req where "req = [8, 0] @ bytes16 0 @ bytes16 (bswap16 1234) @ bytes16 (bswap16 (1 :: u16))"
  define m1 where "m1 = put_ram (of_nat P) req m"
  define m2 where "m2 = put_ram (of_nat (P + 8)) ping_payload m1"
  define c where "c = net_checksum m2 (of_nat P) 20"
  have l: "length req = 8" "length ping_payload = 12" by (simp_all add: req_def bytes16_def ping_payload_def cstr_def)
  have pr: "ping_request (of_nat P) m = put_ram (of_nat (P + 2)) (bytes16 c) m2"
    unfolding ping_request_def Let_def c_def m2_def m1_def req_def by (simp only: of_nat_add of_nat_numeral)
  have n1: "m1 (of_nat x) = (if P \<le> x \<and> x < P + 8 then req ! (x - P) else m (of_nat x))" if "x < 4294967296" for x
    unfolding m1_def using put_ram_nat [of P req x m] b that l by simp
  have n2: "m2 (of_nat x) = (if P + 8 \<le> x \<and> x < P + 20 then ping_payload ! (x - (P + 8)) else m1 (of_nat x))" if "x < 4294967296" for x
    unfolding m2_def using put_ram_nat [of "P + 8" ping_payload x m1] b that l by simp
  have n3: "ping_request (of_nat P) m (of_nat x) = (if P + 2 \<le> x \<and> x < P + 4 then bytes16 c ! (x - (P + 2)) else m2 (of_nat x))" if "x < 4294967296" for x
    unfolding pr using put_ram_nat [of "P + 2" "bytes16 c" x m2] b that by simp
  have rq: "req @ ping_payload = ping_message 0" "take 2 (ping_message c) = [8, 0]"
    "ping_message c = [8, 0] @ bytes16 c @ drop 4 (ping_message 0)" "ping_message 0 = [8, 0] @ [0, 0] @ drop 4 (ping_message 0)"
    by (simp_all add: req_def ping_payload_def ping_message_def bytes16_def byte_of_def)
  have l20: "length (ping_message d) = 20" for d by (simp add: ping_message_def bytes16_def cstr_def)
  have "load_ram m2 (of_nat P) 20 = ping_message 0"
    unfolding rq(1) [symmetric]
    by (rule load_ram_eqI) (use n2 n1 b l in \<open>auto simp: nth_append simp del: of_nat_add\<close>)
  then have uc: "unat c = 65535 - ones_sum (word_sum (ping_message 0))" unfolding c_def using net_checksum_eq [of 20 m2 "of_nat P"] by simp
  have v: "valid_checksum (ping_message c)"
    unfolding rq(3) by (rule checksum_makes_valid) (simp, simp only: rq(4) [symmetric] uc)
  have "load_ram (ping_request (of_nat P) m) (of_nat P) 20 = ping_message c"
  proof (rule load_ram_eqI)
    fix i :: nat assume i: "i < 20"
    have "ping_request (of_nat P) m (of_nat (P + i)) = (if 2 \<le> i \<and> i < 4 then bytes16 c ! (i - 2) else m2 (of_nat (P + i)))"
      using n3 [of "P + i"] i b by auto
    moreover have "m2 (of_nat (P + i)) = ping_message 0 ! i"
      using \<open>load_ram m2 (of_nat P) 20 = ping_message 0\<close> i nth_load_ram [of i 20 m2 "of_nat P"] by simp
    moreover have "ping_message c ! i = (if 2 \<le> i \<and> i < 4 then bytes16 c ! (i - 2) else ping_message 0 ! i)"
    proof -
      consider "i = 0" | "i = 1" | "2 \<le> i" "i < 4" | "4 \<le> i" by linarith
      then show ?thesis
        by cases (use i l20 [of 0] in \<open>auto simp: ping_message_def nth_append nth_Cons' bytes16_def\<close>)
    qed
    ultimately show "ping_request (of_nat P) m (of_nat (P + i)) = ping_message c ! i" by simp
  qed (simp add: l20)
  moreover have "ping_request (of_nat P) m (of_nat x) = m (of_nat x)" if "x < 4294967296" "x \<notin> {P..<P + 20}" for x
    using n3 n2 n1 that by auto
  ultimately show ?thesis using v by blast
qed

lemma ping_sent:
  assumes ok: "heap_ok (heap s) A" and fits: "fits A 80" and r: "ready s"
  shows "\<exists>s' c k. send_ping d s = Some s' \<and> valid_checksum (ip_header 40 1 d k) \<and> valid_checksum (ping_message c) \<and>
    sent A s s' (ip_tx s d 1 k (ping_message c))"
proof -
  have al: "unat (ALIGN 20) + 12 + unat (ALIGN 40) \<le> unat (ALIGN 80)" "8 \<le> unat (ALIGN 40)" "unat (20 :: u32) \<le> 4294967288"
    by (simp_all add: ALIGN_def ALIGNMENT_def)
  obtain h1 p A1 t where k: "kmalloc 20 (heap s) = Some (h1, p)" "p \<noteq> 0" "heap_ok h1 A1" "unat (20 :: u32) \<le> t" "live A1 (unat p) t"
    "{unat p..<unat p + t} \<inter> client A = {}" "client A1 = client A \<union> {unat p..<unat p + t}"
    "\<forall>x \<in> client A. ram h1 (of_nat x) = mem s (of_nat x)" "\<forall>q u. live A q u \<longrightarrow> live A1 q u" "\<forall>u. \<not> live A (unat p) u" "fits A1 40"
    using kmalloc_room_left [OF ok fits al(3,1,2)] by (elim exE conjE) (rule that)
  define P where "P = unat p"
  have p: "p = of_nat P" by (simp add: P_def)
  have t: "20 \<le> t" using k(4) by simp
  have lc: "P + t < 4294967296" "{P..<P + t} \<subseteq> client A1" using live_client [OF k(3,5)] by (simp_all add: P_def)
  have Pb: "P + 20 < 4294967296" using lc(1) t by simp
  obtain c where c: "load_ram (ping_request p (ram h1)) p 20 = ping_message c" "valid_checksum (ping_message c)"
    "\<forall>x < 4294967296. x \<notin> {P..<P + 20} \<longrightarrow> ping_request p (ram h1) (of_nat x) = ram h1 (of_nat x)"
    using ping_request_bytes [OF Pb, of "ram h1"] unfolding p by blast
  define s1 where "s1 = set_mem (ping_request p (ram h1)) (s\<lparr>heap := h1\<rparr>)"
  have s1: "heap s1 = h1\<lparr>ram := ping_request p (ram h1)\<rparr>" "ready s1" "ip_tx s1 d 1 k x = ip_tx s d 1 k x" "tx s1 = tx s"
    "arp_cache s1 = arp_cache s" "mac_address s1 = mac_address s" "net.tty s1 = net.tty s" for k x
    using r by (simp_all add: s1_def set_mem_def ready_def ip_tx_def ip_frame_def arp_lookup_def split: option.split)
  have in1: "{P..<P + 20} \<subseteq> client A1" using lc(2) t by auto
  have ok1: "heap_ok (heap s1) A1"
    unfolding s1(1) by (rule heap_ok_ram [OF k(3)]) (use c(3) in1 in \<open>simp, blast\<close>)
  obtain s2 q where f: "ipv4_send d 1 (of_nat P) (of_nat 20) s1 = Some s2" "valid_checksum (ip_header (of_nat (20 + 20)) 1 d q)"
    "sent A1 s1 s2 (ip_tx s1 d 1 q (load_ram (mem s1) (of_nat P) 20))"
    using ipv4_send_sent [OF ok1 in1, of d 1] Pb k(11) s1(2) by auto
  have ld: "load_ram (mem s1) (of_nat P) 20 = ping_message c" using c(1) unfolding s1(1) p by simp
  obtain A2 where A2: "heap_ok (heap s2) A2" "client A2 = client A1" "\<forall>q t. live A1 q t \<longrightarrow> live A2 q t" using f(3) unfolding sent_def by blast
  have lv2: "live A2 (unat p) t" using A2(3) k(5) by blast
  obtain h3 A3 where g: "kfree p (heap s2) = Some h3" "heap_ok h3 A3" "client A3 = client A2 - {unat p..<unat p + t}"
    "\<forall>x \<in> client A3. ram h3 (of_nat x) = mem s2 (of_nat x)" "\<forall>q u. live A2 q u \<and> q \<noteq> unat p \<longrightarrow> live A3 q u"
    using kfree_live [OF A2(1) lv2] by blast
  have c3: "client A3 = client A" using g(3) A2(2) k(6,7) by auto
  have l3: "\<forall>q u. live A q u \<longrightarrow> live A3 q u" using g(5) A2(3) k(9,10) by metis
  have "send_ping d s = Some (s2\<lparr>heap := h3\<rparr>)"
    using f(1) [folded p] g(1) unfolding send_ping_def k(1) bind.simps prod.case s1_def [symmetric] by simp
  moreover have "mem (s2\<lparr>heap := h3\<rparr>) (of_nat x) = mem s (of_nat x)" if x: "x \<in> client A" for x
  proof -
    have xb: "x < 4294967296" using client_bound [OF ok x] .
    have "x \<notin> {P..<P + t}" using x k(6) unfolding P_def by blast
    then have "x \<notin> {P..<P + 20}" using t by auto
    then have "mem s1 (of_nat x) = mem s (of_nat x)" using c(3) xb k(8) x unfolding s1(1) by simp
    moreover have "mem s2 (of_nat x) = mem s1 (of_nat x)" using f(3) x k(7) unfolding sent_def by blast
    ultimately show ?thesis using g(4) c3 x by simp
  qed
  moreover have "\<exists>n. tx s2 = tx s @ [(ip_tx s d 1 q (ping_message c), n)] \<and> 60 \<le> n \<and> length (ip_tx s d 1 q (ping_message c)) \<le> unat n"
    "arp_cache s2 = arp_cache s" "mac_address s2 = mac_address s" "net.tty s2 = net.tty s"
    using f(3) unfolding sent_def ld s1(3-7) by blast+
  moreover have "\<exists>A'. heap_ok (heap (s2\<lparr>heap := h3\<rparr>)) A' \<and> client A' = client A \<and> (\<forall>q t. live A q t \<longrightarrow> live A' q t)"
    using g(2) c3 l3 by (intro exI [of _ A3]) simp
  ultimately have "sent A s (s2\<lparr>heap := h3\<rparr>) (ip_tx s d 1 q (ping_message c))"
    unfolding sent_def by simp
  then show ?thesis using f(2) c(2) \<open>send_ping d s = Some (s2\<lparr>heap := h3\<rparr>)\<close> by auto
qed

section \<open>Properties\<close>

text \<open>
  C21: A line of two numbers and an operator is typed into the calculator. If the value (sum, difference, product,
  quotient, or 0 for a division by 0) fits an \<open>int\<close>, the calculator shows it in decimal and reads the next line, with the
  scancodes that are left. A larger value, which only \<open>+\<close> and \<open>*\<close> have, overflows the \<open>int\<close> of the code: what
  happens then is undefined.
\<close>

theorem calculator_evaluates:
  assumes "0 \<le> sint a" and "0 \<le> sint b" and "op \<in> {0x2B, 0x2D, 0x2A, 0x2F}"
    and "typed (shift_pressed (con k)) (keys k) = calc_line a op b @ 0x0A # rest" and "length input = 64"
  shows "\<exists>input' scs s.
    calc_loop input k =
      (if calc_value op a b < 2147483648 then
         calc_loop input'
           (k\<lparr>keys := scs,
              con := (Console.console_print (calc_line a op b @ [0x0A] @ cstr ''= '' @ decimal (of_int (calc_value op a b)) @ [0x0A, 0x0A])
                        (con k))\<lparr>shift_pressed := s\<rparr>\<rparr>)
       else None) \<and>
    typed s scs = rest \<and> length input' = 64"
  by (rule calculator_typed [OF assms])

theorem calculator_evaluates_witness:
  "(\<forall>k. \<exists>input' scs s.
    calc_loop (replicate 64 0) (k\<lparr>keys := [0x02, 0x03, 0x2A, 0x0D, 0xAA, 0x06, 0x1C], con := blank_console\<rparr>) = calc_loop input'
      (k\<lparr>keys := scs, con := (Console.console_print (cstr ''12+5'' @ [0x0A] @ cstr ''= 17'' @ [0x0A, 0x0A]) blank_console)\<lparr>shift_pressed := s\<rparr>\<rparr>) \<and>
    typed s scs = [] \<and> length input' = 64) \<and>
   (\<forall>k. calc_loop (replicate 64 0) (k\<lparr>keys := [0x03, 0x02, 0x05, 0x08, 0x05, 0x09, 0x04, 0x07, 0x05, 0x08, 0x2A, 0x0D, 0xAA, 0x02, 0x1C], con := blank_console\<rparr>) = None)"
proof (intro conjI allI)
  fix k :: kernel
  let ?k = "k\<lparr>keys := [0x02, 0x03, 0x2A, 0x0D, 0xAA, 0x06, 0x1C], con := blank_console\<rparr>"
  have i: "calc_line 12 0x2B 5 = cstr ''12+5''" "decimal 17 = cstr ''17''" by code_simp+
  have "typed False [0x02, 0x03, 0x2A, 0x0D, 0xAA, 0x06, 0x1C] = cstr ''12+5'' @ 0x0A # []" by code_simp
  then have t: "typed (shift_pressed (con ?k)) (keys ?k) = calc_line 12 0x2B 5 @ 0x0A # []" unfolding i by (simp add: blank_console_def)
  have c: "cstr ''= '' @ cstr ''17'' @ xs = cstr ''= 17'' @ xs" for xs by (simp add: cstr_def)
  have v: "calc_value 0x2B 12 5 = 17" by (simp add: calc_value_def)
  show "\<exists>input' scs s.
    calc_loop (replicate 64 0) ?k = calc_loop input'
      (k\<lparr>keys := scs, con := (Console.console_print (cstr ''12+5'' @ [0x0A] @ cstr ''= 17'' @ [0x0A, 0x0A]) blank_console)\<lparr>shift_pressed := s\<rparr>\<rparr>) \<and>
    typed s scs = [] \<and> length input' = 64"
    using calculator_evaluates [OF _ _ _ t, of "replicate 64 0"] by (simp add: v i c)
next
  fix k :: kernel
  let ?k = "k\<lparr>keys := [0x03, 0x02, 0x05, 0x08, 0x05, 0x09, 0x04, 0x07, 0x05, 0x08, 0x2A, 0x0D, 0xAA, 0x02, 0x1C], con := blank_console\<rparr>"
  have "calc_line 2147483647 0x2B 1 = cstr ''2147483647+1''" by code_simp
  moreover have "typed False [0x03, 0x02, 0x05, 0x08, 0x05, 0x09, 0x04, 0x07, 0x05, 0x08, 0x2A, 0x0D, 0xAA, 0x02, 0x1C] = cstr ''2147483647+1'' @ 0x0A # []"
    by code_simp
  ultimately have t: "typed (shift_pressed (con ?k)) (keys ?k) = calc_line 2147483647 0x2B 1 @ 0x0A # []" by (simp add: blank_console_def)
  have v: "\<not> calc_value 0x2B 2147483647 1 < 2147483648" by (simp add: calc_value_def)
  show "calc_loop (replicate 64 0) ?k = None"
    using calculator_evaluates [OF _ _ _ t, of "replicate 64 0"] by (simp add: v)
qed

text \<open>
  C22: \<open>ping\<close> builds an echo request with the id 1234 and the sequence number 1 and gives it to IPv4: when the hardware
  address of the destination is known, one frame with valid checksums of header and message is sent, and an ARP request for
  the address otherwise. Both blocks are given back: no byte of a client of the heap has changed.
\<close>

theorem ping_sends_request:
  assumes "heap_ok (heap s) A" and "fits A 80" and "ready s"
  shows "\<exists>s' c k. send_ping d s = Some s' \<and> valid_checksum (ip_header 40 1 d k) \<and> valid_checksum (ping_message c) \<and>
    sent A s s' (ip_tx s d 1 k (ping_message c))"
  by (rule ping_sent [OF assms])

theorem ping_sends_request_witness:
  "\<exists>s s' c k. tx s = [] \<and> send_ping (MAKE_IP 192 168 10 1) s = Some s' \<and> valid_checksum (ping_message c) \<and>
     fst (hd (tx s')) = ip_frame [2, 0, 0, 0, 0, 9] s (MAKE_IP 192 168 10 1) 1 k (ping_message c)"
proof -
  let ?peer = "MAKE_IP 192 168 10 1"
  define s where "s = \<lparr>heap = small_heap, arp_cache = [\<lparr>ae_ip = ?peer, ae_mac = [2, 0, 0, 0, 0, 9], ae_assigned = True\<rparr>],
    mac_address = [2, 0, 0, 0, 0, 1], rx_buffer = 1000, rx_offset = 0, current_tx_descriptor = 0, isr_reads = [0, 4], capr = 0, tx = [], tty = []\<rparr>"
  have "heap_ok (heap s) (4096, [(244, True)])" using small_heap_ok by (simp add: s_def)
  moreover have "fits (4096, [(244, True)]) 80" by (simp add: fits_def ALIGN_def ALIGNMENT_def)
  moreover have "ready s" by (simp add: ready_def s_def)
  ultimately obtain s' c k where p: "send_ping ?peer s = Some s'" "valid_checksum (ping_message c)"
    "sent (4096, [(244, True)]) s s' (ip_tx s ?peer 1 k (ping_message c))"
    using ping_sends_request by blast
  have "ip_tx s ?peer 1 k x = ip_frame [2, 0, 0, 0, 0, 9] s ?peer 1 k x" for k x by (simp add: ip_tx_def arp_lookup_def s_def)
  moreover have t: "tx s = []" by (simp add: s_def)
  ultimately have "fst (hd (tx s')) = ip_frame [2, 0, 0, 0, 0, 9] s ?peer 1 k (ping_message c)" using p(3) by (auto simp: sent_def)
  then show ?thesis using t p(1,2) by (intro exI [of _ s] exI [of _ s'] exI [of _ c] exI [of _ k]) simp
qed

end
