(* ===== verification/Shell.thy ===== *)
theory Shell
  imports Apps
begin

text \<open>
  The shell (\<open>src/kernel/shell/shell.c\<close>): splitting a line into words, the search for the application, and the loop over the
  lines, which ends with \<open>exit\<close> or in a user program. A loop that never ends has the value \<open>None\<close>.
\<close>

section \<open>Splitting the command line\<close>

text \<open>
  The line is the 64-byte buffer of \<open>shell_run\<close>; a pointer into it is an index. The words stay in the
  buffer, each ended by a zero byte that replaces the space behind it.
\<close>

function skip_spaces :: "u8 list \<Rightarrow> nat \<Rightarrow> nat" where
  "skip_spaces input ptr = (if cget input ptr = 0x20 then skip_spaces input (ptr + 1) else ptr)"
  by auto
termination
proof (relation "measure (\<lambda>(input, ptr). length input - ptr)")
  fix input :: "u8 list" and ptr
  assume "cget input ptr = 0x20"
  then have "ptr < length input" using cget_nonzero_less [of input ptr] by simp
  then show "((input, ptr + 1), (input, ptr)) \<in> measure (\<lambda>(input, ptr). length input - ptr)" by auto
qed simp

function token_end :: "u8 list \<Rightarrow> nat \<Rightarrow> nat" where
  "token_end input ptr = (if cget input ptr \<noteq> 0x20 \<and> cget input ptr \<noteq> 0 then token_end input (ptr + 1) else ptr)"
  by auto
termination
proof (relation "measure (\<lambda>(input, ptr). length input - ptr)")
  fix input :: "u8 list" and ptr
  assume "cget input ptr \<noteq> 0x20 \<and> cget input ptr \<noteq> 0"
  then have "ptr < length input" using cget_nonzero_less [of input ptr] by simp
  then show "((input, ptr + 1), (input, ptr)) \<in> measure (\<lambda>(input, ptr). length input - ptr)" by auto
qed simp

function tokenize :: "u8 list \<Rightarrow> nat \<Rightarrow> nat list \<Rightarrow> nat list \<times> u8 list" where
  "tokenize input ptr argv =
     (if cget input ptr \<noteq> 0 \<and> length argv < 10 then
        (let ptr = skip_spaces input ptr
         in if cget input ptr = 0 then (argv, input)
            else
              (let argv' = argv @ [ptr];
                   e = token_end input ptr
               in if cget input e \<noteq> 0 then tokenize (input[e := 0]) (e + 1) argv'
                  else tokenize input e argv'))
      else (argv, input))"
  by auto
termination
  by (relation "measure (\<lambda>(input, ptr, argv). 10 - length argv)") auto

declare skip_spaces.simps [simp del] token_end.simps [simp del] tokenize.simps [simp del]

text \<open>The string that an element of \<open>argv\<close> points to.\<close>

definition arg :: "u8 list \<Rightarrow> nat \<Rightarrow> u8 list" where
  "arg input ptr = cstr_of (drop ptr input)"

section \<open>Commands\<close>

text \<open>
  The search for the name in the vector of applications: the inner result is the address of the code.
\<close>

fun find_app :: "(u32 \<Rightarrow> u8) \<Rightarrow> vector \<Rightarrow> u8 list \<Rightarrow> nat list \<Rightarrow> u32 option option" where
  "find_app m v name [] = Some None"
| "find_app m v name (i # is) =
     (let app = vector_get (Some v) (of_nat i)
      in if app = 0 then find_app m v name is
         else
           Option.bind (ram_string m (ld32 m app))
             (\<lambda>s. if strcmp name s = 0 then Some (Some (ld32 m (app + 4))) else find_app m v name is))"

definition app_at :: "image \<Rightarrow> u32 \<Rightarrow> app option" where
  "app_at img p = find (\<lambda>a. entry img a = p) (map snd app_table)"

text \<open>How the loop goes on: with the next line, by leaving the shell, or in a user program.\<close>

datatype outcome = Next | Exited | Entered u32 u32

definition on_machine :: "(machine \<Rightarrow> (machine \<times> exec_result) option) \<Rightarrow> kernel \<Rightarrow> (kernel \<times> exec_result) option" where
  "on_machine f k = map_option (\<lambda>(m, r). (k\<lparr>mach := m\<rparr>, r)) (f (mach k))"

definition shell_command :: "image \<Rightarrow> (kernel \<Rightarrow> garbage) \<Rightarrow> u8 list list \<Rightarrow> kernel \<Rightarrow> (kernel \<times> outcome) option" where
  "shell_command img G argv k =
     (if argv = [] then Some (k, Next)
      else if strcmp (argv ! 0) (cstr ''exit'') = 0 then
        Some (kprint (cstr ''Exiting SojebOS shell...'' @ [0x0A]) k, Exited)
      else
        Option.bind (find_app (kram k) (apps_vector k) (argv ! 0) [0..<unat (vsize (apps_vector k))])
          (\<lambda>found. case found of
             Some func \<Rightarrow>
               Option.bind (app_at img func) (\<lambda>a. map_option (\<lambda>k. (k, Next)) (run_app img G a argv k))
           | None \<Rightarrow>
               map_option
                 (\<lambda>(k, r). case r of
                    User_Mode eip esp \<Rightarrow> (k, Entered eip esp)
                  | Status st \<Rightarrow>
                      if 0 \<le> st then (k, Next) else (kprint (cstr ''Command or file not found!'' @ [0x0A]) k, Next))
                 (on_machine (exec_elf (old_node (G k)) (old_header (G k)) (old_segment (G k)) (argv ! 0)) k)))"

partial_function (option) shell_loop :: "image \<Rightarrow> (kernel \<Rightarrow> garbage) \<Rightarrow> u8 list \<Rightarrow> kernel \<Rightarrow> (kernel \<times> outcome) option" where
  "shell_loop img G input k =
     Option.bind (kpoll k)
       (\<lambda>k. Option.bind (kread_line input 64 (kprint (cstr ''> '') k))
         (\<lambda>(input, k).
            let (argv, input) = tokenize input 0 []
            in Option.bind (shell_command img G (map (arg input) argv) k)
                 (\<lambda>(k, r). if r = Next then shell_loop img G input k else Some (k, r))))"

definition shell_run :: "image \<Rightarrow> (kernel \<Rightarrow> garbage) \<Rightarrow> kernel \<Rightarrow> (kernel \<times> outcome) option" where
  "shell_run img G k = shell_loop img G (old_input (G k)) k"

section \<open>Specification\<close>

function words :: "u8 list \<Rightarrow> u8 list list" where
  "words [] = []"
| "words (c # cs) =
     (if c = 0x20 then words cs
      else takeWhile (\<lambda>x. x \<noteq> 0x20) (c # cs) # words (dropWhile (\<lambda>x. x \<noteq> 0x20) (c # cs)))"
  by pat_completeness auto
termination
  by (relation "measure length") (auto simp: le_imp_less_Suc length_dropWhile_le)

text \<open>
  The prompts that the loop of the shell comes to, with the commands it runs on the way; and a poll that finds no frame.
\<close>

inductive session :: "image \<Rightarrow> (kernel \<Rightarrow> garbage) \<Rightarrow> u8 list \<Rightarrow> kernel \<Rightarrow> u8 list list list \<Rightarrow> u8 list \<Rightarrow> kernel \<Rightarrow> bool" for img G where
  session_prompt: "session img G input k [] input k"
| session_line: "kpoll k = Some k1 \<Longrightarrow> kread_line input 64 (kprint (cstr ''> '') k1) = Some (line, k2) \<Longrightarrow>
    tokenize line 0 [] = (argv, input1) \<Longrightarrow> shell_command img G (map (arg input1) argv) k2 = Some (k3, Next) \<Longrightarrow>
    session img G input1 k3 cmds input' k' \<Longrightarrow> session img G input k (map (arg input1) argv # cmds) input' k'"

section \<open>Lemmas\<close>

lemma words_drop_spaces: "words (dropWhile (\<lambda>x. x = 0x20) xs) = words xs"
  by (induction xs) auto

lemma words_append_space: "\<forall>x \<in> set w. x \<noteq> 0x20 \<Longrightarrow> w \<noteq> [] \<Longrightarrow> words (w @ 0x20 # xs) = w # words xs"
  by (cases w) (auto simp: takeWhile_append2 dropWhile_append2)

lemma words_single: "\<forall>x \<in> set w. x \<noteq> 0x20 \<Longrightarrow> w \<noteq> [] \<Longrightarrow> words w = [w]"
  by (cases w) (auto simp: takeWhile_eq_all_conv [THEN iffD2] dropWhile_eq_Nil_conv [THEN iffD2])

lemma cget_line: "i < length line \<Longrightarrow> cget (pre @ line @ 0 # rest) (length pre + i) = line ! i"
  "cget (pre @ line @ 0 # rest) (length pre + length line) = 0"
  by (simp_all add: cget_def nth_append)

lemma skip_spaces_line:
  "skip_spaces (pre @ line @ 0 # rest) (length pre) = length pre + length (takeWhile (\<lambda>x. x = 0x20) line)"
proof (induction line arbitrary: pre)
  case Nil
  show ?case using cget_line(2) [of pre "[]" rest] by (subst skip_spaces.simps) simp
next
  case (Cons c line)
  have c: "cget (pre @ c # line @ 0 # rest) (length pre) = c" using cget_line(1) [of 0 "c # line" pre rest] by simp
  have "skip_spaces (pre @ (c # line) @ 0 # rest) (length pre + 1) = length pre + 1 + length (takeWhile (\<lambda>x. x = 0x20) line)"
    using Cons.IH [of "pre @ [c]"] by simp
  then show ?case by (cases "c = 0x20"; subst skip_spaces.simps) (use c in simp_all)
qed

lemma token_end_line:
  "is_cstr line \<Longrightarrow> token_end (pre @ line @ 0 # rest) (length pre) = length pre + length (takeWhile (\<lambda>x. x \<noteq> 0x20) line)"
proof (induction line arbitrary: pre)
  case Nil
  show ?case using cget_line(2) [of pre "[]" rest] by (subst token_end.simps) simp
next
  case (Cons c line)
  have c: "cget (pre @ c # line @ 0 # rest) (length pre) = c" using cget_line(1) [of 0 "c # line" pre rest] by simp
  have n: "c \<noteq> 0" "is_cstr line" using Cons.prems by (auto simp: is_cstr_def)
  have "token_end (pre @ (c # line) @ 0 # rest) (length pre + 1) = length pre + 1 + length (takeWhile (\<lambda>x. x \<noteq> 0x20) line)"
    using Cons.IH [OF n(2), of "pre @ [c]"] by simp
  then show ?case by (subst token_end.simps) (simp add: c n)
qed

lemma tokenize_line:
  assumes "is_cstr line"
  shows "\<exists>new input'. tokenize (pre @ line @ 0 # rest) (length pre) argv = (argv @ new, input') \<and>
    take (length pre) input' = pre \<and> map (arg input') new = take (10 - length argv) (words line)"
  using assms
proof (induction "10 - length argv" arbitrary: pre line argv)
  case 0
  then show ?case by (subst tokenize.simps) simp
next
  case (Suc n)
  define sp where "sp = takeWhile (\<lambda>x. x = 0x20) line"
  define l2 where "l2 = dropWhile (\<lambda>x. x = 0x20) line"
  define w where "w = takeWhile (\<lambda>x. x \<noteq> 0x20) l2"
  define l3 where "l3 = dropWhile (\<lambda>x. x \<noteq> 0x20) l2"
  have line: "line = sp @ l2" "l2 = w @ l3" by (simp_all add: sp_def l2_def w_def l3_def)
  have cs: "is_cstr l2" "is_cstr w" "is_cstr l3" using Suc.prems unfolding line by simp_all
  let ?in = "pre @ line @ 0 # rest"
  have in2: "?in = (pre @ sp) @ l2 @ 0 # rest" by (simp add: line)
  have skip: "skip_spaces ?in (length pre) = length (pre @ sp)" using skip_spaces_line [of pre line rest] by (simp add: sp_def)
  have c2: "cget ?in (length (pre @ sp)) = (if l2 = [] then 0 else hd l2)"
    using cget_line(1) [of 0 l2 "pre @ sp" rest] cget_line(2) [of "pre @ sp" "[]" rest] unfolding in2 by (cases l2) simp_all
  have wl: "words line = words l2" using words_drop_spaces [of line] by (simp add: l2_def)
  have lt: "length argv < 10" using Suc.hyps(2) by simp
  show ?case
  proof (cases "l2 = []")
    case True
    have "tokenize ?in (length pre) argv = (argv, ?in)"
    proof (cases "cget ?in (length pre) = 0")
      case True
      then show ?thesis by (subst tokenize.simps) simp
    next
      case False
      then show ?thesis using skip c2 \<open>l2 = []\<close> by (subst tokenize.simps) (simp add: Let_def)
    qed
    then show ?thesis using True wl by (intro exI [of _ "[]"] exI [of _ ?in]) simp
  next
    case False
    have h: "hd l2 \<noteq> 0" "hd l2 \<noteq> 0x20"
      using False cs(1) hd_in_set [of l2] hd_dropWhile [of "\<lambda>x. x = 0x20" line] unfolding is_cstr_def l2_def by metis+
    have wn: "w \<noteq> []" using False h(2) by (cases l2) (auto simp: w_def)
    have ws: "\<forall>x \<in> set w. x \<noteq> 0x20" by (auto simp: w_def dest: set_takeWhileD)
    have first: "cget ?in (length pre) \<noteq> 0"
    proof (cases sp)
      case Nil
      then show ?thesis using c2 False h(1) by simp
    next
      case (Cons a xs)
      then have "a = 0x20" by (metis list.set_intros(1) set_takeWhileD sp_def)
      then show ?thesis using cget_line(1) [of 0 line pre rest] Cons line by simp
    qed
    let ?e = "length (pre @ sp @ w)"
    have te: "token_end ?in (length (pre @ sp)) = ?e"
      using token_end_line [OF cs(1), of "pre @ sp" rest] unfolding in2 by (simp add: w_def)
    let ?argv = "argv @ [length (pre @ sp)]"
    have step: "tokenize ?in (length pre) argv =
        (if cget ?in ?e \<noteq> 0 then tokenize (?in[?e := 0]) (?e + 1) ?argv else tokenize ?in ?e ?argv)"
      by (subst tokenize.simps) (use first lt skip c2 False h(1) te in \<open>simp add: Let_def\<close>)
    have n: "n = 10 - length ?argv" using Suc.hyps(2) by simp
    show ?thesis
    proof (cases l3)
      case Nil
      have ce: "cget ?in ?e = 0" using cget_line(2) [of "pre @ sp" w rest] unfolding in2 line(2) Nil by (simp add: add.assoc)
      have "tokenize ?in ?e ?argv = (?argv, ?in)" by (subst tokenize.simps) (simp only: ce simp_thms if_False)
      moreover have "arg ?in (length (pre @ sp)) = w"
        unfolding arg_def in2 line(2) Nil using cstr_of_nul [OF cs(2)] by simp
      moreover have "words line = [w]" using wl words_single [OF ws wn] line(2) Nil by simp
      ultimately show ?thesis using step ce lt by (intro exI [of _ "[length (pre @ sp)]"] exI [of _ ?in]) simp
    next
      case (Cons a l4)
      have a: "a = 0x20" using Cons hd_dropWhile [of "\<lambda>x. x \<noteq> 0x20" l2] unfolding l3_def by (metis list.distinct(1) list.sel(1))
      have in3: "?in = (pre @ sp @ w) @ (0x20 # l4) @ 0 # rest" by (simp add: line Cons a)
      have ce: "cget ?in ?e \<noteq> 0" using cget_line(1) [of 0 "0x20 # l4" "pre @ sp @ w" rest] unfolding in3 by simp
      let ?pre = "pre @ sp @ w @ [0]"
      have up: "?in[?e := 0] = ?pre @ l4 @ 0 # rest" unfolding in3 by (simp add: list_update_append)
      have le: "?e + 1 = length ?pre" by simp
      have "is_cstr l4" using cs(3) Cons by (simp add: is_cstr_def)
      from Suc.hyps(1) [OF n this, of ?pre] obtain new input' where
        r: "tokenize (?pre @ l4 @ 0 # rest) (length ?pre) ?argv = (?argv @ new, input')" "take (length ?pre) input' = ?pre"
           "map (arg input') new = take (10 - length ?argv) (words l4)" by blast
      have "arg input' (length (pre @ sp)) = w"
      proof -
        have "input' = ?pre @ drop (length ?pre) input'" using r(2) by (metis append_take_drop_id)
        then have "drop (length (pre @ sp)) input' = w @ 0 # drop (length ?pre) input'"
          by (metis append.assoc append_Cons append_Nil append_eq_conv_conj)
        then show ?thesis using cstr_of_nul [OF cs(2)] by (simp add: arg_def)
      qed
      moreover have "take (length pre) input' = pre"
        using arg_cong [OF r(2), of "take (length pre)"] by simp
      moreover have "words line = w # words l4" using wl words_append_space [OF ws wn] line(2) Cons a by simp
      moreover have "take (10 - length argv) (w # words l4) = w # take (10 - length ?argv) (words l4)"
        using lt by (metis Suc_diff_Suc add.commute add_Suc length_append_singleton plus_1_eq_Suc take_Suc_Cons diff_Suc_Suc)
      ultimately show ?thesis using step ce r(1,3) up le by (intro exI [of _ "length (pre @ sp) # new"] exI [of _ input']) simp
    qed
  qed
qed

lemma tokenize_length: "length (snd (tokenize input ptr argv)) = length input"
proof (induction input ptr argv rule: tokenize.induct)
  case (1 input ptr argv)
  then show ?case by (subst tokenize.simps) (simp add: Let_def)
qed

lemma shell_line:
  assumes "kpoll k = Some k1" and "typed (shift_pressed (con k1)) (keys k1) = cs @ 0x0A # rest" and "0x0A \<notin> set cs" and "length input = 64"
  shows "\<exists>scs b input'.
    shell_loop img G input k =
      Option.bind (shell_command img G (take 10 (words (edit 63 [] cs)))
          (k1\<lparr>keys := scs, con := (Console.console_print (cstr ''> '' @ echo 63 0 cs @ [0x0A]) (con k1))\<lparr>shift_pressed := b\<rparr>\<rparr>))
        (\<lambda>(k2, r). if r = Next then shell_loop img G input' k2 else Some (k2, r)) \<and>
    typed b scs = rest \<and> length input' = 64"
proof -
  let ?line = "edit 63 [] cs"
  have ty: "typed (shift_pressed (con (kprint (cstr ''> '') k1))) (keys k1) = cs @ 0x0A # rest"
    using assms(2) by (simp add: kprint_def shift_print_same)
  have "\<exists>buffer' scs' b. read_line_loop (int 63 + 1) (int (length ([] :: u8 list))) input (keys k1) (con (kprint (cstr ''> '') k1)) =
      Some (buffer', scs', (Console.console_print (echo 63 (length ([] :: u8 list)) cs @ [0x0A]) (con (kprint (cstr ''> '') k1)))\<lparr>shift_pressed := b\<rparr>) \<and>
    typed b scs' = rest \<and> length buffer' = length input \<and> take (length ?line + 1) buffer' = ?line @ [0] \<and> length ?line \<le> 63"
    by (rule read_line_loop_edits [OF ty assms(3)]) (use assms(4) in simp_all)
  then obtain buffer' scs' b where r: "read_line_loop 64 0 input (keys k1) (con (kprint (cstr ''> '') k1)) =
      Some (buffer', scs', (Console.console_print (echo 63 0 cs @ [0x0A]) (con (kprint (cstr ''> '') k1)))\<lparr>shift_pressed := b\<rparr>)"
    "typed b scs' = rest" "length buffer' = 64" "take (length ?line + 1) buffer' = ?line @ [0]"
    using assms(4) by auto
  let ?k2 = "k1\<lparr>keys := scs', con := (Console.console_print (cstr ''> '' @ echo 63 0 cs @ [0x0A]) (con k1))\<lparr>shift_pressed := b\<rparr>\<rparr>"
  have "kread_line input 64 (kprint (cstr ''> '') k1) = Some (buffer', ?k2)"
    unfolding kread_line_def console_read_line_def using r(1) by (simp add: kprint_def Console.console_print_def)
  moreover have bf: "buffer' = ?line @ 0 # drop (length ?line + 1) buffer'"
    using r(4) append_take_drop_id [of "length ?line + 1" buffer'] by (metis append.assoc append_Cons append_Nil)
  have "0 \<notin> set cs" using assms(2) typed_nonzero [of "shift_pressed (con k1)" "keys k1"] by auto
  then have "is_cstr ?line" using edit_chars [of 63 "[]" cs] unfolding is_cstr_def by auto
  then obtain argv input' where t: "tokenize buffer' 0 [] = (argv, input')" "map (arg input') argv = take 10 (words ?line)"
    using tokenize_line [of ?line "[]" "drop (length ?line + 1) buffer'" "[]"] bf by auto
  have "length input' = 64" using tokenize_length [of buffer' 0 "[]"] t(1) r(3) by simp
  ultimately show ?thesis
    using r(2) t(2)
    by (intro exI [where x = scs'], intro exI [where x = b], intro exI [where x = input'])
      (subst shell_loop.simps, simp add: assms(1) t(1))
qed

lemma session_loop:
  "session img G input k cmds input' k' \<Longrightarrow> shell_loop img G input k = shell_loop img G input' k'"
proof (induction rule: session.induct)
  case (session_line k k1 input line k2 argv input1 k3 cmds input' k')
  then show ?case by (subst shell_loop.simps) simp
qed simp

section \<open>Properties\<close>

text \<open>
  C13: The shell polls the network, prompts, reads and echoes one edited line of at most 63 characters and runs its
  first ten words, whatever the spaces between them; unless the command leaves the shell, it then goes on with the
  scancodes that are left.
\<close>

theorem shell_reads_line:
  assumes "kpoll k = Some k1" and "typed (shift_pressed (con k1)) (keys k1) = cs @ 0x0A # rest" and "0x0A \<notin> set cs" and "length input = 64"
  shows "\<exists>scs b input'.
    shell_loop img G input k =
      Option.bind (shell_command img G (take 10 (words (edit 63 [] cs)))
          (k1\<lparr>keys := scs, con := (Console.console_print (cstr ''> '' @ echo 63 0 cs @ [0x0A]) (con k1))\<lparr>shift_pressed := b\<rparr>\<rparr>))
        (\<lambda>(k2, r). if r = Next then shell_loop img G input' k2 else Some (k2, r)) \<and>
    typed b scs = rest \<and> length input' = 64"
  by (rule shell_line [OF assms])

theorem shell_reads_line_witness:
  "\<forall>img G k. \<exists>k'. shell_loop img G (replicate 64 0) (k\<lparr>polls := [[(1, [])]], keys := [0x39, 0x12, 0x2D, 0x17, 0x14, 0x1C], con := blank_console\<rparr>) = Some (k', Exited)"
proof (intro allI)
  fix img G and k :: kernel
  let ?k = "k\<lparr>polls := [[(1, [])]], keys := [0x39, 0x12, 0x2D, 0x17, 0x14, 0x1C], con := blank_console\<rparr>"
  obtain n where k1: "kpoll ?k = Some (?k\<lparr>polls := [], netw := n\<rparr>)" using kpoll_idle [of ?k 1 "[]"] by auto
  have "typed False [0x39, 0x12, 0x2D, 0x17, 0x14, 0x1C] = cstr '' exit'' @ 0x0A # []" by code_simp
  then have t: "typed (shift_pressed (con (?k\<lparr>polls := [], netw := n\<rparr>))) (keys (?k\<lparr>polls := [], netw := n\<rparr>)) = cstr '' exit'' @ 0x0A # []"
    by (simp add: blank_console_def)
  have w: "take 10 (words (edit 63 [] (cstr '' exit''))) = [cstr ''exit'']" "0x0A \<notin> set (cstr '' exit'')" by code_simp+
  have "strcmp (cstr ''exit'') (cstr ''exit'') = 0" by code_simp
  then have e: "shell_command img G [cstr ''exit''] j = Some (kprint (cstr ''Exiting SojebOS shell...'' @ [0x0A]) j, Exited)" for j
    by (simp add: shell_command_def)
  show "\<exists>k'. shell_loop img G (replicate 64 0) ?k = Some (k', Exited)"
    using shell_reads_line [OF k1 t w(2), of "replicate 64 0" img G] unfolding w e by auto
qed

end
