(* ===== verification/Kernel.thy ===== *)
theory Kernel
  imports Shell
begin

text \<open>
  \<open>kernel_main\<close> (\<open>src/kernel/kernel.c\<close>): the initialisation of all components in order and the start of the shell, and
  the invariant \<open>kernel_ok\<close> of the running kernel.
\<close>

unbundle bit_operations_syntax

section \<open>Booting\<close>

text \<open>
  What the kernel finds: the end of its image and the addresses of its statics from the linker, the
  stack pointer at entry, and what the PCI bus and the network card answer.
\<close>

record platform =
  kernel_end :: u32
  page_tables :: u32
  gdt_address :: u32
  tss_address :: u32
  boot_esp :: u32
  pci_config :: "u32 \<Rightarrow> u32"
  reset_reads :: "u8 list"
  station :: "nat \<Rightarrow> u8"

definition banner :: "u8 list list" where
  "banner =
     [[0x0A],
      cstr ''   _____   ____       _  ______ ____   ____   _____ '' @ [0x0A],
      cstr ''  / ____| / __ '' @ [0x5C] @ cstr ''     | ||  ____|  _ '' @ [0x5C] @ cstr '' / __ '' @ [0x5C] @ cstr '' / ____|'' @ [0x0A],
      cstr '' | (___  | |  | |    | || |__  | |_) | |  | | (___  '' @ [0x0A],
      cstr ''  '' @ [0x5C] @ cstr ''___ '' @ [0x5C] @ cstr '' | |  | | _  | ||  __| |  _ <| |  | |'' @ [0x5C] @ cstr ''___ '' @ [0x5C] @ cstr '' '' @ [0x0A],
      cstr ''  ____) || |__| || |_| || |____| |_) | |__| |____) |'' @ [0x0A],
      cstr '' |_____/  '' @ [0x5C] @ cstr ''____/  '' @ [0x5C] @ cstr ''___/ |______|____/ '' @ [0x5C] @ cstr ''____/|_____/ '' @ [0x0A],
      [0x0A],
      cstr ''Welcome to SojebOS'' @ [0x0A]]"

definition start_memory :: "platform \<Rightarrow> kernel \<Rightarrow> kernel" where
  "start_memory P k =
     (let heap_start = kernel_end P;
          heap_size = 4 * 1024 * 1024;
          k = set_heap (kheap_init heap_start heap_size (kheap_of k)) k;
          p = paging_init (page_tables P) (heap_start + heap_size) (pg (mach k))
      in set_heap ((kheap_of k)\<lparr>ram := memory p\<rparr>) (k\<lparr>mach := (mach k)\<lparr>mpaging := p\<rparr>\<rparr>))"

definition start_segments :: "platform \<Rightarrow> kernel \<Rightarrow> kernel" where
  "start_segments P k =
     (let (ptr, gdt) = gdt_init (gdt_address P) (gdt_table k);
          (tss, gdt, _) = tss_init 5 0x10 (boot_esp P) (tss_address P) (tss_entry k) gdt
      in k\<lparr>gdt_table := gdt, gdt_pointer := ptr, tss_entry := tss\<rparr>)"

definition start_network :: "platform \<Rightarrow> kernel \<Rightarrow> kernel option" where
  "start_network P k =
     (let rtl_io = pci_find_rtl8139 (pci_config P)
      in if 0 < rtl_io then
           on_net (rtl8139_init (reset_reads P) (station P)) (kprint (cstr ''Network: RTL8139 found and initialized.'' @ [0x0A]) k)
         else Some (kprint (cstr ''Network: No RTL8139 card found.'' @ [0x0A]) k))"

definition start_files :: "kernel \<Rightarrow> kernel" where
  "start_files k = k\<lparr>mach := (mach k)\<lparr>mvfs := vfs_init (mvfs (mach k))\<rparr>\<rparr>"

definition kernel_start :: "image \<Rightarrow> platform \<Rightarrow> kernel \<Rightarrow> kernel option" where
  "kernel_start img P k =
     (let k = start_files (start_segments P (start_memory P k));
          k = fold kprint banner (k\<lparr>con := console_clear (con k)\<rparr>)
      in Option.bind (register_all_apps img k) (start_network P))"

definition kernel_main :: "image \<Rightarrow> platform \<Rightarrow> (kernel \<Rightarrow> garbage) \<Rightarrow> kernel \<Rightarrow> (kernel \<times> outcome) option" where
  "kernel_main img P G k = Option.bind (kernel_start img P k) (shell_run img G)"

section \<open>Specification\<close>

text \<open>The strings that name the applications are in memory, where the vector points to.\<close>

definition names_placed :: "image \<Rightarrow> (u32 \<Rightarrow> u8) \<Rightarrow> bool" where
  "names_placed img m \<longleftrightarrow> (\<forall>(name, a) \<in> set app_table. load_ram m (literal img a) (length name + 1) = name @ [0])"

definition name_bytes :: "image \<Rightarrow> nat set" where
  "name_bytes img = (\<Union>(name, a) \<in> set app_table. {unat (literal img a)..unat (literal img a) + length name})"

text \<open>
  The image that the linker and the boot loader leave in memory: the page tables are aligned, and they,
  the local variable \<open>new_app\<close> and the names lie below the end of the image without overlapping, and no
  two applications have the same code.
\<close>

definition table_bytes :: "platform \<Rightarrow> nat set" where
  "table_bytes P = {unat (page_tables P)..<unat (page_tables P) + 16384}"

definition slot_bytes :: "image \<Rightarrow> nat set" where
  "slot_bytes img = {unat (new_app img)..<unat (new_app img) + 8}"

definition image_ok :: "image \<Rightarrow> platform \<Rightarrow> (u32 \<Rightarrow> u8) \<Rightarrow> bool" where
  "image_ok img P m \<longleftrightarrow> unat (kernel_end P) \<le> 0xC00000 \<and> unat (page_tables P) mod 4096 = 0 \<and>
     unat (page_tables P) + 16384 \<le> unat (kernel_end P) \<and>
     0 < unat (new_app img) \<and> unat (new_app img) + 8 \<le> unat (kernel_end P) \<and>
     slot_bytes img \<inter> table_bytes P = {} \<and> inj (entry img) \<and> names_placed img m \<and>
     name_bytes img \<subseteq> {..<unat (kernel_end P)} - table_bytes P - slot_bytes img"

text \<open>
  The invariant of the running kernel: the heap, the page tables, the vector of applications in its
  block of \<open>t\<close> bytes, the names, the identity mapping of the first 16 MB, and the screen.
\<close>

definition kernel_ok :: "image \<Rightarrow> nat \<times> blocks \<Rightarrow> nat \<Rightarrow> kernel \<Rightarrow> bool" where
  "kernel_ok img A t k \<longleftrightarrow>
     vec_ok (kheap_of k) A (apps_vector k) t (map (console_app img \<circ> snd) app_table) \<and> element_size (apps_vector k) = 8 \<and>
     names_placed img (kram k) \<and> name_bytes img \<subseteq> client A - vec_bytes (apps_vector k) t \<and> inj (entry img) \<and>
     paging_ok (pg (mach k)) \<and> isolated A (pg (mach k)) \<and>
     (\<forall>u < 0x1000000. translate (pg (mach k)) (of_nat u) = Some (of_nat u)) \<and> console_ok (con k)"

text \<open>
  The bytes that the kernel writes without regard for the heap: the receive ring, the local variables of the vector test, and the
  first 20 bytes of memory, where \<open>ping\<close> builds its request when the heap is full. They hold nothing else, so
  frames and commands of any kind keep \<open>kernel_ok\<close>.
\<close>

definition scratch_bytes :: "image \<Rightarrow> kernel \<Rightarrow> nat set" where
  "scratch_bytes img k = {..<20} \<union> (\<Union>i < 3. {unat (point_slot img i)..<unat (point_slot img i) + 8}) \<union> ring_bytes (netw k)"

definition scratch_ok :: "image \<Rightarrow> nat \<times> blocks \<Rightarrow> nat \<Rightarrow> kernel \<Rightarrow> bool" where
  "scratch_ok img A t k \<longleftrightarrow> scratch_bytes img k \<subseteq> client A - vec_bytes (apps_vector k) t - name_bytes img \<and>
     (\<forall>x \<in> scratch_bytes img k. data_frame (pg (mach k)) (x div 4096)) \<and> ring_ok (netw k) \<and>
     unat (rx_buffer (netw k)) + 9708 < 4294967296 \<and> (\<forall>i < 3. point_slot img i \<noteq> 0)"

definition running :: "image \<Rightarrow> nat \<times> blocks \<Rightarrow> nat \<Rightarrow> kernel \<Rightarrow> bool" where
  "running img A t k \<longleftrightarrow> kernel_ok img A t k \<and> scratch_ok img A t k"

text \<open>And the card stores nothing outside the receive ring, during the calls of \<open>rtl8139_poll\<close> that are still to come.\<close>

definition session_ok :: "image \<Rightarrow> nat \<Rightarrow> kernel \<Rightarrow> bool" where
  "session_ok img t k \<longleftrightarrow> (\<exists>A. running img A t k) \<and> (\<forall>p \<in> set (polls k). card_poll (netw k) p)"

text \<open>The local variables lie in the image, apart from the names and the page tables, and the first page is not a page table.\<close>

definition locals_ok :: "image \<Rightarrow> platform \<Rightarrow> bool" where
  "locals_ok img P \<longleftrightarrow> 0 < unat (page_tables P) \<and> name_bytes img \<inter> {..<20} = {} \<and>
     (\<forall>i < 3. 0 < unat (point_slot img i) \<and> unat (point_slot img i) + 8 \<le> unat (kernel_end P) \<and>
        {unat (point_slot img i)..<unat (point_slot img i) + 8} \<inter> (table_bytes P \<union> name_bytes img) = {})"

end
