(* ===== verification/Kernel_Boot.thy ===== *)
theory Kernel_Boot
  imports Kernel
begin

text \<open>
  What \<open>kernel_start\<close> leaves behind: the heap, the identity mapping and the vector of applications, and that together
  they satisfy \<open>kernel_ok\<close>; and which changes of the state keep it.
\<close>

unbundle bit_operations_syntax

section \<open>Memory and segments\<close>

lemma pg_set_heap: "pg (mach (set_heap h k)) = (pg (mach k))\<lparr>memory := ram h\<rparr>"
  by (simp add: pg_def set_heap_def)

lemma con_kprint: "console_ok (con k) \<Longrightarrow> console_ok (con (kprint cs k))"
  by (simp add: kprint_def Console.console_print_def console_ok_print)

lemma start_memory_facts:
  assumes img: "image_ok img P (kram k)" and len: "length (page_directory (mpaging (mach k))) = 1024" "length (frame_bitmap (mpaging (mach k))) = BITMAP_SIZE"
  defines "k1 \<equiv> start_memory P k" and "E \<equiv> unat (kernel_end P)"
  shows "heap_ok (kheap_of k1) (E, [(4194292, True)])" and "paging_ok (pg (mach k1))"
    and "translate (pg (mach k1)) u = (if unat u < 16777216 then Some u else None)"
    and "free_frames (pg (mach k1)) = {(E + 4194304 + 4095) div 4096..<16384}"
    and "present (pg (mach k1)) j \<Longrightarrow> table_frame (pg (mach k1)) j * 4096 \<in> table_bytes P"
    and "x < E \<Longrightarrow> x \<notin> table_bytes P \<Longrightarrow> kram k1 (of_nat x) = kram k (of_nat x)"
    and "con k1 = con k" "apps_vector k1 = apps_vector k" "kfat k1 = kfat k" "netw k1 = netw k" "keys k1 = keys k" "polls k1 = polls k"
proof -
  define T where "T = unat (page_tables P) div 4096"
  have T: "unat (page_tables P) = 4096 * T" "4096 * (T + 4) \<le> E" "E \<le> 0xC00000" "page_tables P = of_nat (4096 * T)"
  proof -
    have "unat (page_tables P) mod 4096 = 0" using img by (simp add: image_ok_def)
    then show t: "unat (page_tables P) = 4096 * T" using mult_div_mod_eq [of 4096 "unat (page_tables P)"] unfolding T_def by linarith
    show "4096 * (T + 4) \<le> E" "E \<le> 0xC00000" using img t by (simp_all add: image_ok_def E_def)
    show "page_tables P = of_nat (4096 * T)" unfolding t [symmetric] by simp
  qed
  have E: "kernel_end P = of_nat E" by (simp add: E_def)
  define h where "h = kheap_init (of_nat E) (of_nat 4194304) (kheap_of k)"
  have E0: "0 < E" using T(2) by simp
  have h_ok: "heap_ok h (E, [(4194292, True)])"
    using kheap_init_heap_ok [of E 4194304 "kheap_of k"] E0 T(3) by (simp add: h_def)
  have hr: "ram h (of_nat x) = kram k (of_nat x)" if "x < E" for x
    unfolding h_def by (rule kheap_init_frame) (use that T(3) in auto)
  define s where "s = (pg (mach k))\<lparr>memory := ram h\<rparr>"
  define p where "p = paging_init (of_nat (4096 * T)) (of_nat (E + 4194304)) s"
  have l: "length (page_directory s) = 1024" "length (frame_bitmap s) = BITMAP_SIZE" using len by (simp_all add: s_def pg_def)
  have ke: "unat (of_nat (E + 4194304) :: u32) = E + 4194304" using T(3) by (intro unat_of_nat_u32) simp
  have b: "4096 * (T + 4) \<le> unat (of_nat (E + 4194304) :: u32)" "unat (of_nat (E + 4194304) :: u32) \<le> 67108864"
    using T(2,3) unfolding ke by simp_all
  note ok = paging_init_ok [OF l b, folded p_def, unfolded ke] and st = paging_init_state [OF l b, folded p_def, unfolded ke]
  have k1: "k1 = set_heap (h\<lparr>ram := memory p\<rparr>) ((set_heap h k)\<lparr>mach := (mach (set_heap h k))\<lparr>mpaging := p\<rparr>\<rparr>)"
    unfolding k1_def start_memory_def Let_def E T(4) by (simp add: h_def p_def s_def pg_set_heap)
  have pgk: "pg (mach k1) = p" unfolding k1 by (simp add: pg_def set_heap_def)
  have ramk: "kram k1 = memory p" unfolding k1 by simp
  have mem: "memory p (of_nat x) = ram h (of_nat x)" if "x < 4294967296" "x < 4096 * T \<or> 4096 * (T + 4) \<le> x" for x
    using st(5) [OF that] by (simp add: s_def)
  show "heap_ok (kheap_of k1) (E, [(4194292, True)])"
  proof -
    have "heap_ok (h\<lparr>ram := memory p\<rparr>) (E, [(4194292, True)])"
    proof (rule heap_ok_ram [OF h_ok])
      fix x :: nat assume x: "x < 4294967296" "x \<notin> client (E, [(4194292, True)])"
      then have "E \<le> x" by (auto simp: client_def client_bytes_def)
      then show "memory p (of_nat x) = ram h (of_nat x)" using mem [OF x(1)] T(2) by simp
    qed
    then show ?thesis unfolding k1 by simp
  qed
  show "paging_ok (pg (mach k1))" "translate (pg (mach k1)) u = (if unat u < 16777216 then Some u else None)"
    "free_frames (pg (mach k1)) = {(E + 4194304 + 4095) div 4096..<16384}"
    unfolding pgk using ok by (simp_all add: TOTAL_FRAMES_def)
  show "table_frame (pg (mach k1)) j * 4096 \<in> table_bytes P" if "present (pg (mach k1)) j"
  proof -
    have pd: "page_directory p ! i = (if i < 4 then of_nat (4096 * (T + i)) OR 7 else 2)" if "i < 1024" for i
      using that unfolding st(1) by (simp add: nth_append del: upt_rec_numeral)
    have j: "j < 4" using that pd [of j] unfolding pgk present_def by (cases "j < 4") auto
    then have "table_frame p j = T + j" using pd [of j] page_entry(1) [of "T + j"] T(2,3) unfolding table_frame_def by simp
    then show ?thesis using j unfolding pgk table_bytes_def T(1) by simp
  qed
  show "x < E \<Longrightarrow> x \<notin> table_bytes P \<Longrightarrow> kram k1 (of_nat x) = kram k (of_nat x)"
    using mem [of x] hr [of x] T(3) unfolding ramk table_bytes_def T(1) by auto
  show "con k1 = con k" "apps_vector k1 = apps_vector k" "kfat k1 = kfat k" "netw k1 = netw k" "keys k1 = keys k" "polls k1 = polls k"
    unfolding k1 by (simp_all add: set_heap_def)
qed

section \<open>Registering the applications\<close>

definition apps_heap :: "nat \<Rightarrow> nat \<times> blocks" where
  "apps_heap E = (E, [(128, False), (4194152, True)])"

lemma client_start: "x < E \<Longrightarrow> E \<le> 0xC00000 \<Longrightarrow> x \<in> client (E, [(4194292, True)])" "x < E \<Longrightarrow> E \<le> 0xC00000 \<Longrightarrow> x \<in> client (apps_heap E)"
  by (auto simp: client_def client_bytes_def apps_heap_def)

lemma client_mono: "client (E, [(4194292, True)]) \<subseteq> client (apps_heap E)"
  by (auto simp: client_def client_bytes_def apps_heap_def)

lemma not_client: "x < 4294967296 \<Longrightarrow> x \<notin> client (apps_heap E) \<Longrightarrow> E \<le> x \<and> x < E + 4194304"
  by (auto simp: client_def client_bytes_def apps_heap_def)

lemma init_apps:
  assumes ok: "heap_ok h (E, [(4194292, True)])" and E: "E \<le> 0xC00000"
  obtains v' h' where "vector_init (Some v) 16 8 h = Some (Some v', h', 1)" "vec_ok h' (apps_heap E) v' 128 []" "element_size v' = 8"
    "unat (capacity v') = 16" "vec_bytes v' 128 = {E + 12..<E + 140}"
    "\<And>x. x < E \<Longrightarrow> ram h' (of_nat x) = ram h (of_nat x)"
proof -
  have al: "a_alloc (unat (ALIGN 128)) E [(4194292, True)] = Some (E + 12, [(128, False), (4194152, True)])"
    by (simp add: ALIGN_def ALIGNMENT_def)
  obtain h' where h': "kmalloc 128 h = Some (h', of_nat (E + 12))" "heap_ok h' (apps_heap E)" "agree h h' (client_bytes E [(4194292, True)])"
    using kmalloc_refines [OF ok, of 128] unfolding al apps_heap_def by auto
  define v' where "v' = v\<lparr>vsize := 0, capacity := 16, element_size := 8, vdata := of_nat (E + 12)\<rparr>"
  have p: "unat (of_nat (E + 12) :: u32) = E + 12" using E by (intro unat_of_nat_u32) simp
  have p0: "of_nat (E + 12) \<noteq> (0 :: u32)"
  proof
    assume "of_nat (E + 12) = (0 :: u32)"
    from arg_cong [OF this, of unat] show False unfolding p by simp
  qed
  have "vector_init (Some v) 16 8 h = Some (Some v', h', 1)"
    using h'(1) p0 by (simp add: vector_init_def v'_def)
  moreover have lv: "live (apps_heap E) (E + 12) 128" unfolding live_def apps_heap_def by (auto intro: exI [of _ "[]"])
  then have "vec_ok h' (apps_heap E) v' 128 []" using h'(2) p by (simp add: vec_ok_def v'_def)
  moreover have "vec_bytes v' 128 = {E + 12..<E + 12 + 128}" unfolding vec_bytes_def v'_def using p by simp
  then have "vec_bytes v' 128 = {E + 12..<E + 140}" by (simp add: add.commute)
  moreover have "ram h' (of_nat x) = ram h (of_nat x)" if "x < E" for x
    using agree_client [OF h'(3), of x] that E by (simp add: client_bytes_def)
  ultimately show thesis using that [of v' h'] by (simp add: v'_def)
qed

lemma register_app_step:
  assumes ok: "vec_ok (kheap_of k) A (apps_vector k) t xs" and es: "element_size (apps_vector k) = 8"
    and room: "unat (vsize (apps_vector k)) < unat (capacity (apps_vector k))"
    and sl: "slot_bytes img \<subseteq> client A - vec_bytes (apps_vector k) t" "0 < unat (new_app img)"
  shows "\<exists>h'. register_app img (name, a) k = Some (set_heap h' (k\<lparr>apps_vector := (apps_vector k)\<lparr>vsize := vsize (apps_vector k) + 1\<rparr>\<rparr>)) \<and>
    vec_ok h' A ((apps_vector k)\<lparr>vsize := vsize (apps_vector k) + 1\<rparr>) t (xs @ [console_app img a]) \<and>
    (\<forall>x \<in> client A. x \<notin> slot_bytes img \<longrightarrow> x \<notin> vec_bytes (apps_vector k) t \<longrightarrow> ram h' (of_nat x) = kram k (of_nat x))"
proof -
  let ?v = "apps_vector k" and ?S = "unat (new_app img)"
  define h0 where "h0 = (kheap_of k)\<lparr>ram := put_ram (new_app img) (console_app img a) (kram k)\<rparr>"
  have hk: "heap_ok (kheap_of k) A" using ok by (simp add: vec_ok_def)
  have l8: "length (console_app img a) = 8" by (simp add: console_app_def)
  have "?S + 7 \<in> client A" using subsetD [OF sl(1), of "?S + 7"] by (simp add: slot_bytes_def)
  then have Sb: "?S + 8 \<le> 4294967296" using client_bound [OF hk] by force
  have S: "new_app img = of_nat ?S" by simp
  have r0: "ram h0 (of_nat x) = (if ?S \<le> x \<and> x < ?S + 8 then console_app img a ! (x - ?S) else kram k (of_nat x))" if "x < 4294967296" for x
    using put_ram_nat [of ?S "console_app img a" x "kram k"] Sb that unfolding l8 h0_def by simp
  have hk0: "heap_ok h0 A" unfolding h0_def
  proof (rule heap_ok_ram [OF hk])
    fix x :: nat assume x: "x < 4294967296" "x \<notin> client A"
    then have "\<not> (?S \<le> x \<and> x < ?S + 8)" using sl(1) by (auto simp: slot_bytes_def)
    then show "put_ram (new_app img) (console_app img a) (kram k) (of_nat x) = kram k (of_nat x)"
      using r0 [OF x(1)] by (simp only: if_False) (simp add: h0_def)
  qed
  have lv: "live A (unat (vdata ?v)) t" using ok by (simp add: vec_ok_def)
  have lc: "unat (vdata ?v) + t < 4294967296" using live_client [OF hk lv] by blast
  have vb: "unat (vsize ?v) * 8 \<le> t"
  proof -
    have "unat (capacity ?v) * 8 \<le> t" using ok es by (simp add: vec_ok_def)
    then show ?thesis using room by linarith
  qed
  have "load_ram (ram h0) (of_nat (unat (vdata ?v))) (unat (vsize ?v) * 8) = load_ram (kram k) (of_nat (unat (vdata ?v))) (unat (vsize ?v) * 8)"
  proof (rule load_ram_cong)
    fix i assume i: "i < unat (vsize ?v) * 8"
    then have "unat (vdata ?v) + i \<in> vec_bytes ?v t" using vb by (simp add: vec_bytes_def)
    then have n: "\<not> (?S \<le> unat (vdata ?v) + i \<and> unat (vdata ?v) + i < ?S + 8)" using sl(1) by (auto simp: slot_bytes_def)
    have "unat (vdata ?v) + i < 4294967296" using i vb lc by linarith
    from r0 [OF this] show "ram h0 (of_nat (unat (vdata ?v) + i)) = kram k (of_nat (unat (vdata ?v) + i))" using n by (simp only: if_False)
  qed
  then have ok0: "vec_ok h0 A ?v t xs" using ok hk0 es by (simp add: vec_ok_def)
  have elem: "load_ram (ram h0) (of_nat ?S) 8 = console_app img a"
    by (rule load_ram_eqI [OF _ l8]) (use r0 Sb in \<open>simp del: of_nat_add\<close>)
  define h1 where "h1 = h0\<lparr>ram := copy_ram (unat (element_size ?v)) (vdata ?v + vsize ?v * element_size ?v) (of_nat ?S) (ram h0)\<rparr>"
  have e8: "{?S..<?S + unat (element_size ?v)} \<subseteq> client A - vec_bytes ?v t" "?S + unat (element_size ?v) \<le> 4294967296" using sl(1) Sb es by (simp_all add: slot_bytes_def)
  note st = vec_store [OF ok0 room e8, folded h1_def]
  have n0: "new_app img \<noteq> 0" using sl(2) by auto
  have nf: "\<not> capacity ?v \<le> vsize ?v" using room by (simp add: word_le_nat_alt)
  have push: "vector_push_back (Some ?v) (new_app img) h0 = Some (Some (?v\<lparr>vsize := vsize ?v + 1\<rparr>), h1, 1)"
    using n0 nf by (simp add: vector_push_back_def h1_def)
  have "register_app img (name, a) k = Some (set_heap h1 (k\<lparr>apps_vector := ?v\<lparr>vsize := vsize ?v + 1\<rparr>\<rparr>))"
    unfolding register_app_def prod.case Let_def h0_def [symmetric] push by simp
  moreover have "vec_ok h1 A (?v\<lparr>vsize := vsize ?v + 1\<rparr>) t (xs @ [console_app img a])"
    using st(1) es elem by simp
  moreover have "ram h1 (of_nat x) = kram k (of_nat x)" if "x \<in> client A" "x \<notin> slot_bytes img" "x \<notin> vec_bytes ?v t" for x
  proof -
    have n: "\<not> (?S \<le> x \<and> x < ?S + 8)" using that(2) by (auto simp: slot_bytes_def)
    have "ram h1 (of_nat x) = ram h0 (of_nat x)" using st(2) that(1,3) by blast
    then show ?thesis using r0 [OF client_bound [OF hk that(1)]] n by (simp only: if_False)
  qed
  ultimately show ?thesis by blast
qed

lemma register_apps:
  assumes "vec_ok (kheap_of k) A (apps_vector k) t xs" and "element_size (apps_vector k) = 8"
    and "length xs + length L \<le> unat (capacity (apps_vector k))"
    and "slot_bytes img \<subseteq> client A - vec_bytes (apps_vector k) t" "0 < unat (new_app img)"
  shows "\<exists>h' v'. fold (\<lambda>na k. Option.bind k (register_app img na)) L (Some k) = Some (set_heap h' (k\<lparr>apps_vector := v'\<rparr>)) \<and>
    element_size v' = 8 \<and> vec_bytes v' t = vec_bytes (apps_vector k) t \<and>
    vec_ok h' A v' t (xs @ map (console_app img \<circ> snd) L) \<and>
    (\<forall>x \<in> client A. x \<notin> slot_bytes img \<longrightarrow> x \<notin> vec_bytes (apps_vector k) t \<longrightarrow> ram h' (of_nat x) = kram k (of_nat x))"
  using assms(1-4)
proof (induction L arbitrary: k xs)
  case Nil
  then show ?case by (intro exI [of _ "kheap_of k"] exI [of _ "apps_vector k"]) (simp add: set_heap_def)
next
  case (Cons na L)
  obtain name a where na: "na = (name, a)" by (cases na)
  let ?v = "(apps_vector k)\<lparr>vsize := vsize (apps_vector k) + 1\<rparr>"
  have "length xs = unat (vsize (apps_vector k))" using Cons.prems(1) by (simp add: vec_ok_def)
  then have room: "unat (vsize (apps_vector k)) < unat (capacity (apps_vector k))" using Cons.prems(3) by simp
  obtain h1 where h1: "register_app img (name, a) k = Some (set_heap h1 (k\<lparr>apps_vector := ?v\<rparr>))" "vec_ok h1 A ?v t (xs @ [console_app img a])"
    "\<forall>x \<in> client A. x \<notin> slot_bytes img \<longrightarrow> x \<notin> vec_bytes (apps_vector k) t \<longrightarrow> ram h1 (of_nat x) = kram k (of_nat x)"
    using register_app_step [OF Cons.prems(1,2) room Cons.prems(4) assms(5)] by blast
  let ?k1 = "set_heap h1 (k\<lparr>apps_vector := ?v\<rparr>)"
  have av: "apps_vector ?k1 = ?v" "kheap_of ?k1 = h1" "vec_bytes ?v t = vec_bytes (apps_vector k) t" by (simp_all add: vec_bytes_def)
  obtain h' v' where r: "fold (\<lambda>na k. Option.bind k (register_app img na)) L (Some ?k1) = Some (set_heap h' (?k1\<lparr>apps_vector := v'\<rparr>))"
    "element_size v' = 8" "vec_bytes v' t = vec_bytes (apps_vector ?k1) t" "vec_ok h' A v' t ((xs @ [console_app img a]) @ map (console_app img \<circ> snd) L)"
    "\<forall>x \<in> client A. x \<notin> slot_bytes img \<longrightarrow> x \<notin> vec_bytes (apps_vector ?k1) t \<longrightarrow> ram h' (of_nat x) = kram ?k1 (of_nat x)"
  proof -
    have "\<exists>h' v'. fold (\<lambda>na k. Option.bind k (register_app img na)) L (Some ?k1) = Some (set_heap h' (?k1\<lparr>apps_vector := v'\<rparr>)) \<and>
      element_size v' = 8 \<and> vec_bytes v' t = vec_bytes (apps_vector ?k1) t \<and>
      vec_ok h' A v' t ((xs @ [console_app img a]) @ map (console_app img \<circ> snd) L) \<and>
      (\<forall>x \<in> client A. x \<notin> slot_bytes img \<longrightarrow> x \<notin> vec_bytes (apps_vector ?k1) t \<longrightarrow> ram h' (of_nat x) = kram ?k1 (of_nat x))"
      by (rule Cons.IH) (use h1(2) Cons.prems av in simp_all)
    then show thesis using that by blast
  qed
  have "set_heap h' (?k1\<lparr>apps_vector := v'\<rparr>) = set_heap h' (k\<lparr>apps_vector := v'\<rparr>)" by (simp add: set_heap_def)
  moreover have "fold (\<lambda>na k. Option.bind k (register_app img na)) (na # L) (Some k) = fold (\<lambda>na k. Option.bind k (register_app img na)) L (Some ?k1)"
    using h1(1) by (simp add: na)
  moreover have "vec_ok h' A v' t (xs @ map (console_app img \<circ> snd) (na # L))" using r(4) by (simp add: na)
  moreover have "\<forall>x \<in> client A. x \<notin> slot_bytes img \<longrightarrow> x \<notin> vec_bytes (apps_vector k) t \<longrightarrow> ram h' (of_nat x) = kram k (of_nat x)"
    using r(5) h1(3) unfolding av by metis
  ultimately show ?case using r(1-3) unfolding av by (intro exI [of _ h'] exI [of _ v'] conjI) (simp_all only:)
qed

section \<open>The invariant of the kernel\<close>

lemma names_placed_frame:
  assumes n: "names_placed img m" and b: "name_bytes img \<subseteq> {..<4294967296}" and f: "\<forall>x \<in> name_bytes img. m' (of_nat x) = m (of_nat x)"
  shows "names_placed img m'"
proof -
  have "load_ram m' (literal img a) (length name + 1) = name @ [0]" if "(name, a) \<in> set app_table" for name a
  proof -
    have "load_ram m' (of_nat (unat (literal img a))) (length name + 1) = load_ram m (of_nat (unat (literal img a))) (length name + 1)"
    proof (rule load_ram_cong)
      fix i assume "i < length name + 1"
      then have "unat (literal img a) + i \<in> name_bytes img" using that unfolding name_bytes_def by force
      then show "m' (of_nat (unat (literal img a) + i)) = m (of_nat (unat (literal img a) + i))" using f by blast
    qed
    then show ?thesis using n that unfolding names_placed_def by auto
  qed
  then show ?thesis unfolding names_placed_def by blast
qed

lemma vec_ok_frame:
  assumes v: "vec_ok h A v t xs" and h': "heap_ok h' A'" "live A' (unat (vdata v)) t" and r: "\<forall>x \<in> vec_bytes v t. ram h' (of_nat x) = ram h (of_nat x)"
  shows "vec_ok h' A' v t xs"
proof -
  have o: "heap_ok h A" "live A (unat (vdata v)) t" "unat (vsize v) * unat (element_size v) \<le> t"
  proof -
    show "heap_ok h A" "live A (unat (vdata v)) t" using v by (simp_all add: vec_ok_def)
    have "unat (vsize v) * unat (element_size v) \<le> unat (capacity v) * unat (element_size v)" using v by (simp add: vec_ok_def)
    then show "unat (vsize v) * unat (element_size v) \<le> t" using v unfolding vec_ok_def by linarith
  qed
  have "load_ram (ram h') (of_nat (unat (vdata v))) (unat (vsize v) * unat (element_size v)) =
      load_ram (ram h) (of_nat (unat (vdata v))) (unat (vsize v) * unat (element_size v))"
  proof (rule load_ram_cong)
    fix i assume "i < unat (vsize v) * unat (element_size v)"
    then have "unat (vdata v) + i \<in> {unat (vdata v)..<unat (vdata v) + t}" using o(3) by simp
    then show "ram h' (of_nat (unat (vdata v) + i)) = ram h (of_nat (unat (vdata v) + i))" using r unfolding vec_bytes_def by blast
  qed
  then show ?thesis using v h' by (simp add: vec_ok_def)
qed

lemma table_client: "isolated A s \<Longrightarrow> present s i \<Longrightarrow> x < 4294967296 \<Longrightarrow> x div 4096 = table_frame s i \<Longrightarrow> x \<in> client A"
  by (metis isolated_def data_frame_def)

lemma kernel_ok_heap_ok: "kernel_ok img A t k \<Longrightarrow> heap_ok (kheap_of k) A"
  by (simp add: kernel_ok_def vec_ok_def)

text \<open>The invariant only depends on the heap, the tables, the vector and the console.\<close>

lemma kernel_ok_cong:
  assumes "kernel_ok img A t k" and "kheap_of k' = kheap_of k" "mpaging (mach k') = mpaging (mach k)" "apps_vector k' = apps_vector k" "console_ok (con k')"
  shows "kernel_ok img A t k'"
proof -
  have "pg (mach k') = pg (mach k)" using assms(2,3) by (simp add: pg_def)
  then show ?thesis using assms unfolding kernel_ok_def by simp
qed

text \<open>A change of the heap that keeps the blocks in use and their bytes, besides bytes that hold nothing.\<close>

lemma kernel_ok_step:
  assumes k: "kernel_ok img A t k" and h': "heap_keeps A R (kheap_of k) A' h'"
    and R: "R \<inter> name_bytes img = {}" "R \<inter> vec_bytes (apps_vector k) t = {}" "\<forall>x \<in> R. data_frame (pg (mach k)) (x div 4096)"
  shows "kernel_ok img A' t (set_heap h' k)"
proof -
  have o: "vec_ok (kheap_of k) A (apps_vector k) t (map (console_app img \<circ> snd) app_table)" "names_placed img (kram k)"
    "name_bytes img \<subseteq> client A - vec_bytes (apps_vector k) t" "paging_ok (pg (mach k))" "isolated A (pg (mach k))"
    using k by (simp_all add: kernel_ok_def)
  have h: "heap_ok h' A'" "client A \<subseteq> client A'" "\<forall>q s. 0 < s \<longrightarrow> live A q s \<longrightarrow> live A' q s" "\<forall>x \<in> client A - R. ram h' (of_nat x) = kram k (of_nat x)"
    using h' by (simp_all add: heap_keeps_def)
  have hk: "heap_ok (kheap_of k) A" using o(1) by (simp add: vec_ok_def)
  have lv: "live A (unat (vdata (apps_vector k))) t" using o(1) by (simp add: vec_ok_def)
  have "0 < unat (capacity (apps_vector k)) * unat (element_size (apps_vector k))" using o(1) by (simp add: vec_ok_def)
  moreover have "unat (capacity (apps_vector k)) * unat (element_size (apps_vector k)) \<le> t" using o(1) by (simp add: vec_ok_def)
  ultimately have "0 < t" by linarith
  then have lv': "live A' (unat (vdata (apps_vector k))) t" using lv h(3) by blast
  have "vec_bytes (apps_vector k) t \<subseteq> client A - R" using live_client [OF hk lv] R(2) unfolding vec_bytes_def by blast
  then have "\<forall>x \<in> vec_bytes (apps_vector k) t. ram h' (of_nat x) = kram k (of_nat x)" using h(4) by blast
  then have "vec_ok h' A' (apps_vector k) t (map (console_app img \<circ> snd) app_table)" by (rule vec_ok_frame [OF o(1) h(1) lv'])
  moreover have "name_bytes img \<subseteq> {..<4294967296}" using o(3) client_bound [OF hk] by blast
  then have "names_placed img (ram h')" by (rule names_placed_frame [OF o(2)]) (use o(3) h(4) R(1) in blast)
  moreover have "name_bytes img \<subseteq> client A' - vec_bytes (apps_vector k) t" using o(3) h(2) by blast
  moreover have mm: "memory (pg (mach k)) = kram k" by (simp add: pg_def)
  have tb: "x \<in> client A - R" if "present (pg (mach k)) i" "x < 4294967296" "x div 4096 = table_frame (pg (mach k)) i" for x i
  proof -
    have "x \<notin> R"
    proof
      assume "x \<in> R"
      then have "data_frame (pg (mach k)) (x div 4096)" using R(3) by blast
      then have "table_frame (pg (mach k)) i \<noteq> x div 4096" using that(1) by (simp add: data_frame_def)
      then show False using that(3) by simp
    qed
    then show ?thesis using table_client [OF o(5) that] by blast
  qed
  have "translate (pg (mach (set_heap h' k))) u = translate (pg (mach k)) u" for u
    unfolding pg_set_heap
    by (rule translate_memory [OF o(4)]) (use tb h(4) mm in auto)
  moreover have "paging_ok (pg (mach (set_heap h' k)))" "isolated A' (pg (mach (set_heap h' k)))"
    using o(4,5) h(2) unfolding pg_set_heap isolated_def by auto
  ultimately show ?thesis using k unfolding kernel_ok_def by simp
qed

lemma data_frame_cong:
  fixes k k' :: kernel
  assumes "mpaging (mach k') = mpaging (mach k)"
  shows "data_frame (pg (mach k')) i = data_frame (pg (mach k)) i"
proof -
  have "pg (mach k') = (pg (mach k))\<lparr>memory := kram k'\<rparr>" using assms by (simp add: pg_def)
  then show ?thesis by (simp add: data_frame_def)
qed

text \<open>What \<open>scratch_ok\<close> depends on.\<close>

lemma scratch_ok_cong:
  assumes "scratch_ok img A t k" and "mpaging (mach k') = mpaging (mach k)" "apps_vector k' = apps_vector k" "rx_buffer (netw k') = rx_buffer (netw k)"
    and "ring_ok (netw k')" and "client A \<subseteq> client A'"
  shows "scratch_ok img A' t k'"
proof -
  have "scratch_bytes img k' = scratch_bytes img k" using assms(4) by (simp add: scratch_bytes_def ring_bytes_def)
  then show ?thesis using assms(1,3-6) data_frame_cong [OF assms(2)] unfolding scratch_ok_def by auto
qed

lemma running_step:
  assumes k: "running img A t k" and h': "heap_keeps A (scratch_bytes img k) (kheap_of k) A' h'"
  shows "running img A' t (set_heap h' k)"
proof -
  have s: "scratch_ok img A t k" using k by (simp add: running_def)
  have "kernel_ok img A' t (set_heap h' k)"
    by (rule kernel_ok_step [OF _ h']) (use k s in \<open>auto simp: running_def scratch_ok_def\<close>)
  moreover have "scratch_ok img A' t (set_heap h' k)"
    by (rule scratch_ok_cong [OF s]) (use s h' in \<open>simp_all add: scratch_ok_def heap_keeps_def\<close>)
  ultimately show ?thesis by (simp add: running_def)
qed

lemma fold_kprint:
  "\<exists>c. fold kprint css k = k\<lparr>con := c\<rparr> \<and> (console_ok (con k) \<longrightarrow> console_ok c) \<and> shift_pressed c = shift_pressed (con k)"
proof (induction css arbitrary: k)
  case Nil
  show ?case by (intro exI [of _ "con k"]) simp
next
  case (Cons cs css)
  obtain c where c: "fold kprint css (kprint cs k) = (kprint cs k)\<lparr>con := c\<rparr>" "console_ok (con (kprint cs k)) \<longrightarrow> console_ok c"
    "shift_pressed c = shift_pressed (con (kprint cs k))"
    using Cons.IH by blast
  have "(kprint cs k)\<lparr>con := c\<rparr> = k\<lparr>con := c\<rparr>" by (simp add: kprint_def)
  then show ?case using c con_kprint [of k cs] by (intro exI [of _ c]) simp
qed

lemma start_network_ok:
  assumes ok: "kernel_ok img A t k" and fit: "fits A 9708" and card: "wait_reset (reset_reads P) \<noteq> None"
  shows "\<exists>k' A'. start_network P k = Some k' \<and> kernel_ok img A' t k' \<and> keys k' = keys k \<and> kfat k' = kfat k \<and>
    polls k' = polls k \<and> shift_pressed (con k') = shift_pressed (con k) \<and> free_frames (pg (mach k')) = free_frames (pg (mach k)) \<and>
    (scratch_ok img A t k \<and> rx_buffer (netw k) = 0 \<longrightarrow> scratch_ok img A' t k')"
proof (cases "0 < pci_find_rtl8139 (pci_config P)")
  case False
  let ?k = "kprint (cstr ''Network: No RTL8139 card found.'' @ [0x0A]) k"
  have "kernel_ok img A t ?k"
    by (rule kernel_ok_cong [OF ok]) (use ok con_kprint in \<open>simp_all add: kernel_ok_def\<close>)
  moreover have "scratch_ok img A t k \<longrightarrow> scratch_ok img A t ?k"
    using scratch_ok_cong [of img A t k ?k A] by (simp add: scratch_ok_def)
  ultimately show ?thesis using False unfolding start_network_def Let_def
    by (intro exI [of _ ?k] exI [of _ A]) simp
next
  case True
  let ?k = "kprint (cstr ''Network: RTL8139 found and initialized.'' @ [0x0A]) k"
  have okk: "kernel_ok img A t ?k"
    by (rule kernel_ok_cong [OF ok]) (use ok con_kprint in \<open>simp_all add: kernel_ok_def\<close>)
  have h5: "heap_ok (kheap_of k) A" by (rule kernel_ok_heap_ok [OF ok])
  obtain h6 p A6 s where a: "kmalloc 9708 (kheap_of k) = Some (h6, p)" "p \<noteq> 0" "heap_ok h6 A6" "9708 \<le> s" "live A6 (unat p) s"
    "{unat p..<unat p + s} \<inter> client A = {}" "client A6 = client A \<union> {unat p..<unat p + s}"
    "\<forall>x \<in> client A. ram h6 (of_nat x) = kram k (of_nat x)" "\<forall>q t. live A q t \<longrightarrow> live A6 q t"
    using kmalloc_room [OF h5 fit] by auto
  have pb: "unat p + s < 4294967296" "{unat p..<unat p + s} \<subseteq> client A6" using live_client [OF a(3,5)] by auto
  define m7 where "m7 = fill_ram 9708 (of_nat (unat p)) 0 (ram h6)"
  have m7: "m7 (of_nat x) = (if unat p \<le> x \<and> x < unat p + 9708 then 0 else ram h6 (of_nat x))" if "x < 4294967296" for x
    unfolding m7_def by (rule fill_ram_nat) (use that pb a(4) in auto)
  have in6: "x \<in> client A6" if "unat p \<le> x \<and> x < unat p + 9708" for x using that a(4) pb(2) by (auto simp: subset_iff)
  have out: "x \<notin> client A" if "unat p \<le> x \<and> x < unat p + 9708" for x
    using that a(4) disjoint_iff [THEN iffD1, OF a(6)] by auto
  have ok7: "heap_ok (h6\<lparr>ram := m7\<rparr>) A6"
    by (rule heap_ok_ram [OF a(3)]) (use m7 in6 in auto)
  have r7: "\<forall>x \<in> client A. ram (h6\<lparr>ram := m7\<rparr>) (of_nat x) = kram ?k (of_nat x)"
    using m7 [OF client_bound [OF h5]] out a(8) by auto
  have cl: "client A \<subseteq> client A6" using a(7) by blast
  have hk: "heap_keeps A {} (kheap_of ?k) A6 (h6\<lparr>ram := m7\<rparr>)" using ok7 cl a(9) r7 by (simp add: heap_keeps_def)
  note ok8 = kernel_ok_step [OF okk hk, simplified]
  obtain vs where vs: "wait_reset (reset_reads P) = Some vs" using card by blast
  define n where "n = (net.tty_update (\<lambda>_. []) ((netw ?k)\<lparr>heap := kheap_of ?k\<rparr>))\<lparr>rx_buffer := p, heap := h6\<lparr>ram := m7\<rparr>, mac_address := map (station P) [0..<6]\<rparr>"
  define k9 where "k9 = kprint (net.tty n) (set_heap (heap n) (?k\<lparr>netw := n\<rparr>))"
  have hn: "heap n = h6\<lparr>ram := m7\<rparr>" by (simp add: n_def)
  have net: "on_net (rtl8139_init (reset_reads P) (station P)) ?k = Some k9"
    unfolding on_net_def rtl8139_init_def using a(1) vs by (simp add: k9_def n_def m7_def Let_def)
  have "kernel_ok img A6 t k9"
  proof (rule kernel_ok_cong [OF ok8])
    show "kheap_of k9 = kheap_of (set_heap (h6\<lparr>ram := m7\<rparr>) ?k)" "mpaging (mach k9) = mpaging (mach (set_heap (h6\<lparr>ram := m7\<rparr>) ?k))"
      "apps_vector k9 = apps_vector (set_heap (h6\<lparr>ram := m7\<rparr>) ?k)"
      unfolding k9_def hn by (simp_all add: set_heap_def)
    have "console_ok (con (set_heap (heap n) (?k\<lparr>netw := n\<rparr>)))" using ok con_kprint by (simp add: set_heap_def kernel_ok_def)
    then show "console_ok (con k9)" unfolding k9_def by (rule con_kprint)
  qed
  moreover have "free_frames (pg (mach k9)) = free_frames (pg (mach k))"
    by (simp add: k9_def set_heap_def pg_def free_frames_def used_frame_def)
  moreover have "keys k9 = keys k" "kfat k9 = kfat k" "polls k9 = polls k" "shift_pressed (con k9) = shift_pressed (con k)"
    by (simp_all add: k9_def set_heap_def)
  moreover have "scratch_ok img A6 t k9" if sc: "scratch_ok img A t k" "rx_buffer (netw k) = 0"
  proof -
    have n9: "netw k9 = n" "apps_vector k9 = apps_vector k" "mpaging (mach k9) = mpaging (mach k)" by (simp_all add: k9_def)
    define ring where "ring = {unat p..<unat p + 9708}"
    have S: "scratch_bytes img k9 = scratch_bytes img k \<union> ring"
      using a(2) sc(2) by (auto simp: scratch_bytes_def ring_bytes_def n9 n_def ring_def)
    have rng: "ring \<subseteq> {unat p..<unat p + s}" using a(4) by (auto simp: ring_def)
    have df: "data_frame (pg (mach k9)) (x div 4096)" if "x \<in> scratch_bytes img k9" for x
    proof -
      have "isolated A (pg (mach k))" using ok by (simp add: kernel_ok_def)
      moreover have "x \<in> scratch_bytes img k \<or> x < 4294967296 \<and> x \<notin> client A" using that rng a(6) pb(1) unfolding S by auto
      ultimately show ?thesis using sc(1) unfolding data_frame_cong [OF n9(3)] scratch_ok_def isolated_def by blast
    qed
    have lv: "vec_bytes (apps_vector k) t \<subseteq> client A" "name_bytes img \<subseteq> client A"
      using ok live_client [OF h5, of "unat (vdata (apps_vector k))" t] by (auto simp: kernel_ok_def vec_ok_def vec_bytes_def)
    have "ring \<subseteq> client A6 - vec_bytes (apps_vector k) t - name_bytes img" using rng a(6,7) lv by blast
    then have "scratch_bytes img k9 \<subseteq> client A6 - vec_bytes (apps_vector k9) t - name_bytes img"
      using sc(1) cl unfolding S n9(2) scratch_ok_def by blast
    moreover have "ring_ok (netw k9)" using sc(1) by (simp add: scratch_ok_def n9 n_def ring_ok_def)
    moreover have "unat (rx_buffer (netw k9)) + 9708 < 4294967296" using pb(1) a(4) by (simp add: n9 n_def)
    moreover have "\<forall>i < 3. point_slot img i \<noteq> 0" using sc(1) by (simp add: scratch_ok_def)
    ultimately show ?thesis using df unfolding scratch_ok_def by blast
  qed
  ultimately show ?thesis using True net unfolding start_network_def Let_def
    by (intro exI [of _ k9] exI [of _ A6]) simp
qed

lemma kernel_starts:
  assumes img: "image_ok img P (kram k)" and len: "length (page_directory (mpaging (mach k))) = 1024" "length (frame_bitmap (mpaging (mach k))) = BITMAP_SIZE"
    and con: "2000 \<le> length (video (con k))" and card: "wait_reset (reset_reads P) \<noteq> None"
  shows "\<exists>k' A t. kernel_start img P k = Some k' \<and> kernel_ok img A t k' \<and> keys k' = keys k \<and> polls k' = polls k \<and>
    shift_pressed (con k') = shift_pressed (con k) \<and> fs (kfat k') = fs (fat32_init (kfat k)) \<and> disk (kfat k') = disk (kfat k) \<and>
    free_frames (pg (mach k')) = {(unat (kernel_end P) + 4194304 + 4095) div 4096..<16384} \<and>
    (locals_ok img P \<and> rx_buffer (netw k) = 0 \<and> ring_ok (netw k) \<longrightarrow> running img A t k')"
proof -
  define k1 where "k1 = start_memory P k"
  define E where "E = unat (kernel_end P)"
  note m = start_memory_facts [OF img len, folded k1_def, folded E_def]
  have E: "E \<le> 0xC00000" using img by (simp add: image_ok_def E_def)
  define k2 where "k2 = start_files (start_segments P k1)"
  have k2: "kheap_of k2 = kheap_of k1" "pg (mach k2) = pg (mach k1)" "con k2 = con k1" "keys k2 = keys k1" "kfat k2 = fat32_init (kfat k1)"
    "mpaging (mach k2) = mpaging (mach k1)" "polls k2 = polls k1" "netw k2 = netw k1"
    by (simp_all add: k2_def start_files_def start_segments_def vfs_init_def pg_def Let_def split_beta)
  have cc: "console_ok (console_clear (con k2))" using con m(7) k2(3) by (simp add: console_clear_eq console_ok_def)
  obtain c where c: "fold kprint banner (k2\<lparr>con := console_clear (con k2)\<rparr>) = k2\<lparr>con := c\<rparr>" "console_ok c"
      "shift_pressed c = shift_pressed (con k)"
    using fold_kprint [of banner "k2\<lparr>con := console_clear (con k2)\<rparr>"] cc con m(7) k2(3) by (auto simp: console_clear_eq)
  let ?k3 = "k2\<lparr>con := c\<rparr>"
  have h3: "heap_ok (kheap_of ?k3) (E, [(4194292, True)])" using m(1) k2(1) by simp
  obtain v4 h4 where v4: "vector_init (Some (apps_vector ?k3)) 16 8 (kheap_of ?k3) = Some (Some v4, h4, 1)" "vec_ok h4 (apps_heap E) v4 128 []"
    "element_size v4 = 8" "unat (capacity v4) = 16" "vec_bytes v4 128 = {E + 12..<E + 140}"
    "\<And>x. x < E \<Longrightarrow> ram h4 (of_nat x) = kram ?k3 (of_nat x)"
    by (rule init_apps [OF h3 E, where v = "apps_vector ?k3"], rule that, assumption, assumption, assumption, assumption, assumption, blast)
  let ?k4 = "set_heap h4 (?k3\<lparr>apps_vector := v4\<rparr>)"
  have sl: "slot_bytes img \<subseteq> {..<E}" "0 < unat (new_app img)" "slot_bytes img \<inter> table_bytes P = {}"
    using img by (auto simp: image_ok_def slot_bytes_def E_def)
  have below: "{..<E} \<subseteq> client (apps_heap E) - vec_bytes v4 128" using client_start(2) [OF _ E] v4(5) by auto
  have "\<exists>h' v'. fold (\<lambda>na k. Option.bind k (register_app img na)) app_table (Some ?k4) = Some (set_heap h' (?k4\<lparr>apps_vector := v'\<rparr>)) \<and>
    element_size v' = 8 \<and> vec_bytes v' 128 = vec_bytes (apps_vector ?k4) 128 \<and>
    vec_ok h' (apps_heap E) v' 128 ([] @ map (console_app img \<circ> snd) app_table) \<and>
    (\<forall>x \<in> client (apps_heap E). x \<notin> slot_bytes img \<longrightarrow> x \<notin> vec_bytes (apps_vector ?k4) 128 \<longrightarrow> ram h' (of_nat x) = kram ?k4 (of_nat x))"
    by (rule register_apps) (use v4 sl below in \<open>auto simp: app_table_def\<close>)
  then obtain h5 v5 where v5: "fold (\<lambda>na k. Option.bind k (register_app img na)) app_table (Some ?k4) = Some (set_heap h5 (?k4\<lparr>apps_vector := v5\<rparr>))"
    "element_size v5 = 8" "vec_bytes v5 128 = {E + 12..<E + 140}" "vec_ok h5 (apps_heap E) v5 128 (map (console_app img \<circ> snd) app_table)"
    "\<forall>x \<in> client (apps_heap E). x \<notin> slot_bytes img \<longrightarrow> x \<notin> {E + 12..<E + 140} \<longrightarrow> ram h5 (of_nat x) = ram h4 (of_nat x)"
    using v4(5) by auto
  define k5 where "k5 = set_heap h5 (?k4\<lparr>apps_vector := v5\<rparr>)"
  have reg: "register_all_apps img ?k3 = Some k5"
    unfolding register_all_apps_def v4(1) using v5(1) by (simp add: k5_def)
  have k5: "kheap_of k5 = h5" "apps_vector k5 = v5" "con k5 = c" "keys k5 = keys k" "kfat k5 = fat32_init (kfat k)"
    "polls k5 = polls k" "pg (mach k5) = (pg (mach k1))\<lparr>memory := ram h5\<rparr>" "netw k5 = netw k"
    using k2 m(7-12) by (simp_all add: k5_def set_heap_def pg_def)
  have low: "ram h5 (of_nat x) = kram k1 (of_nat x)" if "x < E" "x \<notin> slot_bytes img" for x
    using v5(5) v4(6) [OF that(1)] that client_start(2) [OF that(1) E] k2(1) by simp
  have tb: "x < E \<and> x \<in> table_bytes P" if "x div 4096 = table_frame (pg (mach k1)) i" "present (pg (mach k1)) i" for x i
  proof -
    let ?f = "table_frame (pg (mach k1)) i"
    have t: "?f * 4096 \<in> table_bytes P" using m(5) that(2) .
    have pt: "unat (page_tables P) mod 4096 = 0" "unat (page_tables P) + 16384 \<le> E" using img by (simp_all add: image_ok_def E_def)
    then obtain q where q: "unat (page_tables P) = 4096 * q" using mod_eq_0_iff_dvd dvdE by metis
    have f: "q \<le> ?f" "?f < q + 4" using t by (simp_all add: table_bytes_def q)
    have "x = ?f * 4096 + x mod 4096" "x mod 4096 < 4096" using div_mult_mod_eq [of x 4096] that(1) by simp_all
    then show ?thesis using f pt(2) unfolding table_bytes_def q atLeastLessThan_iff by linarith
  qed
  have df: "data_frame (pg (mach k5)) (x div 4096)" if x: "x < E + 4194304" "x \<notin> table_bytes P" for x
  proof -
    have "x div 4096 < (E + 4194304 + 4095) div 4096" using div_le_mono [of "x + 4096" "E + 4194304 + 4095" 4096] x(1) by simp
    moreover have "(E + 4194304 + 4095) div 4096 \<le> 16384" using div_le_mono [of "E + 4194304 + 4095" "67108864" 4096] E by simp
    ultimately have "x div 4096 \<notin> free_frames (pg (mach k1))" "x div 4096 < TOTAL_FRAMES"
      unfolding m(4) TOTAL_FRAMES_def by simp_all
    then have "used_frame (pg (mach k1)) (x div 4096)" "x div 4096 < TOTAL_FRAMES" by (simp_all add: free_frames_def)
    moreover have "table_frame (pg (mach k1)) i \<noteq> x div 4096" if "present (pg (mach k1)) i" for i using tb [of x i] that x(2) by auto
    ultimately show ?thesis unfolding k5(7) fields_memory by (simp add: data_frame_def)
  qed
  have ok5: "kernel_ok img (apps_heap E) 128 k5"
  proof -
    have nb: "name_bytes img \<subseteq> {..<E} - table_bytes P - slot_bytes img" "names_placed img (kram k)" using img by (auto simp: image_ok_def E_def)
    have "names_placed img (ram h5)"
      by (rule names_placed_frame [OF nb(2)]) (use nb(1) E low m(6) in \<open>auto 4 4\<close>)
    moreover have "name_bytes img \<subseteq> client (apps_heap E) - vec_bytes v5 128" using nb(1) below v4(5) v5(3) by auto
    moreover have tr: "translate (pg (mach k5)) u = translate (pg (mach k1)) u" for u
      unfolding k5(7) by (rule translate_memory [OF m(2)]) (use tb low sl(3) in \<open>auto simp: pg_def\<close>)
    moreover have "isolated (apps_heap E) (pg (mach k5))"
      unfolding isolated_def
    proof (intro allI impI)
      fix x :: nat assume x: "x < 4294967296" "x \<notin> client (apps_heap E)"
      then have xE: "E \<le> x" "x < E + 4194304" using not_client by blast+
      then have "x \<notin> table_bytes P" using img by (auto simp: table_bytes_def image_ok_def E_def)
      then show "data_frame (pg (mach k5)) (x div 4096)" using df xE(2) by blast
    qed
    ultimately show ?thesis
      using v5 c(2) m(2,3) img unfolding kernel_ok_def k5(1-3) tr by (simp add: image_ok_def k5(7) unat_of_nat_u32)
  qed
  have sc5: "scratch_ok img (apps_heap E) 128 k5" if lo: "locals_ok img P" "rx_buffer (netw k) = 0" "ring_ok (netw k)"
  proof -
    have b: "x < E \<and> x \<notin> table_bytes P \<and> x \<notin> name_bytes img" if x: "x \<in> scratch_bytes img k5" for x
    proof -
      consider "x < 20" | i where "i < 3" "x \<in> {unat (point_slot img i)..<unat (point_slot img i) + 8}"
        using x lo(2) by (auto simp: scratch_bytes_def ring_bytes_def k5(8))
      then show ?thesis
      proof cases
        case 1
        have "4096 \<le> unat (page_tables P)" "unat (page_tables P) \<le> E" using img lo(1) by (auto simp: image_ok_def locals_ok_def E_def)
        then show ?thesis using 1 lo(1) by (auto simp: locals_ok_def table_bytes_def)
      next
        case 2
        then have "unat (point_slot img i) + 8 \<le> E" "x \<notin> table_bytes P \<union> name_bytes img" using lo(1) unfolding locals_ok_def E_def by blast+
        then show ?thesis using 2(2) by simp
      qed
    qed
    then have "scratch_bytes img k5 \<subseteq> client (apps_heap E) - vec_bytes v5 128 - name_bytes img" using below v4(5) v5(3) by blast
    moreover have "\<forall>x \<in> scratch_bytes img k5. data_frame (pg (mach k5)) (x div 4096)" using b df by (meson trans_less_add1)
    moreover have "\<forall>i < 3. point_slot img i \<noteq> 0" using lo(1) unfolding locals_ok_def by (metis less_irrefl unat_0)
    ultimately show ?thesis using lo(2,3) unfolding scratch_ok_def k5(2,8) by simp
  qed
  have fr5: "free_frames (pg (mach k5)) = {(E + 4194304 + 4095) div 4096..<16384}"
    using m(4) unfolding k5(7) by (simp add: free_frames_def used_frame_def)
  have fst: "fs (fat32_init (kfat k)) = fs (kfat k5)" "disk (kfat k5) = disk (kfat k)" unfolding k5(5) by (simp_all add: fat32_init_def Let_def)
  have run: "kernel_start img P k = start_network P k5"
    unfolding kernel_start_def Let_def k1_def [symmetric] k2_def [symmetric] c(1) reg by simp
  have fit: "fits (apps_heap E) 9708" by (simp add: fits_def apps_heap_def ALIGN_def ALIGNMENT_def)
  obtain k' A' where "start_network P k5 = Some k'" "kernel_ok img A' 128 k'" "keys k' = keys k5" "kfat k' = kfat k5"
    "polls k' = polls k5" "shift_pressed (con k') = shift_pressed (con k5)" "free_frames (pg (mach k')) = free_frames (pg (mach k5))"
    "scratch_ok img (apps_heap E) 128 k5 \<and> rx_buffer (netw k5) = 0 \<longrightarrow> scratch_ok img A' 128 k'"
    using start_network_ok [OF ok5 fit card] by blast
  moreover from this have "locals_ok img P \<and> rx_buffer (netw k) = 0 \<and> ring_ok (netw k) \<longrightarrow> running img A' 128 k'"
    using sc5 k5(8) by (simp add: running_def)
  ultimately show ?thesis using fr5 fst k5(3,4,6) c(3) unfolding run E_def [symmetric] by (intro exI [of _ k'] exI [of _ A'] exI [of _ 128]) simp
qed

end
