(* ===== verification/Kernel_Running.thy ===== *)
theory Kernel_Running
  imports Kernel_Boot
begin

text \<open>
  Frames of any contents, \<open>ping\<close> and the vector test keep the invariant \<open>running\<close>: what they write besides blocks of
  their own is scratch memory.
\<close>

unbundle bit_operations_syntax

section \<open>Calls of the network stack\<close>

lemma running_heap_ok: "running img A t k \<Longrightarrow> heap_ok (kheap_of k) A"
  unfolding running_def using kernel_ok_heap_ok by blast

lemma running_cong:
  assumes k: "running img A t k" and "kheap_of k' = kheap_of k" "mpaging (mach k') = mpaging (mach k)" "apps_vector k' = apps_vector k"
    "rx_buffer (netw k') = rx_buffer (netw k)" "ring_ok (netw k')" "console_ok (con k')"
  shows "running img A t k'"
  using kernel_ok_cong [of img A t k k'] scratch_ok_cong [of img A t k k' A] assms by (simp add: running_def)

lemma scratch_client: "running img A t k \<Longrightarrow> scratch_bytes img k \<subseteq> client A - vec_bytes (apps_vector k) t"
  by (auto simp: running_def scratch_ok_def)

lemma on_net_running:
  assumes k: "running img A t k" and run: "on_net f k = Some k'"
    and keeps: "\<And>n n'. f n = Some n' \<Longrightarrow> heap n = kheap_of k \<Longrightarrow> rx_buffer n = rx_buffer (netw k) \<Longrightarrow> ring_ok n \<Longrightarrow>
      \<exists>A'. heap_keeps A (scratch_bytes img k) (heap n) A' (heap n') \<and> ring_ok n' \<and> rx_buffer n' = rx_buffer n"
  shows "(\<exists>A'. running img A' t k') \<and> polls k' = polls k \<and> rx_buffer (netw k') = rx_buffer (netw k)"
proof -
  let ?n = "net.tty_update (\<lambda>_. []) ((netw k)\<lparr>heap := kheap_of k\<rparr>)"
  obtain n' where n': "f ?n = Some n'" "k' = kprint (net.tty n') (set_heap (heap n') (k\<lparr>netw := n'\<rparr>))"
    using run by (auto simp: on_net_def)
  have "ring_ok ?n" using k by (simp add: running_def scratch_ok_def ring_ok_def)
  from keeps [OF n'(1) _ _ this] obtain A' where r: "heap_keeps A (scratch_bytes img k) (kheap_of k) A' (heap n')" "ring_ok n'" "rx_buffer n' = rx_buffer (netw k)"
    by auto
  have "console_ok (con k)" using k by (simp add: running_def kernel_ok_def)
  then have "running img A' t k'"
    by (intro running_cong [OF running_step [OF k r(1)]]) (simp_all add: n'(2) r(2,3) con_kprint set_heap_def)
  moreover have "polls k' = polls k" "rx_buffer (netw k') = rx_buffer (netw k)" using r(3) by (simp_all add: n'(2) set_heap_def)
  ultimately show ?thesis by blast
qed

lemma kpoll_running:
  assumes k: "running img A t k" and ps: "\<forall>p \<in> set (polls k). card_poll (netw k) p" and run: "kpoll k = Some k'"
  shows "(\<exists>A'. running img A' t k') \<and> set (polls k') \<subseteq> set (polls k) \<and> rx_buffer (netw k') = rx_buffer (netw k)"
proof -
  obtain p ps' where p: "polls k = p # ps'" "on_net (rtl8139_poll p) (k\<lparr>polls := ps'\<rparr>) = Some k'"
    using run by (auto simp: kpoll_def split: list.splits)
  let ?k = "k\<lparr>polls := ps'\<rparr>"
  have kk: "running img A t ?k"
    by (rule running_cong [OF k]) (use k in \<open>simp_all add: running_def kernel_ok_def scratch_ok_def\<close>)
  have sc: "ring_bytes (netw k) \<subseteq> scratch_bytes img k" "unat (rx_buffer (netw k)) + 9708 < 4294967296"
    using k by (auto simp: scratch_bytes_def running_def scratch_ok_def)
  have "(\<exists>A'. running img A' t k') \<and> polls k' = polls ?k \<and> rx_buffer (netw k') = rx_buffer (netw ?k)"
  proof (rule on_net_running [OF kk p(2)])
    fix n n' assume n: "rtl8139_poll p n = Some n'" "heap n = kheap_of ?k" "rx_buffer n = rx_buffer (netw ?k)" "ring_ok n"
    have rb: "ring_bytes n = ring_bytes (netw k)" using n(3) by (simp add: ring_bytes_def)
    have "card_poll n p" using ps p(1) n(3) by (simp add: card_poll_def rb)
    moreover have "heap_ok (heap n) A" using n(2) running_heap_ok [OF k] by simp
    moreover have "ring_bytes n \<subseteq> client A" using sc(1) scratch_client [OF k] unfolding rb by blast
    moreover have "unat (rx_buffer n) + 9708 < 4294967296" using sc(2) n(3) by simp
    ultimately obtain A' where "heap_keeps A (ring_bytes n) (heap n) A' (heap n')" "ring_ok n'" "rx_buffer n' = rx_buffer n"
      using poll_keeps [OF n(1)] n(4) by blast
    moreover have "ring_bytes n \<subseteq> scratch_bytes img ?k" using sc(1) unfolding rb by (simp add: scratch_bytes_def)
    ultimately show "\<exists>A'. heap_keeps A (scratch_bytes img ?k) (heap n) A' (heap n') \<and> ring_ok n' \<and> rx_buffer n' = rx_buffer n"
      using heap_keeps_mono by blast
  qed
  then show ?thesis using p(1) by auto
qed

section \<open>Ping\<close>

lemma ping_request_outside:
  assumes x: "x < 4294967296" "x \<notin> {unat temp..<unat temp + 20}" and b: "unat temp + 20 < 4294967296"
  shows "ping_request temp m (of_nat x) = m (of_nat x)"
proof -
  define T where "T = unat temp"
  have t: "temp = of_nat T" "temp + 8 = of_nat (T + 8)" "temp + 2 = of_nat (T + 2)" by (simp_all add: T_def)
  have l: "length ping_payload = 12" by code_simp
  define m1 where "m1 = put_ram temp ([8, 0] @ bytes16 0 @ bytes16 (bswap16 1234) @ bytes16 (bswap16 1)) m"
  define m2 where "m2 = put_ram (temp + 8) ping_payload m1"
  have "put_ram (temp + 2) (bytes16 (net_checksum m2 temp 20)) m2 (of_nat x) = m2 (of_nat x)"
    unfolding t(3) using put_ram_nat [of "T + 2" "bytes16 (net_checksum m2 temp 20)" x m2] x b by (auto simp flip: T_def)
  moreover have "m2 (of_nat x) = m1 (of_nat x)"
    unfolding m2_def t(2) using put_ram_nat [of "T + 8" ping_payload x m1] x b l by (auto simp flip: T_def)
  moreover have "m1 (of_nat x) = m (of_nat x)"
    unfolding m1_def t(1) using put_ram_nat [of T "[8, 0] @ bytes16 0 @ bytes16 (bswap16 1234) @ bytes16 (bswap16 1)" x m] x b by (auto simp flip: T_def)
  ultimately show ?thesis by (simp add: ping_request_def Let_def m1_def m2_def)
qed

lemma send_ping_keeps:
  assumes ok: "heap_ok (heap s) A" and run: "send_ping dest s = Some s'" and low: "{..<20} \<subseteq> client A"
  shows "(\<exists>A'. heap_keeps A {..<20} (heap s) A' (heap s')) \<and> same_ring s s'"
proof -
  obtain h1 p where k: "kmalloc 20 (heap s) = Some (h1, p)" "p = 0 \<longrightarrow> h1 = heap s" using kmalloc_total [OF ok, of 20] by auto
  let ?s1 = "set_mem (ping_request p (ram h1)) (s\<lparr>heap := h1\<rparr>)"
  obtain s2 h3 where r: "ipv4_send dest 1 p 20 ?s1 = Some s2" "kfree p (heap s2) = Some h3" "s' = s2\<lparr>heap := h3\<rparr>"
    using run by (auto simp: send_ping_def k(1) bind_eq_Some_conv)
  have h: "heap ?s1 = h1\<lparr>ram := ping_request p (ram h1)\<rparr>" by (simp add: set_mem_def)
  have "same_ring s s'" using same_ring_ipv4_send [OF r(1)] by (simp add: r(3) same_ring_def set_mem_def)
  moreover have "\<exists>A'. heap_keeps A {..<20} (heap s) A' (heap s')"
  proof (cases "p = 0")
    case True
    have k1: "heap_keeps A {..<20} (heap s) A (heap ?s1)"
      unfolding h using k(2) True by (auto intro!: heap_keeps_write [OF ok low] ping_request_outside)
    have "heap_ok (heap ?s1) A" using k1 by (simp add: heap_keeps_def)
    from ipv4_send_keeps [OF this r(1)] obtain A' where k2: "heap_keeps A {} (heap ?s1) A' (heap s2)" by auto
    have "heap s' = heap s2" using r(2,3) True by (simp add: kfree_def)
    then show ?thesis using heap_keeps_trans [OF k1 heap_keeps_mono [OF k2 empty_subsetI]] by metis
  next
    case False
    have b: "unat p + 20 < 4294967296"
    proof -
      have "fits A 20" using kmalloc_full [OF ok, of 20] k(1) False by auto
      then obtain A1 t where a: "heap_ok h1 A1" "unat (20 :: u32) \<le> t" "live A1 (unat p) t"
        using kmalloc_room [OF ok, of 20] k(1) by auto
      then show ?thesis using live_client [OF a(1,3)] by simp
    qed
    have "\<exists>A'. heap_keeps A {} (heap s) A' h3"
    proof (rule heap_keeps_around [OF ok k(1) False _ _ _ _ r(2)])
      show "ping_request p (ram h1) (of_nat x) = ram h1 (of_nat x)" if "x < 4294967296" "x \<notin> {unat p..<unat p + unat (20 :: u32)}" for x
        by (rule ping_request_outside) (use that b in simp_all)
      show "\<exists>A2. heap_keeps A1 {} (h1\<lparr>ram := ping_request p (ram h1)\<rparr>) A2 (heap s2)" if "heap_ok (h1\<lparr>ram := ping_request p (ram h1)\<rparr>) A1" for A1
        using ipv4_send_keeps [of ?s1 A1, OF _ r(1)] that unfolding h by simp
    qed simp_all
    then show ?thesis using heap_keeps_mono unfolding r(3) by (metis empty_subsetI net.select_convs(1) net.surjective net.update_convs(1))
  qed
  ultimately show ?thesis by blast
qed

section \<open>The vector test\<close>

text \<open>A vector in a block of its own, on a heap whose clients have only seen changes in \<open>R\<close>.\<close>

definition own_vector :: "nat \<times> blocks \<Rightarrow> nat set \<Rightarrow> kheap \<Rightarrow> vector \<Rightarrow> kheap \<Rightarrow> bool" where
  "own_vector A R h0 v h \<longleftrightarrow>
     (\<exists>A1 t xs. vec_ok h A1 v t xs \<and> vec_bytes v t \<inter> client A = {} \<and> heap_keeps A R h0 A1 h) \<and> element_size v = 8"

lemma vec_frame_keeps:
  assumes v: "vec_ok h A1 v t xs" "vec_bytes v t \<inter> client A = {}" and k: "heap_keeps A R h0 A1 h" and ok: "heap_ok h0 A"
    and f: "vec_frame h A1 v t h' A'" "heap_ok h' A'"
  shows "heap_keeps A R h0 A' h'"
proof -
  have c: "client A \<subseteq> client A1 - vec_bytes v t" using v(2) k unfolding heap_keeps_def by blast
  have t: "0 < t"
  proof -
    have "0 < unat (capacity v) * unat (element_size v)" "unat (capacity v) * unat (element_size v) \<le> t" using v(1) by (simp_all add: vec_ok_def)
    then show ?thesis by linarith
  qed
  have "live A' q s" if "0 < s" "live A q s" for q s
  proof -
    have "q \<in> client A" using live_client [OF ok that(2)] that(1) by auto
    moreover have "unat (vdata v) \<in> vec_bytes v t" using t by (simp add: vec_bytes_def)
    ultimately have "q \<noteq> unat (vdata v)" using v(2) by blast
    moreover have "live A1 q s" using k that by (simp add: heap_keeps_def)
    ultimately show ?thesis using f(1) by (simp add: vec_frame_def)
  qed
  moreover have "client A \<subseteq> client A'" using f(1) c unfolding vec_frame_def by blast
  moreover have "\<forall>x \<in> client A - R. ram h' (of_nat x) = ram h0 (of_nat x)"
    using f(1) c k unfolding vec_frame_def heap_keeps_def by (metis DiffD1 subset_iff)
  ultimately show ?thesis using f(2) by (simp add: heap_keeps_def)
qed

lemma own_vector_init:
  assumes ok: "heap_ok h A" and run: "vector_init (Some v) 2 8 h = Some (v', h', ok')"
  shows "ok' = 0 \<and> h' = h \<or> ok' = 1 \<and> (\<exists>v1. v' = Some v1 \<and> own_vector A R h v1 h' \<and> unat (capacity v1) = 2)"
proof (cases "fits A (2 * 8)")
  case False
  then show ?thesis using vec_init [OF ok, of 8 2 v] run by auto
next
  case True
  obtain v1 h1 A1 t where i: "vector_init (Some v) 2 8 h = Some (Some v1, h1, 1)" "vec_ok h1 A1 v1 t []" "element_size v1 = 8" "unat (capacity v1) = 2"
      "vec_bytes v1 t \<inter> client A = {}" "\<forall>x \<in> client A. x \<in> client A1 \<and> ram h1 (of_nat x) = ram h (of_nat x)" "\<forall>q s. live A q s \<longrightarrow> live A1 q s"
    using vec_init [OF ok, of 8 2 v] True by auto
  have "heap_ok h1 A1" using i(2) by (simp add: vec_ok_def)
  then have "heap_keeps A R h A1 h1" using i(6,7) by (auto simp: heap_keeps_def)
  then have "own_vector A R h v1 h1" using i(2,3,5) unfolding own_vector_def by blast
  then show ?thesis using i(1,4) run by simp
qed

lemma own_vector_write:
  assumes o: "own_vector A R h0 v h" and R: "R \<subseteq> client A"
    and w: "\<And>x. x < 4294967296 \<Longrightarrow> x \<notin> R \<Longrightarrow> m (of_nat x) = ram h (of_nat x)"
  shows "own_vector A R h0 v (h\<lparr>ram := m\<rparr>)"
proof -
  obtain A1 t xs where v: "vec_ok h A1 v t xs" "vec_bytes v t \<inter> client A = {}" "heap_keeps A R h0 A1 h" "element_size v = 8"
    using o by (auto simp: own_vector_def)
  have h: "heap_ok h A1" "live A1 (unat (vdata v)) t" using v(1) by (simp_all add: vec_ok_def)
  have "R \<subseteq> client A1" using R v(3) unfolding heap_keeps_def by blast
  from heap_keeps_write [OF h(1) this w] have k: "heap_keeps A1 R h A1 (h\<lparr>ram := m\<rparr>)" .
  have "vec_bytes v t \<subseteq> client A1" using live_client [OF h] by (simp add: vec_bytes_def)
  then have "\<forall>x \<in> vec_bytes v t. m (of_nat x) = ram h (of_nat x)" using w client_bound [OF h(1)] v(2) R by blast
  then have "vec_ok (h\<lparr>ram := m\<rparr>) A1 v t xs" using k h(2) by (intro vec_ok_frame [OF v(1)]) (simp_all add: heap_keeps_def)
  then show ?thesis using v(2,4) heap_keeps_trans [OF v(3) k] unfolding own_vector_def by blast
qed

lemma own_vector_push:
  assumes o: "own_vector A R h0 v h" and ok: "heap_ok h0 A" and e: "e \<noteq> 0" "{unat e..<unat e + 8} \<subseteq> client A"
    and c: "16 * unat (capacity v) \<le> 4294967288" and run: "vector_push_back (Some v) e h = Some (v', h', r)"
  shows "\<exists>v1. v' = Some v1 \<and> own_vector A R h0 v1 h' \<and> unat (capacity v1) \<le> 2 * unat (capacity v)"
proof -
  obtain A1 t xs where v: "vec_ok h A1 v t xs" "vec_bytes v t \<inter> client A = {}" "heap_keeps A R h0 A1 h" "element_size v = 8"
    using o by (auto simp: own_vector_def)
  have A1: "client A \<subseteq> client A1 - vec_bytes v t" using v(2,3) unfolding heap_keeps_def by blast
  then have e': "{unat e..<unat e + unat (element_size v)} \<subseteq> client A1 - vec_bytes v t" using e(2) v(4) by auto
  have c': "2 * unat (capacity v) * unat (element_size v) \<le> 4294967288" using c v(4) by simp
  note push = vec_push [OF v(1) e(1) c' e']
  show ?thesis
  proof (cases "vsize v = capacity v \<and> \<not> fits A1 (capacity v * 2 * element_size v)")
    case True
    then show ?thesis using push run o unfolding if_P [OF True] by simp
  next
    case False
    from push [unfolded if_not_P [OF False]]
    obtain v1 h1 A2 t2 where p: "vector_push_back (Some v) e h = Some (Some v1, h1, 1)"
      "vec_ok h1 A2 v1 t2 (xs @ [load_ram (ram h) e (unat (element_size v))])" "vec_frame h A1 v t h1 A2"
      "element_size v1 = element_size v" "unat (capacity v1) \<le> 2 * unat (capacity v)" "vec_bytes v1 t2 \<inter> (client A1 - vec_bytes v t) = {}"
      by blast
    have "heap_ok h1 A2" using p(2) by (simp add: vec_ok_def)
    then have "heap_keeps A R h0 A2 h1" by (rule vec_frame_keeps [OF v(1-3) ok p(3)])
    moreover have "vec_bytes v1 t2 \<inter> client A = {}" using p(6) A1 by blast
    ultimately have "own_vector A R h0 v1 h1" using p(2,4) v(4) unfolding own_vector_def by metis
    then show ?thesis using p(1,5) run by simp
  qed
qed

lemma own_vector_free:
  assumes o: "own_vector A R h0 v h" and ok: "heap_ok h0 A" and run: "vector_free (Some v) h = Some (v', h')"
  shows "\<exists>A'. heap_keeps A R h0 A' h'"
proof -
  obtain A1 t xs where v: "vec_ok h A1 v t xs" "vec_bytes v t \<inter> client A = {}" "heap_keeps A R h0 A1 h"
    using o by (auto simp: own_vector_def)
  obtain A2 where f: "heap_ok h' A2" "vec_frame h A1 v t h' A2" using vec_free [OF v(1)] run by auto
  show ?thesis using vec_frame_keeps [OF v ok f(2,1)] by blast
qed

lemma put_points_outside:
  assumes "\<And>i. i < 3 \<Longrightarrow> unat (at i) + 8 \<le> 4294967296 \<and> x \<notin> {unat (at i)..<unat (at i) + 8}" and x: "x < 4294967296"
  shows "put_points at m (of_nat x) = m (of_nat x)"
proof -
  have p: "put_ram (at i) (bytes32 a @ bytes32 b) m' (of_nat x) = m' (of_nat x)" if "i < 3" for i a b m'
    using put_ram_nat [of "unat (at i)" "bytes32 a @ bytes32 b" x m'] assms(1) [OF that] x by auto
  show ?thesis unfolding put_points_def using p [of 0] p [of 1] p [of 2] by simp
qed

lemma push_points:
  assumes o: "own_vector A R h0 v h" and ok: "heap_ok h0 A" and e: "\<And>i. i < 3 \<Longrightarrow> at i \<noteq> 0 \<and> {unat (at i)..<unat (at i) + 8} \<subseteq> client A"
    and c: "unat (capacity v) = 2" and run: "fold (push_point at) [0..<3] (Some (Some v, h)) = Some (v', h')"
  shows "\<exists>v1. v' = Some v1 \<and> own_vector A R h0 v1 h'"
proof -
  have u: "[0..<3] = [0, 1, 2 :: nat]" by (simp add: upt_rec)
  obtain va ha r1 where a: "vector_push_back (Some v) (at 0) h = Some (va, ha, r1)"
    and run1: "push_point at 2 (push_point at 1 (Some (va, ha))) = Some (v', h')"
    using run by (cases "vector_push_back (Some v) (at 0) h") (auto simp: u push_point_def)
  have e0: "at 0 \<noteq> 0" "{unat (at 0)..<unat (at 0) + 8} \<subseteq> client A" "16 * unat (capacity v) \<le> 4294967288" using e [of 0] c by simp_all
  from own_vector_push [OF o ok e0 a] obtain v1 where v1: "va = Some v1" "own_vector A R h0 v1 ha" "unat (capacity v1) \<le> 4" using c by auto
  obtain vb hb r2 where b: "vector_push_back (Some v1) (at 1) ha = Some (vb, hb, r2)" and run2: "push_point at 2 (Some (vb, hb)) = Some (v', h')"
    using run1 v1(1) by (cases "vector_push_back (Some v1) (at 1) ha") (auto simp: push_point_def)
  have e1: "at 1 \<noteq> 0" "{unat (at 1)..<unat (at 1) + 8} \<subseteq> client A" "16 * unat (capacity v1) \<le> 4294967288" using e [of 1] v1(3) by simp_all
  from own_vector_push [OF v1(2) ok e1 b] obtain v2 where v2: "vb = Some v2" "own_vector A R h0 v2 hb" "unat (capacity v2) \<le> 8" using v1(3) by auto
  obtain r3 where d: "vector_push_back (Some v2) (at 2) hb = Some (v', h', r3)" using run2 v2(1) by (auto simp: push_point_def)
  have e2: "at 2 \<noteq> 0" "{unat (at 2)..<unat (at 2) + 8} \<subseteq> client A" "16 * unat (capacity v2) \<le> 4294967288" using e [of 2] v2(3) by simp_all
  from own_vector_push [OF v2(2) ok e2 d] show ?thesis by blast
qed

lemma kprintf_con: "kprintf fmt args k = Some k' \<Longrightarrow> \<exists>c. k' = k\<lparr>con := c\<rparr> \<and> (console_ok (con k) \<longrightarrow> console_ok c)"
  by (auto simp: kprintf_def console_printf_def console_ok_print)

lemma print_points:
  "fold (print_point v) is (Some k) = Some k' \<Longrightarrow> \<exists>c. k' = k\<lparr>con := c\<rparr> \<and> (console_ok (con k) \<longrightarrow> console_ok c)"
proof (induction "is" arbitrary: k)
  case Nil
  then show ?case by (intro exI [of _ "con k"]) simp
next
  case (Cons i "is")
  have n: "fold (print_point v) js None = None" for js by (induction js) (simp_all add: print_point_def)
  obtain k1 where k1: "print_point v i (Some k) = Some k1" "fold (print_point v) is (Some k1) = Some k'"
    using Cons.prems n by (cases "print_point v i (Some k)") simp_all
  have "\<exists>c. k1 = k\<lparr>con := c\<rparr> \<and> (console_ok (con k) \<longrightarrow> console_ok c)"
  proof (cases "vector_get (Some v) (of_nat i) = 0")
    case True
    then show ?thesis using k1(1) by (intro exI [of _ "con k"]) (simp add: print_point_def)
  next
    case False
    then show ?thesis using k1(1) by (intro kprintf_con) (simp add: print_point_def Let_def)
  qed
  then show ?case using Cons.IH [OF k1(2)] by auto
qed

lemma test_running:
  assumes k: "running img A t k" and run: "test_app (point_slot img) v0 k = Some k'"
  shows "(\<exists>A'. running img A' t k') \<and> polls k' = polls k \<and> netw k' = netw k"
proof -
  let ?R = "scratch_bytes img k"
  have ok: "heap_ok (kheap_of k) A" by (rule running_heap_ok [OF k])
  have R: "?R \<subseteq> client A" using scratch_client [OF k] by blast
  have slot: "point_slot img i \<noteq> 0 \<and> {unat (point_slot img i)..<unat (point_slot img i) + 8} \<subseteq> ?R" if "i < 3" for i
    using k that unfolding running_def scratch_ok_def scratch_bytes_def by blast
  obtain v h r where i: "vector_init (Some v0) 2 8 (kheap_of k) = Some (v, h, r)" using run by (auto simp: test_app_def bind_eq_Some_conv)
  have step: "running img A' t k'" if "heap_keeps A ?R (kheap_of k) A' h'" "k' = (set_heap h' k)\<lparr>con := c\<rparr>" "console_ok (con k) \<longrightarrow> console_ok c" for A' h' c
    by (rule running_cong [OF running_step [OF k that(1)]]) (use that(2,3) k in \<open>auto simp: running_def kernel_ok_def scratch_ok_def\<close>)
  consider (full) "r = 0" "h = kheap_of k" | (room) v1 where "r \<noteq> 0" "v = Some v1" "own_vector A ?R (kheap_of k) v1 h" "unat (capacity v1) = 2"
    using own_vector_init [OF ok i, of ?R] by fastforce
  then show ?thesis
  proof cases
    case full
    then have "k' = k" using run i by (simp add: test_app_def set_heap_def)
    then show ?thesis using k by blast
  next
    case room
    let ?h = "h\<lparr>ram := put_points (point_slot img) (ram h)\<rparr>"
    obtain v2 h2 where p: "fold (push_point (point_slot img)) [0..<3] (Some (v, ?h)) = Some (v2, h2)"
      using run i room(1) by (cases "fold (push_point (point_slot img)) [0..<3] (Some (v, ?h))") (auto simp: test_app_def)
    have "own_vector A ?R (kheap_of k) v1 ?h"
    proof (rule own_vector_write [OF room(3) R])
      fix x assume x: "x < 4294967296" "x \<notin> ?R"
      show "put_points (point_slot img) (ram h) (of_nat x) = ram h (of_nat x)"
      proof (rule put_points_outside [OF _ x(1)])
        fix i :: nat assume i: "i < 3"
        have "unat (point_slot img i) + 7 \<in> client A" using slot [OF i] R by (auto simp: subset_iff)
        then show "unat (point_slot img i) + 8 \<le> 4294967296 \<and> x \<notin> {unat (point_slot img i)..<unat (point_slot img i) + 8}"
          using client_bound [OF ok] slot [OF i] x(2) by fastforce
      qed
    qed
    from push_points [OF this ok _ room(4)] p room(2) slot R obtain v3 where v3: "v2 = Some v3" "own_vector A ?R (kheap_of k) v3 h2" by blast
    obtain k3 where k3: "fold (print_point v3) [0..<unat (vsize v3)] (Some (set_heap h2 k)) = Some k3"
      "map_option (\<lambda>(_, h). set_heap h k3) (vector_free (Some v3) (kheap_of k3)) = Some k'"
      using run i room(1) p v3(1) by (cases "fold (print_point v3) [0..<unat (vsize v3)] (Some (set_heap h2 k))") (auto simp: test_app_def)
    obtain c where c: "k3 = (set_heap h2 k)\<lparr>con := c\<rparr>" "console_ok (con k) \<longrightarrow> console_ok c" using print_points [OF k3(1)] by auto
    obtain v4 h4 where f: "vector_free (Some v3) h2 = Some (v4, h4)" "k' = set_heap h4 k3" using k3(2) c(1) by auto
    obtain A' where "heap_keeps A ?R (kheap_of k) A' h4" using own_vector_free [OF v3(2) ok f(1)] by blast
    moreover have k': "k' = (set_heap h4 k)\<lparr>con := c\<rparr>" by (simp add: f(2) c(1) set_heap_def)
    ultimately have "running img A' t k'" using step c(2) by blast
    moreover have "polls k' = polls k" "netw k' = netw k" by (simp_all add: k' set_heap_def)
    ultimately show ?thesis by blast
  qed
qed

section \<open>The invariant of a session\<close>

lemma session_ok_step:
  assumes "session_ok img t k" and "running img A t k'" and "set (polls k') \<subseteq> set (polls k)" and "rx_buffer (netw k') = rx_buffer (netw k)"
  shows "session_ok img t k'"
proof -
  have "card_poll (netw k') p = card_poll (netw k) p" for p using assms(4) by (simp add: card_poll_def ring_bytes_def)
  then show ?thesis using assms(1-3) unfolding session_ok_def by blast
qed

lemma session_ok_con:
  assumes "session_ok img t k" and "k' = k\<lparr>con := c\<rparr>" "console_ok (con k) \<longrightarrow> console_ok c"
  shows "session_ok img t k'"
proof -
  obtain A where A: "running img A t k" using assms(1) by (auto simp: session_ok_def)
  have "running img A t k'" by (rule running_cong [OF A]) (use A assms(2,3) in \<open>simp_all add: running_def kernel_ok_def scratch_ok_def\<close>)
  then show ?thesis by (rule session_ok_step [OF assms(1)]) (simp_all add: assms(2))
qed

lemma session_ok_kprint: "session_ok img t k \<Longrightarrow> session_ok img t (kprint cs k)"
  unfolding kprint_def Console.console_print_def by (rule session_ok_con [OF _ refl]) (simp_all add: console_ok_print)

lemma kpoll_session_ok:
  assumes k: "session_ok img t k" and run: "kpoll k = Some k'"
  shows "session_ok img t k'"
proof -
  obtain A where "running img A t k" "\<forall>p \<in> set (polls k). card_poll (netw k) p" using k by (auto simp: session_ok_def)
  from kpoll_running [OF this run] obtain A' where "running img A' t k'" "set (polls k') \<subseteq> set (polls k)" "rx_buffer (netw k') = rx_buffer (netw k)" by blast
  then show ?thesis by (rule session_ok_step [OF k])
qed

lemma poll_times_session_ok: "session_ok img t k \<Longrightarrow> poll_times n k = Some k' \<Longrightarrow> session_ok img t k'"
proof (induction n arbitrary: k)
  case (Suc n)
  obtain k1 where k1: "kpoll k = Some k1" "poll_times n k1 = Some k'" using Suc.prems(2) by (auto simp: bind_eq_Some_conv)
  show ?case by (rule Suc.IH [OF kpoll_session_ok [OF Suc.prems(1) k1(1)] k1(2)])
qed simp

lemma ping_session_ok:
  assumes k: "session_ok img t k" and run: "command_ping argv k = Some k'"
  shows "session_ok img t k'"
proof (cases "length argv < 2")
  case True
  then have "k' = kprint (cstr ''Usage: ping <dest_ip>'' @ [0x0A]) k" using run by (simp add: command_ping_def)
  then show ?thesis using session_ok_kprint [OF k] by simp
next
  case False
  obtain dest ip where d: "parse_ip (argv ! 1) = Some (dest, ip)"
    using run False by (auto simp: command_ping_def bind_eq_Some_conv simp del: poll_times.simps)
  obtain k1 k2 where r: "kprintf (cstr ''PINGing %s...'' @ [0x0A]) [StrArg (cstr_of ip)] k = Some k1" "on_net (send_ping dest) k1 = Some k2"
    "poll_times 2000 (kprint (cstr ''Packet sent. Waiting for response...'' @ [0x0A]) k2) = Some k'"
    using run False d by (auto simp: command_ping_def bind_eq_Some_conv simp del: poll_times.simps)
  have k1: "session_ok img t k1" using kprintf_con [OF r(1)] session_ok_con [OF k] by blast
  then obtain A where A: "running img A t k1" by (auto simp: session_ok_def)
  have "(\<exists>A'. running img A' t k2) \<and> polls k2 = polls k1 \<and> rx_buffer (netw k2) = rx_buffer (netw k1)"
  proof (rule on_net_running [OF A r(2)])
    fix n n' assume n: "send_ping dest n = Some n'" "heap n = kheap_of k1" "ring_ok n"
    have low: "{..<20} \<subseteq> scratch_bytes img k1" by (auto simp: scratch_bytes_def)
    have s: "(\<exists>A'. heap_keeps A {..<20} (heap n) A' (heap n')) \<and> same_ring n n'"
      by (rule send_ping_keeps [OF _ n(1)]) (use n(2) running_heap_ok [OF A] low scratch_client [OF A] in auto)
    then have "ring_ok n'" "rx_buffer n' = rx_buffer n" using n(3) by (simp_all add: same_ring_def ring_ok_def)
    then show "\<exists>A'. heap_keeps A (scratch_bytes img k1) (heap n) A' (heap n') \<and> ring_ok n' \<and> rx_buffer n' = rx_buffer n"
      using s heap_keeps_mono low by blast
  qed
  then have "session_ok img t k2" using session_ok_step [OF k1] by auto
  then show ?thesis using poll_times_session_ok [OF session_ok_kprint r(3)] by blast
qed

lemma test_session_ok:
  assumes k: "session_ok img t k" and run: "test_app (point_slot img) v0 k = Some k'"
  shows "session_ok img t k'"
proof -
  obtain A where "running img A t k" using k by (auto simp: session_ok_def)
  from test_running [OF this run] show ?thesis using session_ok_step [OF k] by auto
qed

end
