(* ===== verification/Kernel_Spec.thy ===== *)
theory Kernel_Spec
  imports Kernel_Running
begin

text \<open>
  The running kernel: what a command line does, that commands and sessions keep the invariant, a small machine for the
  concrete inputs, and the properties of the kernel as a whole.
\<close>

unbundle bit_operations_syntax

section \<open>Dispatch\<close>

lemma ld32_console_app:
  assumes "load_ram m p 8 = console_app img a"
  shows "ld32 m p = literal img a" "ld32 m (p + 4) = entry img a"
proof -
  have e: "(8 :: nat) = Suc (Suc (Suc (Suc (Suc (Suc (Suc (Suc 0)))))))" by simp
  show "ld32 m p = literal img a" "ld32 m (p + 4) = entry img a"
    using assms unfolding e console_app_def bytes32_def
    by (simp_all add: ld32_def u32_le_byte_of add.assoc)
qed

lemma app_names: "\<forall>(name, a) \<in> set app_table. is_cstr name \<and> length name < 10 \<and> name \<noteq> [] \<and> name \<noteq> cstr ''exit''" "distinct (map fst app_table)" "length app_table = 14"
  "distinct (map snd app_table)"
  by code_simp+

lemma find_app_table:
  assumes k: "kernel_ok img A t k" and n: "is_cstr name" and i: "i \<le> 14"
  shows "find_app (kram k) (apps_vector k) name [i..<14] = Some (map_option (\<lambda>na. entry img (snd na)) (find (\<lambda>na. fst na = name) (drop i app_table)))"
  using i
proof (induction "14 - i" arbitrary: i)
  case 0
  then show ?case by (simp add: app_names(3))
next
  case (Suc d)
  have i: "i < 14" using Suc by simp
  have v: "vec_ok (kheap_of k) A (apps_vector k) t (map (console_app img \<circ> snd) app_table)" "element_size (apps_vector k) = 8"
    "names_placed img (kram k)" using k by (simp_all add: kernel_ok_def)
  obtain nm a where na: "app_table ! i = (nm, a)" by (cases "app_table ! i")
  have mem: "(nm, a) \<in> set app_table" using na i app_names(3) by (metis nth_mem)
  have un: "unat (of_nat i :: u32) = i" using i by (intro unat_of_nat_u32) simp
  define p where "p = vector_get (Some (apps_vector k)) (of_nat i)"
  have p: "p \<noteq> 0" "load_ram (kram k) p 8 = console_app img a"
  proof -
    have "p \<noteq> 0 \<and> load_ram (kram k) p (unat (element_size (apps_vector k))) = map (console_app img \<circ> snd) app_table ! i"
      using vec_get [OF v(1), THEN spec, of "of_nat i"] i app_names(3) by (simp add: un p_def)
    then show "p \<noteq> 0" "load_ram (kram k) p 8 = console_app img a" using v(2) i app_names(3) na by simp_all
  qed
  have nf: "is_cstr nm" "length nm < 4294967296" using app_names(1) mem by fastforce+
  have str: "ram_string (kram k) (literal img a) = Some nm"
    by (rule ram_string_placed [OF _ nf]) (use v(3) mem in \<open>auto simp: names_placed_def\<close>)
  have d: "drop i app_table = (nm, a) # drop (Suc i) app_table" using i app_names(3) na by (metis Cons_nth_drop_Suc)
  have u: "[i..<14] = i # [Suc i..<14]" using i by (simp add: upt_conv_Cons)
  have ih: "find_app (kram k) (apps_vector k) name [Suc i..<14] = Some (map_option (\<lambda>na. entry img (snd na)) (find (\<lambda>na. fst na = name) (drop (Suc i) app_table)))"
    using Suc.hyps(1) [of "Suc i"] Suc.hyps(2) i by simp
  have "find_app (kram k) (apps_vector k) name (i # [Suc i..<14]) =
      (if name = nm then Some (Some (entry img a)) else find_app (kram k) (apps_vector k) name [Suc i..<14])"
    using p(1) str ld32_console_app [OF p(2)] strcmp_decides_equality [OF n nf(1)]
    by (simp add: Let_def flip: p_def)
  then show ?case unfolding u d using ih by auto
qed

lemma app_list: "map snd app_table = [Hello, Calc, Clear, Ls, Cat, Write, Rm, Df, Mkdir, Rmdir, Cd, Pwd, Ping, Test]"
  by (simp only: app_table_def list.map snd_conv)

lemma find_self: "a \<in> set xs \<Longrightarrow> find (\<lambda>b. b = a) xs = Some a"
  by (induction xs) auto

lemma app_at_entry:
  assumes "inj (entry img)"
  shows "app_at img (entry img a) = Some a"
proof -
  have "a \<in> set (map snd app_table)" unfolding app_list by (cases a) simp_all
  moreover have "find (\<lambda>b. entry img b = entry img a) (map snd app_table) = find (\<lambda>b. b = a) (map snd app_table)"
    using assms by (simp only: inj_eq)
  ultimately show ?thesis using find_self unfolding app_at_def by metis
qed

lemma find_app_all:
  assumes k: "kernel_ok img A t k" and n: "is_cstr name"
  shows "find_app (kram k) (apps_vector k) name [0..<unat (vsize (apps_vector k))] =
    Some (map_option (entry img) (map_of app_table name))"
proof -
  have "length (map (console_app img \<circ> snd) app_table) = unat (vsize (apps_vector k))" using k by (simp add: kernel_ok_def vec_ok_def)
  then have s: "unat (vsize (apps_vector k)) = 14" using app_names(3) by simp
  have f: "map_option snd (find (\<lambda>na. fst na = name) xs) = map_of xs name" for xs :: "(u8 list \<times> app) list"
    by (induction xs) auto
  have "map_option (\<lambda>na. entry img (snd na)) (find (\<lambda>na. fst na = name) app_table) = map_option (entry img) (map_of app_table name)"
    unfolding f [symmetric] by (simp add: option.map_comp comp_def)
  then show ?thesis using find_app_table [OF k n, of 0] unfolding s by simp
qed

lemma dispatches:
  assumes "kernel_ok img A t k" and "is_cstr name"
  shows "shell_command img G (name # args) k =
    (if name = cstr ''exit'' then Some (kprint (cstr ''Exiting SojebOS shell...'' @ [0x0A]) k, Exited)
     else case map_of app_table name of
       Some a \<Rightarrow> map_option (\<lambda>k. (k, Next)) (run_app img G a (name # args) k)
     | None \<Rightarrow>
         (case exec_elf (old_node (G k)) (old_header (G k)) (old_segment (G k)) name (mach k) of
            None \<Rightarrow> None
          | Some (m, User_Mode eip esp) \<Rightarrow> Some (k\<lparr>mach := m\<rparr>, Entered eip esp)
          | Some (m, Status st) \<Rightarrow>
              Some (if 0 \<le> st then k\<lparr>mach := m\<rparr> else kprint (cstr ''Command or file not found!'' @ [0x0A]) (k\<lparr>mach := m\<rparr>), Next)))"
proof -
  have ex: "is_cstr (cstr ''exit'')" by code_simp
  have inj: "inj (entry img)" using assms(1) by (simp add: kernel_ok_def)
  show ?thesis
    unfolding shell_command_def find_app_all [OF assms, simplified nth_Cons_0]
    using strcmp_decides_equality [OF assms(2) ex] find_app_all [OF assms] app_at_entry [OF inj]
    by (auto simp: on_machine_def split: option.splits prod.splits exec_result.splits)
qed

section \<open>Commands keep the invariant\<close>

text \<open>The invariant, when the polls to come, the network, the page tables and the vector are as before; most commands do no more.\<close>

definition steady :: "image \<Rightarrow> nat \<times> blocks \<Rightarrow> nat \<Rightarrow> kernel \<Rightarrow> kernel \<Rightarrow> bool" where
  "steady img A t k0 k \<longleftrightarrow> kernel_ok img A t k \<and> polls k = polls k0 \<and> netw k = netw k0 \<and>
     mpaging (mach k) = mpaging (mach k0) \<and> apps_vector k = apps_vector k0"

lemma steady_cong:
  assumes "steady img A t k0 k" and "kheap_of k' = kheap_of k" "mpaging (mach k') = mpaging (mach k)" "apps_vector k' = apps_vector k" "polls k' = polls k" "netw k' = netw k"
    "console_ok (con k')"
  shows "steady img A t k0 k'"
  using kernel_ok_cong [of img A t k k'] assms by (simp add: steady_def)

lemma on_vfs_keeps:
  assumes k: "steady img A t k0 k" and run: "on_vfs (on_fat f) k = Some k'"
  shows "steady img A t k0 k'"
proof -
  obtain st where "k' = kprint (fat_state.tty st) (k\<lparr>mach := (mach k)\<lparr>mvfs := (mvfs (mach k))\<lparr>vfat := st\<rparr>\<rparr>\<rparr>)"
    using run by (auto simp: on_vfs_def on_fat_def)
  moreover have "console_ok (con k)" using k by (simp add: steady_def kernel_ok_def)
  ultimately show ?thesis by (intro steady_cong [OF k]) (simp_all add: kprint_def Console.console_print_def console_ok_print)
qed

lemma kprint_keeps: "steady img A t k0 k \<Longrightarrow> steady img A t k0 (kprint cs k)"
proof -
  assume k: "steady img A t k0 k"
  have "console_ok (con k)" using k by (simp add: steady_def kernel_ok_def)
  then show ?thesis by (intro steady_cong [OF k]) (simp_all add: con_kprint)
qed

lemma kread_keeps:
  assumes k: "steady img A t k0 k" and r: "kread_line input n k = Some (input', k')"
  shows "steady img A t k0 k'"
proof -
  have "console_ok (con k)" using k by (simp add: steady_def kernel_ok_def)
  then show ?thesis using kread_line_keeps [OF r] by (intro steady_cong [OF k]) simp_all
qed

lemma calc_print_keeps: "steady img A t k0 k \<Longrightarrow> calc_print result k = Some k' \<Longrightarrow> steady img A t k0 k'"
  by (auto simp: calc_print_eq kprint_keeps)

lemma hello_keeps: "steady img A t k0 k \<Longrightarrow> hello_loop input k = Some k' \<Longrightarrow> steady img A t k0 k'"
proof (induction input k rule: hello_loop.induct)
  case (1 input k)
  obtain input1 k1 where r: "kread_line input 64 k = Some (input1, k1)"
    using 1(3) by (cases "kread_line input 64 k") (auto simp: hello_loop.simps [of input k])
  show ?case
    using 1(3) 1(1) [OF r refl] kread_keeps [OF 1(2) r] by (auto simp: hello_loop.simps [of input k] r kprint_keeps split: if_splits)
qed

lemma calc_keeps: "steady img A t k0 k \<Longrightarrow> calc_loop input k = Some k' \<Longrightarrow> steady img A t k0 k'"
proof (induction input k rule: calc_loop.induct)
  case (1 input k)
  obtain input1 k1 where r: "kread_line input 64 k = Some (input1, k1)"
    using 1(3) by (cases "kread_line input 64 k") (auto simp: calc_loop.simps [of input k])
  show ?case
    using 1(3) 1(1) [OF r refl] kread_keeps [OF 1(2) r]
    by (auto simp: calc_loop.simps [of input k] r calc_print_keeps split: if_splits option.splits)
qed

lemmas vfs_on_fat = vfs_write_temp_def vfs_ls_def vfs_cd_def vfs_pwd_def vfs_create_directory_def vfs_rm_def vfs_rmdir_def vfs_cat_def

lemma run_app_keeps:
  assumes k: "steady img A t k0 k" and a: "a \<noteq> Ping" "a \<noteq> Test" and run: "run_app img G a argv k = Some k'"
  shows "steady img A t k0 k'"
proof (cases a)
  case Df
  then show ?thesis using run on_vfs_keeps [OF k] by (simp add: run_app_def disk_usage_app_def vfs_usage_def)
next
  case Clear
  have "console_ok (con k)" using k by (simp add: steady_def kernel_ok_def)
  then have "console_ok (console_clear (con k))" by (simp add: console_clear_eq console_ok_def)
  then show ?thesis using Clear run by (intro steady_cong [OF k]) (auto simp: run_app_def clear_app_def)
next
  case Hello
  then show ?thesis using run hello_keeps [OF kprint_keeps [OF kprint_keeps [OF k]]] by (simp add: run_app_def hello_app_def)
next
  case Calc
  then show ?thesis using run calc_keeps [OF kprint_keeps [OF kprint_keeps [OF k]]] by (simp add: run_app_def calculator_app_def)
qed (use a run kprint_keeps [OF k] on_vfs_keeps [OF k] kprint_keeps [of img A t] in
  \<open>auto simp: run_app_def ls_app_def cat_app_def write_app_def rm_app_def mkdir_app_def rmdir_app_def cd_app_def pwd_app_def vfs_on_fat Let_def split: if_splits\<close>)

lemma exec_keeps:
  assumes k: "steady img A t k0 k" and run: "exec_elf raw hjunk junk filename (mach k) = Some (m, Status st)"
  shows "steady img A t k0 (k\<lparr>mach := m\<rparr>)"
proof -
  have k0: "kernel_ok img A t k" using k by (simp add: steady_def)
  note e = exec_elf_status [OF kernel_ok_heap_ok [OF k0] run]
  have "heap_keeps A {} (kheap_of k) A (kheap_of (k\<lparr>mach := m\<rparr>))" using e by (simp add: heap_keeps_def)
  then have s: "kernel_ok img A t (set_heap (kheap_of (k\<lparr>mach := m\<rparr>)) k)" by (rule kernel_ok_step [OF k0]) simp_all
  have "kernel_ok img A t (k\<lparr>mach := m\<rparr>)"
    by (rule kernel_ok_cong [OF s]) (use e k0 in \<open>simp_all add: set_heap_def kernel_ok_def\<close>)
  then show ?thesis using k e by (simp add: steady_def)
qed

lemma steady_session_ok:
  assumes k: "session_ok img t k0" and s: "\<And>A. kernel_ok img A t k0 \<Longrightarrow> steady img A t k0 k"
  shows "session_ok img t k"
proof -
  obtain A where A: "running img A t k0" using k by (auto simp: session_ok_def)
  then have st: "steady img A t k0 k" using s by (simp add: running_def)
  have "scratch_ok img A t k"
    by (rule scratch_ok_cong [of img A t k0]) (use A st in \<open>simp_all add: running_def steady_def scratch_ok_def\<close>)
  then have "running img A t k" using st by (simp add: running_def steady_def)
  then show ?thesis by (rule session_ok_step [OF k]) (use st in \<open>simp_all add: steady_def\<close>)
qed

lemma command_session_ok:
  assumes k: "session_ok img t k" and n: "is_cstr name" and run: "shell_command img G (name # args) k = Some (k', Next)"
  shows "session_ok img t k'"
proof -
  obtain A where k0: "kernel_ok img A t k" using k by (auto simp: session_ok_def running_def)
  have s: "steady img A t k k" if "kernel_ok img A t k" for A using that by (simp add: steady_def)
  show ?thesis
  proof (cases "map_of app_table name")
    case (Some a)
    then have r: "run_app img G a (name # args) k = Some k'" using run unfolding dispatches [OF k0 n] by (auto split: if_splits)
    consider "a = Ping" | "a = Test" | "a \<noteq> Ping" "a \<noteq> Test" by blast
    then show ?thesis
    proof cases
      case 1
      then show ?thesis using ping_session_ok [OF k] r by (simp add: run_app_def)
    next
      case 2
      then show ?thesis using test_session_ok [OF k] r by (simp add: run_app_def)
    next
      case 3
      show ?thesis by (rule steady_session_ok [OF k]) (rule run_app_keeps [OF s 3 r])
    qed
  next
    case None
    then obtain m st where m: "exec_elf (old_node (G k)) (old_header (G k)) (old_segment (G k)) name (mach k) = Some (m, Status st)"
      "k' = k\<lparr>mach := m\<rparr> \<or> k' = kprint (cstr ''Command or file not found!'' @ [0x0A]) (k\<lparr>mach := m\<rparr>)"
      using run unfolding dispatches [OF k0 n] by (auto split: if_splits option.splits prod.splits exec_result.splits)
    show ?thesis
    proof (rule steady_session_ok [OF k])
      fix A assume "kernel_ok img A t k"
      from exec_keeps [OF s [OF this] m(1)] show "steady img A t k k'" using m(2) kprint_keeps by blast
    qed
  qed
qed

lemma session_keeps:
  "session img G input k cmds input' k' \<Longrightarrow> session_ok img t k \<Longrightarrow> session_ok img t k'"
proof (induction rule: session.induct)
  case (session_prompt input k)
  then show ?case by simp
next
  case (session_line k k1 input line k2 argv input1 k3 cmds input' k')
  have s1: "session_ok img t (kprint (cstr ''> '') k1)"
    by (rule session_ok_kprint [OF kpoll_session_ok [OF session_line.prems session_line.hyps(1)]])
  have s2: "session_ok img t k2"
    by (rule steady_session_ok [OF s1]) (rule kread_keeps [OF _ session_line.hyps(2)], simp add: steady_def)
  have "session_ok img t k3"
  proof (cases argv)
    case Nil
    then show ?thesis using session_line.hyps(4) s2 by (simp add: shell_command_def)
  next
    case (Cons i js)
    have "is_cstr (arg input1 i)" unfolding arg_def cstr_of_def is_cstr_def by (auto dest: set_takeWhileD)
    then show ?thesis using command_session_ok [OF s2] session_line.hyps(4) Cons by auto
  qed
  then show ?case by (rule session_line.IH)
qed

section \<open>A small machine\<close>

text \<open>
  An image of 32 KB: the names from 0x1000, 16 bytes apart, the page tables at 0x4000; the disk holds an empty volume.
\<close>

primrec app_number :: "app \<Rightarrow> nat" where
  "app_number Hello = 0"
| "app_number Calc = 1"
| "app_number Clear = 2"
| "app_number Ls = 3"
| "app_number Cat = 4"
| "app_number Write = 5"
| "app_number Rm = 6"
| "app_number Df = 7"
| "app_number Mkdir = 8"
| "app_number Rmdir = 9"
| "app_number Cd = 10"
| "app_number Pwd = 11"
| "app_number Ping = 12"
| "app_number Test = 13"

definition small_image :: image where
  "small_image = \<lparr>literal = (\<lambda>a. of_nat (0x1000 + 16 * app_number a)), entry = (\<lambda>a. of_nat (app_number a)), new_app = 0x100,
     point_slot = (\<lambda>i. of_nat (0x200 + 8 * i))\<rparr>"

definition small_platform :: platform where
  "small_platform = \<lparr>kernel_end = 0x8000, page_tables = 0x4000, gdt_address = 0x380, tss_address = 0x300, boot_esp = 0x7000,
     pci_config = (\<lambda>_. 0), reset_reads = [0], station = (\<lambda>_. 0)\<rparr>"

definition small_ram :: "u32 \<Rightarrow> u8" where
  "small_ram u =
     (if 0x1000 \<le> u \<and> u < 0x10E0 then
        (fst (app_table ! unat ((u - 0x1000) div 16)) @ replicate 16 0) ! unat ((u - 0x1000) mod 16)
      else 0)"

definition power_on :: "u8 list \<Rightarrow> kernel" where
  "power_on scancodes = \<lparr>
     mach = \<lparr>mvfs = \<lparr>vheap = \<lparr>ram = small_ram, free_list_head = 0\<rparr>, vfat = blank_volume, nodes = (\<lambda>_. None)\<rparr>,
       mpaging = \<lparr>page_directory = replicate 1024 0, frame_bitmap = replicate BITMAP_SIZE 0, memory = small_ram\<rparr>\<rparr>,
     con = blank_console,
     netw = \<lparr>heap = \<lparr>ram = small_ram, free_list_head = 0\<rparr>, arp_cache = [], mac_address = replicate 6 0, rx_buffer = 0,
       rx_offset = 0, current_tx_descriptor = 0, isr_reads = [], capr = 0, tx = [], tty = []\<rparr>,
     apps_vector = \<lparr>vdata = 0, vsize = 0, capacity = 0, element_size = 0\<rparr>,
     gdt_table = [], gdt_pointer = \<lparr>gp_limit = 0, gp_base = 0\<rparr>, tss_entry = cleared_tss, keys = scancodes, polls = replicate 10 [(1, [])]\<rparr>"

definition small_garbage :: garbage where
  "small_garbage = \<lparr>old_input = replicate 64 0, old_points = \<lparr>vdata = 0, vsize = 0, capacity = 0, element_size = 0\<rparr>,
     old_node = \<lparr>node_name = replicate 256 0, flags = 0, node_size = 0, inode = 0, read_op = None, write_op = None, close_op = None\<rparr>,
     old_header = replicate 54 0, old_segment = (\<lambda>_. replicate 32 0)\<rparr>"

lemma app_number_less: "app_number a < 14" by (cases a) simp_all

lemma app_number_inj: "app_number a = app_number b \<Longrightarrow> a = b"
  by (cases a; cases b; simp)

lemma small_names: "names_placed small_image small_ram"
proof -
  have "list_all (\<lambda>(name, a). load_ram small_ram (literal small_image a) (length name + 1) = name @ [0]) app_table"
    by code_simp
  then show ?thesis unfolding names_placed_def list_all_iff .
qed

lemma small_name_bytes: "name_bytes small_image \<subseteq> {0x1000..<0x1100}"
proof
  fix x assume x: "x \<in> name_bytes small_image"
  obtain name a where na: "(name, a) \<in> set app_table" "unat (literal small_image a) \<le> x" "x \<le> unat (literal small_image a) + length name"
    using x by (auto simp: name_bytes_def)
  have "unat (literal small_image a) = 0x1000 + 16 * app_number a" unfolding small_image_def using app_number_less [of a] by (simp add: unat_of_nat_u32 del: of_nat_add of_nat_mult)
  moreover have "length name < 10" using app_names(1) na(1) by fastforce
  ultimately show "x \<in> {0x1000..<0x1100}" using na(2,3) app_number_less [of a] unfolding atLeastLessThan_iff by linarith
qed

lemma small_image_ok: "image_ok small_image small_platform small_ram"
proof -
  have e: "entry small_image a = of_nat (app_number a)" "literal small_image a = of_nat (0x1000 + 16 * app_number a)"
    "kernel_end small_platform = 0x8000" "page_tables small_platform = 0x4000" "new_app small_image = 0x100" for a
    by (simp_all add: small_image_def small_platform_def)
  have "inj (entry small_image)"
  proof (rule injI)
    fix a b assume "entry small_image a = entry small_image b"
    then have "unat (of_nat (app_number a) :: u32) = unat (of_nat (app_number b) :: u32)" unfolding e by simp
    then have "app_number a = app_number b" using app_number_less [of a] app_number_less [of b] by (simp add: unat_of_nat_u32)
    then show "a = b" by (rule app_number_inj)
  qed
  moreover have "name_bytes small_image \<subseteq> {..<0x8000} - {0x4000..<0x8000} - {0x100..<0x108}" using small_name_bytes by force
  ultimately show ?thesis
    unfolding image_ok_def table_bytes_def slot_bytes_def e using small_names by auto
qed

lemma small_locals: "locals_ok small_image small_platform"
proof -
  have p: "unat (point_slot small_image i) = 0x200 + 8 * i" if "i < 3" for i
    using that unfolding small_image_def by (simp add: unat_of_nat_u32 del: of_nat_add of_nat_mult)
  have n: "name_bytes small_image \<subseteq> {0x1000..<0x1100}" by (rule small_name_bytes)
  have "name_bytes small_image \<inter> {..<20} = {}" using n by fastforce
  moreover have "{0x200 + 8 * i..<0x200 + 8 * i + 8} \<inter> (table_bytes small_platform \<union> name_bytes small_image) = {}" if "i < 3" for i
    using that n by (fastforce simp: table_bytes_def small_platform_def)
  ultimately show ?thesis unfolding locals_ok_def by (simp add: p small_platform_def)
qed

lemma power_on_simps [simp]:
  "kram (power_on scs) = small_ram" "con (power_on scs) = blank_console" "keys (power_on scs) = scs" "kfat (power_on scs) = blank_volume"
  "page_directory (mpaging (mach (power_on scs))) = replicate 1024 0"
  "frame_bitmap (mpaging (mach (power_on scs))) = replicate BITMAP_SIZE 0"
  "polls (power_on scs) = replicate 10 [(1, [])]"
  by (simp_all add: power_on_def del: replicate.simps)

lemma small_starts:
  "\<exists>k A t. kernel_start small_image small_platform (power_on scs) = Some k \<and> kernel_ok small_image A t k \<and> keys k = scs \<and>
    polls k = replicate 10 [(1, [])] \<and> \<not> shift_pressed (con k) \<and> disk (kfat k) = disk blank_volume \<and> free_frames (pg (mach k)) = {1032..<16384}"
proof -
  have s: "wait_reset (reset_reads small_platform) \<noteq> None" "(unat (kernel_end small_platform) + 4194304 + 4095) div 4096 = 1032"
    by (simp_all add: small_platform_def)
  have "length (page_directory (mpaging (mach (power_on scs)))) = 1024" "length (frame_bitmap (mpaging (mach (power_on scs)))) = BITMAP_SIZE"
    "2000 \<le> length (video (con (power_on scs)))" "image_ok small_image small_platform (kram (power_on scs))" "\<not> shift_pressed (con (power_on scs))"
    using small_image_ok by (simp_all add: blank_console_def)
  from kernel_starts [OF this(4,1,2,3) s(1)] this(5) show ?thesis
    unfolding s(2) power_on_simps(3,4,7) by metis
qed

section \<open>Files\<close>

text \<open>The file system as a command finds it, with nothing printed yet.\<close>

abbreviation silent :: "fat_state \<Rightarrow> fat_state" where
  "silent st \<equiv> fat_state.tty_update (\<lambda>_. []) st"

lemma write_cat:
  assumes k: "kernel_ok img A t k" and d: "dir_at (silent (kfat k)) (current_dir_cluster (kfat k)) dl" and n: "is_cstr name"
    and e5: "format_filename name ! 0 \<noteq> 0xE5" and l: "lookup_slot (silent (kfat k)) dl (format_filename name) = None"
    and sl: "\<exists>sl \<in> set (dir_slots (silent (kfat k)) dl). free_entry (slot_entry (silent (kfat k)) sl)"
    and u: "\<forall>x \<in> set dl. fat32_next_cluster (silent (kfat k)) x \<noteq> 0" and c: "is_cstr text'"
    and wrap: "length text' + unat (bytes_per_cluster (silent (kfat k))) \<le> 4294967296"
    and room: "unat ((of_nat (length text') + bytes_per_cluster (silent (kfat k)) - 1) div bytes_per_cluster (silent (kfat k))) \<le> card (free_clusters (silent (kfat k)))"
    and sm: "length text' < 4294967296"
  shows "\<exists>k1 k2. shell_command img G [cstr ''write'', name, text'] k = Some (k1, Next) \<and>
    shell_command img G [cstr ''cat'', name] k1 = Some (k2, Next) \<and>
    con k1 = Console.console_print (cstr ''File written successfully!'' @ [0x0A]) (con k) \<and>
    con k2 = Console.console_print (text' @ [0x0A]) (con k1) \<and> kernel_ok img A t k2"
proof -
  let ?st = "silent (kfat k)"
  let ?n = "of_nat (length text') :: u32"
  have un: "unat ?n = length text'" by (rule unat_of_nat_u32 [OF sm])
  obtain x where x: "find (\<lambda>sl. free_entry (slot_entry ?st sl)) (dir_slots ?st dl) = Some x"
    using sl by (cases "find (\<lambda>sl. free_entry (slot_entry ?st sl)) (dir_slots ?st dl)") (auto simp: find_None_iff)
  have d': "dir_at ?st (current_dir_cluster ?st) dl" using d by simp
  have b: "unat ?n \<le> length text'" "unat ?n + unat (bytes_per_cluster ?st) \<le> 4294967296" using un wrap by simp_all
  obtain st' cl e where w: "fat32_write_file ?st name text' ?n = Some st'" "fat32_find_file st' name = Some (Some e)" "de_file_size e = ?n"
    "dir_at st' (entry_cluster e) cl" "take (unat ?n) (file_bytes st' cl) = take (unat ?n) text'" "fat_state.tty st' = []"
    by (rule write_file_result [OF d' n e5 l x u b room]) (rule that, (assumption | simp)+)
  have s': "silent st' = st'" using w(6) by simp
  have ct: "fat32_cat st' name = Some (Fat32_Types.console_print (text' @ [0x0A]) st')"
    using cat_chain [of st' name e cl] dir_atD(2) [OF w(4)] w(2,3,5) c un by (simp add: is_cstr_def)
  have m: "map_of app_table (cstr ''write'') = Some Write" "map_of app_table (cstr ''cat'') = Some Cat"
    "is_cstr (cstr ''write'')" "is_cstr (cstr ''cat'')" "cstr ''write'' \<noteq> cstr ''exit''" "cstr ''cat'' \<noteq> cstr ''exit''" by code_simp+
  have ln: "strlen text' = ?n" using strlen_from_eq [OF c, of 0] by (simp add: strlen_def)
  let ?kw = "(k\<lparr>mach := (mach k)\<lparr>mvfs := (mvfs (mach k))\<lparr>vfat := st'\<rparr>\<rparr>\<rparr>)"
  let ?k1 = "kprint (cstr ''File written successfully!'' @ [0x0A]) (kprint [] ?kw)"
  have o1: "on_vfs (vfs_write_temp name text' ?n) k = Some (kprint [] ?kw)"
    using w(1,6) by (simp add: on_vfs_def vfs_write_temp_def on_fat_def)
  have r1: "run_app img G Write [cstr ''write'', name, text'] k = Some ?k1"
    by (simp add: run_app_def write_app_def ln o1 numeral_2_eq_2)
  have c1: "shell_command img G [cstr ''write'', name, text'] k = Some (?k1, Next)"
    using m(1,5) r1 unfolding dispatches [OF k m(3)] by simp
  have k1: "kernel_ok img A t ?k1"
    using run_app_keeps [of img A t k k Write] r1 k by (simp add: steady_def)
  let ?k2 = "kprint (text' @ [0x0A]) ((?k1)\<lparr>mach := (mach ?k1)\<lparr>mvfs := (mvfs (mach ?k1))\<lparr>vfat := Fat32_Types.console_print (text' @ [0x0A]) st'\<rparr>\<rparr>\<rparr>)"
  have v1: "(mvfs (mach ?k1))\<lparr>vfat := silent (kfat ?k1)\<rparr> = (mvfs (mach k))\<lparr>vfat := st'\<rparr>" using s' by (simp add: kprint_def)
  have o2: "on_vfs (vfs_cat name) ?k1 = Some ?k2"
    unfolding on_vfs_def v1 using ct w(6) by (simp add: vfs_cat_def on_fat_def kprint_def)
  have r2: "run_app img G Cat [cstr ''cat'', name] ?k1 = Some ?k2"
    using o2 by (simp add: run_app_def cat_app_def)
  have c2: "shell_command img G [cstr ''cat'', name] ?k1 = Some (?k2, Next)"
    using m(2,6) r2 unfolding dispatches [OF k1 m(4)] by simp
  have "kernel_ok img A t ?k2"
    using run_app_keeps [of img A t ?k1 ?k1 Cat] r2 k1 by (simp add: steady_def)
  moreover have "con ?k1 = Console.console_print (cstr ''File written successfully!'' @ [0x0A]) (con k)" "con ?k2 = Console.console_print (text' @ [0x0A]) (con ?k1)"
    by (simp_all add: kprint_def Console.console_print_def)
  ultimately show ?thesis using c1 c2 by blast
qed

section \<open>Properties\<close>

text \<open>
  C10: The kernel boots, whatever is in memory besides its image: heap, page tables, vector of applications and screen
  satisfy the invariant of the running kernel, all 14 applications are registered under their names, the first 16 MB are
  mapped to themselves, every frame above the heap is free, and disk and scancodes are untouched.
\<close>

theorem kernel_boots:
  assumes "image_ok img P (kram k)" and "length (page_directory (mpaging (mach k))) = 1024" and "length (frame_bitmap (mpaging (mach k))) = BITMAP_SIZE"
    and "2000 \<le> length (video (con k))" and "wait_reset (reset_reads P) \<noteq> None"
  shows "\<exists>k' A t. kernel_start img P k = Some k' \<and> kernel_ok img A t k' \<and> keys k' = keys k \<and>
    fs (kfat k') = fs (fat32_init (kfat k)) \<and> disk (kfat k') = disk (kfat k) \<and>
    free_frames (pg (mach k')) = {(unat (kernel_end P) + 4194304 + 4095) div 4096..<16384}"
  using kernel_starts [OF assms] by blast

theorem kernel_boots_witness:
  "\<exists>k A t. kernel_start small_image small_platform (power_on []) = Some k \<and> kernel_ok small_image A t k \<and>
    free_frames (pg (mach k)) = {1032..<16384}"
proof -
  have s: "wait_reset (reset_reads small_platform) \<noteq> None" "(unat (kernel_end small_platform) + 4194304 + 4095) div 4096 = 1032"
    by (simp_all add: small_platform_def)
  have "length (page_directory (mpaging (mach (power_on [])))) = 1024" "length (frame_bitmap (mpaging (mach (power_on [])))) = BITMAP_SIZE"
    "2000 \<le> length (video (con (power_on [])))" "image_ok small_image small_platform (kram (power_on []))"
    using small_image_ok by (simp_all add: blank_console_def)
  from kernel_boots [OF this(4,1,2,3) s(1)] show ?thesis unfolding s(2) by blast
qed

text \<open>
  C11: A command line runs the application that is registered under its first word and nothing else, with all the words; a
  name that is not registered is loaded as a program from the disk, and when that fails without a jump to user mode the
  shell says so; \<open>exit\<close> leaves the shell.
\<close>

theorem shell_dispatches:
  assumes "kernel_ok img A t k" and "is_cstr name"
  shows "shell_command img G (name # args) k =
    (if name = cstr ''exit'' then Some (kprint (cstr ''Exiting SojebOS shell...'' @ [0x0A]) k, Exited)
     else case map_of app_table name of
       Some a \<Rightarrow> map_option (\<lambda>k. (k, Next)) (run_app img G a (name # args) k)
     | None \<Rightarrow>
         (case exec_elf (old_node (G k)) (old_header (G k)) (old_segment (G k)) name (mach k) of
            None \<Rightarrow> None
          | Some (m, User_Mode eip esp) \<Rightarrow> Some (k\<lparr>mach := m\<rparr>, Entered eip esp)
          | Some (m, Status st) \<Rightarrow>
              Some (if 0 \<le> st then k\<lparr>mach := m\<rparr> else kprint (cstr ''Command or file not found!'' @ [0x0A]) (k\<lparr>mach := m\<rparr>), Next)))"
  by (rule dispatches [OF assms])

theorem shell_dispatches_witness:
  "\<exists>k. kernel_start small_image small_platform (power_on []) = Some k \<and>
    (\<forall>G. shell_command small_image G [cstr ''clear''] k = Some (clear_app k, Next))"
proof -
  obtain k A t where k: "kernel_start small_image small_platform (power_on []) = Some k" "kernel_ok small_image A t k"
    using small_starts by blast
  have m: "map_of app_table (cstr ''clear'') = Some Clear" "is_cstr (cstr ''clear'')" "cstr ''clear'' \<noteq> cstr ''exit''" by code_simp+
  have "shell_command small_image G [cstr ''clear''] k = Some (clear_app k, Next)" for G
    using shell_dispatches [OF k(2) m(2)] m(1,3) by (simp add: run_app_def)
  then show ?thesis using k(1) by blast
qed

text \<open>
  C3: Every prompt that the kernel comes to after power on, whatever is typed, whichever programs are run and whatever frames
  arrive meanwhile, satisfies the invariant of the running kernel, and from there the shell goes on. A run that faults or
  that C leaves undefined, as when a reply overflows the frame buffer, comes to no prompt. It takes a network card that
  stores nothing outside the receive ring, and an image whose names and page tables lie clear of the local variables of
  the vector test and of address 0, where \<open>ping\<close> writes its request when the heap is full.
\<close>

theorem kernel_prompts:
  assumes "image_ok img P (kram k)" and "length (page_directory (mpaging (mach k))) = 1024" and "length (frame_bitmap (mpaging (mach k))) = BITMAP_SIZE"
    and "2000 \<le> length (video (con k))" and "wait_reset (reset_reads P) \<noteq> None" and "locals_ok img P" and "rx_buffer (netw k) = 0" and "ring_ok (netw k)"
    and "kernel_start img P k = Some k0" and "\<forall>p \<in> set (polls k0). card_poll (netw k0) p"
    and "session img G (old_input (G k0)) k0 cmds input' k'"
  shows "(\<exists>A t. running img A t k') \<and> kernel_main img P G k = shell_loop img G input' k'"
proof -
  obtain A t where "running img A t k0" using kernel_starts [OF assms(1-5)] assms(6-9) by auto
  then have "session_ok img t k0" using assms(10) unfolding session_ok_def by blast
  then have "session_ok img t k'" by (rule session_keeps [OF assms(11)])
  moreover have "kernel_main img P G k = shell_loop img G input' k'"
    using session_loop [OF assms(11)] assms(9) by (simp add: kernel_main_def shell_run_def)
  ultimately show ?thesis unfolding session_ok_def by blast
qed

theorem kernel_prompts_witness:
  "\<exists>A t input' k'. running small_image A t k' \<and>
    kernel_main small_image small_platform (\<lambda>_. small_garbage) (power_on [0x2E, 0x26, 0x12, 0x1E, 0x13, 0x1C]) =
      shell_loop small_image (\<lambda>_. small_garbage) input' k'"
proof -
  let ?G = "\<lambda>_ :: kernel. small_garbage" and ?scs = "[0x2E, 0x26, 0x12, 0x1E, 0x13, 0x1C] :: u8 list"
  obtain k A t where k: "kernel_start small_image small_platform (power_on ?scs) = Some k"
    "kernel_ok small_image A t k" "keys k = ?scs" "polls k = replicate 10 [(1, [])]" "\<not> shift_pressed (con k)"
    using small_starts by blast
  have pk: "polls k = [(1, [])] # replicate 9 [(1, [])]" using k(4) by (simp add: numeral_eq_Suc)
  obtain n where k1: "kpoll k = Some (k\<lparr>polls := replicate 9 [(1, [])], netw := n\<rparr>)"
    using kpoll_idle [OF pk] by auto
  let ?k1 = "k\<lparr>polls := replicate 9 [(1, [])], netw := n\<rparr>"
  have ty: "typed False ?scs = cstr ''clear'' @ 0x0A # []" by code_simp
  have pl: "0x0A \<notin> set (cstr ''clear'')" "0x08 \<notin> set (cstr ''clear'')" "length (cstr ''clear'') < 64"
    "take 10 (words (cstr ''clear'')) = [cstr ''clear'']" "is_cstr (cstr ''clear'')" "cstr ''clear'' \<noteq> cstr ''exit''"
    "map_of app_table (cstr ''clear'') = Some Clear" by code_simp+
  have "typed (shift_pressed (con (kprint (cstr ''> '') ?k1))) (keys (kprint (cstr ''> '') ?k1)) = cstr ''clear'' @ 0x0A # []"
    using k(3,5) ty by simp
  from kread_typed [OF this pl(1-3), of "old_input small_garbage"]
  obtain tail k2 where r: "kread_line (old_input small_garbage) 64 (kprint (cstr ''> '') ?k1) = Some (cstr ''clear'' @ 0 # tail, k2)"
    by (auto simp: small_garbage_def)
  obtain argv input' where tk: "tokenize (cstr ''clear'' @ 0 # tail) 0 [] = (argv, input')" "map (arg input') argv = [cstr ''clear'']"
    using tokenize_line [OF pl(5), of "[]" tail "[]"] pl(4) by auto
  have "kernel_ok small_image A t ?k1" by (rule kernel_ok_cong [OF k(2)]) (use k(2) in \<open>simp_all add: kernel_ok_def\<close>)
  then have s1: "steady small_image A t ?k1 ?k1" by (simp add: steady_def)
  then have "kernel_ok small_image A t k2" using kread_keeps [OF kprint_keeps [OF s1] r] by (simp add: steady_def)
  then have "shell_command small_image ?G (map (arg input') argv) k2 = Some (clear_app k2, Next)"
    unfolding tk(2) using dispatches [of small_image A t k2 "cstr ''clear''" ?G "[]"] pl(5-7) by (simp add: run_app_def)
  then have s: "session small_image ?G (old_input (?G k)) k [[cstr ''clear'']] input' (clear_app k2)"
    using session_line [OF k1 r tk(1) _ session_prompt] unfolding tk(2) by blast
  have b: "length (page_directory (mpaging (mach (power_on ?scs)))) = 1024" "length (frame_bitmap (mpaging (mach (power_on ?scs)))) = BITMAP_SIZE"
    "2000 \<le> length (video (con (power_on ?scs)))" "image_ok small_image small_platform (kram (power_on ?scs))"
    "wait_reset (reset_reads small_platform) \<noteq> None" "rx_buffer (netw (power_on ?scs)) = 0" "ring_ok (netw (power_on ?scs))"
    "\<forall>p \<in> set (polls k). card_poll (netw k) p"
    using small_image_ok by (simp_all add: blank_console_def small_platform_def k(4) card_poll_def power_on_def ring_ok_def)
  note kernel_prompts [OF b(4,1,2,3,5) small_locals b(6,7) k(1) b(8) s]
  then show ?thesis by blast
qed

text \<open>
  C12: A text that \<open>write\<close> has put into a new file is what \<open>cat\<close> then shows on the screen, followed by a newline, and the
  invariant of the kernel holds afterwards.
\<close>

theorem shell_write_then_cat:
  assumes "kernel_ok img A t k" and "dir_at (silent (kfat k)) (current_dir_cluster (kfat k)) dl" and "is_cstr name"
    and "format_filename name ! 0 \<noteq> 0xE5" and "lookup_slot (silent (kfat k)) dl (format_filename name) = None"
    and "\<exists>sl \<in> set (dir_slots (silent (kfat k)) dl). free_entry (slot_entry (silent (kfat k)) sl)"
    and "\<forall>x \<in> set dl. fat32_next_cluster (silent (kfat k)) x \<noteq> 0" and "is_cstr contents"
    and "length contents + unat (bytes_per_cluster (silent (kfat k))) \<le> 4294967296"
    and "unat ((of_nat (length contents) + bytes_per_cluster (silent (kfat k)) - 1) div bytes_per_cluster (silent (kfat k))) \<le> card (free_clusters (silent (kfat k)))"
    and "length contents < 4294967296"
  shows "\<exists>k1 k2. shell_command img G [cstr ''write'', name, contents] k = Some (k1, Next) \<and>
    shell_command img G [cstr ''cat'', name] k1 = Some (k2, Next) \<and>
    con k1 = Console.console_print (cstr ''File written successfully!'' @ [0x0A]) (con k) \<and>
    con k2 = Console.console_print (contents @ [0x0A]) (con k1) \<and> kernel_ok img A t k2"
  by (rule write_cat [OF assms])

theorem shell_write_then_cat_witness:
  "\<forall>G. \<exists>k k1 k2. kfat k = blank_volume \<and> shell_command small_image G [cstr ''write'', cstr ''a'', cstr ''hello''] k = Some (k1, Next) \<and>
    shell_command small_image G [cstr ''cat'', cstr ''a''] k1 = Some (k2, Next) \<and> con k2 = Console.console_print (cstr ''hello'' @ [0x0A]) (con k1)"
proof
  fix G
  obtain k A t where k: "kernel_ok small_image A t k" using small_starts by blast
  let ?k = "k\<lparr>mach := (mach k)\<lparr>mvfs := (mvfs (mach k))\<lparr>vfat := blank_volume\<rparr>\<rparr>\<rparr>"
  have ok: "kernel_ok small_image A t ?k" using k by (intro kernel_ok_cong [OF k]) (simp_all add: kernel_ok_def)
  have v: "kfat ?k = blank_volume" "silent (kfat ?k) = blank_volume" "current_dir_cluster (kfat ?k) = 2" by (simp_all add: blank_volume_def)
  have h: "is_cstr (cstr ''hello'')" "length (cstr ''hello'') = 5" by code_simp+
  have "\<exists>k1 k2. shell_command small_image G [cstr ''write'', cstr ''a'', cstr ''hello''] ?k = Some (k1, Next) \<and>
    shell_command small_image G [cstr ''cat'', cstr ''a''] k1 = Some (k2, Next) \<and>
    con k1 = Console.console_print (cstr ''File written successfully!'' @ [0x0A]) (con ?k) \<and>
    con k2 = Console.console_print (cstr ''hello'' @ [0x0A]) (con k1) \<and> kernel_ok small_image A t k2"
    by (rule shell_write_then_cat [where dl = "[2]", OF ok]; (unfold v(2,3) h)?)
      (use h(1) blank_dir blank_lookup blank_free_exists name_a_ok cstr_a(2) blank_room in
        \<open>simp_all add: blank_next blank_bpc del: slot_entry_simp\<close>)
  then show "\<exists>k k1 k2. kfat k = blank_volume \<and> shell_command small_image G [cstr ''write'', cstr ''a'', cstr ''hello''] k = Some (k1, Next) \<and>
    shell_command small_image G [cstr ''cat'', cstr ''a''] k1 = Some (k2, Next) \<and> con k2 = Console.console_print (cstr ''hello'' @ [0x0A]) (con k1)"
    using v(1) by blast
qed

end
