(* ===== verification/HashTable.thy ===== *)
theory HashTable
  imports Memory "HOL-Library.Multiset"
begin

text \<open>
  The hash table of \<open>src/kernel/libc/hashtable.c\<close> in blocks of the kernel heap: an array of buckets, each a linked list of
  entries with a copy of the key. \<open>None\<close> stands for a run that does not end, for a key without a terminator, and for
  the division by the size of an empty table.
\<close>

unbundle bit_operations_syntax

section \<open>Operations\<close>

text \<open>A character is signed and is extended before it is added.\<close>

definition hash_function :: "u8 list \<Rightarrow> u32" where
  "hash_function str = fold (\<lambda>c hash. push_bit 5 hash + hash + scast c) str 5381"

text \<open>The address of \<open>table->buckets[index]\<close>.\<close>

definition bucket :: "(u32 \<Rightarrow> u8) \<Rightarrow> u32 \<Rightarrow> u32 \<Rightarrow> u32" where
  "bucket m table index = ld32 m (table + 4) + index * 4"

definition hash_table_create :: "u32 \<Rightarrow> kheap \<Rightarrow> (kheap \<times> u32) option" where
  "hash_table_create sz h =
     Option.bind (kmalloc 8 h)
       (\<lambda>(h, table).
          if table = 0 then Some (h, 0)
          else
            (let h = h\<lparr>ram := st32 table sz (ram h)\<rparr>
             in Option.bind (kmalloc (4 * sz) h)
                  (\<lambda>(h, buckets).
                     let h = h\<lparr>ram := st32 (table + 4) buckets (ram h)\<rparr>
                     in if buckets = 0 then map_option (\<lambda>h. (h, 0)) (kfree table h)
                        else Some (h\<lparr>ram := fold (\<lambda>i m. st32 (bucket m table (of_nat i)) 0 m) [0..<unat sz] (ram h)\<rparr>, table))))"

text \<open>The walk along a bucket to the entry of a key; \<open>prev\<close> is the entry before it.\<close>

partial_function (option) find_entry :: "(u32 \<Rightarrow> u8) \<Rightarrow> u8 list \<Rightarrow> u32 \<Rightarrow> u32 \<Rightarrow> (u32 \<times> u32) option" where
  "find_entry m key prev entry =
     (if entry = 0 then Some (prev, 0)
      else
        Option.bind (ram_string m (ld32 m entry))
          (\<lambda>s. if strcmp s key = 0 then Some (prev, entry) else find_entry m key entry (ld32 m (entry + 8))))"

definition hash_index :: "(u32 \<Rightarrow> u8) \<Rightarrow> u32 \<Rightarrow> u8 list \<Rightarrow> u32 option" where
  "hash_index m table key = (if ld32 m table = 0 then None else Some (hash_function key mod ld32 m table))"

definition hash_table_insert :: "u32 \<Rightarrow> u32 \<Rightarrow> u32 \<Rightarrow> kheap \<Rightarrow> kheap option" where
  "hash_table_insert table key val h =
     (if table = 0 \<or> key = 0 then Some h
      else
        Option.bind (ram_string (ram h) key)
          (\<lambda>str. Option.bind (hash_index (ram h) table str)
            (\<lambda>index. Option.bind (find_entry (ram h) str 0 (ld32 (ram h) (bucket (ram h) table index)))
              (\<lambda>(_, entry).
                 if entry \<noteq> 0 then Some (h\<lparr>ram := st32 (entry + 4) val (ram h)\<rparr>)
                 else
                   Option.bind (kmalloc 12 h)
                     (\<lambda>(h, new_entry).
                        if new_entry = 0 then Some h
                        else
                          map_option
                            (\<lambda>(h, copy).
                               let m = st32 (new_entry + 4) val (st32 new_entry copy (ram h));
                                   m = st32 (new_entry + 8) (ld32 m (bucket m table index)) m
                               in h\<lparr>ram := st32 (bucket m table index) new_entry m\<rparr>)
                            (strdup key h))))))"

definition hash_table_lookup :: "u32 \<Rightarrow> u32 \<Rightarrow> kheap \<Rightarrow> u32 option" where
  "hash_table_lookup table key h =
     (if table = 0 \<or> key \<noteq> 0 then Some 0
      else
        Option.bind (ram_string (ram h) key)
          (\<lambda>str. Option.bind (hash_index (ram h) table str)
            (\<lambda>index. map_option (\<lambda>(_, entry). if entry = 0 then 0 else ld32 (ram h) (entry + 4))
              (find_entry (ram h) str 0 (ld32 (ram h) (bucket (ram h) table index))))))"

definition hash_table_remove :: "u32 \<Rightarrow> u32 \<Rightarrow> kheap \<Rightarrow> kheap option" where
  "hash_table_remove table key h =
     (if table = 0 \<or> key = 0 then Some h
      else
        Option.bind (ram_string (ram h) key)
          (\<lambda>str. Option.bind (hash_index (ram h) table str)
            (\<lambda>index. Option.bind (find_entry (ram h) str 0 (ld32 (ram h) (bucket (ram h) table index)))
              (\<lambda>(prev, entry).
                 if entry = 0 then Some h
                 else
                   (let m = ram h;
                        next' = ld32 m (entry + 8);
                        m = (if prev \<noteq> 0 then st32 (prev + 8) next' m else st32 (bucket m table index) next' m)
                    in Option.bind (kfree (ld32 m entry) (h\<lparr>ram := m\<rparr>)) (kfree entry))))))"

section \<open>Specification\<close>

text \<open>
  An entry: its address, the address of the copy of the key, the key and the value; a list of entries in memory; and the
  blocks of an entry with the lengths that are used.
\<close>

type_synonym hash_entry = "u32 \<times> u32 \<times> u8 list \<times> u32"

fun chain_at :: "(u32 \<Rightarrow> u8) \<Rightarrow> u32 \<Rightarrow> hash_entry list \<Rightarrow> bool" where
  "chain_at m a [] \<longleftrightarrow> a = 0"
| "chain_at m a ((e, p, k, v) # es) \<longleftrightarrow>
     a = e \<and> e \<noteq> 0 \<and> ld32 m e = p \<and> ld32 m (e + 4) = v \<and> load_ram m p (length k + 1) = k @ [0] \<and> chain_at m (ld32 m (e + 8)) es"

fun entry_blocks :: "hash_entry \<Rightarrow> (u32 \<times> nat) list" where
  "entry_blocks (e, p, k, v) = [(e, 12), (p, length k + 1)]"

definition owned :: "nat \<times> blocks \<Rightarrow> (u32 \<times> nat) list \<Rightarrow> bool" where
  "owned A xs \<longleftrightarrow> distinct (map fst xs) \<and> (\<forall>(a, l) \<in> set xs. \<exists>t. l \<le> t \<and> live A (unat a) t)"

definition table_blocks :: "u32 \<Rightarrow> u32 \<Rightarrow> nat \<Rightarrow> hash_entry list \<Rightarrow> (u32 \<times> nat) list" where
  "table_blocks T B n es = (T, 8) # (B, 4 * n) # concat (map entry_blocks es)"

abbreviation ekey :: "hash_entry \<Rightarrow> u8 list" where
  "ekey x \<equiv> fst (snd (snd x))"

abbreviation evalue :: "hash_entry \<Rightarrow> u32" where
  "evalue x \<equiv> snd (snd (snd x))"

definition key_index :: "nat \<Rightarrow> u8 list \<Rightarrow> nat" where
  "key_index n k = unat (hash_function k) mod n"

definition table_ok :: "kheap \<Rightarrow> nat \<times> blocks \<Rightarrow> u32 \<Rightarrow> u32 \<Rightarrow> hash_entry list list \<Rightarrow> bool" where
  "table_ok h A T B bss \<longleftrightarrow> heap_ok h A \<and> 0 < length bss \<and> 4 * length bss < 4294967296 \<and>
     ld32 (ram h) T = of_nat (length bss) \<and> ld32 (ram h) (T + 4) = B \<and>
     (\<forall>i < length bss. chain_at (ram h) (ld32 (ram h) (B + of_nat (4 * i))) (bss ! i) \<and> distinct (map ekey (bss ! i)) \<and>
        (\<forall>x \<in> set (bss ! i). is_cstr (ekey x) \<and> length (ekey x) < 4294967287 \<and> key_index (length bss) (ekey x) = i)) \<and>
     owned A (table_blocks T B (length bss) (concat bss))"

text \<open>The map from keys to values that the table stands for.\<close>

definition table_map :: "hash_entry list list \<Rightarrow> u8 list \<rightharpoonup> u32" where
  "table_map bss k = map_of (map (\<lambda>x. (ekey x, evalue x)) (bss ! key_index (length bss) k)) k"

text \<open>No byte of a client outside the given blocks has changed.\<close>

definition untouched :: "kheap \<Rightarrow> nat \<times> blocks \<Rightarrow> kheap \<Rightarrow> nat \<times> blocks \<Rightarrow> (u32 \<times> nat) list \<Rightarrow> bool" where
  "untouched h A h' A' xs \<longleftrightarrow>
     (\<forall>x \<in> client A. (\<forall>(a, l) \<in> set xs. \<not> (unat a \<le> x \<and> x < unat a + l)) \<longrightarrow> x \<in> client A' \<and> ram h' (of_nat x) = ram h (of_nat x))"

section \<open>Lemmas: blocks\<close>

definition same_on :: "(u32 \<Rightarrow> u8) \<Rightarrow> (u32 \<Rightarrow> u8) \<Rightarrow> u32 \<times> nat \<Rightarrow> bool" where
  "same_on m m' b \<longleftrightarrow> (\<forall>j < snd b. m' (fst b + of_nat j) = m (fst b + of_nat j))"

lemma same_on_ld32:
  assumes "same_on m m' (a, l)" and "off + 4 \<le> l"
  shows "ld32 m' (a + of_nat off) = ld32 m (a + of_nat off)"
proof -
  have b: "m' (a + of_nat off + of_nat i) = m (a + of_nat off + of_nat i)" if "i < 4" for i
    using assms that unfolding same_on_def by (auto simp: add.assoc simp flip: of_nat_add)
  show ?thesis using b [of 0] b [of 1] b [of 2] b [of 3] by (simp add: ld32_def)
qed

lemma same_on_load: "same_on m m' (a, l) \<Longrightarrow> load_ram m' a l = load_ram m a l"
  by (simp add: same_on_def load_ram_def)

lemma owned_live: "owned A xs \<Longrightarrow> (a, l) \<in> set xs \<Longrightarrow> \<exists>t. l \<le> t \<and> live A (unat a) t"
  by (auto simp: owned_def)

lemma owned_block:
  assumes "heap_ok h A" and "owned A xs" and "(a, l) \<in> set xs"
  shows "a \<noteq> 0" and "unat a + l < 4294967296" and "{unat a..<unat a + l} \<subseteq> client A"
proof -
  obtain t where t: "l \<le> t" "live A (unat a) t" using owned_live [OF assms(2,3)] by blast
  note lc = live_client [OF assms(1) t(2)]
  show "a \<noteq> 0" using lc by auto
  show "unat a + l < 4294967296" using lc t(1) by linarith
  have "{unat a..<unat a + l} \<subseteq> {unat a..<unat a + t}" using t(1) by auto
  then show "{unat a..<unat a + l} \<subseteq> client A" using lc by blast
qed

lemma owned_disjoint:
  assumes "owned A xs" and "(a, l) \<in> set xs" and "(b, k) \<in> set xs" and "a \<noteq> b"
  shows "{unat a..<unat a + l} \<inter> {unat b..<unat b + k} = {}"
proof -
  obtain t where t1: "l \<le> t" "live A (unat a) t" using owned_live [OF assms(1,2)] by blast
  obtain u where t2: "k \<le> u" "live A (unat b) u" using owned_live [OF assms(1,3)] by blast
  note t = t1 t2
  have "unat a \<noteq> unat b" using assms(4) by (simp add: word_unat_eq_iff)
  then have d: "{unat a..<unat a + t} \<inter> {unat b..<unat b + u} = {}"
    using live_disjoint [of "fst A" "snd A" "unat a" t "unat b" u] t by simp
  show ?thesis
  proof (rule ccontr)
    assume "\<not> ?thesis"
    then obtain x where "x \<in> {unat a..<unat a + l}" "x \<in> {unat b..<unat b + k}" by blast
    then have "x \<in> {unat a..<unat a + t} \<inter> {unat b..<unat b + u}" using t(1,3) by auto
    then show False using d by blast
  qed
qed

lemma st32_block:
  assumes "unat a + l < 4294967296" and "off + 4 \<le> l" and "x < 4294967296"
  shows "st32 (a + of_nat off) v m (of_nat x) = (if unat a + off \<le> x \<and> x < unat a + off + 4 then byte_of (x - (unat a + off)) v else m (of_nat x))"
proof -
  have "a + of_nat off = (of_nat (unat a + off) :: u32)" by simp
  then show ?thesis using st32_nat [of "unat a + off" x v m] assms by simp
qed

lemma st32_heap_ok:
  assumes ok: "heap_ok h A" and o: "owned A xs" "(a, l) \<in> set xs" and off: "off + 4 \<le> l"
  shows "heap_ok (h\<lparr>ram := st32 (a + of_nat off) v (ram h)\<rparr>) A"
proof (rule heap_ok_ram [OF ok])
  fix x :: nat assume x: "x < 4294967296" "x \<notin> client A"
  note b = owned_block [OF ok o]
  have "x \<notin> {unat a..<unat a + l}" using b(3) x(2) by blast
  then have "\<not> (unat a + off \<le> x \<and> x < unat a + off + 4)" using off by auto
  then show "st32 (a + of_nat off) v (ram h) (of_nat x) = ram h (of_nat x)" using st32_block [OF b(2) off x(1), of v "ram h"] by (simp only: if_False)
qed

lemma st32_other:
  assumes ok: "heap_ok h A" and o: "owned A xs" "(a, l) \<in> set xs" "(b, k) \<in> set xs" and ne: "a \<noteq> b" and off: "off + 4 \<le> l"
  shows "same_on m (st32 (a + of_nat off) v m) (b, k)"
  unfolding same_on_def
proof (intro allI impI)
  fix j assume j: "j < snd (b, k)"
  note a = owned_block [OF ok o(1,2)] and b = owned_block [OF ok o(1,3)]
  have x: "unat b + j < 4294967296" using b(2) j by simp
  have e: "fst (b, k) + of_nat j = (of_nat (unat b + j) :: u32)" by simp
  have "unat b + j \<in> {unat b..<unat b + k}" using j by simp
  then have "unat b + j \<notin> {unat a..<unat a + l}" using owned_disjoint [OF o(1-3) ne] by blast
  then have "\<not> (unat a + off \<le> unat b + j \<and> unat b + j < unat a + off + 4)" using off by auto
  then show "st32 (a + of_nat off) v m (fst (b, k) + of_nat j) = m (fst (b, k) + of_nat j)"
    unfolding e st32_block [OF a(2) off x] by (simp only: if_False)
qed

lemma st32_field:
  assumes "unat a + l < 4294967296" and "off + 4 \<le> l" and "off' + 4 \<le> l"
  shows "ld32 (st32 (a + of_nat off) v m) (a + of_nat off) = v"
    and "off + 4 \<le> off' \<or> off' + 4 \<le> off \<Longrightarrow> ld32 (st32 (a + of_nat off) v m) (a + of_nat off') = ld32 m (a + of_nat off')"
proof -
  have e: "a + of_nat o' = (of_nat (unat a + o') :: u32)" for o' by simp
  show "ld32 (st32 (a + of_nat off) v m) (a + of_nat off) = v"
    unfolding e by (rule ld32_st32_same) (use assms in simp)
  show "off + 4 \<le> off' \<or> off' + 4 \<le> off \<Longrightarrow> ld32 (st32 (a + of_nat off) v m) (a + of_nat off') = ld32 m (a + of_nat off')"
    unfolding e by (rule ld32_st32_other) (use assms in auto)
qed

lemma owned_mset: "mset xs = mset ys \<Longrightarrow> owned A xs = owned A ys"
proof -
  assume e: "mset xs = mset ys"
  then have "mset (map fst xs) = mset (map fst ys)" by simp
  then have "distinct (map fst xs) = distinct (map fst ys)" by (rule mset_eq_imp_distinct_iff)
  then show ?thesis using mset_eq_setD [OF e] by (simp add: owned_def)
qed

lemma owned_cong_live: "owned A xs \<Longrightarrow> (\<And>a l t. (a, l) \<in> set xs \<Longrightarrow> live A (unat a) t \<Longrightarrow> live A' (unat a) t) \<Longrightarrow> owned A' xs"
  unfolding owned_def by blast

lemma owned_Cons:
  "owned A xs \<Longrightarrow> live A (unat a) t \<Longrightarrow> l \<le> t \<Longrightarrow> a \<notin> fst ` set xs \<Longrightarrow> owned A ((a, l) # xs)"
  by (auto simp: owned_def)

lemma owned_tl: "owned A (x # xs) \<Longrightarrow> owned A xs"
  by (simp add: owned_def)

lemma owned_Cons_ne:
  assumes "owned A ((e, l) # xs)" and "(a, k) \<in> set xs"
  shows "a \<noteq> e"
proof -
  have "a \<in> fst ` set xs" using imageI [OF assms(2), of fst] by simp
  moreover have "e \<notin> fst ` set xs" using assms(1) by (simp add: owned_def)
  ultimately show ?thesis by blast
qed

lemma untouched_store:
  assumes ok: "heap_ok h A" and o: "owned A xs" "(a, l) \<in> set xs" and off: "off + 4 \<le> l"
  shows "untouched h A (h\<lparr>ram := st32 (a + of_nat off) v (ram h)\<rparr>) A xs"
  unfolding untouched_def
proof (intro ballI impI)
  fix x assume x: "x \<in> client A" and "\<forall>(a, l) \<in> set xs. \<not> (unat a \<le> x \<and> x < unat a + l)"
  with o(2) have "\<not> (unat a \<le> x \<and> x < unat a + l)" by blast
  then have n: "\<not> (unat a + off \<le> x \<and> x < unat a + off + 4)" using off by auto
  have "st32 (a + of_nat off) v (ram h) (of_nat x) = ram h (of_nat x)"
    unfolding st32_block [OF owned_block(2) [OF ok o] off client_bound [OF ok x]] using n by (simp only: if_False)
  then show "x \<in> client A \<and> ram (h\<lparr>ram := st32 (a + of_nat off) v (ram h)\<rparr>) (of_nat x) = ram h (of_nat x)" using x by simp
qed

section \<open>Lemmas: buckets\<close>

lemma chain_at_cong:
  "(\<And>x b. x \<in> set es \<Longrightarrow> b \<in> set (entry_blocks x) \<Longrightarrow> same_on m m' b) \<Longrightarrow> chain_at m' a es = chain_at m a es"
proof (induction es arbitrary: a)
  case (Cons x es)
  obtain e p k v where x: "x = (e, p, k, v)" by (cases x)
  have s: "same_on m m' (e, 12)" "same_on m m' (p, length k + 1)" using Cons.prems [of x] by (simp_all add: x)
  have f: "ld32 m' e = ld32 m e" "ld32 m' (e + 4) = ld32 m (e + 4)" "ld32 m' (e + 8) = ld32 m (e + 8)"
    using same_on_ld32 [OF s(1), of 0] same_on_ld32 [OF s(1), of 4] same_on_ld32 [OF s(1), of 8] by simp_all
  have "chain_at m' a' es = chain_at m a' es" for a' by (rule Cons.IH, rule Cons.prems [OF list.set_intros(2)])
  then show ?case using f same_on_load [OF s(2)] by (simp add: x)
qed simp

lemma chain_at_append:
  "chain_at m a (xs @ (e, p, k, v) # ys) \<Longrightarrow>
   chain_at m e ((e, p, k, v) # ys)"
  by (induction xs arbitrary: a) auto

lemma find_entry_chain:
  assumes "chain_at m a es" and "\<forall>x \<in> set es. is_cstr (ekey x) \<and> length (ekey x) < 4294967287" and "is_cstr key"
  shows "(key \<notin> ekey ` set es \<longrightarrow> (\<exists>q. find_entry m key prev a = Some (q, 0))) \<and>
    (\<forall>xs e p v ys. es = xs @ (e, p, key, v) # ys \<and> key \<notin> ekey ` set xs \<longrightarrow>
       find_entry m key prev a = Some (if xs = [] then prev else fst (last xs), e))"
  using assms(1,2)
proof (induction es arbitrary: a prev)
  case Nil
  then show ?case by (subst find_entry.simps) simp
next
  case (Cons x es)
  obtain e p k v where x: "x = (e, p, k, v)" by (cases x)
  have c: "a = e" "e \<noteq> 0" "ld32 m e = p" "load_ram m p (length k + 1) = k @ [0]" "chain_at m (ld32 m (e + 8)) es"
    using Cons.prems(1) by (simp_all add: x)
  have k: "is_cstr k" "length k < 4294967296" using Cons.prems(2) by (auto simp: x)
  have s: "ram_string m (ld32 m e) = Some k" unfolding c(3) by (rule ram_string_placed [OF c(4) k])
  have step: "find_entry m key prev a = (if k = key then Some (prev, e) else find_entry m key e (ld32 m (e + 8)))"
    using c(1,2) s strcmp_decides_equality [OF k(1) assms(3)] by (subst find_entry.simps) simp
  note ih = Cons.IH [OF c(5), of e] 
  have pr: "\<forall>x \<in> set es. is_cstr (ekey x) \<and> length (ekey x) < 4294967287" using Cons.prems(2) by simp
  show ?case
  proof (intro conjI impI allI)
    assume "key \<notin> ekey ` set (x # es)"
    then show "\<exists>q. find_entry m key prev a = Some (q, 0)" using step ih [OF pr] by (auto simp: x)
  next
    fix xs e' p' v' ys assume h: "x # es = xs @ (e', p', key, v') # ys \<and> key \<notin> ekey ` set xs"
    show "find_entry m key prev a = Some (if xs = [] then prev else fst (last xs), e')"
    proof (cases xs)
      case Nil
      then show ?thesis using h step by (simp add: x)
    next
      case (Cons y xs')
      then have es: "es = xs' @ (e', p', key, v') # ys" "y = x" "k \<noteq> key" "key \<notin> ekey ` set xs'" using h by (auto simp: x)
      have "find_entry m key e (ld32 m (e + 8)) = Some (if xs' = [] then e else fst (last xs'), e')"
        using ih [OF pr] es(1,4) by blast
      then show ?thesis using step es(2,3) Cons by (auto simp: x)
    qed
  qed
qed

lemma chain_at_tail:
  "chain_at m a (xs @ es1) \<Longrightarrow> (\<And>x b. x \<in> set xs \<Longrightarrow> b \<in> set (entry_blocks x) \<Longrightarrow> same_on m m' b) \<Longrightarrow>
   (\<And>a'. chain_at m a' es1 \<Longrightarrow> chain_at m' a' es2) \<Longrightarrow> chain_at m' a (xs @ es2)"
proof (induction xs arbitrary: a)
  case (Cons x xs)
  obtain e p k v where x: "x = (e, p, k, v)" by (cases x)
  have s: "same_on m m' (e, 12)" "same_on m m' (p, length k + 1)" using Cons.prems(2) [of x] by (simp_all add: x)
  have f: "ld32 m' e = ld32 m e" "ld32 m' (e + 4) = ld32 m (e + 4)" "ld32 m' (e + 8) = ld32 m (e + 8)"
    using same_on_ld32 [OF s(1), of 0] same_on_ld32 [OF s(1), of 4] same_on_ld32 [OF s(1), of 8] by simp_all
  have "chain_at m (ld32 m (e + 8)) (xs @ es1)" using Cons.prems(1) by (simp add: x)
  have "chain_at m' (ld32 m (e + 8)) (xs @ es2)"
  proof (rule Cons.IH)
    show "chain_at m (ld32 m (e + 8)) (xs @ es1)" by fact
    show "same_on m m' b" if "y \<in> set xs" "b \<in> set (entry_blocks y)" for y b
      by (rule Cons.prems(2) [of y]) (use that in simp_all)
    show "chain_at m' a' es2" if "chain_at m a' es1" for a' using Cons.prems(3) that .
  qed
  then show ?case using Cons.prems(1) f same_on_load [OF s(2)] by (simp add: x)
qed simp

end
