(* ===== verification/HashTable_Spec.thy ===== *)
theory HashTable_Spec
  imports HashTable
begin

text \<open>
  That the hash table refines a map: creating, inserting and removing keep the table well formed, and change the map it
  stands for in the way they should.
\<close>

unbundle bit_operations_syntax

section \<open>Lemmas: the table\<close>

lemma table_ok_blocks:
  assumes "table_ok h A T B bss"
  defines "XS \<equiv> table_blocks T B (length bss) (concat bss)"
  shows "heap_ok h A" and "owned A XS" and "(T, 8) \<in> set XS" and "(B, 4 * length bss) \<in> set XS"
    and "i < length bss \<Longrightarrow> x \<in> set (bss ! i) \<Longrightarrow> b \<in> set (entry_blocks x) \<Longrightarrow> b \<in> set XS"
    and "T \<noteq> 0" and "T \<noteq> B"
proof -
  show h: "heap_ok h A" and o: "owned A XS" using assms by (simp_all add: table_ok_def)
  show t: "(T, 8) \<in> set XS" "(B, 4 * length bss) \<in> set XS" by (simp_all add: XS_def table_blocks_def)
  show "i < length bss \<Longrightarrow> x \<in> set (bss ! i) \<Longrightarrow> b \<in> set (entry_blocks x) \<Longrightarrow> b \<in> set XS"
    unfolding XS_def table_blocks_def by (auto intro!: bexI [of _ "bss ! i"])
  show "T \<noteq> 0" using owned_block(1) [OF h o t(1)] .
  show "T \<noteq> B" using o by (simp add: owned_def XS_def table_blocks_def)
qed

lemma bucket_slot: "ld32 m (T + 4) = B \<Longrightarrow> bucket m T (of_nat i) = B + of_nat (4 * i)"
  by (simp add: bucket_def)

text \<open>Nothing that the table owns has changed.\<close>

lemma table_ok_frame:
  assumes t: "table_ok h A T B bss" and h': "heap_ok h' A'" and o: "owned A' (table_blocks T B (length bss) (concat bss))"
    and s: "\<And>b. b \<in> set (table_blocks T B (length bss) (concat bss)) \<Longrightarrow> same_on (ram h) (ram h') b"
  shows "table_ok h' A' T B bss"
proof -
  let ?XS = "table_blocks T B (length bss) (concat bss)"
  note tb = table_ok_blocks [OF t]
  have sT: "same_on (ram h) (ram h') (T, 8)" and sB: "same_on (ram h) (ram h') (B, 4 * length bss)" using s tb(3,4) by blast+
  have f: "ld32 (ram h') T = ld32 (ram h) T" "ld32 (ram h') (T + 4) = ld32 (ram h) (T + 4)"
    using same_on_ld32 [OF sT, of 0] same_on_ld32 [OF sT, of 4] by simp_all
  have sl: "ld32 (ram h') (B + of_nat (4 * i)) = ld32 (ram h) (B + of_nat (4 * i))" if "i < length bss" for i
    using same_on_ld32 [OF sB, of "4 * i"] that by simp
  have "chain_at (ram h') a (bss ! i) = chain_at (ram h) a (bss ! i)" if "i < length bss" for i a
    by (rule chain_at_cong) (use s tb(5) that in blast)
  then show ?thesis using t h' o f sl unfolding table_ok_def by simp
qed

lemma table_map_update:
  assumes "i < length bss"
  shows "table_map (bss[i := es]) k = (if key_index (length bss) k = i then map_of (map (\<lambda>x. (ekey x, evalue x)) es) k else table_map bss k)"
  using assms by (simp add: table_map_def)

lemma key_index_less: "0 < n \<Longrightarrow> key_index n k < n"
  by (simp add: key_index_def)

lemma hash_index_eq:
  assumes "table_ok h A T B bss"
  shows "hash_index (ram h) T k = Some (of_nat (key_index (length bss) k))"
proof -
  have n: "0 < length bss" "4 * length bss < 4294967296" "ld32 (ram h) T = of_nat (length bss)" using assms by (simp_all add: table_ok_def)
  have u: "unat (of_nat (length bss) :: u32) = length bss" by (rule unat_of_nat_u32) (use n(2) in simp)
  have "of_nat (length bss) \<noteq> (0 :: u32)"
  proof
    assume "of_nat (length bss) = (0 :: u32)"
    from arg_cong [OF this, of unat] show False using u n(1) by simp
  qed
  moreover have "hash_function k mod of_nat (length bss) = (of_nat (unat (hash_function k) mod length bss) :: u32)"
  proof -
    have "unat (hash_function k mod of_nat (length bss)) = unat (hash_function k) mod length bss" by (simp add: unat_mod u)
    then show ?thesis by (metis of_nat_unat ucast_id)
  qed
  ultimately show ?thesis by (simp add: hash_index_def n(3) key_index_def)
qed


lemma table_blocks_split:
  assumes "i < length bss"
  shows "owned A (table_blocks T B n (concat (bss[i := xs @ (e, p, k, v) # ys]))) =
    owned A ((e, 12) # (p, length k + 1) # table_blocks T B n (concat (bss[i := xs @ ys])))"
  by (rule owned_mset) (simp add: table_blocks_def upd_conv_take_nth_drop assms)

lemma bucket_blocks:
  "i < length bss \<Longrightarrow> x \<in> set es \<Longrightarrow> b \<in> set (entry_blocks x) \<Longrightarrow> b \<in> set (table_blocks T B n (concat (bss[i := es])))"
  by (auto simp: table_blocks_def upd_conv_take_nth_drop)

lemma other_bucket_blocks:
  "j < length bss \<Longrightarrow> j \<noteq> i \<Longrightarrow> x \<in> set (bss ! j) \<Longrightarrow> b \<in> set (entry_blocks x) \<Longrightarrow>
   b \<in> set (table_blocks T B n (concat (bss[i := es])))"
proof -
  assume a: "j < length bss" "j \<noteq> i" "x \<in> set (bss ! j)" "b \<in> set (entry_blocks x)"
  then have "bss ! j = bss[i := es] ! j" by simp
  then have "bss ! j \<in> set (bss[i := es])" using a(1) by (metis length_list_update nth_mem)
  then show ?thesis using a(3,4) unfolding table_blocks_def by auto
qed

text \<open>A bucket has another list of entries, and the rest is as it was.\<close>

lemma table_ok_set:
  assumes t: "table_ok h A T B bss" and i: "i < length bss" and h': "heap_ok h' A'"
    and o: "owned A' (table_blocks T B (length bss) (concat (bss[i := es])))"
    and f: "ld32 (ram h') T = ld32 (ram h) T" "ld32 (ram h') (T + 4) = ld32 (ram h) (T + 4)"
    and sl: "\<And>j. j < length bss \<Longrightarrow> j \<noteq> i \<Longrightarrow> ld32 (ram h') (B + of_nat (4 * j)) = ld32 (ram h) (B + of_nat (4 * j))"
    and c: "\<And>j x b. j < length bss \<Longrightarrow> j \<noteq> i \<Longrightarrow> x \<in> set (bss ! j) \<Longrightarrow> b \<in> set (entry_blocks x) \<Longrightarrow> same_on (ram h) (ram h') b"
    and e: "chain_at (ram h') (ld32 (ram h') (B + of_nat (4 * i))) es" "distinct (map ekey es)"
      "\<And>x. x \<in> set es \<Longrightarrow> is_cstr (ekey x) \<and> length (ekey x) < 4294967287 \<and> key_index (length bss) (ekey x) = i"
  shows "table_ok h' A' T B (bss[i := es])"
proof -
  have "chain_at (ram h') (ld32 (ram h') (B + of_nat (4 * j))) (bss ! j)" if j: "j < length bss" "j \<noteq> i" for j
  proof -
    have "chain_at (ram h') a (bss ! j) = chain_at (ram h) a (bss ! j)" for a by (rule chain_at_cong) (rule c [OF j])
    then show ?thesis using t j sl unfolding table_ok_def by simp
  qed
  then show ?thesis using t i h' o f e unfolding table_ok_def by (auto simp: nth_list_update)
qed

lemma table_ok_live:
  assumes t: "table_ok h A T B bss" and h': "heap_ok h' A'"
    and l: "\<And>a l t. (a, l) \<in> set (table_blocks T B (length bss) (concat bss)) \<Longrightarrow> live A (unat a) t \<Longrightarrow> live A' (unat a) t"
    and r: "\<And>x. x \<in> client A \<Longrightarrow> x \<in> client A' \<Longrightarrow> ram h' (of_nat x) = ram h (of_nat x)"
  shows "table_ok h' A' T B bss"
proof (rule table_ok_frame [OF t h'])
  let ?XS = "table_blocks T B (length bss) (concat bss)"
  note tb = table_ok_blocks [OF t]
  show o: "owned A' ?XS" by (rule owned_cong_live [OF tb(2) l])
  fix b assume bX: "b \<in> set ?XS"
  obtain a l where b: "b = (a, l)" by (cases b)
  then have b: "b = (a, l)" "(a, l) \<in> set ?XS" using bX by simp_all
  show "same_on (ram h) (ram h') b"
    unfolding same_on_def
  proof (intro allI impI)
    fix j assume "j < snd b"
    then have "unat a + j \<in> {unat a..<unat a + l}" by (simp add: b(1))
    then have "unat a + j \<in> client A" "unat a + j \<in> client A'" using owned_block(3) [OF tb(1,2) b(2)] owned_block(3) [OF h' o b(2)] by blast+
    from r [OF this] show "ram h' (fst b + of_nat j) = ram h (fst b + of_nat j)" by (simp add: b(1))
  qed
qed

lemma table_ok_store_fresh:
  assumes t: "table_ok h A T B bss" and o: "owned A ((e, 12) # ys @ table_blocks T B (length bss) (concat bss))" and off: "off + 4 \<le> 12"
  shows "table_ok (h\<lparr>ram := st32 (e + of_nat off) v (ram h)\<rparr>) A T B bss"
proof (rule table_ok_frame [OF t])
  note tb = table_ok_blocks [OF t]
  show "heap_ok (h\<lparr>ram := st32 (e + of_nat off) v (ram h)\<rparr>) A" by (rule st32_heap_ok [OF tb(1) o _ off]) simp
  show "owned A (table_blocks T B (length bss) (concat bss))" by (rule tb(2))
  fix b assume b: "b \<in> set (table_blocks T B (length bss) (concat bss))"
  then have "fst b \<noteq> e" using o by (auto simp: owned_def)
  then have "same_on (ram h) (st32 (e + of_nat off) v (ram h)) (fst b, snd b)"
    by (intro st32_other [OF tb(1) o _ _ _ off]) (use b in auto)
  then show "same_on (ram h) (ram (h\<lparr>ram := st32 (e + of_nat off) v (ram h)\<rparr>)) b" by simp
qed

lemma chain_store:
  assumes ok: "heap_ok h A" and o: "owned A ((e, 12) # (p, length k + 1) # rest)"
    and xs: "\<And>x b. x \<in> set xs \<Longrightarrow> b \<in> set (entry_blocks x) \<Longrightarrow> b \<in> set rest" and zs: "\<And>x b. x \<in> set zs \<Longrightarrow> b \<in> set (entry_blocks x) \<Longrightarrow> b \<in> set rest"
    and c: "chain_at m a (xs @ (e, p, k, v) # ys)"
  shows "ys = zs \<Longrightarrow> chain_at (st32 (e + 4) w m) a (xs @ (e, p, k, w) # zs)"
    and "chain_at m w zs \<Longrightarrow> chain_at (st32 (e + 8) w m) a (xs @ (e, p, k, v) # zs)"
proof -
  have e: "unat e + 12 < 4294967296" by (rule owned_block(2) [OF ok o]) simp
  have s: "same_on m (st32 (e + of_nat off) w m) b" if "b \<in> set ((p, length k + 1) # rest)" "off + 4 \<le> 12" for b off
  proof -
    have "fst b \<noteq> e" using o that(1) by (auto simp: owned_def)
    then have "same_on m (st32 (e + of_nat off) w m) (fst b, snd b)"
      by (intro st32_other [OF ok o _ _ _ that(2)]) (use that(1) in auto)
    then show ?thesis by simp
  qed
  have l: "load_ram (st32 (e + of_nat off) w m) p (length k + 1) = load_ram m p (length k + 1)" if "off + 4 \<le> 12" for off
    by (rule same_on_load, rule s [OF _ that]) simp
  have tail: "chain_at m e ((e, p, k, v) # ys)" by (rule chain_at_append [OF c])
  have z: "chain_at (st32 (e + of_nat off) w m) a' zs = chain_at m a' zs" if "off + 4 \<le> 12" for off a'
    by (rule chain_at_cong, rule s [OF _ that]) (use zs in auto)
  note f = st32_field [OF e]
  show "chain_at (st32 (e + 4) w m) a (xs @ (e, p, k, w) # zs)" if "ys = zs"
  proof (rule chain_at_tail [OF c])
    show "same_on m (st32 (e + 4) w m) b" if "x \<in> set xs" "b \<in> set (entry_blocks x)" for x b
      using s [of b 4] xs [OF that] by simp
    show "chain_at (st32 (e + 4) w m) a' ((e, p, k, w) # zs)" if "chain_at m a' ((e, p, k, v) # ys)" for a'
      using that \<open>ys = zs\<close> l [of 4] z [of 4] f(1) [of 4 4 w m] f(2) [of 4 0 w m] f(2) [of 4 8 w m] by simp
  qed
  show "chain_at (st32 (e + 8) w m) a (xs @ (e, p, k, v) # zs)" if "chain_at m w zs"
  proof (rule chain_at_tail [OF c])
    show "same_on m (st32 (e + 8) w m) b" if "x \<in> set xs" "b \<in> set (entry_blocks x)" for x b
      using s [of b 8] xs [OF that] by simp
    show "chain_at (st32 (e + 8) w m) a' ((e, p, k, v) # zs)" if "chain_at m a' ((e, p, k, v) # ys)" for a'
      using that \<open>chain_at m w zs\<close> l [of 8] z [of 8] f(1) [of 8 8 w m] f(2) [of 8 0 w m] f(2) [of 8 4 w m] by simp
  qed
qed

lemma map_of_entry:
  "k \<notin> ekey ` set xs \<Longrightarrow>
   map_of (map (\<lambda>x. (ekey x, evalue x)) (xs @ (e, p, k, v) # ys)) k' = (if k' = k then Some v else map_of (map (\<lambda>x. (ekey x, evalue x)) (xs @ ys)) k')"
  by (induction xs) auto

lemma map_of_absent: "map_of (map (\<lambda>x. (ekey x, evalue x)) xs) k = None \<longleftrightarrow> k \<notin> ekey ` set xs"
  by (simp add: map_of_eq_None_iff image_image)

lemma table_map_put:
  assumes "i = key_index (length bss) k" "i < length bss" and "k \<notin> ekey ` set xs" and "bss ! i = xs @ ys \<or> bss ! i = xs @ (e', p', k, v') # ys"
  shows "table_map (bss[i := xs @ (e, p, k, v) # ys]) = (table_map bss)(k \<mapsto> v)"
proof
  fix k'
  show "table_map (bss[i := xs @ (e, p, k, v) # ys]) k' = ((table_map bss)(k \<mapsto> v)) k'"
    unfolding table_map_update [OF assms(2)] map_of_entry [OF assms(3)]
    using assms(1,4) map_of_entry [OF assms(3), of e' p' v' ys k'] by (auto simp: table_map_def)
qed

lemma table_map_drop:
  assumes "i = key_index (length bss) k" "i < length bss" and "k \<notin> ekey ` set xs" "k \<notin> ekey ` set ys" and "bss ! i = xs @ (e, p, k, v) # ys"
  shows "table_map (bss[i := xs @ ys]) = (table_map bss)(k := None)"
proof
  fix k'
  have "k \<notin> ekey ` set (xs @ ys)" using assms(3,4) by auto
  then have "map_of (map (\<lambda>x. (ekey x, evalue x)) (xs @ ys)) k = None" by (rule map_of_absent [THEN iffD2])
  then show "table_map (bss[i := xs @ ys]) k' = ((table_map bss)(k := None)) k'"
    unfolding table_map_update [OF assms(2)]
    using assms(1,5) map_of_entry [OF assms(3), of e p v ys k'] by (auto simp: table_map_def)
qed

lemma table_find:
  assumes t: "table_ok h A T B bss" and k: "is_cstr k"
  defines "i \<equiv> key_index (length bss) k"
  shows "i < length bss" and "bucket (ram h) T (of_nat i) = B + of_nat (4 * i)"
    and "table_map bss k = None \<Longrightarrow> k \<notin> ekey ` set (bss ! i)"
    and "table_map bss k = None \<Longrightarrow> \<exists>q. find_entry (ram h) k 0 (ld32 (ram h) (B + of_nat (4 * i))) = Some (q, 0)"
    and "table_map bss k = Some v \<Longrightarrow> \<exists>xs e p ys. bss ! i = xs @ (e, p, k, v) # ys \<and> k \<notin> ekey ` set xs \<and> k \<notin> ekey ` set ys \<and> e \<noteq> 0 \<and>
      find_entry (ram h) k 0 (ld32 (ram h) (B + of_nat (4 * i))) = Some (if xs = [] then 0 else fst (last xs), e)"
proof -
  show i: "i < length bss" using t by (simp add: i_def key_index_less table_ok_def)
  show "bucket (ram h) T (of_nat i) = B + of_nat (4 * i)" by (rule bucket_slot) (use t in \<open>simp add: table_ok_def\<close>)
  have c: "chain_at (ram h) (ld32 (ram h) (B + of_nat (4 * i))) (bss ! i)" "distinct (map ekey (bss ! i))"
    "\<forall>x \<in> set (bss ! i). is_cstr (ekey x) \<and> length (ekey x) < 4294967287" using t i unfolding table_ok_def by blast+
  note fe = find_entry_chain [OF c(1,3) k, of 0]
  show n: "table_map bss k = None \<Longrightarrow> k \<notin> ekey ` set (bss ! i)"
    unfolding table_map_def i_def by (rule map_of_absent [THEN iffD1])
  show "table_map bss k = None \<Longrightarrow> \<exists>q. find_entry (ram h) k 0 (ld32 (ram h) (B + of_nat (4 * i))) = Some (q, 0)"
    using fe n by blast
  assume "table_map bss k = Some v"
  then have "(k, v) \<in> set (map (\<lambda>x. (ekey x, evalue x)) (bss ! i))" unfolding table_map_def i_def by (rule map_of_SomeD)
  then obtain x where x: "x \<in> set (bss ! i)" "ekey x = k" "evalue x = v" by auto
  obtain e p where xe: "x = (e, p, k, v)" using x(2,3) by (cases x) auto
  obtain xs ys where b: "bss ! i = xs @ (e, p, k, v) # ys" using split_list [OF x(1)] xe by blast
  have d: "k \<notin> ekey ` set xs" "k \<notin> ekey ` set ys" using c(2) by (auto simp: b)
  have "e \<noteq> 0" using chain_at_append c(1) unfolding b by fastforce
  then show "\<exists>xs e p ys. bss ! i = xs @ (e, p, k, v) # ys \<and> k \<notin> ekey ` set xs \<and> k \<notin> ekey ` set ys \<and> e \<noteq> 0 \<and>
      find_entry (ram h) k 0 (ld32 (ram h) (B + of_nat (4 * i))) = Some (if xs = [] then 0 else fst (last xs), e)"
    using fe b d by blast
qed

text \<open>A store into an entry, seen by the rest of the table.\<close>

lemma table_ok_store_entry:
  assumes t: "table_ok h A T B bss" and i: "i < length bss" and b: "bss ! i = xs @ (e, p, k, v) # ys" and off: "off + 4 \<le> 12"
    and o: "owned A (table_blocks T B (length bss) (concat (bss[i := es])))"
    and e: "chain_at (st32 (e + of_nat off) w (ram h)) (ld32 (ram h) (B + of_nat (4 * i))) es" "distinct (map ekey es)" "ekey ` set es \<subseteq> ekey ` set (bss ! i)"
  shows "table_ok (h\<lparr>ram := st32 (e + of_nat off) w (ram h)\<rparr>) A T B (bss[i := es])"
proof -
  let ?XS = "table_blocks T B (length bss) (concat bss)" and ?m = "st32 (e + of_nat off) w (ram h)"
  let ?YS = "(e, 12) # (p, length k + 1) # table_blocks T B (length bss) (concat (bss[i := xs @ ys]))"
  note tb = table_ok_blocks [OF t]
  have "bss = bss[i := xs @ (e, p, k, v) # ys]" using i by (simp flip: b)
  then have o2: "owned A ?YS" using tb(2) table_blocks_split [OF i, of A T B "length bss" xs e p k v ys] by simp
  have s: "same_on (ram h) ?m c" if "c \<in> set ?YS" "fst c \<noteq> e" for c
  proof -
    have "same_on (ram h) ?m (fst c, snd c)" by (rule st32_other [OF tb(1) o2 _ _ _ off]) (use that in auto)
    then show ?thesis by simp
  qed
  have ne: "fst c \<noteq> e" if "c \<in> set (tl ?YS)" for c using o2 that by (auto simp: owned_def)
  have r: "same_on (ram h) ?m c" if "c \<in> set (table_blocks T B (length bss) (concat (bss[i := xs @ ys])))" for c
    by (rule s) (use that ne in auto)
  have sT: "same_on (ram h) ?m (T, 8)" and sB: "same_on (ram h) ?m (B, 4 * length bss)"
    by (rule r, simp add: table_blocks_def)+
  have sl: "ld32 ?m (B + of_nat (4 * j)) = ld32 (ram h) (B + of_nat (4 * j))" if "j < length bss" for j
    using same_on_ld32 [OF sB, of "4 * j"] that by simp
  show ?thesis
  proof (rule table_ok_set [OF t i])
    show "heap_ok (h\<lparr>ram := ?m\<rparr>) A" by (rule st32_heap_ok [OF tb(1) o2 _ off]) simp
    show "owned A (table_blocks T B (length bss) (concat (bss[i := es])))" by (rule o)
    show "ld32 (ram (h\<lparr>ram := ?m\<rparr>)) T = ld32 (ram h) T" "ld32 (ram (h\<lparr>ram := ?m\<rparr>)) (T + 4) = ld32 (ram h) (T + 4)"
      using same_on_ld32 [OF sT, of 0] same_on_ld32 [OF sT, of 4] by simp_all
    show "ld32 (ram (h\<lparr>ram := ?m\<rparr>)) (B + of_nat (4 * j)) = ld32 (ram h) (B + of_nat (4 * j))" if "j < length bss" for j
      using sl [OF that] by simp
    show "same_on (ram h) (ram (h\<lparr>ram := ?m\<rparr>)) c" if "j < length bss" "j \<noteq> i" "x \<in> set (bss ! j)" "c \<in> set (entry_blocks x)" for j x c
      using r [OF other_bucket_blocks [OF that]] by simp
    show "chain_at (ram (h\<lparr>ram := ?m\<rparr>)) (ld32 (ram (h\<lparr>ram := ?m\<rparr>)) (B + of_nat (4 * i))) es" using e(1) sl [OF i] by simp
    show "distinct (map ekey es)" by (rule e(2))
    fix x assume "x \<in> set es"
    then obtain y where "y \<in> set (bss ! i)" "ekey x = ekey y" using e(3) by blast
    then show "is_cstr (ekey x) \<and> length (ekey x) < 4294967287 \<and> key_index (length bss) (ekey x) = i" using t i unfolding table_ok_def by metis
  qed
qed

text \<open>A store into the array of buckets.\<close>

lemma table_ok_store_bucket:
  assumes t: "table_ok h A T B bss" and i: "i < length bss" 
    and o: "owned A (table_blocks T B (length bss) (concat (bss[i := es])))"
    and e: "chain_at (ram h) a es" "distinct (map ekey es)"
      "\<And>x. x \<in> set es \<Longrightarrow> is_cstr (ekey x) \<and> length (ekey x) < 4294967287 \<and> key_index (length bss) (ekey x) = i"
  shows "table_ok (h\<lparr>ram := st32 (B + of_nat (4 * i)) a (ram h)\<rparr>) A T B (bss[i := es])"
proof -
  let ?XS = "table_blocks T B (length bss) (concat (bss[i := es]))" and ?m = "st32 (B + of_nat (4 * i)) a (ram h)"
  note tb = table_ok_blocks [OF t]
  have off: "4 * i + 4 \<le> 4 * length bss" using i by simp
  have B: "(B, 4 * length bss) \<in> set ?XS" by (simp add: table_blocks_def)
  note bb = owned_block [OF tb(1) o B]
  have r: "same_on (ram h) ?m c" if "c \<in> set ?XS" "fst c \<noteq> B" for c
  proof -
    have "same_on (ram h) ?m (fst c, snd c)" by (rule st32_other [OF tb(1) o B _ _ off]) (use that in auto)
    then show ?thesis by simp
  qed
  have ne: "fst c \<noteq> B" if "c \<in> set ((T, 8) # concat (map entry_blocks (concat (bss[i := es]))))" for c
    using o that by (auto simp: owned_def table_blocks_def)
  have sT: "same_on (ram h) ?m (T, 8)" by (rule r) (use ne [of "(T, 8)"] in \<open>simp_all add: table_blocks_def\<close>)
  have rx: "same_on (ram h) ?m c" if "j < length bss" "x \<in> set (bss[i := es] ! j)" "c \<in> set (entry_blocks x)" for j x c
  proof (rule r)
    have "x \<in> set (concat (bss[i := es]))" using that(1,2) by (metis (no_types) length_list_update nth_mem set_concat UN_I)
    then have "c \<in> set (concat (map entry_blocks (concat (bss[i := es]))))" using that(3) by auto
    then show "c \<in> set ?XS" "fst c \<noteq> B" using ne [of c] by (simp_all add: table_blocks_def)
  qed
  show ?thesis
  proof (rule table_ok_set [OF t i])
    show "heap_ok (h\<lparr>ram := ?m\<rparr>) A" by (rule st32_heap_ok [OF tb(1) o B off])
    show "owned A ?XS" by (rule o)
    show "ld32 (ram (h\<lparr>ram := ?m\<rparr>)) T = ld32 (ram h) T" "ld32 (ram (h\<lparr>ram := ?m\<rparr>)) (T + 4) = ld32 (ram h) (T + 4)"
      using same_on_ld32 [OF sT, of 0] same_on_ld32 [OF sT, of 4] by simp_all
    show "ld32 (ram (h\<lparr>ram := ?m\<rparr>)) (B + of_nat (4 * j)) = ld32 (ram h) (B + of_nat (4 * j))" if "j < length bss" "j \<noteq> i" for j
    proof -
      have "4 * j + 4 \<le> 4 * length bss" "4 * i + 4 \<le> 4 * j \<or> 4 * j + 4 \<le> 4 * i" using that by auto
      from st32_field(2) [OF bb(2) off this] show ?thesis by simp
    qed
    show "same_on (ram h) (ram (h\<lparr>ram := ?m\<rparr>)) c" if "j < length bss" "j \<noteq> i" "x \<in> set (bss ! j)" "c \<in> set (entry_blocks x)" for j x c
      using rx [of j x c] that by simp
    have "ld32 ?m (B + of_nat (4 * i)) = a" by (rule st32_field(1) [OF bb(2) off off])
    moreover have "chain_at ?m a es = chain_at (ram h) a es" by (rule chain_at_cong, rule rx [OF i]) (use i in simp_all)
    ultimately show "chain_at (ram (h\<lparr>ram := ?m\<rparr>)) (ld32 (ram (h\<lparr>ram := ?m\<rparr>)) (B + of_nat (4 * i))) es" using e(1) by simp
  qed (use e(2,3) in auto)
qed

section \<open>Lemmas: inserting\<close>

text \<open>The key \<open>k\<close> has got the value \<open>v\<close>, and nothing outside the table has changed.\<close>

definition table_put :: "kheap \<Rightarrow> nat \<times> blocks \<Rightarrow> u32 \<Rightarrow> u32 \<Rightarrow> hash_entry list list \<Rightarrow> u8 list \<Rightarrow> u32 \<Rightarrow> kheap \<Rightarrow> nat \<times> blocks \<Rightarrow> hash_entry list list \<Rightarrow> bool" where
  "table_put h A T B bss k v h' A' bss' \<longleftrightarrow>
     table_ok h' A' T B bss' \<and> table_map bss' = (table_map bss)(k \<mapsto> v) \<and> untouched h A h' A' (table_blocks T B (length bss) (concat bss))"

lemma strdup_room:
  assumes ok: "heap_ok h A" and fits: "fits A (of_nat (length str + 1))" and str: "is_cstr str" "length str < 4294967287"
    and src: "load_ram (ram h) s (length str + 1) = str @ [0]" "{unat s..<unat s + length str + 1} \<subseteq> client A"
  shows "\<exists>h' p A' t. strdup s h = Some (h', p) \<and> p \<noteq> 0 \<and> heap_ok h' A' \<and> length str + 1 \<le> t \<and> live A' (unat p) t \<and>
    {unat p..<unat p + t} \<inter> client A = {} \<and> client A' = client A \<union> {unat p..<unat p + t} \<and>
    (\<forall>x \<in> client A. ram h' (of_nat x) = ram h (of_nat x)) \<and> (\<forall>q u. live A q u \<longrightarrow> live A' q u) \<and>
    (\<forall>u. \<not> live A (unat p) u) \<and> load_ram (ram h') p (length str + 1) = str @ [0]"
proof -
  let ?n = "length str + 1"
  have un: "unat (of_nat ?n :: u32) = ?n" by (rule unat_of_nat_u32) (use str(2) in simp)
  have un8: "unat (of_nat ?n :: u32) \<le> 4294967288" unfolding un using str(2) by simp
  obtain h1 p A' t where k: "kmalloc (of_nat ?n) h = Some (h1, p)" "p \<noteq> 0" "heap_ok h1 A'" "unat (of_nat ?n :: u32) \<le> t" "live A' (unat p) t"
    "{unat p..<unat p + t} \<inter> client A = {}" "client A' = client A \<union> {unat p..<unat p + t}"
    "\<forall>x \<in> client A. ram h1 (of_nat x) = ram h (of_nat x)" "\<forall>q u. live A q u \<longrightarrow> live A' q u" "\<forall>u. \<not> live A (unat p) u"
    using kmalloc_room [OF ok fits un8] by (elim exE conjE) (rule that)
  have t: "?n \<le> t" using k(4) unfolding un .
  have lc: "unat p + t < 4294967296" using live_client [OF k(3,5)] by blast
  have m0: "ram h (s + of_nat i) = (str @ [0]) ! i" if "i < ?n" for i
  proof -
    have "load_ram (ram h) s ?n ! i = ram h (s + of_nat i)" using that by (simp add: load_ram_def del: upt_Suc)
    then show ?thesis using src(1) by simp
  qed
  have "ram h (s + of_nat i) \<noteq> 0" if "i < length str" for i
    using m0 [of i] that str(1) by (simp add: nth_append is_cstr_def) (metis nth_mem)
  moreover have "ram h (s + of_nat (length str)) = 0" using m0 [of "length str"] by simp
  ultimately have len: "strlen_ram (ram h) s 0 = Some (of_nat (length str))" using strlen_ram_eq [of "length str" "ram h" s 0] by simp
  have e: "of_nat (length str) + 1 = (of_nat ?n :: u32)" by simp
  define m where "m = copy_ram ?n p s (ram h1)"
  have "unat s + length str \<in> client A" using src(2) by auto
  then have sb: "unat s + ?n \<le> 4294967296" using client_bound [OF ok] by force
  have dj: "{unat p..<unat p + ?n} \<inter> {unat s..<unat s + ?n} = {}"
  proof -
    have "{unat s..<unat s + ?n} \<subseteq> client A" using src(2) by (simp add: add.assoc)
    moreover have "{unat p..<unat p + ?n} \<subseteq> {unat p..<unat p + t}" using t by auto
    ultimately show ?thesis using k(6) by blast
  qed
  have pb: "unat p + ?n < 4294967296" using lc t by simp
  have mn: "m (of_nat x) = (if unat p \<le> x \<and> x < unat p + ?n then ram h1 (of_nat (unat s + (x - unat p))) else ram h1 (of_nat x))"
    if "x < 4294967296" for x
    using copy_ram_nat [OF pb sb dj that, of "ram h1"] unfolding m_def by simp
  have sd: "strdup s h = Some (h1\<lparr>ram := m\<rparr>, p)"
    unfolding strdup_def len bind.simps Let_def e k(1) prod.case un m_def using k(2) by simp
  have out: "\<not> (unat p \<le> x \<and> x < unat p + ?n)" if "x \<notin> {unat p..<unat p + t}" for x using that t by auto
  have "heap_ok (h1\<lparr>ram := m\<rparr>) A'"
  proof (rule heap_ok_ram [OF k(3)])
    fix x :: nat assume x: "x < 4294967296" "x \<notin> client A'"
    then have "x \<notin> {unat p..<unat p + t}" using k(7) by blast
    from out [OF this] show "m (of_nat x) = ram h1 (of_nat x)" using mn [OF x(1)] by (simp only: if_False)
  qed
  moreover have "\<forall>x \<in> client A. m (of_nat x) = ram h (of_nat x)"
  proof
    fix x assume x: "x \<in> client A"
    then have "x \<notin> {unat p..<unat p + t}" using k(6) by blast
    from out [OF this] show "m (of_nat x) = ram h (of_nat x)" using mn [OF client_bound [OF ok x]] k(8) x by (simp only: if_False)
  qed
  moreover have "load_ram m p ?n = str @ [0]"
  proof -
    have "load_ram m (of_nat (unat p)) ?n = str @ [0]"
    proof (rule load_ram_eqI)
      fix i assume i: "i < ?n"
      have a: "unat p + i < 4294967296" "unat p \<le> unat p + i \<and> unat p + i < unat p + ?n" using i pb by simp_all
      have "unat s + i \<in> client A" using src(2) i by auto
      then have "ram h1 (of_nat (unat s + i)) = ram h (of_nat (unat s + i))" using k(8) by blast
      then show "m (of_nat (unat p + i)) = (str @ [0]) ! i"
        unfolding mn [OF a(1)] using a(2) m0 [OF i] by simp
    qed simp
    then show ?thesis by simp
  qed
  ultimately show ?thesis using sd k(2,5-7,9,10) t
    by (intro exI [of _ "h1\<lparr>ram := m\<rparr>"] exI [of _ p] exI [of _ A'] exI [of _ t]) simp
qed

lemma table_insert_present:
  assumes t: "table_ok h A T B bss" and k: "is_cstr k" "load_ram (ram h) key (length k + 1) = k @ [0]" "length k < 4294967200" "key \<noteq> 0"
    and v: "table_map bss k = Some v"
  shows "\<exists>xs e p ys. bss ! key_index (length bss) k = xs @ (e, p, k, v) # ys \<and> hash_table_insert T key w h = Some (h\<lparr>ram := st32 (e + 4) w (ram h)\<rparr>) \<and>
    table_put h A T B bss k w (h\<lparr>ram := st32 (e + 4) w (ram h)\<rparr>) A (bss[key_index (length bss) k := xs @ (e, p, k, w) # ys])"
proof -
  let ?i = "key_index (length bss) k"
  note tb = table_ok_blocks [OF t] and tf = table_find [OF t k(1)]
  obtain xs e p ys where b: "bss ! ?i = xs @ (e, p, k, v) # ys" "k \<notin> ekey ` set xs" "k \<notin> ekey ` set ys" "e \<noteq> 0"
    "find_entry (ram h) k 0 (ld32 (ram h) (B + of_nat (4 * ?i))) = Some (if xs = [] then 0 else fst (last xs), e)"
    using tf(5) [OF v] by blast
  have s: "ram_string (ram h) key = Some k" by (rule ram_string_placed [OF k(2,1)]) (use k(3) in simp)
  let ?h = "h\<lparr>ram := st32 (e + 4) w (ram h)\<rparr>" and ?es = "xs @ (e, p, k, w) # ys"
  have run: "hash_table_insert T key w h = Some ?h"
    using k(4) tb(6) b(4) by (simp add: hash_table_insert_def s hash_index_eq [OF t] tf(2) b(5) del: of_nat_mult)
  have e: "bss = bss[?i := xs @ (e, p, k, v) # ys]" using tf(1) by (simp flip: b(1))
  have o: "owned A (table_blocks T B (length bss) (concat (bss[?i := ?es])))"
    using tb(2) table_blocks_split [OF tf(1), of A T B "length bss" xs e p k v ys] table_blocks_split [OF tf(1), of A T B "length bss" xs e p k w ys] e by simp
  have o2: "owned A ((e, 12) # (p, length k + 1) # table_blocks T B (length bss) (concat (bss[?i := xs @ ys])))"
    using o table_blocks_split [OF tf(1), of A T B "length bss" xs e p k w ys] by simp
  have c: "chain_at (ram h) (ld32 (ram h) (B + of_nat (4 * ?i))) (xs @ (e, p, k, v) # ys)" "distinct (map ekey (xs @ (e, p, k, v) # ys))"
    using t tf(1) unfolding table_ok_def b(1) [symmetric] by blast+
  have "chain_at (st32 (e + 4) w (ram h)) (ld32 (ram h) (B + of_nat (4 * ?i))) ?es"
    by (rule chain_store(1) [OF tb(1) o2 bucket_blocks [OF tf(1)] bucket_blocks [OF tf(1)] c(1) refl]) auto
  then have "table_ok (h\<lparr>ram := st32 (e + of_nat 4) w (ram h)\<rparr>) A T B (bss[?i := ?es])"
    by (intro table_ok_store_entry [OF t tf(1) b(1) _ o]) (use c(2) b(1) in simp_all)
  moreover have "untouched h A (h\<lparr>ram := st32 (e + of_nat 4) w (ram h)\<rparr>) A (table_blocks T B (length bss) (concat bss))"
  proof (rule untouched_store [OF tb(1,2)])
    show "(e, 12) \<in> set (table_blocks T B (length bss) (concat bss))" by (rule tb(5) [OF tf(1), of "(e, p, k, v)"]) (simp_all add: b(1))
  qed simp
  moreover have "table_map (bss[?i := ?es]) = (table_map bss)(k \<mapsto> w)" by (rule table_map_put [OF refl tf(1) b(2)]) (use b(1) in blast)
  ultimately have "table_put h A T B bss k w ?h A (bss[?i := ?es])" by (simp add: table_put_def)
  then show ?thesis using run b(1) by (intro exI [of _ xs] exI [of _ e] exI [of _ p] exI [of _ ys]) simp
qed

text \<open>The blocks of a new entry, and the entry in them: \<open>bs1\<close> are the blocks of the heap with the one of the entry.\<close>

lemma entry_block:
  assumes "heap_ok h A" and "a_alloc 16 (fst A) (snd A) = Some (q, bs1)"
  shows "\<exists>h1 e s1. kmalloc 12 h = Some (h1, e) \<and> e \<noteq> 0 \<and> heap_ok h1 (fst A, bs1) \<and> unat (12 :: u32) \<le> s1 \<and> live (fst A, bs1) (unat e) s1 \<and>
    {unat e..<unat e + s1} \<inter> client A = {} \<and> client (fst A, bs1) = client A \<union> {unat e..<unat e + s1} \<and>
    (\<forall>x \<in> client A. ram h1 (of_nat x) = ram h (of_nat x)) \<and> (\<forall>q t. live A q t \<longrightarrow> live (fst A, bs1) q t) \<and> (\<forall>t. \<not> live A (unat e) t)"
proof (rule kmalloc_block [OF assms(1)])
  have "unat (ALIGN 12) = 16" by (subst ALIGN_unat) simp_all
  then show "a_alloc (unat (ALIGN 12)) (fst A) (snd A) = Some (q, bs1)" using assms(2) by simp
qed simp

lemma strdup_full:
  assumes "heap_ok h A" and "\<not> fits A (of_nat (length k + 1))" and "is_cstr k" and "load_ram (ram h) key (length k + 1) = k @ [0]"
  shows "strdup key h = Some (h, 0)"
proof -
  have m0: "ram h (key + of_nat i) = (k @ [0]) ! i" if "i < length k + 1" for i
  proof -
    have "load_ram (ram h) key (length k + 1) ! i = ram h (key + of_nat i)" using that by (simp add: load_ram_def del: upt_Suc)
    then show ?thesis using assms(4) by simp
  qed
  have "ram h (key + of_nat i) \<noteq> 0" if "i < length k" for i
    using m0 [of i] that assms(3) by (simp add: nth_append is_cstr_def) (metis nth_mem)
  moreover have "ram h (key + of_nat (length k)) = 0" using m0 [of "length k"] by simp
  ultimately have len: "strlen_ram (ram h) key 0 = Some (of_nat (length k))" using strlen_ram_eq [of "length k" "ram h" key 0] by simp
  have e: "of_nat (length k) + 1 = (of_nat (length k + 1) :: u32)" by simp
  show ?thesis unfolding strdup_def len bind.simps Let_def e kmalloc_full [OF assms(1,2)] by simp
qed

lemma entry_alloc:
  assumes t: "table_ok h A T B bss" and k: "is_cstr k" "load_ram (ram h) key (length k + 1) = k @ [0]" "length k < 4294967200"
    and kc: "{unat key..<unat key + length k + 1} \<subseteq> client A"
    and al: "a_alloc 16 (fst A) (snd A) = Some (q, bs1)" and fits: "fits (fst A, bs1) (of_nat (length k + 1))"
  shows "\<exists>h1 e h2 p A2. kmalloc 12 h = Some (h1, e) \<and> e \<noteq> 0 \<and> strdup key h1 = Some (h2, p) \<and> table_ok h2 A2 T B bss \<and>
    owned A2 ((e, 12) # [(p, length k + 1)] @ table_blocks T B (length bss) (concat bss)) \<and> load_ram (ram h2) p (length k + 1) = k @ [0] \<and>
    client A \<subseteq> client A2 \<and> client A \<inter> {unat e..<unat e + 12} = {} \<and> client A \<inter> {unat p..<unat p + length k + 1} = {} \<and>
    (\<forall>x \<in> client A. ram h2 (of_nat x) = ram h (of_nat x))"
proof -
  let ?n = "length k + 1" and ?XS = "table_blocks T B (length bss) (concat bss)"
  note tb = table_ok_blocks [OF t]
  define A1 where "A1 = (fst A, bs1)"
  note new = entry_block [OF tb(1) al, folded A1_def]
  obtain h1 e s1 where m1: "kmalloc 12 h = Some (h1, e)" "e \<noteq> 0" "heap_ok h1 A1" "unat (12 :: u32) \<le> s1" "live A1 (unat e) s1"
    "{unat e..<unat e + s1} \<inter> client A = {}" "client A1 = client A \<union> {unat e..<unat e + s1}"
    "\<forall>x \<in> client A. ram h1 (of_nat x) = ram h (of_nat x)" "\<forall>q t. live A q t \<longrightarrow> live A1 q t"
    "\<forall>t. \<not> live A (unat e) t" "fits A1 (of_nat ?n)" using new fits [folded A1_def] by (elim exE conjE) (rule that)
  have "ram h1 (key + of_nat i) = ram h (key + of_nat i)" if "i < ?n" for i
  proof -
    have "unat key + i \<in> client A" using kc that by auto
    from bspec [OF m1(8) this] show ?thesis by simp
  qed
  then have "load_ram (ram h1) key ?n = load_ram (ram h) key ?n" by (simp add: load_ram_def del: upt_Suc)
  then have k1: "load_ram (ram h1) key ?n = k @ [0]" using k(2) by simp
  have kc1: "{unat key..<unat key + length k + 1} \<subseteq> client A1" using kc m1(7) by blast
  have kl: "length k < 4294967287" using k(3) by simp
  obtain h2 p A2 s2 where m2: "strdup key h1 = Some (h2, p)" "p \<noteq> 0" "heap_ok h2 A2" "?n \<le> s2" "live A2 (unat p) s2"
    "{unat p..<unat p + s2} \<inter> client A1 = {}" "client A2 = client A1 \<union> {unat p..<unat p + s2}"
    "\<forall>x \<in> client A1. ram h2 (of_nat x) = ram h1 (of_nat x)" "\<forall>q u. live A1 q u \<longrightarrow> live A2 q u"
    "\<forall>u. \<not> live A1 (unat p) u" "load_ram (ram h2) p ?n = k @ [0]"
    using strdup_room [OF m1(3,11) k(1) kl k1 kc1] by (elim exE conjE) (rule that)
  have r: "ram h2 (of_nat x) = ram h (of_nat x)" if "x \<in> client A" for x
  proof -
    have "x \<in> client A1" using that m1(7) by blast
    then show ?thesis using m2(8) m1(8) that by simp
  qed
  have t2: "table_ok h2 A2 T B bss" by (rule table_ok_live [OF t m2(3)]) (use m1(9) m2(9) r in blast)+
  have nl: "\<exists>u. live A (unat a) u" if "(a, l) \<in> set ?XS" for a l using tb(2) that by (auto simp: owned_def)
  have "e \<notin> fst ` set ?XS" using nl m1(10) by fastforce
  then have o: "owned A2 ((e, 12) # ?XS)" using owned_Cons [OF table_ok_blocks(2) [OF t2], of e s1 12] m1(4,5) m2(9) by simp
  have "\<not> live A (unat p) u" for u using m1(9) m2(10) by blast
  then have "p \<notin> fst ` set ((e, 12) # ?XS)" using nl m1(5) m2(10) by fastforce
  then have "owned A2 ((p, ?n) # (e, 12) # ?XS)" using owned_Cons [OF o m2(5,4)] by blast
  then have o2: "owned A2 ((e, 12) # [(p, ?n)] @ ?XS)" by (rule owned_mset [THEN iffD1, rotated]) simp
  have "{unat e..<unat e + 12} \<subseteq> {unat e..<unat e + s1}" using m1(4) by auto
  then have "client A \<inter> {unat e..<unat e + 12} = {}" using m1(6) by blast
  moreover have "client A \<subseteq> client A2" using m1(7) m2(7) by blast
  moreover have "{unat p..<unat p + length k + 1} \<subseteq> {unat p..<unat p + s2}" using m2(4) by auto
  then have "client A \<inter> {unat p..<unat p + length k + 1} = {}" using m2(6) m1(7) by blast
  ultimately show ?thesis using m1(1,2) m2(1,11) t2 o2 r by blast
qed

lemma entry_stored:
  fixes w p :: u32
  assumes t: "table_ok h A T B bss" and o: "owned A ((e, 12) # table_blocks T B (length bss) (concat bss))" and i: "i < length bss"
  defines "m1 \<equiv> st32 (e + 4) w (st32 e p (ram h))"
  defines "m2 \<equiv> st32 (e + 8) (ld32 m1 (bucket m1 T (of_nat i))) m1"
  shows "table_ok (h\<lparr>ram := m2\<rparr>) A T B bss" and "ld32 m2 e = p" and "ld32 m2 (e + 4) = w" and "chain_at m2 (ld32 m2 (e + 8)) (bss ! i)"
    and "x < 4294967296 \<Longrightarrow> x \<notin> {unat e..<unat e + 12} \<Longrightarrow> m2 (of_nat x) = ram h (of_nat x)"
proof -
  let ?XS = "table_blocks T B (length bss) (concat bss)"
  let ?h1 = "h\<lparr>ram := st32 (e + of_nat 0) p (ram h)\<rparr>"
  let ?h2 = "?h1\<lparr>ram := st32 (e + of_nat 4) w (ram ?h1)\<rparr>"
  define hd where "hd = ld32 m1 (bucket m1 T (of_nat i))"
  note tb = table_ok_blocks [OF t]
  have o': "owned A ((e, 12) # [] @ ?XS)" using o by simp
  have e: "ram ?h2 = m1" "?h2 = h\<lparr>ram := m1\<rparr>" by (simp_all add: m1_def)
  have t1: "table_ok ?h1 A T B bss" by (rule table_ok_store_fresh [OF t o']) simp
  have "table_ok ?h2 A T B bss" by (rule table_ok_store_fresh [OF t1 o']) simp
  then have t2: "table_ok (h\<lparr>ram := m1\<rparr>) A T B bss" unfolding e(2) .
  have "table_ok ((h\<lparr>ram := m1\<rparr>)\<lparr>ram := st32 (e + of_nat 8) hd (ram (h\<lparr>ram := m1\<rparr>))\<rparr>) A T B bss"
    by (rule table_ok_store_fresh [OF t2 o']) simp
  then show t3: "table_ok (h\<lparr>ram := m2\<rparr>) A T B bss" by (simp add: m2_def hd_def)
  have eb: "unat e + 12 < 4294967296" by (rule owned_block(2) [OF tb(1) o]) simp
  have so: "same_on m1 m2 c" if "c \<in> set ?XS" for c
  proof -
    have "e \<noteq> fst c" using o that by (auto simp: owned_def)
    moreover have "8 + 4 \<le> (12 :: nat)" by simp
    ultimately have "same_on m1 (st32 (e + of_nat 8) hd m1) (fst c, snd c)"
      by (intro st32_other [OF tb(1) o, where l = 12]) (use that in simp_all)
    then show ?thesis by (simp add: m2_def hd_def)
  qed
  have bm: "bucket m1 T (of_nat i) = B + of_nat (4 * i)" by (rule bucket_slot) (use t2 in \<open>simp add: table_ok_def\<close>)
  note f = st32_field [OF eb]
  have "chain_at m1 hd (bss ! i)" using bm t2 i unfolding table_ok_def hd_def by simp
  moreover have "chain_at m2 hd (bss ! i) = chain_at m1 hd (bss ! i)"
    by (rule chain_at_cong) (use so tb(5) [OF i] in blast)
  moreover have "ld32 m2 (e + 8) = hd" using f(1) [of 8 8 hd m1] by (simp add: m2_def hd_def)
  ultimately show "chain_at m2 (ld32 m2 (e + 8)) (bss ! i)" by simp
  show "ld32 m2 e = p"
    using f(2) [of 8 0 hd m1] f(2) [of 4 0 w "st32 e p (ram h)"] f(1) [of 0 0 p "ram h"] by (simp add: m1_def m2_def hd_def)
  show "ld32 m2 (e + 4) = w"
    using f(2) [of 8 4 hd m1] f(1) [of 4 4 w "st32 e p (ram h)"] by (simp add: m1_def m2_def hd_def)
  show "m2 (of_nat x) = ram h (of_nat x)" if x: "x < 4294967296" "x \<notin> {unat e..<unat e + 12}"
  proof -
    have "st32 (e + of_nat off) y m (of_nat x) = m (of_nat x)" if "off + 4 \<le> 12" for off y m
    proof -
      have "\<not> (unat e + off \<le> x \<and> x < unat e + off + 4)" using x(2) that by auto
      then show ?thesis unfolding st32_block [OF eb that x(1)] by (simp only: if_False)
    qed
    from this [of 8 hd m1] this [of 4 w "st32 e p (ram h)"] this [of 0 p "ram h"] show ?thesis by (simp add: m1_def m2_def hd_def)
  qed
qed

lemma entry_filled:
  fixes w :: u32
  assumes t: "table_ok h A T B bss" and o: "owned A ((e, 12) # [(p, length k + 1)] @ table_blocks T B (length bss) (concat bss))"
    and k: "load_ram (ram h) p (length k + 1) = k @ [0]" and i: "i < length bss"
  defines "m1 \<equiv> st32 (e + 4) w (st32 e p (ram h))"
  defines "m2 \<equiv> st32 (e + 8) (ld32 m1 (bucket m1 T (of_nat i))) m1"
  shows "table_ok (h\<lparr>ram := m2\<rparr>) A T B bss" and "chain_at m2 e ((e, p, k, w) # bss ! i)"
    and "x < 4294967296 \<Longrightarrow> x \<notin> {unat e..<unat e + 12} \<Longrightarrow> m2 (of_nat x) = ram h (of_nat x)"
proof -
  note tb = table_ok_blocks [OF t]
  have "owned A ((p, length k + 1) # (e, 12) # table_blocks T B (length bss) (concat bss))" by (rule owned_mset [THEN iffD1, OF _ o]) simp
  note es = entry_stored [OF t owned_tl [OF this] i, where w = w and p = p, folded m1_def, folded m2_def]
  show "table_ok (h\<lparr>ram := m2\<rparr>) A T B bss" "x < 4294967296 \<Longrightarrow> x \<notin> {unat e..<unat e + 12} \<Longrightarrow> m2 (of_nat x) = ram h (of_nat x)"
    using es(1,5) by blast+
  have ez: "e \<noteq> 0" by (rule owned_block(1) [OF tb(1) o, where l = 12]) simp
  have np: "e \<noteq> p" using o by (auto simp: owned_def)
  have pres: "load_ram (st32 (e + of_nat off) x m) p (length k + 1) = load_ram m p (length k + 1)" if "off + 4 \<le> 12" for off x m
    by (rule same_on_load, rule st32_other [OF tb(1) o _ _ np that]) simp_all
  have "load_ram m2 p (length k + 1) = k @ [0]"
    using pres [of 8 "ld32 m1 (bucket m1 T (of_nat i))" m1] pres [of 4 w "st32 e p (ram h)"] pres [of 0 p "ram h"] k by (simp add: m1_def m2_def)
  then show "chain_at m2 e ((e, p, k, w) # bss ! i)" using ez es(2-4) by simp
qed

lemma table_insert_absent:
  assumes t: "table_ok h A T B bss" and k: "is_cstr k" "load_ram (ram h) key (length k + 1) = k @ [0]" "length k < 4294967200" "key \<noteq> 0"
    and kc: "{unat key..<unat key + length k + 1} \<subseteq> client A"
    and v: "table_map bss k = None" and al: "a_alloc 16 (fst A) (snd A) = Some (q, bs1)" and fits: "fits (fst A, bs1) (of_nat (length k + 1))"
  shows "\<exists>h' A' e p. hash_table_insert T key w h = Some h' \<and>
    table_put h A T B bss k w h' A' (bss[key_index (length bss) k := (e, p, k, w) # bss ! key_index (length bss) k]) \<and>
    client A \<inter> ({unat e..<unat e + 12} \<union> {unat p..<unat p + length k + 1}) = {}"
proof -
  let ?i = "key_index (length bss) k" and ?XS = "table_blocks T B (length bss) (concat bss)"
  note tb = table_ok_blocks [OF t] and tf = table_find [OF t k(1)]
  obtain q where b: "k \<notin> ekey ` set (bss ! ?i)" "find_entry (ram h) k 0 (ld32 (ram h) (B + of_nat (4 * ?i))) = Some (q, 0)"
    using tf(3,4) [OF v] by blast
  have s: "ram_string (ram h) key = Some k" by (rule ram_string_placed [OF k(2,1)]) (use k(3) in simp)
  obtain h1 e h2 p A2 where n: "kmalloc 12 h = Some (h1, e)" "e \<noteq> 0" "strdup key h1 = Some (h2, p)" "table_ok h2 A2 T B bss"
    "owned A2 ((e, 12) # [(p, length k + 1)] @ ?XS)" "load_ram (ram h2) p (length k + 1) = k @ [0]"
    "client A \<subseteq> client A2" "client A \<inter> {unat e..<unat e + 12} = {}" "client A \<inter> {unat p..<unat p + length k + 1} = {}" "\<forall>x \<in> client A. ram h2 (of_nat x) = ram h (of_nat x)"
    using entry_alloc [OF t k(1-3) kc al fits] by (elim exE conjE) (rule that)
  define m1 where "m1 = st32 (e + 4) w (st32 e p (ram h2))"
  define m2 where "m2 = st32 (e + 8) (ld32 m1 (bucket m1 T (of_nat ?i))) m1"
  note fl = entry_filled [OF n(4-6) tf(1), where w = w, folded m1_def, folded m2_def]
  let ?h = "h2\<lparr>ram := st32 (B + of_nat (4 * ?i)) e m2\<rparr>" and ?es = "(e, p, k, w) # bss ! ?i"
  have bs: "bucket m2 T (of_nat ?i) = B + of_nat (4 * ?i)" using table_find(2) [OF fl(1) k(1)] by simp
  have "hash_table_insert T key w h = Some (h2\<lparr>ram := st32 (bucket m2 T (of_nat ?i)) e m2\<rparr>)"
    using k(4) tb(6) n(2)
    by (simp add: hash_table_insert_def s hash_index_eq [OF t] tf(2) b(2) n(1,3) Let_def del: of_nat_mult flip: m1_def m2_def)
  then have run: "hash_table_insert T key w h = Some ?h" unfolding bs .
  have sp: "owned A2 (table_blocks T B (length bss) (concat (bss[?i := ?es])))"
    using table_blocks_split [OF tf(1), of A2 T B "length bss" "[]" e p k w "bss ! ?i"] n(5) tf(1) by simp
  have old: "distinct (map ekey (bss ! ?i))" "\<forall>x \<in> set (bss ! ?i). is_cstr (ekey x) \<and> length (ekey x) < 4294967287 \<and> key_index (length bss) (ekey x) = ?i"
    using t tf(1) unfolding table_ok_def by blast+
  have "table_ok ((h2\<lparr>ram := m2\<rparr>)\<lparr>ram := st32 (B + of_nat (4 * ?i)) e (ram (h2\<lparr>ram := m2\<rparr>))\<rparr>) A2 T B (bss[?i := ?es])"
    by (rule table_ok_store_bucket [OF fl(1) tf(1) sp]) (use fl(2) old b(1) k(1,3) in auto)
  then have t6: "table_ok ?h A2 T B (bss[?i := ?es])" by simp
  have mp: "table_map (bss[?i := ?es]) = (table_map bss)(k \<mapsto> w)" using table_map_put [OF refl tf(1), where xs = "[]" and ys = "bss ! ?i"] by simp
  have offB: "4 * ?i + 4 \<le> 4 * length bss" using tf(1) by simp
  have "untouched h A ?h A2 ?XS"
    unfolding untouched_def
  proof (intro ballI impI)
    fix x assume x: "x \<in> client A" and nx: "\<forall>(a, l) \<in> set ?XS. \<not> (unat a \<le> x \<and> x < unat a + l)"
    have lt: "x < 4294967296" by (rule client_bound [OF tb(1) x])
    have "\<not> (unat B \<le> x \<and> x < unat B + 4 * length bss)" using nx tb(4) by blast
    then have "\<not> (unat B + 4 * ?i \<le> x \<and> x < unat B + 4 * ?i + 4)" using offB by auto
    then have "st32 (B + of_nat (4 * ?i)) e m2 (of_nat x) = m2 (of_nat x)"
      unfolding st32_block [OF owned_block(2) [OF tb(1,2,4)] offB lt] by (simp only: if_False)
    moreover have "m2 (of_nat x) = ram h2 (of_nat x)" by (rule fl(3) [OF lt]) (use x n(8) in blast)
    ultimately show "x \<in> client A2 \<and> ram ?h (of_nat x) = ram h (of_nat x)" using x n(7,10) by auto
  qed
  then have "table_put h A T B bss k w ?h A2 (bss[?i := ?es])" using t6 mp by (simp add: table_put_def)
  then show ?thesis using run n(8,9) by (intro exI [of _ ?h] exI [of _ A2] exI [of _ e] exI [of _ p]) (simp add: Int_Un_distrib)
qed

text \<open>Without room for the copy of the key the entry goes into its bucket with a NULL pointer for the key.\<close>

lemma table_insert_no_copy:
  assumes t: "table_ok h A T B bss" and k: "is_cstr k" "load_ram (ram h) key (length k + 1) = k @ [0]" "length k < 4294967200" "key \<noteq> 0"
    and kc: "{unat key..<unat key + length k + 1} \<subseteq> client A"
    and v: "table_map bss k = None" and al: "a_alloc 16 (fst A) (snd A) = Some (q, bs1)" and full: "\<not> fits (fst A, bs1) (of_nat (length k + 1))"
  shows "\<exists>h' e. hash_table_insert T key w h = Some h' \<and> e \<noteq> 0 \<and> ld32 (ram h') (B + of_nat (4 * key_index (length bss) k)) = e \<and>
    ld32 (ram h') e = 0 \<and> ld32 (ram h') (e + 4) = w \<and> chain_at (ram h') (ld32 (ram h') (e + 8)) (bss ! key_index (length bss) k)"
proof -
  let ?i = "key_index (length bss) k" and ?XS = "table_blocks T B (length bss) (concat bss)" and ?A = "(fst A, bs1)"
  note tb = table_ok_blocks [OF t] and tf = table_find [OF t k(1)]
  obtain q where b: "find_entry (ram h) k 0 (ld32 (ram h) (B + of_nat (4 * ?i))) = Some (q, 0)"
    using tf(4) [OF v] by blast
  have s: "ram_string (ram h) key = Some k" by (rule ram_string_placed [OF k(2,1)]) (use k(3) in simp)
  obtain h1 e s1 where n: "kmalloc 12 h = Some (h1, e)" "e \<noteq> 0" "heap_ok h1 ?A" "unat (12 :: u32) \<le> s1" "live ?A (unat e) s1"
    "client ?A = client A \<union> {unat e..<unat e + s1}"
    "\<forall>x \<in> client A. ram h1 (of_nat x) = ram h (of_nat x)" "\<forall>q t. live A q t \<longrightarrow> live ?A q t" "\<forall>t. \<not> live A (unat e) t"
    using entry_block [OF tb(1) al] by (elim exE conjE) (rule that)
  have "ram h1 (key + of_nat i) = ram h (key + of_nat i)" if "i < length k + 1" for i
  proof -
    have "unat key + i \<in> client A" using kc that by auto
    from bspec [OF n(7) this] show ?thesis by simp
  qed
  then have "load_ram (ram h1) key (length k + 1) = load_ram (ram h) key (length k + 1)" by (simp add: load_ram_def del: upt_Suc)
  then have "load_ram (ram h1) key (length k + 1) = k @ [0]" using k(2) by simp
  from strdup_full [OF n(3) full k(1) this] have sd: "strdup key h1 = Some (h1, 0)" .
  have t1: "table_ok h1 ?A T B bss" by (rule table_ok_live [OF t n(3)]) (use n(7,8) in blast)+
  have "e \<notin> fst ` set ?XS" using tb(2) n(9) by (fastforce simp: owned_def)
  then have o: "owned ?A ((e, 12) # ?XS)" using owned_Cons [OF table_ok_blocks(2) [OF t1], of e s1 12] n(4,5) by simp
  define m1 where "m1 = st32 (e + 4) w (st32 e 0 (ram h1))"
  define m2 where "m2 = st32 (e + 8) (ld32 m1 (bucket m1 T (of_nat ?i))) m1"
  note es = entry_stored [OF t1 o tf(1), where w = w and p = 0, folded m1_def, folded m2_def]
  let ?m = "st32 (B + of_nat (4 * ?i)) e m2"
  have bs: "bucket m2 T (of_nat ?i) = B + of_nat (4 * ?i)" using table_find(2) [OF es(1) k(1)] by simp
  have "hash_table_insert T key w h = Some (h1\<lparr>ram := st32 (bucket m2 T (of_nat ?i)) e m2\<rparr>)"
    using k(4) tb(6) n(2)
    by (simp add: hash_table_insert_def s hash_index_eq [OF t] tf(2) b n(1) sd Let_def del: of_nat_mult flip: m1_def m2_def)
  then have run: "hash_table_insert T key w h = Some (h1\<lparr>ram := ?m\<rparr>)" unfolding bs .
  have off: "4 * ?i + 4 \<le> 4 * length bss" using tf(1) by simp
  have B: "(B, 4 * length bss) \<in> set ((e, 12) # ?XS)" using tb(4) by simp
  have so: "same_on m2 ?m c" if "c \<in> set ((e, 12) # ?XS)" "fst c \<noteq> B" for c
  proof -
    have "same_on m2 ?m (fst c, snd c)" by (rule st32_other [OF n(3) o B _ _ off]) (use that in auto)
    then show ?thesis by simp
  qed
  have "B \<in> fst ` set ?XS" using imageI [OF tb(4), of fst] by simp
  then have "e \<noteq> B" using o by (auto simp: owned_def)
  then have e: "same_on m2 ?m (e, 12)" using so [of "(e, 12)"] by simp
  have c: "c \<in> set ((e, 12) # ?XS) \<and> fst c \<noteq> B" if "x \<in> set (bss ! ?i)" "c \<in> set (entry_blocks x)" for x c
  proof -
    have "x \<in> set (concat bss)" using that(1) tf(1) by auto
    then have "c \<in> set (concat (map entry_blocks (concat bss)))" using that(2) by auto
    then show ?thesis using tb(2) by (auto simp: owned_def table_blocks_def)
  qed
  have "chain_at ?m (ld32 m2 (e + 8)) (bss ! ?i) = chain_at m2 (ld32 m2 (e + 8)) (bss ! ?i)"
    by (rule chain_at_cong, rule so) (use c in blast)+
  moreover have "ld32 ?m (B + of_nat (4 * ?i)) = e" by (rule st32_field(1) [OF owned_block(2) [OF n(3) o B] off off])
  ultimately show ?thesis
    using run es(2-4) n(2) same_on_ld32 [OF e, of 0] same_on_ld32 [OF e, of 4] same_on_ld32 [OF e, of 8]
    by (intro exI [of _ "h1\<lparr>ram := ?m\<rparr>"] exI [of _ e]) simp
qed

lemma table_insert_full:
  assumes t: "table_ok h A T B bss" and k: "is_cstr k" "load_ram (ram h) key (length k + 1) = k @ [0]" "length k < 4294967200" "key \<noteq> 0"
    and v: "table_map bss k = None" and al: "a_alloc 16 (fst A) (snd A) = None"
  shows "hash_table_insert T key w h = Some h"
proof -
  have s: "ram_string (ram h) key = Some k" by (rule ram_string_placed [OF k(2,1)]) (use k(3) in simp)
  note tf = table_find [OF t k(1)]
  have "unat (ALIGN 12) = 16" by (subst ALIGN_unat) simp_all
  then have "\<not> fits A 12" using fits_iff [of "fst A" "snd A" 12] al by simp
  then have "kmalloc 12 h = Some (h, 0)" by (rule kmalloc_full [OF table_ok_blocks(1) [OF t]])
  then show ?thesis
    using tf(4) v by (auto simp: hash_table_insert_def s hash_index_eq [OF t] tf(2) simp del: of_nat_mult)
qed

section \<open>Lemmas: removing\<close>

text \<open>
  The key \<open>k\<close> is gone, the blocks in \<open>xs\<close>, given with their sizes, have gone back to the heap, and no other byte outside the
  table has changed.
\<close>

definition table_taken :: "kheap \<Rightarrow> nat \<times> blocks \<Rightarrow> u32 \<Rightarrow> u32 \<Rightarrow> hash_entry list list \<Rightarrow> u8 list \<Rightarrow> kheap \<Rightarrow> nat \<times> blocks \<Rightarrow> hash_entry list list \<Rightarrow> (u32 \<times> nat) list \<Rightarrow> bool" where
  "table_taken h A T B bss k h' A' bss' xs \<longleftrightarrow>
     table_ok h' A' T B bss' \<and> table_map bss' = (table_map bss)(k := None) \<and>
     (\<forall>(a, l) \<in> set xs. live A (unat a) l) \<and> client A' = client A - (\<Union>(a, l) \<in> set xs. {unat a..<unat a + l}) \<and>
     (\<forall>x \<in> client A'. (\<forall>(a, l) \<in> set (table_blocks T B (length bss) (concat bss)). \<not> (unat a \<le> x \<and> x < unat a + l)) \<longrightarrow>
        ram h' (of_nat x) = ram h (of_nat x))"

text \<open>The entry leaves its bucket: through the entry before it, or through the array.\<close>

lemma entry_unlinked:
  assumes t: "table_ok h A T B bss" and i: "i < length bss" and b: "bss ! i = xs @ (e, p, k, v) # ys"
  defines "a \<equiv> if xs = [] then B + of_nat (4 * i) else fst (last xs) + 8"
  defines "h1 \<equiv> h\<lparr>ram := st32 a (ld32 (ram h) (e + 8)) (ram h)\<rparr>"
  shows "table_ok h1 A T B (bss[i := xs @ ys])" and "ld32 (ram h1) e = p"
    and "owned A ((e, 12) # (p, length k + 1) # table_blocks T B (length bss) (concat (bss[i := xs @ ys])))"
    and "untouched h A h1 A (table_blocks T B (length bss) (concat bss))"
proof -
  let ?XS = "table_blocks T B (length bss) (concat bss)" and ?w = "ld32 (ram h) (e + 8)"
  note tb = table_ok_blocks [OF t]
  have bi: "bss = bss[i := xs @ (e, p, k, v) # ys]" using i by (simp flip: b)
  show o: "owned A ((e, 12) # (p, length k + 1) # table_blocks T B (length bss) (concat (bss[i := xs @ ys])))"
    using tb(2) table_blocks_split [OF i, of A T B "length bss" xs e p k v ys] bi by simp
  have o': "owned A (table_blocks T B (length bss) (concat (bss[i := xs @ ys])))" by (rule owned_tl [OF owned_tl [OF o]])
  have c: "chain_at (ram h) (ld32 (ram h) (B + of_nat (4 * i))) (xs @ (e, p, k, v) # ys)" "distinct (map ekey (xs @ (e, p, k, v) # ys))"
    using t i unfolding table_ok_def b [symmetric] by blast+
  have ks: "is_cstr (ekey x) \<and> length (ekey x) < 4294967287 \<and> key_index (length bss) (ekey x) = i" if "x \<in> set (xs @ ys)" for x
    using t i that unfolding table_ok_def by (metis UnCI UnE b list.set_intros(2) set_append)
  have tail: "ld32 (ram h) e = p" "chain_at (ram h) ?w ys" using chain_at_append [OF c(1)] by simp_all
  have eX: "(e, 12) \<in> set ?XS" by (rule tb(5) [OF i, of "(e, p, k, v)"]) (simp_all add: b)
  have "table_ok h1 A T B (bss[i := xs @ ys]) \<and> ld32 (ram h1) e = p \<and> untouched h A h1 A ?XS"
  proof (cases xs rule: rev_cases)
    case Nil
    have off: "4 * i + 4 \<le> 4 * length bss" using i by simp
    have h1: "h1 = h\<lparr>ram := st32 (B + of_nat (4 * i)) ?w (ram h)\<rparr>" by (simp add: h1_def a_def Nil)
    have "table_ok h1 A T B (bss[i := xs @ ys])" unfolding h1
      by (rule table_ok_store_bucket [OF t i o']) (use Nil tail c(2) ks in simp_all)
    moreover have "e \<noteq> B" using o by (auto simp: owned_def table_blocks_def)
    then have "same_on (ram h) (ram h1) (e, 12)" unfolding h1 using st32_other [OF tb(1,2,4) eX _ off] by simp
    from same_on_ld32 [OF this, of 0] have "ld32 (ram h1) e = p" using tail(1) by simp
    ultimately show ?thesis using untouched_store [OF tb(1,2,4) off] by (simp add: h1)
  next
    case (snoc zs x)
    obtain e0 p0 k0 v0 where x: "x = (e0, p0, k0, v0)" by (cases x)
    have b0: "bss ! i = zs @ (e0, p0, k0, v0) # ((e, p, k, v) # ys)" by (simp add: b snoc x)
    have h1: "h1 = h\<lparr>ram := st32 (e0 + of_nat 8) ?w (ram h)\<rparr>" by (simp add: h1_def a_def snoc x)
    have o0: "owned A ((e0, 12) # (p0, length k0 + 1) # table_blocks T B (length bss) (concat (bss[i := zs @ (e, p, k, v) # ys])))" (is "owned A (_ # _ # ?R)")
      using tb(2) table_blocks_split [OF i, of A T B "length bss" zs e0 p0 k0 v0 "(e, p, k, v) # ys"] bi by (simp add: snoc x)
    have eR: "(e, 12) \<in> set ?R" by (rule bucket_blocks [OF i, of "(e, p, k, v)"]) simp_all
    have R: "c \<in> set ?R" if "y \<in> set (zs @ ys)" "c \<in> set (entry_blocks y)" for y c by (rule bucket_blocks [OF i _ that(2)]) (use that(1) in auto)
    have "chain_at (st32 (e0 + 8) ?w (ram h)) (ld32 (ram h) (B + of_nat (4 * i))) (zs @ (e0, p0, k0, v0) # ys)"
      by (rule chain_store(2) [OF tb(1) o0 R R _ tail(2)]) (use c(1) in \<open>simp_all add: snoc x\<close>)
    then have "table_ok h1 A T B (bss[i := xs @ ys])" unfolding h1
      by (intro table_ok_store_entry [OF t i b0 _ o']) (use c(2) b in \<open>auto simp: snoc x\<close>)
    moreover have "e0 \<noteq> e" using o0 eR by (force simp: owned_def)
    then have "same_on (ram h) (ram h1) (e, 12)" unfolding h1
      using st32_other [OF tb(1) o0, of e0 12 e 12 8] eR by simp
    from same_on_ld32 [OF this, of 0] have "ld32 (ram h1) e = p" using tail(1) by simp
    moreover have "(e0, 12) \<in> set ?XS" by (rule tb(5) [OF i, of "(e0, p0, k0, v0)"]) (simp_all add: b0)
    from untouched_store [OF tb(1,2) this, of 8] have "untouched h A h1 A ?XS" by (simp add: h1)
    ultimately show ?thesis by blast
  qed
  then show "table_ok h1 A T B (bss[i := xs @ ys])" "ld32 (ram h1) e = p" "untouched h A h1 A ?XS" by blast+
qed

lemma table_free_block:
  assumes t: "table_ok h A T B bss" and o: "owned A ((e, l) # ys @ table_blocks T B (length bss) (concat bss))" and l: "live A (unat e) u"
  shows "\<exists>h' A'. kfree e h = Some h' \<and> table_ok h' A' T B bss \<and> owned A' (ys @ table_blocks T B (length bss) (concat bss)) \<and>
    client A' = client A - {unat e..<unat e + u} \<and> (\<forall>x \<in> client A'. ram h' (of_nat x) = ram h (of_nat x)) \<and>
    (\<forall>q t. live A q t \<and> q \<noteq> unat e \<longrightarrow> live A' q t)"
proof -
  obtain h' A' where f: "kfree e h = Some h'" "heap_ok h' A'" "client A' = client A - {unat e..<unat e + u}"
    "\<forall>x \<in> client A'. ram h' (of_nat x) = ram h (of_nat x)" "\<forall>q t. live A q t \<and> q \<noteq> unat e \<longrightarrow> live A' q t"
    using kfree_live [OF table_ok_blocks(1) [OF t] l] by (elim exE conjE) (rule that)
  have ne: "a \<noteq> e" if "(a, k) \<in> set (ys @ table_blocks T B (length bss) (concat bss))" for a k
    by (rule owned_Cons_ne [OF o that])
  have k: "live A' (unat a) t" if "(a, k) \<in> set (ys @ table_blocks T B (length bss) (concat bss))" "live A (unat a) t" for a k t
    using f(5) that(2) ne [OF that(1)] by (simp add: word_unat_eq_iff)
  have "owned A' (ys @ table_blocks T B (length bss) (concat bss))" by (rule owned_cong_live [OF owned_tl [OF o]]) (rule k)
  moreover have "table_ok h' A' T B bss" by (rule table_ok_live [OF t f(2)]) (use k f(4) in auto)
  ultimately show ?thesis using f(1,3-5) by blast
qed

lemma table_remove:
  assumes t: "table_ok h A T B bss" and k: "is_cstr k" "load_ram (ram h) key (length k + 1) = k @ [0]" "length k < 4294967296" "key \<noteq> 0"
  shows "table_map bss k = None \<Longrightarrow> hash_table_remove T key h = Some h"
    and "table_map bss k = Some v \<Longrightarrow> \<exists>xs e p ys h' A' s u. bss ! key_index (length bss) k = xs @ (e, p, k, v) # ys \<and>
      hash_table_remove T key h = Some h' \<and> table_taken h A T B bss k h' A' (bss[key_index (length bss) k := xs @ ys]) [(e, s), (p, u)]"
proof -
  let ?i = "key_index (length bss) k"
  note tb = table_ok_blocks [OF t] and tf = table_find [OF t k(1)]
  have s: "ram_string (ram h) key = Some k" by (rule ram_string_placed [OF k(2,1,3)])
  show "table_map bss k = None \<Longrightarrow> hash_table_remove T key h = Some h" using k(4) tb(6) tf(4)
    by (auto simp: hash_table_remove_def s hash_index_eq [OF t] tf(2) simp del: of_nat_mult)
  show "\<exists>xs e p ys h' A' s u. bss ! key_index (length bss) k = xs @ (e, p, k, v) # ys \<and>
      hash_table_remove T key h = Some h' \<and> table_taken h A T B bss k h' A' (bss[key_index (length bss) k := xs @ ys]) [(e, s), (p, u)]"
    if Some: "table_map bss k = Some v"
  proof -
    obtain xs e p ys where b: "bss ! ?i = xs @ (e, p, k, v) # ys" "k \<notin> ekey ` set xs" "k \<notin> ekey ` set ys" "e \<noteq> 0"
      "find_entry (ram h) k 0 (ld32 (ram h) (B + of_nat (4 * ?i))) = Some (if xs = [] then 0 else fst (last xs), e)"
      using tf(5) [OF Some] by blast
    define a where "a = (if xs = [] then B + of_nat (4 * ?i) else fst (last xs) + 8)"
    define h1 where "h1 = h\<lparr>ram := st32 a (ld32 (ram h) (e + 8)) (ram h)\<rparr>"
    let ?bss = "bss[?i := xs @ ys]"
    have u: "table_ok h1 A T B ?bss" "ld32 (ram h1) e = p" "owned A ((e, 12) # (p, length k + 1) # table_blocks T B (length bss) (concat ?bss))"
      "untouched h A h1 A (table_blocks T B (length bss) (concat bss))"
      using entry_unlinked [OF t tf(1) b(1)] by (simp_all add: h1_def a_def)
    have pv: "xs \<noteq> [] \<Longrightarrow> fst (last xs) \<noteq> 0"
    proof -
      assume "xs \<noteq> []"
      then have "last xs \<in> set (bss ! ?i)" using b(1) by simp
      moreover obtain e0 p0 k0 v0 where x: "last xs = (e0, p0, k0, v0)" by (cases "last xs")
      ultimately have "(e0, 12) \<in> set (table_blocks T B (length bss) (concat bss))" by (intro tb(5) [OF tf(1), of "last xs"]) simp_all
      then show "fst (last xs) \<noteq> 0" using owned_block(1) [OF tb(1,2)] x by simp
    qed
    have run: "hash_table_remove T key h = Option.bind (kfree p h1) (kfree e)"
    proof -
      let ?m = "if (if xs = [] then 0 else fst (last xs)) \<noteq> 0 then st32 ((if xs = [] then 0 else fst (last xs)) + 8) (ld32 (ram h) (e + 8)) (ram h)
        else st32 (bucket (ram h) T (of_nat ?i)) (ld32 (ram h) (e + 8)) (ram h)"
      have m: "?m = ram h1" using pv tf(2) by (simp add: h1_def a_def)
      have "hash_table_remove T key h = Option.bind (kfree (ld32 ?m e) (h\<lparr>ram := ?m\<rparr>)) (kfree e)"
        using k(4) tb(6) b(4) by (simp add: hash_table_remove_def s hash_index_eq [OF t] tf(2) b(5) Let_def del: of_nat_mult)
      then show ?thesis unfolding m u(2) by (simp add: h1_def)
    qed
    have o: "owned A ((p, length k + 1) # [(e, 12)] @ table_blocks T B (length ?bss) (concat ?bss))"
      using owned_mset [THEN iffD1, OF _ u(3)] by simp
    obtain t1 where l1: "live A (unat p) t1" using u(3) by (auto simp: owned_def)
    obtain t2 where l2: "live A (unat e) t2" using u(3) by (auto simp: owned_def)
    have ne: "unat e \<noteq> unat p" using u(3) by (auto simp: owned_def word_unat_eq_iff)
    from table_free_block [OF u(1) o l1] obtain h2 A2 where f1: "kfree p h1 = Some h2" "table_ok h2 A2 T B ?bss"
      "owned A2 ([(e, 12)] @ table_blocks T B (length ?bss) (concat ?bss))" "client A2 = client A - {unat p..<unat p + t1}"
      "\<forall>x \<in> client A2. ram h2 (of_nat x) = ram h1 (of_nat x)" "\<forall>q t. live A q t \<and> q \<noteq> unat p \<longrightarrow> live A2 q t" by blast
    then have o2: "owned A2 ((e, 12) # [] @ table_blocks T B (length ?bss) (concat ?bss))" by simp
    have "live A2 (unat e) t2" using f1(6) l2 ne by blast
    from table_free_block [OF f1(2) o2 this] obtain h3 A3 where f2: "kfree e h2 = Some h3" "table_ok h3 A3 T B ?bss"
      "client A3 = client A2 - {unat e..<unat e + t2}" "\<forall>x \<in> client A3. ram h3 (of_nat x) = ram h2 (of_nat x)" by blast
    have "table_map ?bss = (table_map bss)(k := None)" by (rule table_map_drop [OF refl tf(1) b(2,3,1)])
    moreover have "\<forall>x \<in> client A3. (\<forall>(a, l) \<in> set (table_blocks T B (length bss) (concat bss)). \<not> (unat a \<le> x \<and> x < unat a + l)) \<longrightarrow> ram h3 (of_nat x) = ram h (of_nat x)"
    proof (intro ballI impI)
      fix x assume x: "x \<in> client A3" and n: "\<forall>(a, l) \<in> set (table_blocks T B (length bss) (concat bss)). \<not> (unat a \<le> x \<and> x < unat a + l)"
      then have "x \<in> client A2" "x \<in> client A" using f1(4) f2(3) by blast+
      then show "ram h3 (of_nat x) = ram h (of_nat x)" using f2(4) f1(5) u(4) x n by (simp add: untouched_def)
    qed
    moreover have "client A3 = client A - ({unat e..<unat e + t2} \<union> {unat p..<unat p + t1})" using f1(4) f2(3) by blast
    ultimately have "table_taken h A T B bss k h3 A3 ?bss [(e, t2), (p, t1)]" using f2(2) l1 l2 by (simp add: table_taken_def)
    then show ?thesis using run f1(1) f2(1) b(1)
      by (intro exI [of _ xs] exI [of _ e] exI [of _ p] exI [of _ ys] exI [of _ h3] exI [of _ A3] exI [of _ t2] exI [of _ t1]) simp
  qed
qed

section \<open>Lemmas: creating\<close>

text \<open>The loop over the new array.\<close>

lemma clear_buckets:
  assumes ok: "heap_ok h A" and o: "owned A [(T, 8), (B, 4 * n)]" and B: "ld32 (ram h) (T + 4) = B"
  shows "i \<le> n \<Longrightarrow> m = fold (\<lambda>i m. st32 (bucket m T (of_nat i)) 0 m) [0..<i] (ram h) \<Longrightarrow>
    heap_ok (h\<lparr>ram := m\<rparr>) A \<and> same_on (ram h) m (T, 8) \<and> (\<forall>j < i. ld32 m (B + of_nat (4 * j)) = 0) \<and>
      untouched h A (h\<lparr>ram := m\<rparr>) A [(B, 4 * n)]"
proof (induction i arbitrary: m)
  case 0
  then show ?case using ok by (simp add: same_on_def untouched_def)
next
  case (Suc i m')
  define m where "m = fold (\<lambda>i m. st32 (bucket m T (of_nat i)) 0 m) [0..<i] (ram h)"
  have ih: "heap_ok (h\<lparr>ram := m\<rparr>) A" "same_on (ram h) m (T, 8)" "\<forall>j < i. ld32 m (B + of_nat (4 * j)) = 0"
    "untouched h A (h\<lparr>ram := m\<rparr>) A [(B, 4 * n)]"
    using Suc.IH [OF Suc_leD [OF Suc.prems(1)] m_def] by blast+
  have off: "4 * i + 4 \<le> 4 * n" using Suc.prems by simp
  have "ld32 m (T + 4) = B" using same_on_ld32 [OF ih(2), of 4] B by simp
  then have sl: "bucket m T (of_nat i) = B + of_nat (4 * i)" by (rule bucket_slot)
  have e: "m' = st32 (B + of_nat (4 * i)) 0 m" using Suc.prems(2) by (simp add: sl del: of_nat_mult flip: m_def)
  have Bo: "(B, 4 * n) \<in> set [(T, 8), (B, 4 * n)]" by simp
  have bb: "unat B + 4 * n < 4294967296" by (rule owned_block(2) [OF ok o Bo])
  have TB: "B \<noteq> T" using o by (auto simp: owned_def)
  have "heap_ok (h\<lparr>ram := st32 (B + of_nat (4 * i)) 0 m\<rparr>) A" using st32_heap_ok [OF ih(1) o Bo off, of 0] by simp
  moreover have "same_on m (st32 (B + of_nat (4 * i)) 0 m) (T, 8)" by (rule st32_other [OF ok o Bo _ TB off]) simp
  then have "same_on (ram h) (st32 (B + of_nat (4 * i)) 0 m) (T, 8)" using ih(2) by (simp add: same_on_def)
  moreover have "ld32 (st32 (B + of_nat (4 * i)) 0 m) (B + of_nat (4 * j)) = 0" if "j < Suc i" for j
  proof (cases "j = i")
    case True
    then show ?thesis using st32_field(1) [OF bb off off] by simp
  next
    case False
    then have "4 * j + 4 \<le> 4 * n" "4 * i + 4 \<le> 4 * j \<or> 4 * j + 4 \<le> 4 * i" "j < i" using that Suc.prems by auto
    then show ?thesis using st32_field(2) [OF bb off, of "4 * j" 0 m] ih(3) by (simp del: of_nat_mult)
  qed
  moreover have "untouched (h\<lparr>ram := m\<rparr>) A (h\<lparr>ram := st32 (B + of_nat (4 * i)) 0 m\<rparr>) A [(B, 4 * n)]"
    using untouched_store [OF ih(1) owned_tl [OF o], of B "4 * n" "4 * i" 0] off by simp
  then have "untouched h A (h\<lparr>ram := st32 (B + of_nat (4 * i)) 0 m\<rparr>) A [(B, 4 * n)]" using ih(4) by (auto simp: untouched_def)
  ultimately show ?case unfolding e by blast
qed

lemma create_blocks:
  assumes ok: "heap_ok h (a, bs)" and al: "a_alloc 8 a bs = Some (p1, bs1)" "a_alloc (unat (ALIGN (of_nat (4 * n)))) a bs1 = Some (p2, bs2)"
    and n: "4 * n < 4294967288"
  shows "\<exists>h' T B. hash_table_create (of_nat n) h = Some (h'\<lparr>ram := fold (\<lambda>i m. st32 (bucket m T (of_nat i)) 0 m) [0..<n] (ram h')\<rparr>, T) \<and>
    heap_ok h' (a, bs2) \<and> owned (a, bs2) [(T, 8), (B, 4 * n)] \<and> ld32 (ram h') T = of_nat n \<and> ld32 (ram h') (T + 4) = B \<and>
    (\<forall>x \<in> client (a, bs). x \<in> client (a, bs2) \<and> x \<notin> {unat B..<unat B + 4 * n} \<and> ram h' (of_nat x) = ram h (of_nat x))"
proof -
  have un: "unat (of_nat (4 * n) :: u32) = 4 * n" "unat (of_nat n :: u32) = n" by (rule unat_of_nat_u32, use n in simp)+
  have a8: "unat (ALIGN 8) = 8" by (subst ALIGN_unat) simp_all
  obtain h1 T s1 where m1: "kmalloc 8 h = Some (h1, T)" "T \<noteq> 0" "heap_ok h1 (a, bs1)" "unat (8 :: u32) \<le> s1" "live (a, bs1) (unat T) s1"
    "{unat T..<unat T + s1} \<inter> client (a, bs) = {}" "client (a, bs1) = client (a, bs) \<union> {unat T..<unat T + s1}"
    "\<forall>x \<in> client (a, bs). ram h1 (of_nat x) = ram h (of_nat x)"
    using kmalloc_block [OF ok, of 8 p1 bs1] al(1) a8 by fastforce
  define h2 where "h2 = h1\<lparr>ram := st32 T (of_nat n) (ram h1)\<rparr>"
  have o1: "owned (a, bs1) [(T, 8)]" using m1(4,5) by (auto simp: owned_def)
  have ok2: "heap_ok h2 (a, bs1)" using st32_heap_ok [OF m1(3) o1, of T 8 0 "of_nat n"] by (simp add: h2_def)
  have u2: "untouched h1 (a, bs1) h2 (a, bs1) [(T, 8)]" using untouched_store [OF m1(3) o1, of T 8 0 "of_nat n"] by (simp add: h2_def)
  obtain h3 B s2 where m2: "kmalloc (of_nat (4 * n)) h2 = Some (h3, B)" "B \<noteq> 0" "heap_ok h3 (a, bs2)" "4 * n \<le> s2" "live (a, bs2) (unat B) s2"
    "{unat B..<unat B + s2} \<inter> client (a, bs1) = {}" "client (a, bs2) = client (a, bs1) \<union> {unat B..<unat B + s2}"
    "\<forall>x \<in> client (a, bs1). ram h3 (of_nat x) = ram h2 (of_nat x)" "\<forall>q t. live (a, bs1) q t \<longrightarrow> live (a, bs2) q t"
    "\<forall>t. \<not> live (a, bs1) (unat B) t"
    using kmalloc_block [OF ok2, of "of_nat (4 * n)" p2 bs2] al(2) un(1) n by fastforce
  define h4 where "h4 = h3\<lparr>ram := st32 (T + 4) B (ram h3)\<rparr>"
  have "T \<noteq> B" using m1(5) m2(10) by auto
  then have o2: "owned (a, bs2) [(T, 8), (B, 4 * n)]" using m1(4,5) m2(4,5,9) by (auto simp: owned_def)
  have T2: "(T, 8) \<in> set [(T, 8), (B, 4 * n)]" by simp
  have ok4: "heap_ok h4 (a, bs2)" using st32_heap_ok [OF m2(3) o2 T2, of 4 B] by (simp add: h4_def)
  have u4: "untouched h3 (a, bs2) h4 (a, bs2) [(T, 8)]" using untouched_store [OF m2(3) _ _, of "[(T, 8)]" T 8 4 B] o2 by (simp add: h4_def owned_def)
  note tb = owned_block(2) [OF m2(3) o2 T2]
  have B4: "ld32 (ram h4) (T + 4) = B" using st32_field(1) [OF tb, of 4 4 B "ram h3"] by (simp add: h4_def)
  have "same_on (ram h2) (ram h3) (T, 8)"
    unfolding same_on_def
  proof (intro allI impI)
    fix j assume "j < snd (T, 8 :: nat)"
    then have "unat T + j \<in> client (a, bs1)" using m1(4,7) by auto
    from bspec [OF m2(8) this] show "ram h3 (fst (T, 8 :: nat) + of_nat j) = ram h2 (fst (T, 8 :: nat) + of_nat j)" by simp
  qed
  from same_on_ld32 [OF this, of 0] have T4: "ld32 (ram h4) T = of_nat n"
    using st32_field(2) [OF tb, of 4 0 B "ram h3"] st32_field(1) [OF tb, of 0 0 "of_nat n" "ram h1"] by (simp add: h4_def h2_def)
  have e: "(4 :: u32) * of_nat n = of_nat (4 * n)" by simp
  have run: "hash_table_create (of_nat n) h = Some (h4\<lparr>ram := fold (\<lambda>i m. st32 (bucket m T (of_nat i)) 0 m) [0..<n] (ram h4)\<rparr>, T)"
    unfolding hash_table_create_def m1(1) bind.simps prod.case Let_def h2_def [symmetric] e m2(1) un(2)
    using m1(2) m2(2) by (simp add: h4_def m2(1))
  have "x \<in> client (a, bs2) \<and> x \<notin> {unat B..<unat B + 4 * n} \<and> ram h4 (of_nat x) = ram h (of_nat x)" if x: "x \<in> client (a, bs)" for x
  proof -
    have x1: "x \<in> client (a, bs1)" using x m1(7) by blast
    then have x2: "x \<in> client (a, bs2)" using m2(7) by blast
    have "x \<notin> {unat T..<unat T + s1}" using x m1(6) by blast
    then have nT: "\<not> (unat T \<le> x \<and> x < unat T + 8)" using m1(4) by auto
    have "x \<notin> {unat B..<unat B + s2}" using x1 m2(6) by blast
    then have "x \<notin> {unat B..<unat B + 4 * n}" using m2(4) by auto
    moreover have "ram h4 (of_nat x) = ram h (of_nat x)" using u4 u2 x1 x2 nT m2(8) m1(8) x by (simp add: untouched_def)
    ultimately show ?thesis using x2 by blast
  qed
  then show ?thesis using run ok4 o2 T4 B4 by blast
qed

lemma table_create:
  assumes ok: "heap_ok h (a, bs)" and al: "a_alloc 8 a bs = Some (p1, bs1)" "a_alloc (unat (ALIGN (of_nat (4 * n)))) a bs1 = Some (p2, bs2)"
    and n: "0 < n" "4 * n < 4294967288"
  shows "\<exists>h' T B. hash_table_create (of_nat n) h = Some (h', T) \<and> table_ok h' (a, bs2) T B (replicate n []) \<and>
    (\<forall>x \<in> client (a, bs). x \<in> client (a, bs2) \<and> ram h' (of_nat x) = ram h (of_nat x))"
proof -
  obtain h1 T B where c: "hash_table_create (of_nat n) h = Some (h1\<lparr>ram := fold (\<lambda>i m. st32 (bucket m T (of_nat i)) 0 m) [0..<n] (ram h1)\<rparr>, T)"
    "heap_ok h1 (a, bs2)" "owned (a, bs2) [(T, 8), (B, 4 * n)]" "ld32 (ram h1) T = of_nat n" "ld32 (ram h1) (T + 4) = B"
    "\<forall>x \<in> client (a, bs). x \<in> client (a, bs2) \<and> x \<notin> {unat B..<unat B + 4 * n} \<and> ram h1 (of_nat x) = ram h (of_nat x)"
    using create_blocks [OF ok al n(2)] by (elim exE conjE) (rule that)
  define m where "m = fold (\<lambda>i m. st32 (bucket m T (of_nat i)) 0 m) [0..<n] (ram h1)"
  have cl: "heap_ok (h1\<lparr>ram := m\<rparr>) (a, bs2)" "same_on (ram h1) m (T, 8)" "\<forall>j < n. ld32 m (B + of_nat (4 * j)) = 0"
    "untouched h1 (a, bs2) (h1\<lparr>ram := m\<rparr>) (a, bs2) [(B, 4 * n)]"
    using clear_buckets [OF c(2,3,5) order_refl m_def] by blast+
  have "ld32 m T = of_nat n" "ld32 m (T + 4) = B" using same_on_ld32 [OF cl(2), of 0] same_on_ld32 [OF cl(2), of 4] c(4,5) by simp_all
  then have "table_ok (h1\<lparr>ram := m\<rparr>) (a, bs2) T B (replicate n [])"
    using cl(1,3) n c(3) by (simp add: table_ok_def table_blocks_def)
  moreover have "\<forall>x \<in> client (a, bs). x \<in> client (a, bs2) \<and> ram (h1\<lparr>ram := m\<rparr>) (of_nat x) = ram h (of_nat x)"
    using cl(4) c(6) by (auto simp: untouched_def)
  ultimately show ?thesis using c(1) unfolding m_def [symmetric] by blast
qed

section \<open>Properties\<close>

text \<open>
  C26: \<open>hash_table_insert\<close> maps the key to the value and leaves every other key and everything outside the table as it was. A
  key that is there gets the value in its entry, by one store. For another key a new entry with a copy of the key, in two blocks
  that no client had, is put in front of its bucket. When there is no room for the entry the heap stays as it is, byte for byte;
  when the entry fits but not the copy of the key, the entry is put in front all the same, with a NULL pointer as its key.
  \<open>hash_table_lookup\<close> returns NULL for the key in every case: its guard has the test of the key the wrong way round.
\<close>

theorem hash_table_insert_updates:
  assumes "table_ok h A T B bss" and "is_cstr k" and "load_ram (ram h) key (length k + 1) = k @ [0]" and "length k < 4294967200" and "key \<noteq> 0"
    and "{unat key..<unat key + length k + 1} \<subseteq> client A"
  shows "(case table_map bss k of
      Some w \<Rightarrow>
        \<exists>xs e p ys. bss ! key_index (length bss) k = xs @ (e, p, k, w) # ys \<and> hash_table_insert T key v h = Some (h\<lparr>ram := st32 (e + 4) v (ram h)\<rparr>) \<and>
          table_put h A T B bss k v (h\<lparr>ram := st32 (e + 4) v (ram h)\<rparr>) A (bss[key_index (length bss) k := xs @ (e, p, k, v) # ys])
    | None \<Rightarrow>
        (case a_alloc 16 (fst A) (snd A) of
           None \<Rightarrow> hash_table_insert T key v h = Some h
         | Some (q, bs1) \<Rightarrow>
             if fits (fst A, bs1) (of_nat (length k + 1)) then
               \<exists>h' A' e p. hash_table_insert T key v h = Some h' \<and>
                 table_put h A T B bss k v h' A' (bss[key_index (length bss) k := (e, p, k, v) # bss ! key_index (length bss) k]) \<and>
                 client A \<inter> ({unat e..<unat e + 12} \<union> {unat p..<unat p + length k + 1}) = {}
             else
               \<exists>h' e. hash_table_insert T key v h = Some h' \<and> e \<noteq> 0 \<and> ld32 (ram h') (B + of_nat (4 * key_index (length bss) k)) = e \<and>
                 ld32 (ram h') e = 0 \<and> ld32 (ram h') (e + 4) = v \<and> chain_at (ram h') (ld32 (ram h') (e + 8)) (bss ! key_index (length bss) k))) \<and>
    hash_table_lookup T key h' = Some 0"
  using table_insert_present [OF assms(1-5)] table_insert_absent [OF assms] table_insert_no_copy [OF assms] table_insert_full [OF assms(1-5)] assms(5)
  by (simp add: hash_table_lookup_def split: option.split prod.split)

lemma key_example: "is_cstr [97]"
  by (simp add: is_cstr_def)

text \<open>A table of one bucket and a key below the heap.\<close>

lemma one_bucket_example:
  "\<exists>h T B. table_ok h (4096, [(8, False), (8, False), (204, True)]) T B [[]] \<and> load_ram (ram h) 16 (length ([97] :: u8 list) + 1) = [97] @ [0]"
proof -
  let ?h = "small_heap\<lparr>ram := (ram small_heap)(of_nat 16 := 97)\<rparr>"
  have c: "16 \<in> client (4096, [(244, True)])" "17 \<in> client (4096, [(244, True)])"
    by (auto simp: client_def client_bytes_def)
  have ok: "heap_ok ?h (4096, [(244, True)])" by (rule heap_ok_write [OF small_heap_ok c(1)])
  have z: "ram ?h 16 = 97" "ram ?h 17 = 0"
    by (simp_all add: small_heap_def kheap_init_def set_blk_size_def set_blk_free_def set_blk_next_def st32_def)
  have a: "a_alloc 8 4096 [(244, True)] = Some (4108, [(8, False), (224, True)])"
    "a_alloc (unat (ALIGN (of_nat (4 * 1)))) 4096 [(8, False), (224, True)] = Some (4128, [(8, False), (8, False), (204, True)])"
    by (simp_all add: ALIGN_def ALIGNMENT_def)
  obtain h' T B where t: "table_ok h' (4096, [(8, False), (8, False), (204, True)]) T B (replicate 1 [])"
    "\<forall>x \<in> client (4096, [(244, True)]). ram h' (of_nat x) = ram ?h (of_nat x)"
    using table_create [OF ok a] by auto
  have "load_ram (ram h') 16 (length ([97] :: u8 list) + 1) = [97] @ [0]" using t(2) [THEN bspec, OF c(1)] t(2) [THEN bspec, OF c(2)] z by simp
  then show ?thesis using t(1) by auto
qed

text \<open>The entry of a new key in that table, and the room for it.\<close>

lemma one_bucket_room:
  "a_alloc 16 (fst (4096, [(8, False), (8, False), (204, True)])) (snd (4096, [(8, False), (8, False), (204, True)])) =
     Some (4148, [(8, False), (8, False), (16, False), (176, True)])"
  "fits (fst (4096, [(8, False), (8, False), (204, True)]), [(8, False), (8, False), (16, False), (176, True)]) (of_nat (length ([97] :: u8 list) + 1))"
  "{unat (16 :: u32)..<unat (16 :: u32) + length ([97] :: u8 list) + 1} \<subseteq> client (4096, [(8, False), (8, False), (204, True)])"
  "table_map [[]] [97] = None" "key_index (length ([[]] :: hash_entry list list)) [97] = 0"
  by (auto simp: fits_def ALIGN_def ALIGNMENT_def client_def client_bytes_def table_map_def key_index_def)

theorem hash_table_insert_updates_witness:
  "\<exists>h T B h' A' e p. table_ok h (4096, [(8, False), (8, False), (204, True)]) T B [[]] \<and> hash_table_insert T 16 7 h = Some h' \<and>
     table_put h (4096, [(8, False), (8, False), (204, True)]) T B [[]] [97] 7 h' A' [[(e, p, [97], 7)]] \<and> hash_table_lookup T 16 h' = Some 0"
proof -
  obtain h T B where t: "table_ok h (4096, [(8, False), (8, False), (204, True)]) T B [[]]" "load_ram (ram h) 16 (length ([97] :: u8 list) + 1) = [97] @ [0]"
    using one_bucket_example by blast
  have "\<exists>h' A' e p. hash_table_insert T 16 7 h = Some h' \<and>
      table_put h (4096, [(8, False), (8, False), (204, True)]) T B [[]] [97] 7 h' A' [[(e, p, [97], 7)]] \<and> hash_table_lookup T 16 h' = Some 0"
    using hash_table_insert_updates [OF t(1) key_example t(2) _ _ one_bucket_room(3), where v = 7] one_bucket_room(2)
    unfolding one_bucket_room(1,4,5) by (simp del: split_paired_Ex) blast
  then show ?thesis using t(1) by blast
qed

text \<open>
  C27: \<open>hash_table_remove\<close> takes the key out of the map and leaves every other key as it was: the entry leaves its
  bucket, from the front or from behind another entry, its two blocks go back to the heap, and nothing else outside the table
  changes. A key that is not in the table changes nothing at all.
\<close>

theorem hash_table_remove_deletes:
  assumes "table_ok h A T B bss" and "is_cstr k" and "load_ram (ram h) key (length k + 1) = k @ [0]" and "length k < 4294967296" and "key \<noteq> 0"
  shows "case table_map bss k of
      None \<Rightarrow> hash_table_remove T key h = Some h
    | Some v \<Rightarrow>
        \<exists>xs e p ys h' A' s u. bss ! key_index (length bss) k = xs @ (e, p, k, v) # ys \<and> hash_table_remove T key h = Some h' \<and>
          table_taken h A T B bss k h' A' (bss[key_index (length bss) k := xs @ ys]) [(e, s), (p, u)]"
  using table_remove [OF assms] by (simp split: option.split)

theorem hash_table_remove_deletes_witness:
  "\<exists>h A T B e p h' A' s u. table_ok h A T B [[(e, p, [97], 7)]] \<and> hash_table_remove T 16 h = Some h' \<and> table_ok h' A' T B [[]] \<and>
     live A (unat e) s \<and> live A (unat p) u \<and> client A' = client A - ({unat e..<unat e + s} \<union> {unat p..<unat p + u})"
proof -
  let ?A = "(4096 :: nat, [(8, False), (8, False), (204, True)])"
  obtain h T B where t: "table_ok h ?A T B [[]]" "load_ram (ram h) 16 (length ([97] :: u8 list) + 1) = [97] @ [0]" using one_bucket_example by blast
  obtain h1 A1 e p where i: "table_put h ?A T B [[]] [97] 7 h1 A1 [[(e, p, [97], 7)]]"
    using table_insert_absent [OF t(1) key_example t(2) _ _ one_bucket_room(3,4,1,2), where w = 7] unfolding one_bucket_room(5) by auto
  then have i: "table_ok h1 A1 T B [[(e, p, [97], 7)]]" "untouched h ?A h1 A1 (table_blocks T B 1 [])"
    by (simp_all add: table_put_def)
  have lo: "4096 \<le> unat b" if b: "(b, l) \<in> set (table_blocks T B 1 [])" for b l
  proof -
    have o: "owned ?A (table_blocks T B 1 [])" using table_ok_blocks(2) [OF t(1)] by simp
    obtain s where "live ?A (unat b) s" using owned_live [OF o b] by blast
    then show ?thesis by (auto simp: live_def)
  qed
  have "ram h1 (of_nat x) = ram h (of_nat x)" if "x \<in> {16, 17}" for x
  proof -
    have "x \<in> client ?A" using that by (auto simp: client_def client_bytes_def)
    moreover have "\<forall>(b, l) \<in> set (table_blocks T B 1 []). \<not> (unat b \<le> x \<and> x < unat b + l)" using lo that by fastforce
    ultimately show ?thesis using i(2) unfolding untouched_def by blast
  qed
  from this [of 16] this [of 17] have k: "load_ram (ram h1) 16 (length ([97] :: u8 list) + 1) = [97] @ [0]" using t(2) by simp
  have m: "table_map [[(e, p, [97], 7)]] [97] = Some 7" "key_index (length [[(e, p, [97 :: u8], 7 :: u32)]]) [97] = 0" by (simp_all add: table_map_def key_index_def)
  obtain xs e' p' ys h2 A2 s u where r: "[[(e, p, [97], 7)]] ! 0 = xs @ (e', p', [97], 7) # ys" "hash_table_remove T 16 h1 = Some h2"
    "table_taken h1 A1 T B [[(e, p, [97], 7)]] [97] h2 A2 ([[(e, p, [97], 7)]][0 := xs @ ys]) [(e', s), (p', u)]"
    using hash_table_remove_deletes [OF i(1) key_example k] unfolding m by auto
  then have "xs = []" "ys = []" "e' = e" "p' = p" by (auto simp: Cons_eq_append_conv)
  with r(3) have "table_ok h2 A2 T B [[]]" "live A1 (unat e) s" "live A1 (unat p) u" "client A2 = client A1 - ({unat e..<unat e + s} \<union> {unat p..<unat p + u})"
    by (simp_all add: table_taken_def)
  then show ?thesis using i(1) r(2) by blast
qed

end
