(* ===== verification/Ports.thy ===== *)
theory Ports
  imports Prelude
begin

text \<open>
  The port instructions of \<open>src/kernel/drivers/io.h\<close>, which are assembly, as arguments of the drivers: an access takes the device
  to its next state. The low 16 bits of an address name the port.
\<close>

record 'd ports =
  inb :: "u16 \<Rightarrow> 'd \<Rightarrow> u8 \<times> 'd"
  outb :: "u16 \<Rightarrow> u8 \<Rightarrow> 'd \<Rightarrow> 'd"
  inw :: "u16 \<Rightarrow> 'd \<Rightarrow> u16 \<times> 'd"
  outw :: "u16 \<Rightarrow> u16 \<Rightarrow> 'd \<Rightarrow> 'd"
  outl :: "u16 \<Rightarrow> u32 \<Rightarrow> 'd \<Rightarrow> 'd"

definition port :: "u32 \<Rightarrow> u32 \<Rightarrow> u16" where
  "port io_base offset = ucast (io_base + offset)"

end
