(* ===== verification/Ata.thy ===== *)
theory Ata
  imports Disk Ports
begin

text \<open>
  The ATA driver \<open>src/kernel/fs/ata.c\<close> at its ports: the register writes in their order, the polls of the status register, and
  the words that go through the data port. The drive behind the ports is an argument;
  what the driver relies on is the locale \<open>ata_device\<close>. \<open>None\<close> stands for a poll that never ends.
\<close>

unbundle bit_operations_syntax

section \<open>Operations\<close>

definition ATA_DATA :: u16 where "ATA_DATA = 0x1F0"
definition ATA_SECTOR_CNT :: u16 where "ATA_SECTOR_CNT = 0x1F2"
definition ATA_LBA_LOW :: u16 where "ATA_LBA_LOW = 0x1F3"
definition ATA_LBA_MID :: u16 where "ATA_LBA_MID = 0x1F4"
definition ATA_LBA_HIGH :: u16 where "ATA_LBA_HIGH = 0x1F5"
definition ATA_DRIVE :: u16 where "ATA_DRIVE = 0x1F6"
definition ATA_CMD :: u16 where "ATA_CMD = 0x1F7"
definition ATA_STATUS :: u16 where "ATA_STATUS = 0x1F7"

partial_function (option) ata_wait :: "'d ports \<Rightarrow> 'd \<Rightarrow> 'd option" where
  "ata_wait io d =
     (let (status, d) = inb io ATA_STATUS d in if status AND 0x80 \<noteq> 0 then ata_wait io d else Some d)"

partial_function (option) ata_wait_drq :: "'d ports \<Rightarrow> 'd \<Rightarrow> 'd option" where
  "ata_wait_drq io d =
     (let (status, d) = inb io ATA_STATUS d in if status AND 0x08 = 0 then ata_wait_drq io d else Some d)"

definition ata_command :: "'d ports \<Rightarrow> u8 \<Rightarrow> u32 \<Rightarrow> 'd \<Rightarrow> 'd" where
  "ata_command io cmd lba d =
     (let d = outb io ATA_DRIVE (ucast (0xE0 OR (drop_bit 24 lba AND 0x0F))) d;
          d = outb io ATA_SECTOR_CNT 1 d;
          d = outb io ATA_LBA_LOW (ucast lba) d;
          d = outb io ATA_LBA_MID (ucast (drop_bit 8 lba)) d;
          d = outb io ATA_LBA_HIGH (ucast (drop_bit 16 lba)) d
      in outb io ATA_CMD cmd d)"

fun read_words :: "'d ports \<Rightarrow> nat \<Rightarrow> 'd \<Rightarrow> u16 list \<times> 'd" where
  "read_words io 0 d = ([], d)"
| "read_words io (Suc n) d = (let (v, d) = inw io ATA_DATA d; (vs, d) = read_words io n d in (v # vs, d))"

definition read_sector_io :: "'d ports \<Rightarrow> u32 \<Rightarrow> 'd \<Rightarrow> (u8 list \<times> 'd) option" where
  "read_sector_io io lba d =
     Option.bind (ata_wait io d)
       (\<lambda>d. map_option (\<lambda>d. let (ws, d) = read_words io 256 d in (concat (map bytes16 ws), d))
          (ata_wait io (ata_command io 0x20 lba d)))"

text \<open>\<open>ata_write_sector\<close> up to its last data word, and with the flush that follows it at once.\<close>

definition write_words_io :: "'d ports \<Rightarrow> u32 \<Rightarrow> u8 list \<Rightarrow> 'd \<Rightarrow> 'd option" where
  "write_words_io io lba buffer d =
     Option.bind (ata_wait io d)
       (\<lambda>d. map_option (fold (\<lambda>i d. outw io ATA_DATA (load16 buffer (2 * i)) d) [0..<256])
          (ata_wait_drq io (ata_command io 0x30 lba d)))"

definition write_sector_io :: "'d ports \<Rightarrow> u32 \<Rightarrow> u8 list \<Rightarrow> 'd \<Rightarrow> 'd option" where
  "write_sector_io io lba buffer d =
     Option.bind (write_words_io io lba buffer d) (\<lambda>d. ata_wait io (outb io ATA_CMD 0xE7 d))"

section \<open>The drive\<close>

text \<open>What the drive is doing: nothing, handing out the words of a sector from the \<open>i\<close>th on, taking in the words of a sector.\<close>

datatype phase = Idle | Reading u32 nat | Writing u32 "u16 list"

definition set_reg :: "u16 \<Rightarrow> u8 \<Rightarrow> ata_regs \<Rightarrow> ata_regs" where
  "set_reg p v r =
     (if p = ATA_DRIVE then r\<lparr>ata_drive := v\<rparr> else if p = ATA_SECTOR_CNT then r\<lparr>ata_sector_cnt := v\<rparr>
      else if p = ATA_LBA_LOW then r\<lparr>ata_lba_low := v\<rparr> else if p = ATA_LBA_MID then r\<lparr>ata_lba_mid := v\<rparr>
      else if p = ATA_LBA_HIGH then r\<lparr>ata_lba_high := v\<rparr> else r)"

definition put_sector :: "u32 \<Rightarrow> u16 list \<Rightarrow> disk \<Rightarrow> disk" where
  "put_sector s ws m = m(s := (\<lambda>i. if i < 256 then ws ! i else m s i))"

text \<open>
  The protocol of the PIO commands, for one drive: a status read reports busy for a finite time, \<open>delay\<close>, from the command on (the
  driver does not leave the drive the 400 ns that the standard gives it to do so), and then the data request exactly while a sector is
  handed out or taken in; registers and commands can be written when the drive is not busy, and what a drive does with a command
  that is written while it is busy is left open, as the standard leaves it; a command starts a phase, except for a sector in \<open>bad\<close>, for
  which the drive ends the command with an error, without data; the flush command changes no data.
\<close>

locale ata_device =
  fixes io :: "'d ports"
    and media :: "'d \<Rightarrow> disk"
    and regs :: "'d \<Rightarrow> ata_regs"
    and phase_of :: "'d \<Rightarrow> phase"
    and delay :: "'d \<Rightarrow> nat"
    and bad :: "u32 set"
  assumes status: "inb io ATA_STATUS d = (v, d') \<Longrightarrow> media d' = media d \<and> regs d' = regs d \<and> phase_of d' = phase_of d \<and>
      (if delay d = 0 then v AND 0x80 = 0 \<and> (v AND 0x08 \<noteq> 0 \<longleftrightarrow> phase_of d \<noteq> Idle) \<and> delay d' = 0
       else v AND 0x80 \<noteq> 0 \<and> v AND 0x08 = 0 \<and> delay d = Suc (delay d'))"
    and register: "phase_of d = Idle \<Longrightarrow> delay d = 0 \<Longrightarrow> p \<in> {ATA_DRIVE, ATA_SECTOR_CNT, ATA_LBA_LOW, ATA_LBA_MID, ATA_LBA_HIGH} \<Longrightarrow>
      media (outb io p v d) = media d \<and> regs (outb io p v d) = set_reg p v (regs d) \<and> phase_of (outb io p v d) = Idle \<and> delay (outb io p v d) = 0"
    and read_command: "phase_of d = Idle \<Longrightarrow> delay d = 0 \<Longrightarrow>
      media (outb io ATA_CMD 0x20 d) = media d \<and> 
      phase_of (outb io ATA_CMD 0x20 d) = (if ata_selected (regs d) \<in> bad then Idle else Reading (ata_selected (regs d)) 0)"
    and write_command: "phase_of d = Idle \<Longrightarrow> delay d = 0 \<Longrightarrow>
      media (outb io ATA_CMD 0x30 d) = media d \<and> 
      phase_of (outb io ATA_CMD 0x30 d) = (if ata_selected (regs d) \<in> bad then Idle else Writing (ata_selected (regs d)) [])"
    and flush_command: "phase_of d = Idle \<Longrightarrow> delay d = 0 \<Longrightarrow> media (outb io ATA_CMD 0xE7 d) = media d \<and> phase_of (outb io ATA_CMD 0xE7 d) = Idle"
    and no_data: "phase_of d = Idle \<Longrightarrow> delay d = 0 \<Longrightarrow> inw io ATA_DATA d = (w, d') \<Longrightarrow> media d' = media d \<and> phase_of d' = Idle \<and> delay d' = 0"
    and data_in: "phase_of d = Reading s i \<Longrightarrow> delay d = 0 \<Longrightarrow> i < 256 \<Longrightarrow> inw io ATA_DATA d = (w, d') \<Longrightarrow>
      w = media d s i \<and> media d' = media d \<and> phase_of d' = (if i = 255 then Idle else Reading s (Suc i)) \<and> delay d' = 0"
    and data_out: "phase_of d = Writing s ws \<Longrightarrow> delay d = 0 \<Longrightarrow> length ws < 256 \<Longrightarrow>
      (if length ws = 255 then media (outw io ATA_DATA w d) = put_sector s (ws @ [w]) (media d) \<and> phase_of (outw io ATA_DATA w d) = Idle
       else media (outw io ATA_DATA w d) = media d \<and> phase_of (outw io ATA_DATA w d) = Writing s (ws @ [w]) \<and> delay (outw io ATA_DATA w d) = 0)"
begin

lemma wait_ready:
  "\<exists>d'. ata_wait io d = Some d' \<and> media d' = media d \<and> regs d' = regs d \<and> phase_of d' = phase_of d \<and> delay d' = 0"
proof (induction "delay d" arbitrary: d)
  case 0
  obtain v d' where s: "inb io ATA_STATUS d = (v, d')" by fastforce
  show ?case using status [OF s] 0 by (subst ata_wait.simps) (simp add: s)
next
  case (Suc n)
  obtain v d' where s: "inb io ATA_STATUS d = (v, d')" by fastforce
  have d': "n = delay d'" "v AND 0x80 \<noteq> 0" "media d' = media d" "regs d' = regs d" "phase_of d' = phase_of d"
    using status [OF s] Suc.hyps(2) by (auto split: if_splits)
  from Suc.hyps(1) [OF d'(1)] show ?case using d'(2-5) by (subst ata_wait.simps) (simp add: s)
qed

lemma wait_drq:
  "phase_of d \<noteq> Idle \<Longrightarrow> \<exists>d'. ata_wait_drq io d = Some d' \<and> media d' = media d \<and> phase_of d' = phase_of d \<and> delay d' = 0"
proof (induction "delay d" arbitrary: d)
  case 0
  obtain v d' where s: "inb io ATA_STATUS d = (v, d')" by fastforce
  show ?case using status [OF s] 0 by (subst ata_wait_drq.simps) (simp add: s)
next
  case (Suc n)
  obtain v d' where s: "inb io ATA_STATUS d = (v, d')" by fastforce
  have d': "n = delay d'" "v AND 0x08 = 0" "media d' = media d" "phase_of d' = phase_of d"
    using status [OF s] Suc.hyps(2) by (auto split: if_splits)
  have "phase_of d' \<noteq> Idle" using Suc.prems d'(4) by simp
  from Suc.hyps(1) [OF d'(1) this] show ?case using d'(2-4) by (subst ata_wait_drq.simps) (simp add: s)
qed

text \<open>A drive that has ended the command never asks for data.\<close>

lemma drq_never: "phase_of d = Idle \<Longrightarrow> ata_wait_drq io d = None"
proof -
  let ?P = "\<lambda>i (d :: 'd) (d' :: 'd). i = io \<longrightarrow> phase_of d = Idle \<longrightarrow> False"
  have step: "?P i d d'"
    if ih: "\<And>i d d'. wait i d = Some d' \<Longrightarrow> ?P i d d'"
      and eq: "(let (status, d) = inb i ATA_STATUS d in if status AND 0x08 = 0 then wait i d else Some d) = Some d'"
    for wait i d d'
  proof (intro impI)
    assume c: "i = io" "phase_of d = Idle"
    obtain v d1 where s: "inb io ATA_STATUS d = (v, d1)" by fastforce
    have "v AND 0x08 = 0" "phase_of d1 = Idle" using status [OF s] c(2) by (auto split: if_splits)
    then have "wait i d1 = Some d'" "phase_of d1 = Idle" using eq c(1) s by simp_all
    from ih [OF this(1)] this(2) c(1) show False by blast
  qed
  have "ata_wait_drq i d = Some d' \<Longrightarrow> ?P i d d'" for i d d'
    by (rule ata_wait_drq.raw_induct [of ?P]) (rule step)
  then show "phase_of d = Idle \<Longrightarrow> ata_wait_drq io d = None" by (cases "ata_wait_drq io d") auto
qed

text \<open>The drive selects the sector of the register bytes.\<close>

lemma registers:
  assumes "phase_of d = Idle" and "delay d = 0"
  shows "\<exists>d'. ata_command io cmd lba d = outb io ATA_CMD cmd d' \<and> media d' = media d \<and> phase_of d' = Idle \<and> delay d' = 0 \<and>
    ata_selected (regs d') = lba AND 0x0FFFFFFF"
proof -
  define d1 where "d1 = outb io ATA_DRIVE (ucast (0xE0 OR (drop_bit 24 lba AND 0x0F))) d"
  define d2 where "d2 = outb io ATA_SECTOR_CNT 1 d1"
  define d3 where "d3 = outb io ATA_LBA_LOW (ucast lba) d2"
  define d4 where "d4 = outb io ATA_LBA_MID (ucast (drop_bit 8 lba)) d3"
  define d5 where "d5 = outb io ATA_LBA_HIGH (ucast (drop_bit 16 lba)) d4"
  note r1 = register [OF assms, of ATA_DRIVE "ucast (0xE0 OR (drop_bit 24 lba AND 0x0F))", folded d1_def, simplified]
  note r2 = register [of d1 ATA_SECTOR_CNT 1, folded d2_def, simplified]
  note r3 = register [of d2 ATA_LBA_LOW "ucast lba", folded d3_def, simplified]
  note r4 = register [of d3 ATA_LBA_MID "ucast (drop_bit 8 lba)", folded d4_def, simplified]
  note r5 = register [of d4 ATA_LBA_HIGH "ucast (drop_bit 16 lba)", folded d5_def, simplified]
  have "ata_command io cmd lba d = outb io ATA_CMD cmd d5"
    by (simp add: ata_command_def Let_def d1_def d2_def d3_def d4_def d5_def)
  moreover have "media d5 = media d" "phase_of d5 = Idle" "delay d5 = 0" using r1 r2 r3 r4 r5 by simp_all
  moreover have "ata_selected (regs d5) = lba AND 0x0FFFFFFF"
    using r1 r2 r3 r4 r5 unfolding ata_selected_eq [of cmd, symmetric]
    by (simp add: set_reg_def ata_selected_def ata_setup_def ATA_DRIVE_def ATA_SECTOR_CNT_def ATA_LBA_LOW_def ATA_LBA_MID_def ATA_LBA_HIGH_def)
  ultimately show ?thesis by blast
qed

lemma words_in:
  "phase_of d = Reading s i \<Longrightarrow> delay d = 0 \<Longrightarrow> i + n = 256 \<Longrightarrow> 0 < n \<Longrightarrow>
   \<exists>d'. read_words io n d = (map (media d s) [i..<256], d') \<and> media d' = media d \<and> phase_of d' = Idle"
proof (induction n arbitrary: i d)
  case (Suc n)
  obtain v d1 where s: "inw io ATA_DATA d = (v, d1)" by fastforce
  have i: "i < 256" using Suc.prems(3) by simp
  have d1: "v = media d s i" "media d1 = media d" "phase_of d1 = (if i = 255 then Idle else Reading s (Suc i))" "delay d1 = 0"
    using data_in [OF Suc.prems(1,2) i s] by auto
  show ?case
  proof (cases "n = 0")
    case True
    then show ?thesis using d1 s Suc.prems(3) by (simp add: upt_rec)
  next
    case False
    then have "phase_of d1 = Reading s (Suc i)" "Suc i + n = 256" "0 < n" using d1(3) Suc.prems(3) by auto
    from Suc.IH [OF this(1) d1(4) this(2,3)] show ?thesis using d1 s i by (auto simp: upt_conv_Cons)
  qed
qed simp

lemma no_words:
  "phase_of d = Idle \<Longrightarrow> delay d = 0 \<Longrightarrow> \<exists>ws d'. read_words io n d = (ws, d') \<and> length ws = n \<and> media d' = media d \<and> phase_of d' = Idle"
proof (induction n arbitrary: d)
  case (Suc n)
  obtain v d1 where s: "inw io ATA_DATA d = (v, d1)" by fastforce
  have d1: "media d1 = media d" "phase_of d1 = Idle" "delay d1 = 0" using no_data [OF Suc.prems s] by simp_all
  from Suc.IH [OF d1(2,3)] show ?case using d1(1) s by auto
qed simp

lemma words_out:
  "phase_of d = Writing s (map f [0..<i]) \<Longrightarrow> delay d = 0 \<Longrightarrow> i < 256 \<Longrightarrow>
   media (fold (\<lambda>i. outw io ATA_DATA (f i)) [i..<256] d) = put_sector s (map f [0..<256]) (media d) \<and>
   phase_of (fold (\<lambda>i. outw io ATA_DATA (f i)) [i..<256] d) = Idle"
proof (induction "255 - i" arbitrary: i d)
  case 0
  then have i: "i = 255" "256 = Suc i" using "0.prems"(3) by simp_all
  have u: "[i..<256] = [i]" "map f [0..<256] = map f [0..<i] @ [f i]" unfolding i(2) by simp_all
  have "length (map f [0..<i]) = 255" using i(1) by simp
  then show ?case unfolding u using data_out [OF "0.prems"(1,2), of "f i"] by simp
next
  case (Suc n)
  let ?d = "outw io ATA_DATA (f i) d"
  have i: "i < 255" using Suc.hyps(2) by simp
  have d: "media ?d = media d" "phase_of ?d = Writing s (map f [0..<Suc i])" "delay ?d = 0"
    using data_out [OF Suc.prems(1,2), of "f i"] i by simp_all
  have "n = 255 - Suc i" "Suc i < 256" using Suc.hyps(2) i by simp_all
  note ih = Suc.hyps(1) [OF this(1) d(2,3) this(2)]
  have "[i..<256] = i # [Suc i..<256]" by (rule upt_conv_Cons) (use i in simp)
  then have "fold (\<lambda>i. outw io ATA_DATA (f i)) [i..<256] d = fold (\<lambda>i. outw io ATA_DATA (f i)) [Suc i..<256] ?d" by (simp del: upt_rec_numeral)
  then show ?case using ih d(1) by metis
qed

lemma reads:
  assumes "phase_of d = Idle"
  shows "if lba AND 0x0FFFFFFF \<in> bad then \<exists>bs d'. read_sector_io io lba d = Some (bs, d') \<and> length bs = 512 \<and> media d' = media d \<and> phase_of d' = Idle
    else \<exists>d'. read_sector_io io lba d = Some (ata_read_sector (media d) lba, d') \<and> media d' = media d \<and> phase_of d' = Idle"
proof -
  obtain d1 where d1: "ata_wait io d = Some d1" "media d1 = media d" "phase_of d1 = Idle" "delay d1 = 0" using wait_ready assms by metis
  let ?s = "lba AND 0x0FFFFFFF"
  obtain d2 where d2: "ata_command io 0x20 lba d1 = outb io ATA_CMD 0x20 d2" "media d2 = media d1" "phase_of d2 = Idle" "delay d2 = 0"
    "ata_selected (regs d2) = ?s" using registers [OF d1(3,4)] by blast
  have d3: "media (outb io ATA_CMD 0x20 d2) = media d" "phase_of (outb io ATA_CMD 0x20 d2) = (if ?s \<in> bad then Idle else Reading ?s 0)"
    using read_command [OF d2(3,4)] d1(2) d2(2,5) by simp_all
  obtain d4 where d4: "ata_wait io (outb io ATA_CMD 0x20 d2) = Some d4" "media d4 = media d" "phase_of d4 = (if ?s \<in> bad then Idle else Reading ?s 0)" "delay d4 = 0"
    using wait_ready d3 by metis
  show ?thesis
  proof (cases "?s \<in> bad")
    case True
    then have i: "phase_of d4 = Idle" using d4(3) by simp
    obtain ws d5 where d5: "read_words io 256 d4 = (ws, d5)" "length ws = 256" "media d5 = media d" "phase_of d5 = Idle"
      using no_words [OF i d4(4)] d4(2) by metis
    have "length (concat (map bytes16 ws)) = 512" using d5(2) by (simp add: length_concat comp_def bytes16_def sum_list_triv)
    then show ?thesis using True d1(1) d2(1) d4(1) d5 by (simp add: read_sector_io_def)
  next
    case False
    then have i: "phase_of d4 = Reading ?s 0" using d4(3) by simp
    obtain d5 where d5: "read_words io 256 d4 = (map (media d ?s) [0..<256], d5)" "media d5 = media d" "phase_of d5 = Idle"
      using words_in [OF i d4(4), of 256] d4(2) by (auto simp del: upt_rec_numeral)
    show ?thesis using False d1(1) d2(1) d4(1) d5 by (simp add: read_sector_io_def ata_read_sector_def ata_selected_eq comp_def del: upt_rec_numeral)
  qed
qed

lemma writes:
  assumes "phase_of d = Idle"
  shows "if lba AND 0x0FFFFFFF \<in> bad then write_sector_io io lba buffer d = None
    else \<exists>d1. write_words_io io lba buffer d = Some d1 \<and> media d1 = ata_write_sector (media d) lba buffer \<and> phase_of d1 = Idle \<and>
      (delay d1 = 0 \<longrightarrow> (\<exists>d'. write_sector_io io lba buffer d = Some d' \<and> media d' = media d1 \<and> phase_of d' = Idle))"
proof -
  obtain d1 where d1: "ata_wait io d = Some d1" "media d1 = media d" "phase_of d1 = Idle" "delay d1 = 0" using wait_ready assms by metis
  let ?s = "lba AND 0x0FFFFFFF" and ?f = "\<lambda>i. load16 buffer (2 * i)"
  obtain d2 where d2: "ata_command io 0x30 lba d1 = outb io ATA_CMD 0x30 d2" "media d2 = media d1" "phase_of d2 = Idle" "delay d2 = 0"
    "ata_selected (regs d2) = ?s" using registers [OF d1(3,4)] by blast
  have d3: "media (outb io ATA_CMD 0x30 d2) = media d" "phase_of (outb io ATA_CMD 0x30 d2) = (if ?s \<in> bad then Idle else Writing ?s [])"
    using write_command [OF d2(3,4)] d1(2) d2(2,5) by simp_all
  show ?thesis
  proof (cases "?s \<in> bad")
    case True
    then have "ata_wait_drq io (outb io ATA_CMD 0x30 d2) = None" using drq_never d3(2) by simp
    then show ?thesis using True d1(1) d2(1) by (simp add: write_sector_io_def write_words_io_def)
  next
    case False
    then have w: "phase_of (outb io ATA_CMD 0x30 d2) = Writing ?s []" using d3(2) by simp
    obtain d4 where d4: "ata_wait_drq io (outb io ATA_CMD 0x30 d2) = Some d4" "media d4 = media d" "phase_of d4 = Writing ?s []" "delay d4 = 0"
      using wait_drq [of "outb io ATA_CMD 0x30 d2"] d3(1) w by auto
    define d5 where "d5 = fold (\<lambda>i. outw io ATA_DATA (?f i)) [0..<256] d4"
    have d5: "media d5 = put_sector ?s (map ?f [0..<256]) (media d)" "phase_of d5 = Idle"
      using words_out [of d4 ?s ?f 0] d4(2-4) by (simp_all add: d5_def del: upt_rec_numeral)
    have "put_sector ?s (map ?f [0..<256]) (media d) = ata_write_sector (media d) lba buffer"
      by (simp add: put_sector_def ata_write_sector_def ata_selected_eq fun_eq_iff del: upt_rec_numeral)
    then have m: "media d5 = ata_write_sector (media d) lba buffer" using d5(1) by simp
    have run: "write_words_io io lba buffer d = Some d5"
      using d1(1) d2(1) d4(1) by (simp add: write_words_io_def d5_def del: upt_rec_numeral)
    have "\<exists>d'. write_sector_io io lba buffer d = Some d' \<and> media d' = media d5 \<and> phase_of d' = Idle" if z: "delay d5 = 0"
    proof -
      obtain d6 where "ata_wait io (outb io ATA_CMD 0xE7 d5) = Some d6" "media d6 = media d5" "phase_of d6 = Idle"
        using wait_ready flush_command [OF d5(2) z] by metis
      then show ?thesis using run by (simp add: write_sector_io_def)
    qed
    then show ?thesis using False run m d5(2) by auto
  qed
qed

end

section \<open>A drive\<close>

text \<open>
  A machine that follows the protocol; \<open>d_lags\<close> are the numbers of polls it will keep the driver waiting. A command
  that is written while it is busy makes it drop the write it is busy with: \<open>d_undo\<close> are the data without it.
\<close>

record drive =
  d_media :: disk
  d_regs :: ata_regs
  d_phase :: phase
  d_delay :: nat
  d_lags :: "nat list"
  d_undo :: disk

definition drive_bad :: "u32 set" where
  "drive_bad = {13}"

definition lag :: "drive \<Rightarrow> drive" where
  "lag d = d\<lparr>d_delay := (if d_lags d = [] then 0 else hd (d_lags d)), d_lags := tl (d_lags d)\<rparr>"

definition drive_inb :: "u16 \<Rightarrow> drive \<Rightarrow> u8 \<times> drive" where
  "drive_inb p d =
     (if p \<noteq> ATA_STATUS then (0, d)
      else if d_delay d \<noteq> 0 then (0x80, d\<lparr>d_delay := d_delay d - 1\<rparr>)
      else (if d_phase d = Idle then 0x40 else 0x48, d))"

definition drive_outb :: "u16 \<Rightarrow> u8 \<Rightarrow> drive \<Rightarrow> drive" where
  "drive_outb p v d =
     (if d_delay d \<noteq> 0 then (if p = ATA_CMD then d\<lparr>d_media := d_undo d\<rparr> else d)
      else if d_phase d \<noteq> Idle then d
      else if p \<noteq> ATA_CMD then d\<lparr>d_regs := set_reg p v (d_regs d)\<rparr>
      else if v = 0xE7 then lag d
      else if ata_selected (d_regs d) \<in> drive_bad then lag d
      else if v = 0x20 then lag (d\<lparr>d_phase := Reading (ata_selected (d_regs d)) 0\<rparr>)
      else if v = 0x30 then lag (d\<lparr>d_phase := Writing (ata_selected (d_regs d)) []\<rparr>)
      else d)"

definition drive_inw :: "u16 \<Rightarrow> drive \<Rightarrow> u16 \<times> drive" where
  "drive_inw p d =
     (case d_phase d of
        Reading s i \<Rightarrow>
          if p = ATA_DATA \<and> d_delay d = 0 then (d_media d s i, d\<lparr>d_phase := (if i = 255 then Idle else Reading s (Suc i))\<rparr>)
          else (0, d)
      | _ \<Rightarrow> (0, d))"

definition drive_outw :: "u16 \<Rightarrow> u16 \<Rightarrow> drive \<Rightarrow> drive" where
  "drive_outw p v d =
     (case d_phase d of
        Writing s ws \<Rightarrow>
          if p = ATA_DATA \<and> d_delay d = 0 then
            (if length ws = 255 then lag (d\<lparr>d_phase := Idle, d_undo := d_media d, d_media := put_sector s (ws @ [v]) (d_media d)\<rparr>)
             else d\<lparr>d_phase := Writing s (ws @ [v])\<rparr>)
          else d
      | _ \<Rightarrow> d)"

definition drive_ports :: "drive ports" where
  "drive_ports = \<lparr>inb = drive_inb, outb = drive_outb, inw = drive_inw, outw = drive_outw, outl = \<lambda>_ _ d. d\<rparr>"

lemma lag_simps [simp]: "d_media (lag d) = d_media d" "d_phase (lag d) = d_phase d" "d_regs (lag d) = d_regs d" "d_undo (lag d) = d_undo d"
  by (simp_all add: lag_def)

interpretation drive_device: ata_device drive_ports d_media d_regs d_phase d_delay drive_bad
proof unfold_locales
  fix d :: drive and v d'
  assume "inb drive_ports ATA_STATUS d = (v, d')"
  then show "d_media d' = d_media d \<and> d_regs d' = d_regs d \<and> d_phase d' = d_phase d \<and>
      (if d_delay d = 0 then v AND 0x80 = 0 \<and> (v AND 0x08 \<noteq> 0 \<longleftrightarrow> d_phase d \<noteq> Idle) \<and> d_delay d' = 0
       else v AND 0x80 \<noteq> 0 \<and> v AND 0x08 = 0 \<and> d_delay d = Suc (d_delay d'))"
    by (auto simp: drive_ports_def drive_inb_def split: if_splits)
qed (auto simp: drive_ports_def drive_outb_def drive_inw_def drive_outw_def ATA_DRIVE_def ATA_SECTOR_CNT_def ATA_LBA_LOW_def
    ATA_LBA_MID_def ATA_LBA_HIGH_def ATA_CMD_def split: if_splits)

text \<open>
  The words of a sector go into this drive, which then keeps the driver waiting; the flush that the driver writes without waiting
  drops the sector.
\<close>

lemma drive_words_out:
  "d_phase d = Writing s (map f [0..<i]) \<Longrightarrow> d_delay d = 0 \<Longrightarrow> i < 256 \<Longrightarrow>
   d_phase (fold (\<lambda>i. drive_outw ATA_DATA (f i)) [i..<256] d) = Idle \<and> d_undo (fold (\<lambda>i. drive_outw ATA_DATA (f i)) [i..<256] d) = d_media d \<and>
   d_delay (fold (\<lambda>i. drive_outw ATA_DATA (f i)) [i..<256] d) = (if d_lags d = [] then 0 else hd (d_lags d))"
proof (induction "255 - i" arbitrary: i d)
  case 0
  then have i: "i = 255" "256 = Suc i" using "0.prems"(3) by simp_all
  have u: "[i..<256] = [i]" unfolding i(2) by simp
  show ?case unfolding u using "0.prems"(1,2) i(1) by (simp add: drive_outw_def) (simp add: lag_def)
next
  case (Suc n)
  let ?d = "drive_outw ATA_DATA (f i) d"
  have i: "i < 255" using Suc.hyps(2) by simp
  have d: "d_media ?d = d_media d" "d_phase ?d = Writing s (map f [0..<Suc i])" "d_delay ?d = 0" "d_lags ?d = d_lags d"
    using Suc.prems(1,2) i by (simp_all add: drive_outw_def)
  have "n = 255 - Suc i" "Suc i < 256" using Suc.hyps(2) i by simp_all
  note ih = Suc.hyps(1) [OF this(1) d(2,3) this(2)]
  have "[i..<256] = i # [Suc i..<256]" by (rule upt_conv_Cons) (use i in simp)
  then have "fold (\<lambda>i. drive_outw ATA_DATA (f i)) [i..<256] d = fold (\<lambda>i. drive_outw ATA_DATA (f i)) [Suc i..<256] ?d" by (simp del: upt_rec_numeral)
  then show ?case using ih d(1,4) by metis
qed

lemma flush_while_busy_loses_sector:
  assumes d: "d_phase d = Idle" "d_delay d = 0" "d_lags d = [0, 1]" and lba: "lba AND 0x0FFFFFFF \<notin> drive_bad"
  shows "\<exists>d'. write_sector_io drive_ports lba buffer d = Some d' \<and> d_media d' = d_media d"
proof -
  define c where "c = ata_command drive_ports 0x30 lba d"
  have c: "d_phase c = Writing (lba AND 0x0FFFFFFF) []" "d_delay c = 0" "d_lags c = [1]" "d_media c = d_media d"
  proof -
    have p: "ATA_DRIVE \<noteq> ATA_CMD" "ATA_SECTOR_CNT \<noteq> ATA_CMD" "ATA_LBA_LOW \<noteq> ATA_CMD" "ATA_LBA_MID \<noteq> ATA_CMD" "ATA_LBA_HIGH \<noteq> ATA_CMD"
      by (simp_all add: ATA_DRIVE_def ATA_SECTOR_CNT_def ATA_LBA_LOW_def ATA_LBA_MID_def ATA_LBA_HIGH_def ATA_CMD_def)
    obtain d2 where d2: "c = outb drive_ports ATA_CMD 0x30 d2" "d_phase d2 = Idle" "d_delay d2 = 0" "ata_selected (d_regs d2) = lba AND 0x0FFFFFFF"
      "d_lags d2 = [0, 1]" "d_media d2 = d_media d"
    proof -
      let ?d = "d\<lparr>d_regs := set_reg ATA_LBA_HIGH (ucast (drop_bit 16 lba)) (set_reg ATA_LBA_MID (ucast (drop_bit 8 lba)) (set_reg ATA_LBA_LOW (ucast lba)
        (set_reg ATA_SECTOR_CNT 1 (set_reg ATA_DRIVE (ucast (0xE0 OR (drop_bit 24 lba AND 0x0F))) (d_regs d)))))\<rparr>"
      have reg: "outb drive_ports q v x = x\<lparr>d_regs := set_reg q v (d_regs x)\<rparr>" if "d_phase x = Idle" "d_delay x = 0" "q \<noteq> ATA_CMD" for q v x
        using that by (simp add: drive_ports_def drive_outb_def)
      have "c = outb drive_ports ATA_CMD 0x30 ?d" using d p by (simp add: c_def ata_command_def reg Let_def)
      moreover have "ata_selected (d_regs ?d) = lba AND 0x0FFFFFFF"
        unfolding ata_selected_eq [of "0x30", symmetric]
        by (simp add: set_reg_def ata_selected_def ata_setup_def ATA_DRIVE_def ATA_SECTOR_CNT_def ATA_LBA_LOW_def ATA_LBA_MID_def ATA_LBA_HIGH_def)
      ultimately show ?thesis using d by (intro that [of ?d]) simp_all
    qed
    then show "d_phase c = Writing (lba AND 0x0FFFFFFF) []" "d_delay c = 0" "d_lags c = [1]" "d_media c = d_media d"
      using lba by (simp_all add: drive_ports_def drive_outb_def) (simp_all add: lag_def)
  qed
  define e where "e = fold (\<lambda>i. drive_outw ATA_DATA (load16 buffer (2 * i))) [0..<256] c"
  have e: "d_phase e = Idle" "d_undo e = d_media d" "d_delay e = 1"
    using drive_words_out [of c "lba AND 0x0FFFFFFF" "\<lambda>i. load16 buffer (2 * i)" 0] c by (simp_all add: e_def del: upt_rec_numeral)
  have "ata_wait drive_ports d = Some d" using d by (subst ata_wait.simps) (simp add: drive_ports_def drive_inb_def)
  moreover have "ata_wait_drq drive_ports c = Some c" using c by (subst ata_wait_drq.simps) (simp add: drive_ports_def drive_inb_def)
  ultimately have "write_words_io drive_ports lba buffer d = Some e"
    by (simp add: write_words_io_def e_def drive_ports_def del: upt_rec_numeral flip: c_def [unfolded drive_ports_def])
  moreover have "outb drive_ports ATA_CMD 0xE7 e = e\<lparr>d_media := d_media d\<rparr>" using e by (simp add: drive_ports_def drive_outb_def)
  moreover obtain d' where "ata_wait drive_ports (e\<lparr>d_media := d_media d\<rparr>) = Some d'" "d_media d' = d_media d"
    using drive_device.wait_ready [of "e\<lparr>d_media := d_media d\<rparr>"] by auto
  ultimately show ?thesis by (simp add: write_sector_io_def)
qed

section \<open>Properties\<close>



end
