(* ===== verification/Rtl8139.thy ===== *)
theory Rtl8139
  imports Ports Net
begin

text \<open>
  The driver \<open>src/kernel/drivers/net/rtl8139.c\<close> at its ports: how it configures the card and how it transmits. The card behind the
  ports is an argument; what the driver relies on is the locale \<open>nic_device\<close>. \<open>None\<close> stands for a poll that never ends. The
  effects of the driver on the rest of the kernel are in \<open>Net\<close>.
\<close>

unbundle bit_operations_syntax

section \<open>Operations\<close>

partial_function (option) wait_reset_io :: "'c ports \<Rightarrow> u32 \<Rightarrow> 'c \<Rightarrow> 'c option" where
  "wait_reset_io io io_base d =
     (let (v, d) = inb io (port io_base 0x37) d in if v AND 0x10 \<noteq> 0 then wait_reset_io io io_base d else Some d)"

partial_function (option) wait_tok_io :: "'c ports \<Rightarrow> u32 \<Rightarrow> u8 \<Rightarrow> 'c \<Rightarrow> 'c option" where
  "wait_tok_io io io_base cur d =
     (let (v, d) = inw io (port io_base 0x3E) d
      in if v AND push_bit (unat cur + 2) 1 = 0 then wait_tok_io io io_base cur d else Some d)"

fun read_mac :: "'c ports \<Rightarrow> u32 \<Rightarrow> nat \<Rightarrow> nat \<Rightarrow> 'c \<Rightarrow> u8 list \<times> 'c" where
  "read_mac io io_base i 0 d = ([], d)"
| "read_mac io io_base i (Suc n) d =
     (let (v, d) = inb io (port io_base (of_nat i)) d; (vs, d) = read_mac io io_base (i + 1) n d in (v # vs, d))"

definition rtl8139_init_io :: "'c ports \<Rightarrow> u32 \<Rightarrow> u32 \<Rightarrow> 'c \<Rightarrow> (u8 list \<times> 'c) option" where
  "rtl8139_init_io io io_base rx d =
     (let d = outb io (port io_base 0x52) 0 d;
          d = outb io (port io_base 0x37) 0x10 d
      in map_option
           (\<lambda>d. let d = outl io (port io_base 0x30) rx d;
                    d = outw io (port io_base 0x3C) 0x0005 d;
                    d = outl io (port io_base 0x44) (0x0E OR push_bit 7 1) d;
                    d = outb io (port io_base 0x37) 0x0C d
                in read_mac io io_base 0 6 d)
           (wait_reset_io io io_base d))"

text \<open>The result is the next descriptor.\<close>

definition rtl8139_send_io :: "'c ports \<Rightarrow> u32 \<Rightarrow> u8 \<Rightarrow> u32 \<Rightarrow> u32 \<Rightarrow> 'c \<Rightarrow> (u8 \<times> 'c) option" where
  "rtl8139_send_io io io_base cur data len d =
     (let d = outl io (port io_base (0x20 + ucast cur * 4)) data d;
          transmit_size = (if len < 60 then 60 else len);
          d = outl io (port io_base (0x10 + ucast cur * 4)) transmit_size d
      in map_option (\<lambda>d. ((cur + 1) mod 4, outw io (port io_base 0x3E) (push_bit (unat cur + 2) 1) d)) (wait_tok_io io io_base cur d))"

section \<open>The card\<close>

record card_regs =
  rbstart :: u32
  imr :: u16
  rcr :: u32
  command :: u8
  tsad :: "u8 \<Rightarrow> u32"

text \<open>
  The transmitter: bits 2 and 3 of the interrupt status, the transmission that went well and the one that ended with an
  error, which stay set until they are acknowledged; and the transmission that is going on, with the number of reads until it
  ends and whether it ends with an error. A read of the interrupt status takes it one step further.
\<close>

record tx_status =
  tx_ok :: bool
  tx_err :: bool
  tx_left :: "(nat \<times> bool) option"

definition tx_quiet :: tx_status where
  "tx_quiet = \<lparr>tx_ok = False, tx_err = False, tx_left = None\<rparr>"

definition tx_poll :: "tx_status \<Rightarrow> tx_status" where
  "tx_poll s =
     (case tx_left s of
        None \<Rightarrow> s
      | Some (0, e) \<Rightarrow> \<lparr>tx_ok = tx_ok s \<or> \<not> e, tx_err = tx_err s \<or> e, tx_left = None\<rparr>
      | Some (Suc n, e) \<Rightarrow> s\<lparr>tx_left := Some (n, e)\<rparr>)"

text \<open>
  The card, by its data sheet: it stays in reset for a finite time, \<open>resetting\<close>, and a reset clears the interrupt status; a length
  written to one of the four transmit status registers hands the bytes at the address of that descriptor to the transmitter
  when it is enabled; this transmission takes any finite time, and the \<open>i\<close>th one ends with an error if \<open>failed i\<close>. Both
  outcomes are reported in the same two bits, whatever the descriptor was.
\<close>

locale nic_device =
  fixes io :: "'c ports"
    and base :: u32
    and regs :: "'c \<Rightarrow> card_regs"
    and ident :: "nat \<Rightarrow> u8"
    and sent :: "'c \<Rightarrow> (u32 \<times> u32) list"
    and xmit :: "'c \<Rightarrow> tx_status"
    and resetting :: "'c \<Rightarrow> nat"
    and failed :: "nat \<Rightarrow> bool"
  assumes command_read: "inb io (port base 0x37) d = (v, d') \<Longrightarrow>
      (if resetting d = 0 then v AND 0x10 = 0 \<and> resetting d' = 0 else v AND 0x10 \<noteq> 0 \<and> resetting d = Suc (resetting d')) \<and>
      sent d' = sent d \<and> xmit d' = xmit d"
    and power: "sent (outb io (port base 0x52) 0 d) = sent d"
    and reset: "sent (outb io (port base 0x37) 0x10 d) = sent d \<and> xmit (outb io (port base 0x37) 0x10 d) = tx_quiet"
    and write_rbstart: "resetting d = 0 \<Longrightarrow> regs (outl io (port base 0x30) a d) = (regs d)\<lparr>rbstart := a\<rparr> \<and>
      resetting (outl io (port base 0x30) a d) = 0 \<and> sent (outl io (port base 0x30) a d) = sent d \<and> xmit (outl io (port base 0x30) a d) = xmit d"
    and write_imr: "resetting d = 0 \<Longrightarrow> regs (outw io (port base 0x3C) w d) = (regs d)\<lparr>imr := w\<rparr> \<and>
      resetting (outw io (port base 0x3C) w d) = 0 \<and> sent (outw io (port base 0x3C) w d) = sent d \<and> xmit (outw io (port base 0x3C) w d) = xmit d"
    and write_rcr: "resetting d = 0 \<Longrightarrow> regs (outl io (port base 0x44) a d) = (regs d)\<lparr>rcr := a\<rparr> \<and>
      resetting (outl io (port base 0x44) a d) = 0 \<and> sent (outl io (port base 0x44) a d) = sent d \<and> xmit (outl io (port base 0x44) a d) = xmit d"
    and enable: "resetting d = 0 \<Longrightarrow> regs (outb io (port base 0x37) 0x0C d) = (regs d)\<lparr>command := 0x0C\<rparr> \<and>
      resetting (outb io (port base 0x37) 0x0C d) = 0 \<and> sent (outb io (port base 0x37) 0x0C d) = sent d \<and> xmit (outb io (port base 0x37) 0x0C d) = xmit d"
    and address_read: "resetting d = 0 \<Longrightarrow> i < 6 \<Longrightarrow> inb io (port base (of_nat i)) d = (v, d') \<Longrightarrow>
      v = ident i \<and> regs d' = regs d \<and> resetting d' = 0 \<and> sent d' = sent d \<and> xmit d' = xmit d"
    and write_tsad: "resetting d = 0 \<Longrightarrow> cur < 4 \<Longrightarrow> regs (outl io (port base (0x20 + ucast cur * 4)) a d) = (regs d)\<lparr>tsad := (tsad (regs d))(cur := a)\<rparr> \<and>
      resetting (outl io (port base (0x20 + ucast cur * 4)) a d) = 0 \<and> sent (outl io (port base (0x20 + ucast cur * 4)) a d) = sent d \<and>
      xmit (outl io (port base (0x20 + ucast cur * 4)) a d) = xmit d"
    and write_tsd: "resetting d = 0 \<Longrightarrow> cur < 4 \<Longrightarrow> command (regs d) AND 0x04 \<noteq> 0 \<Longrightarrow> unat n \<le> 1792 \<Longrightarrow> tx_left (xmit d) = None \<Longrightarrow>
      regs (outl io (port base (0x10 + ucast cur * 4)) n d) = regs d \<and> resetting (outl io (port base (0x10 + ucast cur * 4)) n d) = 0 \<and>
      sent (outl io (port base (0x10 + ucast cur * 4)) n d) = sent d @ [(tsad (regs d) cur, n)] \<and>
      (\<exists>k. xmit (outl io (port base (0x10 + ucast cur * 4)) n d) = (xmit d)\<lparr>tx_left := Some (k, failed (length (sent d)))\<rparr>)"
    and isr_read: "inw io (port base 0x3E) d = (w, d') \<Longrightarrow>
      regs d' = regs d \<and> resetting d' = resetting d \<and> sent d' = sent d \<and> xmit d' = tx_poll (xmit d) \<and>
      (w AND 0x04 \<noteq> 0 \<longleftrightarrow> tx_ok (xmit d')) \<and> (w AND 0x08 \<noteq> 0 \<longleftrightarrow> tx_err (xmit d'))"
    and acknowledge: "w \<in> {0x04, 0x08} \<Longrightarrow> regs (outw io (port base 0x3E) w d) = regs d \<and> resetting (outw io (port base 0x3E) w d) = resetting d \<and>
      sent (outw io (port base 0x3E) w d) = sent d \<and>
      xmit (outw io (port base 0x3E) w d) = (if w = 0x04 then (xmit d)\<lparr>tx_ok := False\<rparr> else (xmit d)\<lparr>tx_err := False\<rparr>)"
begin

lemma reset_ends: "\<exists>d'. wait_reset_io io base d = Some d' \<and> resetting d' = 0 \<and> sent d' = sent d \<and> xmit d' = xmit d"
proof (induction "resetting d" arbitrary: d)
  case 0
  obtain v d' where s: "inb io (port base 0x37) d = (v, d')" by fastforce
  show ?case using command_read [OF s] 0 by (subst wait_reset_io.simps) (simp add: s)
next
  case (Suc n)
  obtain v d' where s: "inb io (port base 0x37) d = (v, d')" by fastforce
  have d': "n = resetting d'" "v AND 0x10 \<noteq> 0" "sent d' = sent d" "xmit d' = xmit d" using command_read [OF s] Suc.hyps(2) by (auto split: if_splits)
  from Suc.hyps(1) [OF d'(1)] show ?case using d'(2-4) by (subst wait_reset_io.simps) (simp add: s)
qed

text \<open>
  The driver waits for bit 2 with descriptor 0 and for bit 3 with descriptor 1. It waits until the transmission ends if the
  bit is that of the outcome, and for ever otherwise.
\<close>

definition tx_bit :: "u8 \<Rightarrow> tx_status \<Rightarrow> bool" where
  "tx_bit cur s = (if cur = 0 then tx_ok s else tx_err s)"

lemma isr_bit:
  assumes "cur \<in> {0, 1}" and "inw io (port base 0x3E) d = (w, d')"
  shows "w AND push_bit (unat cur + 2) 1 = 0 \<longleftrightarrow> \<not> tx_bit cur (xmit d')"
  using assms(1) isr_read [OF assms(2)] by (auto simp: tx_bit_def)

lemma outcome_comes:
  assumes "cur \<in> {0, 1}" and "\<not> tx_bit cur (xmit d)" and "tx_left (xmit d) = Some (k, e)" and "e = (cur = 1)"
  shows "\<exists>d'. wait_tok_io io base cur d = Some d' \<and> regs d' = regs d \<and> resetting d' = resetting d \<and> sent d' = sent d \<and>
    xmit d' = \<lparr>tx_ok = tx_ok (xmit d) \<or> \<not> e, tx_err = tx_err (xmit d) \<or> e, tx_left = None\<rparr>"
  using assms(2,3)
proof (induction k arbitrary: d)
  case 0
  obtain w d' where s: "inw io (port base 0x3E) d = (w, d')" by fastforce
  have x: "xmit d' = \<lparr>tx_ok = tx_ok (xmit d) \<or> \<not> e, tx_err = tx_err (xmit d) \<or> e, tx_left = None\<rparr>"
    using isr_read [OF s] 0 by (simp add: tx_poll_def)
  then have "tx_bit cur (xmit d')" using assms(1,4) by (auto simp: tx_bit_def)
  then show ?case using isr_bit [OF assms(1) s] isr_read [OF s] x by (subst wait_tok_io.simps) (simp add: s)
next
  case (Suc k)
  obtain w d' where s: "inw io (port base 0x3E) d = (w, d')" by fastforce
  have x: "xmit d' = (xmit d)\<lparr>tx_left := Some (k, e)\<rparr>" "regs d' = regs d" "resetting d' = resetting d" "sent d' = sent d"
    using isr_read [OF s] Suc.prems by (simp_all add: tx_poll_def)
  then have b: "\<not> tx_bit cur (xmit d')" "tx_left (xmit d') = Some (k, e)" using Suc.prems(1) x(1) by (auto simp: tx_bit_def split: if_splits)
  from Suc.IH [OF this] show ?case using isr_bit [OF assms(1) s] x b(1) by (subst wait_tok_io.simps) (simp add: s)
qed

lemma outcome_never_comes:
  assumes "cur \<in> {0, 1}" and "\<not> tx_bit cur (xmit d)" and "tx_left (xmit d) = Some (k, e)" and "e \<noteq> (cur = 1)"
  shows "wait_tok_io io base cur d = None"
proof -
  define waits where "waits s \<longleftrightarrow> \<not> tx_bit cur s \<and> (case tx_left s of None \<Rightarrow> True | Some (n, e) \<Rightarrow> e \<noteq> (cur = 1))" for s
  let ?P = "\<lambda>i b c (d :: 'c) (d' :: 'c). i = io \<longrightarrow> b = base \<longrightarrow> c = cur \<longrightarrow> waits (xmit d) \<longrightarrow> False"
  have keep: "waits s \<Longrightarrow> waits (tx_poll s)" for s
    using assms(1) by (auto simp: waits_def tx_poll_def tx_bit_def split: option.splits nat.splits if_splits)
  have step: "?P i b c d d'"
    if ih: "\<And>i b c d d'. wait i b c d = Some d' \<Longrightarrow> ?P i b c d d'"
      and eq: "(let (v, d) = inw i (port b 0x3E) d in if v AND push_bit (unat c + 2) 1 = 0 then wait i b c d else Some d) = Some d'"
    for wait i b c d d'
  proof (intro impI)
    assume c: "i = io" "b = base" "c = cur" "waits (xmit d)"
    obtain w d1 where s: "inw io (port base 0x3E) d = (w, d1)" by fastforce
    have x: "waits (xmit d1)" using isr_read [OF s] keep c(4) by simp
    then have "w AND push_bit (unat cur + 2) 1 = 0" using isr_bit [OF assms(1) s] by (simp add: waits_def)
    then have "wait i b c d1 = Some d'" using eq c(1-3) s by simp
    from ih [OF this] c(1-3) x show False by blast
  qed
  have "wait_tok_io i b c d = Some d' \<Longrightarrow> ?P i b c d d'" for i b c d d'
    by (rule wait_tok_io.raw_induct [of ?P]) (rule step)
  then have "waits (xmit d) \<Longrightarrow> wait_tok_io io base cur d = Some d' \<Longrightarrow> False" for d' by blast
  moreover have "waits (xmit d)" using assms(2-4) by (simp add: waits_def)
  ultimately show ?thesis by (cases "wait_tok_io io base cur d") auto
qed

lemma mac_read:
  "resetting d = 0 \<Longrightarrow> i + n \<le> 6 \<Longrightarrow> \<exists>d'. read_mac io base i n d = (map ident [i..<i + n], d') \<and> regs d' = regs d \<and> resetting d' = 0 \<and> sent d' = sent d \<and> xmit d' = xmit d"
proof (induction n arbitrary: i d)
  case (Suc n)
  obtain v d1 where s: "inb io (port base (of_nat i)) d = (v, d1)" by fastforce
  have i: "i < 6" "Suc i + n \<le> 6" using Suc.prems(2) by simp_all
  have d1: "v = ident i" "regs d1 = regs d" "resetting d1 = 0" "sent d1 = sent d" "xmit d1 = xmit d" using address_read [OF Suc.prems(1) i(1) s] by simp_all
  have u: "[i..<i + Suc n] = i # [Suc i..<Suc i + n]" by (simp add: upt_conv_Cons)
  show ?case using Suc.IH [OF d1(3) i(2)] d1 s unfolding u by auto
qed simp

lemma configured:
  "\<exists>d'. rtl8139_init_io io base rx d = Some (map ident [0..<6], d') \<and> sent d' = sent d \<and> resetting d' = 0 \<and> xmit d' = tx_quiet \<and>
     rbstart (regs d') = rx \<and> imr (regs d') = 0x05 \<and> rcr (regs d') = 0x8E \<and> command (regs d') = 0x0C"
proof -
  define d1 where "d1 = outb io (port base 0x37) 0x10 (outb io (port base 0x52) 0 d)"
  have s1: "sent d1 = sent d" "xmit d1 = tx_quiet" using reset power by (simp_all add: d1_def)
  obtain d2 where d2: "wait_reset_io io base d1 = Some d2" "resetting d2 = 0" "sent d2 = sent d1" "xmit d2 = xmit d1" using reset_ends by blast
  define d3 where "d3 = outl io (port base 0x30) rx d2"
  define d4 where "d4 = outw io (port base 0x3C) 0x0005 d3"
  define d5 where "d5 = outl io (port base 0x44) (0x0E OR push_bit 7 1) d4"
  define d6 where "d6 = outb io (port base 0x37) 0x0C d5"
  note r3 = write_rbstart [OF d2(2), of rx, folded d3_def]
  note r4 = write_imr [of d3 "0x0005", folded d4_def]
  note r5 = write_rcr [of d4 "0x0E OR push_bit 7 1", folded d5_def]
  note r6 = enable [of d5, folded d6_def]
  have r: "resetting d6 = 0" using r3 r4 r5 r6 by blast
  obtain d7 where d7: "read_mac io base 0 6 d6 = (map ident [0..<6], d7)" "regs d7 = regs d6" "resetting d7 = 0" "sent d7 = sent d6" "xmit d7 = xmit d6"
    using mac_read [OF r, of 0 6] by (auto simp del: upt_rec_numeral)
  have "rtl8139_init_io io base rx d = Some (map ident [0..<6], d7)"
    unfolding rtl8139_init_io_def Let_def d1_def [symmetric] d2(1) option.map d3_def [symmetric] d4_def [symmetric] d5_def [symmetric]
      d6_def [symmetric] d7(1) ..
  moreover have "(0x0E OR push_bit 7 1 :: u32) = 0x8E" by simp
  ultimately show ?thesis using r3 r4 r5 r6 d7 s1 d2(3,4) by simp
qed

text \<open>A frame on descriptor 0 or 1 of a quiet card; the driver is told the outcome only if it is that of its bit.\<close>

lemma transmitted:
  assumes cur: "cur \<in> {0, 1}" and q: "resetting d = 0" "xmit d = tx_quiet" "command (regs d) AND 0x04 \<noteq> 0" and len: "unat len \<le> 1792"
  shows "if failed (length (sent d)) = (cur = 1) then
      \<exists>d'. rtl8139_send_io io base cur data len d = Some (cur + 1, d') \<and> sent d' = sent d @ [(data, if len < 60 then 60 else len)] \<and>
        resetting d' = 0 \<and> command (regs d') = command (regs d) \<and> xmit d' = tx_quiet
    else rtl8139_send_io io base cur data len d = None"
proof -
  let ?n = "if len < 60 then 60 else len"
  have c4: "cur < 4" "(cur + 1) mod 4 = cur + 1" using cur by auto
  define d1 where "d1 = outl io (port base (0x20 + ucast cur * 4)) data d"
  define d2 where "d2 = outl io (port base (0x10 + ucast cur * 4)) ?n d1"
  note r1 = write_tsad [OF q(1) c4(1), of data, folded d1_def]
  have "unat ?n \<le> 1792" "command (regs d1) AND 0x04 \<noteq> 0" "tx_left (xmit d1) = None" using len q r1 by (simp_all add: tx_quiet_def)
  then have r2: "regs d2 = regs d1" "resetting d2 = 0" "sent d2 = sent d1 @ [(tsad (regs d1) cur, ?n)]"
    "\<exists>k. xmit d2 = (xmit d1)\<lparr>tx_left := Some (k, failed (length (sent d1)))\<rparr>"
    using write_tsd [of d1 cur ?n, folded d2_def] r1 c4(1) by simp_all
  obtain k where x: "tx_left (xmit d2) = Some (k, failed (length (sent d)))" "\<not> tx_ok (xmit d2)" "\<not> tx_err (xmit d2)"
    using r2(4) r1 q(2) by (auto simp: tx_quiet_def)
  have nb: "\<not> tx_bit cur (xmit d2)" using x(2,3) by (simp add: tx_bit_def)
  have run: "rtl8139_send_io io base cur data len d =
      map_option (\<lambda>d. (cur + 1, outw io (port base 0x3E) (push_bit (unat cur + 2) 1) d)) (wait_tok_io io base cur d2)"
    by (simp add: rtl8139_send_io_def Let_def c4(2) flip: d1_def d2_def)
  show ?thesis
  proof (cases "failed (length (sent d)) = (cur = 1)")
    case True
    obtain d3 where d3: "wait_tok_io io base cur d2 = Some d3" "regs d3 = regs d2" "resetting d3 = resetting d2" "sent d3 = sent d2"
      "xmit d3 = \<lparr>tx_ok = cur = 0, tx_err = cur = 1, tx_left = None\<rparr>"
      using outcome_comes [OF cur nb x(1) True] x(2,3) True cur by auto
    define d4 where "d4 = outw io (port base 0x3E) (push_bit (unat cur + 2) 1) d3"
    have a: "push_bit (unat cur + 2) 1 = (if cur = 0 then 0x04 else 0x08 :: u16)" using cur by auto
    have "regs d4 = regs d3 \<and> resetting d4 = resetting d3 \<and> sent d4 = sent d3 \<and> xmit d4 = tx_quiet"
      using acknowledge [of "push_bit (unat cur + 2) 1" d3] cur d3(5) unfolding d4_def a by (auto simp: tx_quiet_def)
    moreover have "rtl8139_send_io io base cur data len d = Some (cur + 1, d4)" unfolding run d3(1) d4_def by simp
    ultimately show ?thesis using True d3(2-4) r1 r2(1-3) by simp
  next
    case False
    then show ?thesis using run outcome_never_comes [OF cur nb x(1) False] by simp
  qed
qed

end

section \<open>A card\<close>

text \<open>A machine that follows the data sheet, at the ports from 0xC000, that is ready after two polls; one frame in four fails.\<close>

record card =
  c_regs :: card_regs
  c_sent :: "(u32 \<times> u32) list"
  c_xmit :: tx_status
  c_resetting :: nat

definition card_failed :: "nat \<Rightarrow> bool" where
  "card_failed i \<longleftrightarrow> i mod 4 = 3"

definition card_ident :: "nat \<Rightarrow> u8" where
  "card_ident i = [0x52, 0x54, 0x00, 0x12, 0x34, 0x56] ! i"

definition card_inb :: "u16 \<Rightarrow> card \<Rightarrow> u8 \<times> card" where
  "card_inb p c =
     (if p = 0xC037 then
        (if c_resetting c = 0 then (command (c_regs c) AND 0x0F, c) else (0x10, c\<lparr>c_resetting := c_resetting c - 1\<rparr>))
      else (if p - 0xC000 < 6 then card_ident (unat (p - 0xC000)) else 0, c))"

definition card_outb :: "u16 \<Rightarrow> u8 \<Rightarrow> card \<Rightarrow> card" where
  "card_outb p v c =
     (if p \<noteq> 0xC037 then c
      else if v AND 0x10 \<noteq> 0 then c\<lparr>c_resetting := 2, c_xmit := tx_quiet\<rparr>
      else c\<lparr>c_regs := (c_regs c)\<lparr>command := v\<rparr>\<rparr>)"

definition card_inw :: "u16 \<Rightarrow> card \<Rightarrow> u16 \<times> card" where
  "card_inw p c =
     (if p \<noteq> 0xC03E then (0, c)
      else
        (let s = tx_poll (c_xmit c)
         in ((if tx_ok s then 4 else 0) OR (if tx_err s then 8 else 0), c\<lparr>c_xmit := s\<rparr>)))"

definition card_outw :: "u16 \<Rightarrow> u16 \<Rightarrow> card \<Rightarrow> card" where
  "card_outw p w c =
     (if p = 0xC03C then c\<lparr>c_regs := (c_regs c)\<lparr>imr := w\<rparr>\<rparr>
      else if p = 0xC03E then
        (let s = c_xmit c
         in c\<lparr>c_xmit := s\<lparr>tx_ok := tx_ok s \<and> w AND 4 = 0, tx_err := tx_err s \<and> w AND 8 = 0\<rparr>\<rparr>)
      else c)"

definition card_outl :: "u16 \<Rightarrow> u32 \<Rightarrow> card \<Rightarrow> card" where
  "card_outl p v c =
     (if p = 0xC030 then c\<lparr>c_regs := (c_regs c)\<lparr>rbstart := v\<rparr>\<rparr>
      else if p = 0xC044 then c\<lparr>c_regs := (c_regs c)\<lparr>rcr := v\<rparr>\<rparr>
      else
        case (find (\<lambda>k. p = port 0xC000 (0x20 + ucast k * 4)) [0, 1, 2, 3], find (\<lambda>k. p = port 0xC000 (0x10 + ucast k * 4)) [0, 1, 2, 3]) of
          (Some k, _) \<Rightarrow> c\<lparr>c_regs := (c_regs c)\<lparr>tsad := (tsad (c_regs c))(k := v)\<rparr>\<rparr>
        | (None, Some k) \<Rightarrow>
            if command (c_regs c) AND 4 = 0 then c
            else c\<lparr>c_sent := c_sent c @ [(tsad (c_regs c) k, v)], c_xmit := (c_xmit c)\<lparr>tx_left := Some (2, card_failed (length (c_sent c)))\<rparr>\<rparr>
        | (None, None) \<Rightarrow> c)"

definition card_ports :: "card ports" where
  "card_ports = \<lparr>inb = card_inb, outb = card_outb, inw = card_inw, outw = card_outw, outl = card_outl\<rparr>"

lemma u8_less_4: "(cur :: u8) < 4 \<Longrightarrow> cur = 0 \<or> cur = 1 \<or> cur = 2 \<or> cur = 3"
proof -
  assume "cur < 4"
  then have "unat cur < 4" by (simp add: word_less_nat_alt)
  then have "unat cur = 0 \<or> unat cur = 1 \<or> unat cur = 2 \<or> unat cur = 3" by linarith
  then show ?thesis by (simp add: word_unat_eq_iff)
qed

lemma less_6: "(i :: nat) < 6 \<Longrightarrow> i = 0 \<or> i = 1 \<or> i = 2 \<or> i = 3 \<or> i = 4 \<or> i = 5"
  by linarith

lemma descriptor_ports:
  "port 0xC000 (0x20 + ucast (0 :: u8) * 4) = 0xC020" "port 0xC000 (0x20 + ucast (1 :: u8) * 4) = 0xC024"
  "port 0xC000 (0x20 + ucast (2 :: u8) * 4) = 0xC028" "port 0xC000 (0x20 + ucast (3 :: u8) * 4) = 0xC02C"
  "port 0xC000 (0x10 + ucast (0 :: u8) * 4) = 0xC010" "port 0xC000 (0x10 + ucast (1 :: u8) * 4) = 0xC014"
  "port 0xC000 (0x10 + ucast (2 :: u8) * 4) = 0xC018" "port 0xC000 (0x10 + ucast (3 :: u8) * 4) = 0xC01C"
  by (simp_all add: port_def)

lemma card_outl_tsad:
  assumes "cur < 4"
  shows "card_outl (port 0xC000 (0x20 + ucast cur * 4)) a c = c\<lparr>c_regs := (c_regs c)\<lparr>tsad := (tsad (c_regs c))(cur := a)\<rparr>\<rparr>"
  using u8_less_4 [OF assms] by (elim disjE) (simp_all only: card_outl_def descriptor_ports find.simps, simp_all)

lemma card_outl_tsd:
  assumes "cur < 4" and "command (c_regs c) AND 4 \<noteq> 0"
  shows "card_outl (port 0xC000 (0x10 + ucast cur * 4)) n c =
   c\<lparr>c_sent := c_sent c @ [(tsad (c_regs c) cur, n)], c_xmit := (c_xmit c)\<lparr>tx_left := Some (2, card_failed (length (c_sent c)))\<rparr>\<rparr>"
  using u8_less_4 [OF assms(1)] assms(2) by (elim disjE) (simp_all only: card_outl_def descriptor_ports find.simps, simp_all)

lemma card_inb_ident: "i < 6 \<Longrightarrow> card_inb (port 0xC000 (of_nat i)) c = (card_ident i, c)"
  by (drule less_6) (auto simp: card_inb_def port_def)

lemma card_outl_other:
  "card_outl 0xC030 v c = c\<lparr>c_regs := (c_regs c)\<lparr>rbstart := v\<rparr>\<rparr>" "card_outl 0xC044 v c = c\<lparr>c_regs := (c_regs c)\<lparr>rcr := v\<rparr>\<rparr>"
  by (simp_all add: card_outl_def)

lemma card_ports_at:
  "port 0xC000 0x30 = 0xC030" "port 0xC000 0x37 = 0xC037" "port 0xC000 0x3C = 0xC03C" "port 0xC000 0x3E = 0xC03E"
  "port 0xC000 0x44 = 0xC044" "port 0xC000 0x52 = 0xC052"
  by (simp_all add: port_def)

lemmas card_simps = card_ports_def card_ports_at card_outl_tsad card_outl_tsd card_inb_ident card_outl_other

interpretation card_device: nic_device card_ports "0xC000" c_regs card_ident c_sent c_xmit c_resetting card_failed
proof unfold_locales
  fix c c' :: card and v
  assume "inb card_ports (port 0xC000 0x37) c = (v, c')"
  then show "(if c_resetting c = 0 then v AND 0x10 = 0 \<and> c_resetting c' = 0 else v AND 0x10 \<noteq> 0 \<and> c_resetting c = Suc (c_resetting c')) \<and>
      c_sent c' = c_sent c \<and> c_xmit c' = c_xmit c"
    by (auto simp: card_simps card_inb_def and.assoc split: if_splits)
next
  fix c c' :: card and w
  assume "inw card_ports (port 0xC000 0x3E) c = (w, c')"
  then show "c_regs c' = c_regs c \<and> c_resetting c' = c_resetting c \<and> c_sent c' = c_sent c \<and> c_xmit c' = tx_poll (c_xmit c) \<and>
      (w AND 0x04 \<noteq> 0 \<longleftrightarrow> tx_ok (c_xmit c')) \<and> (w AND 0x08 \<noteq> 0 \<longleftrightarrow> tx_err (c_xmit c'))"
    by (auto simp: card_simps card_inw_def Let_def split: if_splits)
next
  fix c :: card and w :: u16
  assume "w \<in> {0x04, 0x08}"
  then show "c_regs (outw card_ports (port 0xC000 0x3E) w c) = c_regs c \<and> c_resetting (outw card_ports (port 0xC000 0x3E) w c) = c_resetting c \<and>
      c_sent (outw card_ports (port 0xC000 0x3E) w c) = c_sent c \<and>
      c_xmit (outw card_ports (port 0xC000 0x3E) w c) = (if w = 0x04 then (c_xmit c)\<lparr>tx_ok := False\<rparr> else (c_xmit c)\<lparr>tx_err := False\<rparr>)"
    by (auto simp: card_simps card_outw_def Let_def)
next
  fix c :: card and cur :: u8 and n
  assume a: "cur < 4" "command (c_regs c) AND 0x04 \<noteq> 0"
  have "c_xmit (outl card_ports (port 0xC000 (0x10 + ucast cur * 4)) n c) = (c_xmit c)\<lparr>tx_left := Some (2, card_failed (length (c_sent c)))\<rparr>"
    using a by (simp add: card_simps)
  moreover assume "c_resetting c = 0"
  ultimately show "c_regs (outl card_ports (port 0xC000 (0x10 + ucast cur * 4)) n c) = c_regs c \<and>
      c_resetting (outl card_ports (port 0xC000 (0x10 + ucast cur * 4)) n c) = 0 \<and>
      c_sent (outl card_ports (port 0xC000 (0x10 + ucast cur * 4)) n c) = c_sent c @ [(tsad (c_regs c) cur, n)] \<and>
      (\<exists>k. c_xmit (outl card_ports (port 0xC000 (0x10 + ucast cur * 4)) n c) = (c_xmit c)\<lparr>tx_left := Some (k, card_failed (length (c_sent c)))\<rparr>)"
    using a by (intro conjI) (auto simp: card_simps)
qed (simp_all add: card_simps card_outb_def card_outw_def)

section \<open>Properties\<close>

text \<open>
  C29: On every card that works as its data sheet says, \<open>rtl8139_init\<close> ends with the receive ring set, the receiver and the
  transmitter enabled and the station address read. The first frame is handed to the transmitter with its length, at least 60,
  as \<open>Net\<close> has it, and the driver goes on when the card reports that it was sent; when the card reports an error instead, the driver
  waits for ever. The second frame is handed over too, but there it is the other way round: the driver waits for bit 3 of the interrupt
  status, which is the transmission error, and goes on only after an error; while transmissions succeed it waits for ever.
\<close>

theorem card_sends_one_frame:
  assumes "nic_device io base regs ident out xmit resetting failed" and "unat len \<le> 1792" and "unat len' \<le> 1792"
  shows "\<exists>d1. rtl8139_init_io io base rx d = Some (map ident [0..<6], d1) \<and> rbstart (regs d1) = rx \<and> command (regs d1) = 0x0C \<and> rcr (regs d1) = 0x8E \<and>
    (if failed (length (out d)) then rtl8139_send_io io base 0 data len d1 = None
     else
       \<exists>d2. rtl8139_send_io io base 0 data len d1 = Some (1, d2) \<and> out d2 = out d @ [(data, if len < 60 then 60 else len)] \<and>
         (if failed (length (out d) + 1) then
            \<exists>d3. rtl8139_send_io io base 1 data' len' d2 = Some (2, d3) \<and> out d3 = out d2 @ [(data', if len' < 60 then 60 else len')]
          else rtl8139_send_io io base 1 data' len' d2 = None))"
proof -
  obtain d1 where d1: "rtl8139_init_io io base rx d = Some (map ident [0..<6], d1)" "out d1 = out d" "resetting d1 = 0" "xmit d1 = tx_quiet"
    "rbstart (regs d1) = rx" "rcr (regs d1) = 0x8E" "command (regs d1) = 0x0C"
    using nic_device.configured [OF assms(1)] by blast
  have c: "command (regs d1) AND 0x04 \<noteq> 0" using d1(7) by simp
  note f = nic_device.transmitted [OF assms(1) _ d1(3,4) c assms(2), of 0 data]
  show ?thesis
  proof (cases "failed (length (out d))")
    case True
    then show ?thesis using d1 f by (intro exI [of _ d1]) simp
  next
    case False
    then obtain d2 where d2: "rtl8139_send_io io base 0 data len d1 = Some (1, d2)" "out d2 = out d @ [(data, if len < 60 then 60 else len)]"
      "resetting d2 = 0" "command (regs d2) = command (regs d1)" "xmit d2 = tx_quiet"
      using f d1(2) by auto
    have c2: "command (regs d2) AND 0x04 \<noteq> 0" using c d2(4) by simp
    have "if failed (length (out d) + 1) then
        \<exists>d3. rtl8139_send_io io base 1 data' len' d2 = Some (2, d3) \<and> out d3 = out d2 @ [(data', if len' < 60 then 60 else len')]
      else rtl8139_send_io io base 1 data' len' d2 = None"
      using nic_device.transmitted [OF assms(1) _ d2(3,5) c2 assms(3), of 1 data'] d2(2) by (auto split: if_splits)
    then show ?thesis using False d1 d2(1,2) by (intro exI [of _ d1]) simp
  qed
qed

theorem card_sends_one_frame_witness:
  "(\<exists>c d1 d2. c_sent c = [] \<and> rtl8139_init_io card_ports 0xC000 0x5000 c = Some (map card_ident [0..<6], d1) \<and>
     rtl8139_send_io card_ports 0xC000 0 0x9000 42 d1 = Some (1, d2) \<and> c_sent d2 = [(0x9000, 60)] \<and>
     rtl8139_send_io card_ports 0xC000 1 0x9000 42 d2 = None) \<and>
   (\<exists>c d1 d2 d3. length (c_sent c) = 2 \<and> rtl8139_init_io card_ports 0xC000 0x5000 c = Some (map card_ident [0..<6], d1) \<and>
     rtl8139_send_io card_ports 0xC000 0 0x9000 42 d1 = Some (1, d2) \<and> rtl8139_send_io card_ports 0xC000 1 0x9000 42 d2 = Some (2, d3))"
proof -
  define c where "c fs = \<lparr>c_regs = \<lparr>rbstart = 0, imr = 0, rcr = 0, command = 0, tsad = \<lambda>_. 0\<rparr>, c_sent = fs, c_xmit = tx_quiet, c_resetting = 0\<rparr>" for fs
  have c: "c_sent (c fs) = fs" for fs by (simp add: c_def)
  have n: "\<not> card_failed 0" "\<not> card_failed 1" "\<not> card_failed 2" "card_failed 3" "\<not> card_failed (Suc (Suc 0))" "card_failed (Suc (Suc (Suc 0)))"
    by (simp_all add: card_failed_def)
  have l: "length [(0 :: u32, 60 :: u32), (0, 60)] = 2" by simp
  note k = card_sends_one_frame [OF card_device.nic_device_axioms, of 42 42 "0x5000" "c _" "0x9000" "0x9000", unfolded c]
  show ?thesis
  proof (intro conjI)
    show "\<exists>c d1 d2. c_sent c = [] \<and> rtl8139_init_io card_ports 0xC000 0x5000 c = Some (map card_ident [0..<6], d1) \<and>
        rtl8139_send_io card_ports 0xC000 0 0x9000 42 d1 = Some (1, d2) \<and> c_sent d2 = [(0x9000, 60)] \<and>
        rtl8139_send_io card_ports 0xC000 1 0x9000 42 d2 = None"
      using k [of "[]"] n(1,2) c [of "[]"] by (auto simp del: upt_rec_numeral)
    show "\<exists>c d1 d2 d3. length (c_sent c) = 2 \<and> rtl8139_init_io card_ports 0xC000 0x5000 c = Some (map card_ident [0..<6], d1) \<and>
        rtl8139_send_io card_ports 0xC000 0 0x9000 42 d1 = Some (1, d2) \<and> rtl8139_send_io card_ports 0xC000 1 0x9000 42 d2 = Some (2, d3)"
    proof -
      obtain d1 d2 d3 where "rtl8139_init_io card_ports 0xC000 0x5000 (c [(0, 60), (0, 60)]) = Some (map card_ident [0..<6], d1)"
        "rtl8139_send_io card_ports 0xC000 0 0x9000 42 d1 = Some (1, d2)" "rtl8139_send_io card_ports 0xC000 1 0x9000 42 d2 = Some (2, d3)"
        using k [of "[(0, 60), (0, 60)]"] n(3-6) by (auto simp del: upt_rec_numeral)
      moreover have "length (c_sent (c [(0, 60), (0, 60)])) = 2" unfolding c by (rule l)
      ultimately show ?thesis by blast
    qed
  qed
qed

end
