(* ===== verification/Math.thy ===== *)
theory Math
  imports Complex_Main
begin

text \<open>
  The square root of \<open>src/kernel/libc/math.c\<close>, on real numbers. \<open>rnd\<close> is the rounding of the results of the floating-point
  unit, which depends on the processor and the compiler; overflow, infinities and NaN are not modelled.
\<close>

section \<open>Operation\<close>

definition newton_step :: "(real \<Rightarrow> real) \<Rightarrow> real \<Rightarrow> real \<Rightarrow> real" where
  "newton_step rnd x guess = rnd (0.5 * rnd (guess + rnd (x / guess)))"

definition math_sqrt :: "(real \<Rightarrow> real) \<Rightarrow> real \<Rightarrow> real" where
  "math_sqrt rnd x =
     (if x \<le> 0 then 0
      else
        (let guess = x
         in fold (\<lambda>i guess. newton_step rnd x guess) [0..<20] guess))"

section \<open>Lemmas\<close>

lemma fold_upt_steps: "fold (\<lambda>i g. f g) [0..<n] x = (f ^^ n) x"
  by (induction n) simp_all

lemma newton_above:
  assumes "0 < x" and "0 < g"
  shows "sqrt x \<le> newton_step (\<lambda>y. y) x g"
proof -
  have "0 \<le> (g - sqrt x)\<^sup>2" by simp
  then have "2 * sqrt x * g \<le> g * g + x" using assms(1) by (simp add: power2_eq_square algebra_simps)
  then show ?thesis using assms(2) by (simp add: newton_step_def field_simps)
qed

lemma newton_halves:
  assumes "0 < x" and "0 < g" and "sqrt x \<le> g"
  shows "newton_step (\<lambda>y. y) x g - sqrt x \<le> (g - sqrt x) / 2"
proof -
  define q where "q = x / g"
  have "x = sqrt x * sqrt x" using assms(1) by simp
  also have "\<dots> \<le> sqrt x * g" using assms(1,3) by (intro mult_left_mono) simp_all
  finally have "q \<le> sqrt x" using assms(2) by (simp add: q_def field_simps)
  then have "(g + q) / 2 - sqrt x \<le> (g - sqrt x) / 2" by (simp add: field_simps)
  then show ?thesis by (simp add: newton_step_def q_def)
qed

lemma newton_steps:
  assumes "0 < x"
  shows "sqrt x \<le> (newton_step (\<lambda>y. y) x ^^ Suc n) x \<and> (newton_step (\<lambda>y. y) x ^^ Suc n) x - sqrt x \<le> (x + 1) / 2 ^ Suc n"
proof (induction n)
  case 0
  have "newton_step (\<lambda>y. y) x x = (x + 1) / 2" using assms by (simp add: newton_step_def field_simps)
  then show ?case using newton_above [OF assms assms] assms by simp
next
  case (Suc n)
  let ?g = "(newton_step (\<lambda>y. y) x ^^ Suc n) x"
  have g: "sqrt x \<le> ?g" "?g - sqrt x \<le> (x + 1) / 2 ^ Suc n" using Suc.IH by blast+
  have pos: "0 < ?g" using g(1) assms by (smt (verit) real_sqrt_gt_zero)
  have "(newton_step (\<lambda>y. y) x ^^ Suc (Suc n)) x = newton_step (\<lambda>y. y) x ?g" by simp
  moreover have "newton_step (\<lambda>y. y) x ?g - sqrt x \<le> (x + 1) / 2 ^ Suc (Suc n)"
    using newton_halves [OF assms pos g(1)] g(2) by simp
  ultimately show ?case using newton_above [OF assms pos] by simp
qed

lemma newton_at_most_halves:
  assumes "mono rnd" and "rnd 0 = 0" and "0 < a" and "0 < x" and "rnd a = a" "rnd (a / 2) = a / 2" and "a \<le> g"
  shows "a / 2 \<le> newton_step rnd x g"
proof -
  have "0 \<le> x / g" using assms(3,4,7) by simp
  then have "0 \<le> rnd (x / g)" using monoD [OF assms(1)] assms(2) by metis
  then have "a \<le> g + rnd (x / g)" using assms(7) by simp
  then have "a \<le> rnd (g + rnd (x / g))" using monoD [OF assms(1)] assms(5) by metis
  then have "a / 2 \<le> 0.5 * rnd (g + rnd (x / g))" by simp
  then show ?thesis unfolding newton_step_def using monoD [OF assms(1)] assms(6) by metis
qed

section \<open>Properties\<close>

text \<open>
  Without rounding the result is never below the root, and above it by at most \<open>(x + 1) / 2 ^ 20\<close>.
\<close>

theorem sqrt_close:
  assumes "0 < x"
  shows "sqrt x \<le> math_sqrt (\<lambda>y. y) x \<and> math_sqrt (\<lambda>y. y) x - sqrt x \<le> (x + 1) / 2 ^ 20"
  using newton_steps [OF assms, of 19] assms by (simp add: math_sqrt_def fold_upt_steps del: upt_Suc funpow.simps)

theorem sqrt_close_witness: "2 \<le> math_sqrt (\<lambda>y. y) 4 \<and> math_sqrt (\<lambda>y. y) 4 \<le> 2 + 1 / 100000"
  using sqrt_close [of 4] real_sqrt_abs [of 2] by simp

text \<open>
  With any rounding that is monotone and exact on 0 and on the halves of \<open>x\<close>, twenty steps leave at least a
  \<open>2 ^ 20\<close>th of \<open>x\<close>: the result is too large by any factor when \<open>x\<close> is large enough.
\<close>

theorem sqrt_too_large:
  assumes "mono rnd" and "rnd 0 = 0" and "0 < x" and "\<forall>i \<le> 20. rnd (x / 2 ^ i) = x / 2 ^ i"
  shows "x / 2 ^ 20 \<le> math_sqrt rnd x"
proof -
  have "n \<le> 20 \<Longrightarrow> x / 2 ^ n \<le> (newton_step rnd x ^^ n) x" for n
  proof (induction n)
    case (Suc n)
    have "rnd (x / 2 ^ n) = x / 2 ^ n" "rnd (x / 2 ^ n / 2) = x / 2 ^ n / 2"
      using assms(4) [THEN spec, of n] assms(4) [THEN spec, of "Suc n"] Suc.prems by (simp_all add: field_simps)
    moreover have "0 < x / 2 ^ n" "x / 2 ^ n \<le> (newton_step rnd x ^^ n) x" using Suc assms(3) by simp_all
    ultimately have "x / 2 ^ n / 2 \<le> newton_step rnd x ((newton_step rnd x ^^ n) x)"
      using newton_at_most_halves [OF assms(1,2) _ assms(3)] by blast
    moreover have "x / 2 ^ Suc n = x / 2 ^ n / 2" by simp
    ultimately show ?case by (simp only: funpow.simps comp_def)
  qed simp
  from this [of 20] show ?thesis using assms(3) by (simp add: math_sqrt_def fold_upt_steps del: upt_Suc upt_rec_numeral)
qed

theorem sqrt_too_large_witness: "1024 * sqrt (2 ^ 60) \<le> math_sqrt (\<lambda>y. y) (2 ^ 60)"
proof -
  have "sqrt ((2 ^ 30)\<^sup>2) = 2 ^ 30" by (rule real_sqrt_unique) simp_all
  moreover have "(2 ^ 60 :: real) = (2 ^ 30)\<^sup>2" by (simp flip: power_mult)
  ultimately have "1024 * sqrt (2 ^ 60) = (2 :: real) ^ 40" by simp
  moreover have "(2 ^ 60 :: real) / 2 ^ 20 \<le> math_sqrt (\<lambda>y. y) (2 ^ 60)" by (rule sqrt_too_large) (simp_all add: monoI)
  ultimately show ?thesis by simp
qed

end
