(* ===== verification/Spec2Isabelle.thy ===== *)
theory Spec2Isabelle
  imports Kernel_Spec HashTable_Spec Ata Rtl8139 Math
begin

text \<open>
  Verification development of SojebOS, a small kernel for the i386 (\<open>src/kernel\<close>) with its built-in
  applications (\<open>src/apps\<close>).

  \<^bold>\<open>The program.\<close> \<open>kernel_main\<close> initialises the heap behind the image, identity paging for the first 16 MB, the
  descriptor tables, the FAT32 file system, the vector of applications and the network card, and then runs the shell.
  The shell polls the card, reads a line from the keyboard, splits it into words and calls the application registered
  under the first word, or loads a program of that name from the disk and enters user mode.

  \<^bold>\<open>Theories and sources.\<close> Every function of the C sources is a definition of the same name (with a suffix where HOL has
  the name already); structures are records with the source's fields; integers are words of their width.

  \<^item> \<open>Prelude\<close>: words of 8, 16 and 32 bits, bytes of words, C strings (\<open>cstr\<close>, \<open>cget\<close>, \<open>cstr_of\<close>), buffers.
  \<^item> \<open>CString\<close>: \<open>libc/string.c\<close>.
  \<^item> \<open>KHeap\<close>, \<open>KHeap_Spec\<close>: \<open>memory/memory.c\<close> on the bytes of memory, \<open>strdup\<close>; the list of blocks that the headers
    form, first fit on that list, and the locales \<open>allocator\<close> and \<open>copying_allocator\<close> with their laws and clients.
  \<^item> \<open>Memory\<close>: runs of bytes in memory. \<open>Vector\<close>: \<open>libc/vector.c\<close>, refined to lists of elements.
  \<^item> \<open>HashTable\<close>, \<open>HashTable_Spec\<close>: \<open>libc/hashtable.c\<close> on the heap, refined to maps from keys to values.
  \<^item> \<open>Ports\<close>: the port instructions of \<open>drivers/io.h\<close>, as arguments of the drivers.
  \<^item> \<open>Disk\<close>: \<open>fs/ata.c\<close> and \<open>fs/disk.c\<close>; the locale \<open>block_device\<close>. \<open>Ata\<close>: the driver at its ports,
    over any drive with the laws of the locale \<open>ata_device\<close>, refines \<open>Disk\<close>.
  \<^item> \<open>Fat32_Types\<close>, \<open>Fat32_Table\<close>, \<open>Fat32_Names\<close>, \<open>Fat32_Slots\<close>, \<open>Fat32_Dir\<close>, \<open>Fat32_File\<close>: \<open>fs/fat32.c\<close>, layered as
    data, allocation table (locale \<open>link_table\<close>), names, directories as lists of slots (locale \<open>entry_slots\<close>),
    directory operations and file contents. \<open>Vfs\<close>: \<open>fs/vfs.c\<close> with the FAT32 hooks.
  \<^item> \<open>Console\<close>: \<open>drivers/console.c\<close>. \<open>Paging\<close>: \<open>paging/paging.c\<close>. \<open>Gdt\<close>: \<open>gdt/\<close>. \<open>Pci\<close>: \<open>drivers/pci.c\<close>.
    \<open>Math\<close>: \<open>libc/math.c\<close> on real numbers, with the rounding of the floating-point unit as an argument.
  \<^item> \<open>Net\<close>: \<open>net/\<close> and \<open>drivers/net/rtl8139.c\<close>; the locale \<open>address_table\<close> of the ARP cache. \<open>Net_Any\<close>:
    frames of any contents. \<open>Rtl8139\<close>: the driver of the card at its ports, over any card with the laws of \<open>nic_device\<close>.
  \<^item> \<open>Process\<close>: \<open>elf/elf.h\<close> and \<open>process/process.c\<close>, the loader over files, heap and page tables.
  \<^item> \<open>Kernel_State\<close>: the state of the whole kernel; \<open>Apps\<close>: \<open>apps/\<close>; \<open>Shell\<close>: \<open>shell/shell.c\<close>; \<open>Kernel\<close>: \<open>kernel.c\<close>
    and the invariants \<open>kernel_ok\<close> and, with the memory the kernel scribbles on, \<open>running\<close>; \<open>Kernel_Boot\<close>: the boot;
    \<open>Kernel_Running\<close>: frames, \<open>ping\<close> and the vector test keep \<open>running\<close>; \<open>Kernel_Spec\<close>: commands and sessions.

  \<^bold>\<open>State.\<close> The component theories model their own statics and pass them explicitly. \<open>Kernel_State\<close> puts them together:
  one memory (\<open>kram\<close>), shared by heap, page tables, vector, packets and the names of the applications; the disk inside the
  file system state; the screen; the network state. Keyboard and card are lists of what they will deliver
  (\<open>keys\<close>, \<open>polls\<close>). The image, the heap and the packets lie in the identity mapping of the first 16 MB, and their addresses
  are used as addresses of memory. Frames and page tables may lie anywhere: after the boot \<open>Paging\<close> reaches them, and
  \<open>Process\<close> the pages of a program, through the page tables. The video memory goes on behind
  the screen, so that a store past its end shows.

  \<^bold>\<open>Errors, loops and bounds.\<close> An operation that may not return, that faults (a page that is not mapped), or whose behaviour C
  leaves undefined (\<open>s32\<close>: a signed sum, product or negation that no \<open>int\<close> holds) has an
  \<open>option\<close> as its result, with \<open>None\<close> for these cases; loops that may not end are \<open>partial_function (option)\<close>, all
  others terminate by a measure. There is no fuel: a theorem that says \<open>Some\<close> says that the code returns. Wrap-around is that
  of the words. The hypotheses on sizes (a file and one cluster below 4 GB, a payload of at most 1480 bytes, an image
  below 12 MB, free frames below 16 MB) are those under which the sums of the source do not wrap and its pointers are mapped, and the findings of the manifest name the cases beyond.

  \<^bold>\<open>What the lemmas show.\<close> For the heap: an invariant of memory kept by every sequence of operations, first fit, frees that join
  neighbours, contents that survive \<open>krealloc\<close>. For the hash table: well-formed chains of entries, and inserting and
  removing as updates of a map. For FAT32: links, chains and slots as abstract views that each operation changes in
  exactly one place; files and directories read back as written; the behaviour when the disk or a directory is full.
  For paging: translations that change in exactly one page, fresh zeroed frames, and the page faults of frames outside the identity
  mapping. For the screen: no store behind its 2000 cells. For the network: replies with valid
  checksums, learnt addresses, a receive ring that stays in its bounds, and the hang of the second transmission. For the
  drivers: on every device that follows its protocol, with sectors that cannot be accessed and transmissions that fail, what the register
  accesses do, and where they never return; a flush sent to a busy drive, which the protocol leaves open, is left open. For the loader: every
  segment at its place, the kernel untouched. For the kernel: the invariant holds after the boot and at every prompt, whatever commands, programs
  and frames came before, each command name leads to its application, and a line is its first ten words.

  \<^bold>\<open>Not modelled.\<close> The assembly (\<open>entry.S\<close>, loading descriptor tables, switching to user mode: the loader ends with the
  address it jumps to), interrupt handling (the kernel has none), the sample user program (an endless loop) and the
  structures and constants in headers that no code uses, as the scheduler's \<open>process_t\<close>.
  The card is free to store what it likes in the receive ring during a session, but nothing elsewhere in memory.
\<close>

end
